(* ===== verification/Prelude.thy ===== *)
theory Prelude
  imports Main "HOL-Library.List_Lexorder" "HOL-Library.Char_ord"
begin

text \<open>
  Shared vocabulary of the development.

  The relay keeps its state in SQLite tables and talks to them with prepared statements.  A
  table is a list of rows in rowid order; the statements the source uses become the four
  operators below.  JavaScript's truthiness of a nullable text column and the few string
  methods the source calls are here too, with the list lemmas every component needs.
\<close>

named_theorems sql \<open>unfolding of the statement operators\<close>
named_theorems table_pk \<open>primary keys of the tables are kept by the statement operators\<close>

section \<open>Statements over a table\<close>

text \<open>\<^verbatim>\<open>SELECT ... WHERE p\<close> with \<^verbatim>\<open>.all()\<close>.\<close>

definition select_all :: "('r \<Rightarrow> bool) \<Rightarrow> 'r list \<Rightarrow> 'r list" where
  [sql]: "select_all p rows = filter p rows"

text \<open>\<^verbatim>\<open>SELECT ... WHERE p\<close> with \<^verbatim>\<open>.get()\<close>: the first matching row, if any.\<close>

definition select_one :: "('r \<Rightarrow> bool) \<Rightarrow> 'r list \<Rightarrow> 'r option" where
  [sql]: "select_one p rows = List.find p rows"

text \<open>\<^verbatim>\<open>SELECT 1 ... WHERE p\<close> used as a truth value.\<close>

definition select_exists :: "('r \<Rightarrow> bool) \<Rightarrow> 'r list \<Rightarrow> bool" where
  [sql]: "select_exists p rows = list_ex p rows"

text \<open>\<^verbatim>\<open>UPDATE ... SET f WHERE p\<close>, and the \<^verbatim>\<open>changes\<close> it reports.\<close>

definition update_where :: "('r \<Rightarrow> bool) \<Rightarrow> ('r \<Rightarrow> 'r) \<Rightarrow> 'r list \<Rightarrow> 'r list" where
  [sql]: "update_where p f rows = map (\<lambda>r. if p r then f r else r) rows"

definition changes :: "('r \<Rightarrow> bool) \<Rightarrow> 'r list \<Rightarrow> nat" where
  [sql]: "changes p rows = length (filter p rows)"

text \<open>\<^verbatim>\<open>DELETE FROM ... WHERE p\<close>.\<close>

definition delete_where :: "('r \<Rightarrow> bool) \<Rightarrow> 'r list \<Rightarrow> 'r list" where
  [sql]: "delete_where p rows = filter (\<lambda>r. \<not> p r) rows"

text \<open>
  \<^verbatim>\<open>ORDER BY k ASC\<close> and \<^verbatim>\<open>ORDER BY k DESC\<close>: stable sorts of the rows in table order, so a
  tie on \<open>k\<close> keeps the order in which the rows were scanned.
\<close>

definition order_asc :: "('r \<Rightarrow> int) \<Rightarrow> 'r list \<Rightarrow> 'r list" where
  [sql]: "order_asc k rows = sort_key k rows"

definition order_desc :: "('r \<Rightarrow> int) \<Rightarrow> 'r list \<Rightarrow> 'r list" where
  [sql]: "order_desc k rows = sort_key (\<lambda>r. - k r) rows"

definition head_option :: "'r list \<Rightarrow> 'r option" where
  "head_option rows = (case rows of [] \<Rightarrow> None | r # _ \<Rightarrow> Some r)"

text \<open>\<^verbatim>\<open>LIMIT\<close> with an integer bound; SQLite reads a negative bound as no limit.\<close>

definition limit_rows :: "int \<Rightarrow> 'r list \<Rightarrow> 'r list" where
  "limit_rows n rows = (if n < 0 then rows else take (nat n) rows)"

section \<open>JavaScript truthiness and strings\<close>

text \<open>A nullable text column in a condition: null and the empty string are false.\<close>

fun truthy :: "string option \<Rightarrow> bool" where
  "truthy None = False"
| "truthy (Some v) = (v \<noteq> [])"

fun is_null :: "'a option \<Rightarrow> bool" where
  "is_null None = True"
| "is_null (Some _) = False"

definition is_space :: "char \<Rightarrow> bool" where
  "is_space c \<longleftrightarrow> of_char c \<in> {9, 10, 11, 12, 13, 32, 160 :: nat}"

text \<open>\<^verbatim>\<open>String.prototype.trim\<close>.\<close>

definition js_trim :: "string \<Rightarrow> string" where
  "js_trim v = rev (dropWhile is_space (rev (dropWhile is_space v)))"

definition starts_with :: "string \<Rightarrow> string \<Rightarrow> bool" where
  "starts_with p v \<longleftrightarrow> take (length p) v = p"

definition lower_char :: "char \<Rightarrow> char" where
  "lower_char c =
     (let n = of_char c :: nat in
      if 65 \<le> n \<and> n \<le> 90 \<or> 192 \<le> n \<and> n \<le> 222 \<and> n \<noteq> 215 then char_of (n + 32) else c)"

text \<open>\<^verbatim>\<open>String.prototype.toLowerCase\<close> on code units below 256.\<close>

definition js_lower :: "string \<Rightarrow> string" where
  "js_lower v = map lower_char v"

section \<open>Lemmas\<close>

lemma truthy_iff: "truthy v \<longleftrightarrow> (\<exists>x. v = Some x \<and> x \<noteq> [])"
  by (cases v) auto

lemma is_null_iff [simp]: "is_null v \<longleftrightarrow> v = None"
  by (cases v) auto

lemma select_one_Some:
  "select_one p rows = Some r \<Longrightarrow> r \<in> set rows \<and> p r"
  by (auto simp: sql find_Some_iff in_set_conv_nth)

lemma select_one_None: "select_one p rows = None \<longleftrightarrow> (\<forall>r\<in>set rows. \<not> p r)"
  by (auto simp: sql find_None_iff)

lemma select_exists_iff: "select_exists p rows \<longleftrightarrow> (\<exists>r\<in>set rows. p r)"
  by (auto simp: sql list_ex_iff)

lemma select_one_exists: "r \<in> set rows \<Longrightarrow> p r \<Longrightarrow> \<exists>r'. select_one p rows = Some r'"
  by (cases "select_one p rows") (auto simp: select_one_None)

lemma select_one_append:
  "select_one p (xs @ ys) = (case select_one p xs of None \<Rightarrow> select_one p ys | Some r \<Rightarrow> Some r)"
  by (induction xs) (auto simp: sql)

text \<open>A key that is unique among the rows picks out the row it names.\<close>

lemma select_one_unique:
  assumes "distinct (map k rows)" "r \<in> set rows"
  shows "select_one (\<lambda>x. k x = k r) rows = Some r"
proof -
  obtain r' where r': "select_one (\<lambda>x. k x = k r) rows = Some r'"
    using select_one_exists [of r rows "\<lambda>x. k x = k r"] assms(2) by auto
  then have "r' \<in> set rows" "k r' = k r"
    by (auto dest: select_one_Some)
  with assms have "r' = r"
    by (metis distinct_map inj_on_contraD)
  with r' show ?thesis by simp
qed

lemma length_update_where [simp]: "length (update_where p f rows) = length rows"
  by (simp add: sql)

lemma in_update_where:
  "r \<in> set (update_where p f rows) \<longleftrightarrow>
     (\<exists>q\<in>set rows. (p q \<and> r = f q) \<or> (\<not> p q \<and> r = q))"
  by (auto simp: sql)

lemma update_where_cases:
  assumes "r \<in> set (update_where p f rows)"
  obtains q where "q \<in> set rows" "r = (if p q then f q else q)"
  using assms unfolding update_where_def set_map by (rule imageE) blast

lemma select_one_update:
  assumes "\<And>r. p r \<Longrightarrow> q (u r) = q r"
  shows "select_one q (update_where p u rows) = map_option (\<lambda>r. if p r then u r else r) (select_one q rows)"
  using assms by (induction rows) (auto simp: sql)

lemma select_one_single: "select_one q [r] = (if q r then Some r else None)"
  by (simp add: sql)

lemma select_exists_update:
  assumes "select_exists q rows" "\<And>r. p r \<Longrightarrow> q r \<Longrightarrow> q (u r)"
  shows "select_exists q (update_where p u rows)"
  using assms by (induction rows) (auto simp: sql)

lemma select_exists_hit:
  "r \<in> set rows \<Longrightarrow> p r \<Longrightarrow> q (u r) \<Longrightarrow> select_exists q (update_where p u rows)"
  by (induction rows) (auto simp: sql)

lemma update_where_id: "(\<And>r. r \<in> set rows \<Longrightarrow> \<not> p r) \<Longrightarrow> update_where p f rows = rows"
  by (simp add: sql map_idI)

lemma in_delete_where [simp]: "r \<in> set (delete_where p rows) \<longleftrightarrow> r \<in> set rows \<and> \<not> p r"
  by (simp add: sql)

lemma map_update_where [simp]:
  "(\<And>r. p r \<Longrightarrow> k (f r) = k r) \<Longrightarrow> map k (update_where p f rows) = map k rows"
  by (simp add: sql)

lemma image_update_where [simp]:
  assumes "\<And>r. p r \<Longrightarrow> k (f r) = k r"
  shows "k ` set (update_where p f rows) = k ` set rows"
  using arg_cong [OF map_update_where [of p k f rows, OF assms], of set] by (simp only: set_map)

lemma changes_eq_0: "changes p rows = 0 \<longleftrightarrow> (\<forall>r\<in>set rows. \<not> p r)"
  by (auto simp: sql filter_empty_conv)

lemma changes_pos: "0 < changes p rows \<longleftrightarrow> (\<exists>r\<in>set rows. p r)"
  using changes_eq_0 [of p rows] by auto

lemma distinct_update_where [table_pk]:
  "distinct (map k rows) \<Longrightarrow> (\<And>r. p r \<Longrightarrow> k (f r) = k r) \<Longrightarrow> distinct (map k (update_where p f rows))"
  by simp

lemma distinct_delete_where [table_pk]:
  "distinct (map k rows) \<Longrightarrow> distinct (map k (delete_where p rows))"
  by (induction rows) (auto simp: sql)

lemma distinct_snoc_key [table_pk]:
  "distinct (map k rows) \<Longrightarrow> k r \<notin> k ` set rows \<Longrightarrow> distinct (map k (rows @ [r]))"
  by auto

text \<open>A predicate that fixes a unique key matches at most one row.\<close>

lemma changes_le_1:
  assumes "distinct (map k rows)" "\<And>r. r \<in> set rows \<Longrightarrow> p r \<Longrightarrow> k r = c"
  shows "changes p rows \<le> 1"
  using assms
proof (induction rows)
  case Nil
  then show ?case by (simp add: sql)
next
  case (Cons r rows)
  have IH: "changes p rows \<le> 1"
    using Cons by simp
  show ?case
  proof (cases "p r")
    case True
    then have "\<forall>q\<in>set rows. \<not> p q"
      using Cons.prems by force
    then show ?thesis by (simp add: sql filter_empty_conv)
  next
    case False
    with IH show ?thesis by (simp add: sql)
  qed
qed

lemma set_order_asc [simp]: "set (order_asc k rows) = set rows"
  by (simp add: sql)

lemma set_order_desc [simp]: "set (order_desc k rows) = set rows"
  by (simp add: sql)

lemma head_option_Some: "head_option rows = Some r \<Longrightarrow> r \<in> set rows"
  by (auto simp: head_option_def split: list.splits)

lemma head_option_None [simp]: "head_option rows = None \<longleftrightarrow> rows = []"
  by (auto simp: head_option_def split: list.splits)

text \<open>The newest row really is newest.\<close>

lemma head_order_desc_max:
  assumes "head_option (order_desc k rows) = Some r" "q \<in> set rows"
  shows "k q \<le> k r"
proof -
  have s: "sorted (map (\<lambda>x. - k x) (order_desc k rows))"
    by (simp add: sql)
  obtain rs where rs: "order_desc k rows = r # rs"
    using assms(1) by (auto simp: head_option_def split: list.splits)
  have "q \<in> set (r # rs)"
    using assms(2) rs set_order_desc [of k rows] by simp
  then show ?thesis using s rs by auto
qed

lemma set_limit_rows: "set (limit_rows n rows) \<subseteq> set rows"
  by (auto simp: limit_rows_def dest: in_set_takeD)

lemma length_limit_rows: "0 \<le> n \<Longrightarrow> int (length (limit_rows n rows)) \<le> n"
  by (simp add: limit_rows_def)

lemma starts_with_append: "starts_with p v \<Longrightarrow> v = p @ drop (length p) v"
  by (metis append_take_drop_id starts_with_def)

lemma append_prefix_inj: "(p :: 'a list) @ x = p @ y \<longleftrightarrow> x = y"
  by simp

section \<open>Bounded queues\<close>

text \<open>\<^verbatim>\<open>while (xs.length > n) xs.shift()\<close>.\<close>

definition keep_last :: "nat \<Rightarrow> 'a list \<Rightarrow> 'a list" where
  "keep_last n xs = drop (length xs - n) xs"

lemma length_keep_last: "length (keep_last n xs) = min n (length xs)"
  by (simp add: keep_last_def)

lemma keep_last_incl: "x \<in> set (keep_last n xs) \<Longrightarrow> x \<in> set xs"
  by (auto simp: keep_last_def dest: in_set_dropD)

lemma map_keep_last: "map f (keep_last n xs) = keep_last n (map f xs)"
  by (simp add: keep_last_def drop_map)

lemma keep_last_again: "keep_last k (keep_last k xs @ ys) = keep_last k (xs @ ys)"
proof (cases "length xs \<le> k")
  case False
  then have "length xs + length ys - k = length ys + (length xs - k)" "length xs + length ys - k - length xs = length ys - k" by simp_all
  with False show ?thesis by (simp add: keep_last_def)
qed (simp add: keep_last_def)

lemma find_in: "List.find P xs = Some x \<Longrightarrow> x \<in> set xs \<and> P x"
  by (auto simp: find_Some_iff)

section \<open>Systems of steps\<close>

text \<open>
  The interface every stateful component is used through: a start state, a step relation and
  an invariant the start state has and every step keeps.  What a client may then assume of any
  run is proved once, here.
\<close>

inductive reach :: "'s \<Rightarrow> ('s \<Rightarrow> 's \<Rightarrow> bool) \<Rightarrow> 's \<Rightarrow> bool" for start step where
  reach_start: "reach start step start"
| reach_step: "reach start step s \<Longrightarrow> step s t \<Longrightarrow> reach start step t"

locale stepping =
  fixes start :: 's and step :: "'s \<Rightarrow> 's \<Rightarrow> bool" and inv :: "'s \<Rightarrow> bool"
  assumes inv_start: "inv start"
    and inv_step: "inv s \<Longrightarrow> step s t \<Longrightarrow> inv t"
begin

lemma inv_reach: "reach start step s \<Longrightarrow> inv s"
  by (induction rule: reach.induct) (auto intro: inv_start inv_step)

end

end
