(* ===== verification/Json.thy ===== *)
theory Json
  imports Prelude
begin

text \<open>
  JSON values and their canonical serialisation (\<^verbatim>\<open>canonicalize\<close> in
  \<^verbatim>\<open>packages/sdk/src/identity/primitives.ts\<close> and
  \<^verbatim>\<open>packages/relay/src/operator-identity.ts\<close>, the same function in both), the structures that
  operator and agent keys sign, and the proof that the signed bytes determine the value that was
  signed.  Numbers are the integral ones; a string is a list of code units below 256.  An object
  is the list of its members in insertion order.
\<close>

section \<open>Values\<close>

datatype json =
    JNull
  | JBool bool
  | JNum int
  | JStr string
  | JArr "json list"
  | JObj "(string \<times> json) list"

text \<open>Reading a member: \<^verbatim>\<open>obj[key]\<close>, with \<open>None\<close> for undefined.\<close>

fun json_get :: "json \<Rightarrow> string \<Rightarrow> json option" where
  "json_get (JObj ms) k = map_of ms k"
| "json_get _ k = None"

text \<open>\<^verbatim>\<open>x ?? y\<close> on a member: null and undefined are replaced.\<close>

fun nullish :: "json option \<Rightarrow> bool" where
  "nullish None = True"
| "nullish (Some JNull) = True"
| "nullish (Some _) = False"

definition str_opt :: "string option \<Rightarrow> json" where
  "str_opt v = (case v of None \<Rightarrow> JNull | Some x \<Rightarrow> JStr x)"

section \<open>Serialisation\<close>

definition digit_char :: "nat \<Rightarrow> char" where
  "digit_char d = char_of (48 + d)"

fun nat_str :: "nat \<Rightarrow> string" where
  "nat_str n = (if n < 10 then [digit_char n] else nat_str (n div 10) @ [digit_char (n mod 10)])"

declare nat_str.simps [simp del]

definition int_str :: "int \<Rightarrow> string" where
  "int_str i = (if i < 0 then CHR ''-'' # nat_str (nat (- i)) else nat_str (nat i))"

definition hex_char :: "nat \<Rightarrow> char" where
  "hex_char d = char_of (if d < 10 then 48 + d else 87 + d)"

text \<open>The escapes of \<^verbatim>\<open>JSON.stringify\<close> for one code unit.\<close>

definition escape_char :: "char \<Rightarrow> string" where
  "escape_char c =
     (if c = CHR 0x22 then [CHR 0x5C, CHR 0x22]
      else if c = CHR 0x5C then [CHR 0x5C, CHR 0x5C]
      else if c = CHR 0x08 then [CHR 0x5C, CHR ''b'']
      else if c = CHR 0x0C then [CHR 0x5C, CHR ''f'']
      else if c = CHR 0x0A then [CHR 0x5C, CHR ''n'']
      else if c = CHR 0x0D then [CHR 0x5C, CHR ''r'']
      else if c = CHR 0x09 then [CHR 0x5C, CHR ''t'']
      else if (of_char c :: nat) < 32 then
        [CHR 0x5C, CHR ''u'', CHR ''0'', CHR ''0'',
         hex_char (of_char c div 16), hex_char (of_char c mod 16)]
      else [c])"

definition json_string :: "string \<Rightarrow> string" where
  "json_string v = CHR 0x22 # concat (map escape_char v) @ [CHR 0x22]"

text \<open>\<^verbatim>\<open>parts.join(",")\<close>.\<close>

fun join_comma :: "string list \<Rightarrow> string" where
  "join_comma [] = []"
| "join_comma [p] = p"
| "join_comma (p # q # ps) = p @ CHR '','' # join_comma (q # ps)"

text \<open>
  \<^verbatim>\<open>canonicalize\<close>: members in ascending order of their keys, no insignificant whitespace.
\<close>

fun canonicalize :: "json \<Rightarrow> string" where
  "canonicalize JNull = ''null''"
| "canonicalize (JBool b) = (if b then ''true'' else ''false'')"
| "canonicalize (JNum i) = int_str i"
| "canonicalize (JStr v) = json_string v"
| "canonicalize (JArr vs) = CHR ''['' # join_comma (map canonicalize vs) @ '']''"
| "canonicalize (JObj ms) =
     CHR ''{'' # join_comma (map (\<lambda>(k, t). json_string k @ CHR '':'' # t)
       (sort_key fst (map (\<lambda>(k, v). (k, canonicalize v)) ms))) @ ''}''"

section \<open>The structures that get signed\<close>

definition endorsementPayload :: "string \<Rightarrow> string \<Rightarrow> string \<Rightarrow> json" where
  "endorsementPayload fleetId newKeyId newPublicKeyB64url =
     JObj [(''v'', JNum 1), (''t'', JStr ''op-key-endorsement''), (''fleet_id'', JStr fleetId),
           (''key_id'', JStr newKeyId), (''public_key'', JStr newPublicKeyB64url)]"

definition revocationPayload :: "string \<Rightarrow> string \<Rightarrow> string \<Rightarrow> json" where
  "revocationPayload fleetId revokedKeyId revokedAt =
     JObj [(''v'', JNum 1), (''t'', JStr ''op-key-revocation''), (''fleet_id'', JStr fleetId),
           (''key_id'', JStr revokedKeyId), (''revoked_at'', JStr revokedAt)]"

text \<open>The un-revoke structure refuses an empty nonce (the source throws): \<open>None\<close>.\<close>

definition unrevokePayload ::
  "string \<Rightarrow> string \<Rightarrow> string \<Rightarrow> string \<Rightarrow> string \<Rightarrow> json option" where
  "unrevokePayload fleetId revokedKeyId revokedAtBeingCleared issuedAt nonce =
     (if nonce = [] then None
      else Some (JObj [(''v'', JNum 1), (''t'', JStr ''op-key-unrevoke''), (''fleet_id'', JStr fleetId),
             (''key_id'', JStr revokedKeyId),
             (''revoked_at_being_cleared'', JStr revokedAtBeingCleared),
             (''issued_at'', JStr issuedAt), (''nonce'', JStr nonce)]))"

definition agentKeyEndorsementPayload :: "string \<Rightarrow> string \<Rightarrow> string \<Rightarrow> string \<Rightarrow> json" where
  "agentKeyEndorsementPayload fleetId agentId agentKeyId agentPublicKeyB64url =
     JObj [(''v'', JNum 1), (''t'', JStr ''agent-key-endorsement''), (''fleet_id'', JStr fleetId),
           (''agent_id'', JStr agentId), (''key_id'', JStr agentKeyId),
           (''public_key'', JStr agentPublicKeyB64url)]"

section \<open>The signed bytes determine the value\<close>

subsection \<open>Strings\<close>

definition hex_val :: "char \<Rightarrow> nat" where
  "hex_val c = (let n = of_char c in if n < 58 then n - 48 else n - 87)"

lemma hex_val_hex_char [simp]: "d < 16 \<Longrightarrow> hex_val (hex_char d) = d"
  by (simp add: hex_val_def hex_char_def)

text \<open>Reading one escaped code unit back, with the rest of the input.\<close>

fun unescape :: "string \<Rightarrow> (char \<times> string) option" where
  "unescape (c # d # r) =
     (if c \<noteq> CHR 0x5C then Some (c, d # r)
      else if d = CHR ''u'' then
        (case r of _ # _ # a # b # r' \<Rightarrow> Some (char_of (16 * hex_val a + hex_val b), r') | _ \<Rightarrow> None)
      else if d = CHR ''b'' then Some (CHR 0x08, r)
      else if d = CHR ''f'' then Some (CHR 0x0C, r)
      else if d = CHR ''n'' then Some (CHR 0x0A, r)
      else if d = CHR ''r'' then Some (CHR 0x0D, r)
      else if d = CHR ''t'' then Some (CHR 0x09, r)
      else Some (d, r))"
| "unescape [c] = Some (c, [])"
| "unescape [] = None"

lemma unescape_escape: "unescape (escape_char c @ r) = Some (c, r)"
proof (cases "c \<in> {CHR 0x22, CHR 0x5C, CHR 0x08, CHR 0x0C, CHR 0x0A, CHR 0x0D, CHR 0x09}")
  case True
  then show ?thesis
    by (elim insertE emptyE) (simp_all add: escape_char_def)
next
  case False
  let ?n = "of_char c :: nat"
  have "?n < 32 \<Longrightarrow> char_of (16 * (?n div 16) + ?n mod 16) = c" "?n < 32 \<Longrightarrow> ?n div 16 < 16"
    by auto
  with False show ?thesis
    by (cases r) (auto simp: escape_char_def)
qed

lemma escape_char_inj: "escape_char c @ r = escape_char d @ r' \<Longrightarrow> c = d \<and> r = r'"
  by (metis unescape_escape option.inject prod.inject)

lemma escape_char_head: "\<exists>h t. escape_char c = h # t \<and> h \<noteq> CHR 0x22"
  by (auto simp: escape_char_def)

lemma escaped_inj:
  "concat (map escape_char u) @ CHR 0x22 # x = concat (map escape_char v) @ CHR 0x22 # y
   \<Longrightarrow> u = v \<and> x = y"
proof (induction u arbitrary: v)
  case Nil
  then show ?case using escape_char_head by (cases v) (auto, metis append_Cons list.inject)
next
  case (Cons c u)
  show ?case
  proof (cases v)
    case Nil
    with Cons.prems escape_char_head [of c] show ?thesis by auto
  next
    case (Cons d w)
    with Cons.prems
    have "c = d \<and> concat (map escape_char u) @ CHR 0x22 # x = concat (map escape_char w) @ CHR 0x22 # y"
      using escape_char_inj by auto
    with Cons.IH Cons show ?thesis by blast
  qed
qed

lemma json_string_inj: "json_string u @ x = json_string v @ y \<Longrightarrow> u = v \<and> x = y"
  using escaped_inj [of u x v y] by (simp add: json_string_def)


subsection \<open>Numbers\<close>

definition is_digit :: "char \<Rightarrow> bool" where
  "is_digit c \<longleftrightarrow> 48 \<le> (of_char c :: nat) \<and> (of_char c :: nat) \<le> 57"

lemma is_digit_digit_char [simp]: "d < 10 \<Longrightarrow> is_digit (digit_char d)"
  by (simp add: is_digit_def digit_char_def)

lemma digit_char_inj: "d < 10 \<Longrightarrow> e < 10 \<Longrightarrow> digit_char d = digit_char e \<longleftrightarrow> d = e"
proof -
  assume "d < 10" "e < 10"
  then have "(of_char (digit_char d) :: nat) = 48 + d" "(of_char (digit_char e) :: nat) = 48 + e"
    by (simp_all add: digit_char_def)
  then show ?thesis by (metis add_left_cancel)
qed

lemma nat_str_digits: "c \<in> set (nat_str n) \<Longrightarrow> is_digit c"
  by (induction n rule: nat_str.induct) (subst (asm) (2) nat_str.simps, auto split: if_splits)

lemma nat_str_nonempty: "nat_str n \<noteq> []"
  by (subst nat_str.simps) simp

lemma nat_str_small: "n < 10 \<Longrightarrow> nat_str n = [digit_char n]"
  by (subst nat_str.simps) simp

lemma nat_str_big: "\<not> n < 10 \<Longrightarrow> nat_str n = nat_str (n div 10) @ [digit_char (n mod 10)]"
  by (subst nat_str.simps) simp

lemma nat_str_inj: "nat_str m = nat_str n \<Longrightarrow> m = n"
proof (induction m arbitrary: n rule: nat_str.induct)
  case (1 m)
  show ?case
  proof (cases "m < 10"; cases "n < 10")
    assume "m < 10" "n < 10"
    with 1 show ?thesis by (simp add: nat_str_small digit_char_inj)
  next
    assume "m < 10" "\<not> n < 10"
    with 1 show ?thesis using nat_str_nonempty [of "n div 10"] by (simp add: nat_str_small nat_str_big)
  next
    assume "\<not> m < 10" "n < 10"
    with 1 show ?thesis by (simp add: nat_str_small nat_str_big nat_str_nonempty)
  next
    assume big: "\<not> m < 10" "\<not> n < 10"
    with 1 have "nat_str (m div 10) = nat_str (n div 10)" "m mod 10 = n mod 10"
      by (simp_all add: nat_str_big digit_char_inj)
    with big 1 have "m div 10 = n div 10" by blast
    with \<open>m mod 10 = n mod 10\<close> show ?thesis by (metis div_mult_mod_eq)
  qed
qed

text \<open>What may follow a serialised value: nothing, a separator or a closing bracket.\<close>

definition delim :: "string \<Rightarrow> bool" where
  "delim x \<longleftrightarrow> x = [] \<or> hd x \<in> {CHR '','', CHR '']'', CHR ''}''}"

lemma delim_simps [simp]:
  "delim []" "delim (CHR '','' # x)" "delim (CHR '']'' # x)" "delim (CHR ''}'' # x)"
  by (simp_all add: delim_def)

lemma delim_not_digit: "delim x \<Longrightarrow> takeWhile is_digit x = []"
  by (cases x) (auto simp: delim_def is_digit_def)

lemma nat_str_delim_inj:
  assumes "nat_str m @ x = nat_str n @ y" "delim x" "delim y"
  shows "m = n \<and> x = y"
proof -
  have "takeWhile is_digit (nat_str k @ z) = nat_str k" if "delim z" for k z
    using that nat_str_digits [of _ k] delim_not_digit [of z] by (simp add: takeWhile_append)
  with assms have "nat_str m = nat_str n" by metis
  with assms nat_str_inj show ?thesis by auto
qed

lemma nat_str_head: "\<exists>h t. nat_str n = h # t \<and> is_digit h"
  by (metis nat_str_digits nat_str_nonempty list.set_intros(1) neq_Nil_conv)

lemma int_str_head: "\<exists>h t. int_str i = h # t \<and> (is_digit h \<or> h = CHR ''-'')"
  using nat_str_head [of "nat i"] by (auto simp: int_str_def)

lemma minus_not_nat_str: "CHR ''-'' # x \<noteq> nat_str n @ y"
  using nat_str_head [of n] by (auto simp: is_digit_def)

lemma int_str_delim_inj:
  assumes "int_str i @ x = int_str j @ y" "delim x" "delim y"
  shows "i = j \<and> x = y"
proof (cases "i < 0"; cases "j < 0")
  assume neg: "i < 0" "j < 0"
  with assms nat_str_delim_inj [of "nat (- i)" x "nat (- j)" y] show ?thesis
    by (auto simp: int_str_def)
next
  assume "\<not> i < 0" "\<not> j < 0"
  with assms nat_str_delim_inj [of "nat i" x "nat j" y] show ?thesis
    by (auto simp: int_str_def)
next
  assume "i < 0" "\<not> j < 0"
  with assms(1) minus_not_nat_str [of "nat_str (nat (- i)) @ x" "nat j" y] show ?thesis
    by (simp add: int_str_def)
next
  assume "\<not> i < 0" "j < 0"
  with assms(1) minus_not_nat_str [of "nat_str (nat (- j)) @ y" "nat i" x] show ?thesis
    by (simp add: int_str_def)
qed

subsection \<open>Values\<close>

text \<open>The value with every object's members in ascending order of their keys.\<close>

fun sort_members :: "json \<Rightarrow> json" where
  "sort_members (JArr vs) = JArr (map sort_members vs)"
| "sort_members (JObj ms) = JObj (sort_key fst (map (\<lambda>(k, v). (k, sort_members v)) ms))"
| "sort_members j = j"

text \<open>Serialisation of a value in the order its members stand in.\<close>

fun plain :: "json \<Rightarrow> string" where
  "plain JNull = ''null''"
| "plain (JBool b) = (if b then ''true'' else ''false'')"
| "plain (JNum i) = int_str i"
| "plain (JStr v) = json_string v"
| "plain (JArr vs) = CHR ''['' # join_comma (map plain vs) @ '']''"
| "plain (JObj ms) = CHR ''{'' # join_comma (map (\<lambda>(k, v). json_string k @ CHR '':'' # plain v) ms) @ ''}''"

lemma insort_map_snd:
  "insort_key fst (k, f v) (map (\<lambda>(k, v). (k, f v)) ms)
   = map (\<lambda>(k, v). (k, f v)) (insort_key fst (k, v) ms)"
  by (induction ms) auto

lemma sort_map_snd:
  "sort_key fst (map (\<lambda>(k, v). (k, f v)) ms) = map (\<lambda>(k, v). (k, f v)) (sort_key fst ms)"
  by (induction ms) (auto simp: sort_key_simps insort_map_snd)

lemma canonicalize_plain: "canonicalize j = plain (sort_members j)"
proof (induction j)
  case (JArr vs)
  then show ?case by (simp add: comp_def cong: map_cong)
next
  case (JObj ms)
  have "map (\<lambda>(k, v). (k, canonicalize v)) ms = map (\<lambda>(k, v). (k, plain (sort_members v))) ms"
    by (rule map_cong) (auto intro: JObj)
  also have "\<dots> = map (\<lambda>(k, v). (k, plain v)) (map (\<lambda>(k, v). (k, sort_members v)) ms)"
    by (simp add: case_prod_unfold)
  finally have "sort_key fst (map (\<lambda>(k, v). (k, canonicalize v)) ms)
      = map (\<lambda>(k, v). (k, plain v)) (sort_key fst (map (\<lambda>(k, v). (k, sort_members v)) ms))"
    by (simp only: sort_map_snd)
  then show ?case by (simp add: case_prod_unfold comp_def)
qed auto

text \<open>The first character of a value's text; for the constructors it tells them apart.\<close>

fun tag :: "json \<Rightarrow> nat" where
  "tag JNull = 0"
| "tag (JBool b) = (if b then 1 else 2)"
| "tag (JNum i) = 3"
| "tag (JStr v) = 4"
| "tag (JArr vs) = 5"
| "tag (JObj ms) = 6"

definition head_tag :: "char \<Rightarrow> nat" where
  "head_tag c =
     (if is_digit c \<or> c = CHR ''-'' then 3 else if c = CHR ''n'' then 0 else if c = CHR ''t'' then 1 else if c = CHR ''f'' then 2
      else if c = CHR 0x22 then 4 else if c = CHR ''['' then 5 else if c = CHR ''{'' then 6
      else if c \<in> {CHR '','', CHR '']'', CHR ''}''} then 7 else 8)"

lemma head_tag_num: "is_digit h \<or> h = CHR ''-'' \<Longrightarrow> head_tag h = 3"
  by (simp add: head_tag_def)

lemma plain_tag: "\<exists>h t. plain j = h # t \<and> head_tag h = tag j"
proof (cases "\<exists>i. j = JNum i")
  case True
  then obtain i where "j = JNum i" by blast
  then show ?thesis using int_str_head [of i] head_tag_num by auto
next
  case False
  then show ?thesis
    by (cases j) (simp_all add: json_string_def head_tag_def is_digit_def)
qed

lemma plain_head:
  "\<exists>h t. plain j = h # t \<and> h \<notin> {CHR '','', CHR '']'', CHR ''}''}"
proof -
  obtain h t where "plain j = h # t" "head_tag h = tag j" using plain_tag by blast
  moreover have "tag j \<noteq> 7" by (cases j) auto
  ultimately show ?thesis by (auto simp: head_tag_def is_digit_def)
qed

lemma plain_tag_eq: "plain a @ x = plain b @ y \<Longrightarrow> tag a = tag b"
  using plain_tag [of a] plain_tag [of b] by auto

lemma join_comma_Cons: "join_comma (p # ps) = p @ (if ps = [] then [] else CHR '','' # join_comma ps)"
  by (cases ps) auto

text \<open>
  Lists of items between brackets: if each item can be read off the front, so can the list.
\<close>

lemma join_comma_inj:
  assumes items: "\<And>a b x y. a \<in> set as \<Longrightarrow> ser a @ x = ser b @ y \<Longrightarrow> delim x \<Longrightarrow> delim y \<Longrightarrow> a = b \<and> x = y"
    and head: "\<And>a. \<exists>h t. ser a = h # t \<and> h \<notin> {CHR '','', CHR '']'', CHR ''}''}"
    and close: "z \<in> {CHR '']'', CHR ''}''}"
    and eq: "join_comma (map ser as) @ z # x = join_comma (map ser bs) @ z # y"
  shows "as = bs \<and> x = y"
  using items eq
proof (induction as arbitrary: bs)
  case Nil
  show ?case
  proof (cases bs)
    case Nil
    with Nil.prems show ?thesis by simp
  next
    case (Cons b cs)
    with Nil.prems head [of b] close show ?thesis by (auto simp: join_comma_Cons)
  qed
next
  case (Cons a as)
  show ?case
  proof (cases bs)
    case Nil
    with Cons.prems head [of a] close show ?thesis by (auto simp: join_comma_Cons)
  next
    case (Cons b cs)
    let ?r = "\<lambda>l x. if l = [] then z # x else CHR '','' # join_comma (map ser l) @ z # x"
    have "ser a @ ?r as x = ser b @ ?r cs y"
      using Cons.prems(2) Cons by (simp add: join_comma_Cons split: if_splits)
    moreover have "delim (?r l x)" for l x using close by auto
    ultimately have "a = b \<and> ?r as x = ?r cs y"
      using Cons.prems(1) [of a "?r as x" b "?r cs y"] by simp
    then have ab: "a = b" and r: "?r as x = ?r cs y" by blast+
    have "as = cs \<and> x = y"
    proof (cases "as = [] \<or> cs = []")
      case True
      with r close show ?thesis by (auto split: if_splits)
    next
      case False
      with r have "join_comma (map ser as) @ z # x = join_comma (map ser cs) @ z # y" by simp
      then show ?thesis by (rule Cons.IH [rotated]) (rule Cons.prems(1), simp_all)
    qed
    with ab Cons show ?thesis by simp
  qed
qed


lemma tag_inv:
  "tag j = 0 \<Longrightarrow> j = JNull" "tag j = Suc 0 \<Longrightarrow> j = JBool True" "tag j = 2 \<Longrightarrow> j = JBool False"
  "tag j = 3 \<Longrightarrow> \<exists>i. j = JNum i" "tag j = 4 \<Longrightarrow> \<exists>v. j = JStr v"
  "tag j = 5 \<Longrightarrow> \<exists>vs. j = JArr vs" "tag j = 6 \<Longrightarrow> \<exists>ms. j = JObj ms"
  by (cases j; simp split: if_splits)+

definition plain_member :: "string \<times> json \<Rightarrow> string" where
  "plain_member m = json_string (fst m) @ CHR '':'' # plain (snd m)"

lemma plain_JObj: "plain (JObj ms) = CHR ''{'' # join_comma (map plain_member ms) @ ''}''"
  by (simp add: plain_member_def [abs_def] case_prod_unfold)

lemma plain_member_head: "\<exists>h t. plain_member m = h # t \<and> h \<notin> {CHR '','', CHR '']'', CHR ''}''}"
  by (simp add: plain_member_def json_string_def)

lemma plain_member_inj:
  assumes "\<And>b x y. plain (snd m) @ x = plain b @ y \<Longrightarrow> delim x \<Longrightarrow> delim y \<Longrightarrow> snd m = b \<and> x = y"
    and "plain_member m @ x = plain_member m' @ y" "delim x" "delim y"
  shows "m = m' \<and> x = y"
proof -
  have "fst m = fst m' \<and> CHR '':'' # plain (snd m) @ x = CHR '':'' # plain (snd m') @ y"
    using assms(2) json_string_inj [of "fst m" "CHR '':'' # plain (snd m) @ x" "fst m'" "CHR '':'' # plain (snd m') @ y"]
    by (simp add: plain_member_def)
  then show ?thesis using assms(1,3,4) by (auto intro: prod_eqI)
qed

lemma plain_inj:
  "plain a @ x = plain b @ y \<Longrightarrow> delim x \<Longrightarrow> delim y \<Longrightarrow> a = b \<and> x = y"
proof (induction a arbitrary: b x y)
  case (JNum i)
  then obtain j where "b = JNum j" using plain_tag_eq [of "JNum i"] tag_inv(4) by force
  with JNum int_str_delim_inj [of i x j y] show ?case by simp
next
  case (JStr v)
  then obtain w where "b = JStr w" using plain_tag_eq [of "JStr v"] tag_inv(5) by force
  with JStr json_string_inj [of v x w y] show ?case by simp
next
  case (JArr vs)
  then obtain ws where "b = JArr ws" using plain_tag_eq [of "JArr vs"] tag_inv(6) by force
  with JArr.prems have eq: "join_comma (map plain vs) @ CHR '']'' # x = join_comma (map plain ws) @ CHR '']'' # y"
    by simp
  have "vs = ws \<and> x = y"
    by (rule join_comma_inj [OF _ plain_head _ eq]) (use JArr.IH in blast)+
  with \<open>b = JArr ws\<close> show ?case by simp
next
  case (JObj ms)
  then obtain ns where "b = JObj ns" using plain_tag_eq [of "JObj ms"] tag_inv(7) by force
  with JObj.prems have eq:
    "join_comma (map plain_member ms) @ CHR ''}'' # x = join_comma (map plain_member ns) @ CHR ''}'' # y"
    by (simp add: plain_JObj del: plain.simps)
  have "ms = ns \<and> x = y"
  proof (rule join_comma_inj [OF _ plain_member_head _ eq])
    fix m m' u v
    assume "m \<in> set ms" "plain_member m @ u = plain_member m' @ v" "delim u" "delim v"
    moreover from \<open>m \<in> set ms\<close>
    have "snd m = c \<and> p = q" if "plain (snd m) @ p = plain c @ q" "delim p" "delim q" for c p q
      using that JObj.IH [of m "snd m"] by (simp add: snds.intros)
    ultimately show "m = m' \<and> u = v" by (intro plain_member_inj)
  qed simp
  with \<open>b = JObj ns\<close> show ?case by simp
next
  case JNull
  then have "b = JNull" using plain_tag_eq [of JNull] tag_inv(1) by force
  with JNull show ?case by simp
next
  case (JBool c)
  then have "b = JBool c" using plain_tag_eq [of "JBool c"] tag_inv(2,3) by (cases c) force+
  with JBool show ?case by simp
qed


lemma canonicalize_inj: "canonicalize a = canonicalize b \<Longrightarrow> sort_members a = sort_members b"
  using plain_inj [of "sort_members a" "[]" "sort_members b" "[]"] by (simp add: canonicalize_plain)

text \<open>
  C37: Two values have the same canonical text exactly when they are equal up to the order in which
  their objects list their members.  A signature over \<open>canonicalize\<close> therefore covers the whole
  value: no two different envelopes, endorsements or revocations share the signed bytes.
\<close>

theorem canonicalize_iff: "canonicalize a = canonicalize b \<longleftrightarrow> sort_members a = sort_members b"
  by (metis canonicalize_inj canonicalize_plain)

lemmas payload_defs =
  endorsementPayload_def revocationPayload_def agentKeyEndorsementPayload_def unrevokePayload_def

lemma payloads_by_value:
  "canonicalize (endorsementPayload f k p) = canonicalize (endorsementPayload f' k' p')
     \<longleftrightarrow> f = f' \<and> k = k' \<and> p = p'"
  "canonicalize (revocationPayload f k t) = canonicalize (revocationPayload f' k' t')
     \<longleftrightarrow> f = f' \<and> k = k' \<and> t = t'"
  "canonicalize (agentKeyEndorsementPayload f a k p) = canonicalize (agentKeyEndorsementPayload f' a' k' p')
     \<longleftrightarrow> f = f' \<and> a = a' \<and> k = k' \<and> p = p'"
  by (auto simp: payload_defs simp del: canonicalize.simps dest!: canonicalize_inj)

lemma payloads_distinct:
  "canonicalize (endorsementPayload f k p) \<noteq> canonicalize (revocationPayload f' k' t')"
  "canonicalize (endorsementPayload f k p) \<noteq> canonicalize (agentKeyEndorsementPayload f' a' k' p')"
  "canonicalize (revocationPayload f k t) \<noteq> canonicalize (agentKeyEndorsementPayload f' a' k' p')"
  by (auto simp: payload_defs simp del: canonicalize.simps dest!: canonicalize_inj)

lemma unrevoke_distinct:
  "map_option canonicalize (unrevokePayload f k t i n) \<noteq> Some (canonicalize (endorsementPayload f' k' p'))"
  "map_option canonicalize (unrevokePayload f k t i n) \<noteq> Some (canonicalize (revocationPayload f' k' t'))"
  by (auto simp: payload_defs simp del: canonicalize.simps dest!: canonicalize_inj)

text \<open>
  The four structures that operator keys sign are told apart by their bytes, and an
  endorsement's or a revocation's bytes name the fleet, the key and the value they were made for.
  A signature made for one purpose, fleet or key never verifies as a signature for another.
\<close>

theorem signed_payloads_separated:
  "(canonicalize (endorsementPayload f k p) = canonicalize (endorsementPayload f' k' p')
      \<longleftrightarrow> f = f' \<and> k = k' \<and> p = p') \<and>
   (canonicalize (revocationPayload f k t) = canonicalize (revocationPayload f' k' t')
      \<longleftrightarrow> f = f' \<and> k = k' \<and> t = t') \<and>
   (canonicalize (agentKeyEndorsementPayload f a k p) = canonicalize (agentKeyEndorsementPayload f' a' k' p')
      \<longleftrightarrow> f = f' \<and> a = a' \<and> k = k' \<and> p = p') \<and>
   canonicalize (endorsementPayload f k p) \<noteq> canonicalize (revocationPayload f' k' t') \<and>
   canonicalize (endorsementPayload f k p) \<noteq> canonicalize (agentKeyEndorsementPayload f' a' k' p') \<and>
   canonicalize (revocationPayload f k t) \<noteq> canonicalize (agentKeyEndorsementPayload f' a' k' p') \<and>
   map_option canonicalize (unrevokePayload f k t i n)
     \<notin> {Some (canonicalize (endorsementPayload f' k' p')), Some (canonicalize (revocationPayload f' k' t'))}"
  by (intro conjI payloads_by_value payloads_distinct)
    (simp add: unrevoke_distinct del: canonicalize.simps map_option_eq_Some)

end
