(* ===== verification/Relay_Store.thy ===== *)
theory Relay_Store
  imports Json
begin

text \<open>
  The relay's state and its surroundings: the configuration (\<^verbatim>\<open>config.ts\<close>), the cryptography and
  the random identifiers the relay calls out for, one record per table of \<^verbatim>\<open>schema.ts\<close>, the whole
  database as a record of tables, and the two helpers every operation uses, \<^verbatim>\<open>id\<close> and
  \<^verbatim>\<open>recordEvent\<close>.

  An instant is the number of milliseconds since the epoch.  The relay stores instants as the text
  of \<^verbatim>\<open>Date.toISOString()\<close> and compares the texts; \<open>Iso_Time\<close> proves that this is the order of the
  instants.  Columns that hold text a client chose (a signed \<^verbatim>\<open>revoked_at\<close>, an acknowledgement's
  \<^verbatim>\<open>received_at\<close>) stay text.  JSON columns hold the value that \<^verbatim>\<open>JSON.parse\<close> gives back.
\<close>

section \<open>Surroundings\<close>

record config =
  operatorSessionTtlSeconds :: int
  timestampSkewSeconds :: int
  envelopeNonceRetentionSeconds :: int
  retryBackoffSeconds :: "int list"
  maxRetries :: int
  deliveryTimeoutSeconds :: int
  rateLimitWindowSeconds :: int
  rateLimitMaxMessages :: int
  loginMaxFailures :: int
  loginWindowSeconds :: int
  loginThrottleMaxBuckets :: int
  floorTtlSeconds :: int
  floorTtlMaxSeconds :: int
  floorTailLimit :: int
  heartbeatLivenessThreshold :: int
  heartbeatTimeoutSeconds :: int
  rateLimitViolationThreshold :: int
  rateLimitViolationWindowSeconds :: int
  attachmentMaxBytes :: int
  attachmentMaxPerMessage :: int
  attachmentUploadMaxPerWindow :: int
  attachmentFleetQuotaBytes :: int
  attachmentUnboundTtlSeconds :: int
  attachmentRetentionSeconds :: int
  heartbeatRetentionSeconds :: int
  eventRetentionSeconds :: int

text \<open>The defaults, when no environment variable overrides them.\<close>

definition default_config :: config where
  "default_config =
     \<lparr> operatorSessionTtlSeconds = 86400, timestampSkewSeconds = 300,
       envelopeNonceRetentionSeconds = 24 * 3600 + 1200,
       retryBackoffSeconds = [60, 300, 900, 3600, 7200], maxRetries = 5,
       deliveryTimeoutSeconds = 120, rateLimitWindowSeconds = 60, rateLimitMaxMessages = 30,
       loginMaxFailures = 10, loginWindowSeconds = 900, loginThrottleMaxBuckets = 50000,
       floorTtlSeconds = 240, floorTtlMaxSeconds = 600, floorTailLimit = 20,
       heartbeatLivenessThreshold = 3, heartbeatTimeoutSeconds = 90,
       rateLimitViolationThreshold = 5, rateLimitViolationWindowSeconds = 3600,
       attachmentMaxBytes = 25 * 1024 * 1024, attachmentMaxPerMessage = 10, attachmentUploadMaxPerWindow = 20,
       attachmentFleetQuotaBytes = 1024 * 1024 * 1024, attachmentUnboundTtlSeconds = 6 * 3600,
       attachmentRetentionSeconds = 30 * 24 * 3600, heartbeatRetentionSeconds = 48 * 3600,
       eventRetentionSeconds = 30 * 24 * 3600 \<rparr>"

text \<open>
  Cryptography is not the relay's own code: Ed25519 and SHA-256 come from \<^verbatim>\<open>@noble\<close> packages and from
  Node.  Every operation that needs it takes it as an argument: the check of an Ed25519 signature
  (base64url text) over a message under a public key (base64url text), the two digests, and
  HMAC-SHA-256.  The last member is what the plugin draws in place of a digest (\<^verbatim>\<open>randomBytes\<close>, \<open>Stash\<close>) for a value that
  \<^verbatim>\<open>canonicalize\<close> throws on, because its nesting exhausts the call stack; it is \<open>None\<close> for every other value.
\<close>

record crypto =
  ed_verify :: "string \<Rightarrow> string \<Rightarrow> string \<Rightarrow> bool"
  sha256_b64url :: "string \<Rightarrow> string"
  sha256_hex :: "string \<Rightarrow> string"
  hmac_hex :: "string \<Rightarrow> string \<Rightarrow> string"
  uncomparable_token :: "json \<Rightarrow> string option"

text \<open>
  What one operation sees of the world: the clock, read once per operation; the stream of random
  UUIDs (\<^verbatim>\<open>crypto.randomUUID()\<close> without the dashes), of which the store counts how many were
  drawn; the cryptography; the configuration.
\<close>

record env =
  now :: int
  uuid :: "nat \<Rightarrow> string"
  cryp :: crypto
  cfg :: config

text \<open>\<^verbatim>\<open>verifyCanonical(payload, sig, fromB64url(publicKey))\<close>.\<close>

definition verifyCanonical :: "crypto \<Rightarrow> json \<Rightarrow> string \<Rightarrow> string \<Rightarrow> bool" where
  "verifyCanonical C payload sig publicKey = ed_verify C (canonicalize payload) sig publicKey"

text \<open>\<^verbatim>\<open>keyId\<close>: the first sixteen characters of the base64url digest of the public key.\<close>

definition keyId :: "crypto \<Rightarrow> string \<Rightarrow> string" where
  "keyId C publicKey = take 16 (sha256_b64url C publicKey)"

text \<open>\<^verbatim>\<open>addSeconds\<close> on instants.\<close>

definition addSeconds :: "int \<Rightarrow> int \<Rightarrow> int" where
  "addSeconds t seconds = t + seconds * 1000"

section \<open>Tables\<close>

record fleet_row =
  fl_id :: string
  fl_name :: string
  fl_created_at :: int

record operator_row =
  op_id :: string
  op_fleet_id :: string
  op_email :: string
  op_password_hash :: string
  op_role :: string
  op_created_at :: int
  op_display_name :: "string option"

record agent_row =
  ag_id :: string
  ag_fleet_id :: string
  ag_display_name :: string
  ag_runtime :: string
  ag_status :: string
  ag_hostname :: "string option"
  ag_policy_profile :: string
  ag_created_at :: int
  ag_last_seen_at :: "int option"
  ag_revoked_at :: "int option"
  ag_missed_heartbeats :: int
  ag_auto_quarantined_at :: "int option"
  ag_quarantine_reason :: "string option"
  ag_operator_trusted :: bool
  ag_peer_autoreply :: bool
  ag_peer_turn_budget :: int

record credential_row =
  cr_id :: string
  cr_agent_id :: string
  cr_secret_hash :: string
  cr_status :: string
  cr_created_at :: int

record token_row =
  tk_id :: string
  tk_fleet_id :: string
  tk_token_hash :: string
  tk_issued_by :: string
  tk_expires_at :: int
  tk_used_at :: "int option"
  tk_used_by_agent_id :: "string option"

record message_row =
  ms_id :: string
  ms_fleet_id :: string
  ms_conversation_id :: string
  ms_correlation_id :: string
  ms_sender_agent_id :: string
  ms_recipient_kind :: string
  ms_recipient_id :: "string option"
  ms_message_type :: string
  ms_priority :: string
  ms_requires_approval :: bool
  ms_body :: json
  ms_metadata :: "json option"
  ms_ttl_seconds :: int
  ms_created_at :: int
  ms_expires_at :: int
  ms_status :: string

record delivery_row =
  dl_id :: string
  dl_message_id :: string
  dl_recipient_agent_id :: string
  dl_delivery_attempts :: int
  dl_queued_at :: int
  dl_delivered_at :: "int option"
  dl_acked_at :: "string option"
  dl_status :: string
  dl_retry_count :: int
  dl_next_retry_at :: "int option"
  dl_last_failure_reason :: "string option"

record room_row =
  rm_id :: string
  rm_fleet_id :: string
  rm_name :: string
  rm_created_at :: int
  rm_created_by_operator_id :: "string option"
  rm_created_by_agent_id :: "string option"
  rm_project_mode :: bool
  rm_project_turn_budget :: int

record heartbeat_row =
  hb_id :: string
  hb_agent_id :: string
  hb_status :: string
  hb_metrics :: json
  hb_received_at :: int

record event_row =
  ev_id :: string
  ev_fleet_id :: string
  ev_event_type :: string
  ev_actor_kind :: string
  ev_actor_id :: "string option"
  ev_resource_kind :: string
  ev_resource_id :: "string option"
  ev_conversation_id :: "string option"
  ev_payload :: json
  ev_created_at :: int

record approval_row =
  ap_id :: string
  ap_fleet_id :: string
  ap_agent_id :: string
  ap_conversation_id :: "string option"
  ap_action_type :: string
  ap_risk_level :: string
  ap_summary :: string
  ap_payload :: json
  ap_status :: string
  ap_requested_at :: int
  ap_resolved_at :: "int option"
  ap_resolved_by_operator_id :: "string option"

record policy_row =
  po_id :: string
  po_fleet_id :: string
  po_name :: string
  po_scope_kind :: string
  po_scope_id :: "string option"
  po_rule :: json
  po_enabled :: bool
  po_created_at :: int

record control_row =
  ca_id :: string
  ca_fleet_id :: string
  ca_target_kind :: string
  ca_target_id :: string
  ca_action :: string
  ca_payload :: json
  ca_issued_by_operator_id :: string
  ca_created_at :: int
  ca_expires_at :: "int option"

record nonce_row =
  nc_id :: string
  nc_agent_id :: string
  nc_nonce :: string
  nc_created_at :: int

record dead_letter_row =
  dd_id :: string
  dd_fleet_id :: string
  dd_original_message_id :: string
  dd_original_delivery_id :: string
  dd_recipient_agent_id :: string
  dd_sender_agent_id :: string
  dd_conversation_id :: string
  dd_message_type :: string
  dd_body :: json
  dd_metadata :: "json option"
  dd_retry_count :: int
  dd_failure_reason :: string
  dd_dead_lettered_at :: int

record counter_row =
  rc_agent_id :: string
  rc_window_start :: int
  rc_message_count :: int

record violation_row =
  rv_id :: string
  rv_fleet_id :: string
  rv_agent_id :: string
  rv_window_start :: int
  rv_message_count :: int
  rv_limit_value :: int
  rv_created_at :: int

record attachment_row =
  at_id :: string
  at_fleet_id :: string
  at_uploader_kind :: string
  at_uploader_id :: string
  at_filename :: string
  at_mime :: string
  at_size_bytes :: int
  at_storage_path :: string
  at_created_at :: int
  at_bound_message_id :: "string option"
  at_bound_at :: "int option"

record operator_key_row =
  ok_fleet_id :: string
  ok_key_id :: string
  ok_public_key :: string
  ok_label :: string
  ok_created_at :: int
  ok_last_used_at :: "int option"
  ok_revoked_at :: "string option"
  ok_endorsed_by_key_id :: "string option"
  ok_endorsement_sig :: "string option"
  ok_revoked_by_key_id :: "string option"
  ok_revocation_sig :: "string option"

record grant_row =
  gr_id :: string
  gr_fleet_id :: string
  gr_endorser_key_id :: string
  gr_target_key_id :: string
  gr_confirmed_by :: string
  gr_created_at :: int
  gr_expires_at :: int
  gr_consumed_at :: "int option"
  gr_cancelled_at :: "int option"

record identity_key_row =
  ik_agent_id :: string
  ik_fleet_id :: string
  ik_key_id :: string
  ik_public_key :: string
  ik_created_at :: int
  ik_revoked_at :: "int option"
  ik_endorsed_by_key_id :: "string option"
  ik_endorsement_sig :: "string option"
  ik_endorsed_at :: "int option"

record floor_row =
  fo_conversation_id :: string
  fo_fleet_id :: string
  fo_holder_agent_id :: string
  fo_acquired_at :: int
  fo_expires_at :: int

section \<open>The database\<close>

record store =
  fleets :: "fleet_row list"
  operators :: "operator_row list"
  agents :: "agent_row list"
  agent_credentials :: "credential_row list"
  enrollment_tokens :: "token_row list"
  messages :: "message_row list"
  message_deliveries :: "delivery_row list"
  rooms :: "room_row list"
  room_members :: "(string \<times> string) list"
  heartbeats :: "heartbeat_row list"
  events :: "event_row list"
  approvals :: "approval_row list"
  policies :: "policy_row list"
  control_actions :: "control_row list"
  replay_nonces :: "nonce_row list"
  dead_letters :: "dead_letter_row list"
  rate_limit_counters :: "counter_row list"
  rate_limit_violations :: "violation_row list"
  attachments :: "attachment_row list"
  fleet_operator_keys :: "operator_key_row list"
  operator_recovery_grants :: "grant_row list"
  agent_identity_keys :: "identity_key_row list"
  conversation_floors :: "floor_row list"
  draws :: nat

definition empty_store :: store where
  "empty_store =
     \<lparr> fleets = [], operators = [], agents = [], agent_credentials = [], enrollment_tokens = [],
       messages = [], message_deliveries = [], rooms = [], room_members = [], heartbeats = [],
       events = [], approvals = [], policies = [], control_actions = [], replay_nonces = [],
       dead_letters = [], rate_limit_counters = [], rate_limit_violations = [], attachments = [],
       fleet_operator_keys = [], operator_recovery_grants = [], agent_identity_keys = [],
       conversation_floors = [], draws = 0 \<rparr>"

section \<open>Identifiers and the event log\<close>

text \<open>\<^verbatim>\<open>id(prefix)\<close>: the \<open>n\<close>-th random UUID under a prefix.\<close>

definition mk_id :: "env \<Rightarrow> string \<Rightarrow> nat \<Rightarrow> string" where
  "mk_id E prefix n = prefix @ ''_'' @ uuid E n"

definition recordEvent ::
  "env \<Rightarrow> string \<Rightarrow> string \<Rightarrow> string \<Rightarrow> string option \<Rightarrow> string \<Rightarrow> string option \<Rightarrow> string option \<Rightarrow> json
   \<Rightarrow> store \<Rightarrow> store" where
  "recordEvent E fleetId eventType actorKind actorId resourceKind resourceId conversationId payload s =
     s\<lparr> events := events s @
          [\<lparr> ev_id = mk_id E ''evt'' (draws s), ev_fleet_id = fleetId, ev_event_type = eventType,
             ev_actor_kind = actorKind, ev_actor_id = actorId, ev_resource_kind = resourceKind,
             ev_resource_id = resourceId, ev_conversation_id = conversationId,
             ev_payload = payload, ev_created_at = now E \<rparr>],
        draws := Suc (draws s) \<rparr>"

text \<open>The event log is append-only under \<open>recordEvent\<close>, which touches nothing else.\<close>

lemma recordEvent_frame [simp]:
  "fleets (recordEvent E f t ak ai rk ri c p s) = fleets s"
  "operators (recordEvent E f t ak ai rk ri c p s) = operators s"
  "agents (recordEvent E f t ak ai rk ri c p s) = agents s"
  "agent_credentials (recordEvent E f t ak ai rk ri c p s) = agent_credentials s"
  "enrollment_tokens (recordEvent E f t ak ai rk ri c p s) = enrollment_tokens s"
  "messages (recordEvent E f t ak ai rk ri c p s) = messages s"
  "message_deliveries (recordEvent E f t ak ai rk ri c p s) = message_deliveries s"
  "rooms (recordEvent E f t ak ai rk ri c p s) = rooms s"
  "room_members (recordEvent E f t ak ai rk ri c p s) = room_members s"
  "heartbeats (recordEvent E f t ak ai rk ri c p s) = heartbeats s"
  "approvals (recordEvent E f t ak ai rk ri c p s) = approvals s"
  "policies (recordEvent E f t ak ai rk ri c p s) = policies s"
  "control_actions (recordEvent E f t ak ai rk ri c p s) = control_actions s"
  "replay_nonces (recordEvent E f t ak ai rk ri c p s) = replay_nonces s"
  "dead_letters (recordEvent E f t ak ai rk ri c p s) = dead_letters s"
  "rate_limit_counters (recordEvent E f t ak ai rk ri c p s) = rate_limit_counters s"
  "rate_limit_violations (recordEvent E f t ak ai rk ri c p s) = rate_limit_violations s"
  "attachments (recordEvent E f t ak ai rk ri c p s) = attachments s"
  "fleet_operator_keys (recordEvent E f t ak ai rk ri c p s) = fleet_operator_keys s"
  "operator_recovery_grants (recordEvent E f t ak ai rk ri c p s) = operator_recovery_grants s"
  "agent_identity_keys (recordEvent E f t ak ai rk ri c p s) = agent_identity_keys s"
  "conversation_floors (recordEvent E f t ak ai rk ri c p s) = conversation_floors s"
  by (simp_all add: recordEvent_def)

lemma recordEvent_draws [simp]: "draws (recordEvent E f t ak ai rk ri c p s) = Suc (draws s)"
  by (simp add: recordEvent_def)

lemma recordEvent_events:
  "\<exists>e. events (recordEvent E f t ak ai rk ri c p s) = events s @ [e] \<and> ev_fleet_id e = f \<and> ev_event_type e = t"
  by (simp add: recordEvent_def)

section \<open>Sample surroundings\<close>

text \<open>
  Concrete surroundings at which the theorems are instantiated: every signature verifies, digests are
  the identity, the \<open>n\<close>-th UUID is \<open>n\<close> in unary (so they are distinct), the configuration is the default.
\<close>

definition sample_crypto :: crypto where
  "sample_crypto = \<lparr> ed_verify = (\<lambda>m sig pk. True), sha256_b64url = (\<lambda>x. x), sha256_hex = (\<lambda>x. x),
                     hmac_hex = (\<lambda>k m. k @ m), uncomparable_token = (\<lambda>v. None) \<rparr>"

definition sample_env :: "int \<Rightarrow> env" where
  "sample_env t = \<lparr> now = t, uuid = (\<lambda>n. replicate n CHR ''x''), cryp = sample_crypto, cfg = default_config \<rparr>"

lemma sample_env_simps [simp]:
  "now (sample_env t) = t" "cryp (sample_env t) = sample_crypto" "cfg (sample_env t) = default_config"
  by (simp_all add: sample_env_def)

end
