(* ===== verification/Iso_Time.thy ===== *)
theory Iso_Time
  imports Relay_Store
begin

text \<open>
  The text form of instants: \<^verbatim>\<open>Date.prototype.toISOString\<close>, \<^verbatim>\<open>Date.parse\<close> on the ISO texts the relay
  accepts, and \<^verbatim>\<open>isCanonicalIsoTimestamp\<close> of \<^verbatim>\<open>db.ts\<close>.  The calendar follows the ECMAScript
  definitions (day from year, proleptic Gregorian leap years).  The theorems are what the relay's
  string comparisons rely on: on the four-digit years the text determines the instant, and the
  order of the texts is the order of the instants.
\<close>

section \<open>The calendar\<close>

definition day_from_year :: "int \<Rightarrow> int" where
  "day_from_year y =
     365 * (y - 1970) + (y - 1969) div 4 - (y - 1901) div 100 + (y - 1601) div 400"

definition leap_year :: "int \<Rightarrow> bool" where
  "leap_year y \<longleftrightarrow> y mod 4 = 0 \<and> (y mod 100 \<noteq> 0 \<or> y mod 400 = 0)"

text \<open>The year a day falls in: an estimate from the mean length of a year, corrected by one.\<close>

definition year_from_day :: "int \<Rightarrow> int" where
  "year_from_day n =
     (let e = 1970 + (n * 400) div 146097 in
      if n < day_from_year e then e - 1
      else if day_from_year (e + 1) \<le> n then e + 1
      else e)"

text \<open>Days before each month, January first; the thirteenth entry is the length of the year.\<close>

definition month_start :: "bool \<Rightarrow> nat \<Rightarrow> int" where
  "month_start leap m =
     [0, 31, 59, 90, 120, 151, 181, 212, 243, 273, 304, 334, 365] ! m + (if leap \<and> 2 \<le> m then 1 else 0)"

text \<open>The month (0 to 11) a day of the year falls in.\<close>

definition month_of :: "bool \<Rightarrow> int \<Rightarrow> nat" where
  "month_of leap d = length (filter (\<lambda>m. month_start leap m \<le> d) [1..<12])"

section \<open>Printing\<close>

fun pad :: "nat \<Rightarrow> nat \<Rightarrow> string" where
  "pad 0 n = []"
| "pad (Suc k) n = pad k (n div 10) @ [digit_char (n mod 10)]"

definition ms_per_day :: int where
  "ms_per_day = 86400000"

definition iso_year :: "int \<Rightarrow> string" where
  "iso_year y =
     (if 0 \<le> y \<and> y \<le> 9999 then pad 4 (nat y)
      else if y < 0 then CHR ''-'' # pad 6 (nat (- y)) else CHR ''+'' # pad 6 (nat y))"

text \<open>\<^verbatim>\<open>new Date(t).toISOString()\<close>.\<close>

definition to_iso :: "int \<Rightarrow> string" where
  "to_iso t =
     (let n = t div ms_per_day; r = t mod ms_per_day; y = year_from_day n;
          d = n - day_from_year y; m = month_of (leap_year y) d
      in iso_year y @ ''-'' @ pad 2 (m + 1) @ ''-'' @ pad 2 (nat (d - month_start (leap_year y) m + 1))
         @ ''T'' @ pad 2 (nat (r div 3600000)) @ '':'' @ pad 2 (nat (r div 60000 mod 60))
         @ '':'' @ pad 2 (nat (r div 1000 mod 60)) @ ''.'' @ pad 3 (nat (r mod 1000)) @ ''Z'')"

section \<open>Parsing\<close>

fun digits_val :: "string \<Rightarrow> nat option" where
  "digits_val v = (if v \<noteq> [] \<and> list_all is_digit v
                   then Some (foldl (\<lambda>a c. 10 * a + (of_char c - 48)) 0 v) else None)"

definition slice :: "nat \<Rightarrow> nat \<Rightarrow> string \<Rightarrow> string" where
  "slice i k v = take k (drop i v)"

text \<open>
  \<^verbatim>\<open>ISO_TIMESTAMP\<close>: \<^verbatim>\<open>^\d{4}-\d{2}-\d{2}T\d{2}:\d{2}:\d{2}(\.\d{1,3})?Z$\<close>.
\<close>

definition iso_regex :: "string \<Rightarrow> bool" where
  "iso_regex v \<longleftrightarrow>
     20 \<le> length v \<and> length v \<noteq> 21 \<and> length v \<le> 24
     \<and> list_all is_digit (slice 0 4 v) \<and> v ! 4 = CHR ''-''
     \<and> list_all is_digit (slice 5 2 v) \<and> v ! 7 = CHR ''-''
     \<and> list_all is_digit (slice 8 2 v) \<and> v ! 10 = CHR ''T''
     \<and> list_all is_digit (slice 11 2 v) \<and> v ! 13 = CHR '':''
     \<and> list_all is_digit (slice 14 2 v) \<and> v ! 16 = CHR '':''
     \<and> list_all is_digit (slice 17 2 v)
     \<and> (if length v = 20 then v ! 19 = CHR ''Z''
        else v ! 19 = CHR ''.'' \<and> list_all is_digit (slice 20 (length v - 21) v) \<and> last v = CHR ''Z'')"

text \<open>The milliseconds a fraction of one to three digits stands for.\<close>

definition frac_ms :: "string \<Rightarrow> int" where
  "frac_ms f =
     (case digits_val f of None \<Rightarrow> 0 | Some n \<Rightarrow> int n * (if length f = 1 then 100 else if length f = 2 then 10 else 1))"

text \<open>
  \<^verbatim>\<open>Date.parse\<close> on a text of that form.  A month outside 1 to 12, a day outside 1 to 31, an hour
  past 24 (or 24 with minutes or seconds), a minute or second past 59 is not a date; a day past the
  end of its month runs on into the next.
\<close>

definition date_parse :: "string \<Rightarrow> int option" where
  "date_parse v =
     (let num = (\<lambda>i k. case digits_val (slice i k v) of None \<Rightarrow> 0 | Some n \<Rightarrow> int n);
          y = num 0 4; mo = num 5 2; d = num 8 2; h = num 11 2; mi = num 14 2; se = num 17 2;
          f = (if length v = 20 then 0 else frac_ms (slice 20 (length v - 21) v))
      in if 1 \<le> mo \<and> mo \<le> 12 \<and> 1 \<le> d \<and> d \<le> 31 \<and> mi \<le> 59 \<and> se \<le> 59
            \<and> (h \<le> 23 \<or> h = 24 \<and> mi = 0 \<and> se = 0 \<and> f = 0)
         then Some ((day_from_year y + month_start (leap_year y) (nat (mo - 1)) + d - 1) * ms_per_day
                    + h * 3600000 + mi * 60000 + se * 1000 + f)
         else None)"

definition isCanonicalIsoTimestamp :: "string \<Rightarrow> bool" where
  "isCanonicalIsoTimestamp v \<longleftrightarrow>
     iso_regex v \<and> (case date_parse v of None \<Rightarrow> False | Some t \<Rightarrow> to_iso t = v)"

section \<open>Years\<close>

lemma div_succ:
  assumes "0 < (k::int)"
  shows "(z + 1) div k = z div k + (if (z + 1) mod k = 0 then 1 else 0)"
proof (cases "z mod k = k - 1")
  case True
  have "z = k * (z div k) + z mod k" by simp
  with True have "z + 1 = k * (z div k) + k" by linarith
  then have e: "z + 1 = k * (z div k + 1) + 0" by (simp add: distrib_left)
  have "(z + 1) div k = z div k + 1" "(z + 1) mod k = 0"
    using int_div_pos_eq [OF e] int_mod_pos_eq [OF e] assms by auto
  then show ?thesis by simp
next
  case False
  have "z = k * (z div k) + z mod k" by simp
  then have e: "z + 1 = k * (z div k) + (z mod k + 1)" by linarith
  have b: "0 \<le> z mod k + 1" "z mod k + 1 < k"
    using assms False pos_mod_bound [of k z] pos_mod_sign [of k z] by linarith+
  have "(z + 1) div k = z div k" "(z + 1) mod k = z mod k + 1"
    using int_div_pos_eq [OF e b] int_mod_pos_eq [OF e b] by auto
  moreover have "z mod k + 1 \<noteq> 0" using assms pos_mod_sign [of k z] by linarith
  ultimately show ?thesis by simp
qed

lemma mod_coarser: "(y::int) mod (b * c) = 0 \<Longrightarrow> y mod b = 0"
  by (metis mod_0 mod_mod_cancel dvd_triv_left)

lemma leap_sum:
  assumes "r \<Longrightarrow> q" "q \<Longrightarrow> p"
  shows "z + 365 + (i + (if p then 1 else 0)) - (j + (if q then 1 else 0)) + (k + (if r then 1 else 0))
       = z + i - j + k + (if p \<and> (\<not> q \<or> r) then 366 else (365::int))"
  using assms by auto

lemma day_from_year_succ:
  "day_from_year (y + 1) = day_from_year y + (if leap_year y then 366 else 365)"
proof -
  have a: "(y + 1 - 1969) div 4 = (y - 1969) div 4 + (if y mod 4 = 0 then 1 else 0)"
    using div_succ [of 4 "y - 1969"] by (simp add: algebra_simps mod_diff_eq [symmetric] split: if_splits)
  have b: "(y + 1 - 1901) div 100 = (y - 1901) div 100 + (if y mod 100 = 0 then 1 else 0)"
  proof -
    have "(y - 1901 + 1) mod 100 = 0 \<longleftrightarrow> y mod 100 = 0"
      using mod_mult_self2 [of "y - 1900" 100 19] by simp
    then show ?thesis using div_succ [of 100 "y - 1901"] by (simp add: algebra_simps)
  qed
  have c: "(y + 1 - 1601) div 400 = (y - 1601) div 400 + (if y mod 400 = 0 then 1 else 0)"
  proof -
    have "(y - 1601 + 1) mod 400 = 0 \<longleftrightarrow> y mod 400 = 0"
      using mod_mult_self2 [of "y - 1600" 400 4] by simp
    then show ?thesis using div_succ [of 400 "y - 1601"] by (simp add: algebra_simps)
  qed
  have d: "y mod 400 = 0 \<Longrightarrow> y mod 100 = 0" "y mod 100 = 0 \<Longrightarrow> y mod 4 = 0"
    using mod_coarser [of y 100 4] mod_coarser [of y 4 25] by simp_all
  have e: "365 * (y + 1 - 1970) = 365 * (y - 1970) + 365" by simp
  show ?thesis
    unfolding day_from_year_def a b c e leap_year_def by (rule leap_sum [OF d])
qed

lemma day_from_year_mono: "x < y \<Longrightarrow> day_from_year x < day_from_year y"
proof -
  have "day_from_year x < day_from_year (x + int (Suc k))" for k
  proof (induction k)
    case 0
    then show ?case using day_from_year_succ [of x] by simp
  next
    case (Suc k)
    have "day_from_year (x + int (Suc k)) < day_from_year (x + int (Suc k) + 1)"
      by (simp only: day_from_year_succ split: if_splits) simp
    moreover have "x + int (Suc (Suc k)) = x + int (Suc k) + 1" by simp
    ultimately show ?case using Suc by (simp only:)
  qed
  moreover assume "x < y"
  then obtain k where "y = x + int (Suc k)"
    by (metis zless_iff_Suc_zadd)
  ultimately show ?thesis by simp
qed

text \<open>A year is 365.2425 days on average, and no year strays further than two days from that.\<close>

lemma div_bounds: "0 < (k::int) \<Longrightarrow> k * (z div k) \<le> z \<and> z \<le> k * (z div k) + (k - 1)"
  using mult_div_mod_eq [of k z] pos_mod_bound [of k z] pos_mod_sign [of k z] by linarith

lemma day_from_year_mean:
  "146097 * (y - 1970) - 506 \<le> 400 * day_from_year y"
  "400 * day_from_year y \<le> 146097 * (y - 1970) + 589"
proof -
  note d = div_bounds [of 4 "y - 1969"] div_bounds [of 100 "y - 1901"] div_bounds [of 400 "y - 1601"]
  show "146097 * (y - 1970) - 506 \<le> 400 * day_from_year y"
    unfolding day_from_year_def using d by simp
  show "400 * day_from_year y \<le> 146097 * (y - 1970) + 589"
    unfolding day_from_year_def using d by simp
qed

lemma year_from_day_bounds:
  "day_from_year (year_from_day n) \<le> n \<and> n < day_from_year (year_from_day n + 1)"
proof -
  define e where "e = 1970 + (n * 400) div 146097"
  have q: "146097 * (e - 1970) \<le> n * 400" "n * 400 < 146097 * (e - 1970) + 146097"
    using div_bounds [of 146097 "n * 400"] unfolding e_def by simp_all
  have lo: "day_from_year (e - 1) \<le> n"
    using q(1) day_from_year_mean(2) [of "e - 1"] by simp
  have hi: "n < day_from_year (e + 2)"
    using q(2) day_from_year_mean(1) [of "e + 2"] by simp
  show ?thesis
    using lo hi unfolding year_from_day_def Let_def e_def [symmetric] by (auto simp: add.assoc)
qed

lemma year_from_day_unique:
  assumes "day_from_year y \<le> n" "n < day_from_year (y + 1)"
  shows "year_from_day n = y"
proof (rule linorder_cases)
  assume "year_from_day n < y"
  then have "year_from_day n + 1 = y \<or> year_from_day n + 1 < y" by linarith
  with assms year_from_day_bounds [of n] day_from_year_mono [of "year_from_day n + 1" y] show ?thesis
    by auto
next
  assume "y < year_from_day n"
  then have "y + 1 = year_from_day n \<or> y + 1 < year_from_day n" by linarith
  with assms year_from_day_bounds [of n] day_from_year_mono [of "y + 1" "year_from_day n"] show ?thesis
    by auto
qed

lemma year_from_day_mono: "n \<le> n' \<Longrightarrow> year_from_day n \<le> year_from_day n'"
proof (rule ccontr)
  assume le: "n \<le> n'" and "\<not> year_from_day n \<le> year_from_day n'"
  then have "year_from_day n' + 1 = year_from_day n \<or> year_from_day n' + 1 < year_from_day n" by linarith
  with le year_from_day_bounds [of n] year_from_day_bounds [of n']
    day_from_year_mono [of "year_from_day n' + 1" "year_from_day n"] show False by auto
qed

section \<open>Months\<close>

lemma months_check:
  "\<forall>leap\<in>set [True, False]. \<forall>d\<in>set [0..365]. d < month_start leap 12 \<longrightarrow>
     month_of leap d < 12 \<and> month_start leap (month_of leap d) \<le> d
     \<and> d < month_start leap (month_of leap d + 1)
     \<and> d - month_start leap (month_of leap d) \<le> 30"
  by code_simp

lemma month_of_bounds:
  assumes "0 \<le> d" "d < month_start leap 12"
  shows "month_of leap d < 12" "month_start leap (month_of leap d) \<le> d"
    "d - month_start leap (month_of leap d) \<le> 30"
proof -
  have "d \<in> set [0..365]" "leap \<in> set [True, False]"
    using assms by (auto simp: month_start_def split: if_splits)
  with months_check assms(2)
  show "month_of leap d < 12" "month_start leap (month_of leap d) \<le> d"
    "d - month_start leap (month_of leap d) \<le> 30"
    by blast+
qed

lemma month_of_mono: "d \<le> d' \<Longrightarrow> month_of leap d \<le> month_of leap d'"
proof -
  assume "d \<le> d'"
  then have "length (filter (\<lambda>m. month_start leap m \<le> d) xs) \<le> length (filter (\<lambda>m. month_start leap m \<le> d') xs)" for xs
    by (induction xs) auto
  then show ?thesis by (simp add: month_of_def)
qed

lemma year_length: "month_start (leap_year y) 12 = day_from_year (y + 1) - day_from_year y"
  by (simp add: day_from_year_succ month_start_def)


section \<open>Fixed-width numbers\<close>

lemma length_pad [simp]: "length (pad k n) = k"
  by (induction k arbitrary: n) auto

lemma digits_pad: "list_all is_digit (pad k n)"
  by (induction k arbitrary: n) auto

lemma foldl_pad:
  "n < 10 ^ k \<Longrightarrow> foldl (\<lambda>a c. 10 * a + ((of_char c :: nat) - 48)) 0 (pad k n) = n"
proof (induction k arbitrary: n)
  case 0
  then show ?case by simp
next
  case (Suc k)
  then have "n div 10 < 10 ^ k" by (simp add: less_mult_imp_div_less mult.commute)
  with Suc.IH show ?case by (simp add: digit_char_def)
qed

lemma digits_val_pad: "0 < k \<Longrightarrow> n < 10 ^ k \<Longrightarrow> digits_val (pad k n) = Some n"
  using foldl_pad [of n k] digits_pad [of k n] length_pad [of k n] by (auto simp del: length_pad)

lemma lex_prefix: "length x = length x' \<Longrightarrow> (x :: string) < x' \<Longrightarrow> x @ r < x' @ r'"
  by (induction x x' rule: list_induct2) (auto simp: Cons_less_Cons)

lemma lex_same: "(x :: string) @ r < x @ r' \<longleftrightarrow> r < r'"
  by (induction x) (auto simp: Cons_less_Cons)

lemma digit_char_less: "a < b \<Longrightarrow> b < 10 \<Longrightarrow> digit_char a < digit_char b"
  by (simp add: digit_char_def less_char_def)

lemma pad_less: "a < b \<Longrightarrow> b < 10 ^ k \<Longrightarrow> pad k a < pad k b"
proof (induction k arbitrary: a b)
  case 0
  then show ?case by simp
next
  case (Suc k)
  show ?case
  proof (cases "a div 10 < b div 10")
    case True
    moreover have "b div 10 < 10 ^ k" using Suc.prems(2) by (simp add: less_mult_imp_div_less mult.commute)
    ultimately have "pad k (a div 10) < pad k (b div 10)" by (rule Suc.IH)
    then show ?thesis by (simp add: lex_prefix)
  next
    case False
    with Suc.prems have "a div 10 = b div 10" by (meson div_le_mono leD leI nless_le order_antisym)
    then have "a mod 10 < b mod 10" using Suc.prems(1) by (metis div_mult_mod_eq nat_add_left_cancel_less)
    then have "digit_char (a mod 10) < digit_char (b mod 10)" by (simp add: digit_char_less)
    with \<open>a div 10 = b div 10\<close> show ?thesis by (simp add: lex_same Cons_less_Cons)
  qed
qed

section \<open>Reading back what was printed\<close>

definition iso_text :: "nat \<Rightarrow> nat \<Rightarrow> nat \<Rightarrow> nat \<Rightarrow> nat \<Rightarrow> nat \<Rightarrow> nat \<Rightarrow> string" where
  "iso_text y mo d h mi se ms =
     pad 4 y @ CHR ''-'' # pad 2 mo @ CHR ''-'' # pad 2 d @ CHR ''T'' # pad 2 h @ CHR '':'' # pad 2 mi
     @ CHR '':'' # pad 2 se @ CHR ''.'' # pad 3 ms @ ''Z''"

definition four_digit_year :: "int \<Rightarrow> bool" where
  "four_digit_year t \<longleftrightarrow> 0 \<le> year_from_day (t div ms_per_day) \<and> year_from_day (t div ms_per_day) \<le> 9999"

lemma slice_append: "length x \<le> i \<Longrightarrow> slice i k (x @ r) = slice (i - length x) k r"
  by (simp add: slice_def)

lemma slice_Cons: "0 < i \<Longrightarrow> slice i k (c # r) = slice (i - 1) k r"
  by (cases i) (simp_all add: slice_def)

lemma slice_here: "length x = k \<Longrightarrow> slice 0 k (x @ r) = x"
  by (simp add: slice_def)

lemmas slice_simps = slice_append slice_Cons slice_here

lemma iso_text_slices:
  "length (iso_text y mo d h mi se ms) = 24"
  "slice 0 4 (iso_text y mo d h mi se ms) = pad 4 y"
  "slice 5 2 (iso_text y mo d h mi se ms) = pad 2 mo"
  "slice 8 2 (iso_text y mo d h mi se ms) = pad 2 d"
  "slice 11 2 (iso_text y mo d h mi se ms) = pad 2 h"
  "slice 14 2 (iso_text y mo d h mi se ms) = pad 2 mi"
  "slice 17 2 (iso_text y mo d h mi se ms) = pad 2 se"
  "slice 20 3 (iso_text y mo d h mi se ms) = pad 3 ms"
  by (simp_all add: iso_text_def slice_simps)

lemma iso_text_regex: "iso_regex (iso_text y mo d h mi se ms)"
  unfolding iso_regex_def iso_text_slices
  by (simp add: iso_text_slices digits_pad) (simp add: iso_text_def nth_append nth_Cons')

declare digits_val.simps [simp del] pad.simps [simp del]

lemma date_parse_iso_text:
  assumes "y \<le> 9999" "1 \<le> mo" "mo \<le> 12" "1 \<le> d" "d \<le> 31" "h \<le> 23" "mi \<le> 59" "se \<le> 59" "ms \<le> 999"
  shows "date_parse (iso_text y mo d h mi se ms) =
    Some ((day_from_year (int y) + month_start (leap_year (int y)) (mo - 1) + int d - 1) * ms_per_day
          + int h * 3600000 + int mi * 60000 + int se * 1000 + int ms)"
proof -
  have v: "digits_val (pad 4 y) = Some y" "digits_val (pad 2 mo) = Some mo" "digits_val (pad 2 d) = Some d"
    "digits_val (pad 2 h) = Some h" "digits_val (pad 2 mi) = Some mi" "digits_val (pad 2 se) = Some se"
    "digits_val (pad 3 ms) = Some ms"
    using assms by (auto intro!: digits_val_pad)
  have "nat (int mo - 1) = mo - 1" using assms by simp
  with assms show ?thesis
    by (simp add: date_parse_def Let_def iso_text_slices v frac_ms_def)
qed

text \<open>The day and the time of day of an instant, and how they make it up again.\<close>

lemma ms_split:
  "0 \<le> t mod ms_per_day" "t mod ms_per_day < 86400000"
  "t div ms_per_day * ms_per_day + t mod ms_per_day = t"
  by (simp_all add: ms_per_day_def)

lemma time_split:
  assumes "0 \<le> r" "r < (86400000::int)"
  shows "r div 3600000 * 3600000 + r div 60000 mod 60 * 60000 + r div 1000 mod 60 * 1000 + r mod 1000 = r"
    "0 \<le> r div 3600000" "r div 3600000 \<le> 23" "0 \<le> r div 60000 mod 60" "r div 60000 mod 60 \<le> 59"
    "0 \<le> r div 1000 mod 60" "r div 1000 mod 60 \<le> 59" "0 \<le> r mod 1000" "r mod 1000 \<le> 999"
proof -
  have a: "r div 60000 = r div 1000 div 60" "r div 3600000 = r div 1000 div 60 div 60"
    by (simp_all add: zdiv_zmult2_eq [symmetric])
  have b: "r div 1000 div 60 div 60 * 60 + r div 1000 div 60 mod 60 = r div 1000 div 60"
    "r div 1000 div 60 * 60 + r div 1000 mod 60 = r div 1000" "r div 1000 * 1000 + r mod 1000 = r"
    by (rule div_mult_mod_eq)+
  show "r div 3600000 * 3600000 + r div 60000 mod 60 * 60000 + r div 1000 mod 60 * 1000 + r mod 1000 = r"
    unfolding a using b by linarith
  show "0 \<le> r div 3600000" "r div 3600000 \<le> 23" using assms by (simp_all add: pos_imp_zdiv_nonneg_iff)
  show "0 \<le> r div 60000 mod 60" "r div 60000 mod 60 \<le> 59" "0 \<le> r div 1000 mod 60"
    "r div 1000 mod 60 \<le> 59" "0 \<le> r mod 1000" "r mod 1000 \<le> 999" by simp_all
qed


lemma day_of_year_bounds:
  "0 \<le> n - day_from_year (year_from_day n)"
  "n - day_from_year (year_from_day n) < month_start (leap_year (year_from_day n)) 12"
  using year_from_day_bounds [of n] by (auto simp: year_length)

lemma day_of_month_bounds:
  fixes n
  defines "l \<equiv> leap_year (year_from_day n)" and "d \<equiv> n - day_from_year (year_from_day n)"
  shows "month_of l d < 12" "0 \<le> d - month_start l (month_of l d)" "d - month_start l (month_of l d) \<le> 30"
  using day_of_year_bounds [of n] month_of_bounds [of d l] by (simp_all add: l_def d_def)

lemma to_iso_text:
  assumes "four_digit_year t"
  shows "to_iso t =
    (let n = t div ms_per_day; r = t mod ms_per_day; y = year_from_day n;
         d = n - day_from_year y; m = month_of (leap_year y) d
     in iso_text (nat y) (m + 1) (nat (d - month_start (leap_year y) m + 1))
          (nat (r div 3600000)) (nat (r div 60000 mod 60)) (nat (r div 1000 mod 60)) (nat (r mod 1000)))"
  using assms by (simp add: to_iso_def iso_text_def Let_def iso_year_def four_digit_year_def)

lemma sum_of_day:
  fixes s k :: int
  shows "(s + k + (n - s - k + 1) - 1) * w = n * w"
  by simp

text \<open>The same parse with integer fields, so that the fields can be named before they are computed.\<close>

lemma date_parse_iso_fields:
  assumes "0 \<le> y" "y \<le> 9999" "m < 12" "0 \<le> d" "d \<le> 30" "0 \<le> h" "h \<le> 23" "0 \<le> mi" "mi \<le> 59"
    "0 \<le> se" "se \<le> 59" "0 \<le> ms" "ms \<le> 999"
  shows "date_parse (iso_text (nat y) (m + 1) (nat (d + 1)) (nat h) (nat mi) (nat se) (nat ms)) =
    Some ((day_from_year y + month_start (leap_year y) m + (d + 1) - 1) * ms_per_day
          + h * 3600000 + mi * 60000 + se * 1000 + ms)"
  using assms date_parse_iso_text [of "nat y" "m + 1" "nat (d + 1)" "nat h" "nat mi" "nat se" "nat ms"]
  by simp

lemma date_parse_to_iso:
  assumes "four_digit_year t"
  shows "date_parse (to_iso t) = Some t"
proof -
  define n where "n = t div ms_per_day"
  define r where "r = t mod ms_per_day"
  define y where "y = year_from_day n"
  define d where "d = n - day_from_year y"
  define m where "m = month_of (leap_year y) d"
  have y: "0 \<le> y" "y \<le> 9999" using assms by (auto simp: four_digit_year_def y_def n_def)
  have m: "m < 12" "0 \<le> d - month_start (leap_year y) m" "d - month_start (leap_year y) m \<le> 30"
    using day_of_month_bounds [of n] by (simp_all add: y_def d_def m_def)
  have r: "0 \<le> r" "r < 86400000" by (simp_all add: r_def ms_split(1,2))
  note ts = time_split [OF r]
  have "date_parse (to_iso t) =
      Some ((day_from_year y + month_start (leap_year y) m + (d - month_start (leap_year y) m + 1) - 1) * ms_per_day
            + r div 3600000 * 3600000 + r div 60000 mod 60 * 60000 + r div 1000 mod 60 * 1000 + r mod 1000)"
    unfolding to_iso_text [OF assms] Let_def n_def [symmetric] r_def [symmetric] y_def [symmetric]
      d_def [symmetric] m_def [symmetric]
    by (rule date_parse_iso_fields) (rule y m ts)+
  also have "\<dots> = Some (n * ms_per_day + r)"
    unfolding d_def sum_of_day using ts(1) by (simp only: add.assoc)
  also have "n * ms_per_day + r = t" by (simp add: n_def r_def ms_split(3))
  finally show ?thesis .
qed

section \<open>The order of the texts\<close>

text \<open>Texts of the same shape compare field by field, the year first.\<close>

lemma pad_field_less: "a < b \<Longrightarrow> b < 10 ^ k \<Longrightarrow> pad k a @ r < pad k b @ r'"
  by (simp add: lex_prefix pad_less)

lemma iso_text_less:
  assumes "y' < 10 ^ 4" "mo' < 10 ^ 2" "d' < 10 ^ 2" "h' < 10 ^ 2" "mi' < 10 ^ 2" "se' < 10 ^ 2" "ms' < 10 ^ 3"
    and "y < y' \<or> y = y' \<and> (mo < mo' \<or> mo = mo' \<and> (d < d' \<or> d = d' \<and> (h < h' \<or> h = h' \<and>
         (mi < mi' \<or> mi = mi' \<and> (se < se' \<or> se = se' \<and> ms < ms')))))"
  shows "iso_text y mo d h mi se ms < iso_text y' mo' d' h' mi' se' ms'"
  using assms(8) unfolding iso_text_def
  by (elim disjE conjE)
    (simp_all only: lex_same Cons_less_Cons simp_thms order.irrefl pad_field_less assms(1-7))

text \<open>Equal quotients push a strict order down to the remainders.\<close>

lemma field_order:
  fixes a b :: int
  assumes "a < b" "0 < k"
  shows "a div k < b div k \<or> a div k = b div k \<and> a mod k < b mod k"
proof -
  have "a div k \<le> b div k" using assms by (simp add: zdiv_mono1)
  moreover have "a mod k < b mod k" if "a div k = b div k"
    using that assms(1) mult_div_mod_eq [of k a] mult_div_mod_eq [of k b] by (metis add_less_cancel_left)
  ultimately show ?thesis by linarith
qed

lemma day_order:
  fixes n n' :: int
  defines "y \<equiv> year_from_day n" and "y' \<equiv> year_from_day n'"
  defines "d \<equiv> n - day_from_year y" and "d' \<equiv> n' - day_from_year y'"
  defines "m \<equiv> month_of (leap_year y) d" and "m' \<equiv> month_of (leap_year y') d'"
  assumes "n < n'"
  shows "y < y' \<or> y = y' \<and> (m < m' \<or> m = m' \<and>
           d - month_start (leap_year y) m < d' - month_start (leap_year y') m')"
proof -
  have "y \<le> y'" unfolding y_def y'_def using assms(7) by (simp add: year_from_day_mono)
  moreover have "d < d'" if "y = y'" using that assms(7) by (simp add: d_def d'_def)
  moreover have "m \<le> m'" if "y = y'"
    using that \<open>y = y' \<Longrightarrow> d < d'\<close> month_of_mono [of d d'] by (simp add: m_def m'_def)
  ultimately show ?thesis by fastforce
qed

lemma time_order:
  fixes r r' :: int
  assumes "r < r'"
  shows "r div 3600000 < r' div 3600000 \<or> r div 3600000 = r' div 3600000 \<and>
    (r div 60000 mod 60 < r' div 60000 mod 60 \<or> r div 60000 mod 60 = r' div 60000 mod 60 \<and>
    (r div 1000 mod 60 < r' div 1000 mod 60 \<or> r div 1000 mod 60 = r' div 1000 mod 60 \<and> r mod 1000 < r' mod 1000))"
proof -
  have a: "x div 60000 = x div 1000 div 60" "x div 3600000 = x div 1000 div 60 div 60" for x :: int
    by (simp_all add: zdiv_zmult2_eq [symmetric])
  have "r div 1000 < r' div 1000 \<or> r div 1000 = r' div 1000 \<and> r mod 1000 < r' mod 1000"
    using assms by (intro field_order) simp_all
  moreover have "x div 60 div 60 < z div 60 div 60 \<or> x div 60 div 60 = z div 60 div 60 \<and>
      (x div 60 mod 60 < z div 60 mod 60 \<or> x div 60 mod 60 = z div 60 mod 60 \<and> x mod 60 < z mod 60)"
    if "x < z" for x z :: int
    using field_order [of x z 60] field_order [of "x div 60" "z div 60" 60] that by auto
  ultimately show ?thesis unfolding a by metis
qed

lemma nat_order: "0 \<le> (x :: int) \<Longrightarrow> 0 \<le> z \<Longrightarrow> (nat x < nat z \<longleftrightarrow> x < z) \<and> (nat x = nat z \<longleftrightarrow> x = z)"
  by auto

lemma nat_field: "(x :: int) \<le> int k - 1 \<Longrightarrow> 0 < k \<Longrightarrow> nat x < k"
  by linarith

lemma to_iso_strict_mono:
  assumes "t < u" "four_digit_year t" "four_digit_year u"
  shows "to_iso t < to_iso u"
proof -
  define n where "n = t div ms_per_day"
  define r where "r = t mod ms_per_day"
  define n' where "n' = u div ms_per_day"
  define r' where "r' = u mod ms_per_day"
  define y where "y = year_from_day n"
  define d where "d = n - day_from_year y"
  define m where "m = month_of (leap_year y) d"
  define y' where "y' = year_from_day n'"
  define d' where "d' = n' - day_from_year y'"
  define m' where "m' = month_of (leap_year y') d'"
  note defs = n_def [symmetric] r_def [symmetric] n'_def [symmetric] r'_def [symmetric] y_def [symmetric]
    d_def [symmetric] m_def [symmetric] y'_def [symmetric] d'_def [symmetric] m'_def [symmetric]
  have y: "0 \<le> y" "0 \<le> y'" "y' \<le> 9999"
    using assms by (auto simp: four_digit_year_def y_def n_def y'_def n'_def)
  have m: "m' < 12" "0 \<le> d - month_start (leap_year y) m" "0 \<le> d' - month_start (leap_year y') m'"
    "d' - month_start (leap_year y') m' \<le> 30"
    using day_of_month_bounds [of n] day_of_month_bounds [of n']
    by (simp_all add: y_def d_def m_def y'_def d'_def m'_def)
  have r: "0 \<le> r" "r < 86400000" "0 \<le> r'" "r' < 86400000"
    by (simp_all add: r_def r'_def ms_split(1,2))
  note ts = time_split [OF r(1,2)] and ts' = time_split [OF r(3,4)]
  have bounds: "nat y' < 10 ^ 4" "m' + 1 < 10 ^ 2" "nat (d' - month_start (leap_year y') m' + 1) < 10 ^ 2"
    using y(3) m(1,4) by simp_all
  have tbounds: "nat (r' div 3600000) < 10 ^ 2" "nat (r' div 60000 mod 60) < 10 ^ 2"
    "nat (r' div 1000 mod 60) < 10 ^ 2" "nat (r' mod 1000) < 10 ^ 3"
    by (rule nat_field, rule order_trans, rule ts', simp, simp)+
  have "n < n' \<or> n = n' \<and> r < r'"
    unfolding n_def n'_def r_def r'_def using assms(1) by (intro field_order) (simp_all add: ms_per_day_def)
  then have "n < n' \<or> n = n' \<and> y = y' \<and> m = m' \<and> d = d' \<and> r < r'"
    by (auto simp: y_def y'_def d_def d'_def m_def m'_def)
  then have "nat y < nat y' \<or> nat y = nat y' \<and> (m + 1 < m' + 1 \<or> m + 1 = m' + 1 \<and>
      (nat (d - month_start (leap_year y) m + 1) < nat (d' - month_start (leap_year y') m' + 1) \<or>
       nat (d - month_start (leap_year y) m + 1) = nat (d' - month_start (leap_year y') m' + 1) \<and>
      (nat (r div 3600000) < nat (r' div 3600000) \<or> nat (r div 3600000) = nat (r' div 3600000) \<and>
      (nat (r div 60000 mod 60) < nat (r' div 60000 mod 60) \<or> nat (r div 60000 mod 60) = nat (r' div 60000 mod 60) \<and>
      (nat (r div 1000 mod 60) < nat (r' div 1000 mod 60) \<or> nat (r div 1000 mod 60) = nat (r' div 1000 mod 60) \<and>
       nat (r mod 1000) < nat (r' mod 1000))))))"
    (is ?fields)
  proof (elim disjE conjE)
    assume "n < n'"
    from day_order [OF this, folded y_def y'_def, folded d_def d'_def, folded m_def m'_def]
    have "nat y < nat y' \<or> nat y = nat y' \<and> (m + 1 < m' + 1 \<or> m + 1 = m' + 1 \<and>
        nat (d - month_start (leap_year y) m + 1) < nat (d' - month_start (leap_year y') m' + 1))"
      using y m by auto
    then show ?fields by metis
  next
    assume "y = y'" "m = m'" "d = d'" "r < r'"
    with time_order [OF \<open>r < r'\<close>] show ?fields
      using nat_order [OF ts(2) ts'(2)] nat_order [OF ts(4) ts'(4)] nat_order [OF ts(6) ts'(6)]
        nat_order [OF ts(8) ts'(8)] by metis
  qed
  then show ?thesis
    unfolding to_iso_text [OF assms(2)] to_iso_text [OF assms(3)] Let_def defs
    by (rule iso_text_less [OF bounds tbounds])
qed

section \<open>What the relay relies on\<close>

text \<open>
  Printing an instant of a four-digit year and reading the text back gives the instant, and
  the printed text is one the relay accepts as canonical (an endorsement or revocation signed over
  a text it stored verifies over the same text).
\<close>

theorem iso_timestamp_roundtrip:
  assumes "four_digit_year t"
  shows "date_parse (to_iso t) = Some t \<and> isCanonicalIsoTimestamp (to_iso t)"
proof -
  have "iso_regex (to_iso t)"
    by (simp add: to_iso_text [OF assms] Let_def iso_text_regex)
  then show ?thesis
    by (simp add: date_parse_to_iso [OF assms] isCanonicalIsoTimestamp_def)
qed

lemma iso_timestamp_roundtrip_witness:
  "date_parse (to_iso 1709210096789) = Some 1709210096789 \<and> isCanonicalIsoTimestamp (to_iso 1709210096789)"
  by (rule iso_timestamp_roundtrip) code_simp

text \<open>
  On the four-digit years the order of the ISO texts, which is what every \<^verbatim>\<open>expires_at > ?\<close> and
  \<^verbatim>\<open>ORDER BY created_at\<close> of the relay compares, is the order of the instants.
\<close>

theorem iso_timestamp_order:
  assumes "four_digit_year t" "four_digit_year u"
  shows "to_iso t < to_iso u \<longleftrightarrow> t < u"
proof -
  have "t < u \<or> t = u \<or> u < t" by linarith
  then show ?thesis
    using to_iso_strict_mono [OF _ assms(1) assms(2)] to_iso_strict_mono [OF _ assms(2) assms(1)] by fastforce
qed

lemma iso_timestamp_order_witness:
  "to_iso 1709210096789 < to_iso 1735689600000 \<longleftrightarrow> (1709210096789 :: int) < 1735689600000"
  by (rule iso_timestamp_order) code_simp+

end
