(* ===== verification/Js_Text.thy ===== *)
theory Js_Text
  imports Iso_Time
begin

text \<open>
  The string operations of JavaScript that the authentication code relies on: \<^verbatim>\<open>split\<close> on a
  character, \<^verbatim>\<open>slice\<close> from the end, and \<^verbatim>\<open>Number(text)\<close> where the caller asks for an integer.
  Their laws are what the token formats rest on.
\<close>

section \<open>Split and slice\<close>

fun js_split :: "char \<Rightarrow> string \<Rightarrow> string list" where
  "js_split d [] = [[]]"
| "js_split d (c # cs) =
     (if c = d then [] # js_split d cs
      else case js_split d cs of [] \<Rightarrow> [[c]] | p # ps \<Rightarrow> (c # p) # ps)"

fun join_with :: "char \<Rightarrow> string list \<Rightarrow> string" where
  "join_with d [] = []"
| "join_with d [p] = p"
| "join_with d (p # q # ps) = p @ d # join_with d (q # ps)"

text \<open>\<^verbatim>\<open>v.slice(-n)\<close>.\<close>

definition slice_last :: "nat \<Rightarrow> string \<Rightarrow> string" where
  "slice_last n v = drop (length v - n) v"

section \<open>Number(text)\<close>

fun hex_digit :: "char \<Rightarrow> nat option" where
  "hex_digit c =
     (let n = of_char c in
      if 48 \<le> n \<and> n \<le> 57 then Some (n - 48)
      else if 97 \<le> n \<and> n \<le> 102 then Some (n - 87)
      else if 65 \<le> n \<and> n \<le> 70 then Some (n - 55) else None)"

definition radix_digits :: "nat \<Rightarrow> string \<Rightarrow> int option" where
  "radix_digits b ds =
     (if ds \<noteq> [] \<and> list_all (\<lambda>c. case hex_digit c of None \<Rightarrow> False | Some k \<Rightarrow> k < b) ds
      then Some (foldl (\<lambda>a c. int b * a + int (the (hex_digit c))) 0 ds) else None)"

text \<open>\<open>m\<close> times ten to the \<open>k\<close>, when that is an integer.\<close>

definition scale10 :: "int \<Rightarrow> int \<Rightarrow> int option" where
  "scale10 m k =
     (if 0 \<le> k then Some (m * 10 ^ nat k)
      else if m mod 10 ^ nat (- k) = 0 then Some (m div 10 ^ nat (- k)) else None)"

definition signed_digits :: "string \<Rightarrow> int option" where
  "signed_digits v =
     (case v of
        c # ds \<Rightarrow> if c = CHR ''-'' then map_option (\<lambda>n. - int n) (digits_val ds)
                   else if c = CHR ''+'' then map_option int (digits_val ds)
                   else map_option int (digits_val v)
      | [] \<Rightarrow> None)"

text \<open>An unsigned decimal literal: digits, a point, digits, an exponent.\<close>

definition decimal_integer :: "string \<Rightarrow> int option" where
  "decimal_integer v =
     (let isE = (\<lambda>c. c = CHR ''e'' \<or> c = CHR ''E'');
          mant = takeWhile (\<lambda>c. \<not> isE c) v; rest = dropWhile (\<lambda>c. \<not> isE c) v;
          ip = takeWhile (\<lambda>c. c \<noteq> CHR ''.'') mant; fp = drop 1 (dropWhile (\<lambda>c. c \<noteq> CHR ''.'') mant);
          ex = (if rest = [] then Some 0 else signed_digits (drop 1 rest))
      in case (digits_val (ip @ fp), ex) of
           (Some m, Some k) \<Rightarrow> scale10 (int m) (k - int (length fp))
         | _ \<Rightarrow> None)"

text \<open>
  The integer \<^verbatim>\<open>Number(text)\<close> denotes, if it denotes one: surrounding space ignored, the empty text zero,
  the prefixes of hexadecimal, octal and binary literals, otherwise a signed decimal literal.  The value
  is exact, as a double is up to two to the fifty-third; \<^verbatim>\<open>NaN\<close>, infinities and fractions are None.
\<close>

definition js_integer :: "string \<Rightarrow> int option" where
  "js_integer text =
     (let v = js_trim text; p = js_lower (take 2 v); r = drop 2 v in
      if v = [] then Some 0
      else if p = ''0x'' then radix_digits 16 r
      else if p = ''0o'' then radix_digits 8 r
      else if p = ''0b'' then radix_digits 2 r
      else if hd v = CHR ''-'' then map_option uminus (decimal_integer (tl v))
      else if hd v = CHR ''+'' then decimal_integer (tl v)
      else decimal_integer v)"

section \<open>Laws\<close>

lemma js_split_nonempty [simp]: "js_split d v \<noteq> []"
  by (induction v) (auto split: list.splits)

lemma join_with_Cons: "ps \<noteq> [] \<Longrightarrow> join_with d (p # ps) = p @ d # join_with d ps"
  by (cases ps) simp_all

text \<open>Splitting loses nothing.\<close>

lemma join_js_split: "join_with d (js_split d v) = v"
proof (induction v)
  case (Cons c cs)
  obtain p ps where "js_split d cs = p # ps" by (cases "js_split d cs") auto
  with Cons show ?case by (cases ps) (auto simp: join_with_Cons)
qed simp

lemma js_split_piece: "p \<in> set (js_split d v) \<Longrightarrow> d \<notin> set p"
  by (induction v arbitrary: p) (auto split: list.splits if_splits)

lemma js_split_plain: "d \<notin> set p \<Longrightarrow> js_split d p = [p]"
  by (induction p) auto

lemma js_split_append: "d \<notin> set p \<Longrightarrow> js_split d (p @ d # v) = p # js_split d v"
  by (induction p) auto

text \<open>Pieces without the separator come back as they were.\<close>

lemma js_split_join:
  "ps \<noteq> [] \<Longrightarrow> \<forall>p\<in>set ps. d \<notin> set p \<Longrightarrow> js_split d (join_with d ps) = ps"
proof (induction ps rule: join_with.induct)
  case (3 d p q ps)
  then show ?case by (simp add: js_split_append)
qed (auto simp: js_split_plain)

lemma digits_val_nat_str: "digits_val (nat_str n) = Some n"
proof -
  have "foldl (\<lambda>a c. 10 * a + (of_char c - 48)) 0 (nat_str n) = n"
    by (induction n rule: nat_str.induct)
      (auto simp: nat_str.simps foldl_append digit_char_def)
  then show ?thesis
    using nat_str_digits [of _ n] by (simp add: digits_val.simps nat_str_nonempty list_all_iff)
qed

text \<open>A decimal numeral reads back as the number it was printed from.\<close>

lemma digit_plain:
  assumes "is_digit c"
  shows "\<not> is_space c" "lower_char c = c"
    "c \<notin> {CHR ''e'', CHR ''E'', CHR ''.'', CHR ''x'', CHR ''o'', CHR ''b'', CHR ''-'', CHR ''+''}"
  using assms by (auto simp: is_digit_def is_space_def lower_char_def Let_def)

lemma js_trim_id: "v \<noteq> [] \<Longrightarrow> \<not> is_space (hd v) \<Longrightarrow> \<not> is_space (last v) \<Longrightarrow> js_trim v = v"
proof -
  assume a: "v \<noteq> []" "\<not> is_space (hd v)" "\<not> is_space (last v)"
  from a(1,2) have "dropWhile is_space v = v" by (cases v) simp_all
  moreover from a(1,3) have "dropWhile is_space (rev v) = rev v" by (cases v rule: rev_cases) simp_all
  ultimately show ?thesis by (simp add: js_trim_def)
qed

lemma decimal_integer_digits:
  assumes "v \<noteq> []" "list_all is_digit v"
  shows "decimal_integer v = map_option int (digits_val v)"
proof -
  have e: "takeWhile (\<lambda>c. \<not> (c = CHR ''e'' \<or> c = CHR ''E'')) v = v" "dropWhile (\<lambda>c. \<not> (c = CHR ''e'' \<or> c = CHR ''E'')) v = []"
    "takeWhile (\<lambda>c. c \<noteq> CHR ''.'') v = v" "dropWhile (\<lambda>c. c \<noteq> CHR ''.'') v = []"
    using assms(2) by (auto simp: list_all_iff takeWhile_eq_all_conv dropWhile_eq_Nil_conv dest: digit_plain(3))
  show ?thesis
    unfolding decimal_integer_def Let_def e by (simp add: scale10_def split: option.splits)
qed

lemma js_integer_digits:
  assumes "v \<noteq> []" "list_all is_digit v"
  shows "js_integer v = map_option int (digits_val v)"
proof -
  have d: "is_digit (hd v)" "is_digit (last v)" using assms by (simp_all add: list_all_iff)
  have t: "js_trim v = v" using assms(1) digit_plain(1) [OF d(1)] digit_plain(1) [OF d(2)] by (rule js_trim_id)
  have "js_lower (take 2 v) = take 2 v"
    using assms(2) by (auto simp: js_lower_def list_all_iff intro!: map_idI digit_plain(2) dest: in_set_takeD)
  moreover have "\<forall>c\<in>set (take 2 v). is_digit c"
    using assms(2) by (auto simp: list_all_iff dest!: in_set_takeD)
  then have "CHR ''x'' \<notin> set (take 2 v)" "CHR ''o'' \<notin> set (take 2 v)" "CHR ''b'' \<notin> set (take 2 v)"
    using digit_plain(3) by blast+
  ultimately have "js_lower (take 2 v) \<noteq> ''0x''" "js_lower (take 2 v) \<noteq> ''0o''" "js_lower (take 2 v) \<noteq> ''0b''"
    by (metis list.set_intros)+
  then show ?thesis
    using assms digit_plain(3) [OF d(1)] unfolding js_integer_def Let_def t
    by (simp add: decimal_integer_digits del: digits_val.simps)
qed

lemma js_integer_int_str: "js_integer (int_str n) = Some n"
proof (cases "n < 0")
  case False
  then show ?thesis
    using nat_str_digits [of _ "nat n"]
    by (simp add: int_str_def js_integer_digits nat_str_nonempty list_all_iff digits_val_nat_str)
next
  case True
  let ?d = "nat_str (nat (- n))"
  have d: "list_all is_digit ?d" "?d \<noteq> []" using nat_str_digits by (auto simp: list_all_iff nat_str_nonempty)
  then have "is_digit (last ?d)" by (simp add: list_all_iff)
  then have "js_trim (CHR ''-'' # ?d) = CHR ''-'' # ?d"
    using d(2) digit_plain(1) by (intro js_trim_id) (auto simp: is_space_def)
  moreover have "js_lower (take 2 (CHR ''-'' # ?d)) = CHR ''-'' # js_lower (take 1 ?d)"
    by (simp add: js_lower_def lower_char_def Let_def take_Suc_conv_app_nth numeral_2_eq_2)
  ultimately show ?thesis
    using True d by (simp add: int_str_def js_integer_def Let_def decimal_integer_digits digits_val_nat_str)
qed

end
