(* ===== verification/Auth.thy ===== *)
theory Auth
  imports Js_Text
begin

text \<open>
  Who may speak to the relay: bootstrap and enrollment, the credentials and the replay defence of
  agent requests (\<^verbatim>\<open>auth.ts\<close>, the enrollment and nonce operations of \<^verbatim>\<open>db.ts\<close>), operator passwords
  (\<^verbatim>\<open>utils.ts\<close>) and operator sessions (\<^verbatim>\<open>operator-session.ts\<close>).
\<close>

section \<open>Secrets and passwords\<close>

definition hashSecret :: "crypto \<Rightarrow> string \<Rightarrow> string" where
  "hashSecret C secret = sha256_hex C secret"

definition sign_hmac :: "crypto \<Rightarrow> string \<Rightarrow> string \<Rightarrow> string" where
  "sign_hmac C secret payload = hmac_hex C secret payload"

text \<open>\<^verbatim>\<open>timingSafeEqualStr\<close>: the two byte strings are equal.\<close>

definition timingSafeEqualStr :: "string \<Rightarrow> string \<Rightarrow> bool" where
  "timingSafeEqualStr a b \<longleftrightarrow> length a = length b \<and> list_all2 (=) a b"

text \<open>
  Node's key derivation and base64, which the password code calls: \<open>scrypt pw salt len N r p\<close> is None
  when it throws (parameters out of range).
\<close>

record kdf =
  scrypt :: "string \<Rightarrow> string \<Rightarrow> nat \<Rightarrow> int \<Rightarrow> int \<Rightarrow> int \<Rightarrow> string option"
  b64_encode :: "string \<Rightarrow> string"
  b64_decode :: "string \<Rightarrow> string"

definition hashPassword :: "kdf \<Rightarrow> string \<Rightarrow> string \<Rightarrow> string" where
  "hashPassword K salt password =
     ''scrypt$16384$8$1$'' @ b64_encode K salt @ ''$'' @ b64_encode K (the (scrypt K password salt 32 16384 8 1))"

definition isScryptHash :: "string \<Rightarrow> bool" where
  "isScryptHash stored = starts_with ''scrypt$'' stored"

text \<open>\<^verbatim>\<open>verifyPassword\<close>: whether the password matches, and whether the stored form is the legacy one.\<close>

definition verifyPassword :: "kdf \<Rightarrow> crypto \<Rightarrow> string \<Rightarrow> string \<Rightarrow> bool \<times> bool" where
  "verifyPassword K C password stored =
     (if isScryptHash stored then
        (case js_split CHR ''$'' stored of
           [_, n, r, p, saltB, hashB] \<Rightarrow>
             (case (js_integer n, js_integer r, js_integer p) of
                (Some N, Some R, Some P) \<Rightarrow>
                  let salt = b64_decode K saltB; expected = b64_decode K hashB in
                  if salt = [] \<or> expected = [] then (False, False)
                  else (case scrypt K password salt (length expected) N R P of
                          None \<Rightarrow> (False, False)
                        | Some actual \<Rightarrow>
                            if length actual \<noteq> length expected then (False, False)
                            else (actual = expected, False))
              | _ \<Rightarrow> (False, False))
         | _ \<Rightarrow> (False, False))
      else (timingSafeEqualStr stored (hashSecret C password), True))"

section \<open>Bootstrap and operators\<close>

definition createBootstrap ::
  "env \<Rightarrow> kdf \<Rightarrow> string \<Rightarrow> string \<Rightarrow> string \<Rightarrow> string \<Rightarrow> store \<Rightarrow> (string \<times> string) \<times> store" where
  "createBootstrap E K salt fleetName email password s =
     (let fleetId = mk_id E ''flt'' (draws s); operatorId = mk_id E ''opr'' (Suc (draws s)) in
      ((fleetId, operatorId),
       s\<lparr> fleets := fleets s @ [\<lparr> fl_id = fleetId, fl_name = fleetName, fl_created_at = now E \<rparr>],
          operators := operators s @
            [\<lparr> op_id = operatorId, op_fleet_id = fleetId, op_email = email,
               op_password_hash = hashPassword K salt password, op_role = ''owner'', op_created_at = now E,
               op_display_name = None \<rparr>],
          draws := draws s + 2 \<rparr>))"

definition findFleetByName :: "store \<Rightarrow> string \<Rightarrow> fleet_row option" where
  "findFleetByName s name = select_one (\<lambda>f. fl_name f = name) (fleets s)"

text \<open>The join of operators and fleets: the operators with a fleet of that name, in table order.\<close>

definition operator_row_for :: "store \<Rightarrow> string \<Rightarrow> string \<Rightarrow> operator_row option" where
  "operator_row_for s fleetName email =
     select_one (\<lambda>r. op_email r = email
        \<and> select_exists (\<lambda>f. fl_id f = op_fleet_id r \<and> fl_name f = fleetName) (fleets s)) (operators s)"

definition authenticateOperator ::
  "env \<Rightarrow> kdf \<Rightarrow> string \<Rightarrow> string \<Rightarrow> string \<Rightarrow> string \<Rightarrow> store \<Rightarrow> operator_row option \<times> store" where
  "authenticateOperator E K salt fleetName email password s =
     (case operator_row_for s fleetName email of
        None \<Rightarrow> (None, s)
      | Some row \<Rightarrow>
          let (ok, legacy) = verifyPassword K (cryp E) password (op_password_hash row) in
          if \<not> ok then (None, s)
          else if legacy
          then (Some row,
                s\<lparr> operators := update_where (\<lambda>r. op_id r = op_id row)
                     (\<lambda>r. r\<lparr> op_password_hash := hashPassword K salt password \<rparr>) (operators s) \<rparr>)
          else (Some row, s))"

definition operatorBelongsToFleet :: "store \<Rightarrow> string \<Rightarrow> string \<Rightarrow> bool" where
  "operatorBelongsToFleet s operatorId fleetId =
     select_exists (\<lambda>r. op_id r = operatorId \<and> op_fleet_id r = fleetId) (operators s)"

section \<open>Enrollment\<close>

datatype sql_error = Unique_violation string

text \<open>Columns declared unique: an insert that would repeat a value throws and changes nothing.\<close>

definition issueEnrollmentToken :: "env \<Rightarrow> string \<Rightarrow> string \<Rightarrow> store \<Rightarrow> (sql_error + string) \<times> store" where
  "issueEnrollmentToken E fleetId operatorId s =
     (let tokenId = mk_id E ''ent'' (draws s);
          token = tokenId @ ''.'' @ mk_id E ''tok'' (Suc (draws s));
          tokenHash = hashSecret (cryp E) token;
          s1 = s\<lparr> draws := draws s + 2 \<rparr>
      in if select_exists (\<lambda>r. tk_id r = tokenId \<or> tk_token_hash r = tokenHash) (enrollment_tokens s)
         then (Inl (Unique_violation ''enrollment_tokens''), s1)
         else (Inr token,
          s1\<lparr> enrollment_tokens := enrollment_tokens s @
               [\<lparr> tk_id = tokenId, tk_fleet_id = fleetId, tk_token_hash = tokenHash,
                  tk_issued_by = operatorId, tk_expires_at = addSeconds (now E) 3600, tk_used_at = None,
                  tk_used_by_agent_id = None \<rparr>] \<rparr>))"

definition claimable :: "string \<Rightarrow> string \<Rightarrow> int \<Rightarrow> token_row \<Rightarrow> bool" where
  "claimable tokenHash fleetId t r \<longleftrightarrow>
     tk_token_hash r = tokenHash \<and> tk_fleet_id r = fleetId \<and> is_null (tk_used_at r) \<and> t < tk_expires_at r"

definition createAgentFromEnrollment ::
  "env \<Rightarrow> string \<Rightarrow> string \<Rightarrow> string \<Rightarrow> string \<Rightarrow> string option \<Rightarrow> store
   \<Rightarrow> (sql_error + (string \<times> string) option) \<times> store" where
  "createAgentFromEnrollment E fleetId token displayName runtime hostname s =
     (let n = draws s;
          agentId = ''agent_'' @ slice_last 12 (mk_id E ''agt'' n);
          secret = mk_id E ''secret'' (n + 1) @ mk_id E ''secret'' (n + 2);
          tokenHash = hashSecret (cryp E) token;
          p = claimable tokenHash fleetId (now E);
          s1 = s\<lparr> enrollment_tokens := update_where p (\<lambda>r. r\<lparr> tk_used_at := Some (now E) \<rparr>) (enrollment_tokens s),
                  draws := n + 3 \<rparr>
      in if changes p (enrollment_tokens s) \<noteq> 1 then (Inr None, s1)
         else if select_exists (\<lambda>a. ag_id a = agentId) (agents s1)
         then (Inl (Unique_violation ''agents.id''), s\<lparr> draws := n + 3 \<rparr>)
         else
           let tokenId = (case select_one (\<lambda>r. tk_token_hash r = tokenHash \<and> tk_fleet_id r = fleetId)
                                 (enrollment_tokens s1) of None \<Rightarrow> [] | Some r \<Rightarrow> tk_id r);
               s2 = s1\<lparr> agents := agents s1 @
                      [\<lparr> ag_id = agentId, ag_fleet_id = fleetId, ag_display_name = displayName, ag_runtime = runtime,
                         ag_status = ''healthy'', ag_hostname = hostname, ag_policy_profile = ''default'',
                         ag_created_at = now E, ag_last_seen_at = None, ag_revoked_at = None,
                         ag_missed_heartbeats = 0, ag_auto_quarantined_at = None, ag_quarantine_reason = None,
                         ag_operator_trusted = False, ag_peer_autoreply = True, ag_peer_turn_budget = 0 \<rparr>],
                      agent_credentials := agent_credentials s1 @
                      [\<lparr> cr_id = mk_id E ''cred'' (n + 3), cr_agent_id = agentId,
                         cr_secret_hash = hashSecret (cryp E) secret, cr_status = ''active'', cr_created_at = now E \<rparr>],
                      enrollment_tokens := update_where (\<lambda>r. tk_id r = tokenId)
                        (\<lambda>r. r\<lparr> tk_used_by_agent_id := Some agentId \<rparr>) (enrollment_tokens s1),
                      draws := n + 4 \<rparr>
           in (Inr (Some (agentId, secret)), s2))"

section \<open>Agent requests\<close>

text \<open>\<^verbatim>\<open>authenticateAgent\<close>: the agent with the secret hash of its newest active credential.\<close>

definition authenticateAgent :: "store \<Rightarrow> string \<Rightarrow> (agent_row \<times> string) option" where
  "authenticateAgent s agentId =
     (case select_one (\<lambda>a. ag_id a = agentId \<and> is_null (ag_revoked_at a)) (agents s) of
        None \<Rightarrow> None
      | Some a \<Rightarrow>
          map_option (\<lambda>c. (a, cr_secret_hash c))
            (head_option (order_desc cr_created_at
               (select_all (\<lambda>c. cr_agent_id c = agentId \<and> cr_status c = ''active'') (agent_credentials s)))))"

text \<open>
  \<^verbatim>\<open>INSERT OR IGNORE\<close>: nothing is inserted when the pair of agent and nonce, or the drawn identifier, is
  already there.
\<close>

definition claimNonce :: "env \<Rightarrow> string \<Rightarrow> string \<Rightarrow> store \<Rightarrow> bool \<times> store" where
  "claimNonce E agentId nonce s =
     (let rid = mk_id E ''rpl'' (draws s); s1 = s\<lparr> draws := Suc (draws s) \<rparr> in
      if select_exists (\<lambda>r. nc_agent_id r = agentId \<and> nc_nonce r = nonce \<or> nc_id r = rid) (replay_nonces s)
      then (False, s1)
      else (True, s1\<lparr> replay_nonces := replay_nonces s @
                  [\<lparr> nc_id = rid, nc_agent_id = agentId, nc_nonce = nonce, nc_created_at = now E \<rparr>] \<rparr>))"

definition claimEnvelopeNonce :: "env \<Rightarrow> string \<Rightarrow> string \<Rightarrow> store \<Rightarrow> bool \<times> store" where
  "claimEnvelopeNonce E agentId nonce s = claimNonce E agentId (''env:'' @ nonce) s"

text \<open>\<^verbatim>\<open>nonce LIKE 'env:%'\<close>: SQLite's \<^verbatim>\<open>LIKE\<close> ignores the case of letters.\<close>

definition like_env :: "string \<Rightarrow> bool" where
  "like_env nonce \<longleftrightarrow> js_lower (take 4 nonce) = ''env:''"

definition sweepStaleNonces :: "env \<Rightarrow> store \<Rightarrow> nat \<times> store" where
  "sweepStaleNonces E s =
     (let transportCutoff = now E - timestampSkewSeconds (cfg E) * 2 * 1000;
          envelopeCutoff = now E - envelopeNonceRetentionSeconds (cfg E) * 1000;
          p = (\<lambda>r. \<not> like_env (nc_nonce r) \<and> nc_created_at r < transportCutoff);
          rows1 = delete_where p (replay_nonces s);
          q = (\<lambda>r. like_env (nc_nonce r) \<and> nc_created_at r < envelopeCutoff)
      in (changes p (replay_nonces s) + changes q rows1, s\<lparr> replay_nonces := delete_where q rows1 \<rparr>))"

text \<open>The parts of a request that authentication reads; a header that is missing or repeated is None.\<close>

record request =
  h_agent_id :: "string option"
  h_timestamp :: "string option"
  h_nonce :: "string option"
  h_signature :: "string option"
  h_agent_secret :: "string option"
  h_authorization :: "string option"
  rq_method :: string
  rq_url :: string
  rq_body :: "json option"

fun json_truthy :: "json \<Rightarrow> bool" where
  "json_truthy JNull = False"
| "json_truthy (JBool b) = b"
| "json_truthy (JNum n) = (n \<noteq> 0)"
| "json_truthy (JStr v) = (v \<noteq> [])"
| "json_truthy (JArr _) = True"
| "json_truthy (JObj _) = True"

definition request_body_text :: "json option \<Rightarrow> string" where
  "request_body_text b = (case b of None \<Rightarrow> [] | Some v \<Rightarrow> if json_truthy v then plain v else [])"

definition nl :: string where
  "nl = [CHR 0x0A]"

definition agent_payload :: "crypto \<Rightarrow> request \<Rightarrow> string \<Rightarrow> string \<Rightarrow> string" where
  "agent_payload C rq timestamp nonce =
     rq_method rq @ nl @ hd (js_split CHR ''?'' (rq_url rq)) @ nl @ timestamp @ nl @ nonce @ nl
     @ sha256_hex C (request_body_text (rq_body rq))"

datatype auth_error =
    Missing_auth_headers
  | Invalid_agent_credentials
  | Timestamp_outside_skew
  | Invalid_signature
  | Replayed_nonce
  | Gate_refused string
  | Missing_operator_session
  | Session_refused string
  | Operator_not_found

text \<open>
  \<^verbatim>\<open>requireAgentAuth\<close>.  \<open>date_of\<close> is \<^verbatim>\<open>new Date(text).getTime()\<close>, whose reading of texts that are not ISO
  is up to the engine; None is \<^verbatim>\<open>NaN\<close>.  The result carries the agent, its fleet and its status.
\<close>

definition requireAgentAuth ::
  "env \<Rightarrow> (string \<Rightarrow> int option) \<Rightarrow> request \<Rightarrow> store \<Rightarrow> (auth_error + string \<times> string \<times> string) \<times> store" where
  "requireAgentAuth E date_of rq s =
     (case (h_agent_id rq, h_timestamp rq, h_nonce rq, h_signature rq, h_agent_secret rq) of
        (Some agentId, Some timestamp, Some nonce, Some signature, Some sharedSecret) \<Rightarrow>
          (case authenticateAgent s agentId of
             None \<Rightarrow> (Inl Invalid_agent_credentials, s)
           | Some (agent, secretHash) \<Rightarrow>
               if \<not> timingSafeEqualStr secretHash (hashSecret (cryp E) sharedSecret)
               then (Inl Invalid_agent_credentials, s)
               else case date_of timestamp of
                 None \<Rightarrow> (Inl Timestamp_outside_skew, s)
               | Some ts \<Rightarrow>
                   if \<bar>now E - ts\<bar> > timestampSkewSeconds (cfg E) * 1000 then (Inl Timestamp_outside_skew, s)
                   else if \<not> timingSafeEqualStr
                             (sign_hmac (cryp E) sharedSecret (agent_payload (cryp E) rq timestamp nonce)) signature
                   then (Inl Invalid_signature, s)
                   else let (fresh, s1) = claimNonce E agentId nonce s
                        in if \<not> fresh then (Inl Replayed_nonce, s1)
                           else (Inr (agentId, ag_fleet_id agent, ag_status agent), s1))
      | _ \<Rightarrow> (Inl Missing_auth_headers, s))"

section \<open>Operator sessions\<close>

definition session_core :: "string \<Rightarrow> string \<Rightarrow> string \<Rightarrow> string" where
  "session_core operatorId fleetId issuedAt = operatorId @ ''.'' @ fleetId @ ''.'' @ issuedAt"

definition issueOperatorSession :: "crypto \<Rightarrow> string \<Rightarrow> string \<Rightarrow> string \<Rightarrow> int \<Rightarrow> string" where
  "issueOperatorSession C secret operatorId fleetId nowSeconds =
     (let core = session_core operatorId fleetId (int_str nowSeconds)
      in core @ ''.'' @ sign_hmac C secret core)"

definition verifyOperatorSession ::
  "crypto \<Rightarrow> string \<Rightarrow> string \<Rightarrow> int \<Rightarrow> int \<Rightarrow> string + string \<times> string" where
  "verifyOperatorSession C secret token nowSeconds maxAgeSeconds =
     (case js_split CHR ''.'' token of
        [operatorId, fleetId, issuedAtRaw, signature] \<Rightarrow>
          if operatorId = [] \<or> fleetId = [] \<or> issuedAtRaw = [] \<or> signature = []
          then Inl ''malformed operator session''
          else if \<not> timingSafeEqualStr (sign_hmac C secret (session_core operatorId fleetId issuedAtRaw)) signature
          then Inl ''invalid operator session''
          else (case js_integer issuedAtRaw of
                  None \<Rightarrow> Inl ''malformed operator session''
                | Some issuedAt \<Rightarrow>
                    if nowSeconds - issuedAt > maxAgeSeconds then Inl ''session expired''
                    else if nowSeconds - issuedAt < - 300 then Inl ''session not yet valid''
                    else Inr (operatorId, fleetId))
      | parts \<Rightarrow> Inl (if length parts = 3 then ''session format expired, please sign in again''
                      else ''malformed operator session''))"

lemma timingSafeEqualStr_iff [simp]: "timingSafeEqualStr a b \<longleftrightarrow> a = b"
  by (auto simp: timingSafeEqualStr_def list_all2_eq dest: list_all2_lengthD)

section \<open>Replay guards\<close>

text \<open>
  The contract of a guard against replays: claiming a key succeeds only if the key was not seen,
  makes it seen, and forgets nothing.  Both nonce claims of the relay meet it.
\<close>

locale replay_guard =
  fixes claim :: "env \<Rightarrow> 'k \<Rightarrow> store \<Rightarrow> bool \<times> store" and seen :: "store \<Rightarrow> 'k \<Rightarrow> bool"
  assumes claim_fresh: "claim E k s = (True, t) \<Longrightarrow> \<not> seen s k"
    and claim_seen: "claim E k s = (True, t) \<Longrightarrow> seen t k"
    and claim_keeps: "claim E k s = (b, t) \<Longrightarrow> seen s j \<Longrightarrow> seen t j"
begin

lemma claim_once:
  assumes "claim E k s = (True, t)" "\<And>j. seen t j \<Longrightarrow> seen u j"
  shows "\<not> fst (claim E' k u)"
  using assms claim_seen claim_fresh by (metis prod.collapse)

end

definition nonce_seen :: "store \<Rightarrow> string \<times> string \<Rightarrow> bool" where
  "nonce_seen s k \<longleftrightarrow> (\<exists>r\<in>set (replay_nonces s). nc_agent_id r = fst k \<and> nc_nonce r = snd k)"

interpretation transport: replay_guard "\<lambda>E (a, n). claimNonce E a n" nonce_seen
  by unfold_locales (auto simp: claimNonce_def nonce_seen_def Let_def select_exists_iff split: if_splits)

interpretation envelope: replay_guard "\<lambda>E (a, n). claimEnvelopeNonce E a n" "\<lambda>s (a, n). nonce_seen s (a, ''env:'' @ n)"
  by unfold_locales
    (auto simp: claimEnvelopeNonce_def claimNonce_def nonce_seen_def Let_def select_exists_iff split: if_splits)

section \<open>Runs of the authentication layer\<close>

text \<open>
  The clock and the store.  Time moves forward; a request is authenticated, an envelope nonce is
  claimed, the sweep prunes, or something happens that does not touch the nonces.
\<close>

inductive auth_step :: "config \<Rightarrow> (string \<Rightarrow> int option) \<Rightarrow> int \<times> store \<Rightarrow> int \<times> store \<Rightarrow> bool" for G date_of where
  Tick: "t \<le> t' \<Longrightarrow> auth_step G date_of (t, s) (t', s)"
| Request: "cfg E = G \<Longrightarrow> now E = t \<Longrightarrow> requireAgentAuth E date_of rq s = (r, s') \<Longrightarrow> auth_step G date_of (t, s) (t, s')"
| Envelope: "cfg E = G \<Longrightarrow> now E = t \<Longrightarrow> claimEnvelopeNonce E a n s = (b, s') \<Longrightarrow> auth_step G date_of (t, s) (t, s')"
| Sweep: "cfg E = G \<Longrightarrow> now E = t \<Longrightarrow> sweepStaleNonces E s = (k, s') \<Longrightarrow> auth_step G date_of (t, s) (t, s')"
| Other: "replay_nonces s' = replay_nonces s \<Longrightarrow> auth_step G date_of (t, s) (t, s')"

lemma requireAgentAuth_nonces:
  "requireAgentAuth E d rq s = (r, s') \<Longrightarrow>
     replay_nonces s' = replay_nonces s \<or> (\<exists>row. replay_nonces s' = replay_nonces s @ [row])"
  by (auto simp: requireAgentAuth_def claimNonce_def Let_def split: option.splits if_splits prod.splits)

lemma requireAgentAuth_accepts:
  assumes "requireAgentAuth E d rq s = (Inr (a, f, st), s')"
  obtains ts n sig k ag h time where
    "h_agent_id rq = Some a" "h_timestamp rq = Some ts" "h_nonce rq = Some n" "h_signature rq = Some sig"
    "h_agent_secret rq = Some k" "authenticateAgent s a = Some (ag, h)" "h = hashSecret (cryp E) k"
    "d ts = Some time" "\<bar>now E - time\<bar> \<le> timestampSkewSeconds (cfg E) * 1000"
    "sig = sign_hmac (cryp E) k (agent_payload (cryp E) rq ts n)" "claimNonce E a n s = (True, s')"
    "f = ag_fleet_id ag" "st = ag_status ag"
  using assms
  by (auto simp: requireAgentAuth_def Let_def split: option.splits if_splits prod.splits)

lemma claimNonce_row:
  "claimNonce E a n s = (True, t) \<Longrightarrow>
     \<exists>r\<in>set (replay_nonces t). nc_agent_id r = a \<and> nc_nonce r = n \<and> nc_created_at r = now E"
  by (auto simp: claimNonce_def Let_def split: if_splits)

text \<open>
  The request with this agent, nonce and instant can no longer be accepted: its nonce is remembered
  from an instant inside the window, or the window has passed.
\<close>

definition spent :: "config \<Rightarrow> string \<Rightarrow> string \<Rightarrow> int \<Rightarrow> int \<times> store \<Rightarrow> bool" where
  "spent G a n time st \<longleftrightarrow>
     (\<exists>r\<in>set (replay_nonces (snd st)). nc_agent_id r = a \<and> nc_nonce r = n
        \<and> time - timestampSkewSeconds G * 1000 \<le> nc_created_at r)
     \<or> time + timestampSkewSeconds G * 1000 < fst st"

definition retention_ok :: "config \<Rightarrow> bool" where
  "retention_ok G \<longleftrightarrow> 2 * timestampSkewSeconds G \<le> envelopeNonceRetentionSeconds G"

lemma sweep_spent:
  assumes "retention_ok (cfg E)" "sweepStaleNonces E s = (k, s')" "spent (cfg E) a n time (now E, s)"
  shows "spent (cfg E) a n time (now E, s')"
proof (cases "time + timestampSkewSeconds (cfg E) * 1000 < now E")
  case True
  then show ?thesis by (simp add: spent_def)
next
  case False
  then obtain r where r: "r \<in> set (replay_nonces s)" "nc_agent_id r = a" "nc_nonce r = n"
    "time - timestampSkewSeconds (cfg E) * 1000 \<le> nc_created_at r"
    using assms(3) by (auto simp: spent_def)
  have "now E - timestampSkewSeconds (cfg E) * 2 * 1000 \<le> nc_created_at r"
    "now E - envelopeNonceRetentionSeconds (cfg E) * 1000 \<le> nc_created_at r"
    using False r(4) assms(1) by (simp_all add: retention_ok_def)
  then have "r \<in> set (replay_nonces s')"
    using assms(2) r(1) by (auto simp: sweepStaleNonces_def Let_def)
  with r show ?thesis by (auto simp: spent_def)
qed

lemma spent_grow:
  "spent G a n time (t, s) \<Longrightarrow> set (replay_nonces s) \<subseteq> set (replay_nonces s') \<Longrightarrow> spent G a n time (t, s')"
  by (auto simp: spent_def)

lemma spent_step: "auth_step G d st st' \<Longrightarrow> retention_ok G \<Longrightarrow> spent G a n time st \<Longrightarrow> spent G a n time st'"
proof (induction rule: auth_step.induct)
  case (Tick t t' s)
  then show ?case by (auto simp: spent_def)
next
  case (Request E t rq s r s')
  show ?case
    by (rule spent_grow [OF Request(5)]) (use requireAgentAuth_nonces [OF Request(3)] in auto)
next
  case (Envelope E t a' n' s b s')
  show ?case
    by (rule spent_grow [OF Envelope(5)])
      (use Envelope(3) in \<open>auto simp: claimEnvelopeNonce_def claimNonce_def Let_def split: if_splits\<close>)
next
  case (Sweep E t s k s')
  then show ?case using sweep_spent by blast
next
  case (Other s' s t)
  then show ?case by (simp add: spent_def)
qed

lemma spent_reach:
  "reach st (auth_step G d) st' \<Longrightarrow> retention_ok G \<Longrightarrow> spent G a n time st \<Longrightarrow> spent G a n time st'"
  by (induction rule: reach.induct) (auto intro: spent_step)

lemma spent_rejects:
  assumes "spent (cfg E) a n time (now E, s)" "h_agent_id rq = Some a" "h_nonce rq = Some n"
    "h_timestamp rq = Some ts" "d ts = Some time"
  shows "\<nexists>who. fst (requireAgentAuth E d rq s) = Inr who"
proof
  assume "\<exists>who. fst (requireAgentAuth E d rq s) = Inr who"
  then obtain a' f st s' where "requireAgentAuth E d rq s = (Inr (a', f, st), s')"
    by (metis prod.collapse)
  then show False
  proof (rule requireAgentAuth_accepts)
    assume "h_agent_id rq = Some a'"
    fix ts' n' time'
    assume r: "h_timestamp rq = Some ts'" "h_nonce rq = Some n'" "d ts' = Some time'"
      "\<bar>now E - time'\<bar> \<le> timestampSkewSeconds (cfg E) * 1000" "claimNonce E a' n' s = (True, s')"
    have "\<not> nonce_seen s (a, n)"
      using transport.claim_fresh [of E "(a', n')" s s'] r assms(2,3) \<open>h_agent_id rq = Some a'\<close> by simp
    with assms(1,4,5) r(1,3,4) show False by (auto simp: spent_def nonce_seen_def)
  qed
qed

section \<open>Properties\<close>

text \<open>
  C3: a request the relay accepted is never accepted again: whatever requests, claims and sweeps
  follow while the clock moves forward, no request with the same agent, nonce and timestamp text is
  authenticated, provided envelope nonces are kept at least twice the skew (as they are by default).
\<close>

theorem agent_request_never_replayed:
  assumes "retention_ok (cfg E)" "requireAgentAuth E d rq s = (Inr who, s1)"
    and "reach (now E, s1) (auth_step (cfg E) d) (now E', s')" "cfg E' = cfg E"
    and "h_agent_id rq' = h_agent_id rq" "h_nonce rq' = h_nonce rq" "h_timestamp rq' = h_timestamp rq"
  shows "\<nexists>who'. fst (requireAgentAuth E' d rq' s') = Inr who'"
proof -
  obtain a f st where who: "who = (a, f, st)" by (cases who)
  from assms(2) [unfolded who] obtain ts n time where r: "h_agent_id rq = Some a" "h_timestamp rq = Some ts"
    "h_nonce rq = Some n" "d ts = Some time" "\<bar>now E - time\<bar> \<le> timestampSkewSeconds (cfg E) * 1000"
    "claimNonce E a n s = (True, s1)"
    by (rule requireAgentAuth_accepts)
  have "spent (cfg E) a n time (now E, s1)"
    using claimNonce_row [OF r(6)] r(5) by (auto simp: spent_def abs_le_iff)
  then have "spent (cfg E') a n time (now E', s')"
    using spent_reach [OF assms(3,1)] assms(4) by simp
  then show ?thesis
    using r assms(5-7) by (intro spent_rejects) auto
qed

text \<open>
  C29: an accepted agent request comes from an unrevoked agent whose newest active credential matches
  the presented secret, is within the skew, and carries the HMAC of its method, path, timestamp, nonce
  and body digest under that secret; a request that is refused burns no nonce.
\<close>

theorem agent_auth_sound:
  "(case requireAgentAuth E d rq s of
      (Inr (a, f, st), s') \<Rightarrow>
        (\<exists>ag h k ts n time. ag \<in> set (agents s) \<and> ag_id ag = a \<and> ag_fleet_id ag = f \<and> ag_revoked_at ag = None
           \<and> (\<exists>c\<in>set (agent_credentials s). cr_agent_id c = a \<and> cr_status c = ''active'' \<and> cr_secret_hash c = h
                \<and> (\<forall>c'\<in>set (agent_credentials s). cr_agent_id c' = a \<and> cr_status c' = ''active''
                     \<longrightarrow> cr_created_at c' \<le> cr_created_at c))
           \<and> h_agent_secret rq = Some k \<and> h = hashSecret (cryp E) k
           \<and> h_timestamp rq = Some ts \<and> h_nonce rq = Some n \<and> d ts = Some time
           \<and> \<bar>now E - time\<bar> \<le> timestampSkewSeconds (cfg E) * 1000
           \<and> h_signature rq = Some (sign_hmac (cryp E) k (agent_payload (cryp E) rq ts n)))
    | (Inl _, s') \<Rightarrow> replay_nonces s' = replay_nonces s)"
proof (cases "requireAgentAuth E d rq s")
  case (Pair r s')
  show ?thesis
  proof (cases r)
    case (Inl e)
    with Pair show ?thesis
      by (auto simp: requireAgentAuth_def claimNonce_def Let_def split: option.splits if_splits prod.splits)
  next
    case (Inr who)
    obtain a f st where who: "who = (a, f, st)" by (cases who)
    from Pair have "requireAgentAuth E d rq s = (Inr (a, f, st), s')" by (simp add: Inr who)
    then obtain ts n sig k ag h time where r:
      "h_timestamp rq = Some ts" "h_nonce rq = Some n" "h_signature rq = Some sig"
      "h_agent_secret rq = Some k" "authenticateAgent s a = Some (ag, h)" "h = hashSecret (cryp E) k"
      "d ts = Some time" "\<bar>now E - time\<bar> \<le> timestampSkewSeconds (cfg E) * 1000"
      "sig = sign_hmac (cryp E) k (agent_payload (cryp E) rq ts n)" "f = ag_fleet_id ag"
      by (rule requireAgentAuth_accepts)
    from r(5) obtain c where c: "select_one (\<lambda>x. ag_id x = a \<and> is_null (ag_revoked_at x)) (agents s) = Some ag"
      "head_option (order_desc cr_created_at
         (select_all (\<lambda>c. cr_agent_id c = a \<and> cr_status c = ''active'') (agent_credentials s))) = Some c"
      "h = cr_secret_hash c"
      by (auto simp: authenticateAgent_def split: option.splits)
    have ag: "ag \<in> set (agents s) \<and> ag_id ag = a \<and> ag_revoked_at ag = None"
      using select_one_Some [OF c(1)] by simp
    have cr: "c \<in> set (agent_credentials s) \<and> cr_agent_id c = a \<and> cr_status c = ''active''"
      using head_option_Some [OF c(2)] by (simp add: select_all_def)
    have max: "\<forall>c'\<in>set (agent_credentials s). cr_agent_id c' = a \<and> cr_status c' = ''active'' \<longrightarrow> cr_created_at c' \<le> cr_created_at c"
      using head_order_desc_max [OF c(2)] by (simp add: select_all_def)
    show ?thesis
      unfolding Pair Inr who
      using r ag cr max c(3) by auto
  qed
qed

section \<open>Enrollment tokens\<close>

inductive enrol_step :: "store \<Rightarrow> store \<Rightarrow> bool" where
  Issue: "issueEnrollmentToken E f oper s = (r, s') \<Longrightarrow> enrol_step s s'"
| Enroll: "createAgentFromEnrollment E f tok name runtime host s = (r, s') \<Longrightarrow> enrol_step s s'"
| Enrol_other: "enrollment_tokens s' = enrollment_tokens s \<Longrightarrow> enrol_step s s'"

definition token_pk :: "store \<Rightarrow> bool" where
  "token_pk s \<longleftrightarrow> distinct (map tk_token_hash (enrollment_tokens s))"

definition token_used :: "store \<Rightarrow> string \<Rightarrow> bool" where
  "token_used s h \<longleftrightarrow> (\<exists>r\<in>set (enrollment_tokens s). tk_token_hash r = h \<and> tk_used_at r \<noteq> None)"

lemma createAgent_tokens:
  assumes "createAgentFromEnrollment E f tok name runtime host s = (r, s')"
  shows "map tk_token_hash (enrollment_tokens s') = map tk_token_hash (enrollment_tokens s)"
    "select_exists (\<lambda>x. tk_token_hash x = h \<and> tk_used_at x \<noteq> None) (enrollment_tokens s) \<Longrightarrow>
     select_exists (\<lambda>x. tk_token_hash x = h \<and> tk_used_at x \<noteq> None) (enrollment_tokens s')"
  using assms
  by (auto simp: createAgentFromEnrollment_def Let_def intro!: select_exists_update split: if_splits)

lemma enrol_step_keeps:
  assumes "enrol_step s s'" "token_pk s"
  shows "token_pk s'" "token_used s h \<Longrightarrow> token_used s' h"
proof -
  have "token_pk s' \<and> (token_used s h \<longrightarrow> token_used s' h)"
    using assms(1)
  proof (cases rule: enrol_step.cases)
    case (Issue E f oper r)
    with assms(2) show ?thesis
      by (fastforce simp: issueEnrollmentToken_def Let_def token_pk_def token_used_def select_exists_iff split: if_splits)
  next
    case (Enroll E f tok name runtime host r)
    note c = createAgent_tokens [OF Enroll]
    from c(1) c(2) [of h] assms(2) show ?thesis
      by (simp add: token_pk_def token_used_def select_exists_iff)
  qed (use assms(2) in \<open>simp add: token_pk_def token_used_def\<close>)
  then show "token_pk s'" "token_used s h \<Longrightarrow> token_used s' h" by auto
qed

lemma enrol_reach_keeps:
  "reach s enrol_step s' \<Longrightarrow> token_pk s \<Longrightarrow> token_used s h \<Longrightarrow> token_pk s' \<and> token_used s' h"
  by (induction rule: reach.induct) (auto simp: enrol_step_keeps)

lemma token_used_refuses:
  assumes "token_pk s" "token_used s (hashSecret (cryp E) tok)"
  shows "fst (createAgentFromEnrollment E f tok name runtime host s) = Inr None"
    "agents (snd (createAgentFromEnrollment E f tok name runtime host s)) = agents s"
proof -
  let ?p = "claimable (hashSecret (cryp E) tok) f (now E)"
  obtain r where r: "r \<in> set (enrollment_tokens s)" "tk_token_hash r = hashSecret (cryp E) tok" "tk_used_at r \<noteq> None"
    using assms(2) by (auto simp: token_used_def)
  have "x = r" if "x \<in> set (enrollment_tokens s)" "tk_token_hash x = hashSecret (cryp E) tok" for x
    using that r assms(1) by (metis token_pk_def distinct_map inj_on_contraD)
  then have "changes ?p (enrollment_tokens s) = 0"
    using r(3) by (auto simp: changes_eq_0 claimable_def)
  then show "fst (createAgentFromEnrollment E f tok name runtime host s) = Inr None"
    "agents (snd (createAgentFromEnrollment E f tok name runtime host s)) = agents s"
    by (simp_all add: createAgentFromEnrollment_def Let_def)
qed

text \<open>
  An enrollment token admits one agent: when an enrollment succeeds the token belonged to that
  fleet and was unused and unexpired, the new agent is a healthy agent of that fleet with exactly one
  credential, for the returned secret; in every later state an enrollment with the same token is refused
  and creates nothing.
\<close>

theorem enrollment_token_single_use:
  assumes "token_pk s" "createAgentFromEnrollment E f tok name runtime host s = (Inr (Some (a, secret)), s1)"
    and "\<forall>c\<in>set (agent_credentials s). cr_agent_id c \<in> ag_id ` set (agents s)"
    and "reach s1 enrol_step s'" "cryp E' = cryp E"
  shows "(\<exists>r\<in>set (enrollment_tokens s). claimable (hashSecret (cryp E) tok) f (now E) r)
    \<and> (\<exists>ag\<in>set (agents s1). ag_id ag = a \<and> ag_fleet_id ag = f \<and> ag_status ag = ''healthy'' \<and> ag_revoked_at ag = None)
    \<and> map cr_secret_hash (filter (\<lambda>c. cr_agent_id c = a) (agent_credentials s1)) = [hashSecret (cryp E) secret]
    \<and> fst (createAgentFromEnrollment E' f' tok name' runtime' host' s') = Inr None
    \<and> agents (snd (createAgentFromEnrollment E' f' tok name' runtime' host' s')) = agents s'"
proof -
  let ?p = "claimable (hashSecret (cryp E) tok) f (now E)"
  have one: "changes ?p (enrollment_tokens s) = 1"
    using assms(2) by (auto simp: createAgentFromEnrollment_def Let_def split: if_splits)
  then obtain r where r: "r \<in> set (enrollment_tokens s)" "?p r"
    using changes_pos [of ?p "enrollment_tokens s"] by auto
  have new: "a \<notin> ag_id ` set (agents s)"
    using assms(2) one by (auto simp: createAgentFromEnrollment_def Let_def select_exists_iff split: if_splits)
  have ag: "\<exists>ag\<in>set (agents s1). ag_id ag = a \<and> ag_fleet_id ag = f \<and> ag_status ag = ''healthy'' \<and> ag_revoked_at ag = None"
    using assms(2) one by (auto simp: createAgentFromEnrollment_def Let_def split: if_splits)
  have "filter (\<lambda>c. cr_agent_id c = a) (agent_credentials s) = []"
    using new assms(3) by (auto simp: filter_empty_conv)
  then have cr: "map cr_secret_hash (filter (\<lambda>c. cr_agent_id c = a) (agent_credentials s1)) = [hashSecret (cryp E) secret]"
    using assms(2) one by (auto simp: createAgentFromEnrollment_def Let_def split: if_splits)
  have "token_pk s1" using enrol_step_keeps(1) [OF Enroll [OF assms(2)] assms(1)] .
  moreover have "token_used s1 (hashSecret (cryp E) tok)"
  proof -
    let ?q = "\<lambda>x. tk_token_hash x = hashSecret (cryp E) tok \<and> tk_used_at x \<noteq> None"
    have "select_exists ?q (update_where ?p (\<lambda>x. x\<lparr> tk_used_at := Some (now E) \<rparr>) (enrollment_tokens s))"
      using r by (intro select_exists_hit [of r]) (auto simp: claimable_def)
    then have "select_exists ?q (enrollment_tokens s1)"
      using assms(2) one
      by (auto simp: createAgentFromEnrollment_def Let_def intro!: select_exists_update split: if_splits)
    then show ?thesis by (auto simp: token_used_def select_exists_iff)
  qed
  ultimately have "token_pk s' \<and> token_used s' (hashSecret (cryp E') tok)"
    using enrol_reach_keeps [OF assms(4)] assms(5) by simp
  then show ?thesis
    using r ag cr token_used_refuses [of s' E' tok f' name' runtime' host'] by blast
qed

section \<open>Operator sessions\<close>

lemma session_core_split:
  assumes "CHR ''.'' \<notin> set oper" "CHR ''.'' \<notin> set f" "CHR ''.'' \<notin> set n" "CHR ''.'' \<notin> set sig"
  shows "js_split CHR ''.'' (session_core oper f n @ ''.'' @ sig) = [oper, f, n, sig]"
  using assms by (simp add: session_core_def js_split_append js_split_plain)

lemma split4:
  assumes "js_split CHR ''.'' token = [oper, f, n, sig]"
  shows "token = session_core oper f n @ ''.'' @ sig"
  using join_js_split [of "CHR ''.''" token] by (simp add: assms session_core_def)

text \<open>
  A session token is honoured exactly when it is the relay's own: operator, fleet and issue time
  non-empty and without dots, signed together with the session secret, the issue time an integer at
  most the maximum age ago and at most five minutes ahead.
\<close>

theorem operator_session_exact:
  assumes "\<forall>m. sign_hmac C key m \<noteq> [] \<and> CHR ''.'' \<notin> set (sign_hmac C key m)"
  shows "verifyOperatorSession C key token t maxAge = Inr (oper, f) \<longleftrightarrow>
      (\<exists>raw n. token = session_core oper f raw @ ''.'' @ sign_hmac C key (session_core oper f raw)
         \<and> oper \<noteq> [] \<and> f \<noteq> [] \<and> raw \<noteq> [] \<and> CHR ''.'' \<notin> set (oper @ f @ raw)
         \<and> js_integer raw = Some n \<and> t - n \<le> maxAge \<and> - 300 \<le> t - n)" (is "?v \<longleftrightarrow> ?own")
proof
  assume ?v
  then obtain raw sig n where p: "js_split CHR ''.'' token = [oper, f, raw, sig]" "oper \<noteq> []" "f \<noteq> []" "raw \<noteq> []"
    "sign_hmac C key (session_core oper f raw) = sig" "js_integer raw = Some n" "t - n \<le> maxAge" "- 300 \<le> t - n"
    by (auto simp: verifyOperatorSession_def Let_def split: list.splits if_splits option.splits)
  moreover have "CHR ''.'' \<notin> set (oper @ f @ raw)"
    using js_split_piece [of _ "CHR ''.''" token] by (simp add: p(1))
  ultimately show ?own
    using split4 [OF p(1)] by blast
next
  assume ?own
  then obtain raw n where o: "token = session_core oper f raw @ ''.'' @ sign_hmac C key (session_core oper f raw)"
    "oper \<noteq> []" "f \<noteq> []" "raw \<noteq> []" "CHR ''.'' \<notin> set (oper @ f @ raw)" "js_integer raw = Some n"
    "t - n \<le> maxAge" "- 300 \<le> t - n"
    by blast
  then have "js_split CHR ''.'' token = [oper, f, raw, sign_hmac C key (session_core oper f raw)]"
    using assms session_core_split [of oper f raw "sign_hmac C key (session_core oper f raw)"] by simp
  with o assms show ?v
    by (simp add: verifyOperatorSession_def)
qed

section \<open>Passwords\<close>

text \<open>
  A password verifies against its own salted hash, and not as a legacy one, so the rehash that a
  login performs on a legacy row never locks the operator out; what is needed of Node is that base64
  decodes what it encoded and has no dollar sign, and that scrypt with the relay's parameters returns
  thirty-two bytes.
\<close>

theorem rehash_verifies:
  assumes "\<forall>x. b64_decode K (b64_encode K x) = x" "\<forall>x. CHR ''$'' \<notin> set (b64_encode K x)"
    and "scrypt K password salt 32 16384 8 1 = Some h" "length h = 32" "salt \<noteq> []"
    and "authenticateOperator E K salt fleetName email password s = (Some row, s')"
    and "cryp E' = cryp E"
  shows "\<exists>row' s''. authenticateOperator E' K salt' fleetName email password s' = (Some row', s'') \<and> op_id row' = op_id row"
proof -
  have v: "verifyPassword K C password (hashPassword K salt password) = (True, False)" for C
  proof -
    have "js_split CHR ''$'' (hashPassword K salt password) =
        [''scrypt'', ''16384'', ''8'', ''1'', b64_encode K salt, b64_encode K h]"
      using js_split_join [of "[''scrypt'', ''16384'', ''8'', ''1'', b64_encode K salt, b64_encode K h]" "CHR ''$''"] assms(2,3)
      by (simp add: hashPassword_def)
    moreover have "isScryptHash (hashPassword K salt password)"
      by (simp add: isScryptHash_def starts_with_def hashPassword_def)
    moreover have "js_integer ''16384'' = Some 16384" "js_integer ''8'' = Some 8" "js_integer ''1'' = Some 1"
      by code_simp+
    ultimately show ?thesis
      using assms(1,3-5) by (auto simp: verifyPassword_def Let_def)
  qed
  from assms(6) obtain ok legacy where r: "operator_row_for s fleetName email = Some row"
    "verifyPassword K (cryp E) password (op_password_hash row) = (True, legacy)"
    "s' = (if legacy then s\<lparr> operators := update_where (\<lambda>r. op_id r = op_id row)
             (\<lambda>r. r\<lparr> op_password_hash := hashPassword K salt password \<rparr>) (operators s) \<rparr> else s)"
    by (auto simp: authenticateOperator_def split: option.splits prod.splits if_splits)
  show ?thesis
  proof (cases legacy)
    case False
    with r assms(7) show ?thesis by (auto simp: authenticateOperator_def)
  next
    case True
    let ?u = "\<lambda>r. r\<lparr> op_password_hash := hashPassword K salt password \<rparr>"
    have "operator_row_for s' fleetName email = Some (?u row)"
      using r(1,3) True by (simp add: operator_row_for_def select_one_update)
    then show ?thesis using v by (auto simp: authenticateOperator_def)
  qed
qed

section \<open>Sample data\<close>

definition sample_issued :: store where
  "sample_issued = snd (issueEnrollmentToken (sample_env 0) ''flt'' ''opr'' empty_store)"

definition sample_token :: string where
  "sample_token = projr (fst (issueEnrollmentToken (sample_env 0) ''flt'' ''opr'' empty_store))"

definition sample_agent :: string where
  "sample_agent = fst (the (projr (fst (createAgentFromEnrollment (sample_env 1) ''flt'' sample_token ''bot'' ''custom'' None sample_issued))))"

definition sample_secret :: string where
  "sample_secret = snd (the (projr (fst (createAgentFromEnrollment (sample_env 1) ''flt'' sample_token ''bot'' ''custom'' None sample_issued))))"

definition sample_enrolled :: store where
  "sample_enrolled = snd (createAgentFromEnrollment (sample_env 1) ''flt'' sample_token ''bot'' ''custom'' None sample_issued)"

definition sample_request :: request where
  "sample_request =
     (let rq = \<lparr> h_agent_id = Some sample_agent, h_timestamp = Some ''t'', h_nonce = Some ''n'', h_signature = None,
                 h_agent_secret = Some sample_secret, h_authorization = None, rq_method = ''GET'', rq_url = ''/v1/inbox?x=1'',
                 rq_body = None \<rparr>
      in rq\<lparr> h_signature := Some (sign_hmac sample_crypto sample_secret (agent_payload sample_crypto rq ''t'' ''n'')) \<rparr>)"

definition sample_accepted :: store where
  "sample_accepted = snd (requireAgentAuth (sample_env 2) (\<lambda>_. Some 0) sample_request sample_enrolled)"

lemma sample_enrolled_eq:
  "createAgentFromEnrollment (sample_env 1) ''flt'' sample_token ''bot'' ''custom'' None sample_issued =
     (Inr (Some (sample_agent, sample_secret)), sample_enrolled)"
  unfolding sample_enrolled_def sample_agent_def sample_secret_def by code_simp

lemma sample_accepted_eq:
  "requireAgentAuth (sample_env 2) (\<lambda>_. Some 0) sample_request sample_enrolled =
     (Inr (sample_agent, ''flt'', ''healthy''), sample_accepted)"
  unfolding sample_accepted_def by code_simp

lemma agent_request_never_replayed_witness:
  "\<nexists>who. fst (requireAgentAuth (sample_env 3) (\<lambda>_. Some 0) sample_request sample_accepted) = Inr who"
proof (rule agent_request_never_replayed [OF _ sample_accepted_eq])
  show "retention_ok (cfg (sample_env 2))" by (simp add: retention_ok_def default_config_def)
  have "auth_step (cfg (sample_env 2)) (\<lambda>_. Some 0) (now (sample_env 2), sample_accepted) (now (sample_env 3), sample_accepted)"
    by (rule Tick) simp
  then show "reach (now (sample_env 2), sample_accepted) (auth_step (cfg (sample_env 2)) (\<lambda>_. Some 0)) (now (sample_env 3), sample_accepted)"
    by (rule reach_step [OF reach_start])
qed simp_all

lemma agent_auth_sound_witness:
  "\<exists>ag\<in>set (agents sample_enrolled). ag_id ag = sample_agent \<and> ag_fleet_id ag = ''flt'' \<and> ag_revoked_at ag = None"
  using agent_auth_sound [where E = "sample_env 2" and d = "\<lambda>_. Some 0" and rq = sample_request and s = sample_enrolled]
  unfolding sample_accepted_eq by auto

lemma enrollment_token_single_use_witness:
  "fst (createAgentFromEnrollment (sample_env 5) ''flt'' sample_token ''bot2'' ''custom'' None sample_enrolled) = Inr None"
proof -
  have "token_pk sample_issued" by code_simp
  moreover have "\<forall>c\<in>set (agent_credentials sample_issued). cr_agent_id c \<in> ag_id ` set (agents sample_issued)" by code_simp
  ultimately show ?thesis
    using enrollment_token_single_use [OF _ sample_enrolled_eq _ reach_start, of "sample_env 5"] by simp
qed

lemma operator_session_exact_witness:
  "verifyOperatorSession (sample_crypto\<lparr> hmac_hex := \<lambda>k m. ''ab'' \<rparr>) ''key'' ''opr.flt.100.ab'' 160 86400 = Inr (''opr'', ''flt'')"
proof -
  have "js_integer ''100'' = Some 100" by code_simp
  then show ?thesis
    using operator_session_exact [of "sample_crypto\<lparr> hmac_hex := \<lambda>k m. ''ab'' \<rparr>" "''key''" "''opr.flt.100.ab''" 160 86400 "''opr''" "''flt''"]
    by (auto simp: sign_hmac_def session_core_def intro!: exI [of _ "''100''"] exI [of _ 100])
qed

text \<open>
  A key derivation and an encoding of the right shape: the password padded to the asked length, and a
  text code that spells the dollar sign out.
\<close>

fun quote :: "string \<Rightarrow> string" where
  "quote [] = []"
| "quote (c # v) = (if c = CHR ''$'' then ''%d'' else if c = CHR ''%'' then ''%p'' else [c]) @ quote v"

fun unquote :: "string \<Rightarrow> string" where
  "unquote [] = []"
| "unquote [c] = [c]"
| "unquote (c # x # v) =
     (if c = CHR ''%'' then (if x = CHR ''d'' then CHR ''$'' else CHR ''%'') # unquote v else c # unquote (x # v))"

definition sample_kdf :: kdf where
  "sample_kdf = \<lparr> scrypt = (\<lambda>pw salt n _ _ _. Some (take n (pw @ replicate n CHR ''0''))),
                  b64_encode = quote, b64_decode = unquote \<rparr>"

lemma unquote_plain: "c \<noteq> CHR ''%'' \<Longrightarrow> unquote (c # v) = c # unquote v"
  by (cases v) simp_all

lemma unquote_quote: "unquote (quote v) = v"
  by (induction v) (auto simp: unquote_plain)

lemma quote_no_dollar: "CHR ''$'' \<notin> set (quote v)"
  by (induction v) auto

definition sample_legacy :: store where
  "sample_legacy =
     empty_store\<lparr> fleets := [\<lparr> fl_id = ''flt'', fl_name = ''acme'', fl_created_at = 0 \<rparr>],
       operators := [\<lparr> op_id = ''opr'', op_fleet_id = ''flt'', op_email = ''a@b'', op_password_hash = ''pw'',
                       op_role = ''owner'', op_created_at = 0, op_display_name = None \<rparr>] \<rparr>"

lemma rehash_verifies_witness:
  "\<exists>row' s''. authenticateOperator (sample_env 1) sample_kdf ''s2'' ''acme'' ''a@b'' ''pw''
      (snd (authenticateOperator (sample_env 0) sample_kdf ''salt'' ''acme'' ''a@b'' ''pw'' sample_legacy)) = (Some row', s'')
      \<and> op_id row' = op_id (hd (operators sample_legacy))"
proof (rule rehash_verifies)
  show "authenticateOperator (sample_env 0) sample_kdf ''salt'' ''acme'' ''a@b'' ''pw'' sample_legacy =
      (Some (hd (operators sample_legacy)),
       snd (authenticateOperator (sample_env 0) sample_kdf ''salt'' ''acme'' ''a@b'' ''pw'' sample_legacy))"
    by code_simp
  show "scrypt sample_kdf ''pw'' ''salt'' 32 16384 8 1 = Some (take 32 (''pw'' @ replicate 32 CHR ''0''))"
    by (simp add: sample_kdf_def)
qed (simp_all add: sample_kdf_def unquote_quote quote_no_dollar)

end
