(* ===== verification/Login.thy ===== *)
theory Login
  imports Auth
begin

text \<open>
  Operator login: the tailnet gate (\<^verbatim>\<open>tailnet.ts\<close>), the brute-force throttle (\<^verbatim>\<open>login-throttle.ts\<close>), the
  login route of \<^verbatim>\<open>routes-operator.ts\<close> and \<^verbatim>\<open>requireOperatorAuth\<close> of \<^verbatim>\<open>auth.ts\<close>.
\<close>

section \<open>The tailnet gate\<close>

record gate_config =
  operatorRequireTailnet :: bool
  operatorTailnetUser :: string
  trustedProxyIps :: "string list"
  operatorSessionSecret :: string

text \<open>\<^verbatim>\<open>/^::ffff:(\d{1,3}(?:\.\d{1,3}){3})$/\<close>: the dotted address of an IPv4-mapped one.\<close>

definition ipv4_mapped :: "string \<Rightarrow> string option" where
  "ipv4_mapped v =
     (let r = drop 7 v; ps = js_split CHR ''.'' r in
      if starts_with ''::ffff:'' v \<and> length ps = 4
         \<and> list_all (\<lambda>p. 1 \<le> length p \<and> length p \<le> 3 \<and> list_all is_digit p) ps
      then Some r else None)"

definition normalizeIp :: "string \<Rightarrow> string" where
  "normalizeIp value =
     (let raw = js_lower (js_trim value) in
      if raw = [] then []
      else
        let withoutZone = hd (js_split CHR ''%'' raw);
            unbracketed = (if starts_with ''['' withoutZone \<and> last withoutZone = CHR '']''
                           then tl (butlast withoutZone) else withoutZone)
        in case ipv4_mapped unbracketed of Some ip \<Rightarrow> ip | None \<Rightarrow> unbracketed)"

definition isTrustedTailnetPeer :: "string \<Rightarrow> string list \<Rightarrow> bool" where
  "isTrustedTailnetPeer socketIp trustedProxies =
     (let peer = normalizeIp socketIp in
      if peer = [] then False else list_ex (\<lambda>entry. normalizeIp entry = peer) trustedProxies)"

text \<open>A header is absent, one text, or the list of the texts of a repeated header.\<close>

datatype header = No_header | One_header string | Many_headers "string list"

definition tailnetLoginFromHeaders :: "header \<Rightarrow> header \<Rightarrow> string" where
  "tailnetLoginFromHeaders userLogin userName =
     (let v = (if userLogin = No_header then userName else userLogin) in
      case v of One_header t \<Rightarrow> js_trim t
      | Many_headers ts \<Rightarrow> js_trim (case ts of [] \<Rightarrow> [] | t # _ \<Rightarrow> t)
      | No_header \<Rightarrow> [])"

definition evaluateTailnetGate :: "bool \<Rightarrow> string \<Rightarrow> string \<Rightarrow> bool \<Rightarrow> string option" where
  "evaluateTailnetGate require allowedUser login peerTrusted =
     (if \<not> require then None
      else if \<not> peerTrusted then Some ''tailnet identity required''
      else if login = [] then Some ''tailnet identity required''
      else if allowedUser \<noteq> [] \<and> login \<noteq> allowedUser then Some ''tailnet user not allowed''
      else None)"

record peer =
  pr_ip :: string
  pr_user_login :: header
  pr_user_name :: header
  pr_forwarded_for :: header

text \<open>\<^verbatim>\<open>evaluateRequestTailnetGate\<close>: None when the request may pass, otherwise the reason.\<close>

definition evaluateRequestTailnetGate :: "gate_config \<Rightarrow> peer \<Rightarrow> string option" where
  "evaluateRequestTailnetGate G p =
     evaluateTailnetGate (operatorRequireTailnet G) (operatorTailnetUser G)
       (tailnetLoginFromHeaders (pr_user_login p) (pr_user_name p))
       (isTrustedTailnetPeer (pr_ip p) (trustedProxyIps G))"

definition resolveClientIp :: "gate_config \<Rightarrow> peer \<Rightarrow> string" where
  "resolveClientIp G p =
     (let sock = js_trim (pr_ip p);
          rawHeader = (case pr_forwarded_for p of One_header t \<Rightarrow> Some t
                       | Many_headers ts \<Rightarrow> (if ts = [] then None else Some (last ts)) | No_header \<Rightarrow> None)
      in if sock \<notin> set (trustedProxyIps G) then sock
         else case rawHeader of None \<Rightarrow> sock
              | Some t \<Rightarrow> let client = js_trim (last (js_split CHR '','' t)) in
                         if client \<noteq> [] then client else sock)"

section \<open>The login throttle\<close>

record bucket =
  bk_failures :: int
  bk_resetAt :: int

text \<open>The \<^verbatim>\<open>Map\<close> of buckets in insertion order, and the overflow flag.\<close>

record throttle =
  buckets :: "(string \<times> bucket) list"
  overflowed :: bool

definition new_throttle :: throttle where
  "new_throttle = \<lparr> buckets = [], overflowed = False \<rparr>"

definition acct_key :: "string \<Rightarrow> string \<Rightarrow> string" where
  "acct_key fleetName email = ''acct:'' @ js_lower (js_trim fleetName) @ ''|'' @ js_lower (js_trim email)"

definition keysFor :: "string \<Rightarrow> string \<Rightarrow> string \<Rightarrow> string list" where
  "keysFor fleetName email ip = [acct_key fleetName email, ''ip:'' @ js_trim ip]"

definition map_delete :: "'k \<Rightarrow> ('k \<times> 'v) list \<Rightarrow> ('k \<times> 'v) list" where
  "map_delete k xs = filter (\<lambda>p. fst p \<noteq> k) xs"

fun map_set :: "'k \<Rightarrow> 'v \<Rightarrow> ('k \<times> 'v) list \<Rightarrow> ('k \<times> 'v) list" where
  "map_set k v [] = [(k, v)]"
| "map_set k v (p # xs) = (if fst p = k then (k, v) # xs else p # map_set k v xs)"

definition ceil_seconds :: "int \<Rightarrow> int" where
  "ceil_seconds ms = (ms + 999) div 1000"

definition throttle_check_key :: "config \<Rightarrow> int \<Rightarrow> string \<Rightarrow> int \<times> throttle \<Rightarrow> int \<times> throttle" where
  "throttle_check_key G t key = (\<lambda>(worst, th).
     case map_of (buckets th) key of
       None \<Rightarrow> (worst, th)
     | Some b \<Rightarrow>
         if bk_resetAt b \<le> t then (worst, th\<lparr> buckets := map_delete key (buckets th) \<rparr>)
         else if loginMaxFailures G \<le> bk_failures b then (max worst (ceil_seconds (bk_resetAt b - t)), th)
         else (worst, th))"

text \<open>\<^verbatim>\<open>check\<close>: None when the attempt may proceed, otherwise the seconds to wait; expired buckets go.\<close>

definition throttle_check :: "config \<Rightarrow> int \<Rightarrow> string \<Rightarrow> string \<Rightarrow> string \<Rightarrow> throttle \<Rightarrow> int option \<times> throttle" where
  "throttle_check G t fleetName email ip th =
     (let (worst, th') = fold (throttle_check_key G t) (keysFor fleetName email ip) (0, th)
      in (if worst > 0 then Some worst else None, th'))"

definition throttle_sweep :: "int \<Rightarrow> throttle \<Rightarrow> throttle" where
  "throttle_sweep t th = th\<lparr> buckets := filter (\<lambda>p. \<not> bk_resetAt (snd p) \<le> t) (buckets th) \<rparr>"

definition throttle_fail_key :: "config \<Rightarrow> int \<Rightarrow> string \<Rightarrow> throttle \<Rightarrow> throttle" where
  "throttle_fail_key G t key th =
     (let fresh = \<lparr> bk_failures = 1, bk_resetAt = t + loginWindowSeconds G * 1000 \<rparr> in
      case map_of (buckets th) key of
        Some b \<Rightarrow>
          if bk_resetAt b \<le> t then th\<lparr> buckets := map_set key fresh (buckets th) \<rparr>
          else th\<lparr> buckets := map_set key (b\<lparr> bk_failures := bk_failures b + 1 \<rparr>) (buckets th) \<rparr>
      | None \<Rightarrow>
          if int (length (buckets th)) \<ge> loginThrottleMaxBuckets G then
            (let th1 = throttle_sweep t th in
             if int (length (buckets th1)) \<ge> loginThrottleMaxBuckets G then th1\<lparr> overflowed := True \<rparr>
             else th1\<lparr> buckets := map_set key fresh (buckets th1) \<rparr>)
          else th\<lparr> buckets := map_set key fresh (buckets th) \<rparr>)"

definition throttle_recordFailure :: "config \<Rightarrow> int \<Rightarrow> string \<Rightarrow> string \<Rightarrow> string \<Rightarrow> throttle \<Rightarrow> throttle" where
  "throttle_recordFailure G t fleetName email ip th = fold (throttle_fail_key G t) (keysFor fleetName email ip) th"

definition throttle_recordSuccess :: "string \<Rightarrow> string \<Rightarrow> throttle \<Rightarrow> throttle" where
  "throttle_recordSuccess fleetName email th = th\<lparr> buckets := map_delete (acct_key fleetName email) (buckets th) \<rparr>"

definition takeOverflowed :: "throttle \<Rightarrow> bool \<times> throttle" where
  "takeOverflowed th = (overflowed th, th\<lparr> overflowed := False \<rparr>)"

section \<open>The login route and operator requests\<close>

datatype login_reply =
    Login_forbidden string
  | Login_bad_request
  | Login_throttled int
  | Login_invalid
  | Login_ok string string

text \<open>
  \<^verbatim>\<open>POST /v1/operator/login\<close>.  \<open>body\<close> is what the schema check made of the request body; \<open>salt\<close> is the
  salt a rehash would draw.
\<close>

definition operatorLogin ::
  "env \<Rightarrow> kdf \<Rightarrow> gate_config \<Rightarrow> string \<Rightarrow> peer \<Rightarrow> (string \<times> string \<times> string) option \<Rightarrow> throttle \<times> store
   \<Rightarrow> login_reply \<times> throttle \<times> store" where
  "operatorLogin E K G salt p body = (\<lambda>(th, s).
     case evaluateRequestTailnetGate G p of
       Some reason \<Rightarrow> (Login_forbidden reason, th, s)
     | None \<Rightarrow>
         (case body of
            None \<Rightarrow> (Login_bad_request, th, s)
          | Some (fleetName, email, password) \<Rightarrow>
              let clientIp = resolveClientIp G p;
                  (wait, th1) = throttle_check (cfg E) (now E) fleetName email clientIp th
              in case wait of
                   Some seconds \<Rightarrow> (Login_throttled seconds, th1, s)
                 | None \<Rightarrow>
                     (case authenticateOperator E K salt fleetName email password s of
                        (None, s1) \<Rightarrow>
                          (Login_invalid, throttle_recordFailure (cfg E) (now E) fleetName email clientIp th1, s1)
                      | (Some row, s1) \<Rightarrow>
                          (Login_ok (issueOperatorSession (cryp E) (operatorSessionSecret G) (op_id row)
                                       (op_fleet_id row) (now E div 1000)) (op_fleet_id row),
                           throttle_recordSuccess fleetName email th1, s1))))"

definition requireOperatorAuth :: "env \<Rightarrow> gate_config \<Rightarrow> peer \<Rightarrow> request \<Rightarrow> store \<Rightarrow> auth_error + string \<times> string" where
  "requireOperatorAuth E G p rq s =
     (case evaluateRequestTailnetGate G p of
        Some reason \<Rightarrow> Inl (Gate_refused reason)
      | None \<Rightarrow>
          (case h_authorization rq of
             None \<Rightarrow> Inl Missing_operator_session
           | Some session \<Rightarrow>
               if \<not> starts_with ''Bearer '' session then Inl Missing_operator_session
               else case verifyOperatorSession (cryp E) (operatorSessionSecret G) (drop 7 session)
                           (now E div 1000) (operatorSessionTtlSeconds (cfg E)) of
                 Inl reason \<Rightarrow> Inl (Session_refused reason)
               | Inr (operatorId, fleetId) \<Rightarrow>
                   if operatorBelongsToFleet s operatorId fleetId then Inr (operatorId, fleetId)
                   else Inl Operator_not_found))"

section \<open>Buckets\<close>

lemma fst_map_set: "fst ` set (map_set k v xs) = insert k (fst ` set xs)"
  by (induction xs) auto

lemma distinct_map_set: "distinct (map fst xs) \<Longrightarrow> distinct (map fst (map_set k v xs))"
  by (induction xs) (auto simp: fst_map_set image_iff)

lemma map_of_map_set: "map_of (map_set k v xs) = (map_of xs)(k \<mapsto> v)"
  by (induction xs) (auto simp: fun_eq_iff)

lemma length_map_set:
  "length (map_set k v xs) = (if k \<in> fst ` set xs then length xs else Suc (length xs))"
  by (induction xs) auto

lemma map_set_old: "map_of xs k = Some b \<Longrightarrow> length (map_set k v xs) = length xs"
  by (force simp: length_map_set dest: map_of_SomeD)

lemma in_map_set: "p \<in> set (map_set k v xs) \<Longrightarrow> p = (k, v) \<or> p \<in> set xs"
  by (induction xs) (auto split: if_splits)

text \<open>What the throttle promises: the cap on buckets and on the failures a live bucket can hold.\<close>

definition throttle_ok :: "config \<Rightarrow> throttle \<Rightarrow> bool" where
  "throttle_ok G th \<longleftrightarrow> distinct (map fst (buckets th)) \<and> int (length (buckets th)) \<le> max 0 (loginThrottleMaxBuckets G)
     \<and> (\<forall>(k, b)\<in>set (buckets th). bk_failures b \<le> max 1 (loginMaxFailures G))"

text \<open>A key an attempt is allowed on: no bucket, an expired one, or one below the limit.\<close>

definition key_open :: "config \<Rightarrow> int \<Rightarrow> throttle \<Rightarrow> string \<Rightarrow> bool" where
  "key_open G t th k \<longleftrightarrow> (\<forall>b. map_of (buckets th) k = Some b \<longrightarrow> t < bk_resetAt b \<longrightarrow> bk_failures b < loginMaxFailures G)"

lemma ceil_seconds_pos: "0 < ms \<Longrightarrow> 0 < ceil_seconds ms"
  by (simp add: ceil_seconds_def pos_imp_zdiv_pos_iff)

lemma map_of_delete: "map_of (map_delete k xs) j = (if j = k then None else map_of xs j)"
  by (induction xs) (auto simp: map_delete_def)

lemma check_key_open:
  assumes "throttle_check_key G t k (w, th) = (w', th')" "0 \<le> w"
  shows "w \<le> w'" "w' = 0 \<Longrightarrow> key_open G t th' k" "key_open G t th j \<Longrightarrow> key_open G t th' j"
    "set (buckets th') \<subseteq> set (buckets th)" "length (buckets th') \<le> length (buckets th)"
    "distinct (map fst (buckets th)) \<Longrightarrow> distinct (map fst (buckets th'))"
proof -
  show "w \<le> w'" "key_open G t th j \<Longrightarrow> key_open G t th' j"
    using assms by (auto simp: throttle_check_key_def key_open_def map_of_delete split: option.splits if_splits)
  show "set (buckets th') \<subseteq> set (buckets th)" "length (buckets th') \<le> length (buckets th)"
    "distinct (map fst (buckets th)) \<Longrightarrow> distinct (map fst (buckets th'))"
    using assms by (auto simp: throttle_check_key_def map_delete_def distinct_map_filter split: option.splits if_splits)
  show "key_open G t th' k" if "w' = 0"
  proof (cases "map_of (buckets th) k")
    case (Some b)
    with assms that ceil_seconds_pos [of "bk_resetAt b - t"] show ?thesis
      by (auto simp: throttle_check_key_def key_open_def map_of_delete split: if_splits)
  qed (use assms in \<open>auto simp: throttle_check_key_def key_open_def\<close>)
qed

lemma throttle_check_open:
  assumes "throttle_check G t f e ip th = (None, th')" "throttle_ok G th"
  shows "throttle_ok G th'" "k \<in> set (keysFor f e ip) \<Longrightarrow> key_open G t th' k"
proof -
  obtain w1 th1 w2 th2 where s: "throttle_check_key G t (acct_key f e) (0, th) = (w1, th1)"
    "throttle_check_key G t (''ip:'' @ js_trim ip) (w1, th1) = (w2, th2)" "th' = th2" "w2 \<le> 0"
    using assms(1)
    by (cases "throttle_check_key G t (acct_key f e) (0, th)")
      (auto simp: throttle_check_def keysFor_def split: prod.splits if_splits)
  have w: "0 \<le> w1" using check_key_open(1) [OF s(1)] by simp
  note a = check_key_open [OF s(1) order_refl] and b = check_key_open [OF s(2) w]
  have z: "w1 = 0" "w2 = 0" using a(1) b(1) s(4) w by auto
  show "throttle_ok G th'"
    using a(4-6) b(4-6) assms(2) s(3) by (auto simp: throttle_ok_def)
  show "key_open G t th' k" if "k \<in> set (keysFor f e ip)"
    using that a(2) [OF z(1)] b(2) [OF z(2)] b(3) s(3) by (auto simp: keysFor_def)
qed

lemma map_set_ok:
  assumes "throttle_ok G th" "bk_failures b \<le> max 1 (loginMaxFailures G)"
    and "map_of (buckets th) k \<noteq> None \<or> int (length (buckets th)) < loginThrottleMaxBuckets G"
  shows "throttle_ok G (th\<lparr> buckets := map_set k b (buckets th) \<rparr>)"
proof -
  have "int (length (map_set k b (buckets th))) \<le> max 0 (loginThrottleMaxBuckets G)"
  proof (cases "map_of (buckets th) k")
    case None
    with assms(1,3) show ?thesis by (auto simp: throttle_ok_def length_map_set)
  next
    case (Some b')
    with assms(1) show ?thesis by (simp add: throttle_ok_def map_set_old)
  qed
  then show ?thesis
    using assms(1,2) by (auto simp: throttle_ok_def distinct_map_set dest!: in_map_set)
qed

lemma fail_key_ok:
  assumes "throttle_ok G th" "key_open G t th k"
  shows "throttle_ok G (throttle_fail_key G t k th)"
    "j \<noteq> k \<Longrightarrow> key_open G t th j \<Longrightarrow> key_open G t (throttle_fail_key G t k th) j"
proof -
  let ?new = "\<lparr> bk_failures = 1, bk_resetAt = t + loginWindowSeconds G * 1000 \<rparr>"
  have sweep: "throttle_ok G (throttle_sweep t th)"
    using assms(1) order_trans [OF of_nat_mono [OF length_filter_le [of "\<lambda>p. \<not> bk_resetAt (snd p) \<le> t" "buckets th"]]]
    by (auto simp: throttle_ok_def throttle_sweep_def distinct_map_filter)
  have sweep_open: "key_open G t (throttle_sweep t th) j" if "key_open G t th j" for j
  proof -
    have "map_of (buckets th) j = Some b" if "map_of (filter (\<lambda>p. \<not> bk_resetAt (snd p) \<le> t) (buckets th)) j = Some b"
      "t < bk_resetAt b" for b
      using map_of_SomeD [OF that(1)] assms(1) by (simp add: throttle_ok_def)
    with that show ?thesis by (auto simp: key_open_def throttle_sweep_def)
  qed
  show "throttle_ok G (throttle_fail_key G t k th)"
  proof (cases "map_of (buckets th) k")
    case None
    have "throttle_ok G (th'\<lparr> overflowed := v \<rparr>)" if "throttle_ok G th'" for th' v
      using that by (simp add: throttle_ok_def)
    with None assms(1) sweep show ?thesis
      by (auto simp: throttle_fail_key_def Let_def intro!: map_set_ok)
  next
    case (Some b)
    with assms show ?thesis
      by (auto simp: throttle_fail_key_def Let_def key_open_def intro!: map_set_ok)
  qed
  show "j \<noteq> k \<Longrightarrow> key_open G t th j \<Longrightarrow> key_open G t (throttle_fail_key G t k th) j"
    using sweep_open [of j]
    by (auto simp: throttle_fail_key_def key_open_def map_of_map_set Let_def split: option.splits)
qed

lemma recordFailure_ok:
  assumes "throttle_ok G th" "\<And>k. k \<in> set (keysFor f e ip) \<Longrightarrow> key_open G t th k"
  shows "throttle_ok G (throttle_recordFailure G t f e ip th)"
proof -
  have o: "key_open G t th (acct_key f e)" "key_open G t th (''ip:'' @ js_trim ip)"
    using assms(2) by (simp_all add: keysFor_def)
  have "''ip:'' @ js_trim ip \<noteq> acct_key f e" by (simp add: acct_key_def)
  with fail_key_ok [OF assms(1) o(1)] o(2) show ?thesis
    by (auto simp: throttle_recordFailure_def keysFor_def intro: fail_key_ok(1))
qed

section \<open>Properties\<close>

inductive login_step :: "config \<Rightarrow> throttle \<times> store \<Rightarrow> throttle \<times> store \<Rightarrow> bool" for G where
  Login: "cfg E = G \<Longrightarrow> operatorLogin E K gate salt p body st = (reply, st') \<Longrightarrow> login_step G st st'"
| Throttle_sweep: "login_step G (th, s) (throttle_sweep t th, s)"
| Take_overflowed: "takeOverflowed th = (b, th') \<Longrightarrow> login_step G (th, s) (th', s)"

lemma check_ok:
  assumes "throttle_check G t f e ip th = (r, th')" "throttle_ok G th"
  shows "throttle_ok G th'"
proof -
  obtain w1 th1 w2 where s: "throttle_check_key G t (acct_key f e) (0, th) = (w1, th1)"
    "throttle_check_key G t (''ip:'' @ js_trim ip) (w1, th1) = (w2, th')"
    using assms(1)
    by (cases "throttle_check_key G t (acct_key f e) (0, th)")
      (auto simp: throttle_check_def keysFor_def split: prod.splits)
  have w: "0 \<le> w1" using check_key_open(1) [OF s(1)] by simp
  show ?thesis
    using check_key_open(4-6) [OF s(1) order_refl] check_key_open(4-6) [OF s(2) w] assms(2)
    by (auto simp: throttle_ok_def)
qed

lemma login_keeps_throttle:
  assumes "operatorLogin E K gate salt p body (th, s) = (reply, th', s')" "throttle_ok (cfg E) th"
  shows "throttle_ok (cfg E) th'"
proof (cases "evaluateRequestTailnetGate gate p = None \<and> body \<noteq> None")
  case False
  with assms show ?thesis by (auto simp: operatorLogin_def split: option.splits)
next
  case True
  then obtain f e pw where b: "body = Some (f, e, pw)" by (cases body) auto
  obtain w th1 where c: "throttle_check (cfg E) (now E) f e (resolveClientIp gate p) th = (w, th1)"
    by (cases "throttle_check (cfg E) (now E) f e (resolveClientIp gate p) th")
  note ok = check_ok [OF c assms(2)]
  show ?thesis
  proof (cases w)
    case (Some n)
    with assms(1) True b c ok show ?thesis by (simp add: operatorLogin_def)
  next
    case None
    note o = throttle_check_open(2) [OF c [unfolded None] assms(2)]
    have fail: "throttle_ok (cfg E) (throttle_recordFailure (cfg E) (now E) f e (resolveClientIp gate p) th1)"
      using ok o by (rule recordFailure_ok)
    have "throttle_ok (cfg E) (throttle_recordSuccess f e th1)"
      using ok order_trans [OF of_nat_mono [OF length_filter_le]]
      by (auto simp: throttle_ok_def throttle_recordSuccess_def map_delete_def distinct_map_filter)
    with fail assms(1) True b c None show ?thesis
      by (auto simp: operatorLogin_def split: prod.splits option.splits)
  qed
qed

lemma sweep_ok: "throttle_ok G th \<Longrightarrow> throttle_ok G (throttle_sweep t th)"
  using order_trans [OF of_nat_mono [OF length_filter_le]]
  by (auto simp: throttle_ok_def throttle_sweep_def distinct_map_filter)

interpretation login: stepping "(new_throttle, s0)" "login_step G" "\<lambda>st. throttle_ok G (fst st)" for s0 G
proof
  show "throttle_ok G (fst (new_throttle, s0))" by (simp add: throttle_ok_def new_throttle_def)
  show "throttle_ok G (fst st')" if "throttle_ok G (fst st)" "login_step G st st'" for st st'
    using that(2,1)
  proof (induction rule: login_step.induct)
    case (Login E K gate salt p body st reply st')
    obtain th s th' s' where "st = (th, s)" "st' = (th', s')" by (cases st; cases st')
    with Login login_keeps_throttle [of E K gate salt p body th s reply th' s'] show ?case by auto
  next
    case (Throttle_sweep th s t)
    then show ?case by (simp add: sweep_ok)
  next
    case (Take_overflowed th b th' s)
    then show ?case by (auto simp: takeOverflowed_def throttle_ok_def)
  qed
qed

text \<open>
  The login throttle holds: in every state the login route can reach, at most the configured number
  of buckets is live and no bucket counts more failures than the limit, so within one window an
  account or an address with a bucket gets at most that many password checks.
\<close>

theorem login_throttle_bounds:
  assumes "reach (new_throttle, s0) (login_step G) (th, s)"
  shows "int (length (buckets th)) \<le> max 0 (loginThrottleMaxBuckets G)
    \<and> (\<forall>(k, b)\<in>set (buckets th). bk_failures b \<le> max 1 (loginMaxFailures G))"
  using login.inv_reach [OF assms] by (simp add: throttle_ok_def)

text \<open>
  A locked account stays locked whatever password is presented: while a live bucket of the account
  or of the client address has reached the limit, the login route answers with the seconds to wait, no
  password is checked and the store is unchanged.
\<close>

theorem locked_login_refused:
  assumes "evaluateRequestTailnetGate gate p = None"
    and "distinct (map fst (buckets th))" "map_of (buckets th) k = Some b"
    and "k \<in> set (keysFor f e (resolveClientIp gate p))" "now E < bk_resetAt b" "loginMaxFailures (cfg E) \<le> bk_failures b"
  shows "\<exists>n th'. operatorLogin E K gate salt p (Some (f, e, pw)) (th, s) = (Login_throttled n, th', s) \<and> 0 < n"
proof -
  let ?ip = "''ip:'' @ js_trim (resolveClientIp gate p)"
  obtain w1 th1 where c1: "throttle_check_key (cfg E) (now E) (acct_key f e) (0, th) = (w1, th1)"
    by (cases "throttle_check_key (cfg E) (now E) (acct_key f e) (0, th)")
  obtain w2 th2 where c2: "throttle_check_key (cfg E) (now E) ?ip (w1, th1) = (w2, th2)"
    by (cases "throttle_check_key (cfg E) (now E) ?ip (w1, th1)")
  have pos: "0 < ceil_seconds (bk_resetAt b - now E)" using assms(5) by (simp add: ceil_seconds_pos)
  have w1: "0 \<le> w1" using check_key_open(1) [OF c1] by simp
  have "0 < w2"
  proof (cases "k = acct_key f e")
    case True
    then have "0 < w1" using c1 assms(3,5,6) pos by (auto simp: throttle_check_key_def)
    with check_key_open(1) [OF c2 w1] show ?thesis by linarith
  next
    case False
    then have k: "k = ?ip" using assms(4) by (simp add: keysFor_def)
    have "map_of (buckets th1) k = Some b"
      using c1 assms(3) False by (auto simp: throttle_check_key_def map_of_delete split: option.splits if_splits)
    with k c2 assms(5,6) pos show ?thesis by (auto simp: throttle_check_key_def)
  qed
  then have "throttle_check (cfg E) (now E) f e (resolveClientIp gate p) th = (Some w2, th2)"
    using c1 c2 by (simp add: throttle_check_def keysFor_def)
  with assms(1) \<open>0 < w2\<close> show ?thesis by (simp add: operatorLogin_def)
qed

text \<open>
  An operator request is served only off a request that passes the tailnet gate, with a bearer token
  that verifies and is in age, and only if the operator is a member of that fleet in the database now.
\<close>

theorem operator_auth_sound:
  assumes "requireOperatorAuth E G p rq s = Inr (oper, f)"
  shows "evaluateRequestTailnetGate G p = None
    \<and> (operatorRequireTailnet G \<longrightarrow> isTrustedTailnetPeer (pr_ip p) (trustedProxyIps G))
    \<and> (\<exists>token. h_authorization rq = Some (''Bearer '' @ token)
         \<and> verifyOperatorSession (cryp E) (operatorSessionSecret G) token (now E div 1000)
             (operatorSessionTtlSeconds (cfg E)) = Inr (oper, f))
    \<and> (\<exists>r\<in>set (operators s). op_id r = oper \<and> op_fleet_id r = f)"
proof -
  have st: "v = ''Bearer '' @ drop 7 v" if "starts_with ''Bearer '' v" for v
  proof -
    have "length ''Bearer '' = 7" by simp
    with starts_with_append [OF that] show ?thesis by metis
  qed
  from assms obtain v where v: "evaluateRequestTailnetGate G p = None" "h_authorization rq = Some v"
    "starts_with ''Bearer '' v"
    "verifyOperatorSession (cryp E) (operatorSessionSecret G) (drop 7 v) (now E div 1000)
       (operatorSessionTtlSeconds (cfg E)) = Inr (oper, f)" "operatorBelongsToFleet s oper f"
    by (auto simp: requireOperatorAuth_def split: option.splits if_splits sum.splits)
  have "isTrustedTailnetPeer (pr_ip p) (trustedProxyIps G)" if "operatorRequireTailnet G"
    using that v(1) by (auto simp: evaluateRequestTailnetGate_def evaluateTailnetGate_def split: if_splits)
  with v st [OF v(3)] show ?thesis
    by (auto simp: operatorBelongsToFleet_def select_exists_iff)
qed

section \<open>Sample data\<close>

definition sample_gate :: gate_config where
  "sample_gate = \<lparr> operatorRequireTailnet = True, operatorTailnetUser = [], trustedProxyIps = [''127.0.0.1''],
                   operatorSessionSecret = ''key'' \<rparr>"

definition sample_peer :: peer where
  "sample_peer = \<lparr> pr_ip = ''::ffff:127.0.0.1'', pr_user_login = One_header ''ann'', pr_user_name = No_header,
                   pr_forwarded_for = One_header ''10.0.0.7'' \<rparr>"

definition sample_failed :: "throttle \<times> store" where
  "sample_failed = snd (operatorLogin (sample_env 0) sample_kdf sample_gate ''salt'' sample_peer
     (Some (''acme'', ''a@b'', ''wrong'')) (new_throttle, empty_store))"

lemma login_throttle_bounds_witness:
  "int (length (buckets (fst sample_failed))) \<le> max 0 (loginThrottleMaxBuckets default_config)
    \<and> bk_failures (snd (hd (buckets (fst sample_failed)))) \<le> max 1 (loginMaxFailures default_config)"
proof -
  have "login_step default_config (new_throttle, empty_store) sample_failed"
    unfolding sample_failed_def
    by (rule Login [of "sample_env 0"]) (simp, rule prod.collapse [symmetric])
  then have "reach (new_throttle, empty_store) (login_step default_config) (fst sample_failed, snd sample_failed)"
    by (simp add: reach_step [OF reach_start])
  note b = login_throttle_bounds [OF this]
  have "hd (buckets (fst sample_failed)) \<in> set (buckets (fst sample_failed))" by code_simp
  with b show ?thesis by (auto simp: case_prod_beta)
qed

definition sample_locked :: throttle where
  "sample_locked = \<lparr> buckets = [(''acct:acme|a@b'', \<lparr> bk_failures = 10, bk_resetAt = 900000 \<rparr>)], overflowed = False \<rparr>"

lemma locked_login_refused_witness:
  "\<exists>n th'. operatorLogin (sample_env 5) sample_kdf sample_gate ''salt'' sample_peer (Some (''acme'', ''a@b'', ''pw''))
     (sample_locked, sample_legacy) = (Login_throttled n, th', sample_legacy) \<and> 0 < n"
proof (rule locked_login_refused [of _ _ _ "''acct:acme|a@b''" "\<lparr> bk_failures = 10, bk_resetAt = 900000 \<rparr>"])
  show "evaluateRequestTailnetGate sample_gate sample_peer = None" by code_simp
  show "distinct (map fst (buckets sample_locked))"
    "map_of (buckets sample_locked) ''acct:acme|a@b'' = Some \<lparr> bk_failures = 10, bk_resetAt = 900000 \<rparr>"
    by (simp_all add: sample_locked_def)
  show "''acct:acme|a@b'' \<in> set (keysFor ''acme'' ''a@b'' (resolveClientIp sample_gate sample_peer))" by code_simp
qed (simp_all add: default_config_def)

definition hex_env :: env where
  "hex_env = (sample_env 5000)\<lparr> cryp := sample_crypto\<lparr> hmac_hex := (\<lambda>k m. ''ab'') \<rparr> \<rparr>"

lemma operator_auth_sound_witness:
  "evaluateRequestTailnetGate sample_gate sample_peer = None \<and> (\<exists>r\<in>set (operators sample_legacy). op_id r = ''opr'' \<and> op_fleet_id r = ''flt'')"
proof -
  have "requireOperatorAuth hex_env sample_gate sample_peer (sample_request\<lparr> h_authorization := Some ''Bearer opr.flt.3.ab'' \<rparr>)
      sample_legacy = Inr (''opr'', ''flt'')"
    by code_simp
  from operator_auth_sound [OF this] show ?thesis by blast
qed

end
