(* ===== verification/Messaging.thy ===== *)
theory Messaging
  imports Auth
begin

text \<open>
  Sending: recipients, rooms, agent messages and operator messages (\<^verbatim>\<open>db.ts\<close> from
  \<^verbatim>\<open>broadcastRecipientIds\<close> to \<^verbatim>\<open>deleteRoom\<close>).  A throw inside a transaction rolls the transaction back;
  what an operation wrote before its transaction stays, so operator sends return the store with the error.
\<close>

section \<open>Values\<close>

datatype msg_error =
    Too_many_attachments
  | Attachment_not_owned
  | Room_not_found
  | Recipient_conversation_mismatch string
  | Recipient_not_found
  | Unsupported_recipient string
  | Foreign_key
  | Signing_key_unknown string
  | Signing_key_revoked string

text \<open>\<^verbatim>\<open>String(v)\<close> for a JSON value; inside an array null prints as the empty text.\<close>

fun js_string :: "json \<Rightarrow> string" where
  "js_string JNull = ''null''"
| "js_string (JBool b) = (if b then ''true'' else ''false'')"
| "js_string (JNum n) = int_str n"
| "js_string (JStr v) = v"
| "js_string (JArr vs) = join_with CHR '','' (map (\<lambda>v. if v = JNull then [] else js_string v) vs)"
| "js_string (JObj _) = ''[object Object]''"

text \<open>\<^verbatim>\<open>Array.isArray(body.attachments) ? body.attachments.map(String) : []\<close>.\<close>

definition body_attachments :: "json \<Rightarrow> string list" where
  "body_attachments body = (case json_get body ''attachments'' of Some (JArr vs) \<Rightarrow> map js_string vs | _ \<Rightarrow> [])"

definition body_text :: "json \<Rightarrow> string option" where
  "body_text body = (case json_get body ''text'' of Some (JStr v) \<Rightarrow> Some v | _ \<Rightarrow> None)"

text \<open>\<^verbatim>\<open>[...new Set(xs)]\<close>: the first occurrences, in order.\<close>

definition js_unique :: "'a list \<Rightarrow> 'a list" where
  "js_unique xs = rev (remdups (rev xs))"

definition NO_TURN_LIMIT :: int where
  "NO_TURN_LIMIT = 0"

definition turnBudgetOut :: "int \<Rightarrow> int option" where
  "turnBudgetOut stored = (if 0 < stored then Some stored else None)"

definition turnBudgetIn :: "int option \<Rightarrow> int" where
  "turnBudgetIn inp = (case inp of Some n \<Rightarrow> if 0 < n then n else NO_TURN_LIMIT | None \<Rightarrow> NO_TURN_LIMIT)"

definition op_agent_id :: "string \<Rightarrow> string" where
  "op_agent_id fleetId = ''op_'' @ fleetId"

definition canonicalDmId :: "string \<Rightarrow> string \<Rightarrow> string" where
  "canonicalDmId fleetId agentId = ''dm-'' @ fleetId @ ''-'' @ agentId"

section \<open>Recipients\<close>

definition live_agent_of :: "string \<Rightarrow> agent_row \<Rightarrow> bool" where
  "live_agent_of fleetId a \<longleftrightarrow>
     ag_fleet_id a = fleetId \<and> ag_runtime a \<noteq> ''operator'' \<and> is_null (ag_revoked_at a)"

definition broadcastRecipientIds :: "store \<Rightarrow> string \<Rightarrow> string \<Rightarrow> string list" where
  "broadcastRecipientIds s fleetId senderAgentId =
     map ag_id (select_all (\<lambda>a. live_agent_of fleetId a \<and> ag_id a \<noteq> senderAgentId) (agents s))"

definition isDeliverableAgent :: "store \<Rightarrow> string \<Rightarrow> string \<Rightarrow> bool" where
  "isDeliverableAgent s fleetId agentId =
     (if agentId = op_agent_id fleetId then True
      else select_exists (\<lambda>a. ag_id a = agentId \<and> live_agent_of fleetId a) (agents s))"

definition findFleetAgent :: "store \<Rightarrow> string \<Rightarrow> string \<Rightarrow> agent_row option" where
  "findFleetAgent s fleetId agentId =
     select_one (\<lambda>a. ag_id a = agentId \<and> ag_fleet_id a = fleetId
        \<and> (ag_id a = op_agent_id fleetId \<or> ag_runtime a \<noteq> ''operator'' \<and> is_null (ag_revoked_at a))) (agents s)"

definition isRoomConversation :: "store \<Rightarrow> string \<Rightarrow> string \<Rightarrow> bool" where
  "isRoomConversation s fleetId conversationId =
     select_exists (\<lambda>r. rm_id r = conversationId \<and> rm_fleet_id r = fleetId) (rooms s)"

definition isRoomMember :: "store \<Rightarrow> string \<Rightarrow> string \<Rightarrow> bool" where
  "isRoomMember s roomId agentId = select_exists (\<lambda>m. m = (roomId, agentId)) (room_members s)"

definition roomMemberIds :: "store \<Rightarrow> string \<Rightarrow> string \<Rightarrow> string \<Rightarrow> bool \<Rightarrow> string list option" where
  "roomMemberIds s fleetId conversationId senderAgentId requireSenderMembership =
     (if \<not> isRoomConversation s fleetId conversationId then None
      else if requireSenderMembership \<and> \<not> isRoomMember s conversationId senderAgentId then None
      else Some (map snd (select_all
             (\<lambda>(r, a). r = conversationId \<and> a \<noteq> senderAgentId \<and>
                select_exists (\<lambda>ag. ag_id ag = a \<and> ag_runtime ag \<noteq> ''operator'' \<and> is_null (ag_revoked_at ag)) (agents s))
             (room_members s))))"

section \<open>Inserting a message\<close>

definition validateAttachmentOwnership :: "store \<Rightarrow> string \<Rightarrow> string \<Rightarrow> string list \<Rightarrow> bool" where
  "validateAttachmentOwnership s fleetId uploaderId ids =
     (if ids = [] then True
      else length (remdups (map at_id (select_all
             (\<lambda>r. at_fleet_id r = fleetId \<and> at_uploader_id r = uploaderId \<and> at_id r \<in> set ids) (attachments s))))
           = length (remdups ids))"

definition delivery_rows :: "env \<Rightarrow> string \<Rightarrow> nat \<Rightarrow> string list \<Rightarrow> delivery_row list" where
  "delivery_rows E messageId n recipients =
     map (\<lambda>(i, rid). \<lparr> dl_id = mk_id E ''dly'' i, dl_message_id = messageId, dl_recipient_agent_id = rid,
                      dl_delivery_attempts = 0, dl_queued_at = now E, dl_delivered_at = None, dl_acked_at = None,
                      dl_status = ''queued'', dl_retry_count = 0, dl_next_retry_at = None,
                      dl_last_failure_reason = None \<rparr>) (enumerate n recipients)"

text \<open>The message row and one queued delivery per recipient.\<close>

definition insert_message :: "env \<Rightarrow> message_row \<Rightarrow> string list \<Rightarrow> store \<Rightarrow> store" where
  "insert_message E m recipients s =
     s\<lparr> messages := messages s @ [m],
        message_deliveries := message_deliveries s @ delivery_rows E (ms_id m) (draws s) recipients,
        draws := draws s + length recipients \<rparr>"

definition bind_attachments :: "env \<Rightarrow> string \<Rightarrow> string list \<Rightarrow> store \<Rightarrow> store" where
  "bind_attachments E messageId ids s =
     (if ids = [] then s
      else s\<lparr> attachments := update_where (\<lambda>r. at_id r \<in> set ids)
               (\<lambda>r. r\<lparr> at_bound_message_id := Some messageId, at_bound_at := Some (now E) \<rparr>) (attachments s) \<rparr>)"

record message_input =
  mi_fleetId :: string
  mi_senderAgentId :: string
  mi_recipientKind :: string
  mi_recipientId :: "string option"
  mi_messageType :: string
  mi_priority :: string
  mi_ttlSeconds :: int
  mi_requiresApproval :: bool
  mi_body :: json
  mi_metadata :: "json option"
  mi_conversationId :: string
  mi_correlationId :: string

text \<open>The conversation a message is filed under.\<close>

definition message_conversation :: "message_input \<Rightarrow> string" where
  "message_conversation i =
     (if mi_recipientKind i = ''group'' \<and> truthy (mi_recipientId i) then the (mi_recipientId i)
      else if mi_recipientKind i = ''agent'' \<and> mi_recipientId i = Some (op_agent_id (mi_fleetId i))
      then canonicalDmId (mi_fleetId i) (mi_senderAgentId i)
      else mi_conversationId i)"

text \<open>
  The delivery branches of \<^verbatim>\<open>createMessage\<close>.  A delivery references its recipient's row, so addressing the
  fleet's operator before that row exists violates the foreign key.
\<close>

definition message_recipients :: "store \<Rightarrow> message_input \<Rightarrow> string \<Rightarrow> msg_error + string list" where
  "message_recipients s i conversationId =
     (case (if mi_recipientKind i = ''group''
            then roomMemberIds s (mi_fleetId i) conversationId (mi_senderAgentId i) True else None) of
        Some rids \<Rightarrow> Inr rids
      | None \<Rightarrow>
          if mi_recipientKind i = ''group'' then Inl Room_not_found
          else if isRoomConversation s (mi_fleetId i) conversationId
          then Inl (Recipient_conversation_mismatch conversationId)
          else if mi_recipientKind i = ''agent'' \<and> truthy (mi_recipientId i) then
            (if \<not> isDeliverableAgent s (mi_fleetId i) (the (mi_recipientId i)) then Inl Recipient_not_found
             else if \<not> select_exists (\<lambda>a. ag_id a = the (mi_recipientId i)) (agents s) then Inl Foreign_key
             else Inr [the (mi_recipientId i)])
          else if mi_recipientKind i = ''broadcast''
          then Inr (broadcastRecipientIds s (mi_fleetId i) (mi_senderAgentId i))
          else Inl (Unsupported_recipient (mi_recipientKind i)))"

definition queued_message :: "env \<Rightarrow> message_input \<Rightarrow> string \<Rightarrow> string \<Rightarrow> message_row" where
  "queued_message E i messageId conversationId =
     \<lparr> ms_id = messageId, ms_fleet_id = mi_fleetId i, ms_conversation_id = conversationId,
       ms_correlation_id = mi_correlationId i, ms_sender_agent_id = mi_senderAgentId i,
       ms_recipient_kind = mi_recipientKind i, ms_recipient_id = mi_recipientId i,
       ms_message_type = mi_messageType i, ms_priority = mi_priority i,
       ms_requires_approval = mi_requiresApproval i, ms_body = mi_body i,
       ms_metadata = (case mi_metadata i of None \<Rightarrow> None | Some v \<Rightarrow> if json_truthy v then Some v else None),
       ms_ttl_seconds = mi_ttlSeconds i, ms_created_at = now E,
       ms_expires_at = addSeconds (now E) (mi_ttlSeconds i), ms_status = ''queued'' \<rparr>"

definition createMessage :: "env \<Rightarrow> message_input \<Rightarrow> store \<Rightarrow> msg_error + (string \<times> int) \<times> store" where
  "createMessage E i s =
     (let messageId = mk_id E ''msg'' (draws s);
          createdAt = now E;
          attachmentIds = body_attachments (mi_body i);
          conversationId = message_conversation i
      in if int (length attachmentIds) > attachmentMaxPerMessage (cfg E) then Inl Too_many_attachments
      else if \<not> validateAttachmentOwnership s (mi_fleetId i) (mi_senderAgentId i) attachmentIds
      then Inl Attachment_not_owned
      else case message_recipients s i conversationId of
        Inl e \<Rightarrow> Inl e
      | Inr recipients \<Rightarrow>
          let m = queued_message E i messageId conversationId;
              s1 = insert_message E m recipients (s\<lparr> draws := Suc (draws s) \<rparr>);
              s2 = recordEvent E (mi_fleetId i) ''message.queued'' ''agent'' (Some (mi_senderAgentId i)) ''message''
                     (Some messageId) (Some conversationId)
                     (JObj ([(''recipient_kind'', JStr (mi_recipientKind i)), (''recipient_id'', str_opt (mi_recipientId i)),
                             (''message_type'', JStr (mi_messageType i))]
                            @ (case body_text (mi_body i) of None \<Rightarrow> [] | Some t \<Rightarrow> [(''text'', JStr t)])
                            @ [(''attachments'', JArr (map JStr attachmentIds))])) s1
          in Inr ((messageId, createdAt), bind_attachments E messageId attachmentIds s2))"

section \<open>Operator identity and messages\<close>

definition ensureOperatorAgent :: "env \<Rightarrow> string \<Rightarrow> store \<Rightarrow> string \<times> store" where
  "ensureOperatorAgent E fleetId s =
     (let oid = op_agent_id fleetId in
      (oid,
       if select_exists (\<lambda>a. ag_id a = oid) (agents s) then s
       else s\<lparr> agents := agents s @
              [\<lparr> ag_id = oid, ag_fleet_id = fleetId, ag_display_name = ''Operator'', ag_runtime = ''operator'',
                 ag_status = ''healthy'', ag_hostname = None, ag_policy_profile = ''default'', ag_created_at = now E,
                 ag_last_seen_at = None, ag_revoked_at = Some (now E), ag_missed_heartbeats = 0,
                 ag_auto_quarantined_at = None, ag_quarantine_reason = None, ag_operator_trusted = False,
                 ag_peer_autoreply = True, ag_peer_turn_budget = 0 \<rparr>] \<rparr>))"

definition operatorLabel :: "store \<Rightarrow> string \<Rightarrow> string" where
  "operatorLabel s operatorId =
     (case Option.bind (select_one (\<lambda>r. op_id r = operatorId) (operators s)) op_display_name of
        None \<Rightarrow> ''Operator''
      | Some n \<Rightarrow> if js_trim n \<noteq> [] then js_trim n else ''Operator'')"

definition getOperatorProfile :: "store \<Rightarrow> string \<Rightarrow> (string \<times> string \<times> string option) option" where
  "getOperatorProfile s operatorId =
     map_option (\<lambda>r. (op_id r, op_email r, op_display_name r)) (select_one (\<lambda>r. op_id r = operatorId) (operators s))"

definition setOperatorDisplayName ::
  "env \<Rightarrow> string \<Rightarrow> string \<Rightarrow> store \<Rightarrow> (string \<times> string \<times> string option) option \<times> store" where
  "setOperatorDisplayName E operatorId displayName s =
     (case select_one (\<lambda>r. op_id r = operatorId) (operators s) of
        None \<Rightarrow> (None, s)
      | Some oper \<Rightarrow>
          let name = js_trim displayName;
              s1 = s\<lparr> operators := update_where (\<lambda>r. op_id r = operatorId)
                     (\<lambda>r. r\<lparr> op_display_name := Some name \<rparr>) (operators s) \<rparr>;
              (oid, s2) = ensureOperatorAgent E (op_fleet_id oper) s1;
              s3 = s2\<lparr> agents := update_where (\<lambda>a. ag_id a = oid) (\<lambda>a. a\<lparr> ag_display_name := name \<rparr>) (agents s2) \<rparr>
          in (getOperatorProfile s3 operatorId, s3))"

record signature_block =
  sg_sig :: string
  sg_key_id :: string
  sg_canonical :: json

record operator_input =
  oi_fleetId :: string
  oi_operatorId :: string
  oi_recipientId :: "string option"
  oi_roomId :: "string option"
  oi_text :: string
  oi_conversationId :: "string option"
  oi_attachmentIds :: "string list"
  oi_mentions :: "string list"
  oi_replyTo :: "string option"
  oi_signature :: "signature_block option"

text \<open>The check of the signing key that precedes everything else.\<close>

definition signing_key_error :: "store \<Rightarrow> operator_input \<Rightarrow> msg_error option" where
  "signing_key_error s i =
     (case oi_signature i of
        None \<Rightarrow> None
      | Some sg \<Rightarrow>
          (case select_one (\<lambda>k. ok_fleet_id k = oi_fleetId i \<and> ok_key_id k = sg_key_id sg) (fleet_operator_keys s) of
             None \<Rightarrow> Some (Signing_key_unknown (sg_key_id sg))
           | Some k \<Rightarrow> if truthy (ok_revoked_at k) then Some (Signing_key_revoked (sg_key_id sg)) else None))"

text \<open>
  Conversation, recipient kind, recipient and type of an operator message, with the number of identifiers
  drawn; \<open>n\<close> is the next one.
\<close>

definition operator_target ::
  "env \<Rightarrow> nat \<Rightarrow> store \<Rightarrow> operator_input \<Rightarrow> msg_error + (string \<times> string \<times> string option \<times> string) \<times> nat" where
  "operator_target E n s i =
     (let roomId = map_option js_trim (oi_roomId i) in
      if truthy roomId then
        (if \<not> select_exists (\<lambda>r. rm_id r = the roomId \<and> rm_fleet_id r = oi_fleetId i) (rooms s) then Inl Room_not_found
         else Inr ((the roomId, ''room'', roomId, ''direct''), n))
      else
        let isBroadcast = (oi_recipientId i = Some ''broadcast'');
            kind = (if isBroadcast then ''broadcast'' else ''agent'');
            recipientId = (if isBroadcast then None else oi_recipientId i);
            mtype = (if isBroadcast then ''broadcast'' else ''direct'');
            passed = map_option js_trim (oi_conversationId i)
        in if truthy passed then Inr ((the passed, kind, recipientId, mtype), n)
           else if \<not> isBroadcast \<and> truthy recipientId
           then Inr ((canonicalDmId (oi_fleetId i) (the recipientId), kind, recipientId, mtype), n)
           else Inr ((''op-'' @ int_str (now E) @ ''-'' @ slice_last 8 (mk_id E ''conv'' n), kind, recipientId, mtype), Suc n))"

definition operator_recipients ::
  "store \<Rightarrow> operator_input \<Rightarrow> string \<Rightarrow> string \<Rightarrow> string \<Rightarrow> string option \<Rightarrow> msg_error + string list" where
  "operator_recipients s i senderId conversationId kind recipientId =
     (case roomMemberIds s (oi_fleetId i) conversationId senderId False of
        Some rids \<Rightarrow> Inr rids
      | None \<Rightarrow>
          if kind = ''agent'' \<and> truthy recipientId then
            (if isDeliverableAgent s (oi_fleetId i) (the recipientId) then Inr [the recipientId]
             else Inl Recipient_not_found)
          else if kind = ''broadcast'' then Inr (broadcastRecipientIds s (oi_fleetId i) senderId)
          else Inr [])"

definition operator_metadata :: "operator_input \<Rightarrow> string \<Rightarrow> json" where
  "operator_metadata i senderLabel =
     JObj ([(''sender_label'', JStr senderLabel), (''operator_id'', JStr (oi_operatorId i))]
           @ (if oi_mentions i \<noteq> [] then [(''mentions'', JArr (map JStr (oi_mentions i)))] else [])
           @ (if truthy (oi_replyTo i) then [(''reply_to_message_id'', JStr (the (oi_replyTo i)))] else [])
           @ (case oi_signature i of None \<Rightarrow> []
              | Some sg \<Rightarrow> [(''operator_sig'', JStr (sg_sig sg)), (''key_id'', JStr (sg_key_id sg)),
                            (''sig_canonical'', sg_canonical sg)]))"

text \<open>The row of an operator message: normal priority, a day to live, no approval.\<close>

definition operator_message ::
  "env \<Rightarrow> string \<Rightarrow> string \<Rightarrow> string \<Rightarrow> string \<Rightarrow> string \<Rightarrow> string \<Rightarrow> string option \<Rightarrow> string \<Rightarrow> json \<Rightarrow> json \<Rightarrow> message_row" where
  "operator_message E fleetId messageId conversationId correlationId senderId kind recipientId mtype body metadata =
     \<lparr> ms_id = messageId, ms_fleet_id = fleetId, ms_conversation_id = conversationId, ms_correlation_id = correlationId,
       ms_sender_agent_id = senderId, ms_recipient_kind = kind, ms_recipient_id = recipientId, ms_message_type = mtype,
       ms_priority = ''normal'', ms_requires_approval = False, ms_body = body, ms_metadata = Some metadata,
       ms_ttl_seconds = 86400, ms_created_at = now E, ms_expires_at = addSeconds (now E) 86400, ms_status = ''queued'' \<rparr>"

definition createOperatorMessage ::
  "env \<Rightarrow> operator_input \<Rightarrow> store \<Rightarrow> (msg_error + string \<times> string \<times> int) \<times> store" where
  "createOperatorMessage E i s =
     (case signing_key_error s i of
        Some e \<Rightarrow> (Inl e, s)
      | None \<Rightarrow>
          let messageId = mk_id E ''msg'' (draws s);
              (senderId, s0) = ensureOperatorAgent E (oi_fleetId i) (s\<lparr> draws := Suc (draws s) \<rparr>);
              senderLabel = operatorLabel s0 (oi_operatorId i);
              correlationId = mk_id E ''cor'' (draws s0)
          in case operator_target E (Suc (draws s0)) s0 i of
            Inl e \<Rightarrow> (Inl e, s0)
          | Inr ((conversationId, kind, recipientId, mtype), n) \<Rightarrow>
              if int (length (oi_attachmentIds i)) > attachmentMaxPerMessage (cfg E)
              then (Inl Too_many_attachments, s0)
              else if \<not> validateAttachmentOwnership s0 (oi_fleetId i) (oi_operatorId i) (oi_attachmentIds i)
              then (Inl Attachment_not_owned, s0)
              else case operator_recipients s0 i senderId conversationId kind recipientId of
                Inl e \<Rightarrow> (Inl e, s0)
              | Inr recipients \<Rightarrow>
                  let body = JObj ((''text'', JStr (oi_text i)) #
                        (if oi_attachmentIds i \<noteq> [] then [(''attachments'', JArr (map JStr (oi_attachmentIds i)))] else []));
                      m = operator_message E (oi_fleetId i) messageId conversationId correlationId senderId kind recipientId
                            mtype body (operator_metadata i senderLabel);
                      s1 = insert_message E m recipients (s0\<lparr> draws := n \<rparr>);
                      s2 = recordEvent E (oi_fleetId i) ''message.queued'' ''operator'' (Some senderId) ''message''
                             (Some messageId) (Some conversationId)
                             (JObj [(''recipient_kind'', JStr kind), (''recipient_id'', str_opt recipientId),
                                    (''message_type'', JStr mtype), (''sender_label'', JStr senderLabel),
                                    (''text'', JStr (oi_text i)),
                                    (''attachments'', JArr (map JStr (oi_attachmentIds i)))]) s1
                  in (Inr (messageId, conversationId, now E), bind_attachments E messageId (oi_attachmentIds i) s2))"

section \<open>Rooms\<close>

datatype creator = By_operator string | By_agent string

fun creator_kind :: "creator \<Rightarrow> string" where
  "creator_kind (By_operator _) = ''operator''"
| "creator_kind (By_agent _) = ''agent''"

fun creator_id :: "creator \<Rightarrow> string" where
  "creator_id (By_operator i) = i"
| "creator_id (By_agent i) = i"

definition createRoom ::
  "env \<Rightarrow> string \<Rightarrow> creator \<Rightarrow> string \<Rightarrow> string list \<Rightarrow> store \<Rightarrow> sql_error + (string \<times> string list) \<times> store" where
  "createRoom E fleetId createdBy name memberAgentIds s =
     (let roomId = mk_id E ''room'' (draws s);
          valid = map ag_id (select_all (live_agent_of fleetId) (agents s));
          requested = memberAgentIds @ (case createdBy of By_agent a \<Rightarrow> [a] | By_operator _ \<Rightarrow> []);
          members = filter (\<lambda>m. m \<in> set valid) (js_unique requested)
      in if select_exists (\<lambda>r. rm_id r = roomId) (rooms s) then Inl (Unique_violation ''rooms.id'')
         else
           let s1 = s\<lparr> rooms := rooms s @
                      [\<lparr> rm_id = roomId, rm_fleet_id = fleetId, rm_name = name, rm_created_at = now E,
                         rm_created_by_operator_id = (case createdBy of By_operator x \<Rightarrow> Some x | _ \<Rightarrow> None),
                         rm_created_by_agent_id = (case createdBy of By_agent x \<Rightarrow> Some x | _ \<Rightarrow> None),
                         rm_project_mode = False, rm_project_turn_budget = NO_TURN_LIMIT \<rparr>],
                      room_members := room_members s @
                        filter (\<lambda>p. p \<notin> set (room_members s)) (map (Pair roomId) members),
                      draws := Suc (draws s) \<rparr>
           in Inr ((roomId, members),
                   recordEvent E fleetId ''room.created'' (creator_kind createdBy) (Some (creator_id createdBy)) ''room''
                     (Some roomId) (Some roomId) (JObj [(''name'', JStr name), (''members'', JArr (map JStr members))]) s1))"

definition setRoomProjectMode ::
  "env \<Rightarrow> string \<Rightarrow> string \<Rightarrow> string \<Rightarrow> bool \<Rightarrow> int option option \<Rightarrow> store \<Rightarrow> (bool \<times> int option) option \<times> store" where
  "setRoomProjectMode E fleetId roomId operatorId enabled budget s =
     (let p = (\<lambda>r. rm_id r = roomId \<and> rm_fleet_id r = fleetId) in
      if \<not> select_exists p (rooms s) then (None, s)
      else
        let s1 = s\<lparr> rooms := update_where p
                     (\<lambda>r. case budget of
                        Some b \<Rightarrow> r\<lparr> rm_project_mode := enabled, rm_project_turn_budget := turnBudgetIn b \<rparr>
                      | None \<Rightarrow> r\<lparr> rm_project_mode := enabled \<rparr>) (rooms s) \<rparr>
        in case select_one p (rooms s1) of
          None \<Rightarrow> (None, s1)
        | Some row \<Rightarrow>
            (Some (rm_project_mode row, turnBudgetOut (rm_project_turn_budget row)),
             recordEvent E fleetId ''room.project_mode_changed'' ''operator'' (Some operatorId) ''room'' (Some roomId)
               (Some roomId)
               (JObj [(''project_mode'', JBool (rm_project_mode row)),
                      (''project_turn_budget'', case turnBudgetOut (rm_project_turn_budget row) of
                         None \<Rightarrow> JNull | Some n \<Rightarrow> JNum n)]) s1))"

definition deleteRoom :: "env \<Rightarrow> string \<Rightarrow> string \<Rightarrow> string \<Rightarrow> store \<Rightarrow> bool \<times> store" where
  "deleteRoom E fleetId roomId operatorId s =
     (if \<not> select_exists (\<lambda>r. rm_id r = roomId \<and> rm_fleet_id r = fleetId) (rooms s) then (False, s)
      else
        (True,
         recordEvent E fleetId ''room.deleted'' ''operator'' (Some operatorId) ''room'' (Some roomId) (Some roomId) (JObj [])
           (s\<lparr> room_members := delete_where (\<lambda>m. fst m = roomId) (room_members s),
               rooms := delete_where (\<lambda>r. rm_id r = roomId \<and> rm_fleet_id r = fleetId) (rooms s) \<rparr>)))"

text \<open>\<^verbatim>\<open>resumeConversation\<close> outside a room: the live agents of the fleet that sent or received in it.\<close>

definition conversation_participants :: "store \<Rightarrow> string \<Rightarrow> string \<Rightarrow> string list" where
  "conversation_participants s fleetId conversationId =
     (let ms = select_all (\<lambda>m. ms_fleet_id m = fleetId \<and> ms_conversation_id m = conversationId) (messages s) in
      map ag_id (select_all (\<lambda>a. live_agent_of fleetId a \<and>
        (select_exists (\<lambda>m. ms_sender_agent_id m = ag_id a) ms
         \<or> select_exists (\<lambda>m. select_exists (\<lambda>d. dl_message_id d = ms_id m \<and> dl_recipient_agent_id d = ag_id a)
              (message_deliveries s)) ms)) (agents s)))"

definition resume_nudge :: "string option \<Rightarrow> string \<Rightarrow> string" where
  "resume_nudge text fallback = (let t = map_option js_trim text in if truthy t then the t else fallback)"

definition resumeConversation ::
  "env \<Rightarrow> string \<Rightarrow> string \<Rightarrow> string \<Rightarrow> string option \<Rightarrow> string \<Rightarrow> store
   \<Rightarrow> (msg_error + (string \<times> string \<times> int) option) \<times> store" where
  "resumeConversation E fleetId operatorId conversationId text fallback s =
     (let nudge = resume_nudge text fallback;
          resumed = recordEvent E fleetId ''conversation.resumed'' ''operator'' (Some operatorId) ''conversation''
                      (Some conversationId) (Some conversationId) (JObj [])
      in if select_exists (\<lambda>r. rm_id r = conversationId \<and> rm_fleet_id r = fleetId) (rooms s) then
           (case createOperatorMessage E
                   \<lparr> oi_fleetId = fleetId, oi_operatorId = operatorId, oi_recipientId = None, oi_roomId = Some conversationId,
                     oi_text = nudge, oi_conversationId = None, oi_attachmentIds = [], oi_mentions = [], oi_replyTo = None,
                     oi_signature = None \<rparr> s of
              (Inl e, s1) \<Rightarrow> (Inl e, s1)
            | (Inr r, s1) \<Rightarrow> (Inr (Some r), resumed s1))
         else
           let participants = conversation_participants s fleetId conversationId in
           if participants = [] then (Inr None, s)
           else
             let messageId = mk_id E ''msg'' (draws s);
                 (senderId, s0) = ensureOperatorAgent E fleetId (s\<lparr> draws := Suc (draws s) \<rparr>);
                 senderLabel = operatorLabel s0 operatorId;
                 m = operator_message E fleetId messageId conversationId (mk_id E ''cor'' (draws s0)) senderId ''broadcast'' None
                       ''broadcast'' (JObj [(''text'', JStr nudge)])
                       (JObj [(''sender_label'', JStr senderLabel), (''operator_id'', JStr operatorId), (''resumed'', JBool True)]);
                 s1 = insert_message E m participants (s0\<lparr> draws := Suc (draws s0) \<rparr>);
                 s2 = recordEvent E fleetId ''message.queued'' ''operator'' (Some senderId) ''message'' (Some messageId)
                        (Some conversationId)
                        (JObj [(''recipient_kind'', JStr ''broadcast''), (''recipient_id'', JNull),
                               (''message_type'', JStr ''broadcast''), (''sender_label'', JStr senderLabel),
                               (''text'', JStr nudge)]) s1
             in (Inr (Some (messageId, conversationId, now E)), resumed s2))"

section \<open>Who gets a message\<close>

lemma set_js_unique [simp]: "set (js_unique xs) = set xs"
  by (simp add: js_unique_def)

lemma distinct_js_unique [simp]: "distinct (js_unique xs)"
  by (simp add: js_unique_def)

text \<open>The audience of an agent message, as the rules state it.\<close>

definition audience :: "store \<Rightarrow> message_input \<Rightarrow> string set" where
  "audience s i =
     (if mi_recipientKind i = ''group'' then
        {a. (message_conversation i, a) \<in> set (room_members s) \<and> a \<noteq> mi_senderAgentId i
            \<and> (\<exists>ag\<in>set (agents s). ag_id ag = a \<and> ag_runtime ag \<noteq> ''operator'' \<and> ag_revoked_at ag = None)}
      else if mi_recipientKind i = ''agent'' then set_option (mi_recipientId i)
      else {a. a \<noteq> mi_senderAgentId i \<and> (\<exists>ag\<in>set (agents s). ag_id ag = a \<and> live_agent_of (mi_fleetId i) ag)})"

lemma roomMemberIds_Some:
  assumes "roomMemberIds s f c sender req = Some rids"
  shows "isRoomConversation s f c" "req \<Longrightarrow> (c, sender) \<in> set (room_members s)"
    "set rids = {a. (c, a) \<in> set (room_members s) \<and> a \<noteq> sender
       \<and> (\<exists>ag\<in>set (agents s). ag_id ag = a \<and> ag_runtime ag \<noteq> ''operator'' \<and> ag_revoked_at ag = None)}"
  using assms
  by (auto simp: roomMemberIds_def isRoomMember_def select_exists_iff select_all_def image_iff split: if_splits)

lemma message_recipients_Inr:
  assumes "message_recipients s i c = Inr rids" "c = message_conversation i"
  shows "set rids = audience s i" "mi_recipientKind i \<in> {''group'', ''agent'', ''broadcast''}"
    "isRoomConversation s (mi_fleetId i) c \<longleftrightarrow> mi_recipientKind i = ''group''"
    "mi_recipientKind i = ''group'' \<Longrightarrow> (c, mi_senderAgentId i) \<in> set (room_members s)"
    "mi_recipientKind i = ''agent'' \<Longrightarrow> isDeliverableAgent s (mi_fleetId i) (the (mi_recipientId i)) \<and> rids = [the (mi_recipientId i)]
       \<and> (\<exists>ag\<in>set (agents s). ag_id ag = the (mi_recipientId i))"
  using assms
  by (auto simp: message_recipients_def audience_def broadcastRecipientIds_def select_all_def truthy_iff image_iff
      select_exists_iff live_agent_of_def roomMemberIds_Some split: option.splits if_splits)

lemma distinct_singleton: "distinct xs \<Longrightarrow> set xs = {x} \<Longrightarrow> xs = [x]"
  by (cases xs) (auto simp: subset_singleton_iff)

text \<open>Nobody is listed twice, given the primary keys of the two tables.\<close>

lemma distinct_recipients:
  assumes "message_recipients s i c = Inr rids" "distinct (map ag_id (agents s))" "distinct (room_members s)"
  shows "distinct rids"
proof -
  have "distinct (map snd (filter (\<lambda>(r, a). r = c \<and> P r a) (room_members s)))" for P
    using assms(3) by (auto simp: distinct_map inj_on_def)
  then have "distinct rids" if "roomMemberIds s f c x req = Some rids" for f x req
    using that by (auto simp: roomMemberIds_def select_all_def split: if_splits)
  moreover have "distinct (broadcastRecipientIds s f x)" for f x
    using assms(2) by (simp add: broadcastRecipientIds_def select_all_def distinct_map_filter)
  ultimately show ?thesis using assms(1) by (auto simp: message_recipients_def split: option.splits if_splits)
qed

lemma delivery_rows_map:
  "map dl_recipient_agent_id (delivery_rows E mid n rids) = rids"
  "d \<in> set (delivery_rows E mid n rids) \<Longrightarrow> dl_message_id d = mid \<and> dl_status d = ''queued'' \<and> dl_retry_count d = 0
     \<and> dl_delivery_attempts d = 0 \<and> dl_next_retry_at d = None \<and> dl_queued_at d = now E
     \<and> dl_delivered_at d = None \<and> dl_acked_at d = None"
  by (auto simp: delivery_rows_def comp_def case_prod_beta map_snd_enumerate)

lemma bind_attachments_frame [simp]:
  "messages (bind_attachments E m ids s) = messages s" "message_deliveries (bind_attachments E m ids s) = message_deliveries s"
  "agents (bind_attachments E m ids s) = agents s" "rooms (bind_attachments E m ids s) = rooms s"
  "room_members (bind_attachments E m ids s) = room_members s" "events (bind_attachments E m ids s) = events s"
  "draws (bind_attachments E m ids s) = draws s" "dead_letters (bind_attachments E m ids s) = dead_letters s"
  by (simp_all add: bind_attachments_def)

lemma insert_message_frame [simp]:
  "agents (insert_message E m rids s) = agents s" "rooms (insert_message E m rids s) = rooms s"
  "room_members (insert_message E m rids s) = room_members s"
  "messages (insert_message E m rids s) = messages s @ [m]"
  "message_deliveries (insert_message E m rids s) = message_deliveries s @ delivery_rows E (ms_id m) (draws s) rids"
  "draws (insert_message E m rids s) = draws s + length rids" "dead_letters (insert_message E m rids s) = dead_letters s"
  by (simp_all add: insert_message_def)

lemma createMessage_Inr:
  assumes "createMessage E i s = Inr ((mid, t), s')"
  obtains rids where "message_recipients s i (message_conversation i) = Inr rids"
    "messages s' = messages s @ [queued_message E i mid (message_conversation i)]"
    "message_deliveries s' = message_deliveries s @ delivery_rows E mid (Suc (draws s)) rids"
    "agents s' = agents s" "rooms s' = rooms s" "room_members s' = room_members s"
    "int (length (body_attachments (mi_body i))) \<le> attachmentMaxPerMessage (cfg E)"
    "validateAttachmentOwnership s (mi_fleetId i) (mi_senderAgentId i) (body_attachments (mi_body i))"
    "mid = mk_id E ''msg'' (draws s)" "draws s' = Suc (Suc (draws s) + length rids)" "dead_letters s' = dead_letters s"
proof (cases "message_recipients s i (message_conversation i)")
  case (Inl e)
  with assms show ?thesis by (simp add: createMessage_def Let_def split: if_splits)
next
  case (Inr rids)
  show ?thesis
    by (rule that [OF Inr])
      (use assms Inr in \<open>auto simp: createMessage_def Let_def queued_message_def split: if_splits\<close>)
qed

lemma queued_message_simps [simp]:
  "ms_id (queued_message E i mid c) = mid" "ms_fleet_id (queued_message E i mid c) = mi_fleetId i"
  "ms_sender_agent_id (queued_message E i mid c) = mi_senderAgentId i" "ms_conversation_id (queued_message E i mid c) = c"
  "ms_body (queued_message E i mid c) = mi_body i" "ms_status (queued_message E i mid c) = ''queued''"
  by (simp_all add: queued_message_def)

text \<open>
  C13: a message an agent sends becomes one queued message of its own fleet under its own name, with
  exactly one queued delivery for each member of its audience: the live members of the named room
  other than the sender, the one named agent, or every other live agent of the fleet.  It is filed under
  a room only when it names that room and the sender is a member; a reply to the operator is filed
  under the sender's own canonical conversation.  The tables of agents and of room members have their primary keys.
\<close>

theorem createMessage_delivers_exactly:
  assumes "createMessage E i s = Inr ((mid, t), s')" "distinct (map ag_id (agents s))" "distinct (room_members s)"
  shows "\<exists>m ds. messages s' = messages s @ [m] \<and> message_deliveries s' = message_deliveries s @ ds
    \<and> ms_id m = mid \<and> ms_fleet_id m = mi_fleetId i \<and> ms_sender_agent_id m = mi_senderAgentId i
    \<and> ms_conversation_id m = message_conversation i \<and> ms_body m = mi_body i
    \<and> distinct (map dl_recipient_agent_id ds) \<and> set (map dl_recipient_agent_id ds) = audience s i
    \<and> (\<forall>d\<in>set ds. dl_message_id d = mid \<and> dl_status d = ''queued'' \<and> dl_retry_count d = 0)
    \<and> (isRoomConversation s (mi_fleetId i) (ms_conversation_id m) \<longleftrightarrow> mi_recipientKind i = ''group'')
    \<and> (mi_recipientKind i = ''group'' \<longrightarrow> (ms_conversation_id m, mi_senderAgentId i) \<in> set (room_members s))
    \<and> (mi_recipientKind i = ''agent'' \<and> mi_recipientId i = Some (op_agent_id (mi_fleetId i))
         \<longrightarrow> ms_conversation_id m = canonicalDmId (mi_fleetId i) (mi_senderAgentId i))"
  using assms(1)
proof (rule createMessage_Inr)
  fix rids
  let ?m = "queued_message E i mid (message_conversation i)" and ?ds = "delivery_rows E mid (Suc (draws s)) rids"
  assume c: "message_recipients s i (message_conversation i) = Inr rids"
    "messages s' = messages s @ [?m]" "message_deliveries s' = message_deliveries s @ ?ds"
  note r = message_recipients_Inr [OF c(1) refl]
  have "distinct (map dl_recipient_agent_id ?ds) \<and> set (map dl_recipient_agent_id ?ds) = audience s i"
    unfolding delivery_rows_map(1) using distinct_recipients [OF c(1) assms(2,3)] r(1) by simp
  moreover have "\<forall>d\<in>set ?ds. dl_message_id d = mid \<and> dl_status d = ''queued'' \<and> dl_retry_count d = 0"
    using delivery_rows_map(2) by blast
  moreover have "message_conversation i = canonicalDmId (mi_fleetId i) (mi_senderAgentId i)"
    if "mi_recipientKind i = ''agent''" "mi_recipientId i = Some (op_agent_id (mi_fleetId i))"
    using that by (simp add: message_conversation_def)
  ultimately show ?thesis
    using c(2,3) r(3,4) by (intro exI [of _ ?m] exI [of _ ?ds]) (simp del: set_map)
qed

section \<open>Fleets do not mix\<close>

definition agent_fleets :: "store \<Rightarrow> (string \<times> string) set" where
  "agent_fleets s = (\<lambda>a. (ag_id a, ag_fleet_id a)) ` set (agents s)"

definition room_fleets :: "store \<Rightarrow> (string \<times> string) set" where
  "room_fleets s = (\<lambda>r. (rm_id r, rm_fleet_id r)) ` set (rooms s)"

definition message_fleets :: "store \<Rightarrow> (string \<times> string) set" where
  "message_fleets s = (\<lambda>m. (ms_id m, ms_fleet_id m)) ` set (messages s)"

definition delivered_to :: "store \<Rightarrow> (string \<times> string) set" where
  "delivered_to s = (\<lambda>d. (dl_message_id d, dl_recipient_agent_id d)) ` set (message_deliveries s)"

text \<open>An agent has one fleet, and the synthetic operator of a fleet is that fleet's.\<close>

definition one_fleet :: "(string \<times> string) set \<Rightarrow> bool" where
  "one_fleet A \<longleftrightarrow> (\<forall>x f g. (x, f) \<in> A \<longrightarrow> (x, g) \<in> A \<longrightarrow> f = g) \<and> (\<forall>f g. (op_agent_id f, g) \<in> A \<longrightarrow> g = f)"

text \<open>A membership is of an existing room, in that room's fleet.\<close>

definition members_in :: "(string \<times> string) set \<Rightarrow> (string \<times> string) set \<Rightarrow> (string \<times> string) set \<Rightarrow> bool" where
  "members_in A R M \<longleftrightarrow>
     (\<forall>r a. (r, a) \<in> M \<longrightarrow> (\<exists>f. (r, f) \<in> R) \<and> (\<forall>f. (r, f) \<in> R \<longrightarrow> (a, f) \<in> A))"

text \<open>A delivery is to an agent of its message's fleet.\<close>

definition delivered_in :: "(string \<times> string) set \<Rightarrow> (string \<times> string) set \<Rightarrow> (string \<times> string) set \<Rightarrow> bool" where
  "delivered_in A G D \<longleftrightarrow> (\<forall>m a. (m, a) \<in> D \<longrightarrow> (\<exists>f. (m, f) \<in> G \<and> (a, f) \<in> A))"

definition isolated :: "store \<Rightarrow> bool" where
  "isolated s \<longleftrightarrow> one_fleet (agent_fleets s) \<and> members_in (agent_fleets s) (room_fleets s) (set (room_members s))
     \<and> delivered_in (agent_fleets s) (message_fleets s) (delivered_to s)"

lemma one_fleet_insert:
  "one_fleet A \<Longrightarrow> (\<And>g. (x, g) \<notin> A) \<Longrightarrow> (\<And>g. x = op_agent_id g \<Longrightarrow> g = f) \<Longrightarrow> one_fleet (insert (x, f) A)"
  by (auto simp: one_fleet_def)

lemma members_in_mono: "members_in A R M \<Longrightarrow> A \<subseteq> A' \<Longrightarrow> members_in A' R M"
  unfolding members_in_def by blast

lemma members_in_insert:
  assumes "members_in A R M" "\<And>g. (r, g) \<notin> R" "M' \<subseteq> M \<union> Pair r ` X" "\<And>a. a \<in> X \<Longrightarrow> (a, f) \<in> A"
  shows "members_in A (insert (r, f) R) M'"
  unfolding members_in_def
proof (intro allI impI)
  fix x a
  assume "(x, a) \<in> M'"
  then consider "(x, a) \<in> M" | "x = r" "a \<in> X" using assms(3) by blast
  then show "(\<exists>f'. (x, f') \<in> insert (r, f) R) \<and> (\<forall>f'. (x, f') \<in> insert (r, f) R \<longrightarrow> (a, f') \<in> A)"
  proof cases
    case 1
    then have e: "\<exists>f'. (x, f') \<in> R" "\<forall>f'. (x, f') \<in> R \<longrightarrow> (a, f') \<in> A" using assms(1) by (auto simp: members_in_def)
    then have "x \<noteq> r" using assms(2) by blast
    with e show ?thesis by auto
  qed (use assms(2,4) in auto)
qed

lemma delivered_in_mono:
  "delivered_in A G D \<Longrightarrow> A \<subseteq> A' \<Longrightarrow> G \<subseteq> G' \<Longrightarrow> D' \<subseteq> D \<Longrightarrow> delivered_in A' G' D'"
  unfolding delivered_in_def by blast

lemma delivered_in_insert:
  assumes "delivered_in A G D" "\<And>a. a \<in> X \<Longrightarrow> (a, f) \<in> A"
  shows "delivered_in A (insert (m, f) G) (D \<union> Pair m ` X)"
  using assms unfolding delivered_in_def by blast

text \<open>What the recipients of a message have in common.\<close>

lemma room_recipients_in_fleet:
  assumes "isolated s" "roomMemberIds s f c sender req = Some rids" "a \<in> set rids"
  shows "(a, f) \<in> agent_fleets s"
proof -
  have "(c, f) \<in> room_fleets s"
    using roomMemberIds_Some(1) [OF assms(2)] by (auto simp: isRoomConversation_def select_exists_iff room_fleets_def image_iff)
  moreover have "(c, a) \<in> set (room_members s)" using roomMemberIds_Some(3) [OF assms(2)] assms(3) by auto
  ultimately show ?thesis using assms(1) by (auto simp: isolated_def members_in_def)
qed

lemma deliverable_in_fleet:
  assumes "isolated s" "isDeliverableAgent s f a" "\<exists>ag\<in>set (agents s). ag_id ag = a"
  shows "(a, f) \<in> agent_fleets s"
proof (cases "a = op_agent_id f")
  case True
  from assms(3) obtain g where "(a, g) \<in> agent_fleets s" by (auto simp: agent_fleets_def)
  with assms(1) True show ?thesis by (auto simp: isolated_def one_fleet_def)
next
  case False
  with assms(2) show ?thesis
    by (auto simp: isDeliverableAgent_def select_exists_iff live_agent_of_def agent_fleets_def image_iff)
qed

lemma broadcast_in_fleet: "a \<in> set (broadcastRecipientIds s f sender) \<Longrightarrow> (a, f) \<in> agent_fleets s"
  by (auto simp: broadcastRecipientIds_def select_all_def live_agent_of_def agent_fleets_def)

lemma message_recipients_in_fleet:
  assumes "isolated s" "message_recipients s i (message_conversation i) = Inr rids" "a \<in> set rids"
  shows "(a, mi_fleetId i) \<in> agent_fleets s"
proof -
  consider "roomMemberIds s (mi_fleetId i) (message_conversation i) (mi_senderAgentId i) True = Some rids"
    | "mi_recipientKind i = ''agent''" | "rids = broadcastRecipientIds s (mi_fleetId i) (mi_senderAgentId i)"
    using assms(2) by (auto simp: message_recipients_def split: option.splits if_splits)
  then show ?thesis
  proof cases
    case 1
    then show ?thesis using room_recipients_in_fleet assms(1,3) by blast
  next
    case 2
    from message_recipients_Inr(5) [OF assms(2) refl 2] assms(1,3) show ?thesis by (auto intro: deliverable_in_fleet)
  next
    case 3
    then show ?thesis using broadcast_in_fleet assms(3) by simp
  qed
qed

lemmas views = agent_fleets_def room_fleets_def message_fleets_def delivered_to_def

lemma isolated_cong:
  assumes "isolated s" "agent_fleets t = agent_fleets s" "room_fleets t = room_fleets s"
    "set (room_members t) = set (room_members s)" "message_fleets s \<subseteq> message_fleets t" "delivered_to t \<subseteq> delivered_to s"
  shows "isolated t"
  using assms(1) delivered_in_mono [OF _ order_refl assms(5,6)] by (simp add: isolated_def assms(2-4))

lemma isolated_draws [simp]: "isolated (s\<lparr> draws := n \<rparr>) = isolated s"
  by (simp add: isolated_def views)

lemma isolated_insert_message:
  assumes "isolated s" "\<And>a. a \<in> set rids \<Longrightarrow> (a, ms_fleet_id m) \<in> agent_fleets s"
    and "agents t = agents s" "rooms t = rooms s" "room_members t = room_members s" "messages t = messages s @ [m]"
    "message_deliveries t = message_deliveries s @ delivery_rows E (ms_id m) n rids"
  shows "isolated t"
proof -
  have "delivered_to t = delivered_to s \<union> Pair (ms_id m) ` set rids"
  proof -
    have "(\<lambda>d. (dl_message_id d, dl_recipient_agent_id d)) ` set (delivery_rows E (ms_id m) n rids)
        = (\<lambda>d. (ms_id m, dl_recipient_agent_id d)) ` set (delivery_rows E (ms_id m) n rids)"
      using delivery_rows_map(2) by (intro image_cong) auto
    also have "\<dots> = Pair (ms_id m) ` set (map dl_recipient_agent_id (delivery_rows E (ms_id m) n rids))"
      by (simp add: image_image)
    finally show ?thesis by (simp add: delivered_to_def assms(7) image_Un delivery_rows_map(1))
  qed
  moreover have "message_fleets t = insert (ms_id m, ms_fleet_id m) (message_fleets s)"
    by (simp add: message_fleets_def assms(6))
  moreover have "agent_fleets t = agent_fleets s" "room_fleets t = room_fleets s"
    by (simp_all add: views assms(3,4))
  ultimately show ?thesis
    using assms(1,2,5) by (simp add: isolated_def delivered_in_insert)
qed

lemma op_agent_id_inj: "op_agent_id f = op_agent_id g \<Longrightarrow> f = g"
  by (simp add: op_agent_id_def)

lemma isolated_add_agent:
  assumes "isolated s" "agents t = agents s @ [a]" "ag_id a \<notin> ag_id ` set (agents s)"
    "\<And>g. ag_id a = op_agent_id g \<Longrightarrow> g = ag_fleet_id a"
    "rooms t = rooms s" "room_members t = room_members s" "messages t = messages s" "message_deliveries t = message_deliveries s"
  shows "isolated t"
proof -
  have A: "agent_fleets t = insert (ag_id a, ag_fleet_id a) (agent_fleets s)"
    by (simp add: agent_fleets_def assms(2))
  have "one_fleet (agent_fleets t)"
    unfolding A using assms(1,3,4) by (intro one_fleet_insert) (auto simp: isolated_def agent_fleets_def)
  moreover have "members_in (agent_fleets t) (room_fleets t) (set (room_members t))"
    using assms(1) members_in_mono [of "agent_fleets s" "room_fleets s" "set (room_members s)" "agent_fleets t"] A
    by (auto simp: isolated_def room_fleets_def assms(5,6))
  moreover have "delivered_in (agent_fleets t) (message_fleets t) (delivered_to t)"
    using assms(1) A by (auto simp: isolated_def message_fleets_def delivered_to_def assms(7,8) intro: delivered_in_mono)
  ultimately show ?thesis by (simp add: isolated_def)
qed

lemma ensureOperatorAgent_isolated:
  assumes "isolated s" "ensureOperatorAgent E f s = (oid, t)"
  shows "isolated t" "oid = op_agent_id f" "\<exists>ag\<in>set (agents t). ag_id ag = op_agent_id f"
    "rooms t = rooms s" "room_members t = room_members s" "messages t = messages s" "message_deliveries t = message_deliveries s"
    "draws t = draws s"
proof -
  show "isolated t"
  proof (cases "select_exists (\<lambda>a. ag_id a = op_agent_id f) (agents s)")
    case True
    with assms show ?thesis by (simp add: ensureOperatorAgent_def Let_def)
  next
    case False
    then show ?thesis
      using assms
      by (intro isolated_add_agent [of s t]) (auto simp: ensureOperatorAgent_def Let_def select_exists_iff dest: op_agent_id_inj)
  qed
qed (use assms in \<open>auto simp: ensureOperatorAgent_def Let_def select_exists_iff split: if_splits\<close>)

lemma operator_recipients_in_fleet:
  assumes "isolated s" "operator_recipients s i sender c kind rid = Inr rids" "a \<in> set rids"
    and "\<exists>ag\<in>set (agents s). ag_id ag = op_agent_id (oi_fleetId i)"
  shows "(a, oi_fleetId i) \<in> agent_fleets s"
proof -
  consider "roomMemberIds s (oi_fleetId i) c sender False = Some rids"
    | "isDeliverableAgent s (oi_fleetId i) a" | "rids = broadcastRecipientIds s (oi_fleetId i) sender"
    using assms(2,3) by (auto simp: operator_recipients_def split: option.splits if_splits)
  then show ?thesis
  proof cases
    case 1
    then show ?thesis using room_recipients_in_fleet assms(1,3) by blast
  next
    case 2
    then have "\<exists>ag\<in>set (agents s). ag_id ag = a"
      using assms(4) by (auto simp: isDeliverableAgent_def select_exists_iff split: if_splits)
    with 2 assms(1) show ?thesis by (intro deliverable_in_fleet)
  next
    case 3
    then show ?thesis using broadcast_in_fleet assms(3) by simp
  qed
qed

lemma operator_message_simps [simp]:
  "ms_id (operator_message E f mid c cor sn k r ty b md) = mid" "ms_fleet_id (operator_message E f mid c cor sn k r ty b md) = f"
  "ms_sender_agent_id (operator_message E f mid c cor sn k r ty b md) = sn"
  "ms_conversation_id (operator_message E f mid c cor sn k r ty b md) = c"
  "ms_status (operator_message E f mid c cor sn k r ty b md) = ''queued''"
  by (simp_all add: operator_message_def)

lemma operator_target_draws: "operator_target E k s i = Inr (x, n) \<Longrightarrow> k \<le> n"
  by (auto simp: operator_target_def Let_def split: if_splits)

text \<open>An operator send changes nothing but the operator's agent row, or adds one message.\<close>

lemma createOperatorMessage_cases:
  assumes "createOperatorMessage E i s = (r, t)"
  obtains (refused) e where "t = s" "signing_key_error s i = Some e" "r = Inl e"
  | (failed) e where "t = snd (ensureOperatorAgent E (oi_fleetId i) (s\<lparr> draws := Suc (draws s) \<rparr>))" "r = Inl e"
  | (sent) oid s0 c kind rid ty n rids m where
      "ensureOperatorAgent E (oi_fleetId i) (s\<lparr> draws := Suc (draws s) \<rparr>) = (oid, s0)"
      "operator_target E (Suc (draws s0)) s0 i = Inr ((c, kind, rid, ty), n)"
      "operator_recipients s0 i oid c kind rid = Inr rids" "signing_key_error s i = None"
      "ms_fleet_id m = oi_fleetId i" "ms_conversation_id m = c" "ms_sender_agent_id m = oid"
      "agents t = agents s0" "rooms t = rooms s0" "room_members t = room_members s0" "messages t = messages s0 @ [m]"
      "message_deliveries t = message_deliveries s0 @ delivery_rows E (ms_id m) n rids"
      "r = Inr (ms_id m, c, now E)" "ms_id m = mk_id E ''msg'' (draws s)" "ms_status m = ''queued''" "draws s0 < n"
      "draws t = Suc (n + length rids)" "dead_letters t = dead_letters s0"
proof -
  obtain oid s0 where e: "ensureOperatorAgent E (oi_fleetId i) (s\<lparr> draws := Suc (draws s) \<rparr>) = (oid, s0)"
    by (cases "ensureOperatorAgent E (oi_fleetId i) (s\<lparr> draws := Suc (draws s) \<rparr>)")
  show ?thesis
  proof (cases "signing_key_error s i")
    case (Some x)
    with assms show ?thesis by (intro refused) (auto simp: createOperatorMessage_def)
  next
    case None
    note d = assms [unfolded createOperatorMessage_def None e, simplified Let_def prod.case option.case e]
    show ?thesis
    proof (cases "operator_target E (Suc (draws s0)) s0 i")
      case (Inl x)
      with d e show ?thesis by (intro failed [of x]) auto
    next
      case (Inr q)
      obtain c kind rid ty n where q: "q = ((c, kind, rid, ty), n)" by (metis prod.exhaust)
      show ?thesis
      proof (cases "(\<exists>x. r = Inl x) \<and> t = s0")
        case True
        with e failed show ?thesis by auto
      next
        case False
        show ?thesis
        proof (cases "operator_recipients s0 i oid c kind rid")
          case (Inl x)
          with d Inr q False show ?thesis by (auto split: if_splits)
        next
          case r: (Inr rids)
          let ?m = "operator_message E (oi_fleetId i) (mk_id E ''msg'' (draws s)) c (mk_id E ''cor'' (draws s0)) oid kind rid ty
              (JObj ((''text'', JStr (oi_text i)) #
                (if oi_attachmentIds i \<noteq> [] then [(''attachments'', JArr (map JStr (oi_attachmentIds i)))] else [])))
              (operator_metadata i (operatorLabel s0 (oi_operatorId i)))"
          show ?thesis
            by (rule sent [where m = ?m, OF e Inr [unfolded q] r None])
              (use d Inr q r False operator_target_draws [OF Inr [unfolded q]] in \<open>auto split: if_splits\<close>)
        qed
      qed
    qed
  qed
qed

lemma createMessage_isolated:
  assumes "isolated s" "createMessage E i s = Inr ((mid, at), t)"
  shows "isolated t"
  using assms(2)
proof (rule createMessage_Inr)
  fix rids
  assume c: "message_recipients s i (message_conversation i) = Inr rids"
    "messages t = messages s @ [queued_message E i mid (message_conversation i)]"
    "message_deliveries t = message_deliveries s @ delivery_rows E mid (Suc (draws s)) rids"
    "agents t = agents s" "rooms t = rooms s" "room_members t = room_members s"
  show "isolated t"
    by (rule isolated_insert_message [OF assms(1) _ c(4-6,2)]) (use c message_recipients_in_fleet [OF assms(1) c(1)] in auto)
qed

lemma createOperatorMessage_isolated:
  assumes "isolated s" "createOperatorMessage E i s = (r, t)"
  shows "isolated t"
  using assms(2)
proof (cases rule: createOperatorMessage_cases)
  case refused
  with assms(1) show ?thesis by simp
next
  case failed
  with assms(1) ensureOperatorAgent_isolated(1) [of "s\<lparr> draws := Suc (draws s) \<rparr>" E "oi_fleetId i"] show ?thesis
    by (metis isolated_draws prod.collapse)
next
  case (sent oid s0 c kind rid ty n rids m)
  note en = ensureOperatorAgent_isolated [OF _ sent(1), simplified, OF assms(1)]
  show ?thesis
    by (rule isolated_insert_message [OF en(1) _ sent(8-12)])
      (use operator_recipients_in_fleet [OF en(1) sent(3) _ en(3)] sent(5) in auto)
qed

lemma isolated_recordEvent [simp]: "isolated (recordEvent E f t ak ai rk ri c p s) = isolated s"
  by (simp add: isolated_def views)

lemma participants_in_fleet: "a \<in> set (conversation_participants s f c) \<Longrightarrow> (a, f) \<in> agent_fleets s"
  by (auto simp: conversation_participants_def Let_def select_all_def live_agent_of_def agent_fleets_def)

lemma agent_fleets_ensure:
  "agent_fleets s \<subseteq> agent_fleets (snd (ensureOperatorAgent E f s))"
  by (auto simp: ensureOperatorAgent_def Let_def agent_fleets_def)

text \<open>A resumed conversation: nobody to wake, an operator message into the room, or one message to the participants.\<close>

definition resume_input :: "string \<Rightarrow> string \<Rightarrow> string \<Rightarrow> string \<Rightarrow> operator_input" where
  "resume_input f oid c nudge =
     \<lparr> oi_fleetId = f, oi_operatorId = oid, oi_recipientId = None, oi_roomId = Some c, oi_text = nudge,
       oi_conversationId = None, oi_attachmentIds = [], oi_mentions = [], oi_replyTo = None, oi_signature = None \<rparr>"

lemma resumeConversation_cases:
  assumes "resumeConversation E f oid c txt fb s = (r, t)"
  obtains (nobody) "t = s" "r = Inr None"
  | (room) r1 s1 where "createOperatorMessage E (resume_input f oid c (resume_nudge txt fb)) s = (r1, s1)"
      "t = s1 \<or> t = recordEvent E f ''conversation.resumed'' ''operator'' (Some oid) ''conversation'' (Some c) (Some c) (JObj []) s1"
  | (sent) o0 s0 m where "ensureOperatorAgent E f (s\<lparr> draws := Suc (draws s) \<rparr>) = (o0, s0)"
      "ms_fleet_id m = f" "ms_id m = mk_id E ''msg'' (draws s)" "ms_status m = ''queued''"
      "agents t = agents s0" "rooms t = rooms s0" "room_members t = room_members s0" "messages t = messages s0 @ [m]"
      "message_deliveries t = message_deliveries s0 @ delivery_rows E (ms_id m) (Suc (draws s0)) (conversation_participants s f c)"
      "draws t = Suc (Suc (Suc (draws s0) + length (conversation_participants s f c)))" "dead_letters t = dead_letters s0"
proof (cases "select_exists (\<lambda>r. rm_id r = c \<and> rm_fleet_id r = f) (rooms s)")
  case True
  obtain r1 s1 where c: "createOperatorMessage E (resume_input f oid c (resume_nudge txt fb)) s = (r1, s1)"
    by (cases "createOperatorMessage E (resume_input f oid c (resume_nudge txt fb)) s")
  show ?thesis
    by (rule room [OF c]) (use assms True c in \<open>auto simp: resumeConversation_def resume_input_def Let_def split: sum.splits\<close>)
next
  case False
  obtain o0 s0 where e: "ensureOperatorAgent E f (s\<lparr> draws := Suc (draws s) \<rparr>) = (o0, s0)"
    by (cases "ensureOperatorAgent E f (s\<lparr> draws := Suc (draws s) \<rparr>)")
  let ?p = "conversation_participants s f c"
  show ?thesis
  proof (cases "?p = []")
    case True
    with False assms show ?thesis by (intro nobody) (auto simp: resumeConversation_def Let_def)
  next
    case ne: False
    let ?m = "operator_message E f (mk_id E ''msg'' (draws s)) c (mk_id E ''cor'' (draws s0)) o0 ''broadcast'' None ''broadcast''
      (JObj [(''text'', JStr (resume_nudge txt fb))])
      (JObj [(''sender_label'', JStr (operatorLabel s0 oid)), (''operator_id'', JStr oid), (''resumed'', JBool True)])"
    note d = assms [unfolded resumeConversation_def, simplified Let_def e prod.case, simplified False ne if_False]
    show ?thesis by (rule sent [where m = ?m, OF e]) (use d in auto)
  qed
qed

lemma resumeConversation_isolated:
  assumes "isolated s" "resumeConversation E f oid c txt fb s = (r, t)"
  shows "isolated t"
  using assms(2)
proof (cases rule: resumeConversation_cases)
  case nobody
  with assms(1) show ?thesis by simp
next
  case (room r1 s1)
  with createOperatorMessage_isolated [OF assms(1) room(1)] show ?thesis by auto
next
  case (sent o0 s0 m)
  note en = ensureOperatorAgent_isolated [OF _ sent(1), simplified, OF assms(1)]
  have sub: "agent_fleets s \<subseteq> agent_fleets s0"
    using agent_fleets_ensure [of "s\<lparr> draws := Suc (draws s) \<rparr>" E f] sent(1) by (simp add: agent_fleets_def)
  show ?thesis
    by (rule isolated_insert_message [OF en(1) _ sent(5-9)]) (use participants_in_fleet sub sent(2) in auto)
qed

lemma agent_not_operator: "''agent_'' @ x \<noteq> op_agent_id f"
  by (simp add: op_agent_id_def)

lemma createAgentFromEnrollment_isolated:
  assumes "isolated s" "createAgentFromEnrollment E f tok nm rt host s = (r, t)"
  shows "isolated t"
proof -
  have same: "isolated t'" if "agents t' = agents s" "rooms t' = rooms s" "room_members t' = room_members s"
    "messages t' = messages s" "message_deliveries t' = message_deliveries s" for t'
    using assms(1) that by (simp add: isolated_def views)
  show ?thesis
  proof (cases "agents t = agents s")
    case True
    then show ?thesis
      using assms(2) by (intro same) (auto simp: createAgentFromEnrollment_def Let_def split: if_splits option.splits)
  next
    case False
    let ?a = "last (agents t)"
    have a: "agents t = agents s @ [?a]" "ag_id ?a \<notin> ag_id ` set (agents s)"
      "ag_id ?a = ''agent_'' @ slice_last 12 (mk_id E ''agt'' (draws s))"
      "rooms t = rooms s" "room_members t = room_members s" "messages t = messages s" "message_deliveries t = message_deliveries s"
      using assms(2) False
      by (auto simp: createAgentFromEnrollment_def Let_def select_exists_iff split: if_splits option.splits)
    show ?thesis
      by (rule isolated_add_agent [OF assms(1) a(1,2) _ a(4-7)]) (use a(3) agent_not_operator in metis)
  qed
qed

lemma createRoom_isolated:
  assumes "isolated s" "createRoom E f cb nm mem s = Inr ((rid, ms), t)"
  shows "isolated t"
proof -
  let ?X = "set ms" and ?r = "mk_id E ''room'' (draws s)"
  have c: "\<not> select_exists (\<lambda>r. rm_id r = ?r) (rooms s)" "room_fleets t = insert (?r, f) (room_fleets s)"
    "set (room_members t) \<subseteq> set (room_members s) \<union> Pair ?r ` ?X" "agents t = agents s" "messages t = messages s"
    "message_deliveries t = message_deliveries s" "?X \<subseteq> ag_id ` {a \<in> set (agents s). live_agent_of f a}"
    using assms(2) by (auto simp: createRoom_def Let_def room_fleets_def select_all_def split: if_splits)
  then have X: "a \<in> ?X \<Longrightarrow> (a, f) \<in> agent_fleets s" for a
    by (auto simp: agent_fleets_def live_agent_of_def)
  have "members_in (agent_fleets s) (insert (?r, f) (room_fleets s)) (set (room_members t))"
    by (rule members_in_insert [OF _ _ c(3)]) (use assms(1) c(1) X in \<open>auto simp: isolated_def select_exists_iff room_fleets_def\<close>)
  with assms(1) c show ?thesis by (simp add: isolated_def agent_fleets_def message_fleets_def delivered_to_def)
qed

text \<open>Room ids are unique, so deleting a room takes its members with it.\<close>

lemma members_in_delete:
  assumes "members_in A R M" "R' = {p \<in> R. p \<noteq> (r, f)}" "M' = {p \<in> M. fst p \<noteq> r}"
  shows "members_in A R' M'"
  unfolding members_in_def
proof (intro allI impI conjI)
  fix x a
  assume "(x, a) \<in> M'"
  then have m: "(x, a) \<in> M" "x \<noteq> r" using assms(3) by auto
  then show "\<exists>g. (x, g) \<in> R'" using assms(1,2) by (auto simp: members_in_def)
  show "(a, g) \<in> A" if "(x, g) \<in> R'" for g using that m assms(1,2) by (auto simp: members_in_def)
qed

lemma deleteRoom_isolated:
  assumes "isolated s" "deleteRoom E f rid oid s = (b, t)"
  shows "isolated t"
proof (cases "select_exists (\<lambda>r. rm_id r = rid \<and> rm_fleet_id r = f) (rooms s)")
  case True
  have c: "room_fleets t = {p \<in> room_fleets s. p \<noteq> (rid, f)}" "set (room_members t) = {p \<in> set (room_members s). fst p \<noteq> rid}"
    "agents t = agents s" "messages t = messages s" "message_deliveries t = message_deliveries s"
    using assms(2) True by (auto simp: deleteRoom_def room_fleets_def)
  have "members_in (agent_fleets s) (room_fleets t) (set (room_members t))"
    using members_in_delete [OF _ c(1,2)] assms(1) by (simp add: isolated_def)
  with assms(1) c(3-5) show ?thesis by (simp add: isolated_def agent_fleets_def message_fleets_def delivered_to_def)
next
  case False
  with assms show ?thesis by (simp add: deleteRoom_def)
qed

lemma setRoomProjectMode_isolated:
  assumes "isolated s" "setRoomProjectMode E f rid oid en b s = (r, t)"
  shows "isolated t"
proof -
  let ?u = "\<lambda>r. case b of Some b \<Rightarrow> r\<lparr> rm_project_mode := en, rm_project_turn_budget := turnBudgetIn b \<rparr>
      | None \<Rightarrow> r\<lparr> rm_project_mode := en \<rparr>"
  let ?rooms = "update_where (\<lambda>r. rm_id r = rid \<and> rm_fleet_id r = f) ?u (rooms s)"
  have "rooms t \<in> {rooms s, ?rooms}"
    using assms(2) by (auto simp: setRoomProjectMode_def Let_def split: if_splits option.splits)
  moreover have "(\<lambda>r. (rm_id r, rm_fleet_id r)) ` set ?rooms = room_fleets s"
    unfolding room_fleets_def by (rule image_update_where) (auto split: option.splits)
  ultimately have "room_fleets t = room_fleets s"
    unfolding room_fleets_def by (elim insertE) simp_all
  moreover have "agents t = agents s" "room_members t = room_members s" "messages t = messages s"
    "message_deliveries t = message_deliveries s"
    using assms(2) by (auto simp: setRoomProjectMode_def Let_def split: if_splits option.splits)
  ultimately show ?thesis by (intro isolated_cong [OF assms(1)]) (simp_all add: views)
qed

lemma setOperatorDisplayName_isolated:
  assumes "isolated s" "setOperatorDisplayName E oid nm s = (r, t)"
  shows "isolated t"
proof (cases "select_one (\<lambda>r. op_id r = oid) (operators s)")
  case None
  with assms show ?thesis by (simp add: setOperatorDisplayName_def)
next
  case (Some oper)
  let ?s1 = "s\<lparr> operators := update_where (\<lambda>r. op_id r = oid) (\<lambda>r. r\<lparr> op_display_name := Some (js_trim nm) \<rparr>) (operators s) \<rparr>"
  obtain o2 s2 where e: "ensureOperatorAgent E (op_fleet_id oper) ?s1 = (o2, s2)"
    by (cases "ensureOperatorAgent E (op_fleet_id oper) ?s1")
  have "isolated ?s1" using assms(1) by (simp add: isolated_def views)
  note en = ensureOperatorAgent_isolated [OF this e]
  have t: "t = s2\<lparr> agents := update_where (\<lambda>a. ag_id a = o2) (\<lambda>a. a\<lparr> ag_display_name := js_trim nm \<rparr>) (agents s2) \<rparr>"
    using assms(2) Some e by (simp add: setOperatorDisplayName_def Let_def)
  show ?thesis
    by (rule isolated_cong [OF en(1)]) (simp_all add: t views)
qed

text \<open>
  The steps that change agents, rooms, messages or deliveries; the runtimes an enrollment may name are
  those of \<^verbatim>\<open>enrollSchema\<close>.  Any other operation keeps the identities of agents, the fleets of rooms and their
  members, and neither removes a message nor adds a delivery.
\<close>

definition RUNTIMES :: "string list" where
  "RUNTIMES = [''custom'', ''openclaw'', ''langgraph'', ''autogen'']"

text \<open>What identifies an agent: its id, fleet, runtime and whether it is revoked.\<close>

definition agent_idents :: "store \<Rightarrow> (string \<times> string \<times> string \<times> int option) set" where
  "agent_idents s = (\<lambda>a. (ag_id a, ag_fleet_id a, ag_runtime a, ag_revoked_at a)) ` set (agents s)"

lemma agent_fleets_idents: "agent_fleets s = (\<lambda>(i, f, _). (i, f)) ` agent_idents s"
  by (simp add: agent_fleets_def agent_idents_def image_image)

inductive msg_step :: "store \<Rightarrow> store \<Rightarrow> bool" where
  Send: "createMessage E i s = Inr (r, t) \<Longrightarrow> msg_step s t"
| Operator_send: "createOperatorMessage E oi s = (r', t) \<Longrightarrow> msg_step s t"
| Resume: "resumeConversation E f oid c txt fb s = (r'', t) \<Longrightarrow> msg_step s t"
| Enroll: "rt \<in> set RUNTIMES \<Longrightarrow> createAgentFromEnrollment E f tok nm rt host s = (r3, t) \<Longrightarrow> msg_step s t"
| Rename_operator: "setOperatorDisplayName E oid nm s = (r4, t) \<Longrightarrow> msg_step s t"
| Create_room: "createRoom E f cb nm mem s = Inr (r5, t) \<Longrightarrow> msg_step s t"
| Delete_room: "deleteRoom E f rid oid s = (b, t) \<Longrightarrow> msg_step s t"
| Project_mode: "setRoomProjectMode E f rid oid en bu s = (r6, t) \<Longrightarrow> msg_step s t"
| Other: "agent_idents t = agent_idents s \<Longrightarrow> room_fleets t = room_fleets s \<Longrightarrow> set (room_members t) = set (room_members s)
    \<Longrightarrow> message_fleets s \<subseteq> message_fleets t \<Longrightarrow> delivered_to t \<subseteq> delivered_to s \<Longrightarrow> msg_step s t"

lemmas isolated_steps = createMessage_isolated createOperatorMessage_isolated resumeConversation_isolated
  createAgentFromEnrollment_isolated setOperatorDisplayName_isolated createRoom_isolated deleteRoom_isolated
  setRoomProjectMode_isolated isolated_cong

interpretation mail: stepping empty_store msg_step isolated
proof
  show "isolated empty_store"
    by (simp add: isolated_def views empty_store_def one_fleet_def members_in_def delivered_in_def)
  show "isolated t" if "isolated s" "msg_step s t" for s t
    using that(2)
  proof cases
    case (Send E i r)
    then show ?thesis using isolated_steps(1) [OF that(1), of E i "fst r" "snd r"] by simp
  next
    case (Create_room E f cb nm mem r)
    then show ?thesis using isolated_steps(6) [OF that(1), of E f cb nm mem "fst r" "snd r"] by simp
  next
    case (Enroll rt E f tok nm host r)
    then show ?thesis by (elim isolated_steps(4) [OF that(1)])
  next
    case Other
    then show ?thesis by (intro isolated_cong [OF that(1)]) (simp_all add: agent_fleets_idents)
  qed (erule isolated_steps(2,3,5,7,8) [OF that(1)])+
qed

text \<open>
  C27: fleets do not mix.  In every state reachable by sends, operator messages, resumed conversations,
  enrollments and room changes, each delivery is of a stored message and to an enrolled agent, and
  every agent row with that id belongs to a fleet in which the message was sent.
\<close>

theorem fleets_do_not_mix:
  assumes "reach empty_store msg_step s" "d \<in> set (message_deliveries s)"
  shows "\<exists>m\<in>set (messages s). ms_id m = dl_message_id d
    \<and> (\<exists>a\<in>set (agents s). ag_id a = dl_recipient_agent_id d)
    \<and> (\<forall>a\<in>set (agents s). ag_id a = dl_recipient_agent_id d \<longrightarrow> ag_fleet_id a = ms_fleet_id m)"
proof -
  have iso: "isolated s" by (rule mail.inv_reach [OF assms(1)])
  have "(dl_message_id d, dl_recipient_agent_id d) \<in> delivered_to s" using assms(2) by (auto simp: delivered_to_def)
  with iso obtain f where f: "(dl_message_id d, f) \<in> message_fleets s" "(dl_recipient_agent_id d, f) \<in> agent_fleets s"
    by (auto simp: isolated_def delivered_in_def)
  then obtain m where "m \<in> set (messages s)" "ms_id m = dl_message_id d" "ms_fleet_id m = f"
    by (auto simp: message_fleets_def)
  moreover have "ag_fleet_id a = f" if "a \<in> set (agents s)" "ag_id a = dl_recipient_agent_id d" for a
  proof -
    have "(dl_recipient_agent_id d, ag_fleet_id a) \<in> agent_fleets s" using that(1) unfolding that(2) [symmetric] by (auto simp: agent_fleets_def)
    with iso f(2) show ?thesis by (auto simp: isolated_def one_fleet_def)
  qed
  moreover have "\<exists>a\<in>set (agents s). ag_id a = dl_recipient_agent_id d" using f(2) by (auto simp: agent_fleets_def)
  ultimately show ?thesis by auto
qed

section \<open>The operator's identity\<close>

text \<open>
  The operator's own agent row, and no other, runs as the operator; it is revoked from the start.
\<close>

definition operator_ident :: "string \<times> string \<times> string \<times> int option \<Rightarrow> bool" where
  "operator_ident = (\<lambda>(i, f, rt, rv). (rt = ''operator'' \<longleftrightarrow> i = op_agent_id f) \<and> (rt = ''operator'' \<longrightarrow> rv \<noteq> None))"

definition idents_ok :: "store \<Rightarrow> bool" where
  "idents_ok s \<longleftrightarrow> (\<forall>x\<in>agent_idents s. operator_ident x)"

lemma ensureOperatorAgent_idents: "idents_ok s \<Longrightarrow> idents_ok (snd (ensureOperatorAgent E f s))"
  by (auto simp: idents_ok_def agent_idents_def ensureOperatorAgent_def Let_def operator_ident_def)

lemma idents_ok_agents: "idents_ok s \<Longrightarrow> agents t = agents s \<Longrightarrow> idents_ok t"
  by (simp add: idents_ok_def agent_idents_def)

lemma idents_ok_draws [simp]: "idents_ok (s\<lparr> draws := n \<rparr>) = idents_ok s"
  by (simp add: idents_ok_def agent_idents_def)

lemma createOperatorMessage_idents:
  assumes "idents_ok s" "createOperatorMessage E i s = (r, t)"
  shows "idents_ok t"
  using assms(2)
proof (cases rule: createOperatorMessage_cases)
  case refused
  with assms(1) show ?thesis by simp
next
  case failed
  with assms(1) show ?thesis by (simp add: ensureOperatorAgent_idents)
next
  case (sent oid s0 c kind rid ty n rids m)
  have "idents_ok s0"
    using ensureOperatorAgent_idents [of "s\<lparr> draws := Suc (draws s) \<rparr>" E "oi_fleetId i"] sent(1) assms(1) by simp
  then show ?thesis using sent(8) by (rule idents_ok_agents)
qed

lemma resumeConversation_idents:
  assumes "idents_ok s" "resumeConversation E f oid c txt fb s = (r, t)"
  shows "idents_ok t"
  using assms(2)
proof (cases rule: resumeConversation_cases)
  case nobody
  with assms(1) show ?thesis by simp
next
  case (room r1 s1)
  from room(2) have "agents t = agents s1" by auto
  with createOperatorMessage_idents [OF assms(1) room(1)] show ?thesis by (rule idents_ok_agents)
next
  case (sent o0 s0 m)
  have "idents_ok s0"
    using ensureOperatorAgent_idents [of "s\<lparr> draws := Suc (draws s) \<rparr>" E f] sent(1) assms(1) by simp
  then show ?thesis using sent(5) by (rule idents_ok_agents)
qed

lemma createAgentFromEnrollment_idents:
  assumes "idents_ok s" "rt \<in> set RUNTIMES" "createAgentFromEnrollment E f tok nm rt host s = (r, t)"
  shows "idents_ok t"
proof -
  have "agent_idents t \<subseteq> insert (''agent_'' @ slice_last 12 (mk_id E ''agt'' (draws s)), f, rt, None) (agent_idents s)"
    using assms(3) by (auto simp: createAgentFromEnrollment_def Let_def agent_idents_def split: if_splits option.splits)
  moreover have "operator_ident (''agent_'' @ x, f, rt, None)" for x
    using assms(2) agent_not_operator [of x f] by (auto simp: operator_ident_def RUNTIMES_def)
  ultimately show ?thesis using assms(1) by (auto simp: idents_ok_def)
qed

lemma setOperatorDisplayName_idents:
  assumes "idents_ok s" "setOperatorDisplayName E oid nm s = (r, t)"
  shows "idents_ok t"
proof (cases "select_one (\<lambda>r. op_id r = oid) (operators s)")
  case None
  with assms show ?thesis by (simp add: setOperatorDisplayName_def)
next
  case (Some oper)
  let ?s1 = "s\<lparr> operators := update_where (\<lambda>r. op_id r = oid) (\<lambda>r. r\<lparr> op_display_name := Some (js_trim nm) \<rparr>) (operators s) \<rparr>"
  obtain o2 s2 where e: "ensureOperatorAgent E (op_fleet_id oper) ?s1 = (o2, s2)"
    by (cases "ensureOperatorAgent E (op_fleet_id oper) ?s1")
  have "idents_ok ?s1" by (rule idents_ok_agents [OF assms(1)]) simp
  from ensureOperatorAgent_idents [OF this, of E "op_fleet_id oper"] e have s2: "idents_ok s2" by simp
  have t: "t = s2\<lparr> agents := update_where (\<lambda>a. ag_id a = o2) (\<lambda>a. a\<lparr> ag_display_name := js_trim nm \<rparr>) (agents s2) \<rparr>"
    using assms(2) Some e by (simp add: setOperatorDisplayName_def Let_def)
  have "agent_idents t = agent_idents s2" by (simp add: t agent_idents_def)
  with s2 show ?thesis by (simp add: idents_ok_def)
qed

lemma room_steps_agents:
  "createRoom E f cb nm mem s = Inr (r5, t) \<Longrightarrow> agents t = agents s"
  "deleteRoom E f rid oid s = (b, t) \<Longrightarrow> agents t = agents s"
  "setRoomProjectMode E f rid oid en bu s = (r6, t) \<Longrightarrow> agents t = agents s"
  by (auto simp: createRoom_def deleteRoom_def setRoomProjectMode_def Let_def split: if_splits option.splits)

interpretation ident: stepping empty_store msg_step idents_ok
proof
  show "idents_ok empty_store" by (simp add: idents_ok_def agent_idents_def empty_store_def)
  show "idents_ok t" if "idents_ok s" "msg_step s t" for s t
    using that(2)
  proof cases
    case (Send E i r)
    obtain mid at where r: "r = (mid, at)" by (cases r)
    from Send [unfolded r] have "agents t = agents s" by (rule createMessage_Inr)
    with that(1) show ?thesis by (rule idents_ok_agents)
  next
    case Other
    with that(1) show ?thesis by (simp add: idents_ok_def)
  qed (erule createOperatorMessage_idents [OF that(1)] resumeConversation_idents [OF that(1)]
      createAgentFromEnrollment_idents [OF that(1)] setOperatorDisplayName_idents [OF that(1)]
      room_steps_agents [THEN idents_ok_agents [OF that(1)]], assumption?)+
qed

text \<open>
  Nobody can act as the operator.  In every reachable state the only agent rows that run as the
  operator are the operators' own, one per fleet under its reserved id, and no request is ever
  authenticated under such an id.
\<close>

theorem operator_identity_reserved:
  assumes "reach empty_store msg_step s"
  shows "(\<forall>a\<in>set (agents s). ag_runtime a = ''operator'' \<longleftrightarrow> ag_id a = op_agent_id (ag_fleet_id a))
    \<and> authenticateAgent s (op_agent_id f) = None"
proof -
  have ok: "operator_ident (ag_id a, ag_fleet_id a, ag_runtime a, ag_revoked_at a)" if "a \<in> set (agents s)" for a
    using ident.inv_reach [OF assms] that by (auto simp: idents_ok_def agent_idents_def)
  have fleet: "ag_fleet_id a = f" if "a \<in> set (agents s)" "ag_id a = op_agent_id f" for a
  proof -
    have "(op_agent_id f, ag_fleet_id a) \<in> agent_fleets s" using that(1) unfolding that(2) [symmetric] by (auto simp: agent_fleets_def)
    with mail.inv_reach [OF assms] show ?thesis by (auto simp: isolated_def one_fleet_def)
  qed
  have "select_one (\<lambda>a. ag_id a = op_agent_id f \<and> is_null (ag_revoked_at a)) (agents s) = None"
    using ok fleet by (fastforce simp: select_one_None operator_ident_def)
  with ok show ?thesis by (auto simp: operator_ident_def authenticateAgent_def)
qed

section \<open>Samples\<close>

definition sample_op_input :: operator_input where
  "sample_op_input = \<lparr> oi_fleetId = ''flt'', oi_operatorId = ''opr'', oi_recipientId = Some sample_agent, oi_roomId = None,
     oi_text = ''hello'', oi_conversationId = None, oi_attachmentIds = [], oi_mentions = [], oi_replyTo = None,
     oi_signature = None \<rparr>"

definition sample_mailed :: store where
  "sample_mailed = snd (createOperatorMessage (sample_env 2) sample_op_input sample_enrolled)"

definition sample_input :: message_input where
  "sample_input = \<lparr> mi_fleetId = ''flt'', mi_senderAgentId = sample_agent, mi_recipientKind = ''agent'',
     mi_recipientId = Some ''op_flt'', mi_messageType = ''direct'', mi_priority = ''normal'', mi_ttlSeconds = 60,
     mi_requiresApproval = False, mi_body = JObj [(''text'', JStr ''hi'')], mi_metadata = None,
     mi_conversationId = ''conv'', mi_correlationId = ''cor'' \<rparr>"

lemma sample_mailed_reach: "reach empty_store msg_step sample_mailed"
proof -
  have "msg_step empty_store sample_issued"
    by (rule msg_step.Other)
      (simp_all add: views agent_idents_def sample_issued_def issueEnrollmentToken_def Let_def empty_store_def select_exists_def)
  moreover have "msg_step sample_issued sample_enrolled" by (rule msg_step.Enroll [OF _ sample_enrolled_eq]) (simp add: RUNTIMES_def)
  moreover have "msg_step sample_enrolled sample_mailed"
    by (rule msg_step.Operator_send [where r' = "fst (createOperatorMessage (sample_env 2) sample_op_input sample_enrolled)"])
      (simp add: sample_mailed_def)
  ultimately show ?thesis by (meson reach_start reach_step)
qed

lemma fleets_do_not_mix_witness:
  "\<exists>m\<in>set (messages sample_mailed). ms_id m = dl_message_id (hd (message_deliveries sample_mailed))
    \<and> ag_id (hd (agents sample_mailed)) = sample_agent \<and> ag_fleet_id (hd (agents sample_mailed)) = ms_fleet_id m"
proof -
  have "hd (message_deliveries sample_mailed) \<in> set (message_deliveries sample_mailed)"
    "dl_recipient_agent_id (hd (message_deliveries sample_mailed)) = sample_agent"
    "hd (agents sample_mailed) \<in> set (agents sample_mailed)" "ag_id (hd (agents sample_mailed)) = sample_agent"
    by code_simp+
  then show ?thesis
    using fleets_do_not_mix [OF sample_mailed_reach, of "hd (message_deliveries sample_mailed)"] by auto
qed

lemma createMessage_delivers_exactly_witness:
  "\<exists>m ds. messages (snd (projr (createMessage (sample_env 3) sample_input sample_mailed))) = messages sample_mailed @ [m]
    \<and> message_deliveries (snd (projr (createMessage (sample_env 3) sample_input sample_mailed))) = message_deliveries sample_mailed @ ds
    \<and> map dl_recipient_agent_id (ds :: delivery_row list) = [''op_flt''] \<and> ms_conversation_id m = canonicalDmId ''flt'' sample_agent"
proof -
  let ?r = "createMessage (sample_env 3) sample_input sample_mailed"
  have "?r = Inr ((fst (fst (projr ?r)), snd (fst (projr ?r))), snd (projr ?r))"
    "distinct (map ag_id (agents sample_mailed))" "distinct (room_members sample_mailed)" by code_simp+
  note m = createMessage_delivers_exactly [OF this]
  have i: "audience sample_mailed sample_input = {''op_flt''}" "mi_fleetId sample_input = ''flt''"
    "mi_recipientKind sample_input = ''agent''" "mi_recipientId sample_input = Some (op_agent_id ''flt'')"
    "mi_senderAgentId sample_input = sample_agent"
    by (simp_all add: audience_def sample_input_def op_agent_id_def)
  from m [unfolded i simp_thms] show ?thesis
  proof (elim exE conjE)
    fix m and ds :: "delivery_row list"
    assume ds: "distinct (map dl_recipient_agent_id ds)" "set (map dl_recipient_agent_id ds) = {''op_flt''}"
    assume "messages (snd (projr ?r)) = messages sample_mailed @ [m]"
      "message_deliveries (snd (projr ?r)) = message_deliveries sample_mailed @ ds" "ms_conversation_id m = canonicalDmId ''flt'' sample_agent"
    moreover have "map dl_recipient_agent_id ds = [''op_flt'']" by (rule distinct_singleton [OF ds])
    ultimately show ?thesis by (intro exI conjI)
  qed
qed

text \<open>
  An agent may name any conversation id of its own choosing when it writes to another agent, so a message
  can be filed under the canonical operator conversation of a third agent.
\<close>

lemma foreign_dm_filing:
  "message_conversation (sample_input\<lparr> mi_recipientId := Some ''other'', mi_conversationId := canonicalDmId ''flt'' ''victim'' \<rparr>)
     = canonicalDmId ''flt'' ''victim''"
  by (simp add: message_conversation_def sample_input_def op_agent_id_def)

lemma operator_identity_reserved_witness:
  "ag_runtime (hd (agents sample_mailed)) \<noteq> ''operator'' \<and> authenticateAgent sample_mailed (op_agent_id ''flt'') = None"
proof -
  have "hd (agents sample_mailed) \<in> set (agents sample_mailed)"
    "ag_id (hd (agents sample_mailed)) \<noteq> op_agent_id (ag_fleet_id (hd (agents sample_mailed)))"
    by code_simp+
  with operator_identity_reserved [OF sample_mailed_reach, of "''flt''"] show ?thesis by auto
qed

end
