(* ===== verification/Operator_Keys.thy ===== *)
theory Operator_Keys
  imports Iso_Time
begin

text \<open>
  Operator signing keys, recovery grants and agent identity keys (\<^verbatim>\<open>db.ts\<close>, the two sections
  \<^verbatim>\<open>Operator signing keys\<close> and \<^verbatim>\<open>Agent identity keys\<close>).  Every operation is a function from the store
  to either the error it throws or its result and the new store; a throw leaves the store as it
  was, because each operation does its checks before its one transaction.
\<close>

section \<open>Errors\<close>

datatype key_error =
    Untrusted_endorser string
  | Bad_ttl
  | Confirmed_by_required
  | Recovery_over_itself
  | Fleet_not_found
  | Recovering_key_unknown string
  | Recovering_key_revoked string
  | Successor_unknown string
  | Successor_revoked string
  | Successor_endorsed string string
  | Grant_already_armed string
  | Grant_used string int
  | Grant_cancelled string int
  | Grant_expired string int
  | Grant_other_successor string string
  | Grant_not_applicable string string
  | Grant_no_longer_usable string
  | Chain_closes string string
  | Endorser_unknown_or_revoked
  | Invalid_endorsement_signature
  | Key_already_registered
  | Cannot_endorse_itself
  | Key_not_found
  | Cannot_endorse_revoked
  | Already_revoked string
  | Only_live_key string
  | Cannot_revoke_itself
  | Signer_unknown string
  | Signer_revoked string
  | Untrusted_signer string
  | Only_pinned_root string
  | Trusted_only_through string string
  | Revoked_at_not_iso
  | Revoked_at_skewed
  | Invalid_revocation_signature
  | Agent_key_not_found
  | Invalid_agent_key_signature

section \<open>The authority rule\<close>

definition op_key :: "store \<Rightarrow> string \<Rightarrow> string \<Rightarrow> operator_key_row option" where
  "op_key s fleetId kid =
     select_one (\<lambda>k. ok_fleet_id k = fleetId \<and> ok_key_id k = kid) (fleet_operator_keys s)"

definition live_op_key :: "store \<Rightarrow> string \<Rightarrow> string \<Rightarrow> operator_key_row option" where
  "live_op_key s fleetId kid =
     select_one (\<lambda>k. ok_fleet_id k = fleetId \<and> ok_key_id k = kid \<and> is_null (ok_revoked_at k))
       (fleet_operator_keys s)"

definition recoveredVia :: "store \<Rightarrow> string \<Rightarrow> string \<Rightarrow> string \<Rightarrow> bool" where
  "recoveredVia s fleetId target endorser =
     select_exists (\<lambda>g. gr_fleet_id g = fleetId \<and> gr_target_key_id g = target
                        \<and> gr_endorser_key_id g = endorser \<and> \<not> is_null (gr_consumed_at g))
       (operator_recovery_grants s)"

text \<open>
  \<^verbatim>\<open>agentPinnedRoots\<close>: the endorsers of the live agent keys of the fleet, or None when no agent is
  endorsed.  A JavaScript \<^verbatim>\<open>Set\<close> is a list without repetitions.
\<close>

definition agentPinnedRoots :: "store \<Rightarrow> string \<Rightarrow> string list option" where
  "agentPinnedRoots s fleetId =
     (let agentKeys = map ik_endorsed_by_key_id
            (select_all (\<lambda>k. ik_fleet_id k = fleetId \<and> is_null (ik_revoked_at k)) (agent_identity_keys s))
      in if list_all (\<lambda>e. \<not> truthy e) agentKeys then None
         else Some (remdups (map the (filter truthy agentKeys))))"

lemma op_key_Some:
  "op_key s f k = Some r \<Longrightarrow> r \<in> set (fleet_operator_keys s) \<and> ok_fleet_id r = f \<and> ok_key_id r = k"
  by (auto simp: op_key_def dest: select_one_Some)

text \<open>
  The walk of \<^verbatim>\<open>endorserIsTrusted\<close>: from the cursor up the recorded endorsers, with the set of keys
  already walked.  It ends because every hop that goes on is a registered key not walked before.
\<close>

function trust_walk ::
  "store \<Rightarrow> string \<Rightarrow> string list \<Rightarrow> string option \<Rightarrow> string list \<Rightarrow> string option \<Rightarrow> bool" where
  "trust_walk s fleetId roots exclude walked None = False"
| "trust_walk s fleetId roots exclude walked (Some cursor) =
     (if cursor = [] \<or> cursor \<in> set walked then False
      else case op_key s fleetId cursor of
        None \<Rightarrow> False
      | Some row \<Rightarrow>
          if truthy (ok_revoked_at row) \<or> exclude = Some cursor then False
          else if cursor \<in> set roots then True
          else if \<not> truthy (ok_endorsed_by_key_id row) then False
          else if recoveredVia s fleetId cursor (the (ok_endorsed_by_key_id row)) then True
          else trust_walk s fleetId roots exclude (cursor # walked) (ok_endorsed_by_key_id row))"
  by pat_completeness auto

termination
proof (relation "measure (\<lambda>(s, f, roots, ex, walked, cursor).
    card (ok_key_id ` set (fleet_operator_keys s) - set walked))", goal_cases)
  case 1
  show ?case by simp
next
  case (2 s f roots ex walked cursor row)
  have "cursor \<in> ok_key_id ` set (fleet_operator_keys s)"
    using op_key_Some [OF 2(2)] by auto
  then have "ok_key_id ` set (fleet_operator_keys s) - set (cursor # walked)
      \<subset> ok_key_id ` set (fleet_operator_keys s) - set walked"
    using 2(1) by auto
  then show ?case by (simp add: psubset_card_mono)
qed

definition endorserIsTrusted :: "store \<Rightarrow> string \<Rightarrow> string \<Rightarrow> string option \<Rightarrow> bool" where
  "endorserIsTrusted s fleetId endorserKeyId excludeKeyId =
     (case agentPinnedRoots s fleetId of
        None \<Rightarrow> True
      | Some pinned \<Rightarrow>
          let roots = (if truthy excludeKeyId then removeAll (the excludeKeyId) pinned else pinned)
          in trust_walk s fleetId roots excludeKeyId [] (Some endorserKeyId))"

definition operatorKeyMayEndorse :: "store \<Rightarrow> string \<Rightarrow> string \<Rightarrow> bool" where
  "operatorKeyMayEndorse s fleetId kid =
     (case op_key s fleetId kid of
        None \<Rightarrow> False
      | Some row \<Rightarrow> if truthy (ok_revoked_at row) then False else endorserIsTrusted s fleetId kid None)"

section \<open>Recovery grants\<close>

definition RECOVERY_GRANT_DEFAULT_TTL_MINUTES :: int where
  "RECOVERY_GRANT_DEFAULT_TTL_MINUTES = 30"

definition RECOVERY_GRANT_MAX_TTL_MINUTES :: int where
  "RECOVERY_GRANT_MAX_TTL_MINUTES = 120"

definition armed :: "string \<Rightarrow> int \<Rightarrow> grant_row \<Rightarrow> bool" where
  "armed fleetId t g \<longleftrightarrow>
     gr_fleet_id g = fleetId \<and> is_null (gr_consumed_at g) \<and> is_null (gr_cancelled_at g) \<and> t < gr_expires_at g"

definition createOperatorRecoveryGrant ::
  "env \<Rightarrow> string \<Rightarrow> string \<Rightarrow> string \<Rightarrow> string \<Rightarrow> int option \<Rightarrow> store \<Rightarrow> key_error + grant_row \<times> store" where
  "createOperatorRecoveryGrant E fleetId endorserKeyId targetKeyId confirmed ttlMinutes s =
     (let ttl = (case ttlMinutes of None \<Rightarrow> RECOVERY_GRANT_DEFAULT_TTL_MINUTES | Some m \<Rightarrow> m);
          confirmedBy = js_trim confirmed
      in if ttl < 1 \<or> ttl > RECOVERY_GRANT_MAX_TTL_MINUTES then Inl Bad_ttl
      else if confirmedBy = [] then Inl Confirmed_by_required
      else if endorserKeyId = targetKeyId then Inl Recovery_over_itself
      else if \<not> select_exists (\<lambda>f. fl_id f = fleetId) (fleets s) then Inl Fleet_not_found
      else case op_key s fleetId endorserKeyId of
        None \<Rightarrow> Inl (Recovering_key_unknown endorserKeyId)
      | Some endorser \<Rightarrow>
          if truthy (ok_revoked_at endorser) then Inl (Recovering_key_revoked endorserKeyId)
          else case op_key s fleetId targetKeyId of
            None \<Rightarrow> Inl (Successor_unknown targetKeyId)
          | Some target \<Rightarrow>
              if truthy (ok_revoked_at target) then Inl (Successor_revoked targetKeyId)
              else if truthy (ok_endorsed_by_key_id target)
              then Inl (Successor_endorsed targetKeyId (the (ok_endorsed_by_key_id target)))
              else
                let grant = \<lparr> gr_id = mk_id E ''rcg'' (draws s), gr_fleet_id = fleetId,
                      gr_endorser_key_id = endorserKeyId, gr_target_key_id = targetKeyId,
                      gr_confirmed_by = confirmedBy, gr_created_at = now E,
                      gr_expires_at = now E + ttl * 60000, gr_consumed_at = None, gr_cancelled_at = None \<rparr>
                in case select_one (armed fleetId (now E)) (operator_recovery_grants s) of
                  Some live \<Rightarrow> Inl (Grant_already_armed (gr_id live))
                | None \<Rightarrow>
                    let s1 = s\<lparr> operator_recovery_grants := operator_recovery_grants s @ [grant],
                                draws := Suc (draws s) \<rparr>;
                        s2 = recordEvent E fleetId ''operator_key.recovery_grant_armed'' ''host'' None
                               ''operator_key'' (Some targetKeyId) None
                               (JObj [(''grant_id'', JStr (gr_id grant)), (''endorser_key_id'', JStr endorserKeyId),
                                      (''target_key_id'', JStr targetKeyId), (''confirmed_by'', JStr confirmedBy),
                                      (''expires_at'', JStr (to_iso (gr_expires_at grant)))]) s1
                    in Inr (grant, s2))"

definition cancelOperatorRecoveryGrant :: "env \<Rightarrow> string \<Rightarrow> string \<Rightarrow> store \<Rightarrow> bool \<times> store" where
  "cancelOperatorRecoveryGrant E fleetId grantId s =
     (let p = (\<lambda>g. gr_fleet_id g = fleetId \<and> gr_id g = grantId
                   \<and> is_null (gr_consumed_at g) \<and> is_null (gr_cancelled_at g));
          n = changes p (operator_recovery_grants s);
          s1 = s\<lparr> operator_recovery_grants :=
                    update_where p (\<lambda>g. g\<lparr> gr_cancelled_at := Some (now E) \<rparr>) (operator_recovery_grants s) \<rparr>
      in (0 < n,
          if 0 < n
          then recordEvent E fleetId ''operator_key.recovery_grant_cancelled'' ''host'' None
                 ''operator_recovery_grant'' (Some grantId) None
                 (JObj [(''cancelled_at'', JStr (to_iso (now E)))]) s1
          else s1))"

definition listOperatorRecoveryGrants :: "store \<Rightarrow> string \<Rightarrow> grant_row list" where
  "listOperatorRecoveryGrants s fleetId =
     order_asc gr_created_at (select_all (\<lambda>g. gr_fleet_id g = fleetId) (operator_recovery_grants s))"

definition getActiveOperatorRecoveryGrant :: "env \<Rightarrow> store \<Rightarrow> string \<Rightarrow> grant_row option" where
  "getActiveOperatorRecoveryGrant E s fleetId =
     head_option (order_desc gr_created_at (select_all (armed fleetId (now E)) (operator_recovery_grants s)))"

definition requireRecoveryGrant ::
  "store \<Rightarrow> string \<Rightarrow> string \<Rightarrow> string \<Rightarrow> operator_key_row \<Rightarrow> int \<Rightarrow> key_error + grant_row" where
  "requireRecoveryGrant s fleetId endorserKeyId targetKeyId target t =
     (case head_option (order_desc gr_created_at
             (select_all (\<lambda>g. gr_fleet_id g = fleetId \<and> gr_endorser_key_id g = endorserKeyId)
                (operator_recovery_grants s))) of
        None \<Rightarrow> Inl (Untrusted_endorser endorserKeyId)
      | Some grant \<Rightarrow>
          (case gr_consumed_at grant of
             Some c \<Rightarrow> Inl (Grant_used (gr_id grant) c)
           | None \<Rightarrow>
          (case gr_cancelled_at grant of
             Some c \<Rightarrow> Inl (Grant_cancelled (gr_id grant) c)
           | None \<Rightarrow>
             if gr_expires_at grant \<le> t then Inl (Grant_expired (gr_id grant) (gr_expires_at grant))
             else if gr_target_key_id grant \<noteq> targetKeyId
             then Inl (Grant_other_successor (gr_target_key_id grant) targetKeyId)
             else if truthy (ok_endorsed_by_key_id target)
             then Inl (Grant_not_applicable targetKeyId (the (ok_endorsed_by_key_id target)))
             else Inr grant)))"

section \<open>The cycle check\<close>

text \<open>
  The walk of \<^verbatim>\<open>assertNoEndorsementCycle\<close>: True when it returns, False when it throws.  A key that is
  not registered has no parent, so only registered keys are walked on from.
\<close>

function no_cycle_walk :: "store \<Rightarrow> string \<Rightarrow> string \<Rightarrow> string list \<Rightarrow> string option \<Rightarrow> bool" where
  "no_cycle_walk s fleetId targetKeyId walked None = True"
| "no_cycle_walk s fleetId targetKeyId walked (Some cursor) =
     (if cursor = [] then True
      else if cursor = targetKeyId then False
      else if cursor \<in> set walked then True
      else case op_key s fleetId cursor of
        None \<Rightarrow> True
      | Some row \<Rightarrow> no_cycle_walk s fleetId targetKeyId (cursor # walked) (ok_endorsed_by_key_id row))"
  by pat_completeness auto

termination
proof (relation "measure (\<lambda>(s, f, target, walked, cursor).
    card (ok_key_id ` set (fleet_operator_keys s) - set walked))", goal_cases)
  case 1
  show ?case by simp
next
  case (2 s f target walked cursor row)
  have "cursor \<in> ok_key_id ` set (fleet_operator_keys s)"
    using op_key_Some [OF 2(4)] by auto
  then have "ok_key_id ` set (fleet_operator_keys s) - set (cursor # walked)
      \<subset> ok_key_id ` set (fleet_operator_keys s) - set walked"
    using 2(3) by auto
  then show ?case by (simp add: psubset_card_mono)
qed

definition assertNoEndorsementCycle :: "store \<Rightarrow> string \<Rightarrow> string \<Rightarrow> string \<Rightarrow> key_error option" where
  "assertNoEndorsementCycle s fleetId targetKeyId endorserKeyId =
     (if no_cycle_walk s fleetId targetKeyId [] (Some endorserKeyId) then None
      else Some (Chain_closes endorserKeyId targetKeyId))"

section \<open>Operations on operator keys\<close>

definition registerOperatorKey ::
  "env \<Rightarrow> string \<Rightarrow> string \<Rightarrow> string \<Rightarrow> (string \<times> string) option \<Rightarrow> string option \<Rightarrow> store
   \<Rightarrow> key_error + string \<times> store" where
  "registerOperatorKey E fleetId publicKey label endorsement actorKeyId s =
     (let kid = keyId (cryp E) publicKey;
          refusal =
            (case endorsement of
               None \<Rightarrow> None
             | Some (endorsedByKeyId, signature) \<Rightarrow>
                 (case live_op_key s fleetId endorsedByKeyId of
                    None \<Rightarrow> Some Endorser_unknown_or_revoked
                  | Some endorser \<Rightarrow>
                      if \<not> verifyCanonical (cryp E) (endorsementPayload fleetId kid publicKey) signature
                            (ok_public_key endorser)
                      then Some Invalid_endorsement_signature
                      else if \<not> endorserIsTrusted s fleetId endorsedByKeyId None
                      then Some (Untrusted_endorser endorsedByKeyId)
                      else None))
      in case refusal of
        Some e \<Rightarrow> Inl e
      | None \<Rightarrow>
          if select_exists (\<lambda>k. ok_fleet_id k = fleetId \<and> ok_key_id k = kid) (fleet_operator_keys s)
          then Inl Key_already_registered
          else
            let row = \<lparr> ok_fleet_id = fleetId, ok_key_id = kid, ok_public_key = publicKey, ok_label = label,
                        ok_created_at = now E, ok_last_used_at = None, ok_revoked_at = None,
                        ok_endorsed_by_key_id = map_option fst endorsement,
                        ok_endorsement_sig = map_option snd endorsement,
                        ok_revoked_by_key_id = None, ok_revocation_sig = None \<rparr>;
                s1 = s\<lparr> fleet_operator_keys := fleet_operator_keys s @ [row] \<rparr>
            in Inr (kid, recordEvent E fleetId ''operator_key.registered'' ''operator'' actorKeyId
                           ''operator_key'' (Some kid) None
                           (JObj [(''endorsed_by_key_id'', str_opt (map_option fst endorsement))]) s1))"

definition spendGrant :: "env \<Rightarrow> grant_row option \<Rightarrow> store \<Rightarrow> key_error + store" where
  "spendGrant E grant s =
     (case grant of
        None \<Rightarrow> Inr s
      | Some g \<Rightarrow>
          let p = (\<lambda>r. gr_id r = gr_id g \<and> is_null (gr_consumed_at r) \<and> is_null (gr_cancelled_at r)
                       \<and> now E < gr_expires_at r)
          in if changes p (operator_recovery_grants s) \<noteq> 1 then Inl (Grant_no_longer_usable (gr_id g))
             else Inr (s\<lparr> operator_recovery_grants :=
                           update_where p (\<lambda>r. r\<lparr> gr_consumed_at := Some (now E) \<rparr>)
                             (operator_recovery_grants s) \<rparr>))"

definition endorseOperatorKey ::
  "env \<Rightarrow> string \<Rightarrow> string \<Rightarrow> string \<Rightarrow> string \<Rightarrow> string option \<Rightarrow> store \<Rightarrow> key_error + store" where
  "endorseOperatorKey E fleetId targetKeyId endorsedByKeyId signature actorKeyId s =
     (if endorsedByKeyId = targetKeyId then Inl Cannot_endorse_itself
      else case op_key s fleetId targetKeyId of
        None \<Rightarrow> Inl Key_not_found
      | Some target \<Rightarrow>
          if truthy (ok_revoked_at target) then Inl Cannot_endorse_revoked
          else case live_op_key s fleetId endorsedByKeyId of
            None \<Rightarrow> Inl Endorser_unknown_or_revoked
          | Some endorser \<Rightarrow>
              (case (if endorserIsTrusted s fleetId endorsedByKeyId None then Inr None
                     else map_sum id Some
                            (requireRecoveryGrant s fleetId endorsedByKeyId targetKeyId target (now E))) of
                 Inl e \<Rightarrow> Inl e
               | Inr grant \<Rightarrow>
              (case assertNoEndorsementCycle s fleetId targetKeyId endorsedByKeyId of
                 Some e \<Rightarrow> Inl e
               | None \<Rightarrow>
              if \<not> verifyCanonical (cryp E) (endorsementPayload fleetId targetKeyId (ok_public_key target))
                    signature (ok_public_key endorser)
              then Inl Invalid_endorsement_signature
              else
              (case spendGrant E grant s of
                 Inl e \<Rightarrow> Inl e
               | Inr s1 \<Rightarrow>
                   let actor = (case actorKeyId of None \<Rightarrow> endorsedByKeyId | Some a \<Rightarrow> a);
                       s2 = s1\<lparr> fleet_operator_keys :=
                              update_where (\<lambda>k. ok_fleet_id k = fleetId \<and> ok_key_id k = targetKeyId)
                                (\<lambda>k. k\<lparr> ok_endorsed_by_key_id := Some endorsedByKeyId,
                                       ok_endorsement_sig := Some signature \<rparr>)
                                (fleet_operator_keys s1) \<rparr>;
                       s3 = recordEvent E fleetId ''operator_key.endorsed'' ''operator'' (Some actor)
                              ''operator_key'' (Some targetKeyId) None
                              (JObj ((''endorsed_by_key_id'', JStr endorsedByKeyId) #
                                (case grant of None \<Rightarrow> [] | Some g \<Rightarrow> [(''recovery_grant_id'', JStr (gr_id g))]))) s2
                   in Inr (case grant of
                             None \<Rightarrow> s3
                           | Some g \<Rightarrow>
                               recordEvent E fleetId ''operator_key.recovery_grant_consumed'' ''operator'' (Some actor)
                                 ''operator_recovery_grant'' (Some (gr_id g)) None
                                 (JObj [(''endorser_key_id'', JStr (gr_endorser_key_id g)),
                                        (''target_key_id'', JStr (gr_target_key_id g)),
                                        (''consumed_at'', JStr (to_iso (now E)))]) s3)))))"

definition listOperatorKeys :: "store \<Rightarrow> string \<Rightarrow> operator_key_row list" where
  "listOperatorKeys s fleetId =
     order_asc ok_created_at (select_all (\<lambda>k. ok_fleet_id k = fleetId) (fleet_operator_keys s))"

definition getActiveOperatorKeys :: "store \<Rightarrow> string \<Rightarrow> operator_key_row list" where
  "getActiveOperatorKeys s fleetId =
     order_asc ok_created_at
       (select_all (\<lambda>k. ok_fleet_id k = fleetId \<and> is_null (ok_revoked_at k)) (fleet_operator_keys s))"

definition operatorKeysForAgents :: "store \<Rightarrow> string \<Rightarrow> json list" where
  "operatorKeysForAgents s fleetId =
     map (\<lambda>k. JObj [(''key_id'', JStr (ok_key_id k)), (''public_key'', JStr (ok_public_key k)),
                    (''revoked'', JBool (truthy (ok_revoked_at k))), (''revoked_at'', str_opt (ok_revoked_at k)),
                    (''revoked_by_key_id'', str_opt (ok_revoked_by_key_id k)),
                    (''revocation_sig'', str_opt (ok_revocation_sig k)),
                    (''endorsed_by_key_id'', str_opt (ok_endorsed_by_key_id k)),
                    (''endorsement_sig'', str_opt (ok_endorsement_sig k))])
       (listOperatorKeys s fleetId)"

definition REVOCATION_MAX_SKEW_MS :: int where
  "REVOCATION_MAX_SKEW_MS = 5 * 60 * 1000"

definition assertAuthoritySurvives :: "store \<Rightarrow> string \<Rightarrow> string \<Rightarrow> string \<Rightarrow> key_error option" where
  "assertAuthoritySurvives s fleetId targetKeyId signerKeyId =
     (case agentPinnedRoots s fleetId of
        None \<Rightarrow> None
      | Some pinned \<Rightarrow>
          if targetKeyId \<in> set pinned \<and> length pinned = 1 then Some (Only_pinned_root targetKeyId)
          else if \<not> endorserIsTrusted s fleetId signerKeyId (Some targetKeyId)
          then Some (Trusted_only_through signerKeyId targetKeyId)
          else None)"

text \<open>
  The checks of \<^verbatim>\<open>revokeOperatorKey\<close> in their order, up to its transaction; the result is the unsigned
  tombstone the signature replaces, None for a live target.
\<close>

definition revocation_checks ::
  "env \<Rightarrow> string \<Rightarrow> string \<Rightarrow> string \<Rightarrow> string \<Rightarrow> string \<Rightarrow> store \<Rightarrow> key_error + string option" where
  "revocation_checks E fleetId targetKeyId revokedByKeyId revokedAt signature s =
     (case op_key s fleetId targetKeyId of
        None \<Rightarrow> Inl Key_not_found
      | Some target \<Rightarrow>
          let legacyRevokedAt =
                (if \<not> is_null (ok_revoked_at target) \<and> is_null (ok_revocation_sig target)
                 then ok_revoked_at target else None);
              live = select_all (\<lambda>k. ok_fleet_id k = fleetId \<and> is_null (ok_revoked_at k)) (fleet_operator_keys s)
          in if truthy (ok_revoked_at target) \<and> \<not> truthy legacyRevokedAt then Inl (Already_revoked targetKeyId)
          else if \<not> truthy legacyRevokedAt \<and> length live \<le> 1 then Inl (Only_live_key targetKeyId)
          else if revokedByKeyId = targetKeyId then Inl Cannot_revoke_itself
          else case op_key s fleetId revokedByKeyId of
            None \<Rightarrow> Inl (Signer_unknown revokedByKeyId)
          | Some signer \<Rightarrow>
              if truthy (ok_revoked_at signer) then Inl (Signer_revoked revokedByKeyId)
              else if \<not> endorserIsTrusted s fleetId revokedByKeyId None then Inl (Untrusted_signer revokedByKeyId)
              else case assertAuthoritySurvives s fleetId targetKeyId revokedByKeyId of
                Some e \<Rightarrow> Inl e
              | None \<Rightarrow>
                  if \<not> isCanonicalIsoTimestamp revokedAt then Inl Revoked_at_not_iso
                  else if \<bar>the (date_parse revokedAt) - now E\<bar> > REVOCATION_MAX_SKEW_MS then Inl Revoked_at_skewed
                  else if \<not> verifyCanonical (cryp E) (revocationPayload fleetId targetKeyId revokedAt) signature
                            (ok_public_key signer)
                  then Inl Invalid_revocation_signature
                  else Inr legacyRevokedAt)"

definition revokeOperatorKey ::
  "env \<Rightarrow> string \<Rightarrow> string \<Rightarrow> string \<Rightarrow> string \<Rightarrow> string \<Rightarrow> string option \<Rightarrow> string option \<Rightarrow> store
   \<Rightarrow> key_error + store" where
  "revokeOperatorKey E fleetId targetKeyId revokedByKeyId revokedAt signature actorOperatorId claimedActorKeyId s =
     (case revocation_checks E fleetId targetKeyId revokedByKeyId revokedAt signature s of
        Inl e \<Rightarrow> Inl e
      | Inr legacyRevokedAt \<Rightarrow>
          let p = (\<lambda>k. ok_fleet_id k = fleetId \<and> ok_key_id k = targetKeyId \<and>
                       (if truthy legacyRevokedAt
                        then ok_revoked_at k = legacyRevokedAt \<and> is_null (ok_revocation_sig k)
                        else is_null (ok_revoked_at k)))
          in if changes p (fleet_operator_keys s) \<noteq> 1 then Inl (Already_revoked targetKeyId)
             else
               let s1 = s\<lparr> fleet_operator_keys :=
                      update_where p (\<lambda>k. k\<lparr> ok_revoked_at := Some revokedAt,
                                             ok_revoked_by_key_id := Some revokedByKeyId,
                                             ok_revocation_sig := Some signature \<rparr>)
                        (fleet_operator_keys s) \<rparr>
               in Inr (recordEvent E fleetId ''operator_key.revoked'' ''operator''
                     (Some (case actorOperatorId of None \<Rightarrow> revokedByKeyId | Some a \<Rightarrow> a))
                     ''operator_key'' (Some targetKeyId) None
                     (JObj ([(''revoked_at'', JStr revokedAt), (''revoked_by_key_id'', JStr revokedByKeyId),
                             (''claimed_actor_key_id_unverified'', str_opt claimedActorKeyId)]
                            @ (if truthy legacyRevokedAt
                               then [(''legacy_resign'', JBool True),
                                     (''prior_unsigned_revoked_at'', str_opt legacyRevokedAt)]
                               else []))) s1))"

section \<open>Operations on agent identity keys\<close>

definition setAgentIdentityKey :: "env \<Rightarrow> string \<Rightarrow> string \<Rightarrow> string \<Rightarrow> store \<Rightarrow> string \<times> store" where
  "setAgentIdentityKey E agentId fleetId publicKey s =
     (let kid = keyId (cryp E) publicKey
      in (kid,
          if select_exists (\<lambda>k. ik_agent_id k = agentId \<and> ik_key_id k = kid) (agent_identity_keys s) then s
          else s\<lparr> agent_identity_keys := agent_identity_keys s @
                   [\<lparr> ik_agent_id = agentId, ik_fleet_id = fleetId, ik_key_id = kid, ik_public_key = publicKey,
                      ik_created_at = now E, ik_revoked_at = None, ik_endorsed_by_key_id = None,
                      ik_endorsement_sig = None, ik_endorsed_at = None \<rparr>] \<rparr>))"

definition agent_key_at :: "string \<Rightarrow> string \<Rightarrow> string \<Rightarrow> identity_key_row \<Rightarrow> bool" where
  "agent_key_at fleetId agentId kid k \<longleftrightarrow> ik_fleet_id k = fleetId \<and> ik_agent_id k = agentId \<and> ik_key_id k = kid"

definition endorseAgentKey ::
  "env \<Rightarrow> string \<Rightarrow> string \<Rightarrow> string \<Rightarrow> string \<Rightarrow> string \<Rightarrow> string option \<Rightarrow> store \<Rightarrow> key_error + bool \<times> store" where
  "endorseAgentKey E fleetId agentId targetKeyId endorsedByKeyId signature actorKeyId s =
     (case select_one (agent_key_at fleetId agentId targetKeyId) (agent_identity_keys s) of
        None \<Rightarrow> Inl Agent_key_not_found
      | Some row \<Rightarrow>
          case live_op_key s fleetId endorsedByKeyId of
            None \<Rightarrow> Inl Endorser_unknown_or_revoked
          | Some endorser \<Rightarrow>
              if \<not> endorserIsTrusted s fleetId endorsedByKeyId None then Inl (Untrusted_endorser endorsedByKeyId)
              else if \<not> verifyCanonical (cryp E)
                        (agentKeyEndorsementPayload fleetId agentId targetKeyId (ik_public_key row)) signature
                        (ok_public_key endorser)
              then Inl Invalid_agent_key_signature
              else
                let p = agent_key_at fleetId agentId targetKeyId;
                    n = changes p (agent_identity_keys s);
                    s1 = s\<lparr> agent_identity_keys :=
                           update_where p (\<lambda>k. k\<lparr> ik_endorsed_by_key_id := Some endorsedByKeyId,
                                                  ik_endorsement_sig := Some signature,
                                                  ik_endorsed_at := Some (now E) \<rparr>)
                             (agent_identity_keys s) \<rparr>
                in Inr (0 < n,
                     if 0 < n
                     then recordEvent E fleetId ''agent_key.endorsed'' ''operator''
                            (Some (case actorKeyId of None \<Rightarrow> endorsedByKeyId | Some a \<Rightarrow> a))
                            ''agent_key'' (Some targetKeyId) None
                            (JObj [(''agent_id'', JStr agentId), (''endorsed_by_key_id'', JStr endorsedByKeyId)]) s1
                     else s1))"

definition getAgentIdentityKeys :: "store \<Rightarrow> string \<Rightarrow> identity_key_row list" where
  "getAgentIdentityKeys s fleetId =
     select_all (\<lambda>k. ik_fleet_id k = fleetId \<and> is_null (ik_revoked_at k)) (agent_identity_keys s)"

section \<open>Walks up a chain\<close>

text \<open>
  What a walk with a walked-set decides: that from \<open>c\<close> a good hop is reached over live hops.  The
  relay has two such walks, the authority rule and the cycle check; the locale is what they share.
\<close>

inductive chained :: "('k \<Rightarrow> bool) \<Rightarrow> ('k \<Rightarrow> bool) \<Rightarrow> ('k \<Rightarrow> 'k option) \<Rightarrow> 'k \<Rightarrow> bool"
  for live good parent where
  chained_good: "live c \<Longrightarrow> good c \<Longrightarrow> chained live good parent c"
| chained_hop: "live c \<Longrightarrow> parent c = Some e \<Longrightarrow> chained live good parent e \<Longrightarrow> chained live good parent c"

inductive_cases chainedE: "chained live good parent c"

locale chain_walk =
  fixes live good :: "'k \<Rightarrow> bool" and parent :: "'k \<Rightarrow> 'k option" and walk :: "'k list \<Rightarrow> 'k option \<Rightarrow> bool"
  assumes walk_None: "walk W None = False"
    and walk_Some: "\<forall>w\<in>set W. \<not> good w \<Longrightarrow>
      walk W (Some c) = (if c \<in> set W \<or> \<not> live c then False else if good c then True else walk (c # W) (parent c))"
    and finite_live: "finite {c. live c}"
begin

definition closed :: "'k set \<Rightarrow> bool" where
  "closed S \<longleftrightarrow> (\<forall>w\<in>S. \<not> good w \<and> (\<forall>e. live w \<longrightarrow> parent w = Some e \<longrightarrow> e \<in> S))"

lemma closed_not_chained: "chained live good parent c \<Longrightarrow> closed S \<Longrightarrow> c \<notin> S"
  by (induction rule: chained.induct) (auto simp: closed_def)

lemma walk_sound: "\<forall>w\<in>set W. \<not> good w \<Longrightarrow> walk W (Some c) \<Longrightarrow> chained live good parent c"
proof (induction "card ({c. live c} - set W)" arbitrary: W c rule: less_induct)
  case less
  have c: "c \<notin> set W" "live c"
    using less.prems walk_Some [of W c] by (auto split: if_splits)
  show ?case
  proof (cases "good c")
    case True
    with c show ?thesis by (simp add: chained_good)
  next
    case False
    then have w: "walk (c # W) (parent c)"
      using less.prems walk_Some [of W c] c by simp
    then obtain e where e: "parent c = Some e"
      by (cases "parent c") (auto simp: walk_None)
    have "card ({c. live c} - set (c # W)) < card ({c. live c} - set W)"
      using c finite_live by (intro psubset_card_mono) auto
    then have "chained live good parent e"
      using less.hyps [of "c # W" e] less.prems(1) False w e by simp
    with c e show ?thesis by (simp add: chained_hop)
  qed
qed

lemma walk_complete:
  assumes "\<forall>w\<in>set W. \<not> good w \<and> (\<forall>e. parent w = Some e \<longrightarrow> e \<in> insert c (set W))"
    and "chained live good parent c"
  shows "walk W (Some c)"
  using assms
proof (induction "card ({c. live c} - set W)" arbitrary: W c rule: less_induct)
  case less
  have g: "\<forall>w\<in>set W. \<not> good w" using less.prems(1) by blast
  have l: "live c" using less.prems(2) by (auto elim: chainedE)
  have n: "c \<notin> set W"
  proof
    assume "c \<in> set W"
    then have "closed (set W)"
      using less.prems(1) by (auto simp: closed_def)
    from closed_not_chained [OF less.prems(2) this] \<open>c \<in> set W\<close> show False by simp
  qed
  show ?case
  proof (cases "good c")
    case True
    with l n show ?thesis by (simp add: walk_Some [OF g])
  next
    case False
    with less.prems(2) obtain e where e: "parent c = Some e" "chained live good parent e"
      by (auto elim: chainedE)
    have "card ({c. live c} - set (c # W)) < card ({c. live c} - set W)"
      using l n finite_live by (intro psubset_card_mono) auto
    then have "walk (c # W) (Some e)"
    proof (rule less.hyps)
      show "\<forall>w\<in>set (c # W). \<not> good w \<and> (\<forall>e'. parent w = Some e' \<longrightarrow> e' \<in> insert e (set (c # W)))"
        using less.prems(1) False e(1) by auto
      show "chained live good parent e" by (rule e(2))
    qed
    with l n False e(1) show ?thesis by (simp add: walk_Some [OF g])
  qed
qed

lemma walk_iff: "walk [] (Some c) \<longleftrightarrow> chained live good parent c"
  using walk_sound [of "[]" c] walk_complete [of "[]" c] by auto

end

section \<open>What the authority rule decides\<close>

definition hop_live :: "store \<Rightarrow> string \<Rightarrow> string option \<Rightarrow> string \<Rightarrow> bool" where
  "hop_live s f ex c \<longleftrightarrow>
     c \<noteq> [] \<and> (\<exists>r. op_key s f c = Some r \<and> \<not> truthy (ok_revoked_at r)) \<and> ex \<noteq> Some c"

definition hop_parent :: "store \<Rightarrow> string \<Rightarrow> string \<Rightarrow> string option" where
  "hop_parent s f c =
     (case op_key s f c of None \<Rightarrow> None
      | Some r \<Rightarrow> if truthy (ok_endorsed_by_key_id r) then ok_endorsed_by_key_id r else None)"

definition hop_good :: "store \<Rightarrow> string \<Rightarrow> string set \<Rightarrow> string \<Rightarrow> bool" where
  "hop_good s f roots c \<longleftrightarrow>
     c \<in> roots \<or> (\<exists>e. hop_parent s f c = Some e \<and> recoveredVia s f c e)"

lemma finite_keys: "finite {c. \<exists>r. op_key s f c = Some r}"
  by (rule finite_subset [of _ "ok_key_id ` set (fleet_operator_keys s)"]) (auto dest: op_key_Some)

interpretation tw: chain_walk "hop_live s f ex" "hop_good s f (set roots)" "hop_parent s f" "trust_walk s f roots ex"
  for s f roots ex
proof
  show "trust_walk s f roots ex W None = False" for W by simp
  show "trust_walk s f roots ex W (Some c) =
      (if c \<in> set W \<or> \<not> hop_live s f ex c then False
       else if hop_good s f (set roots) c then True else trust_walk s f roots ex (c # W) (hop_parent s f c))"
    if "\<forall>w\<in>set W. \<not> hop_good s f (set roots) w" for W c
    by (auto simp: hop_live_def hop_good_def hop_parent_def truthy_iff split: option.splits)
  show "finite {c. hop_live s f ex c}"
    by (rule finite_subset [OF _ finite_keys [of s f]]) (auto simp: hop_live_def)
qed

definition nc_live :: "store \<Rightarrow> string \<Rightarrow> string \<Rightarrow> string \<Rightarrow> bool" where
  "nc_live s f target c \<longleftrightarrow> c \<noteq> [] \<and> (c = target \<or> (\<exists>r. op_key s f c = Some r))"

lemma no_cycle_walk_falsy: "\<not> truthy v \<Longrightarrow> no_cycle_walk s f target W v"
  by (cases v) simp_all

interpretation nc: chain_walk "nc_live s f target" "\<lambda>c. c = target" "hop_parent s f"
  "\<lambda>W c. \<not> no_cycle_walk s f target W c"
  for s f target
proof
  show "(\<not> no_cycle_walk s f target W None) = False" for W by simp
  show "(\<not> no_cycle_walk s f target W (Some c)) =
      (if c \<in> set W \<or> \<not> nc_live s f target c then False
       else if c = target then True else \<not> no_cycle_walk s f target (c # W) (hop_parent s f c))"
    if "\<forall>w\<in>set W. w \<noteq> target" for W c
    using that by (auto simp: nc_live_def hop_parent_def no_cycle_walk_falsy split: option.splits)
  show "finite {c. nc_live s f target c}"
    by (rule finite_subset [of _ "insert target {c. \<exists>r. op_key s f c = Some r}"])
      (auto simp: nc_live_def finite_keys)
qed

definition endorsed_edges :: "store \<Rightarrow> string \<Rightarrow> (string \<times> string) set" where
  "endorsed_edges s f = {(c, e). hop_parent s f c = Some e}"

lemma hop_parent_Some: "hop_parent s f c = Some e \<longleftrightarrow>
    (\<exists>r. op_key s f c = Some r \<and> ok_endorsed_by_key_id r = Some e \<and> e \<noteq> [])"
  by (auto simp: hop_parent_def truthy_iff split: option.splits)

lemma chained_path:
  assumes "(c, target) \<in> (endorsed_edges s f)\<^sup>*" "c \<noteq> []" "target \<noteq> []"
  shows "chained (nc_live s f target) (\<lambda>c. c = target) (hop_parent s f) c"
  using assms
proof (induction rule: converse_rtrancl_induct)
  case base
  then show ?case by (simp add: chained_good nc_live_def)
next
  case (step c e)
  then have "hop_parent s f c = Some e" by (simp add: endorsed_edges_def)
  with step show ?case
    by (auto simp: hop_parent_Some nc_live_def intro: chained_hop)
qed

lemma no_cycle_walk_path:
  assumes "no_cycle_walk s f target [] (Some c)" "c \<noteq> []" "target \<noteq> []"
  shows "(c, target) \<notin> (endorsed_edges s f)\<^sup>*"
  using chained_path [OF _ assms(2,3)] nc.walk_iff [of s f target c] assms(1) by blast

text \<open>The keys agents pin, as a set.\<close>

definition pinned_set :: "store \<Rightarrow> string \<Rightarrow> string set" where
  "pinned_set s f = {e. \<exists>k\<in>set (agent_identity_keys s).
     ik_fleet_id k = f \<and> ik_revoked_at k = None \<and> ik_endorsed_by_key_id k = Some e \<and> e \<noteq> []}"

lemma agentPinnedRoots_set:
  "agentPinnedRoots s f = None \<longleftrightarrow> pinned_set s f = {}"
  "agentPinnedRoots s f = Some p \<Longrightarrow> set p = pinned_set s f \<and> distinct p"
proof -
  define es where "es = map ik_endorsed_by_key_id
    (select_all (\<lambda>k. ik_fleet_id k = f \<and> is_null (ik_revoked_at k)) (agent_identity_keys s))"
  have r: "agentPinnedRoots s f =
      (if list_all (\<lambda>e. \<not> truthy e) es then None else Some (remdups (map the (filter truthy es))))"
    by (simp add: agentPinnedRoots_def Let_def es_def)
  have p: "pinned_set s f = the ` set (filter truthy es)"
  proof (intro set_eqI iffI)
    fix e
    assume "e \<in> pinned_set s f"
    then have "Some e \<in> set (filter truthy es)"
      by (auto simp: pinned_set_def es_def select_all_def image_iff intro!: bexI)
    then show "e \<in> the ` set (filter truthy es)" by (metis image_eqI option.sel)
  next
    fix e
    assume "e \<in> the ` set (filter truthy es)"
    then show "e \<in> pinned_set s f" by (auto simp: pinned_set_def es_def select_all_def truthy_iff)
  qed
  show "agentPinnedRoots s f = None \<longleftrightarrow> pinned_set s f = {}"
    by (auto simp: r p list_all_iff)
  show "agentPinnedRoots s f = Some p \<Longrightarrow> set p = pinned_set s f \<and> distinct p"
    by (auto simp: r p split: if_splits)
qed

lemma trusted_iff:
  "endorserIsTrusted s f c ex \<longleftrightarrow>
     pinned_set s f = {} \<or>
     chained (hop_live s f ex) (hop_good s f (if truthy ex then pinned_set s f - {the ex} else pinned_set s f))
       (hop_parent s f) c"
proof (cases "agentPinnedRoots s f")
  case None
  with agentPinnedRoots_set(1) [of s f] show ?thesis by (simp add: endorserIsTrusted_def)
next
  case (Some p)
  then have "set p = pinned_set s f" "pinned_set s f \<noteq> {}"
    using agentPinnedRoots_set [of s f] by auto
  with Some show ?thesis
    by (simp add: endorserIsTrusted_def Let_def tw.walk_iff del: trust_walk.simps)
qed

lemma mayEndorse_iff:
  "operatorKeyMayEndorse s f c \<longleftrightarrow>
     (\<exists>r. op_key s f c = Some r \<and> \<not> truthy (ok_revoked_at r)) \<and>
     (pinned_set s f = {} \<or> chained (hop_live s f None) (hop_good s f (pinned_set s f)) (hop_parent s f) c)"
  by (auto simp: operatorKeyMayEndorse_def trusted_iff split: option.splits)

section \<open>Runs of key operations\<close>

text \<open>
  One operation of the relay as the key tables see it.  \<open>Other\<close> is any operation that leaves the three
  tables alone.  The cryptography is the same throughout a run.
\<close>

inductive key_step :: "crypto \<Rightarrow> store \<Rightarrow> store \<Rightarrow> bool" for C where
  Register: "cryp E = C \<Longrightarrow> registerOperatorKey E f pk label endorsement actor s = Inr (kid, t) \<Longrightarrow> key_step C s t"
| Endorse: "cryp E = C \<Longrightarrow> endorseOperatorKey E f target endorser sig actor s = Inr t \<Longrightarrow> key_step C s t"
| Revoke: "cryp E = C \<Longrightarrow> revokeOperatorKey E f target signer at sig actor claimed s = Inr t \<Longrightarrow> key_step C s t"
| Arm: "cryp E = C \<Longrightarrow> createOperatorRecoveryGrant E f endorser target confirmed ttl s = Inr (g, t) \<Longrightarrow> key_step C s t"
| Cancel: "cryp E = C \<Longrightarrow> cancelOperatorRecoveryGrant E f gid s = (b, t) \<Longrightarrow> key_step C s t"
| Set_agent_key: "cryp E = C \<Longrightarrow> setAgentIdentityKey E a f pk s = (kid, t) \<Longrightarrow> key_step C s t"
| Endorse_agent_key: "cryp E = C \<Longrightarrow> endorseAgentKey E f a kid endorser sig actor s = Inr (b, t) \<Longrightarrow> key_step C s t"
| Other: "fleet_operator_keys t = fleet_operator_keys s \<Longrightarrow> operator_recovery_grants t = operator_recovery_grants s
    \<Longrightarrow> agent_identity_keys t = agent_identity_keys s \<Longrightarrow> key_step C s t"

text \<open>What each operation does to the tables when it succeeds.\<close>

lemma registerOperatorKey_effect:
  assumes "registerOperatorKey E f pk label endorsement actor s = Inr (kid, t)"
  shows "kid = keyId (cryp E) pk" "op_key s f kid = None"
    "operator_recovery_grants t = operator_recovery_grants s" "agent_identity_keys t = agent_identity_keys s"
    "\<exists>row. fleet_operator_keys t = fleet_operator_keys s @ [row] \<and> ok_fleet_id row = f \<and> ok_key_id row = kid
       \<and> ok_public_key row = pk \<and> ok_revoked_at row = None \<and> ok_revoked_by_key_id row = None
       \<and> ok_revocation_sig row = None
       \<and> ok_endorsed_by_key_id row = map_option fst endorsement \<and> ok_endorsement_sig row = map_option snd endorsement"
    "\<forall>e sig. endorsement = Some (e, sig) \<longrightarrow> endorserIsTrusted s f e None \<and>
       (\<exists>k. live_op_key s f e = Some k \<and> verifyCanonical (cryp E) (endorsementPayload f kid pk) sig (ok_public_key k))"
  using assms
  by (auto simp: registerOperatorKey_def Let_def op_key_def select_exists_iff select_one_None
      split: option.splits if_splits prod.splits)

lemma spendGrant_effect:
  assumes "spendGrant E grant s = Inr s1"
  shows "fleet_operator_keys s1 = fleet_operator_keys s" "agent_identity_keys s1 = agent_identity_keys s"
    "case grant of None \<Rightarrow> s1 = s
     | Some g \<Rightarrow> let p = (\<lambda>r. gr_id r = gr_id g \<and> is_null (gr_consumed_at r) \<and> is_null (gr_cancelled_at r)
                         \<and> now E < gr_expires_at r)
                in changes p (operator_recovery_grants s) = 1 \<and>
                   operator_recovery_grants s1 =
                     update_where p (\<lambda>r. r\<lparr> gr_consumed_at := Some (now E) \<rparr>) (operator_recovery_grants s)"
  using assms by (auto simp: spendGrant_def Let_def split: option.splits if_splits)

lemma requireRecoveryGrant_Inr:
  assumes "requireRecoveryGrant s f e t target n = Inr g"
  shows "g \<in> set (operator_recovery_grants s)" "gr_fleet_id g = f" "gr_endorser_key_id g = e"
    "gr_target_key_id g = t" "gr_consumed_at g = None" "gr_cancelled_at g = None" "n < gr_expires_at g"
    "\<not> truthy (ok_endorsed_by_key_id target)"
  using assms
  by (auto simp: requireRecoveryGrant_def select_all_def split: option.splits if_splits dest!: head_option_Some)

definition grant_used :: "store \<Rightarrow> string \<Rightarrow> string \<Rightarrow> string \<Rightarrow> int \<Rightarrow> operator_key_row \<Rightarrow> grant_row option \<Rightarrow> bool" where
  "grant_used s f endorser target n row grant \<longleftrightarrow>
     (case grant of None \<Rightarrow> endorserIsTrusted s f endorser None
      | Some g \<Rightarrow> \<not> endorserIsTrusted s f endorser None
                  \<and> requireRecoveryGrant s f endorser target row n = Inr g)"

lemma endorseOperatorKey_effect:
  assumes "endorseOperatorKey E f target endorser sig actor s = Inr t"
  obtains row erow grant s1 where "endorser \<noteq> target" "op_key s f target = Some row" "\<not> truthy (ok_revoked_at row)"
    "live_op_key s f endorser = Some erow" "grant_used s f endorser target (now E) row grant"
    "no_cycle_walk s f target [] (Some endorser)"
    "verifyCanonical (cryp E) (endorsementPayload f target (ok_public_key row)) sig (ok_public_key erow)"
    "spendGrant E grant s = Inr s1" "agent_identity_keys t = agent_identity_keys s"
    "operator_recovery_grants t = operator_recovery_grants s1"
    "fleet_operator_keys t = update_where (\<lambda>k. ok_fleet_id k = f \<and> ok_key_id k = target)
        (\<lambda>k. k\<lparr> ok_endorsed_by_key_id := Some endorser, ok_endorsement_sig := Some sig \<rparr>) (fleet_operator_keys s)"
proof -
  from assms obtain row erow grant s1 where a: "endorser \<noteq> target" "op_key s f target = Some row"
    "\<not> truthy (ok_revoked_at row)" "live_op_key s f endorser = Some erow"
    "(if endorserIsTrusted s f endorser None then Inr None
      else map_sum id Some (requireRecoveryGrant s f endorser target row (now E))) = Inr grant"
    "assertNoEndorsementCycle s f target endorser = None"
    "verifyCanonical (cryp E) (endorsementPayload f target (ok_public_key row)) sig (ok_public_key erow)"
    and sp: "spendGrant E grant s = Inr s1"
    and t: "agent_identity_keys t = agent_identity_keys s1" "operator_recovery_grants t = operator_recovery_grants s1"
    "fleet_operator_keys t = update_where (\<lambda>k. ok_fleet_id k = f \<and> ok_key_id k = target)
        (\<lambda>k. k\<lparr> ok_endorsed_by_key_id := Some endorser, ok_endorsement_sig := Some sig \<rparr>) (fleet_operator_keys s1)"
    unfolding endorseOperatorKey_def Let_def
    by (auto split: option.splits if_splits sum.splits)
  have "grant_used s f endorser target (now E) row grant"
    using a(5) by (cases "requireRecoveryGrant s f endorser target row (now E)")
      (auto simp: grant_used_def split: if_splits)
  moreover have "no_cycle_walk s f target [] (Some endorser)"
    using a(6) by (simp add: assertNoEndorsementCycle_def del: no_cycle_walk.simps split: if_splits)
  ultimately show ?thesis
    using that a(1-4,7) sp t spendGrant_effect [OF sp] by simp
qed

lemma revocation_checks_effect:
  assumes "revocation_checks E f target signer at sig s = Inr legacy"
  obtains row srow where "op_key s f target = Some row" "signer \<noteq> target" "op_key s f signer = Some srow"
    "\<not> truthy (ok_revoked_at srow)" "endorserIsTrusted s f signer None"
    "agentPinnedRoots s f = None \<or> endorserIsTrusted s f signer (Some target)"
    "isCanonicalIsoTimestamp at" "\<bar>the (date_parse at) - now E\<bar> \<le> REVOCATION_MAX_SKEW_MS"
    "verifyCanonical (cryp E) (revocationPayload f target at) sig (ok_public_key srow)"
    "\<not> truthy (ok_revoked_at row) \<or> ok_revocation_sig row = None"
    "legacy = (if ok_revoked_at row \<noteq> None \<and> ok_revocation_sig row = None then ok_revoked_at row else None)"
  using assms
  by (auto simp: revocation_checks_def assertAuthoritySurvives_def Let_def not_less
      split: option.splits if_splits)

lemma revokeOperatorKey_effect:
  assumes "revokeOperatorKey E f target signer at sig actor claimed s = Inr t"
  obtains legacy where "revocation_checks E f target signer at sig s = Inr legacy"
    "agent_identity_keys t = agent_identity_keys s" "operator_recovery_grants t = operator_recovery_grants s"
    "let p = (\<lambda>k. ok_fleet_id k = f \<and> ok_key_id k = target \<and>
               (if truthy legacy then ok_revoked_at k = legacy \<and> is_null (ok_revocation_sig k) else is_null (ok_revoked_at k)))
     in changes p (fleet_operator_keys s) = 1 \<and> fleet_operator_keys t =
          update_where p (\<lambda>k. k\<lparr> ok_revoked_at := Some at, ok_revoked_by_key_id := Some signer,
                                 ok_revocation_sig := Some sig \<rparr>) (fleet_operator_keys s)"
  using assms by (auto simp: revokeOperatorKey_def Let_def split: sum.splits if_splits)

lemma createOperatorRecoveryGrant_effect:
  assumes "createOperatorRecoveryGrant E f endorser target confirmed ttl s = Inr (g, t)"
  shows "agent_identity_keys t = agent_identity_keys s" "fleet_operator_keys t = fleet_operator_keys s"
    "operator_recovery_grants t = operator_recovery_grants s @ [g]" "gr_consumed_at g = None" "gr_fleet_id g = f"
    "gr_id g = mk_id E ''rcg'' (draws s)" "now E < gr_expires_at g" "gr_expires_at g \<le> now E + 120 * 60000"
    "\<forall>g'\<in>set (operator_recovery_grants s). \<not> armed f (now E) g'"
  using assms
  by (auto simp: createOperatorRecoveryGrant_def Let_def RECOVERY_GRANT_MAX_TTL_MINUTES_def select_one_None
      RECOVERY_GRANT_DEFAULT_TTL_MINUTES_def split: option.splits if_splits)

lemma cancelOperatorRecoveryGrant_effect:
  assumes "cancelOperatorRecoveryGrant E f gid s = (b, t)"
  shows "agent_identity_keys t = agent_identity_keys s" "fleet_operator_keys t = fleet_operator_keys s"
    "operator_recovery_grants t =
       update_where (\<lambda>g. gr_fleet_id g = f \<and> gr_id g = gid \<and> is_null (gr_consumed_at g) \<and> is_null (gr_cancelled_at g))
         (\<lambda>g. g\<lparr> gr_cancelled_at := Some (now E) \<rparr>) (operator_recovery_grants s)"
  using assms by (auto simp: cancelOperatorRecoveryGrant_def Let_def split: if_splits)

lemma setAgentIdentityKey_effect:
  assumes "setAgentIdentityKey E a f pk s = (kid, t)"
  shows "operator_recovery_grants t = operator_recovery_grants s" "fleet_operator_keys t = fleet_operator_keys s"
    "agent_identity_keys t = agent_identity_keys s \<or>
     (\<exists>row. agent_identity_keys t = agent_identity_keys s @ [row] \<and> ik_endorsed_by_key_id row = None)"
  using assms by (auto simp: setAgentIdentityKey_def Let_def split: if_splits)

lemma endorseAgentKey_effect:
  assumes "endorseAgentKey E f a kid endorser sig actor s = Inr (b, t)"
  obtains row erow where "select_one (agent_key_at f a kid) (agent_identity_keys s) = Some row"
    "live_op_key s f endorser = Some erow" "endorserIsTrusted s f endorser None"
    "verifyCanonical (cryp E) (agentKeyEndorsementPayload f a kid (ik_public_key row)) sig (ok_public_key erow)"
    "operator_recovery_grants t = operator_recovery_grants s" "fleet_operator_keys t = fleet_operator_keys s"
    "agent_identity_keys t = update_where (agent_key_at f a kid)
        (\<lambda>k. k\<lparr> ik_endorsed_by_key_id := Some endorser, ik_endorsement_sig := Some sig, ik_endorsed_at := Some (now E) \<rparr>)
        (agent_identity_keys s)"
  using assms by (auto simp: endorseAgentKey_def Let_def split: option.splits if_splits)

section \<open>Views of the key table\<close>

definition key_pk :: "store \<Rightarrow> bool" where
  "key_pk s \<longleftrightarrow> distinct (map (\<lambda>k. (ok_fleet_id k, ok_key_id k)) (fleet_operator_keys s))
     \<and> distinct (map (\<lambda>k. (ik_agent_id k, ik_key_id k)) (agent_identity_keys s))"

lemma op_key_row:
  assumes "key_pk s" "k \<in> set (fleet_operator_keys s)"
  shows "op_key s (ok_fleet_id k) (ok_key_id k) = Some k"
  using select_one_unique [OF _ assms(2), of "\<lambda>k. (ok_fleet_id k, ok_key_id k)"] assms(1)
  by (simp add: key_pk_def op_key_def)

lemma live_op_key_Some:
  assumes "key_pk s" "live_op_key s f c = Some k"
  shows "op_key s f c = Some k" "ok_revoked_at k = None"
proof -
  have "k \<in> set (fleet_operator_keys s)" "ok_fleet_id k = f" "ok_key_id k = c" "ok_revoked_at k = None"
    using assms(2) by (auto simp: live_op_key_def dest!: select_one_Some)
  with op_key_row [OF assms(1)] show "op_key s f c = Some k" "ok_revoked_at k = None" by auto
qed

text \<open>One row of the key table written: a key added, or one that was there changed.\<close>

definition key_set :: "store \<Rightarrow> store \<Rightarrow> string \<Rightarrow> string \<Rightarrow> operator_key_row \<Rightarrow> bool" where
  "key_set s t f k row \<longleftrightarrow> (\<forall>f' c. op_key t f' c = (if f' = f \<and> c = k then Some row else op_key s f' c))"

lemma key_set_append:
  assumes "op_key s f k = None" "fleet_operator_keys t = fleet_operator_keys s @ [row]"
    "ok_fleet_id row = f" "ok_key_id row = k"
  shows "key_set s t f k row"
  using assms by (auto simp: key_set_def op_key_def select_one_append select_one_single split: option.splits)

lemma key_set_update:
  assumes "op_key s f k = Some row" "p row"
    and "\<And>r. p r \<Longrightarrow> ok_fleet_id r = f \<and> ok_key_id r = k"
    and "\<And>r. ok_fleet_id (u r) = ok_fleet_id r \<and> ok_key_id (u r) = ok_key_id r"
    and "fleet_operator_keys t = update_where p u (fleet_operator_keys s)"
  shows "key_set s t f k (u row)"
proof -
  have "op_key t f' c = map_option (\<lambda>r. if p r then u r else r) (op_key s f' c)" for f' c
    unfolding op_key_def assms(5) by (rule select_one_update) (simp add: assms(4))
  moreover have "\<not> p r" if "op_key s f' c = Some r" "f' \<noteq> f \<or> c \<noteq> k" for f' c r
    using that assms(3) [of r] by (auto dest: op_key_Some)
  ultimately show ?thesis
    using assms(1,2) by (fastforce simp: key_set_def map_option_case split: option.splits)
qed

lemma Endorse_view:
  assumes "endorseOperatorKey E f target endorser sig actor s = Inr t" "op_key s f target = Some row"
  shows "key_set s t f target (row\<lparr> ok_endorsed_by_key_id := Some endorser, ok_endorsement_sig := Some sig \<rparr>)"
  using assms(1)
proof (rule endorseOperatorKey_effect)
  fix row' erow grant s1
  assume "fleet_operator_keys t = update_where (\<lambda>k. ok_fleet_id k = f \<and> ok_key_id k = target)
        (\<lambda>k. k\<lparr> ok_endorsed_by_key_id := Some endorser, ok_endorsement_sig := Some sig \<rparr>) (fleet_operator_keys s)"
  with assms(2) show ?thesis
    by (intro key_set_update [of _ _ _ _ "\<lambda>k. ok_fleet_id k = f \<and> ok_key_id k = target"])
      (auto dest: op_key_Some)
qed

lemma Revoke_view:
  assumes "key_pk s" "revokeOperatorKey E f target signer at sig actor claimed s = Inr t" "op_key s f target = Some row"
  shows "key_set s t f target
    (row\<lparr> ok_revoked_at := Some at, ok_revoked_by_key_id := Some signer, ok_revocation_sig := Some sig \<rparr>)"
    "ok_revoked_at row = None \<or> ok_revocation_sig row = None"
proof -
  from assms(2) obtain legacy p where c: "changes p (fleet_operator_keys s) = 1"
    and p: "p = (\<lambda>k. ok_fleet_id k = f \<and> ok_key_id k = target \<and>
               (if truthy legacy then ok_revoked_at k = legacy \<and> is_null (ok_revocation_sig k) else is_null (ok_revoked_at k)))"
    and u: "fleet_operator_keys t = update_where p (\<lambda>k. k\<lparr> ok_revoked_at := Some at,
        ok_revoked_by_key_id := Some signer, ok_revocation_sig := Some sig \<rparr>) (fleet_operator_keys s)"
    by (rule revokeOperatorKey_effect) (auto simp: Let_def)
  from c obtain k where k: "k \<in> set (fleet_operator_keys s)" "p k"
    using changes_pos [of p "fleet_operator_keys s"] by auto
  then have "k = row" using op_key_row [OF assms(1) k(1)] assms(3) by (simp add: p)
  then have "p row" using k(2) by simp
  then show "ok_revoked_at row = None \<or> ok_revocation_sig row = None" by (auto simp: p split: if_splits)
  from \<open>p row\<close> assms(3) u show "key_set s t f target
    (row\<lparr> ok_revoked_at := Some at, ok_revoked_by_key_id := Some signer, ok_revocation_sig := Some sig \<rparr>)"
    by (intro key_set_update [of _ _ _ _ p]) (auto simp: p)
qed

lemma Register_view:
  assumes "registerOperatorKey E f pk label endorsement actor s = Inr (kid, t)"
  obtains row where "key_set s t f kid row" "ok_public_key row = pk" "ok_revoked_at row = None"
    "ok_endorsed_by_key_id row = map_option fst endorsement" "ok_endorsement_sig row = map_option snd endorsement"
  using registerOperatorKey_effect [OF assms] by (auto intro: key_set_append)

lemma same_table_view: "fleet_operator_keys t = fleet_operator_keys s \<Longrightarrow> op_key t = op_key s"
  by (simp add: op_key_def fun_eq_iff)

text \<open>Every step keeps the primary keys.\<close>

lemma key_pk_step:
  assumes "key_pk s" "key_step C s t"
  shows "key_pk t"
  using assms(2)
proof (cases rule: key_step.cases)
  case (Register E f pk label endorsement actor kid)
  note e = registerOperatorKey_effect [OF Register(2)]
  obtain row where row: "fleet_operator_keys t = fleet_operator_keys s @ [row]" "ok_fleet_id row = f" "ok_key_id row = kid"
    using e(5) by blast
  have "(f, kid) \<notin> (\<lambda>k. (ok_fleet_id k, ok_key_id k)) ` set (fleet_operator_keys s)"
    using e(2) by (auto simp: op_key_def select_one_None)
  with row e(4) assms(1) show ?thesis by (auto simp: key_pk_def)
next
  case (Endorse E f target endorser sig actor)
  from Endorse(2) show ?thesis
    by (rule endorseOperatorKey_effect) (use assms(1) in \<open>simp add: key_pk_def\<close>)
next
  case (Revoke E f target signer at sig actor claimed)
  from Revoke(2) show ?thesis
    by (rule revokeOperatorKey_effect) (use assms(1) in \<open>simp add: key_pk_def Let_def\<close>)
next
  case (Set_agent_key E a f pk kid)
  have "(a, kid) \<notin> (\<lambda>k. (ik_agent_id k, ik_key_id k)) ` set (agent_identity_keys s)"
    if "agent_identity_keys t \<noteq> agent_identity_keys s"
    using that Set_agent_key(2)
    by (auto simp: setAgentIdentityKey_def Let_def select_exists_iff split: if_splits)
  with Set_agent_key(2) assms(1) show ?thesis
    by (auto simp: setAgentIdentityKey_def Let_def key_pk_def select_exists_iff split: if_splits)
next
  case (Endorse_agent_key E f a kid endorser sig actor b)
  from Endorse_agent_key(2) show ?thesis
    by (rule endorseAgentKey_effect) (use assms(1) in \<open>simp add: key_pk_def\<close>)
qed (use assms(1) in \<open>auto simp: key_pk_def dest: createOperatorRecoveryGrant_effect(1,2)
      cancelOperatorRecoveryGrant_effect(1,2)\<close>)

text \<open>
  A case distinction on a step in terms of the views: a key added, endorsed or revoked, an agent key
  set or endorsed, or none of these.
\<close>

lemma key_step_grants_mono:
  assumes "key_step C s t" "recoveredVia s f c e"
  shows "recoveredVia t f c e"
  using assms(1)
proof (cases rule: key_step.cases)
  case (Endorse E f target endorser sig actor)
  from Endorse(2) obtain grant s1 where g: "spendGrant E grant s = Inr s1"
    "operator_recovery_grants t = operator_recovery_grants s1"
    by (rule endorseOperatorKey_effect) blast
  with spendGrant_effect(3) [OF g(1)] assms(2) show ?thesis
    by (cases grant) (auto simp: Let_def recoveredVia_def intro!: select_exists_update)
next
  case (Cancel E f gid b)
  with cancelOperatorRecoveryGrant_effect [OF Cancel(2)] assms(2) show ?thesis
    by (auto simp: recoveredVia_def intro!: select_exists_update)
next
  case (Register E f pk label endorsement actor kid)
  with registerOperatorKey_effect(3) [OF Register(2)] assms(2) show ?thesis by (simp add: recoveredVia_def)
next
  case (Arm E f endorser target confirmed ttl g)
  with createOperatorRecoveryGrant_effect(3) [OF Arm(2)] assms(2) show ?thesis
    by (auto simp: recoveredVia_def select_exists_iff)
next
  case (Set_agent_key E a f pk kid)
  with setAgentIdentityKey_effect(1) [OF Set_agent_key(2)] assms(2) show ?thesis by (simp add: recoveredVia_def)
qed (use assms(2) in \<open>auto simp: recoveredVia_def elim!: revokeOperatorKey_effect endorseAgentKey_effect\<close>)

section \<open>Every served signature verifies\<close>

definition endorsement_ok :: "crypto \<Rightarrow> store \<Rightarrow> string \<Rightarrow> operator_key_row \<Rightarrow> bool" where
  "endorsement_ok C s f r \<longleftrightarrow>
     (\<forall>e. ok_endorsed_by_key_id r = Some e \<longrightarrow>
       (\<exists>er sig. op_key s f e = Some er \<and> ok_endorsement_sig r = Some sig
          \<and> verifyCanonical C (endorsementPayload f (ok_key_id r) (ok_public_key r)) sig (ok_public_key er)))"

definition revocation_ok :: "crypto \<Rightarrow> store \<Rightarrow> string \<Rightarrow> operator_key_row \<Rightarrow> bool" where
  "revocation_ok C s f r \<longleftrightarrow>
     (\<forall>at. ok_revoked_at r = Some at \<longrightarrow>
       isCanonicalIsoTimestamp at \<and>
       (\<exists>e er sig. ok_revoked_by_key_id r = Some e \<and> op_key s f e = Some er \<and> ok_revocation_sig r = Some sig
          \<and> verifyCanonical C (revocationPayload f (ok_key_id r) at) sig (ok_public_key er)))"

definition agent_endorsement_ok :: "crypto \<Rightarrow> store \<Rightarrow> identity_key_row \<Rightarrow> bool" where
  "agent_endorsement_ok C s k \<longleftrightarrow>
     (\<forall>e. ik_endorsed_by_key_id k = Some e \<longrightarrow>
       (\<exists>er sig. op_key s (ik_fleet_id k) e = Some er \<and> ik_endorsement_sig k = Some sig
          \<and> verifyCanonical C (agentKeyEndorsementPayload (ik_fleet_id k) (ik_agent_id k) (ik_key_id k) (ik_public_key k))
              sig (ok_public_key er)))"

definition signatures_ok :: "crypto \<Rightarrow> store \<Rightarrow> bool" where
  "signatures_ok C s \<longleftrightarrow>
     (\<forall>f c r. op_key s f c = Some r \<longrightarrow> endorsement_ok C s f r \<and> revocation_ok C s f r)
     \<and> (\<forall>k\<in>set (agent_identity_keys s). agent_endorsement_ok C s k)"

text \<open>Rows keep their public keys, so what verified once verifies later.\<close>

definition keys_extend :: "store \<Rightarrow> store \<Rightarrow> bool" where
  "keys_extend s t \<longleftrightarrow>
     (\<forall>f c r. op_key s f c = Some r \<longrightarrow> (\<exists>r'. op_key t f c = Some r' \<and> ok_public_key r' = ok_public_key r))"

lemma keys_extend_ok:
  assumes "keys_extend s t"
  shows "endorsement_ok C s f r \<Longrightarrow> endorsement_ok C t f r"
    "revocation_ok C s f r \<Longrightarrow> revocation_ok C t f r"
    "agent_endorsement_ok C s k \<Longrightarrow> agent_endorsement_ok C t k"
  using assms unfolding endorsement_ok_def revocation_ok_def agent_endorsement_ok_def keys_extend_def
  by metis+

lemma key_set_extend:
  assumes "key_set s t f k row" "\<And>r. op_key s f k = Some r \<Longrightarrow> ok_public_key row = ok_public_key r"
  shows "keys_extend s t"
  using assms by (auto simp: key_set_def keys_extend_def)

lemma signatures_key_set:
  assumes "signatures_ok C s" "key_set s t f k row" "agent_identity_keys t = agent_identity_keys s"
    and "\<And>r. op_key s f k = Some r \<Longrightarrow> ok_public_key row = ok_public_key r"
    and "endorsement_ok C t f row" "revocation_ok C t f row"
  shows "signatures_ok C t"
proof -
  have "keys_extend s t" using assms(2,4) by (rule key_set_extend)
  from keys_extend_ok [OF this] assms show ?thesis
    by (auto simp: signatures_ok_def key_set_def)
qed

lemma signatures_same_keys:
  assumes "signatures_ok C s" "fleet_operator_keys t = fleet_operator_keys s"
    and "\<And>k. k \<in> set (agent_identity_keys t) \<Longrightarrow> agent_endorsement_ok C s k"
  shows "signatures_ok C t"
  using assms(1,3) same_table_view [OF assms(2)]
  by (simp add: signatures_ok_def endorsement_ok_def revocation_ok_def agent_endorsement_ok_def)

lemma signatures_unchanged:
  assumes "signatures_ok C s" "fleet_operator_keys t = fleet_operator_keys s"
    "agent_identity_keys t = agent_identity_keys s"
  shows "signatures_ok C t"
  using assms(1,3) by (intro signatures_same_keys [OF assms(1,2)]) (simp add: signatures_ok_def)

lemma signatures_step:
  assumes "key_pk s" "signatures_ok C s" "key_step C s t"
  shows "signatures_ok C t"
  using assms(3)
proof (cases rule: key_step.cases)
  case (Register E f pk label endorsement actor kid)
  note e = registerOperatorKey_effect [OF Register(2)]
  from Register(2) obtain row where row: "key_set s t f kid row" "ok_public_key row = pk" "ok_revoked_at row = None"
    "ok_endorsed_by_key_id row = map_option fst endorsement" "ok_endorsement_sig row = map_option snd endorsement"
    by (rule Register_view)
  have ext: "keys_extend s t" using row(1) e(2) by (intro key_set_extend) auto
  have "ok_key_id row = kid" using row(1) op_key_Some [of t f kid row] by (simp add: key_set_def)
  then have "endorsement_ok C s f row"
    using row e(6) Register(1) live_op_key_Some(1) [OF assms(1)] by (fastforce simp: endorsement_ok_def)
  then show ?thesis
    using signatures_key_set [OF assms(2) row(1) e(4)] e(2) row(3) keys_extend_ok(1) [OF ext]
    by (simp add: revocation_ok_def)
next
  case (Endorse E f target endorser sig actor)
  from Endorse(2) obtain row erow where e: "op_key s f target = Some row" "live_op_key s f endorser = Some erow"
    "verifyCanonical (cryp E) (endorsementPayload f target (ok_public_key row)) sig (ok_public_key erow)"
    "agent_identity_keys t = agent_identity_keys s"
    by (rule endorseOperatorKey_effect)
  note v = Endorse_view [OF Endorse(2) e(1)]
  have ext: "keys_extend s t" using v e(1) by (intro key_set_extend) auto
  have "revocation_ok C s f row" using assms(2) e(1) by (simp add: signatures_ok_def)
  then have "revocation_ok C s f (row\<lparr>ok_endorsed_by_key_id := Some endorser, ok_endorsement_sig := Some sig\<rparr>)"
    by (simp add: revocation_ok_def)
  moreover have "endorsement_ok C s f (row\<lparr>ok_endorsed_by_key_id := Some endorser, ok_endorsement_sig := Some sig\<rparr>)"
    using live_op_key_Some [OF assms(1) e(2)] e(3) op_key_Some [OF e(1)] Endorse(1) by (simp add: endorsement_ok_def)
  ultimately show ?thesis
    using signatures_key_set [OF assms(2) v e(4)] e(1) keys_extend_ok [OF ext] by simp
next
  case (Revoke E f target signer at sig actor claimed)
  from Revoke(2) obtain legacy where c: "revocation_checks E f target signer at sig s = Inr legacy"
    "agent_identity_keys t = agent_identity_keys s"
    by (rule revokeOperatorKey_effect)
  from c(1) obtain row srow where e: "op_key s f target = Some row" "op_key s f signer = Some srow"
    "isCanonicalIsoTimestamp at" "verifyCanonical (cryp E) (revocationPayload f target at) sig (ok_public_key srow)"
    by (rule revocation_checks_effect)
  note v = Revoke_view(1) [OF assms(1) Revoke(2) e(1)]
  let ?row = "row\<lparr>ok_revoked_at := Some at, ok_revoked_by_key_id := Some signer, ok_revocation_sig := Some sig\<rparr>"
  have ext: "keys_extend s t" using v e(1) by (intro key_set_extend) auto
  have "endorsement_ok C s f row" using assms(2) e(1) by (simp add: signatures_ok_def)
  then have "endorsement_ok C s f ?row" by (simp add: endorsement_ok_def)
  moreover have "revocation_ok C s f ?row"
    using e op_key_Some [OF e(1)] Revoke(1) by (simp add: revocation_ok_def)
  ultimately show ?thesis
    using signatures_key_set [OF assms(2) v c(2)] e(1) keys_extend_ok [OF ext] by simp
next
  case (Endorse_agent_key E f a kid endorser sig actor b)
  from Endorse_agent_key(2) obtain row erow where
    e: "select_one (agent_key_at f a kid) (agent_identity_keys s) = Some row" "live_op_key s f endorser = Some erow"
    "verifyCanonical (cryp E) (agentKeyEndorsementPayload f a kid (ik_public_key row)) sig (ok_public_key erow)"
    and t: "fleet_operator_keys t = fleet_operator_keys s"
    "agent_identity_keys t = update_where (agent_key_at f a kid)
        (\<lambda>k. k\<lparr> ik_endorsed_by_key_id := Some endorser, ik_endorsement_sig := Some sig, ik_endorsed_at := Some (now E) \<rparr>)
        (agent_identity_keys s)"
    by (rule endorseAgentKey_effect)
  have u: "k = row" if "k \<in> set (agent_identity_keys s)" "agent_key_at f a kid k" for k
  proof -
    have "row \<in> set (agent_identity_keys s)" "agent_key_at f a kid row" using e(1) by (auto dest: select_one_Some)
    with that assms(1) show ?thesis
      by (auto simp: key_pk_def distinct_map agent_key_at_def dest: inj_onD)
  qed
  have "agent_endorsement_ok C s k" if k: "k \<in> set (agent_identity_keys t)" for k
  proof (cases "k \<in> set (agent_identity_keys s)")
    case True
    with assms(2) show ?thesis by (simp add: signatures_ok_def)
  next
    case False
    then have "k = row\<lparr> ik_endorsed_by_key_id := Some endorser, ik_endorsement_sig := Some sig, ik_endorsed_at := Some (now E) \<rparr>"
      "agent_key_at f a kid row"
      using k u by (auto simp: t(2) in_update_where)
    with e(3) live_op_key_Some [OF assms(1) e(2)] Endorse_agent_key(1) show ?thesis
      by (simp add: agent_endorsement_ok_def agent_key_at_def)
  qed
  then show ?thesis using signatures_same_keys [OF assms(2) t(1)] by simp
next
  case (Set_agent_key E a f pk kid)
  note e = setAgentIdentityKey_effect [OF Set_agent_key(2)]
  have "agent_endorsement_ok C s k" if "k \<in> set (agent_identity_keys t)" for k
    using that e(3) assms(2) by (auto simp: signatures_ok_def agent_endorsement_ok_def)
  then show ?thesis using signatures_same_keys [OF assms(2) e(2)] by simp
next
  case (Arm E f endorser target confirmed ttl g)
  with createOperatorRecoveryGrant_effect(1,2) [OF Arm(2)] show ?thesis by (simp add: signatures_unchanged [OF assms(2)])
next
  case (Cancel E f gid b)
  with cancelOperatorRecoveryGrant_effect(1,2) [OF Cancel(2)] show ?thesis by (simp add: signatures_unchanged [OF assms(2)])
qed (simp add: signatures_unchanged [OF assms(2)])

section \<open>The endorsement graph has no cycle\<close>

definition edges_registered :: "store \<Rightarrow> bool" where
  "edges_registered s \<longleftrightarrow> (\<forall>f c e. hop_parent s f c = Some e \<longrightarrow> op_key s f e \<noteq> None)"

lemma signatures_registered:
  assumes "signatures_ok C s"
  shows "edges_registered s"
  unfolding edges_registered_def
proof (intro allI impI)
  fix f c e
  assume "hop_parent s f c = Some e"
  then obtain r where r: "op_key s f c = Some r" "ok_endorsed_by_key_id r = Some e"
    by (auto simp: hop_parent_Some)
  with assms have "endorsement_ok C s f r" by (simp add: signatures_ok_def)
  with r(2) show "op_key s f e \<noteq> None" by (auto simp: endorsement_ok_def)
qed

lemma same_keys_edges: "fleet_operator_keys t = fleet_operator_keys s \<Longrightarrow> endorsed_edges t = endorsed_edges s"
  using same_table_view [of t s] by (simp add: endorsed_edges_def hop_parent_def fun_eq_iff)

lemma key_set_edges:
  assumes "key_set s t f k row"
  shows "f' \<noteq> f \<Longrightarrow> endorsed_edges t f' = endorsed_edges s f'"
    "endorsed_edges t f \<subseteq> endorsed_edges s f \<union> {(k, e) | e. ok_endorsed_by_key_id row = Some e \<and> e \<noteq> []}"
  using assms by (auto simp: endorsed_edges_def hop_parent_Some key_set_def split: if_splits)

lemma no_cycle_path:
  assumes "no_cycle_walk s f target [] (Some c)" "c \<noteq> []" "c \<noteq> target"
  shows "(c, target) \<notin> (endorsed_edges s f)\<^sup>*"
proof (cases "target = []")
  case True
  have "(x, []) \<notin> endorsed_edges s f" for x by (auto simp: endorsed_edges_def hop_parent_Some)
  with True assms(3) show ?thesis by (metis rtranclE)
next
  case False
  with no_cycle_walk_path [OF assms(1,2)] show ?thesis by auto
qed

lemma acyclic_step:
  assumes "key_pk s" "edges_registered s" "\<And>f. acyclic (endorsed_edges s f)" "key_step C s t"
  shows "acyclic (endorsed_edges t f)"
  using assms(4)
proof (cases rule: key_step.cases)
  case (Register E f' pk label endorsement actor kid)
  note e = registerOperatorKey_effect [OF Register(2)]
  from Register(2) obtain row where row: "key_set s t f' kid row"
    "ok_endorsed_by_key_id row = map_option fst endorsement"
    by (rule Register_view)
  have no_in: "(x, kid) \<notin> endorsed_edges s f'" for x
    using assms(2) e(2) by (simp add: endorsed_edges_def edges_registered_def) (metis option.distinct(1))
  show ?thesis
  proof (cases endorsement)
    case None
    then have "endorsed_edges t f' \<subseteq> endorsed_edges s f'" using key_set_edges(2) [OF row(1)] row(2) by simp
    with key_set_edges(1) [OF row(1), of f] assms(3) show ?thesis
      by (cases "f = f'") (auto intro: acyclic_subset)
  next
    case (Some p)
    then obtain x sig where x: "endorsement = Some (x, sig)" by (cases p) simp
    have "x \<noteq> kid" using e(2,6) x live_op_key_Some [OF assms(1)] by fastforce
    then have "(x, kid) \<notin> (endorsed_edges s f')\<^sup>*"
      using no_in by (metis rtranclE)
    then have "acyclic (insert (kid, x) (endorsed_edges s f'))"
      by (simp add: acyclic_insert assms(3))
    moreover have "endorsed_edges t f' \<subseteq> insert (kid, x) (endorsed_edges s f')"
      using key_set_edges(2) [OF row(1)] row(2) x by auto
    ultimately have "acyclic (endorsed_edges t f')" by (rule acyclic_subset)
    then show ?thesis
      using key_set_edges(1) [OF row(1), of f] assms(3) by (cases "f = f'") simp_all
  qed
next
  case (Endorse E f' target endorser sig actor)
  from Endorse(2) obtain row where e: "op_key s f' target = Some row" "endorser \<noteq> target"
    "no_cycle_walk s f' target [] (Some endorser)"
    by (rule endorseOperatorKey_effect)
  note v = Endorse_view [OF Endorse(2) e(1)]
  show ?thesis
  proof (cases "endorser = [] \<or> f \<noteq> f'")
    case True
    then have "endorsed_edges t f \<subseteq> endorsed_edges s f"
      using key_set_edges [OF v] by (cases "f = f'") auto
    with assms(3) show ?thesis by (auto intro: acyclic_subset)
  next
    case False
    have "(endorser, target) \<notin> (endorsed_edges s f)\<^sup>*"
      using no_cycle_path [OF e(3)] e(2) False by simp
    then have "acyclic (insert (target, endorser) (endorsed_edges s f))"
      by (simp add: acyclic_insert assms(3))
    moreover have "endorsed_edges t f \<subseteq> insert (target, endorser) (endorsed_edges s f)"
      using key_set_edges(2) [OF v] False by auto
    ultimately show ?thesis by (rule acyclic_subset)
  qed
next
  case (Revoke E f' target signer at sig actor claimed)
  from Revoke(2) obtain row where e: "op_key s f' target = Some row"
    by (auto elim!: revokeOperatorKey_effect revocation_checks_effect)
  have "endorsed_edges t f \<subseteq> endorsed_edges s f"
    using e Revoke_view(1) [OF assms(1) Revoke(2) e]
    by (auto simp: key_set_def endorsed_edges_def hop_parent_Some split: if_splits)
  with assms(3) show ?thesis by (auto intro: acyclic_subset)
qed (auto simp: same_keys_edges [of t s] assms(3) createOperatorRecoveryGrant_effect(2)
    cancelOperatorRecoveryGrant_effect(2) setAgentIdentityKey_effect(2) elim!: endorseAgentKey_effect)

section \<open>Some key may always endorse\<close>

lemma chained_transfer:
  assumes "chained L G P c" "I c"
    and "\<And>c. L c \<Longrightarrow> I c \<Longrightarrow> L' c"
    and "\<And>c. L c \<Longrightarrow> I c \<Longrightarrow> G c \<Longrightarrow> G' c"
    and "\<And>c e. L c \<Longrightarrow> I c \<Longrightarrow> P c = Some e \<Longrightarrow> P' c = Some e \<and> I e"
  shows "chained L' G' P' c"
  using assms(1,2)
proof (induction rule: chained.induct)
  case (chained_good c)
  then show ?case using assms(3,4) by (blast intro: chained.chained_good)
next
  case (chained_hop c e)
  then show ?case using assms(3,5) by (blast intro: chained.chained_hop)
qed

lemma chained_live: "chained L G P c \<Longrightarrow> L c"
  by (erule chainedE)

lemma may_mono:
  assumes "operatorKeyMayEndorse s f c" "\<And>c r. op_key s f c = Some r \<Longrightarrow> op_key t f c = Some r"
    and "pinned_set t f = pinned_set s f" "\<And>c e. recoveredVia s f c e \<Longrightarrow> recoveredVia t f c e"
  shows "operatorKeyMayEndorse t f c"
proof -
  have p: "hop_parent t f c = Some e" if "hop_parent s f c = Some e" for c e
    using that assms(2) by (auto simp: hop_parent_Some)
  have "chained (hop_live t f None) (hop_good t f (pinned_set t f)) (hop_parent t f) c"
    if "chained (hop_live s f None) (hop_good s f (pinned_set s f)) (hop_parent s f) c"
    using that
  proof (rule chained_transfer [where I = "\<lambda>_. True"])
    show "hop_live t f None c" if "hop_live s f None c" for c using that assms(2) by (auto simp: hop_live_def)
    show "hop_good t f (pinned_set t f) c" if "hop_good s f (pinned_set s f) c" for c
      using that assms(3,4) p by (auto simp: hop_good_def)
  qed (use p in auto)
  with assms(1-3) show ?thesis by (auto simp: mayEndorse_iff)
qed

definition authority :: "store \<Rightarrow> string \<Rightarrow> bool" where
  "authority s f \<longleftrightarrow> ((\<exists>c r. op_key s f c = Some r) \<longrightarrow> (\<exists>c. operatorKeyMayEndorse s f c))"

lemma key_set_other: "key_set s t f k row \<Longrightarrow> f' \<noteq> f \<Longrightarrow> op_key t f' = op_key s f'"
  by (auto simp: key_set_def fun_eq_iff)

lemma authority_mono:
  assumes "authority s f" "\<And>c r. op_key s f c = Some r \<Longrightarrow> op_key t f c = Some r" "\<And>c r. op_key t f c = Some r \<Longrightarrow> \<exists>c r. op_key s f c = Some r"
    and "pinned_set t f = pinned_set s f" "\<And>c e. recoveredVia s f c e \<Longrightarrow> recoveredVia t f c e"
  shows "authority t f"
  using assms may_mono [of s f _ t] unfolding authority_def by blast

lemma pinned_set_same: "agent_identity_keys t = agent_identity_keys s \<Longrightarrow> pinned_set t f = pinned_set s f"
  by (simp add: pinned_set_def)

lemma endorse_keeps_authority:
  assumes "key_pk s" "endorseOperatorKey E f target endorser sig actor s = Inr t" "authority s f"
    and rec: "\<And>c e. recoveredVia s f c e \<Longrightarrow> recoveredVia t f c e"
  shows "authority t f"
  using assms(2)
proof (rule endorseOperatorKey_effect)
  fix row erow grant s1
  assume e: "endorser \<noteq> target" "op_key s f target = Some row" "\<not> truthy (ok_revoked_at row)"
    "live_op_key s f endorser = Some erow" "grant_used s f endorser target (now E) row grant"
    "no_cycle_walk s f target [] (Some endorser)" "agent_identity_keys t = agent_identity_keys s"
  note v = Endorse_view [OF assms(2) e(2)]
  have ps: "pinned_set t f = pinned_set s f" using e(7) by (rule pinned_set_same)
  have off: "op_key t f c = op_key s f c" if "c \<noteq> target" for c using v that by (simp add: key_set_def)
  have live: "hop_live t f None c" if "hop_live s f None c" for c
    using that off v e(2) by (cases "c = target") (auto simp: hop_live_def key_set_def)
  have par: "hop_parent t f c = hop_parent s f c" if "c \<noteq> target" for c using off [OF that] by (simp add: hop_parent_def)
  have good: "hop_good t f (pinned_set t f) c" if "hop_good s f (pinned_set s f) c" "c \<noteq> target \<or> c \<in> pinned_set s f" for c
    using that par [of c] rec ps unfolding hop_good_def by metis
  have "\<exists>c. operatorKeyMayEndorse t f c"
  proof (cases "pinned_set s f = {}")
    case True
    with v e(3) ps show ?thesis by (auto simp: mayEndorse_iff key_set_def)
  next
    case pinned: False
    show ?thesis
    proof (cases grant)
      case None
      then have ch: "chained (hop_live s f None) (hop_good s f (pinned_set s f)) (hop_parent s f) endorser"
        using e(5) pinned by (simp add: grant_used_def trusted_iff)
      have ne: "endorser \<noteq> []" using chained_live [OF ch] by (simp add: hop_live_def)
      have path: "(endorser, target) \<notin> (endorsed_edges s f)\<^sup>*"
        using no_cycle_path [OF e(6) ne] e(1) by simp
      have "chained (hop_live t f None) (hop_good t f (pinned_set t f)) (hop_parent t f) endorser"
        using ch
      proof (rule chained_transfer [where I = "\<lambda>c. (c, target) \<notin> (endorsed_edges s f)\<^sup>*"])
        show "hop_parent t f c = Some e' \<and> (e', target) \<notin> (endorsed_edges s f)\<^sup>*"
          if "(c, target) \<notin> (endorsed_edges s f)\<^sup>*" "hop_parent s f c = Some e'" for c e'
        proof -
          have "c \<noteq> target" using that(1) by auto
          moreover have "(c, e') \<in> endorsed_edges s f" using that(2) by (simp add: endorsed_edges_def)
          ultimately show ?thesis using that par by (auto intro: converse_rtrancl_into_rtrancl)
        qed
      qed (use path live good in auto)
      moreover have "op_key t f endorser = Some erow" "ok_revoked_at erow = None"
        using live_op_key_Some [OF assms(1) e(4)] off e(1) by auto
      ultimately have "operatorKeyMayEndorse t f endorser" by (simp add: mayEndorse_iff)
      then show ?thesis ..
    next
      case (Some g)
      then have un: "hop_parent s f target = None"
        using e(2,5) requireRecoveryGrant_Inr(8) by (auto simp: grant_used_def hop_parent_def)
      obtain c where c: "operatorKeyMayEndorse s f c"
        using assms(3) e(2) by (auto simp: authority_def)
      have "chained (hop_live t f None) (hop_good t f (pinned_set t f)) (hop_parent t f) c"
      proof (rule chained_transfer [where I = "\<lambda>_. True"])
        show "chained (hop_live s f None) (hop_good s f (pinned_set s f)) (hop_parent s f) c"
          using c pinned by (simp add: mayEndorse_iff)
        show "hop_good t f (pinned_set t f) c" if "hop_good s f (pinned_set s f) c" for c
          using that good [of c] un by (cases "c = target") (auto simp: hop_good_def)
        show "hop_parent t f c = Some e' \<and> True" if "hop_parent s f c = Some e'" for c e'
          using that par [of c] un by (cases "c = target") auto
      qed (use live in auto)
      moreover have "\<exists>r. op_key t f c = Some r \<and> \<not> truthy (ok_revoked_at r)"
        using c off e(2) v by (cases "c = target") (auto simp: mayEndorse_iff key_set_def)
      ultimately show ?thesis by (auto simp: mayEndorse_iff)
    qed
  qed
  then show ?thesis by (simp add: authority_def)
qed

text \<open>The signer of a revocation may still endorse afterwards.\<close>

lemma revoke_signer_may:
  assumes "key_pk s" "revokeOperatorKey E f target signer at sig actor claimed s = Inr t"
  shows "operatorKeyMayEndorse t f signer"
proof -
  from assms(2) obtain legacy where c: "revocation_checks E f target signer at sig s = Inr legacy"
    "agent_identity_keys t = agent_identity_keys s" "operator_recovery_grants t = operator_recovery_grants s"
    by (rule revokeOperatorKey_effect)
  from c(1) obtain row srow where e: "op_key s f target = Some row" "signer \<noteq> target" "op_key s f signer = Some srow"
    "\<not> truthy (ok_revoked_at srow)"
    and tr: "agentPinnedRoots s f = None \<or> endorserIsTrusted s f signer (Some target)"
    by (rule revocation_checks_effect)
  note v = Revoke_view(1) [OF assms(1,2) e(1)]
  have ps: "pinned_set t f = pinned_set s f" using c(2) by (rule pinned_set_same)
  have off: "op_key t f c = op_key s f c" if "c \<noteq> target" for c using v that by (simp add: key_set_def)
  have par: "hop_parent t f c = hop_parent s f c" if "c \<noteq> target" for c using off [OF that] by (simp add: hop_parent_def)
  have "chained (hop_live t f None) (hop_good t f (pinned_set t f)) (hop_parent t f) signer" if "pinned_set s f \<noteq> {}"
  proof (rule chained_transfer [where I = "\<lambda>_. True"])
    show "chained (hop_live s f (Some target))
        (hop_good s f (if truthy (Some target) then pinned_set s f - {the (Some target)} else pinned_set s f))
        (hop_parent s f) signer"
      using tr that by (auto simp: trusted_iff agentPinnedRoots_set(1))
    show "hop_live t f None c" if "hop_live s f (Some target) c" for c
      using that off [of c] by (auto simp: hop_live_def)
    show "hop_good t f (pinned_set t f) c" if "hop_live s f (Some target) c"
      "hop_good s f (if truthy (Some target) then pinned_set s f - {the (Some target)} else pinned_set s f) c" for c
      using that par [of c] ps c(3) by (auto simp: hop_good_def hop_live_def recoveredVia_def split: if_splits)
    show "hop_parent t f c = Some e' \<and> True" if "hop_live s f (Some target) c" "hop_parent s f c = Some e'" for c e'
      using that par [of c] by (auto simp: hop_live_def)
  qed auto
  with off [of signer] e(2-4) ps show ?thesis by (auto simp: mayEndorse_iff)
qed


lemma endorsed_agent_pins:
  assumes "agent_identity_keys t = update_where (agent_key_at f a kid)
        (\<lambda>k. k\<lparr> ik_endorsed_by_key_id := Some endorser, ik_endorsement_sig := sig, ik_endorsed_at := n \<rparr>)
        (agent_identity_keys s)"
  shows "x \<in> pinned_set t f' \<longleftrightarrow> (\<exists>k\<in>set (agent_identity_keys s). ik_fleet_id k = f' \<and> ik_revoked_at k = None \<and> x \<noteq> [] \<and>
     (if agent_key_at f a kid k then x = endorser else ik_endorsed_by_key_id k = Some x))"
  unfolding pinned_set_def assms mem_Collect_eq update_where_def set_map bex_simps by (rule bex_cong) auto

lemma endorse_agent_keeps_authority:
  assumes "key_pk s" "endorseAgentKey E f a kid endorser sig actor s = Inr (b, t)" "authority s f"
  shows "authority t f"
proof -
  from assms(2) obtain row erow where e: "live_op_key s f endorser = Some erow" "endorserIsTrusted s f endorser None"
    "operator_recovery_grants t = operator_recovery_grants s" "fleet_operator_keys t = fleet_operator_keys s"
    "agent_identity_keys t = update_where (agent_key_at f a kid)
        (\<lambda>k. k\<lparr> ik_endorsed_by_key_id := Some endorser, ik_endorsement_sig := Some sig, ik_endorsed_at := Some (now E) \<rparr>)
        (agent_identity_keys s)"
    by (rule endorseAgentKey_effect)
  have keys: "op_key t f endorser = Some erow" "ok_revoked_at erow = None"
    using live_op_key_Some [OF assms(1) e(1)] same_table_view [OF e(4)] by auto
  note pins = endorsed_agent_pins [OF e(5)]
  have sub: "pinned_set t f \<subseteq> insert endorser (pinned_set s f)"
  proof
    fix x
    assume "x \<in> pinned_set t f"
    then show "x \<in> insert endorser (pinned_set s f)"
      unfolding pins by (auto simp: pinned_set_def split: if_splits)
  qed
  have pin: "endorser \<in> pinned_set t f \<or> pinned_set t f = pinned_set s f" if ne: "endorser \<noteq> []"
  proof (cases "\<exists>k\<in>set (agent_identity_keys s). agent_key_at f a kid k \<and> ik_revoked_at k = None")
    case True
    with ne show ?thesis by (auto simp: pins agent_key_at_def)
  next
    case False
    then have "x \<in> pinned_set t f \<longleftrightarrow> x \<in> pinned_set s f" for x
      unfolding pins by (auto simp: pinned_set_def)
    then show ?thesis by blast
  qed
  consider "endorser = []" | "endorser \<noteq> []" "endorser \<in> pinned_set t f" | "pinned_set t f = pinned_set s f"
    using pin by blast
  then show ?thesis
  proof cases
    case 1
    then have "pinned_set s f = {}"
      using e(2) chained_live by (force simp: trusted_iff hop_live_def)
    moreover have "[] \<notin> pinned_set t f" by (simp add: pinned_set_def)
    ultimately have "pinned_set t f = {}" using sub 1 by auto
    with keys have "operatorKeyMayEndorse t f endorser" by (simp add: mayEndorse_iff)
    then show ?thesis by (auto simp: authority_def)
  next
    case 2
    then have "chained (hop_live t f None) (hop_good t f (pinned_set t f)) (hop_parent t f) endorser"
      using keys by (auto simp: hop_live_def hop_good_def intro!: chained_good)
    with keys have "operatorKeyMayEndorse t f endorser" by (simp add: mayEndorse_iff)
    then show ?thesis by (auto simp: authority_def)
  next
    case 3
    have "recoveredVia t = recoveredVia s" by (simp add: recoveredVia_def e(3) fun_eq_iff)
    with same_table_view [OF e(4)] show ?thesis by (intro authority_mono [OF assms(3) _ _ 3]) auto
  qed
qed

lemma authority_step:
  assumes "key_pk s" "signatures_ok C s" "\<And>f. authority s f" "key_step C s t"
  shows "authority t f"
proof -
  note rec = key_step_grants_mono [OF assms(4)]
  from assms(4) show ?thesis
proof (cases rule: key_step.cases)
  case (Register E f' pk label endorsement actor kid)
  note e = registerOperatorKey_effect [OF Register(2)]
  from Register(2) obtain row where row: "key_set s t f' kid row" "ok_revoked_at row = None" by (rule Register_view)
  have ps: "pinned_set t f = pinned_set s f" using e(4) by (rule pinned_set_same)
  have mono: "op_key t f c = Some r" if "op_key s f c = Some r" for c r
    using that row(1) e(2) by (auto simp: key_set_def)
  show ?thesis
  proof (cases "\<exists>c r. op_key s f c = Some r")
    case True
    then show ?thesis by (intro authority_mono [OF assms(3) mono _ ps rec])
  next
    case False
    then have "pinned_set s f = {}"
      using assms(2) by (fastforce simp: pinned_set_def signatures_ok_def agent_endorsement_ok_def)
    then show ?thesis
      using row ps False by (auto simp: authority_def mayEndorse_iff key_set_def split: if_splits)
  qed
next
  case (Endorse E f' target endorser sig actor)
  show ?thesis
  proof (cases "f' = f")
    case True
    with endorse_keeps_authority [OF assms(1) Endorse(2) assms(3) rec] show ?thesis by simp
  next
    case False
    from Endorse(2) obtain row where e: "op_key s f' target = Some row" "agent_identity_keys t = agent_identity_keys s"
      by (rule endorseOperatorKey_effect)
    show ?thesis
      using key_set_other [OF Endorse_view [OF Endorse(2) e(1)], of f] False
      by (intro authority_mono [OF assms(3) _ _ pinned_set_same [OF e(2)] rec]) auto
  qed
next
  case (Revoke E f' target signer at sig actor claimed)
  show ?thesis
  proof (cases "f' = f")
    case True
    with revoke_signer_may [OF assms(1) Revoke(2)] show ?thesis by (auto simp: authority_def)
  next
    case False
    from Revoke(2) obtain row where e: "op_key s f' target = Some row" "agent_identity_keys t = agent_identity_keys s"
      by (auto elim!: revokeOperatorKey_effect revocation_checks_effect)
    show ?thesis
      using key_set_other [OF Revoke_view(1) [OF assms(1) Revoke(2) e(1)], of f] False
      by (intro authority_mono [OF assms(3) _ _ pinned_set_same [OF e(2)] rec]) auto
  qed
next
  case (Endorse_agent_key E f' a kid endorser sig actor b)
  show ?thesis
  proof (cases "f' = f")
    case True
    with endorse_agent_keeps_authority [OF assms(1) Endorse_agent_key(2) assms(3)] show ?thesis by simp
  next
    case False
    from Endorse_agent_key(2) have "pinned_set t f = pinned_set s f \<and> fleet_operator_keys t = fleet_operator_keys s"
    proof (rule endorseAgentKey_effect, intro conjI set_eqI)
      fix row erow x
      assume "agent_identity_keys t = update_where (agent_key_at f' a kid)
        (\<lambda>k. k\<lparr> ik_endorsed_by_key_id := Some endorser, ik_endorsement_sig := Some sig, ik_endorsed_at := Some (now E) \<rparr>)
        (agent_identity_keys s)"
      from endorsed_agent_pins [OF this, of x f] False show "x \<in> pinned_set t f \<longleftrightarrow> x \<in> pinned_set s f"
        by (auto simp: pinned_set_def agent_key_at_def)
    qed
    then show ?thesis
      using same_table_view [of t s] by (intro authority_mono [OF assms(3) _ _ _ rec]) auto
  qed
next
  case (Set_agent_key E a f' pk kid)
  note e = setAgentIdentityKey_effect [OF Set_agent_key(2)]
  have "pinned_set t f = pinned_set s f" using e(3) by (auto simp: pinned_set_def)
  then show ?thesis
    using same_table_view [OF e(2)] by (intro authority_mono [OF assms(3) _ _ _ rec]) auto
next
  case (Arm E f' endorser target confirmed ttl g)
  note e = createOperatorRecoveryGrant_effect [OF Arm(2)]
  show ?thesis
    using same_table_view [OF e(2)] by (intro authority_mono [OF assms(3) _ _ pinned_set_same [OF e(1)] rec]) auto
next
  case (Cancel E f' gid b)
  note e = cancelOperatorRecoveryGrant_effect [OF Cancel(2)]
  show ?thesis
    using same_table_view [OF e(2)] by (intro authority_mono [OF assms(3) _ _ pinned_set_same [OF e(1)] rec]) auto
next
  case Other
  show ?thesis
    using same_table_view [OF Other(1)] by (intro authority_mono [OF assms(3) _ _ pinned_set_same [OF Other(3)] rec]) auto
qed
qed

section \<open>The invariant of the key tables\<close>

definition key_inv :: "crypto \<Rightarrow> store \<Rightarrow> bool" where
  "key_inv C s \<longleftrightarrow> key_pk s \<and> signatures_ok C s \<and> (\<forall>f. acyclic (endorsed_edges s f)) \<and> (\<forall>f. authority s f)"

lemma op_key_empty [simp]: "op_key empty_store f c = None"
  by (simp add: op_key_def empty_store_def sql)

interpretation keys: stepping empty_store "key_step C" "key_inv C" for C
proof
  show "key_inv C empty_store"
    by (simp add: key_inv_def key_pk_def signatures_ok_def endorsed_edges_def hop_parent_def authority_def acyclic_def)
      (simp add: empty_store_def)
  show "key_inv C t" if "key_inv C s" "key_step C s t" for s t
    using that key_pk_step [of s C t] signatures_step [of s C t] acyclic_step [of s C t] authority_step [of s C t]
      signatures_registered [of C s]
    by (simp add: key_inv_def)
qed

section \<open>Grants and tombstones\<close>

text \<open>A consumed or cancelled grant is never written again.\<close>

lemma closed_grant_step:
  assumes "key_step C s t" "g \<in> set (operator_recovery_grants s)" "gr_consumed_at g \<noteq> None"
  shows "g \<in> set (operator_recovery_grants t)"
  using assms(1)
proof (cases rule: key_step.cases)
  case (Endorse E f target endorser sig actor)
  from Endorse(2) obtain grant s1 where g: "spendGrant E grant s = Inr s1"
    "operator_recovery_grants t = operator_recovery_grants s1"
    by (rule endorseOperatorKey_effect) blast
  with spendGrant_effect(3) [OF g(1)] assms(2,3) show ?thesis
    by (cases grant) (auto simp: Let_def in_update_where)
next
  case (Cancel E f gid b)
  with cancelOperatorRecoveryGrant_effect [OF Cancel(2)] assms(2,3) show ?thesis
    by (auto simp: in_update_where)
next
  case (Register E f pk label endorsement actor kid)
  with registerOperatorKey_effect(3) [OF Register(2)] assms(2) show ?thesis by simp
next
  case (Arm E f endorser target confirmed ttl g')
  with createOperatorRecoveryGrant_effect(3) [OF Arm(2)] assms(2) show ?thesis by simp
next
  case (Set_agent_key E a f pk kid)
  with setAgentIdentityKey_effect(1) [OF Set_agent_key(2)] assms(2) show ?thesis by simp
qed (use assms(2) in \<open>auto elim!: revokeOperatorKey_effect endorseAgentKey_effect\<close>)

lemma closed_grant_reach:
  "reach s (key_step C) t \<Longrightarrow> g \<in> set (operator_recovery_grants s) \<Longrightarrow> gr_consumed_at g \<noteq> None
   \<Longrightarrow> g \<in> set (operator_recovery_grants t)"
  by (induction rule: reach.induct) (auto intro: closed_grant_step)

text \<open>Of two open grants of a fleet the older one had expired when the newer one was armed.\<close>

definition open_grant :: "grant_row \<Rightarrow> bool" where
  "open_grant g \<longleftrightarrow> gr_consumed_at g = None \<and> gr_cancelled_at g = None"

definition succeeds :: "grant_row \<Rightarrow> grant_row \<Rightarrow> bool" where
  "succeeds g h \<longleftrightarrow> (open_grant g \<and> open_grant h \<and> gr_fleet_id g = gr_fleet_id h \<longrightarrow> gr_expires_at g \<le> gr_created_at h)"

lemma succeeds_update:
  assumes "sorted_wrt succeeds gs"
    and "\<And>g. gr_fleet_id (u g) = gr_fleet_id g \<and> gr_expires_at (u g) = gr_expires_at g \<and> gr_created_at (u g) = gr_created_at g
           \<and> \<not> open_grant (u g)"
  shows "sorted_wrt succeeds (update_where p u gs)"
  using assms by (induction gs) (auto simp: update_where_def succeeds_def)

lemma createOperatorRecoveryGrant_created:
  "createOperatorRecoveryGrant E f endorser target confirmed ttl s = Inr (g, t) \<Longrightarrow> gr_created_at g = now E"
  by (auto simp: createOperatorRecoveryGrant_def Let_def split: option.splits if_splits)

lemma succeeds_step:
  assumes "key_step C s t" "sorted_wrt succeeds (operator_recovery_grants s)"
  shows "sorted_wrt succeeds (operator_recovery_grants t)"
  using assms(1)
proof (cases rule: key_step.cases)
  case (Endorse E f target endorser sig actor)
  from Endorse(2) obtain grant s1 where g: "spendGrant E grant s = Inr s1"
    "operator_recovery_grants t = operator_recovery_grants s1"
    by (rule endorseOperatorKey_effect) blast
  with spendGrant_effect(3) [OF g(1)] assms(2) show ?thesis
    by (cases grant) (auto simp: Let_def open_grant_def intro!: succeeds_update)
next
  case (Cancel E f gid b)
  with cancelOperatorRecoveryGrant_effect [OF Cancel(2)] assms(2) show ?thesis
    by (auto simp: open_grant_def intro!: succeeds_update)
next
  case (Register E f pk label endorsement actor kid)
  with registerOperatorKey_effect(3) [OF Register(2)] assms(2) show ?thesis by simp
next
  case (Arm E f endorser target confirmed ttl g)
  have "succeeds h g" if "h \<in> set (operator_recovery_grants s)" for h
    using createOperatorRecoveryGrant_effect(5,9) [OF Arm(2)] createOperatorRecoveryGrant_created [OF Arm(2)] that
    by (auto simp: succeeds_def armed_def open_grant_def)
  with createOperatorRecoveryGrant_effect(3) [OF Arm(2)] assms(2) show ?thesis by (simp add: sorted_wrt_append)
next
  case (Set_agent_key E a f pk kid)
  with setAgentIdentityKey_effect(1) [OF Set_agent_key(2)] assms(2) show ?thesis by simp
qed (use assms(2) in \<open>auto elim!: revokeOperatorKey_effect endorseAgentKey_effect\<close>)

interpretation grants: stepping empty_store "key_step C" "\<lambda>s. sorted_wrt succeeds (operator_recovery_grants s)" for C
  by unfold_locales (simp add: empty_store_def, rule succeeds_step)

lemma one_armed:
  assumes "sorted_wrt succeeds gs"
  shows "length (filter (\<lambda>g. armed f n g \<and> gr_created_at g \<le> n) gs) \<le> 1"
  using assms
proof (induction gs)
  case (Cons g gs)
  have "filter (\<lambda>h. armed f n h \<and> gr_created_at h \<le> n) gs = []" if "armed f n g"
    using that Cons.prems by (force simp: filter_empty_conv armed_def succeeds_def open_grant_def)
  with Cons show ?case by auto
qed simp

text \<open>A signed tombstone is never written again.\<close>

definition signed_tombstone :: "operator_key_row \<Rightarrow> bool" where
  "signed_tombstone r \<longleftrightarrow> ok_revoked_at r \<noteq> None \<and> ok_revocation_sig r \<noteq> None"

definition same_tombstone :: "operator_key_row \<Rightarrow> operator_key_row \<Rightarrow> bool" where
  "same_tombstone r r' \<longleftrightarrow> ok_revoked_at r' = ok_revoked_at r \<and> ok_revoked_by_key_id r' = ok_revoked_by_key_id r
     \<and> ok_revocation_sig r' = ok_revocation_sig r"

lemma tombstone_step:
  assumes "key_pk s" "key_step C s t" "op_key s f c = Some r" "signed_tombstone r"
  shows "\<exists>r'. op_key t f c = Some r' \<and> same_tombstone r r'"
  using assms(2)
proof (cases rule: key_step.cases)
  case (Register E f' pk label endorsement actor kid)
  from Register(2) obtain row where "key_set s t f' kid row" by (rule Register_view)
  with registerOperatorKey_effect(2) [OF Register(2)] assms(3) show ?thesis
    by (auto simp: key_set_def same_tombstone_def)
next
  case (Endorse E f' target endorser sig actor)
  from Endorse(2) obtain row where e: "op_key s f' target = Some row" by (rule endorseOperatorKey_effect)
  from Endorse_view [OF Endorse(2) e] e assms(3) show ?thesis by (auto simp: key_set_def same_tombstone_def)
next
  case (Revoke E f' target signer at sig actor claimed)
  from Revoke(2) obtain row where e: "op_key s f' target = Some row"
    by (auto elim!: revokeOperatorKey_effect revocation_checks_effect)
  from Revoke_view [OF assms(1) Revoke(2) e] e assms(3,4) show ?thesis
    by (auto simp: key_set_def same_tombstone_def signed_tombstone_def)
next
  case (Set_agent_key E a f' pk kid)
  with same_table_view [of t s] setAgentIdentityKey_effect(2) [OF Set_agent_key(2)] assms(3) show ?thesis
    by (simp add: same_tombstone_def)
next
  case (Arm E f' endorser target confirmed ttl g)
  with same_table_view [of t s] createOperatorRecoveryGrant_effect(2) [OF Arm(2)] assms(3) show ?thesis
    by (simp add: same_tombstone_def)
next
  case (Cancel E f' gid b)
  with same_table_view [of t s] cancelOperatorRecoveryGrant_effect(2) [OF Cancel(2)] assms(3) show ?thesis
    by (simp add: same_tombstone_def)
next
  case (Endorse_agent_key E f' a kid endorser sig actor b)
  from Endorse_agent_key(2) have "fleet_operator_keys t = fleet_operator_keys s" by (rule endorseAgentKey_effect)
  with same_table_view [of t s] assms(3) show ?thesis by (simp add: same_tombstone_def)
next
  case Other
  with same_table_view [of t s] assms(3) show ?thesis by (simp add: same_tombstone_def)
qed

lemma reach_key_pk: "reach s (key_step C) t \<Longrightarrow> key_pk s \<Longrightarrow> key_pk t"
  by (induction rule: reach.induct) (auto intro: key_pk_step)

lemma tombstone_reach:
  assumes "reach s (key_step C) t" "key_pk s" "op_key s f c = Some r" "signed_tombstone r"
  shows "\<exists>r'. op_key t f c = Some r' \<and> same_tombstone r r'"
  using assms
proof (induction rule: reach.induct)
  case reach_start
  then show ?case by (simp add: same_tombstone_def)
next
  case (reach_step t u)
  then obtain r' where r': "op_key t f c = Some r'" "same_tombstone r r'" by blast
  with reach_step have "key_pk t" "signed_tombstone r'"
    by (auto simp: reach_key_pk signed_tombstone_def same_tombstone_def)
  from tombstone_step [OF this(1) reach_step(2) r'(1) this(2)] r'(2) show ?case
    by (auto simp: same_tombstone_def)
qed

section \<open>Properties\<close>

text \<open>
  The authority rule decides exactly this: no agent of the fleet is endorsed yet, or the key
  reaches, over registered unrevoked keys none of which is the excluded one, a key that some agent
  pins (other than the excluded one) or one that its recorded endorser recovered under a consumed
  grant.  The walk terminates on every table, cyclic ones included.
\<close>

theorem endorserIsTrusted_decides:
  "endorserIsTrusted s f c ex \<longleftrightarrow>
     pinned_set s f = {} \<or>
     chained (hop_live s f ex) (hop_good s f (if truthy ex then pinned_set s f - {the ex} else pinned_set s f))
       (hop_parent s f) c"
  by (rule trusted_iff)

text \<open>
  C2: no run of key operations locks a fleet out: from an empty relay, in every reachable state, a
  fleet that has an operator key has one that may endorse.
\<close>

theorem fleet_keeps_authority:
  assumes "reach empty_store (key_step C) s" "\<exists>k\<in>set (fleet_operator_keys s). ok_fleet_id k = f"
  shows "\<exists>kid. operatorKeyMayEndorse s f kid"
proof -
  have i: "key_pk s" "authority s f" using keys.inv_reach [OF assms(1)] by (auto simp: key_inv_def)
  from assms(2) obtain k where "k \<in> set (fleet_operator_keys s)" "ok_fleet_id k = f" by blast
  with op_key_row [OF i(1)] i(2) show ?thesis by (auto simp: authority_def)
qed

definition sample_keys :: store where
  "sample_keys = snd (projr (registerOperatorKey (sample_env 0) ''flt'' ''keyA'' ''lap'' None None empty_store))"

lemma sample_keys_reach: "reach empty_store (key_step sample_crypto) sample_keys"
proof (rule reach_step [OF reach_start], rule Register [of "sample_env 0"])
  show "registerOperatorKey (sample_env 0) ''flt'' ''keyA'' ''lap'' None None empty_store = Inr (''keyA'', sample_keys)"
    by (simp add: sample_keys_def registerOperatorKey_def keyId_def sample_crypto_def empty_store_def sql Let_def)
qed simp

lemma fleet_keeps_authority_witness: "\<exists>kid. operatorKeyMayEndorse sample_keys ''flt'' kid"
  by (rule fleet_keeps_authority [OF sample_keys_reach])
    (simp add: sample_keys_def registerOperatorKey_def empty_store_def sql Let_def)

text \<open>
  C26: in every reachable state the endorsement graph of every fleet is free of cycles, and everything
  the relay serves to agents verifies: each recorded endorsement of an operator key or of an agent's
  key, and each recorded revocation, carries a signature that verifies under the public key registered
  for the key it names, over the payload for the row's own fleet, key and (for a revocation) instant.
\<close>

theorem served_keys_verify:
  assumes "reach empty_store (key_step C) s"
  shows "acyclic (endorsed_edges s f) \<and> signatures_ok C s"
  using keys.inv_reach [OF assms] by (simp add: key_inv_def)

lemma served_keys_verify_witness:
  "acyclic (endorsed_edges sample_keys ''flt'') \<and> signatures_ok sample_crypto sample_keys"
  by (rule served_keys_verify [OF sample_keys_reach])

text \<open>
  A successful revocation leaves its signer able to endorse, on any table with its primary keys.
\<close>

theorem revocation_keeps_signer:
  assumes "key_pk s" "revokeOperatorKey E f target signer at sig actor claimed s = Inr t"
  shows "operatorKeyMayEndorse t f signer"
  using assms by (rule revoke_signer_may)

definition sample_keys2 :: store where
  "sample_keys2 = snd (projr (registerOperatorKey (sample_env 1) ''flt'' ''keyB'' ''ph'' (Some (''keyA'', ''sig'')) None sample_keys))"

definition sample_revoked :: store where
  "sample_revoked = projr (revokeOperatorKey (sample_env 2) ''flt'' ''keyB'' ''keyA''
     ''1970-01-01T00:00:00.001Z'' ''sig'' None None sample_keys2)"

lemma revocation_keeps_signer_witness: "operatorKeyMayEndorse sample_revoked ''flt'' ''keyA''"
proof (rule revocation_keeps_signer)
  show "key_pk sample_keys2" by code_simp
  show "revokeOperatorKey (sample_env 2) ''flt'' ''keyB'' ''keyA'' ''1970-01-01T00:00:00.001Z'' ''sig'' None None
      sample_keys2 = Inr sample_revoked"
    unfolding sample_revoked_def by code_simp
qed

text \<open>
  A signed tombstone is final: whatever key operations follow, the instant, the signer and the
  signature of a signed revocation stay as they were.
\<close>

theorem signed_tombstone_final:
  assumes "reach s (key_step C) t" "key_pk s" "op_key s f c = Some r" "signed_tombstone r"
  shows "\<exists>r'. op_key t f c = Some r' \<and> same_tombstone r r'"
  using assms by (rule tombstone_reach)

lemma signed_tombstone_final_witness:
  "\<exists>r'. op_key sample_revoked ''flt'' ''keyB'' = Some r' \<and>
     same_tombstone (the (op_key sample_revoked ''flt'' ''keyB'')) r'"
  by (rule signed_tombstone_final [OF reach_start]) code_simp+

text \<open>
  C14: what a recovery grant opens: an endorsement by a key the authority rule refuses succeeds only
  when a grant naming exactly this endorser and this successor is armed; it is consumed by the same
  step, stays consumed in every later state, and the successor may endorse from then on.
\<close>

theorem recovery_grant_single_use:
  assumes "target \<noteq> []" "endorser \<noteq> []"
    and "endorseOperatorKey E f target endorser sig actor s = Inr t" "\<not> endorserIsTrusted s f endorser None"
  shows "\<exists>g\<in>set (operator_recovery_grants s). armed f (now E) g \<and> gr_endorser_key_id g = endorser
      \<and> gr_target_key_id g = target \<and> operatorKeyMayEndorse t f target
      \<and> (\<forall>u. reach t (key_step C) u \<longrightarrow> g\<lparr> gr_consumed_at := Some (now E) \<rparr> \<in> set (operator_recovery_grants u))"
proof -
  from assms(3) obtain row erow grant s1 where e: "op_key s f target = Some row" "\<not> truthy (ok_revoked_at row)"
    "grant_used s f endorser target (now E) row grant"
    and sp: "spendGrant E grant s = Inr s1" "operator_recovery_grants t = operator_recovery_grants s1"
    by (rule endorseOperatorKey_effect)
  from e(3) assms(4) obtain g where g: "grant = Some g" "requireRecoveryGrant s f endorser target row (now E) = Inr g"
    by (auto simp: grant_used_def split: option.splits)
  note r = requireRecoveryGrant_Inr [OF g(2)]
  let ?g = "g\<lparr> gr_consumed_at := Some (now E) \<rparr>"
  have "?g \<in> set (operator_recovery_grants t)"
    using spendGrant_effect(3) [OF sp(1)] sp(2) r g(1) by (auto simp: Let_def in_update_where)
  then have later: "?g \<in> set (operator_recovery_grants u)" if "reach t (key_step C) u" for u
    using closed_grant_reach [OF that] by simp
  have "recoveredVia t f target endorser"
    using \<open>?g \<in> _\<close> r by (auto simp: recoveredVia_def select_exists_iff intro!: bexI [of _ ?g])
  moreover have "op_key t f target =
      Some (row\<lparr> ok_endorsed_by_key_id := Some endorser, ok_endorsement_sig := Some sig \<rparr>)"
    using Endorse_view [OF assms(3) e(1)] by (simp add: key_set_def)
  ultimately have "operatorKeyMayEndorse t f target"
    using e(2) assms(1,2)
    by (auto simp: mayEndorse_iff hop_live_def hop_good_def hop_parent_def intro!: chained_good)
  with r later show ?thesis by (auto simp: armed_def intro!: bexI [of _ g])
qed

text \<open>A fleet whose agent pins key A, with two unendorsed keys B and C and a grant for B to endorse C.\<close>

definition sample_armed :: store where
  "sample_armed =
     (let s0 = empty_store\<lparr> fleets := [\<lparr> fl_id = ''flt'', fl_name = ''f'', fl_created_at = 0 \<rparr>] \<rparr>;
          s1 = snd (projr (registerOperatorKey (sample_env 0) ''flt'' ''keyA'' ''a'' None None s0));
          s2 = snd (projr (registerOperatorKey (sample_env 0) ''flt'' ''keyB'' ''b'' None None s1));
          s3 = snd (projr (registerOperatorKey (sample_env 0) ''flt'' ''keyC'' ''c'' None None s2));
          s4 = snd (setAgentIdentityKey (sample_env 0) ''agt'' ''flt'' ''keyX'' s3);
          s5 = snd (projr (endorseAgentKey (sample_env 0) ''flt'' ''agt'' ''keyX'' ''keyA'' ''sig'' None s4))
      in snd (projr (createOperatorRecoveryGrant (sample_env 1) ''flt'' ''keyB'' ''keyC'' ''Ann'' None s5)))"

definition sample_recovered :: store where
  "sample_recovered = projr (endorseOperatorKey (sample_env 2) ''flt'' ''keyC'' ''keyB'' ''sig'' None sample_armed)"

lemma recovery_grant_single_use_witness:
  "\<exists>g\<in>set (operator_recovery_grants sample_armed). armed ''flt'' 2 g \<and> gr_endorser_key_id g = ''keyB''
      \<and> gr_target_key_id g = ''keyC'' \<and> operatorKeyMayEndorse sample_recovered ''flt'' ''keyC''
      \<and> (\<forall>u. reach sample_recovered (key_step sample_crypto) u \<longrightarrow>
           g\<lparr> gr_consumed_at := Some 2 \<rparr> \<in> set (operator_recovery_grants u))"
proof -
  have "endorseOperatorKey (sample_env 2) ''flt'' ''keyC'' ''keyB'' ''sig'' None sample_armed = Inr sample_recovered"
    unfolding sample_recovered_def by code_simp
  moreover have "\<not> endorserIsTrusted sample_armed ''flt'' ''keyB'' None" by code_simp
  ultimately show ?thesis
    using recovery_grant_single_use [of "''keyC''" "''keyB''" "sample_env 2" "''flt''" "''sig''" None sample_armed
        sample_recovered sample_crypto] by simp
qed

text \<open>
  At any instant at most one recovery grant of a fleet is armed among those created by then, in
  every reachable state: there are never two ways in.
\<close>

theorem one_armed_grant:
  assumes "reach empty_store (key_step C) s"
  shows "length (filter (\<lambda>g. armed f n g \<and> gr_created_at g \<le> n) (operator_recovery_grants s)) \<le> 1"
  by (rule one_armed [OF grants.inv_reach [OF assms]])

lemma one_armed_grant_witness:
  "length (filter (\<lambda>g. armed ''flt'' 5 g \<and> gr_created_at g \<le> 5) (operator_recovery_grants sample_keys)) \<le> 1"
  by (rule one_armed_grant [OF sample_keys_reach])

end
