(* ===== verification/Inbox.thy ===== *)
theory Inbox
  imports Messaging Operator_Keys
begin

text \<open>
  Receiving: the inbox poll with its context (attachments, replies, room history, roster, operator keys), the
  conversation floor, the catch-up tail, the sender's view of its own messages, and acknowledgements
  (\<^verbatim>\<open>db.ts\<close> from \<^verbatim>\<open>getInbox\<close> to \<^verbatim>\<open>ackMessages\<close>).
\<close>

section \<open>Metadata members\<close>

text \<open>\<^verbatim>\<open>row.metadata_json ? JSON.parse(row.metadata_json) : {}\<close>.\<close>

definition parsed_meta :: "message_row \<Rightarrow> json" where
  "parsed_meta m = (case ms_metadata m of None \<Rightarrow> JObj [] | Some v \<Rightarrow> v)"

text \<open>\<^verbatim>\<open>meta.k ?? null\<close>.\<close>

definition or_null :: "json \<Rightarrow> string \<Rightarrow> json" where
  "or_null v k = (case json_get v k of None \<Rightarrow> JNull | Some x \<Rightarrow> x)"

text \<open>\<^verbatim>\<open>v.k ?? text\<close>.\<close>

definition or_text :: "json \<Rightarrow> string \<Rightarrow> string \<Rightarrow> json" where
  "or_text v k t = (if nullish (json_get v k) then JStr t else the (json_get v k))"

definition meta_strings :: "json \<Rightarrow> string \<Rightarrow> string list" where
  "meta_strings v k = (case json_get v k of Some (JArr vs) \<Rightarrow> map js_string vs | _ \<Rightarrow> [])"

text \<open>The id a message says it replies to.\<close>

definition reply_ref :: "message_row \<Rightarrow> string option" where
  "reply_ref m = (case json_get (parsed_meta m) ''reply_to_message_id'' of
     None \<Rightarrow> None | Some v \<Rightarrow> if json_truthy v then Some (js_string v) else None)"

section \<open>What an agent may read\<close>

definition messageVisibleTo :: "store \<Rightarrow> message_row \<Rightarrow> string \<Rightarrow> bool" where
  "messageVisibleTo s m agentId =
     (let roomOf = (\<lambda>r. rm_id r = ms_conversation_id m \<and> rm_fleet_id r = ms_fleet_id m) in
      ms_sender_agent_id m = agentId
      \<or> select_exists (\<lambda>r. roomOf r \<and> select_exists (\<lambda>p. p = (rm_id r, agentId)) (room_members s)) (rooms s)
      \<or> (\<not> select_exists roomOf (rooms s)
          \<and> select_exists (\<lambda>d. dl_message_id d = ms_id m \<and> dl_recipient_agent_id d = agentId) (message_deliveries s)))"

definition getAttachmentsMeta :: "store \<Rightarrow> string \<Rightarrow> string list \<Rightarrow> attachment_row list" where
  "getAttachmentsMeta s fleetId ids =
     (if ids = [] then [] else select_all (\<lambda>r. at_fleet_id r = fleetId \<and> at_id r \<in> set ids) (attachments s))"

definition runtime_of :: "store \<Rightarrow> string \<Rightarrow> string option" where
  "runtime_of s agentId = map_option ag_runtime (select_one (\<lambda>a. ag_id a = agentId) (agents s))"

definition sender_kind :: "store \<Rightarrow> string \<Rightarrow> string" where
  "sender_kind s agentId = (if runtime_of s agentId = Some ''operator'' then ''operator'' else ''agent'')"

record snapshot =
  sn_message_id :: string
  sn_sender_agent_id :: string
  sn_sender_kind :: string
  sn_sender_label :: string
  sn_text :: string
  sn_created_at :: int
  sn_operator_sig :: json
  sn_agent_sig :: json
  sn_key_id :: json
  sn_sig_canonical :: json
  sn_message_type :: string
  sn_priority :: string
  sn_attachments :: "string list"

definition sender_label :: "store \<Rightarrow> message_row \<Rightarrow> string" where
  "sender_label s m =
     (if sender_kind s (ms_sender_agent_id m) = ''operator''
      then js_string (or_text (parsed_meta m) ''sender_label'' ''Operator'')
      else case select_one (\<lambda>a. ag_id a = ms_sender_agent_id m) (agents s) of
             Some a \<Rightarrow> ag_display_name a | None \<Rightarrow> ms_sender_agent_id m)"

definition snapshotOf :: "store \<Rightarrow> message_row \<Rightarrow> snapshot" where
  "snapshotOf s m =
     (let sk = sender_kind s (ms_sender_agent_id m); meta = parsed_meta m in
      \<lparr> sn_message_id = ms_id m, sn_sender_agent_id = ms_sender_agent_id m, sn_sender_kind = sk,
        sn_sender_label = sender_label s m,
        sn_text = (case body_text (ms_body m) of None \<Rightarrow> [] | Some t \<Rightarrow> t), sn_created_at = ms_created_at m,
        sn_operator_sig = (if sk = ''operator'' then or_null meta ''operator_sig'' else JNull),
        sn_agent_sig = (if sk = ''agent'' then or_null meta ''agent_sig'' else JNull),
        sn_key_id = or_null meta ''key_id'', sn_sig_canonical = or_null meta ''sig_canonical'',
        sn_message_type = ms_message_type m, sn_priority = ms_priority m,
        sn_attachments = body_attachments (ms_body m) \<rparr>)"

section \<open>The inbox poll\<close>

text \<open>The deliveries a poll collects, oldest first, each with its message.\<close>

definition inbox_rows :: "env \<Rightarrow> string \<Rightarrow> int \<Rightarrow> store \<Rightarrow> (message_row \<times> delivery_row) list" where
  "inbox_rows E agentId limit s =
     limit_rows limit (order_asc (\<lambda>(m, d). dl_queued_at d)
       (concat (map (\<lambda>d. map (\<lambda>m. (m, d))
            (select_all (\<lambda>m. ms_id m = dl_message_id d \<and> ms_expires_at m > now E) (messages s)))
          (select_all (\<lambda>d. dl_recipient_agent_id d = agentId \<and> dl_status d = ''queued''
              \<and> (case dl_next_retry_at d of None \<Rightarrow> True | Some t \<Rightarrow> t \<le> now E)) (message_deliveries s)))))"

definition mark_delivered :: "env \<Rightarrow> string \<Rightarrow> message_row \<times> delivery_row \<Rightarrow> store \<Rightarrow> store" where
  "mark_delivered E agentId = (\<lambda>(m, d) s.
     recordEvent E (ms_fleet_id m) ''message.delivered'' ''agent'' (Some agentId) ''message'' (Some (ms_id m))
       (Some (ms_conversation_id m)) (JObj [(''delivery_id'', JStr (dl_id d))])
       (s\<lparr> message_deliveries := update_where (\<lambda>r. dl_id r = dl_id d)
             (\<lambda>r. r\<lparr> dl_status := ''delivered'', dl_delivered_at := Some (now E),
                     dl_delivery_attempts := dl_delivery_attempts r + 1 \<rparr>) (message_deliveries s) \<rparr>))"

record inbox_message =
  im_message_id :: string
  im_conversation_id :: string
  im_correlation_id :: string
  im_sender_agent_id :: string
  im_sender_kind :: string
  im_message_type :: string
  im_priority :: string
  im_body :: json
  im_attachments :: "(string \<times> string \<times> string \<times> int) list"
  im_metadata :: json
  im_mentions :: "string list"
  im_reply_to :: "snapshot option"
  im_operator_sig :: json
  im_agent_sig :: json
  im_key_id :: json
  im_sig_canonical :: json
  im_created_at :: int
  im_deadline_at :: int

record roster_entry =
  ro_agent_id :: string
  ro_display_name :: string
  ro_runtime :: string
  ro_status :: string
  ro_quarantine_reason :: "string option"
  ro_identity_public_key :: "string option"
  ro_key_id :: "string option"
  ro_endorsed_by_key_id :: "string option"
  ro_endorsement_sig :: "string option"

record inbox =
  ib_messages :: "inbox_message list"
  ib_controls :: "(string \<times> string \<times> json) list"
  ib_fleet_id :: "string option"
  ib_operator_trusted :: bool
  ib_peer_autoreply :: bool
  ib_peer_turn_budget :: "int option"
  ib_conversation_budgets :: "(string \<times> int) list"
  ib_roster :: "roster_entry list"
  ib_conversation_history :: "(string \<times> snapshot list) list"
  ib_rooms :: "(string \<times> string) list"
  ib_operator_keys :: "json list"

definition HISTORY_LIMIT :: nat where
  "HISTORY_LIMIT = 15"

text \<open>\<^verbatim>\<open>ORDER BY created_at DESC, rowid DESC LIMIT n\<close>, then reversed: the newest \<open>n\<close>, in chronological order.\<close>

definition newest :: "nat \<Rightarrow> message_row list \<Rightarrow> message_row list" where
  "newest n rows = rev (take n (rev (order_asc ms_created_at rows)))"

text \<open>The key of each teammate: the first active one, replaced by the first endorsed one.\<close>

definition prefer_endorsed :: "identity_key_row list \<Rightarrow> string \<Rightarrow> identity_key_row option" where
  "prefer_endorsed keys agentId =
     (let own = select_all (\<lambda>k. ik_agent_id k = agentId) keys in
      case select_one (\<lambda>k. truthy (ik_endorsed_by_key_id k)) own of
        Some k \<Rightarrow> Some k | None \<Rightarrow> head_option own)"

definition inbox_roster :: "store \<Rightarrow> string \<Rightarrow> string \<Rightarrow> roster_entry list" where
  "inbox_roster s fleetId agentId =
     (let others = select_all (\<lambda>a. ag_fleet_id a = fleetId \<and> ag_runtime a \<noteq> ''operator'' \<and> ag_id a \<noteq> agentId) (agents s);
          recent = order_desc ag_created_at others;
          seen = order_desc (\<lambda>a. the (ag_last_seen_at a)) (filter (\<lambda>a. \<not> is_null (ag_last_seen_at a)) recent);
          ordered = seen @ filter (\<lambda>a. is_null (ag_last_seen_at a)) recent
      in map (\<lambda>a. let ik = prefer_endorsed (getAgentIdentityKeys s fleetId) (ag_id a) in
            \<lparr> ro_agent_id = ag_id a, ro_display_name = ag_display_name a, ro_runtime = ag_runtime a, ro_status = ag_status a,
              ro_quarantine_reason =
                (if ag_status a = ''quarantined''
                    \<and> ag_quarantine_reason a \<in> {Some ''heartbeat_timeout'', Some ''rate_limit_abuse'', Some ''operator''}
                 then ag_quarantine_reason a else None),
              ro_identity_public_key = map_option ik_public_key ik, ro_key_id = map_option ik_key_id ik,
              ro_endorsed_by_key_id = Option.bind ik ik_endorsed_by_key_id,
              ro_endorsement_sig = Option.bind ik ik_endorsement_sig \<rparr>) (take 50 ordered))"

definition member_rooms :: "store \<Rightarrow> string \<Rightarrow> string \<Rightarrow> room_row list" where
  "member_rooms s fleetId agentId =
     select_all (\<lambda>r. rm_fleet_id r = fleetId \<and> select_exists (\<lambda>p. p = (rm_id r, agentId)) (room_members s)) (rooms s)"

definition room_history :: "store \<Rightarrow> string \<Rightarrow> string \<Rightarrow> message_row list" where
  "room_history s fleetId cid =
     newest HISTORY_LIMIT (select_all (\<lambda>m. ms_fleet_id m = fleetId \<and> ms_conversation_id m = cid) (messages s))"

text \<open>The row a reply refers to, among the rows of the fleet the polling agent may read.\<close>

definition reply_row :: "store \<Rightarrow> string \<Rightarrow> string \<Rightarrow> message_row \<Rightarrow> message_row option" where
  "reply_row s fleetId agentId m =
     (case reply_ref m of None \<Rightarrow> None
      | Some rid \<Rightarrow>
          (case select_one (\<lambda>r. ms_fleet_id r = fleetId \<and> ms_id r = rid \<and> messageVisibleTo s r agentId) (messages s) of
             None \<Rightarrow> None
           | Some r \<Rightarrow> if ms_conversation_id r \<noteq> ms_conversation_id m then None else Some r))"

definition inbox_entry :: "store \<Rightarrow> string option \<Rightarrow> string \<Rightarrow> message_row \<Rightarrow> inbox_message" where
  "inbox_entry s fleetId agentId m =
     (let meta = parsed_meta m;
          kind = sender_kind s (ms_sender_agent_id m);
          metas = (if truthy fleetId then getAttachmentsMeta s (the fleetId) (body_attachments (ms_body m)) else [])
      in \<lparr> im_message_id = ms_id m, im_conversation_id = ms_conversation_id m, im_correlation_id = ms_correlation_id m,
           im_sender_agent_id = ms_sender_agent_id m, im_sender_kind = kind, im_message_type = ms_message_type m,
           im_priority = ms_priority m, im_body = ms_body m,
           im_attachments = List.map_filter (\<lambda>aid. map_option (\<lambda>r. (at_id r, at_filename r, at_mime r, at_size_bytes r))
             (select_one (\<lambda>r. at_id r = aid) metas)) (body_attachments (ms_body m)),
           im_metadata = meta, im_mentions = meta_strings meta ''mentions'',
           im_reply_to = (if truthy fleetId then map_option (snapshotOf s) (reply_row s (the fleetId) agentId m) else None),
           im_operator_sig = (if kind = ''operator'' then or_null meta ''operator_sig'' else JNull),
           im_agent_sig = (if kind = ''agent'' then or_null meta ''agent_sig'' else JNull),
           im_key_id = or_null meta ''key_id'', im_sig_canonical = or_null meta ''sig_canonical'',
           im_created_at = ms_created_at m, im_deadline_at = ms_expires_at m \<rparr>)"

definition live_controls :: "env \<Rightarrow> string \<Rightarrow> store \<Rightarrow> control_row list" where
  "live_controls E agentId s =
     order_desc ca_created_at (select_all (\<lambda>c. ca_target_kind c = ''agent'' \<and> ca_target_id c = agentId
        \<and> (case ca_expires_at c of None \<Rightarrow> True | Some t \<Rightarrow> t > now E)) (control_actions s))"

definition getInbox :: "env \<Rightarrow> string \<Rightarrow> int \<Rightarrow> store \<Rightarrow> inbox \<times> store" where
  "getInbox E agentId limit s0 =
     (let deliveries = inbox_rows E agentId limit s0;
          s = fold (mark_delivered E agentId) deliveries s0;
          self = select_one (\<lambda>a. ag_id a = agentId) (agents s);
          fleetId = map_option ag_fleet_id self;
          convIds = js_unique (map (\<lambda>(m, d). ms_conversation_id m) deliveries);
          roomRows = (if truthy fleetId
                      then select_all (\<lambda>r. rm_id r \<in> set convIds) (member_rooms s (the fleetId) agentId) else [])
      in (\<lparr> ib_messages = map (\<lambda>(m, d). inbox_entry s fleetId agentId m) deliveries,
            ib_controls = map (\<lambda>c. (ca_id c, ca_action c, or_text (ca_payload c) ''reason'' ''operator control''))
              (live_controls E agentId s),
            ib_fleet_id = fleetId,
            ib_operator_trusted = (case self of None \<Rightarrow> False | Some a \<Rightarrow> ag_operator_trusted a),
            ib_peer_autoreply = (case self of None \<Rightarrow> False | Some a \<Rightarrow> ag_peer_autoreply a),
            ib_peer_turn_budget = Option.bind self (\<lambda>a. turnBudgetOut (ag_peer_turn_budget a)),
            ib_conversation_budgets =
              (if truthy fleetId
               then map (\<lambda>r. (rm_id r, case turnBudgetOut (rm_project_turn_budget r) of None \<Rightarrow> NO_TURN_LIMIT | Some n \<Rightarrow> n))
                      (select_all rm_project_mode (member_rooms s (the fleetId) agentId))
               else []),
            ib_roster = (if truthy fleetId then inbox_roster s (the fleetId) agentId else []),
            ib_conversation_history = map (\<lambda>r. (rm_id r, map (snapshotOf s) (room_history s (the fleetId) (rm_id r)))) roomRows,
            ib_rooms = map (\<lambda>r. (rm_id r, rm_name r)) roomRows,
            ib_operator_keys = (if truthy fleetId then operatorKeysForAgents s (the fleetId) else []) \<rparr>,
          s))"

section \<open>The floor\<close>

text \<open>The upsert: the conversation id alone is the key of the table.\<close>

definition put_floor :: "floor_row \<Rightarrow> store \<Rightarrow> store" where
  "put_floor row s =
     (let key = (\<lambda>r. fo_conversation_id r = fo_conversation_id row) in
      if select_exists key (conversation_floors s)
      then s\<lparr> conversation_floors := update_where key (\<lambda>_. row) (conversation_floors s) \<rparr>
      else s\<lparr> conversation_floors := conversation_floors s @ [row] \<rparr>)"

definition acquireFloor ::
  "env \<Rightarrow> string \<Rightarrow> string \<Rightarrow> string \<Rightarrow> int \<Rightarrow> store \<Rightarrow> (bool \<times> string \<times> int) \<times> store" where
  "acquireFloor E fleetId conversationId agentId ttlSeconds s =
     (let expiresAt = addSeconds (now E) (max 0 ttlSeconds);
          cur = select_one (\<lambda>r. fo_conversation_id r = conversationId \<and> fo_fleet_id r = fleetId) (conversation_floors s);
          free = (case cur of None \<Rightarrow> True | Some r \<Rightarrow> fo_expires_at r \<le> now E \<or> fo_holder_agent_id r = agentId)
      in if \<not> free then ((False, fo_holder_agent_id (the cur), fo_expires_at (the cur)), s)
         else ((True, agentId, expiresAt),
               put_floor \<lparr> fo_conversation_id = conversationId, fo_fleet_id = fleetId, fo_holder_agent_id = agentId,
                           fo_acquired_at = now E, fo_expires_at = expiresAt \<rparr> s))"

definition releaseFloor :: "string \<Rightarrow> string \<Rightarrow> string \<Rightarrow> store \<Rightarrow> bool \<times> store" where
  "releaseFloor fleetId conversationId agentId s =
     (let p = (\<lambda>r. fo_conversation_id r = conversationId \<and> fo_fleet_id r = fleetId \<and> fo_holder_agent_id r = agentId) in
      (0 < changes p (conversation_floors s), s\<lparr> conversation_floors := delete_where p (conversation_floors s) \<rparr>))"

definition isConversationParticipant :: "store \<Rightarrow> string \<Rightarrow> string \<Rightarrow> string \<Rightarrow> bool" where
  "isConversationParticipant s fleetId conversationId agentId =
     (if select_exists (\<lambda>r. rm_id r = conversationId) (member_rooms s fleetId agentId) then True
      else select_exists (\<lambda>m. ms_fleet_id m = fleetId \<and> ms_conversation_id m = conversationId
             \<and> (ms_sender_agent_id m = agentId
                \<or> select_exists (\<lambda>d. dl_message_id d = ms_id m \<and> dl_recipient_agent_id d = agentId) (message_deliveries s)))
             (messages s))"

definition tail_rows :: "store \<Rightarrow> string \<Rightarrow> string \<Rightarrow> string \<Rightarrow> int \<Rightarrow> message_row list" where
  "tail_rows s fleetId conversationId agentId limit =
     newest (nat (max 1 limit)) (select_all (\<lambda>m. ms_fleet_id m = fleetId \<and> ms_conversation_id m = conversationId
        \<and> messageVisibleTo s m agentId) (messages s))"

definition getConversationTail :: "store \<Rightarrow> string \<Rightarrow> string \<Rightarrow> string \<Rightarrow> int \<Rightarrow> snapshot list" where
  "getConversationTail s fleetId conversationId agentId limit =
     map (snapshotOf s) (tail_rows s fleetId conversationId agentId limit)"

section \<open>What a sender can look up\<close>

record delivery_status =
  ds_recipient_agent_id :: string
  ds_status :: string
  ds_queued_at :: int
  ds_delivered_at :: "int option"
  ds_acked_at :: "string option"
  ds_delivery_attempts :: int
  ds_retry_count :: int
  ds_last_failure_reason :: "string option"
  ds_dead_lettered_at :: "int option"
  ds_dead_letter_reason :: "string option"

record message_status =
  st_row :: message_row
  st_expired :: bool
  st_deliveries :: "delivery_status list"

definition delivery_status_of :: "delivery_row \<times> dead_letter_row option \<Rightarrow> delivery_status" where
  "delivery_status_of = (\<lambda>(d, dl).
     \<lparr> ds_recipient_agent_id = dl_recipient_agent_id d, ds_status = dl_status d, ds_queued_at = dl_queued_at d,
       ds_delivered_at = dl_delivered_at d, ds_acked_at = dl_acked_at d, ds_delivery_attempts = dl_delivery_attempts d,
       ds_retry_count = dl_retry_count d, ds_last_failure_reason = dl_last_failure_reason d,
       ds_dead_lettered_at = map_option dd_dead_lettered_at dl, ds_dead_letter_reason = map_option dd_failure_reason dl \<rparr>)"

text \<open>\<^verbatim>\<open>LEFT JOIN dead_letters ON original_delivery_id = d.id\<close>.\<close>

definition with_dead_letters :: "store \<Rightarrow> delivery_row \<Rightarrow> (delivery_row \<times> dead_letter_row option) list" where
  "with_dead_letters s d =
     (case select_all (\<lambda>x. dd_original_delivery_id x = dl_id d) (dead_letters s) of
        [] \<Rightarrow> [(d, None)] | xs \<Rightarrow> map (\<lambda>x. (d, Some x)) xs)"

definition getSentMessageStatus :: "env \<Rightarrow> string \<Rightarrow> string \<Rightarrow> string \<Rightarrow> store \<Rightarrow> message_status option" where
  "getSentMessageStatus E fleetId senderAgentId messageId s =
     (case select_one (\<lambda>m. ms_id m = messageId \<and> ms_fleet_id m = fleetId \<and> ms_sender_agent_id m = senderAgentId) (messages s) of
        None \<Rightarrow> None
      | Some m \<Rightarrow>
          Some \<lparr> st_row = m, st_expired = (ms_expires_at m \<le> now E),
                 st_deliveries = map delivery_status_of (concat (map (with_dead_letters s)
                   (order_asc dl_queued_at (sort_key dl_id
                     (select_all (\<lambda>d. dl_message_id d = messageId) (message_deliveries s)))))) \<rparr>)"

record conversation_entry =
  cv_conversation_id :: string
  cv_kind :: string
  cv_name :: "string option"
  cv_message_count :: nat
  cv_sent_count :: nat
  cv_last_message_at :: "int option"
  cv_last_activity_at :: "int option"

definition participated :: "store \<Rightarrow> string \<Rightarrow> string \<Rightarrow> string list" where
  "participated s fleetId agentId =
     js_unique (map ms_conversation_id (select_all (\<lambda>m. ms_fleet_id m = fleetId \<and> ms_sender_agent_id m = agentId) (messages s))
       @ concat (map (\<lambda>d. map ms_conversation_id
            (select_all (\<lambda>m. ms_id m = dl_message_id d \<and> ms_fleet_id m = fleetId) (messages s)))
          (select_all (\<lambda>d. dl_recipient_agent_id d = agentId) (message_deliveries s)))
       @ map rm_id (member_rooms s fleetId agentId))"

definition max_instant :: "int list \<Rightarrow> int option" where
  "max_instant ts = (if ts = [] then None else Some (Max (set ts)))"

definition conversation_entry_of :: "store \<Rightarrow> string \<Rightarrow> string \<Rightarrow> string \<Rightarrow> conversation_entry" where
  "conversation_entry_of s fleetId agentId cid =
     (let r = select_one (\<lambda>r. rm_id r = cid \<and> rm_fleet_id r = fleetId) (rooms s);
          ms = select_all (\<lambda>m. ms_fleet_id m = fleetId \<and> ms_conversation_id m = cid) (messages s);
          last = max_instant (map ms_created_at ms)
      in \<lparr> cv_conversation_id = cid, cv_kind = (case r of None \<Rightarrow> ''direct'' | Some _ \<Rightarrow> ''room''),
           cv_name = map_option rm_name r, cv_message_count = length ms,
           cv_sent_count = length (select_all (\<lambda>m. ms_sender_agent_id m = agentId) ms), cv_last_message_at = last,
           cv_last_activity_at = (case last of Some t \<Rightarrow> Some t | None \<Rightarrow> map_option rm_created_at r) \<rparr>)"

definition listAgentConversations :: "store \<Rightarrow> string \<Rightarrow> string \<Rightarrow> int \<Rightarrow> conversation_entry list" where
  "listAgentConversations s fleetId agentId limit =
     (let rows = map (conversation_entry_of s fleetId agentId) (participated s fleetId agentId) in
      take (nat (max 1 limit))
        (order_desc (\<lambda>r. the (cv_last_activity_at r)) (filter (\<lambda>r. \<not> is_null (cv_last_activity_at r)) rows)
         @ filter (\<lambda>r. is_null (cv_last_activity_at r)) rows))"

record sent_entry =
  se_row :: message_row
  se_expired :: bool
  se_counts :: "nat \<times> nat \<times> nat \<times> nat \<times> nat"

definition delivery_counts :: "store \<Rightarrow> string \<Rightarrow> nat \<times> nat \<times> nat \<times> nat \<times> nat" where
  "delivery_counts s mid =
     (let ds = select_all (\<lambda>d. dl_message_id d = mid) (message_deliveries s);
          n = (\<lambda>st. length (filter (\<lambda>d. dl_status d = st) ds))
      in (length ds, n ''queued'', n ''delivered'', n ''acked'', n ''dead_lettered''))"

definition listSentMessages :: "env \<Rightarrow> string \<Rightarrow> string \<Rightarrow> string option \<Rightarrow> int \<Rightarrow> store \<Rightarrow> sent_entry list" where
  "listSentMessages E fleetId agentId since limit s =
     map (\<lambda>m. \<lparr> se_row = m, se_expired = (ms_expires_at m \<le> now E), se_counts = delivery_counts s (ms_id m) \<rparr>)
       (take (nat (max 1 limit)) (rev (order_asc ms_created_at
          (select_all (\<lambda>m. ms_fleet_id m = fleetId \<and> ms_sender_agent_id m = agentId
             \<and> (truthy since \<longrightarrow> the since < to_iso (ms_created_at m))) (messages s)))))"

section \<open>Acknowledgements\<close>

definition ack_one :: "env \<Rightarrow> string \<Rightarrow> string \<times> string \<Rightarrow> nat \<times> store \<Rightarrow> nat \<times> store" where
  "ack_one E agentId = (\<lambda>(messageId, receivedAt) (updated, s).
     let p = (\<lambda>d. dl_message_id d = messageId \<and> dl_recipient_agent_id d = agentId \<and> dl_status d \<noteq> ''acked'') in
     if changes p (message_deliveries s) = 0 then (updated, s)
     else
       let s1 = s\<lparr> message_deliveries := update_where p
                    (\<lambda>d. d\<lparr> dl_status := ''acked'', dl_acked_at := Some receivedAt \<rparr>) (message_deliveries s) \<rparr>;
           pending = select_exists (\<lambda>d. dl_message_id d = messageId \<and> dl_status d \<noteq> ''acked'') (message_deliveries s1);
           s2 = (if pending then s1
                 else s1\<lparr> messages := update_where (\<lambda>m. ms_id m = messageId) (\<lambda>m. m\<lparr> ms_status := ''acked'' \<rparr>) (messages s1) \<rparr>)
       in (Suc updated,
           case select_one (\<lambda>m. ms_id m = messageId) (messages s2) of
             None \<Rightarrow> s2
           | Some m \<Rightarrow> recordEvent E (ms_fleet_id m) ''message.acked'' ''agent'' (Some agentId) ''message'' (Some messageId)
                        (Some (ms_conversation_id m)) (JObj [(''received_at'', JStr receivedAt)]) s2))"

definition ackMessages :: "env \<Rightarrow> string \<Rightarrow> (string \<times> string) list \<Rightarrow> store \<Rightarrow> nat \<times> store" where
  "ackMessages E agentId ackRows s = fold (ack_one E agentId) ackRows (0, s)"

section \<open>A delivery is handed out once\<close>

text \<open>What collecting a delivery does to its row.\<close>

definition collected :: "env \<Rightarrow> delivery_row \<Rightarrow> delivery_row" where
  "collected E d = d\<lparr> dl_status := ''delivered'', dl_delivered_at := Some (now E), dl_delivery_attempts := dl_delivery_attempts d + 1 \<rparr>"

lemma collected_simps [simp]:
  "dl_id (collected E d) = dl_id d" "dl_message_id (collected E d) = dl_message_id d"
  "dl_recipient_agent_id (collected E d) = dl_recipient_agent_id d" "dl_status (collected E d) = ''delivered''"
  by (simp_all add: collected_def)

lemma mark_delivered_frame [simp]:
  "agents (mark_delivered E a r s) = agents s" "messages (mark_delivered E a r s) = messages s"
  "rooms (mark_delivered E a r s) = rooms s" "room_members (mark_delivered E a r s) = room_members s"
  "attachments (mark_delivered E a r s) = attachments s"
  by (simp_all add: mark_delivered_def case_prod_beta)

lemma fold_mark_frame [simp]:
  "agents (fold (mark_delivered E a) rows s) = agents s" "messages (fold (mark_delivered E a) rows s) = messages s"
  "rooms (fold (mark_delivered E a) rows s) = rooms s" "room_members (fold (mark_delivered E a) rows s) = room_members s"
  "attachments (fold (mark_delivered E a) rows s) = attachments s"
  by (induction rows arbitrary: s) simp_all

lemma fold_mark_delivered:
  assumes "distinct (map (dl_id \<circ> snd) rows)"
  shows "message_deliveries (fold (mark_delivered E a) rows s) =
    update_where (\<lambda>d. dl_id d \<in> (dl_id \<circ> snd) ` set rows) (collected E) (message_deliveries s)"
  using assms
proof (induction rows arbitrary: s)
  case Nil
  then show ?case by (simp add: update_where_id)
next
  case (Cons r rows)
  have one: "message_deliveries (mark_delivered E a r s) = update_where (\<lambda>d. dl_id d = dl_id (snd r)) (collected E) (message_deliveries s)"
    by (cases r) (simp add: mark_delivered_def collected_def [abs_def])
  show ?case
    using Cons by (auto simp: one update_where_def)
qed

definition collectable :: "env \<Rightarrow> string \<Rightarrow> delivery_row \<Rightarrow> bool" where
  "collectable E a d \<longleftrightarrow> dl_recipient_agent_id d = a \<and> dl_status d = ''queued''
     \<and> (case dl_next_retry_at d of None \<Rightarrow> True | Some t \<Rightarrow> t \<le> now E)"

lemma inbox_rows_alt:
  "inbox_rows E a n s = limit_rows n (order_asc (\<lambda>(m, d). dl_queued_at d)
     (concat (map (\<lambda>d. map (\<lambda>m. (m, d)) (filter (\<lambda>m. ms_id m = dl_message_id d \<and> ms_expires_at m > now E) (messages s)))
        (filter (collectable E a) (message_deliveries s)))))"
  by (simp add: inbox_rows_def collectable_def [abs_def] select_all_def)

lemma inbox_rows_in:
  "(m, d) \<in> set (inbox_rows E a n s) \<Longrightarrow> m \<in> set (messages s) \<and> d \<in> set (message_deliveries s) \<and> collectable E a d
     \<and> ms_id m = dl_message_id d \<and> now E < ms_expires_at m"
  by (auto simp: inbox_rows_alt dest!: subsetD [OF set_limit_rows])

lemma filter_key_short:
  assumes "distinct (map k xs)"
  shows "length (filter (\<lambda>x. k x = c \<and> P x) xs) \<le> 1"
  using changes_le_1 [of k xs "\<lambda>x. k x = c \<and> P x" c] assms by (simp add: changes_def)

lemma distinct_limit: "distinct (map k rows) \<Longrightarrow> distinct (map k (limit_rows n rows))"
  by (simp add: limit_rows_def take_map [symmetric])

lemma distinct_order: "distinct (map k (order_asc f rows)) = distinct (map k rows)"
  by (simp add: distinct_map order_asc_def)

lemma distinct_join:
  assumes "distinct (map k ds)" "\<And>d. length (g d) \<le> 1" "\<And>d x. x \<in> set (g d) \<Longrightarrow> k (snd x) = k d"
  shows "distinct (map (k \<circ> snd) (concat (map g ds)))"
  using assms(1)
proof (induction ds)
  case (Cons d ds)
  have "map (k \<circ> snd) (g d) = [] \<or> map (k \<circ> snd) (g d) = [k d]"
    using assms(2) [of d] assms(3) [of _ d] by (cases "g d") auto
  moreover have "k d \<notin> (k \<circ> snd) ` set (concat (map g ds))"
    using Cons.prems assms(3) by force
  ultimately have "distinct (map (k \<circ> snd) (g d) @ map (k \<circ> snd) (concat (map g ds)))"
    using Cons.IH Cons.prems by (elim disjE; simp add: comp_def)
  then show ?case by (simp add: comp_def)
qed simp

lemma inbox_rows_distinct:
  assumes "distinct (map ms_id (messages s))" "distinct (map dl_id (message_deliveries s))"
  shows "distinct (map (dl_id \<circ> snd) (inbox_rows E a n s))"
  unfolding inbox_rows_alt
  by (intro distinct_limit, unfold distinct_order, rule distinct_join)
    (use assms filter_key_short [OF assms(1)] in \<open>auto intro: distinct_map_filter\<close>)

lemma getInbox_parts:
  assumes "getInbox E a n s = (r, t)"
  shows "t = fold (mark_delivered E a) (inbox_rows E a n s) s"
    "ib_messages r = map (\<lambda>(m, d). inbox_entry t (ib_fleet_id r) a m) (inbox_rows E a n s)"
    "ib_fleet_id r = map_option ag_fleet_id (select_one (\<lambda>x. ag_id x = a) (agents s))"
    "ib_conversation_history r = map (\<lambda>q. (rm_id q, map (snapshotOf t) (room_history t (the (ib_fleet_id r)) (rm_id q))))
       (if truthy (ib_fleet_id r) then select_all (\<lambda>q. rm_id q \<in> (\<lambda>(m, d). ms_conversation_id m) ` set (inbox_rows E a n s))
          (member_rooms s (the (ib_fleet_id r)) a) else [])"
  using assms by (auto simp: getInbox_def Let_def member_rooms_def)

lemma sorted_limit_order: "sorted (map k (limit_rows n (order_asc k rows)))"
proof -
  have "sorted (take i (map k (order_asc k rows)))" for i
    by (rule sorted_wrt_take) (simp add: order_asc_def)
  then show ?thesis by (simp add: limit_rows_def take_map order_asc_def)
qed

lemma inbox_rows_sorted: "sorted (map (dl_queued_at \<circ> snd) (inbox_rows E a n s))"
proof -
  have "(\<lambda>(m :: message_row, d :: delivery_row). dl_queued_at d) = dl_queued_at \<circ> snd" by auto
  then show ?thesis by (simp only: inbox_rows_def sorted_limit_order)
qed

lemma inbox_rows_collected:
  assumes "message_deliveries t = update_where (\<lambda>d. dl_id d \<in> I) (collected E) (message_deliveries s)"
  shows "(dl_id \<circ> snd) ` set (inbox_rows E' a' n' t) \<inter> I = {}"
proof -
  have "dl_id d \<notin> I" if "(m, d) \<in> set (inbox_rows E' a' n' t)" for m d
    using inbox_rows_in [OF that] unfolding assms by (auto simp: collectable_def in_update_where)
  then show ?thesis by auto
qed

text \<open>
  A poll hands each queued delivery out once.  It returns unexpired messages that are queued for the
  polling agent, at most the asked number, oldest first; it marks exactly those deliveries as delivered
  and counts the attempt; every other delivery keeps its row; and no later poll, by any agent, returns
  one of them again unless something puts it back in the queue.
\<close>

theorem inbox_hands_out_once:
  assumes "distinct (map ms_id (messages s))" "distinct (map dl_id (message_deliveries s))" "getInbox E a n s = (r, t)"
  shows "(\<forall>(m, d)\<in>set (inbox_rows E a n s). m \<in> set (messages s) \<and> d \<in> set (message_deliveries s)
      \<and> ms_id m = dl_message_id d \<and> now E < ms_expires_at m \<and> dl_recipient_agent_id d = a \<and> dl_status d = ''queued'')
    \<and> map im_message_id (ib_messages r) = map (ms_id \<circ> fst) (inbox_rows E a n s)
    \<and> (0 \<le> n \<longrightarrow> int (length (ib_messages r)) \<le> n)
    \<and> sorted (map (dl_queued_at \<circ> snd) (inbox_rows E a n s))
    \<and> message_deliveries t =
        update_where (\<lambda>d. dl_id d \<in> (dl_id \<circ> snd) ` set (inbox_rows E a n s)) (collected E) (message_deliveries s)
    \<and> (dl_id \<circ> snd) ` set (inbox_rows E' a' n' t) \<inter> (dl_id \<circ> snd) ` set (inbox_rows E a n s) = {}"
    (is "?own \<and> ?ids \<and> ?bound \<and> ?order \<and> ?marked \<and> ?once")
proof -
  have own: ?own by (auto dest!: inbox_rows_in simp: collectable_def)
  have ids: ?ids by (simp add: getInbox_parts(2) [OF assms(3)] inbox_entry_def Let_def case_prod_beta comp_def)
  have "0 \<le> n \<longrightarrow> int (length (inbox_rows E a n s)) \<le> n"
    unfolding inbox_rows_def by (intro impI length_limit_rows)
  then have bound: ?bound by (simp add: getInbox_parts(2) [OF assms(3)])
  have marked: ?marked
    unfolding getInbox_parts(1) [OF assms(3)] by (rule fold_mark_delivered [OF inbox_rows_distinct [OF assms(1,2)]])
  have once: ?once by (rule inbox_rows_collected [OF marked])
  show ?thesis by (intro conjI own ids bound marked once inbox_rows_sorted)
qed

section \<open>What a poll discloses\<close>

lemma in_newest: "m \<in> set (newest k rows) \<Longrightarrow> m \<in> set rows"
  by (auto simp: newest_def dest: in_set_takeD)

lemma visible_member_room:
  assumes "q \<in> set (member_rooms s f a)" "ms_conversation_id m = rm_id q" "ms_fleet_id m = f"
  shows "messageVisibleTo s m a"
  using assms by (auto simp: messageVisibleTo_def member_rooms_def select_all_def select_exists_iff Let_def)

lemma member_rooms_frame:
  "rooms t = rooms s \<Longrightarrow> room_members t = room_members s \<Longrightarrow> member_rooms t f a = member_rooms s f a"
  by (simp add: member_rooms_def)

lemma reply_row_Some:
  assumes "reply_row s f a m = Some q"
  shows "q \<in> set (messages s)" "ms_fleet_id q = f" "messageVisibleTo s q a" "ms_conversation_id q = ms_conversation_id m"
  using assms by (auto simp: reply_row_def split: option.splits if_splits dest!: select_one_Some)

text \<open>
  C35: a poll discloses nothing else.  Every quoted message, whether an answer's reference or a line of room
  history, is a stored message of the polling agent's own fleet that the agent may read: one it sent, one
  under a room it is a member of now, or, outside rooms, one that was delivered to it.
\<close>

theorem inbox_discloses_only_readable:
  assumes "getInbox E a n s = (r, t)"
    and "(\<exists>e\<in>set (ib_messages r). im_reply_to e = Some sn) \<or> (\<exists>(c, sns)\<in>set (ib_conversation_history r). sn \<in> set sns)"
  shows "\<exists>m\<in>set (messages s). sn = snapshotOf t m \<and> ib_fleet_id r = Some (ms_fleet_id m) \<and> messageVisibleTo t m a"
proof -
  note p = getInbox_parts [OF assms(1)]
  have frame: "messages t = messages s" "rooms t = rooms s" "room_members t = room_members s" by (simp_all add: p(1))
  from assms(2) consider (reply) m d where "(m, d) \<in> set (inbox_rows E a n s)" "im_reply_to (inbox_entry t (ib_fleet_id r) a m) = Some sn"
    | (history) c sns where "(c, sns) \<in> set (ib_conversation_history r)" "sn \<in> set sns"
    using p(2) by auto
  then show ?thesis
  proof cases
    case reply
    then obtain f q where "ib_fleet_id r = Some f" "reply_row t f a m = Some q" "sn = snapshotOf t q"
      by (auto simp: inbox_entry_def Let_def truthy_iff split: if_splits)
    with reply_row_Some [OF this(2)] frame(1) show ?thesis by auto
  next
    case history
    from history(1) obtain f q where q: "ib_fleet_id r = Some f" "q \<in> set (member_rooms s f a)"
      "sns = map (snapshotOf t) (room_history t f (rm_id q))"
      by (cases "ib_fleet_id r") (auto simp: p(4) select_all_def split: if_splits)
    with history(2) obtain m where "m \<in> set (room_history t f (rm_id q))" "sn = snapshotOf t m" by auto
    note q = q(1,2) this
    from q(3) have m: "m \<in> set (messages s)" "ms_fleet_id m = f" "ms_conversation_id m = rm_id q"
      unfolding room_history_def by (auto dest!: in_newest simp: select_all_def frame(1))
    moreover have "messageVisibleTo t m a"
      by (rule visible_member_room [OF _ m(3,2)]) (use q(2) in \<open>simp add: member_rooms_frame [OF frame(2,3)]\<close>)
    ultimately show ?thesis using q by auto
  qed
qed

section \<open>The catch-up tail\<close>

lemma newest_drop: "newest k rows = drop (length rows - k) (order_asc ms_created_at rows)"
  by (simp add: newest_def rev_take order_asc_def)

lemma newest_dropped:
  assumes "m \<in> set rows" "m \<notin> set (newest k rows)"
  shows "length (newest k rows) = k" "\<And>x. x \<in> set (newest k rows) \<Longrightarrow> ms_created_at m \<le> ms_created_at x"
proof -
  let ?xs = "order_asc ms_created_at rows" and ?i = "length rows - k"
  have len: "length ?xs = length rows" by (simp add: order_asc_def)
  have "m \<in> set (take ?i ?xs @ drop ?i ?xs)" using assms(1) by simp
  with assms(2) have m: "m \<in> set (take ?i ?xs)" by (simp only: newest_drop set_append) blast
  then have "0 < ?i" by (cases "?i") auto
  then show "length (newest k rows) = k" by (simp add: newest_drop len)
  have "sorted (map ms_created_at (take ?i ?xs @ drop ?i ?xs))" by (simp add: order_asc_def)
  then show "ms_created_at m \<le> ms_created_at x" if "x \<in> set (newest k rows)" for x
    using m that by (auto simp: sorted_append newest_drop simp del: append_take_drop_id)
qed

lemma sorted_newest: "sorted (map ms_created_at (newest k rows))"
  by (simp add: newest_drop drop_map [symmetric] order_asc_def)

text \<open>
  The tail handed to a floor holder is the newest part of what it may read of the conversation: at
  most the asked number of messages, in chronological order, each of that fleet and conversation and
  readable by the agent; a readable message is left out only when the tail is full of messages at
  least as new.
\<close>

theorem tail_is_newest_readable:
  "\<exists>rows. getConversationTail s f c a limit = map (snapshotOf s) rows \<and> sorted (map ms_created_at rows)
    \<and> int (length rows) \<le> max 1 limit
    \<and> set rows \<subseteq> {m \<in> set (messages s). ms_fleet_id m = f \<and> ms_conversation_id m = c \<and> messageVisibleTo s m a}
    \<and> (\<forall>m\<in>set (messages s). ms_fleet_id m = f \<and> ms_conversation_id m = c \<and> messageVisibleTo s m a \<and> m \<notin> set rows
        \<longrightarrow> int (length rows) = max 1 limit \<and> (\<forall>x\<in>set rows. ms_created_at m \<le> ms_created_at x))"
proof (intro exI conjI)
  let ?k = "nat (max 1 limit)"
  let ?V = "select_all (\<lambda>m. ms_fleet_id m = f \<and> ms_conversation_id m = c \<and> messageVisibleTo s m a) (messages s)"
  let ?rows = "tail_rows s f c a limit"
  have rows: "?rows = newest ?k ?V" by (simp add: tail_rows_def)
  show "getConversationTail s f c a limit = map (snapshotOf s) ?rows" by (simp add: getConversationTail_def)
  show "sorted (map ms_created_at ?rows)" by (simp only: rows sorted_newest)
  show "int (length ?rows) \<le> max 1 limit" by (simp add: rows newest_def)
  show "set ?rows \<subseteq> {m \<in> set (messages s). ms_fleet_id m = f \<and> ms_conversation_id m = c \<and> messageVisibleTo s m a}"
    unfolding rows by (auto dest!: in_newest simp: select_all_def)
  show "\<forall>m\<in>set (messages s). ms_fleet_id m = f \<and> ms_conversation_id m = c \<and> messageVisibleTo s m a \<and> m \<notin> set ?rows
        \<longrightarrow> int (length ?rows) = max 1 limit \<and> (\<forall>x\<in>set ?rows. ms_created_at m \<le> ms_created_at x)"
  proof (intro ballI impI)
    fix m
    assume "m \<in> set (messages s)" "ms_fleet_id m = f \<and> ms_conversation_id m = c \<and> messageVisibleTo s m a \<and> m \<notin> set ?rows"
    then have "m \<in> set ?V" "m \<notin> set (newest ?k ?V)" by (auto simp: rows select_all_def)
    from newest_dropped [OF this] show "int (length ?rows) = max 1 limit \<and> (\<forall>x\<in>set ?rows. ms_created_at m \<le> ms_created_at x)"
      by (simp add: rows)
  qed
qed

section \<open>The floor\<close>

text \<open>
  A lease: whoever holds a key keeps it against every other taker until it expires.  The laws are what the
  floor's client relies on; the run of steps by others is a parameter of the relation below.
\<close>

inductive lease_step ::
  "(int \<Rightarrow> 'k \<Rightarrow> 'a \<Rightarrow> int \<Rightarrow> 's \<Rightarrow> bool \<times> 's) \<Rightarrow> ('k \<Rightarrow> 'a \<Rightarrow> 's \<Rightarrow> bool \<times> 's) \<Rightarrow> 'k \<Rightarrow> 'a \<Rightarrow> int \<times> 's \<Rightarrow> int \<times> 's \<Rightarrow> bool"
  for acquire release k a where
  Acquire: "u \<le> v \<Longrightarrow> (k', b) \<noteq> (k, a) \<Longrightarrow> lease_step acquire release k a (u, s) (v, snd (acquire v k' b ttl s))"
| Release: "(k', b) \<noteq> (k, a) \<Longrightarrow> lease_step acquire release k a (u, s) (u, snd (release k' b s))"
| Wait: "u \<le> v \<Longrightarrow> lease_step acquire release k a (u, s) (v, s)"

locale lease =
  fixes holder :: "'s \<Rightarrow> 'k \<Rightarrow> ('a \<times> int) option"
    and acquire :: "int \<Rightarrow> 'k \<Rightarrow> 'a \<Rightarrow> int \<Rightarrow> 's \<Rightarrow> bool \<times> 's"
    and release :: "'k \<Rightarrow> 'a \<Rightarrow> 's \<Rightarrow> bool \<times> 's"
  assumes acquire_held: "holder s k = Some (a, e) \<Longrightarrow> u < e \<Longrightarrow> b \<noteq> a \<Longrightarrow> acquire u k b ttl s = (False, s)"
    and acquire_elsewhere: "k' \<noteq> k \<Longrightarrow> holder (snd (acquire u k' b ttl s)) k = holder s k"
    and release_other: "holder s k = Some (a, e) \<Longrightarrow> (k', b) \<noteq> (k, a) \<Longrightarrow> holder (snd (release k' b s)) k = holder s k"
begin

lemma clock_mono: "reach (u0, s0) (lease_step acquire release k a) (u, s) \<Longrightarrow> u0 \<le> u"
proof (induction "(u, s)" arbitrary: u s rule: reach.induct)
  case (reach_step p)
  then show ?case by (cases p) (auto elim!: lease_step.cases)
qed simp

lemma exclusive:
  assumes "reach (u0, s0) (lease_step acquire release k a) (u, s)" "holder s0 k = Some (a, e)" "u < e"
  shows "holder s k = Some (a, e)"
  using assms(1,3)
proof (induction "(u, s)" arbitrary: u s rule: reach.induct)
  case reach_start
  then show ?case using assms(2) by simp
next
  case (reach_step p)
  obtain u' s' where p: "p = (u', s')" by (cases p)
  from reach_step(3) p have "u' \<le> u" by (auto elim!: lease_step.cases)
  then have held: "holder s' k = Some (a, e)" using reach_step p by simp
  from reach_step(3) [unfolded p] show ?case
  proof cases
    case (Acquire k' b ttl)
    then show ?thesis
      using held reach_step(4) acquire_held [OF held, of u b ttl] acquire_elsewhere [of k' k u b ttl s'] by (cases "k' = k") auto
  next
    case (Release k' b)
    then show ?thesis using held release_other [OF held, of k' b] by simp
  next
    case Wait
    then show ?thesis using held by simp
  qed
qed

end

text \<open>The floor of the conversations of one fleet.\<close>

definition floor_holder :: "string \<Rightarrow> store \<Rightarrow> string \<Rightarrow> (string \<times> int) option" where
  "floor_holder f s c = map_option (\<lambda>r. (fo_holder_agent_id r, fo_expires_at r))
     (select_one (\<lambda>r. fo_conversation_id r = c \<and> fo_fleet_id r = f) (conversation_floors s))"

definition at_time :: "env \<Rightarrow> int \<Rightarrow> env" where
  "at_time E u = E\<lparr> now := u \<rparr>"

definition floor_acquire :: "env \<Rightarrow> string \<Rightarrow> int \<Rightarrow> string \<Rightarrow> string \<Rightarrow> int \<Rightarrow> store \<Rightarrow> bool \<times> store" where
  "floor_acquire E f u c a ttl s = (let ((granted, _), t) = acquireFloor (at_time E u) f c a ttl s in (granted, t))"

lemma select_one_delete:
  assumes "select_one q rows = Some r" "\<not> p r"
  shows "select_one q (delete_where p rows) = Some r"
  using assms by (induction rows) (auto simp: sql split: if_splits)

lemma select_one_update_other:
  assumes "\<And>r. p r \<Longrightarrow> \<not> q r \<and> \<not> q (u r)"
  shows "select_one q (update_where p u rows) = select_one q rows"
  using assms by (induction rows) (auto simp: sql)

lemma floor_holder_put:
  "floor_holder f (put_floor row s) c =
     (if fo_conversation_id row = c then if fo_fleet_id row = f then Some (fo_holder_agent_id row, fo_expires_at row) else None
      else floor_holder f s c)"
proof (cases "select_exists (\<lambda>r. fo_conversation_id r = fo_conversation_id row) (conversation_floors s)")
  case False
  then have "c = fo_conversation_id row \<Longrightarrow> select_one (\<lambda>r. fo_conversation_id r = c \<and> fo_fleet_id r = f) (conversation_floors s) = None"
    by (auto simp: select_exists_iff select_one_None)
  with False show ?thesis
    by (auto simp: floor_holder_def put_floor_def Let_def select_one_append select_one_single split: option.splits)
next
  case True
  have miss: "floor_holder f (put_floor row s) c = floor_holder f s c" if "fo_conversation_id row \<noteq> c"
    using True that select_one_update_other [of "\<lambda>r. fo_conversation_id r = fo_conversation_id row"
      "\<lambda>r. fo_conversation_id r = c \<and> fo_fleet_id r = f" "\<lambda>_. row" "conversation_floors s"]
    by (simp add: floor_holder_def put_floor_def Let_def)
  have hit: "select_one (\<lambda>r. fo_conversation_id r = fo_conversation_id row \<and> fo_fleet_id r = f)
      (update_where (\<lambda>r. fo_conversation_id r = fo_conversation_id row) (\<lambda>_. row) rows) =
      (if select_exists (\<lambda>r. fo_conversation_id r = fo_conversation_id row) rows \<and> fo_fleet_id row = f then Some row else None)" for rows
    by (induction rows) (auto simp: sql)
  show ?thesis
    using True miss hit [of "conversation_floors s"] by (auto simp: floor_holder_def put_floor_def Let_def)
qed

interpretation talk: lease "floor_holder f" "floor_acquire E f" "releaseFloor f" for E f
proof
  fix s :: store and k a e u b ttl k'
  show "floor_acquire E f u k b ttl s = (False, s)" if "floor_holder f s k = Some (a, e)" "u < e" "b \<noteq> a"
    using that by (auto simp: floor_holder_def floor_acquire_def acquireFloor_def at_time_def Let_def)
  show "floor_holder f (snd (floor_acquire E f u k' b ttl s)) k = floor_holder f s k" if "k' \<noteq> k"
    using that by (simp add: floor_acquire_def acquireFloor_def Let_def floor_holder_put)
  show "floor_holder f (snd (releaseFloor f k' b s)) k = floor_holder f s k"
    if "floor_holder f s k = Some (a, e)" "(k', b) \<noteq> (k, a)"
  proof -
    from that(1) obtain r where r: "select_one (\<lambda>r. fo_conversation_id r = k \<and> fo_fleet_id r = f) (conversation_floors s) = Some r"
      "fo_holder_agent_id r = a" by (auto simp: floor_holder_def)
    have "\<not> (fo_conversation_id r = k' \<and> fo_fleet_id r = f \<and> fo_holder_agent_id r = b)"
      using select_one_Some [OF r(1)] r(2) that(2) by auto
    from select_one_delete [where p = "\<lambda>r. fo_conversation_id r = k' \<and> fo_fleet_id r = f \<and> fo_holder_agent_id r = b", OF r(1) this] show ?thesis by (simp add: floor_holder_def releaseFloor_def Let_def r(1))
  qed
qed

lemma acquireFloor_iff:
  "acquireFloor E f c a ttl s =
     (case floor_holder f s c of
        Some (h, e) \<Rightarrow> if now E < e \<and> h \<noteq> a then ((False, h, e), s)
          else ((True, a, addSeconds (now E) (max 0 ttl)), snd (acquireFloor E f c a ttl s))
      | None \<Rightarrow> ((True, a, addSeconds (now E) (max 0 ttl)), snd (acquireFloor E f c a ttl s)))"
  by (auto simp: acquireFloor_def floor_holder_def Let_def split: option.splits)

lemma acquireFloor_granted:
  assumes "acquireFloor E f c a ttl s = ((True, h, e), t)"
  shows "floor_holder f t c = Some (a, e)" "h = a" "e = addSeconds (now E) (max 0 ttl)"
  using assms by (auto simp: acquireFloor_def Let_def floor_holder_put split: if_splits)

text \<open>
  C15: within a fleet a conversation has one speaker at a time.  From the moment a floor is granted until it
  expires, whatever other agents of the fleet acquire or release meanwhile, in this conversation or any
  other, and however time passes, every other agent that asks for the floor is refused, is told who
  holds it and until when, and changes nothing.
\<close>

theorem floor_mutual_exclusion:
  assumes "acquireFloor E f c a ttl s = ((True, h, e), t)"
    and "reach (now E, t) (lease_step (floor_acquire E f) (releaseFloor f) c a) (u, s')" "u < e" "b \<noteq> a"
  shows "acquireFloor (at_time E u) f c b ttl' s' = ((False, a, e), s')"
proof -
  have "floor_holder f s' c = Some (a, e)"
    by (rule talk.exclusive [OF assms(2) acquireFloor_granted(1) [OF assms(1)] assms(3)])
  with assms(3,4) show ?thesis by (subst acquireFloor_iff) (simp add: at_time_def)
qed

text \<open>
  C39: the floor cannot wedge a conversation.  A request is granted exactly when nobody else holds an
  unexpired floor, so a floor is free again once its holder releases it and, whether or not the holder
  ever does, at the latest when its time to live has passed.
\<close>

theorem floor_never_wedges:
  "(fst (fst (acquireFloor E f c b ttl s)) \<longleftrightarrow> (\<nexists>h e. floor_holder f s c = Some (h, e) \<and> h \<noteq> b \<and> now E < e))
   \<and> (\<forall>E0 a ttl0 s0. now E \<ge> addSeconds (now E0) (max 0 ttl0) \<longrightarrow>
        fst (fst (acquireFloor E0 f c a ttl0 s0)) \<longrightarrow> fst (fst (acquireFloor E f c b ttl (snd (acquireFloor E0 f c a ttl0 s0)))))
   \<and> (\<forall>a e. floor_holder f s c = Some (a, e) \<longrightarrow> distinct (map fo_conversation_id (conversation_floors s)) \<longrightarrow>
        fst (releaseFloor f c a s) \<and> fst (fst (acquireFloor E f c b ttl (snd (releaseFloor f c a s)))))"
proof -
  have grant: "fst (fst (acquireFloor E f c b ttl s)) \<longleftrightarrow> (\<nexists>h e. floor_holder f s c = Some (h, e) \<and> h \<noteq> b \<and> now E < e)" for s
    by (subst acquireFloor_iff) (auto split: option.splits)
  have expired: "fst (fst (acquireFloor E f c b ttl (snd (acquireFloor E0 f c a ttl0 s0))))"
    if "now E \<ge> addSeconds (now E0) (max 0 ttl0)" "fst (fst (acquireFloor E0 f c a ttl0 s0))" for E0 a ttl0 s0
  proof -
    obtain g h e t where q: "acquireFloor E0 f c a ttl0 s0 = ((g, h, e), t)" by (metis prod.exhaust)
    with that(2) have g: "acquireFloor E0 f c a ttl0 s0 = ((True, h, e), t)" by simp
    from acquireFloor_granted [OF this] that(1) show ?thesis unfolding q grant by simp
  qed
  have released: "fst (releaseFloor f c a s) \<and> fst (fst (acquireFloor E f c b ttl (snd (releaseFloor f c a s))))"
    if "floor_holder f s c = Some (a, e)" "distinct (map fo_conversation_id (conversation_floors s))" for a e
  proof -
    from that(1) obtain r where r: "select_one (\<lambda>r. fo_conversation_id r = c \<and> fo_fleet_id r = f) (conversation_floors s) = Some r"
      "fo_holder_agent_id r = a" by (auto simp: floor_holder_def)
    note r' = select_one_Some [OF r(1)]
    have only: "q = r" if "q \<in> set (conversation_floors s)" "fo_conversation_id q = c" for q
      using that \<open>distinct _\<close> r' by (auto simp: distinct_map dest: inj_onD)
    have "\<forall>q\<in>set (conversation_floors s). fo_conversation_id q = c \<longrightarrow> fo_holder_agent_id q = a"
      using only r(2) by auto
    then have "floor_holder f (snd (releaseFloor f c a s)) c = None" by (auto simp: floor_holder_def releaseFloor_def Let_def select_one_None)
    moreover have "fst (releaseFloor f c a s)" using r(2) r' by (auto simp: releaseFloor_def Let_def changes_pos)
    ultimately show ?thesis unfolding grant by simp
  qed
  show ?thesis using grant expired released by blast
qed

section \<open>Acknowledgements\<close>

definition acked_row :: "string \<Rightarrow> delivery_row \<Rightarrow> delivery_row" where
  "acked_row at d = d\<lparr> dl_status := ''acked'', dl_acked_at := Some at \<rparr>"

lemma acked_row_simps [simp]:
  "dl_id (acked_row at d) = dl_id d" "dl_message_id (acked_row at d) = dl_message_id d"
  "dl_recipient_agent_id (acked_row at d) = dl_recipient_agent_id d" "dl_status (acked_row at d) = ''acked''"
  "dl_acked_at (acked_row at d) = Some at"
  by (simp_all add: acked_row_def)

definition ack_hits :: "string \<Rightarrow> string \<Rightarrow> delivery_row \<Rightarrow> bool" where
  "ack_hits a mid d \<longleftrightarrow> dl_message_id d = mid \<and> dl_recipient_agent_id d = a \<and> dl_status d \<noteq> ''acked''"

lemma ack_one_deliveries:
  "message_deliveries (snd (ack_one E a (mid, at) (n, s))) = update_where (ack_hits a mid) (acked_row at) (message_deliveries s)"
proof (cases "changes (ack_hits a mid) (message_deliveries s) = 0")
  case True
  then have "update_where (ack_hits a mid) (acked_row at) (message_deliveries s) = message_deliveries s"
    by (intro update_where_id) (auto simp: changes_eq_0)
  with True show ?thesis by (simp add: ack_one_def ack_hits_def [abs_def] Let_def)
next
  case False
  then show ?thesis
    by (simp add: ack_one_def ack_hits_def [abs_def] acked_row_def [abs_def] Let_def split: option.splits)
qed

lemma ack_one_messages:
  "messages (snd (ack_one E a (mid, at) (n, s))) =
     (if (\<exists>d\<in>set (message_deliveries s). ack_hits a mid d)
         \<and> (\<forall>d\<in>set (message_deliveries (snd (ack_one E a (mid, at) (n, s)))). dl_message_id d = mid \<longrightarrow> dl_status d = ''acked'')
      then update_where (\<lambda>m. ms_id m = mid) (\<lambda>m. m\<lparr> ms_status := ''acked'' \<rparr>) (messages s) else messages s)"
proof (cases "changes (ack_hits a mid) (message_deliveries s) = 0")
  case True
  then have none: "\<not> (\<exists>d\<in>set (message_deliveries s). ack_hits a mid d)" by (simp add: changes_eq_0)
  have "ack_one E a (mid, at) (n, s) = (n, s)" using True by (simp add: ack_one_def ack_hits_def [abs_def] Let_def)
  with none show ?thesis by simp
next
  case False
  then have hit: "\<exists>d\<in>set (message_deliveries s). ack_hits a mid d" by (simp add: changes_eq_0)
  have "messages (snd (ack_one E a (mid, at) (n, s))) =
      (if select_exists (\<lambda>d. dl_message_id d = mid \<and> dl_status d \<noteq> ''acked'')
            (update_where (ack_hits a mid) (acked_row at) (message_deliveries s)) then messages s
       else update_where (\<lambda>m. ms_id m = mid) (\<lambda>m. m\<lparr> ms_status := ''acked'' \<rparr>) (messages s))"
    using False by (simp add: ack_one_def ack_hits_def [abs_def] acked_row_def [abs_def] Let_def split: option.splits)
  then show ?thesis using hit by (auto simp: ack_one_deliveries select_exists_iff)
qed

text \<open>How a delivery may change: its owner's acknowledgement of its message, and nothing else.\<close>

definition ack_of :: "string \<Rightarrow> (string \<times> string) list \<Rightarrow> delivery_row \<Rightarrow> delivery_row \<Rightarrow> bool" where
  "ack_of a acks d d' \<longleftrightarrow>
     (if dl_recipient_agent_id d = a \<and> dl_message_id d \<in> fst ` set acks \<and> dl_status d \<noteq> ''acked''
      then \<exists>at. (dl_message_id d, at) \<in> set acks \<and> d' = acked_row at d else d' = d)"

lemma fold_ack_deliveries:
  "list_all2 (ack_of a acks) (message_deliveries s) (message_deliveries (snd (fold (ack_one E a) acks (n, s))))"
proof (induction acks arbitrary: n s)
  case Nil
  then show ?case by (simp add: ack_of_def list.rel_refl)
next
  case (Cons ack acks)
  obtain mid at where ack: "ack = (mid, at)" by (cases ack)
  obtain n' s' where s': "ack_one E a ack (n, s) = (n', s')" by (cases "ack_one E a ack (n, s)")
  have first: "list_all2 (\<lambda>d d'. d' = (if ack_hits a mid d then acked_row at d else d)) (message_deliveries s) (message_deliveries s')"
    using ack_one_deliveries [of E a mid at n s] s' ack by (simp add: update_where_def list_all2_map2 list.rel_refl)
  have rest: "list_all2 (ack_of a acks) (message_deliveries s') (message_deliveries (snd (fold (ack_one E a) (ack # acks) (n, s))))"
    using Cons.IH [of s' n'] s' by simp
  have "ack_of a (ack # acks) d d''" if "d' = (if ack_hits a mid d then acked_row at d else d)" "ack_of a acks d' d''" for d d' d''
    using that by (auto simp: ack_of_def ack_hits_def ack split: if_splits)
  from list_all2_trans [OF this first rest] show ?case by simp
qed

lemma fold_ack_messages:
  "list_all2 (\<lambda>m m'. m' = m \<or> m' = m\<lparr> ms_status := ''acked'' \<rparr> \<and> ms_id m \<in> fst ` set acks)
     (messages s) (messages (snd (fold (ack_one E a) acks (n, s))))"
proof (induction acks arbitrary: n s)
  case Nil
  then show ?case by (simp add: list.rel_refl)
next
  case (Cons ack acks)
  obtain mid at where ack: "ack = (mid, at)" by (cases ack)
  obtain n' s' where s': "ack_one E a ack (n, s) = (n', s')" by (cases "ack_one E a ack (n, s)")
  have first: "list_all2 (\<lambda>m m'. m' = m \<or> m' = m\<lparr> ms_status := ''acked'' \<rparr> \<and> ms_id m = mid) (messages s) (messages s')"
    using ack_one_messages [of E a mid at n s] s' ack
    by (auto simp: update_where_def list_all2_map2 list.rel_refl intro!: list.rel_refl split: if_splits)
  have "m'' = m \<or> m'' = m\<lparr> ms_status := ''acked'' \<rparr> \<and> ms_id m \<in> fst ` set (ack # acks)"
    if "m' = m \<or> m' = m\<lparr> ms_status := ''acked'' \<rparr> \<and> ms_id m = mid"
      "m'' = m' \<or> m'' = m'\<lparr> ms_status := ''acked'' \<rparr> \<and> ms_id m' \<in> fst ` set acks" for m m' m'' :: message_row
    using that ack by auto
  from list_all2_trans [OF this first Cons.IH [of s' n']] s' show ?case by simp
qed

lemma fold_ack_frame:
  "agents (snd (fold (ack_one E a) acks p)) = agents (snd p) \<and> rooms (snd (fold (ack_one E a) acks p)) = rooms (snd p)
    \<and> conversation_floors (snd (fold (ack_one E a) acks p)) = conversation_floors (snd p)"
proof (induction acks arbitrary: p)
  case (Cons ack acks)
  have "agents (snd (ack_one E a ack p)) = agents (snd p) \<and> rooms (snd (ack_one E a ack p)) = rooms (snd p)
    \<and> conversation_floors (snd (ack_one E a ack p)) = conversation_floors (snd p)"
    by (cases ack; cases p) (simp add: ack_one_def Let_def split: option.splits)
  with Cons [of "ack_one E a ack p"] show ?case by simp
qed simp

text \<open>
  An agent acknowledges only its own deliveries.  After a batch of acknowledgements a delivery is
  changed exactly when it is addressed to that agent, its message is in the batch and it was not
  acknowledged before; then it is acknowledged with the time the batch names, and the rest of its row is kept.
  Every other delivery, of that message to other agents too, is untouched, the agents, rooms and floors
  are untouched, and of a message nothing but its status can change.
\<close>

theorem ack_touches_own_deliveries:
  "list_all2 (\<lambda>d d'. if dl_recipient_agent_id d = a \<and> dl_message_id d \<in> fst ` set acks \<and> dl_status d \<noteq> ''acked''
      then \<exists>at. (dl_message_id d, at) \<in> set acks \<and> d' = d\<lparr> dl_status := ''acked'', dl_acked_at := Some at \<rparr> else d' = d)
     (message_deliveries s) (message_deliveries (snd (ackMessages E a acks s)))
   \<and> list_all2 (\<lambda>m m'. m' = m \<or> m' = m\<lparr> ms_status := ''acked'' \<rparr> \<and> ms_id m \<in> fst ` set acks)
       (messages s) (messages (snd (ackMessages E a acks s)))
   \<and> agents (snd (ackMessages E a acks s)) = agents s \<and> rooms (snd (ackMessages E a acks s)) = rooms s
   \<and> conversation_floors (snd (ackMessages E a acks s)) = conversation_floors s"
  using fold_ack_deliveries [of a acks s E 0] fold_ack_messages [of acks s E a 0] fold_ack_frame [of E a acks "(0, s)"]
  unfolding ackMessages_def ack_of_def acked_row_def by simp

section \<open>Operator signatures\<close>

text \<open>
  What a poll presents as the operator's is the operator's.  In every reachable state, an inbox
  message tagged as coming from the operator, or carrying an operator signature, was stored under the
  reserved operator id of a fleet, an id no agent can authenticate under; every other message has its
  operator signature blanked whatever metadata its sender attached.
\<close>

theorem inbox_operator_tag_genuine:
  assumes "reach empty_store msg_step s" "getInbox E a n s = (r, t)" "e \<in> set (ib_messages r)"
    and "im_sender_kind e = ''operator'' \<or> im_operator_sig e \<noteq> JNull"
  shows "\<exists>f. im_sender_agent_id e = op_agent_id f \<and> authenticateAgent s (im_sender_agent_id e) = None"
proof -
  note p = getInbox_parts [OF assms(2)]
  from assms(3) obtain m d where e: "e = inbox_entry t (ib_fleet_id r) a m" unfolding p(2) by auto
  have "sender_kind t (ms_sender_agent_id m) = ''operator''"
    using assms(4) by (auto simp: e inbox_entry_def Let_def split: if_splits)
  then obtain x where x: "x \<in> set (agents s)" "ag_id x = ms_sender_agent_id m" "ag_runtime x = ''operator''"
    by (auto simp: sender_kind_def runtime_of_def p(1) dest!: select_one_Some split: if_splits)
  have "ag_id x = op_agent_id (ag_fleet_id x)"
    using ident.inv_reach [OF assms(1)] x(1,3) by (auto simp: idents_ok_def agent_idents_def operator_ident_def)
  moreover have "authenticateAgent s (op_agent_id f) = None" for f
  proof -
    have "ag_revoked_at y \<noteq> None" if "y \<in> set (agents s)" "ag_id y = op_agent_id f" for y
    proof -
      have "(op_agent_id f, ag_fleet_id y) \<in> agent_fleets s" using that(1) unfolding that(2) [symmetric] by (auto simp: agent_fleets_def)
      then have "ag_fleet_id y = f" using mail.inv_reach [OF assms(1)] by (auto simp: isolated_def one_fleet_def)
      then show ?thesis
        using ident.inv_reach [OF assms(1)] that by (fastforce simp: idents_ok_def agent_idents_def operator_ident_def)
    qed
    then have "select_one (\<lambda>y. ag_id y = op_agent_id f \<and> is_null (ag_revoked_at y)) (agents s) = None"
      by (auto simp: select_one_None)
    then show ?thesis by (simp add: authenticateAgent_def)
  qed
  ultimately show ?thesis using x(2) by (simp add: e inbox_entry_def Let_def) metis
qed

section \<open>Samples\<close>

definition sample_polled :: "inbox \<times> store" where
  "sample_polled = getInbox (sample_env 3) sample_agent 10 sample_mailed"

lemma sample_polled_eq: "getInbox (sample_env 3) sample_agent 10 sample_mailed = (fst sample_polled, snd sample_polled)"
  by (simp add: sample_polled_def)

lemma inbox_hands_out_once_witness:
  "message_deliveries (snd sample_polled) = update_where (\<lambda>d. dl_id d \<in> (dl_id \<circ> snd) ` set (inbox_rows (sample_env 3) sample_agent 10 sample_mailed))
      (collected (sample_env 3)) (message_deliveries sample_mailed)
    \<and> length (ib_messages (fst sample_polled)) = 1"
proof -
  have "distinct (map ms_id (messages sample_mailed))" "distinct (map dl_id (message_deliveries sample_mailed))" by code_simp+
  moreover have "length (ib_messages (fst sample_polled)) = 1" by code_simp
  ultimately show ?thesis using inbox_hands_out_once [OF _ _ sample_polled_eq] by blast
qed

definition sample_room_store :: store where
  "sample_room_store =
     (let s = snd (projr (createRoom (sample_env 2) ''flt'' (By_operator ''opr'') ''ops'' [sample_agent] sample_enrolled)) in
      snd (createOperatorMessage (sample_env 3)
        (sample_op_input\<lparr> oi_recipientId := None, oi_roomId := Some (rm_id (hd (rooms s))) \<rparr>) s))"

definition sample_room_polled :: "inbox \<times> store" where
  "sample_room_polled = getInbox (sample_env 4) sample_agent 10 sample_room_store"

lemma inbox_discloses_only_readable_witness:
  "\<exists>m\<in>set (messages sample_room_store).
     hd (snd (hd (ib_conversation_history (fst sample_room_polled)))) = snapshotOf (snd sample_room_polled) m
     \<and> messageVisibleTo (snd sample_room_polled) m sample_agent"
proof -
  let ?h = "hd (ib_conversation_history (fst sample_room_polled))"
  have "list_ex (\<lambda>(c, sns). list_ex (\<lambda>x. x = hd (snd ?h)) sns) (ib_conversation_history (fst sample_room_polled))" by code_simp
  then have "\<exists>(c, sns)\<in>set (ib_conversation_history (fst sample_room_polled)). hd (snd ?h) \<in> set sns"
    by (auto simp: list_ex_iff)
  then show ?thesis
    using inbox_discloses_only_readable [of "sample_env 4" sample_agent 10 sample_room_store "fst sample_room_polled" "snd sample_room_polled"]
    by (simp add: sample_room_polled_def) blast
qed

lemma tail_is_newest_readable_witness:
  "\<exists>rows. getConversationTail sample_mailed ''flt'' (canonicalDmId ''flt'' sample_agent) sample_agent 5 = map (snapshotOf sample_mailed) rows
    \<and> int (length rows) \<le> max 1 5"
  using tail_is_newest_readable [of sample_mailed "''flt''" "canonicalDmId ''flt'' sample_agent" sample_agent 5] by blast

lemma floor_mutual_exclusion_witness:
  "acquireFloor (at_time (sample_env 0) 1000) ''flt'' ''conv'' ''b'' 60 (snd (acquireFloor (sample_env 0) ''flt'' ''conv'' ''a'' 60 empty_store))
     = ((False, ''a'', 60000), snd (acquireFloor (sample_env 0) ''flt'' ''conv'' ''a'' 60 empty_store))"
proof (rule floor_mutual_exclusion)
  let ?t = "snd (acquireFloor (sample_env 0) ''flt'' ''conv'' ''a'' 60 empty_store)"
  show "acquireFloor (sample_env 0) ''flt'' ''conv'' ''a'' 60 empty_store = ((True, ''a'', 60000), ?t)" by code_simp
  have "lease_step (floor_acquire (sample_env 0) ''flt'') (releaseFloor ''flt'') ''conv'' ''a'' (0, ?t) (1000, ?t)"
    by (rule lease_step.Wait) simp
  then show "reach (now (sample_env 0), ?t) (lease_step (floor_acquire (sample_env 0) ''flt'') (releaseFloor ''flt'') ''conv'' ''a'') (1000, ?t)"
    by (simp add: reach_step [OF reach_start])
qed simp_all

lemma floor_never_wedges_witness:
  "fst (fst (acquireFloor (sample_env 60000) ''flt'' ''conv'' ''b'' 60 (snd (acquireFloor (sample_env 0) ''flt'' ''conv'' ''a'' 60 empty_store))))"
proof -
  have "fst (fst (acquireFloor (sample_env 0) ''flt'' ''conv'' ''a'' 60 empty_store))" by code_simp
  moreover have "addSeconds (now (sample_env 0)) (max 0 60) \<le> now (sample_env 60000)" by (simp add: addSeconds_def)
  ultimately show ?thesis using floor_never_wedges [of "sample_env 60000" "''flt''" "''conv''" "''b''" 60 empty_store] by blast
qed

lemma inbox_operator_tag_genuine_witness:
  "\<exists>f. im_sender_agent_id (hd (ib_messages (fst sample_polled))) = op_agent_id f
     \<and> authenticateAgent sample_mailed (im_sender_agent_id (hd (ib_messages (fst sample_polled)))) = None"
proof (rule inbox_operator_tag_genuine [OF sample_mailed_reach sample_polled_eq])
  show "hd (ib_messages (fst sample_polled)) \<in> set (ib_messages (fst sample_polled))" by (rule hd_in_set) code_simp
  show "im_sender_kind (hd (ib_messages (fst sample_polled))) = ''operator'' \<or> im_operator_sig (hd (ib_messages (fst sample_polled))) \<noteq> JNull"
    by (rule disjI1) code_simp
qed

text \<open>
  The conversation id alone is the key of the floor table, but a request looks the floor up under its own
  fleet as well.  So a request from another fleet that uses the same conversation id finds no floor, takes
  the row over, and the first fleet's floor is gone while it is still running.
\<close>

lemma floor_lost_to_another_fleet:
  "let s1 = snd (acquireFloor (sample_env 0) ''flt'' ''conv'' ''a'' 60 empty_store);
       ((granted, _), s2) = acquireFloor (sample_env 1000) ''other'' ''conv'' ''x'' 60 s1
   in granted \<and> fst (fst (acquireFloor (sample_env 2000) ''flt'' ''conv'' ''b'' 60 s2))"
  by code_simp

end
