(* ===== verification/Delivery.thy ===== *)
theory Delivery
  imports Inbox
begin

text \<open>
  The life of a delivery: timeouts, retries with backoff, dead letters and expiry (\<^verbatim>\<open>sweepRetryDeliveries\<close>,
  \<^verbatim>\<open>moveToDeadLetter\<close>, \<^verbatim>\<open>sweepExpiredMessages\<close> of \<^verbatim>\<open>db.ts\<close>), and the invariant that ties sends, polls,
  acknowledgements and sweeps together.
\<close>

section \<open>Sweeps\<close>

text \<open>\<^verbatim>\<open>message_deliveries JOIN messages\<close> with a condition on each side.\<close>

definition join_deliveries :: "(delivery_row \<Rightarrow> bool) \<Rightarrow> (message_row \<Rightarrow> bool) \<Rightarrow> store \<Rightarrow> (message_row \<times> delivery_row) list" where
  "join_deliveries p q s =
     concat (map (\<lambda>d. map (\<lambda>m. (m, d)) (select_all (\<lambda>m. ms_id m = dl_message_id d \<and> q m) (messages s)))
       (select_all p (message_deliveries s)))"

definition timed_out :: "env \<Rightarrow> store \<Rightarrow> (message_row \<times> delivery_row) list" where
  "timed_out E s =
     join_deliveries
       (\<lambda>d. dl_status d = ''delivered''
          \<and> (case dl_delivered_at d of None \<Rightarrow> False | Some t \<Rightarrow> t < addSeconds (now E) (- deliveryTimeoutSeconds (cfg E))))
       (\<lambda>m. ms_expires_at m > now E) s"

definition moveToDeadLetter :: "env \<Rightarrow> message_row \<times> delivery_row \<Rightarrow> store \<Rightarrow> store" where
  "moveToDeadLetter E = (\<lambda>(m, d) s.
     let dlId = mk_id E ''dl'' (draws s);
         p = (\<lambda>r. dl_id r = dl_id d \<and> dl_status r = ''delivered'')
     in if changes p (message_deliveries s) = 0 then s\<lparr> draws := Suc (draws s) \<rparr>
        else
          recordEvent E (ms_fleet_id m) ''message.dead_lettered'' ''system'' None ''message'' (Some (ms_id m))
            (Some (ms_conversation_id m))
            (JObj [(''delivery_id'', JStr (dl_id d)), (''retry_count'', JNum (dl_retry_count d)), (''dead_letter_id'', JStr dlId)])
            (s\<lparr> message_deliveries := update_where p (\<lambda>r. r\<lparr> dl_status := ''dead_lettered'' \<rparr>) (message_deliveries s),
                dead_letters := dead_letters s @
                  [\<lparr> dd_id = dlId, dd_fleet_id = ms_fleet_id m, dd_original_message_id = ms_id m,
                     dd_original_delivery_id = dl_id d, dd_recipient_agent_id = dl_recipient_agent_id d,
                     dd_sender_agent_id = ms_sender_agent_id m, dd_conversation_id = ms_conversation_id m,
                     dd_message_type = ms_message_type m, dd_body = ms_body m, dd_metadata = ms_metadata m,
                     dd_retry_count = dl_retry_count d, dd_failure_reason = ''max_retries_exceeded'',
                     dd_dead_lettered_at = now E \<rparr>],
                messages := update_where (\<lambda>r. ms_id r = ms_id m \<and> ms_status r \<noteq> ''acked'')
                  (\<lambda>r. r\<lparr> ms_status := ''dead_lettered'' \<rparr>) (messages s),
                draws := Suc (draws s) \<rparr>))"

definition backoff :: "config \<Rightarrow> int \<Rightarrow> int" where
  "backoff C retryCount =
     retryBackoffSeconds C ! nat (min (retryCount - 1) (int (length (retryBackoffSeconds C)) - 1))"

definition requeue :: "env \<Rightarrow> message_row \<times> delivery_row \<Rightarrow> store \<Rightarrow> store" where
  "requeue E = (\<lambda>(m, d) s.
     let retryCount = dl_retry_count d + 1; nextRetryAt = addSeconds (now E) (backoff (cfg E) retryCount) in
     recordEvent E (ms_fleet_id m) ''message.retry_requeued'' ''system'' None ''message'' (Some (ms_id m))
       (Some (ms_conversation_id m))
       (JObj [(''delivery_id'', JStr (dl_id d)), (''retry_count'', JNum retryCount), (''next_retry_at'', JStr (to_iso nextRetryAt))])
       (s\<lparr> message_deliveries := update_where (\<lambda>r. dl_id r = dl_id d \<and> dl_status r = ''delivered'')
            (\<lambda>r. r\<lparr> dl_status := ''queued'', dl_delivered_at := None, dl_retry_count := retryCount,
                    dl_next_retry_at := Some nextRetryAt, dl_last_failure_reason := Some ''timeout'' \<rparr>) (message_deliveries s) \<rparr>))"

definition retry_one :: "env \<Rightarrow> message_row \<times> delivery_row \<Rightarrow> (nat \<times> nat) \<times> store \<Rightarrow> (nat \<times> nat) \<times> store" where
  "retry_one E row = (\<lambda>((retried, deadLettered), s).
     if dl_retry_count (snd row) + 1 > maxRetries (cfg E) then ((retried, Suc deadLettered), moveToDeadLetter E row s)
     else ((Suc retried, deadLettered), requeue E row s))"

definition sweepRetryDeliveries :: "env \<Rightarrow> store \<Rightarrow> (nat \<times> nat) \<times> store" where
  "sweepRetryDeliveries E s = fold (retry_one E) (timed_out E s) ((0, 0), s)"

definition expirable :: "env \<Rightarrow> store \<Rightarrow> (message_row \<times> delivery_row) list" where
  "expirable E s = join_deliveries (\<lambda>d. dl_status d \<in> {''queued'', ''delivered''}) (\<lambda>m. ms_expires_at m \<le> now E) s"

definition expire_one :: "env \<Rightarrow> message_row \<times> delivery_row \<Rightarrow> store \<Rightarrow> store" where
  "expire_one E = (\<lambda>(m, d) s.
     recordEvent E (ms_fleet_id m) ''message.expired'' ''system'' None ''message'' (Some (ms_id m)) (Some (ms_conversation_id m))
       (JObj [])
       (s\<lparr> message_deliveries := update_where (\<lambda>r. dl_id r = dl_id d) (\<lambda>r. r\<lparr> dl_status := ''expired'' \<rparr>) (message_deliveries s),
           messages := update_where (\<lambda>r. ms_id r = ms_id m \<and> ms_status r \<notin> {''acked'', ''dead_lettered''})
             (\<lambda>r. r\<lparr> ms_status := ''expired'' \<rparr>) (messages s) \<rparr>))"

definition sweepExpiredMessages :: "env \<Rightarrow> store \<Rightarrow> nat \<times> store" where
  "sweepExpiredMessages E s = (length (expirable E s), fold (expire_one E) (expirable E s) s)"

section \<open>The invariant\<close>

text \<open>
  Identifiers are drawn from one stream of distinct UUIDs, so a message or delivery id in the tables is
  one drawn before.
\<close>

definition id_of :: "(nat \<Rightarrow> string) \<Rightarrow> string \<Rightarrow> nat \<Rightarrow> string" where
  "id_of U prefix k = prefix @ ''_'' @ U k"

definition drawn :: "(nat \<Rightarrow> string) \<Rightarrow> string \<Rightarrow> nat \<Rightarrow> string list \<Rightarrow> bool" where
  "drawn U prefix n ids \<longleftrightarrow> distinct ids \<and> set ids \<subseteq> id_of U prefix ` {..<n}"

definition delivery_ok :: "config \<Rightarrow> string set \<Rightarrow> delivery_row \<Rightarrow> bool" where
  "delivery_ok C dead d \<longleftrightarrow>
     dl_status d \<in> {''queued'', ''delivered'', ''acked'', ''dead_lettered'', ''expired''}
     \<and> 0 \<le> dl_retry_count d \<and> dl_retry_count d \<le> maxRetries C
     \<and> dl_delivery_attempts d \<le> dl_retry_count d + 1
     \<and> (dl_status d = ''queued'' \<longrightarrow> dl_delivery_attempts d \<le> dl_retry_count d)
     \<and> (dl_status d = ''delivered'' \<longrightarrow> dl_delivered_at d \<noteq> None)
     \<and> (dl_status d = ''dead_lettered'' \<longrightarrow> dl_retry_count d = maxRetries C \<and> dl_id d \<in> dead)"

text \<open>Which messages, and which deliveries of which message, are acknowledged.\<close>

definition msg_acked :: "message_row list \<Rightarrow> (string \<times> bool) set" where
  "msg_acked ms = (\<lambda>m. (ms_id m, ms_status m = ''acked'')) ` set ms"

definition dl_acked :: "delivery_row list \<Rightarrow> (string \<times> bool) set" where
  "dl_acked ds = (\<lambda>d. (dl_message_id d, dl_status d = ''acked'')) ` set ds"

definition ack_tracks :: "(string \<times> bool) set \<Rightarrow> (string \<times> bool) set \<Rightarrow> bool" where
  "ack_tracks A B \<longleftrightarrow> (\<forall>i b. (i, b) \<in> A \<longrightarrow> (\<exists>b'. (i, b') \<in> B) \<longrightarrow> (b \<longleftrightarrow> (i, False) \<notin> B))"

definition dead_ids :: "store \<Rightarrow> string set" where
  "dead_ids s = dd_original_delivery_id ` set (dead_letters s)"

definition mailbox_inv :: "(nat \<Rightarrow> string) \<Rightarrow> config \<Rightarrow> store \<Rightarrow> bool" where
  "mailbox_inv U C s \<longleftrightarrow>
     drawn U ''msg'' (draws s) (map ms_id (messages s)) \<and> drawn U ''dly'' (draws s) (map dl_id (message_deliveries s))
     \<and> (\<forall>d\<in>set (message_deliveries s). delivery_ok C (dead_ids s) d \<and> dl_message_id d \<in> ms_id ` set (messages s))
     \<and> ack_tracks (msg_acked (messages s)) (dl_acked (message_deliveries s))"

lemma mk_id_of: "mk_id E p k = id_of (uuid E) p k"
  by (simp add: mk_id_def id_of_def)

lemma inj_id_of: "inj U \<Longrightarrow> inj (id_of U p)"
  by (simp add: inj_def id_of_def)

lemma drawn_mono: "drawn U p n ids \<Longrightarrow> n \<le> n' \<Longrightarrow> drawn U p n' ids"
  unfolding drawn_def by (meson image_mono lessThan_subset_iff subset_trans)

lemma drawn_append:
  assumes "drawn U p n ids" "inj U" "n \<le> k"
  shows "drawn U p (k + l) (ids @ map (id_of U p) [k..<k + l])"
proof -
  note inj = inj_id_of [OF assms(2), of p]
  have "id_of U p ` {..<n} \<inter> id_of U p ` {k..<k + l} = id_of U p ` ({..<n} \<inter> {k..<k + l})"
    by (rule image_Int [OF inj, symmetric])
  also have "{..<n} \<inter> {k..<k + l} = {}" using assms(3) by auto
  finally have "set ids \<inter> id_of U p ` {k..<k + l} = {}" using assms(1) by (auto simp: drawn_def)
  moreover have "set ids \<union> id_of U p ` {k..<k + l} \<subseteq> id_of U p ` {..<k + l}"
    using drawn_mono [OF assms(1), of "k + l"] assms(3) by (auto simp: drawn_def)
  ultimately show ?thesis
    using assms(1) inj_on_subset [OF inj subset_UNIV] by (simp add: drawn_def distinct_map)
qed

lemma delivery_ok_mono: "delivery_ok C dead d \<Longrightarrow> dead \<subseteq> dead' \<Longrightarrow> delivery_ok C dead' d"
  unfolding delivery_ok_def by blast

lemma delivery_rows_ids: "map dl_id (delivery_rows E mid n rids) = map (id_of (uuid E) ''dly'') [n..<n + length rids]"
proof -
  have "map dl_id (delivery_rows E mid n rids) = map (id_of (uuid E) ''dly'') (map fst (enumerate n rids))"
    unfolding delivery_rows_def map_map by (rule map_cong) (auto simp: mk_id_of)
  then show ?thesis by simp
qed

lemma ack_tracks_insert:
  assumes "ack_tracks A B" "\<And>b. (i, b) \<notin> A" "\<And>b. (i, b) \<notin> B" "B' \<subseteq> {(i, False)}"
  shows "ack_tracks (insert (i, False) A) (B \<union> B')"
  unfolding ack_tracks_def
proof (intro allI impI)
  fix j b
  assume a: "(j, b) \<in> insert (i, False) A" "\<exists>b'. (j, b') \<in> B \<union> B'"
  show "b \<longleftrightarrow> (j, False) \<notin> B \<union> B'"
  proof (cases "j = i")
    case True
    with a assms(2-4) show ?thesis by blast
  next
    case False
    with assms(4) have "(j, x) \<notin> B'" for x by blast
    with a False assms(1) show ?thesis by (simp add: ack_tracks_def)
  qed
qed

lemma mailbox_insert:
  assumes inv: "mailbox_inv U C s" and "inj U" "uuid E = U" "0 \<le> maxRetries C"
    and "messages t = messages s @ [m]" "ms_id m = mk_id E ''msg'' k" "ms_status m = ''queued''" "draws s \<le> k" "k < draws t"
    "message_deliveries t = message_deliveries s @ delivery_rows E (ms_id m) n rids" "draws s \<le> n" "n + length rids \<le> draws t"
    "dead_letters t = dead_letters s"
  shows "mailbox_inv U C t"
proof -
  have "drawn U ''msg'' (k + 1) (map ms_id (messages s) @ map (id_of U ''msg'') [k..<k + 1])"
    using inv by (intro drawn_append [OF _ assms(2,8)]) (simp add: mailbox_inv_def)
  then have ids: "drawn U ''msg'' (draws t) (map ms_id (messages t))"
    using assms(3,9) drawn_mono [of U "''msg''" "k + 1" _ "draws t"] by (simp add: assms(5,6) mk_id_of)
  have "drawn U ''dly'' (n + length rids) (map dl_id (message_deliveries s) @ map (id_of U ''dly'') [n..<n + length rids])"
    using inv by (intro drawn_append [OF _ assms(2,11)]) (simp add: mailbox_inv_def)
  then have dids: "drawn U ''dly'' (draws t) (map dl_id (message_deliveries t))"
    using drawn_mono [OF _ assms(12)] by (simp add: assms(3,10) delivery_rows_ids)
  have fresh: "ms_id m \<notin> ms_id ` set (messages s)" using ids assms(5) by (simp add: drawn_def)
  have new: "delivery_ok C dead d \<and> dl_message_id d = ms_id m" if "d \<in> set (delivery_rows E (ms_id m) n rids)" for d dead
    using delivery_rows_map(2) [OF that] assms(4) by (simp add: delivery_ok_def)
  have "ack_tracks (insert (ms_id m, False) (msg_acked (messages s)))
      (dl_acked (message_deliveries s) \<union> dl_acked (delivery_rows E (ms_id m) n rids))"
  proof (rule ack_tracks_insert)
    show "ack_tracks (msg_acked (messages s)) (dl_acked (message_deliveries s))" using inv by (simp add: mailbox_inv_def)
    show "(ms_id m, b) \<notin> msg_acked (messages s)" for b using fresh by (auto simp: msg_acked_def)
    show "(ms_id m, b) \<notin> dl_acked (message_deliveries s)" for b
      using fresh inv by (auto simp: dl_acked_def mailbox_inv_def)
    show "dl_acked (delivery_rows E (ms_id m) n rids) \<subseteq> {(ms_id m, False)}"
      using delivery_rows_map(2) by (auto simp: dl_acked_def)
  qed
  then have "ack_tracks (msg_acked (messages t)) (dl_acked (message_deliveries t))"
    using assms(5,7,10) by (simp add: msg_acked_def dl_acked_def image_Un)
  then show ?thesis
    using inv ids dids new assms(5,10,13) by (auto simp: mailbox_inv_def dead_ids_def)
qed

text \<open>A change of rows in place keeps the invariant when it keeps ids, acknowledgements and each row's own conditions.\<close>

lemma mailbox_update:
  assumes "mailbox_inv U C s" "map ms_id (messages t) = map ms_id (messages s)"
    "map dl_id (message_deliveries t) = map dl_id (message_deliveries s)" "draws s \<le> draws t"
    "\<And>d. d \<in> set (message_deliveries t) \<Longrightarrow> delivery_ok C (dead_ids t) d \<and> dl_message_id d \<in> ms_id ` set (messages s)"
    "msg_acked (messages t) = msg_acked (messages s)" "dl_acked (message_deliveries t) = dl_acked (message_deliveries s)"
  shows "mailbox_inv U C t"
proof -
  have "ms_id ` set (messages t) = ms_id ` set (messages s)"
    using arg_cong [OF assms(2), of set] by simp
  with assms show ?thesis by (auto simp: mailbox_inv_def intro: drawn_mono)
qed

section \<open>The lifecycle of a delivery\<close>

text \<open>
  The abstract specification: a delivery is queued or handed out with a number of retries used, or it is
  settled; a timed-out delivery goes back to the queue until the retries are used up, then to the dead letters;
  an acknowledgement is final.
\<close>

datatype life = Queued int | Handed int | Acked | Dead | Expired

inductive life_step :: "int \<Rightarrow> life \<Rightarrow> life \<Rightarrow> bool" for maxr where
  Hand: "life_step maxr (Queued n) (Handed n)"
| Again: "n < maxr \<Longrightarrow> life_step maxr (Handed n) (Queued (n + 1))"
| Give_up: "life_step maxr (Handed maxr) Dead"
| Lapse_queued: "life_step maxr (Queued n) Expired"
| Lapse_handed: "life_step maxr (Handed n) Expired"
| Acknowledge: "x \<noteq> Acked \<Longrightarrow> life_step maxr x Acked"

inductive_cases life_step_AckedE [elim!]: "life_step maxr Acked y"

definition life_of :: "delivery_row \<Rightarrow> life" where
  "life_of d =
     (if dl_status d = ''queued'' then Queued (dl_retry_count d) else if dl_status d = ''delivered'' then Handed (dl_retry_count d)
      else if dl_status d = ''acked'' then Acked else if dl_status d = ''dead_lettered'' then Dead else Expired)"

definition same_delivery :: "delivery_row \<Rightarrow> delivery_row \<Rightarrow> bool" where
  "same_delivery d d' \<longleftrightarrow>
     dl_id d' = dl_id d \<and> dl_message_id d' = dl_message_id d \<and> dl_recipient_agent_id d' = dl_recipient_agent_id d"

definition advances :: "config \<Rightarrow> store \<Rightarrow> store \<Rightarrow> bool" where
  "advances C s t \<longleftrightarrow>
     (\<forall>d\<in>set (message_deliveries s). \<exists>d'\<in>set (message_deliveries t).
        same_delivery d d' \<and> (life_step (maxRetries C))\<^sup>*\<^sup>* (life_of d) (life_of d'))"

lemma same_delivery_refl [simp]: "same_delivery d d"
  by (simp add: same_delivery_def)

lemma advances_keep: "set (message_deliveries s) \<subseteq> set (message_deliveries t) \<Longrightarrow> advances C s t"
  by (auto simp: advances_def intro!: bexI [rotated])

lemma advances_trans:
  assumes "advances C s t" "advances C t u"
  shows "advances C s u"
  unfolding advances_def
proof
  fix d
  assume "d \<in> set (message_deliveries s)"
  then obtain d1 where d1: "d1 \<in> set (message_deliveries t)" "same_delivery d d1" "(life_step (maxRetries C))\<^sup>*\<^sup>* (life_of d) (life_of d1)"
    using assms(1) by (auto simp: advances_def)
  then obtain d2 where "d2 \<in> set (message_deliveries u)" "same_delivery d1 d2" "(life_step (maxRetries C))\<^sup>*\<^sup>* (life_of d1) (life_of d2)"
    using assms(2) by (auto simp: advances_def)
  with d1 show "\<exists>d'\<in>set (message_deliveries u). same_delivery d d' \<and> (life_step (maxRetries C))\<^sup>*\<^sup>* (life_of d) (life_of d')"
    by (intro bexI [of _ d2] conjI) (auto simp: same_delivery_def)
qed

lemma advances_update:
  assumes "message_deliveries t = update_where p u (message_deliveries s)"
    "\<And>d. d \<in> set (message_deliveries s) \<Longrightarrow> p d \<Longrightarrow> same_delivery d (u d) \<and> life_step (maxRetries C) (life_of d) (life_of (u d))"
  shows "advances C s t"
  unfolding advances_def assms(1)
proof
  fix d
  assume d: "d \<in> set (message_deliveries s)"
  then have "(if p d then u d else d) \<in> set (update_where p u (message_deliveries s))" by (auto simp: in_update_where)
  with assms(2) [OF d] show "\<exists>d'\<in>set (update_where p u (message_deliveries s)).
      same_delivery d d' \<and> (life_step (maxRetries C))\<^sup>*\<^sup>* (life_of d) (life_of d')"
    by (intro bexI [of _ "if p d then u d else d"]) auto
qed

section \<open>Polls and acknowledgements keep it\<close>

lemma mark_delivered_frame2 [simp]:
  "dead_letters (mark_delivered E a r s) = dead_letters s" "draws (mark_delivered E a r s) = Suc (draws s)"
  by (simp_all add: mark_delivered_def case_prod_beta)

lemma fold_mark_frame2:
  "dead_letters (fold (mark_delivered E a) rows s) = dead_letters s \<and> draws s \<le> draws (fold (mark_delivered E a) rows s)"
proof (induction rows arbitrary: s)
  case (Cons r rows)
  from Cons [of "mark_delivered E a r s"] show ?case by simp
qed simp

lemma collected_ok: "delivery_ok C dead d \<Longrightarrow> dl_status d = ''queued'' \<Longrightarrow> delivery_ok C dead (collected E d)"
  by (simp add: delivery_ok_def collected_def)

lemma getInbox_mailbox:
  assumes "mailbox_inv U C s" "getInbox E a n s = (r, t)"
  shows "mailbox_inv U C t \<and> advances C s t"
proof -
  let ?rows = "inbox_rows E a n s" and ?p = "\<lambda>d. dl_id d \<in> (dl_id \<circ> snd) ` set (inbox_rows E a n s)"
  have t: "t = fold (mark_delivered E a) ?rows s" by (rule getInbox_parts(1) [OF assms(2)])
  have dist: "distinct (map ms_id (messages s))" "distinct (map dl_id (message_deliveries s))"
    using assms(1) by (auto simp: mailbox_inv_def drawn_def)
  have ds: "message_deliveries t = update_where ?p (collected E) (message_deliveries s)"
    unfolding t by (rule fold_mark_delivered [OF inbox_rows_distinct [OF dist]])
  have queued: "dl_status d = ''queued''" if "d \<in> set (message_deliveries s)" "?p d" for d
  proof -
    from that(2) obtain m d' where d': "(m, d') \<in> set ?rows" "dl_id d' = dl_id d" by auto
    from inbox_rows_in [OF d'(1)] have "d' \<in> set (message_deliveries s)" "dl_status d' = ''queued''"
      by (auto simp: collectable_def)
    with d'(2) that(1) dist(2) show ?thesis by (metis distinct_map inj_on_contraD)
  qed
  have "advances C s t"
    by (rule advances_update [OF ds]) (use queued in \<open>auto simp: same_delivery_def life_of_def collected_def intro: life_step.Hand\<close>)
  moreover have "mailbox_inv U C t"
  proof (rule mailbox_update [OF assms(1)])
    show "map ms_id (messages t) = map ms_id (messages s)" "msg_acked (messages t) = msg_acked (messages s)" by (simp_all add: t)
    show "map dl_id (message_deliveries t) = map dl_id (message_deliveries s)" by (simp add: ds)
    show "draws s \<le> draws t" by (simp add: t fold_mark_frame2)
    have dead: "dead_ids t = dead_ids s" by (simp add: t dead_ids_def fold_mark_frame2)
    have "delivery_ok C (dead_ids s) (collected E q)" if "q \<in> set (message_deliveries s)" "?p q" for q
      using assms(1) that(1) queued [OF that] by (intro collected_ok) (auto simp: mailbox_inv_def)
    then show "delivery_ok C (dead_ids t) d \<and> dl_message_id d \<in> ms_id ` set (messages s)" if "d \<in> set (message_deliveries t)" for d
      using that assms(1) unfolding dead ds in_update_where mailbox_inv_def by auto
    have "(\<lambda>d. (dl_message_id d, dl_status d = ''acked'')) ` set (update_where ?p (collected E) ds') =
        (\<lambda>d. (dl_message_id d, dl_status d = ''acked'')) ` set ds'" if "\<And>d. d \<in> set ds' \<Longrightarrow> ?p d \<Longrightarrow> dl_status d = ''queued''" for ds'
      using that by (induction ds') (auto simp: update_where_def)
    from this [OF queued] show "dl_acked (message_deliveries t) = dl_acked (message_deliveries s)" by (simp add: ds dl_acked_def)
  qed
  ultimately show ?thesis by simp
qed

lemma ack_one_frame:
  "draws (snd p) \<le> draws (snd (ack_one E a ack p)) \<and> dead_letters (snd (ack_one E a ack p)) = dead_letters (snd p)"
  by (cases ack; cases p) (simp add: ack_one_def Let_def split: option.splits)

lemma acked_row_ok: "delivery_ok C dead d \<Longrightarrow> delivery_ok C dead (acked_row at d)"
  by (simp add: delivery_ok_def acked_row_def)

lemma ball_update_where:
  "(\<forall>r\<in>set (update_where p f rows). Q r) \<longleftrightarrow> (\<forall>r\<in>set rows. if p r then Q (f r) else Q r)"
  by (auto simp: update_where_def)

lemma msg_acked_update:
  "(mid, b) \<in> msg_acked (update_where (\<lambda>m. ms_id m = mid) (\<lambda>m. m\<lparr> ms_status := ''acked'' \<rparr>) rows) \<Longrightarrow> b"
  by (induction rows) (auto simp: update_where_def msg_acked_def split: if_splits)

lemma dl_acked_has: "(\<exists>b. (i, b) \<in> dl_acked ds) \<longleftrightarrow> i \<in> dl_message_id ` set ds"
  by (auto simp: dl_acked_def)

lemma dl_acked_all: "(i, False) \<notin> dl_acked ds \<longleftrightarrow> (\<forall>d\<in>set ds. dl_message_id d = i \<longrightarrow> dl_status d = ''acked'')"
  by (auto simp: dl_acked_def)

lemma ack_one_tracks:
  assumes "ack_tracks (msg_acked (messages s)) (dl_acked (message_deliveries s))" "t = snd (ack_one E a (mid, at) (n, s))"
  shows "ack_tracks (msg_acked (messages t)) (dl_acked (message_deliveries t))"
  unfolding ack_tracks_def
proof (intro allI impI)
  let ?hits = "\<exists>d\<in>set (message_deliveries s). ack_hits a mid d"
  note ds = ack_one_deliveries [of E a mid at n s, folded assms(2)] and ms = ack_one_messages [of E a mid at n s, folded assms(2)]
  fix i b
  assume i: "(i, b) \<in> msg_acked (messages t)" "\<exists>b'. (i, b') \<in> dl_acked (message_deliveries t)"
  let ?all = "\<lambda>s. \<forall>d\<in>set (message_deliveries s). dl_message_id d = i \<longrightarrow> dl_status d = ''acked''"
  have all: "(i, False) \<notin> dl_acked (message_deliveries s') \<longleftrightarrow> ?all s'" for s' by (rule dl_acked_all)
  have has: "\<exists>b'. (i, b') \<in> dl_acked (message_deliveries s)"
    using i(2) unfolding ds dl_acked_has by simp
  have old: "\<And>b. (i, b) \<in> msg_acked (messages s) \<Longrightarrow> b \<longleftrightarrow> ?all s"
    using assms(1) has all [of s] by (simp add: ack_tracks_def)
  show "b \<longleftrightarrow> (i, False) \<notin> dl_acked (message_deliveries t)"
  proof (cases "i = mid \<and> ?hits")
    case False
    then have "\<forall>d\<in>set (message_deliveries s). ack_hits a mid d \<longrightarrow> dl_message_id d \<noteq> i" by (auto simp: ack_hits_def)
    then have "?all t \<longleftrightarrow> ?all s" unfolding ds ball_update_where by auto
    moreover have "(i, b) \<in> msg_acked (messages s)"
      using i(1) False unfolding ms by (auto simp: msg_acked_def in_update_where split: if_splits)
    ultimately show ?thesis using old all [of t] by simp
  next
    case True
    then have "\<not> ?all s" by (auto simp: ack_hits_def)
    show ?thesis
    proof (cases "?all t")
      case every: True
      with True have c: "?hits \<and> (\<forall>d\<in>set (message_deliveries t). dl_message_id d = mid \<longrightarrow> dl_status d = ''acked'')" by blast
      have "(mid, b) \<in> msg_acked (messages t)" using i(1) True by blast
      then have b by (rule msg_acked_update [OF back_subst [of "\<lambda>x. (mid, b) \<in> msg_acked x", OF _ trans [OF ms if_P [OF c]]]])
      with every all [of t] show ?thesis by simp
    next
      case some: False
      with True have "\<not> (?hits \<and> (\<forall>d\<in>set (message_deliveries t). dl_message_id d = mid \<longrightarrow> dl_status d = ''acked''))" by blast
      then have "messages t = messages s" using ms by (rule if_not_P [THEN trans [rotated]])
      then have "(i, b) \<in> msg_acked (messages s)" using i(1) by simp
      then have "\<not> b" using old \<open>\<not> ?all s\<close> by blast
      with some all [of t] show ?thesis by blast
    qed
  qed
qed

lemma ack_one_mailbox:
  assumes "mailbox_inv U C s"
  shows "mailbox_inv U C (snd (ack_one E a (mid, at) (n, s)))"
proof -
  let ?t = "snd (ack_one E a (mid, at) (n, s))"
  note ds = ack_one_deliveries [of E a mid at n s] and ms = ack_one_messages [of E a mid at n s]
  have ids: "map ms_id (messages ?t) = map ms_id (messages s)" by (subst ms) simp
  then have set_ids: "ms_id ` set (messages ?t) = ms_id ` set (messages s)" by (metis set_map)
  have dead: "dead_ids ?t = dead_ids s" using ack_one_frame [of "(n, s)" E a "(mid, at)"] by (simp add: dead_ids_def)
  have ok: "delivery_ok C (dead_ids ?t) d \<and> dl_message_id d \<in> ms_id ` set (messages ?t)" if "d \<in> set (message_deliveries ?t)" for d
    using that assms acked_row_ok unfolding dead set_ids ds by (auto simp: in_update_where mailbox_inv_def)
  have "ack_tracks (msg_acked (messages ?t)) (dl_acked (message_deliveries ?t))"
    using assms by (intro ack_one_tracks [OF _ refl]) (simp add: mailbox_inv_def)
  then show ?thesis
    using assms ids ok ack_one_frame [of "(n, s)" E a "(mid, at)"] ds by (auto simp: mailbox_inv_def intro: drawn_mono)
qed

lemma ack_one_advances: "advances C s (snd (ack_one E a (mid, at) (n, s)))"
  by (rule advances_update [OF ack_one_deliveries])
    (auto simp: same_delivery_def ack_hits_def life_of_def intro!: life_step.Acknowledge)

lemma ackMessages_mailbox:
  assumes "mailbox_inv U C s" "ackMessages E a acks s = (n, t)"
  shows "mailbox_inv U C t \<and> advances C s t"
proof -
  have "mailbox_inv U C (snd (fold (ack_one E a) acks p)) \<and> advances C (snd p) (snd (fold (ack_one E a) acks p))"
    if "mailbox_inv U C (snd p)" for p
    using that
  proof (induction acks arbitrary: p)
    case (Cons ack acks)
    from ack_one_mailbox [OF Cons.prems, of E a "fst ack" "snd ack" "fst p"] have "mailbox_inv U C (snd (ack_one E a ack p))" by simp
    from Cons.IH [OF this] advances_trans ack_one_advances [of C "snd p" E a "fst ack" "snd ack" "fst p"] show ?case by fastforce
  qed (simp add: advances_keep)
  from this [of "(0, s)"] assms show ?thesis by (simp add: ackMessages_def)
qed

section \<open>Sweeps keep it\<close>

lemma join_deliveries_in:
  "(m, d) \<in> set (join_deliveries p q s) \<longleftrightarrow>
     m \<in> set (messages s) \<and> d \<in> set (message_deliveries s) \<and> ms_id m = dl_message_id d \<and> p d \<and> q m"
  by (auto simp: join_deliveries_def select_all_def)

lemma join_deliveries_distinct:
  assumes "distinct (map ms_id (messages s))" "distinct (map dl_id (message_deliveries s))"
  shows "distinct (map (dl_id \<circ> snd) (join_deliveries p q s))"
  unfolding join_deliveries_def select_all_def
  by (rule distinct_join)
    (use assms filter_key_short [OF assms(1)] in \<open>auto intro: distinct_map_filter\<close>)

text \<open>One row of a sweep: what it needs of the store and what it leaves for the rows after it.\<close>

definition row_step :: "(nat \<Rightarrow> string) \<Rightarrow> config \<Rightarrow> delivery_row \<Rightarrow> store \<Rightarrow> store \<Rightarrow> bool" where
  "row_step U C d s t \<longleftrightarrow>
     (mailbox_inv U C s \<and> d \<in> set (message_deliveries s) \<longrightarrow> mailbox_inv U C t \<and> advances C s t)
     \<and> (\<forall>d'\<in>set (message_deliveries s). dl_id d' \<noteq> dl_id d \<longrightarrow> d' \<in> set (message_deliveries t))"

lemma rows_mailbox:
  assumes "mailbox_inv U C s" "distinct (map (dl_id \<circ> snd) rows)" "\<And>r. r \<in> set rows \<Longrightarrow> snd r \<in> set (message_deliveries s)"
    and "\<And>r s. r \<in> set rows \<Longrightarrow> row_step U C (snd r) s (f r s)"
  shows "mailbox_inv U C (fold f rows s) \<and> advances C s (fold f rows s)"
  using assms
proof (induction rows arbitrary: s)
  case (Cons r rows)
  have step: "row_step U C (snd r) s (f r s)" using Cons.prems(4) by simp
  have inv: "mailbox_inv U C (f r s)" and adv: "advances C s (f r s)" using step Cons.prems(1,3) by (simp_all add: row_step_def)
  have rest: "snd x \<in> set (message_deliveries (f r s))" if "x \<in> set rows" for x
  proof -
    have "(dl_id \<circ> snd) r \<notin> (dl_id \<circ> snd) ` set rows" using Cons.prems(2) by (simp only: list.map distinct.simps set_map simp_thms)
    then have "dl_id (snd x) \<noteq> dl_id (snd r)" using imageI [OF that, of "dl_id \<circ> snd"] by (metis comp_apply)
    then show ?thesis using step Cons.prems(3) that by (simp add: row_step_def)
  qed
  show ?case
    using Cons.IH [OF inv _ rest] Cons.prems(2,4) advances_trans [OF adv] by simp
qed (simp add: advances_keep)

text \<open>Updating the one row with the id of a known row.\<close>

lemma update_one_row:
  assumes "distinct (map dl_id ds)" "d \<in> set ds" "\<And>r. p r \<Longrightarrow> dl_id r = dl_id d"
    and "r \<in> set (update_where p u ds)"
  shows "r \<in> set ds \<and> \<not> p r \<or> p d \<and> r = u d"
proof -
  from assms(4) obtain q where q: "q \<in> set ds" "p q \<and> r = u q \<or> \<not> p q \<and> r = q" by (auto simp: in_update_where)
  have "q = d" if "p q" using assms(1-3) q(1) that by (metis distinct_map inj_on_contraD)
  with q show ?thesis by auto
qed

lemma image_update_one:
  assumes "\<And>r. r \<in> set rows \<Longrightarrow> p r \<Longrightarrow> k (u r) = k r"
  shows "k ` set (update_where p u rows) = k ` set rows"
  using assms by (induction rows) (auto simp: update_where_def)

lemma msg_acked_keep:
  "(\<And>r. p r \<Longrightarrow> ms_id (u r) = ms_id r \<and> (ms_status (u r) = ''acked'') = (ms_status r = ''acked''))
    \<Longrightarrow> msg_acked (update_where p u ms) = msg_acked ms"
  unfolding msg_acked_def by (rule image_update_where) simp

lemma row_step_update:
  assumes p: "\<And>r. p r \<Longrightarrow> dl_id r = dl_id d" and "dl_status d \<noteq> ''acked''"
    and t: "message_deliveries t = update_where p u (message_deliveries s)" "messages t = update_where q v (messages s)"
      "draws s \<le> draws t" "dead_ids s \<subseteq> dead_ids t"
    and u: "\<And>r. dl_id (u r) = dl_id r" "same_delivery d (u d)" "dl_status (u d) \<noteq> ''acked''"
      "delivery_ok C (dead_ids s) d \<Longrightarrow> delivery_ok C (dead_ids t) (u d) \<and> life_step (maxRetries C) (life_of d) (life_of (u d))"
    and v: "\<And>r. q r \<Longrightarrow> ms_id (v r) = ms_id r \<and> ms_status r \<noteq> ''acked'' \<and> ms_status (v r) \<noteq> ''acked''"
  shows "row_step U C d s t"
  unfolding row_step_def
proof (intro conjI impI ballI)
  show "d' \<in> set (message_deliveries t)" if "d' \<in> set (message_deliveries s)" "dl_id d' \<noteq> dl_id d" for d'
    using that p by (auto simp: t in_update_where)
  assume "mailbox_inv U C s \<and> d \<in> set (message_deliveries s)"
  then have inv: "mailbox_inv U C s" and d: "d \<in> set (message_deliveries s)" by auto
  have dist: "distinct (map dl_id (message_deliveries s))" using inv by (simp add: mailbox_inv_def drawn_def)
  have only: "r = d" if "r \<in> set (message_deliveries s)" "p r" for r
    using p [OF that(2)] that(1) d dist by (metis distinct_map inj_on_contraD)
  have ok: "delivery_ok C (dead_ids s) d" using inv d by (simp add: mailbox_inv_def)
  show "advances C s t" by (rule advances_update [OF t(1)]) (use only u(2,4) ok in auto)
  show "mailbox_inv U C t"
  proof (rule mailbox_update [OF inv])
    show "map ms_id (messages t) = map ms_id (messages s)" by (simp add: t v)
    show "map dl_id (message_deliveries t) = map dl_id (message_deliveries s)" by (simp add: t u)
    show "msg_acked (messages t) = msg_acked (messages s)" unfolding t by (rule msg_acked_keep) (use v in auto)
    show "dl_acked (message_deliveries t) = dl_acked (message_deliveries s)"
      unfolding t dl_acked_def by (rule image_update_one) (use only u assms(2) in \<open>auto simp: same_delivery_def\<close>)
    show "delivery_ok C (dead_ids t) r \<and> dl_message_id r \<in> ms_id ` set (messages s)" if "r \<in> set (message_deliveries t)" for r
    proof -
      have "r \<in> set (message_deliveries s) \<or> r = u d"
        using that only by (auto simp: t in_update_where)
      then show ?thesis
        using inv d ok u(2,4) delivery_ok_mono [OF _ t(4)] by (auto simp: mailbox_inv_def same_delivery_def)
    qed
  qed (rule t(3))
qed

lemma requeue_row:
  assumes "dl_status d = ''delivered''" "dl_retry_count d + 1 \<le> maxRetries C"
  shows "row_step U C d s (requeue E (m, d) s)"
  by (rule row_step_update [where q = "\<lambda>_. False" and v = id
        and p = "\<lambda>r. dl_id r = dl_id d \<and> dl_status r = ''delivered''"
        and u = "\<lambda>r. r\<lparr> dl_status := ''queued'', dl_delivered_at := None, dl_retry_count := dl_retry_count d + 1,
           dl_next_retry_at := Some (addSeconds (now E) (backoff (cfg E) (dl_retry_count d + 1))), dl_last_failure_reason := Some ''timeout'' \<rparr>"])
    (use assms in \<open>auto simp: requeue_def Let_def update_where_id dead_ids_def delivery_ok_def same_delivery_def life_of_def intro: life_step.intros\<close>)

lemma moveToDeadLetter_row:
  assumes "dl_status d = ''delivered''" "dl_retry_count d + 1 > maxRetries C"
  shows "row_step U C d s (moveToDeadLetter E (m, d) s)"
proof (cases "changes (\<lambda>r. dl_id r = dl_id d \<and> dl_status r = ''delivered'') (message_deliveries s) = 0")
  case True
  then have "moveToDeadLetter E (m, d) s = s\<lparr> draws := Suc (draws s) \<rparr>" by (simp add: moveToDeadLetter_def Let_def)
  moreover have "mailbox_inv U C (s\<lparr> draws := Suc (draws s) \<rparr>) \<and> advances C s (s\<lparr> draws := Suc (draws s) \<rparr>)" if "mailbox_inv U C s"
    by (intro conjI mailbox_update [OF that] advances_keep) (use that in \<open>auto simp: mailbox_inv_def dead_ids_def\<close>)
  ultimately show ?thesis by (simp add: row_step_def)
next
  case False
  show ?thesis
    by (rule row_step_update [where q = "\<lambda>r. ms_id r = ms_id m \<and> ms_status r \<noteq> ''acked''" and v = "\<lambda>r. r\<lparr> ms_status := ''dead_lettered'' \<rparr>"
          and p = "\<lambda>r. dl_id r = dl_id d \<and> dl_status r = ''delivered''" and u = "\<lambda>r. r\<lparr> dl_status := ''dead_lettered'' \<rparr>"])
      (use assms False in \<open>auto simp: moveToDeadLetter_def Let_def dead_ids_def delivery_ok_def same_delivery_def life_of_def intro: life_step.intros\<close>)
qed

lemma expire_row:
  assumes "dl_status d \<in> {''queued'', ''delivered''}"
  shows "row_step U C d s (expire_one E (m, d) s)"
  by (rule row_step_update [where q = "\<lambda>r. ms_id r = ms_id m \<and> ms_status r \<notin> {''acked'', ''dead_lettered''}"
        and v = "\<lambda>r. r\<lparr> ms_status := ''expired'' \<rparr>" and p = "\<lambda>r. dl_id r = dl_id d" and u = "\<lambda>r. r\<lparr> dl_status := ''expired'' \<rparr>"])
    (use assms in \<open>auto simp: expire_one_def dead_ids_def delivery_ok_def same_delivery_def life_of_def intro: life_step.intros\<close>)

lemma mailbox_distinct:
  "mailbox_inv U C s \<Longrightarrow> distinct (map ms_id (messages s)) \<and> distinct (map dl_id (message_deliveries s))"
  by (simp add: mailbox_inv_def drawn_def)

lemma retry_one_snd:
  "snd (fold (retry_one E) rows p) =
     fold (\<lambda>r. if dl_retry_count (snd r) + 1 > maxRetries (cfg E) then moveToDeadLetter E r else requeue E r) rows (snd p)"
  by (induction rows arbitrary: p) (auto simp: retry_one_def split: prod.splits)

lemma sweepRetryDeliveries_mailbox:
  assumes "mailbox_inv U C s" "cfg E = C" "sweepRetryDeliveries E s = (r, t)"
  shows "mailbox_inv U C t \<and> advances C s t"
proof -
  have "t = fold (\<lambda>r. if dl_retry_count (snd r) + 1 > maxRetries (cfg E) then moveToDeadLetter E r else requeue E r) (timed_out E s) s"
    using assms(3) retry_one_snd [of E "timed_out E s" "((0, 0), s)"] by (simp add: sweepRetryDeliveries_def)
  also have "mailbox_inv U C \<dots> \<and> advances C s \<dots>"
  proof (rule rows_mailbox [OF assms(1)])
    show "distinct (map (dl_id \<circ> snd) (timed_out E s))"
      using mailbox_distinct [OF assms(1)] by (simp add: timed_out_def join_deliveries_distinct)
    fix x s'
    assume "x \<in> set (timed_out E s)"
    moreover obtain m d where x: "x = (m, d)" by (cases x)
    ultimately have d: "dl_status d = ''delivered''" "d \<in> set (message_deliveries s)"
      by (auto simp: timed_out_def join_deliveries_in)
    show "snd x \<in> set (message_deliveries s)" by (simp add: x d(2))
    show "row_step U C (snd x) s' ((if dl_retry_count (snd x) + 1 > maxRetries (cfg E) then moveToDeadLetter E x else requeue E x) s')"
      using moveToDeadLetter_row [OF d(1), of C U s' E m] requeue_row [OF d(1), of C U s' E m] by (simp add: x assms(2))
  qed
  finally show ?thesis .
qed

lemma sweepExpiredMessages_mailbox:
  assumes "mailbox_inv U C s" "sweepExpiredMessages E s = (n, t)"
  shows "mailbox_inv U C t \<and> advances C s t"
proof -
  have "t = fold (expire_one E) (expirable E s) s" using assms(2) by (simp add: sweepExpiredMessages_def)
  also have "mailbox_inv U C \<dots> \<and> advances C s \<dots>"
  proof (rule rows_mailbox [OF assms(1)])
    show "distinct (map (dl_id \<circ> snd) (expirable E s))"
      using mailbox_distinct [OF assms(1)] by (simp add: expirable_def join_deliveries_distinct)
    fix x s'
    assume "x \<in> set (expirable E s)"
    moreover obtain m d where x: "x = (m, d)" by (cases x)
    ultimately have d: "dl_status d \<in> {''queued'', ''delivered''}" "d \<in> set (message_deliveries s)"
      by (auto simp: expirable_def join_deliveries_in)
    show "snd x \<in> set (message_deliveries s)" by (simp add: x d(2))
    show "row_step U C (snd x) s' (expire_one E x s')" unfolding x snd_conv by (rule expire_row [OF d(1)])
  qed
  finally show ?thesis .
qed

section \<open>Runs of the mailbox\<close>

text \<open>Sends, polls, acknowledgements and sweeps, with ids from one stream and under one configuration.\<close>

inductive mailbox_step :: "(nat \<Rightarrow> string) \<Rightarrow> config \<Rightarrow> store \<Rightarrow> store \<Rightarrow> bool" for U C where
  Send: "uuid E = U \<Longrightarrow> createMessage E i s = Inr (r, t) \<Longrightarrow> mailbox_step U C s t"
| Operator_send: "uuid E = U \<Longrightarrow> createOperatorMessage E oi s = (r', t) \<Longrightarrow> mailbox_step U C s t"
| Resume: "uuid E = U \<Longrightarrow> resumeConversation E f oid c tx fb s = (r'', t) \<Longrightarrow> mailbox_step U C s t"
| Poll: "getInbox E a n s = (ib, t) \<Longrightarrow> mailbox_step U C s t"
| Ack: "ackMessages E a acks s = (k, t) \<Longrightarrow> mailbox_step U C s t"
| Retry: "cfg E = C \<Longrightarrow> sweepRetryDeliveries E s = (rd, t) \<Longrightarrow> mailbox_step U C s t"
| Expire: "sweepExpiredMessages E s = (k, t) \<Longrightarrow> mailbox_step U C s t"
| Other: "messages t = messages s \<Longrightarrow> message_deliveries t = message_deliveries s \<Longrightarrow> dead_letters t = dead_letters s
    \<Longrightarrow> draws s \<le> draws t \<Longrightarrow> mailbox_step U C s t"

lemma createMessage_mailbox:
  assumes "mailbox_inv U C s" "inj U" "0 \<le> maxRetries C" "uuid E = U" "createMessage E i s = Inr ((mid, at), t)"
  shows "mailbox_inv U C t"
  using assms(5)
proof (rule createMessage_Inr)
  fix rids
  let ?m = "queued_message E i mid (message_conversation i)"
  assume c: "messages t = messages s @ [?m]" "message_deliveries t = message_deliveries s @ delivery_rows E mid (Suc (draws s)) rids"
    "mid = mk_id E ''msg'' (draws s)" "draws t = Suc (Suc (draws s) + length rids)" "dead_letters t = dead_letters s"
  show "mailbox_inv U C t"
    by (rule mailbox_insert [OF assms(1,2,4,3) c(1), of "draws s" "Suc (draws s)" rids]) (use c in simp_all)
qed

lemma mailbox_frame:
  assumes "mailbox_inv U C s" "messages t = messages s" "message_deliveries t = message_deliveries s"
    "dead_letters t = dead_letters s" "draws s \<le> draws t"
  shows "mailbox_inv U C t"
  by (rule mailbox_update [OF assms(1)]) (use assms in \<open>auto simp: mailbox_inv_def dead_ids_def\<close>)

lemma mailbox_event: "mailbox_inv U C s \<Longrightarrow> mailbox_inv U C (recordEvent E f ty ak ai rk ri c p s)"
  by (erule mailbox_frame) simp_all

lemma ensureOperatorAgent_frame:
  assumes "ensureOperatorAgent E f s = (oid, t)"
  shows "messages t = messages s" "message_deliveries t = message_deliveries s" "dead_letters t = dead_letters s" "draws t = draws s"
  using assms by (auto simp: ensureOperatorAgent_def Let_def split: if_splits)

lemma createOperatorMessage_mailbox:
  assumes "mailbox_inv U C s" "inj U" "0 \<le> maxRetries C" "uuid E = U" "createOperatorMessage E i s = (r, t)"
  shows "mailbox_inv U C t"
  using assms(5)
proof (cases rule: createOperatorMessage_cases)
  case refused
  with assms(1) show ?thesis by simp
next
  case failed
  obtain oid s0 where e: "ensureOperatorAgent E (oi_fleetId i) (s\<lparr> draws := Suc (draws s) \<rparr>) = (oid, s0)"
    by (cases "ensureOperatorAgent E (oi_fleetId i) (s\<lparr> draws := Suc (draws s) \<rparr>)")
  show ?thesis
    by (rule mailbox_frame [OF assms(1)]) (use failed(1) e ensureOperatorAgent_frame [OF e] in auto)
next
  case (sent oid s0 c kind rid ty n rids m)
  note e = ensureOperatorAgent_frame [OF sent(1), simplified]
  show ?thesis
    by (rule mailbox_insert [OF assms(1,2,4,3), of t m "draws s" n rids]) (use sent(11-18) e in simp_all)
qed

lemma resumeConversation_mailbox:
  assumes "mailbox_inv U C s" "inj U" "0 \<le> maxRetries C" "uuid E = U" "resumeConversation E f oid c tx fb s = (r, t)"
  shows "mailbox_inv U C t"
  using assms(5)
proof (cases rule: resumeConversation_cases)
  case nobody
  with assms(1) show ?thesis by simp
next
  case (room r1 s1)
  have "mailbox_inv U C s1" by (rule createOperatorMessage_mailbox [OF assms(1-4) room(1)])
  then show ?thesis using room(2) mailbox_event by auto
next
  case (sent o0 s0 m)
  note e = ensureOperatorAgent_frame [OF sent(1), simplified]
  show ?thesis
    by (rule mailbox_insert [OF assms(1,2,4,3), of t m "draws s" "Suc (draws s0)" "conversation_participants s f c"])
      (use sent(3,4,8-11) e in simp_all)
qed

lemma sends_append:
  "createMessage E i s = Inr (r, t) \<Longrightarrow> set (message_deliveries s) \<subseteq> set (message_deliveries t)"
  "createOperatorMessage E oi s = (r', t) \<Longrightarrow> set (message_deliveries s) \<subseteq> set (message_deliveries t)"
  "resumeConversation E f oid c tx fb s = (r'', t) \<Longrightarrow> set (message_deliveries s) \<subseteq> set (message_deliveries t)"
proof -
  show "createMessage E i s = Inr (r, t) \<Longrightarrow> set (message_deliveries s) \<subseteq> set (message_deliveries t)"
    by (cases r) (auto elim!: createMessage_Inr)
  show op: "createOperatorMessage E oi s = (r', t) \<Longrightarrow> set (message_deliveries s) \<subseteq> set (message_deliveries t)" for oi r' t
  proof (erule createOperatorMessage_cases)
    assume "t = snd (ensureOperatorAgent E (oi_fleetId oi) (s\<lparr> draws := Suc (draws s) \<rparr>))"
    then show ?thesis by (simp add: ensureOperatorAgent_def Let_def)
  qed (auto dest!: ensureOperatorAgent_frame(2))
  show "resumeConversation E f oid c tx fb s = (r'', t) \<Longrightarrow> set (message_deliveries s) \<subseteq> set (message_deliveries t)"
  proof (erule resumeConversation_cases)
    fix r1 s1
    assume "createOperatorMessage E (resume_input f oid c (resume_nudge tx fb)) s = (r1, s1)"
      "t = s1 \<or> t = recordEvent E f ''conversation.resumed'' ''operator'' (Some oid) ''conversation'' (Some c) (Some c) (JObj []) s1"
    then show ?thesis using op [of "resume_input f oid c (resume_nudge tx fb)" r1 s1] by fastforce
  qed (auto dest!: ensureOperatorAgent_frame(2))
qed

lemma mailbox_step_inv:
  assumes "mailbox_step U C s t" "mailbox_inv U C s" "inj U" "0 \<le> maxRetries C"
  shows "mailbox_inv U C t \<and> advances C s t"
  using assms(1)
proof cases
  case (Send E i r)
  then show ?thesis
    using createMessage_mailbox [OF assms(2-4), of E i "fst r" "snd r"] advances_keep [OF sends_append(1) [OF Send(2)]] by simp
next
  case (Operator_send E oi r)
  then show ?thesis
    using createOperatorMessage_mailbox [OF assms(2-4) Operator_send] advances_keep [OF sends_append(2) [OF Operator_send(2)]] by simp
next
  case (Resume E f oid c tx fb r)
  then show ?thesis
    using resumeConversation_mailbox [OF assms(2-4) Resume] advances_keep [OF sends_append(3) [OF Resume(2)]] by simp
next
  case Poll
  then show ?thesis by (rule getInbox_mailbox [OF assms(2)])
next
  case Ack
  then show ?thesis by (rule ackMessages_mailbox [OF assms(2)])
next
  case Retry
  then show ?thesis by (rule sweepRetryDeliveries_mailbox [OF assms(2)])
next
  case Expire
  then show ?thesis by (rule sweepExpiredMessages_mailbox [OF assms(2)])
next
  case Other
  then show ?thesis by (intro conjI mailbox_frame [OF assms(2)] advances_keep) simp_all
qed

lemma mailbox_start: "mailbox_inv U C empty_store"
  by (simp add: mailbox_inv_def drawn_def ack_tracks_def msg_acked_def dl_acked_def empty_store_def)

text \<open>The system of steps, for an injective stream of ids and a configuration with no negative retry limit.\<close>

interpretation mailbox: stepping empty_store "\<lambda>s t. mailbox_step U C s t \<and> inj U \<and> 0 \<le> maxRetries C" "mailbox_inv U C" for U C
  by unfold_locales (use mailbox_start mailbox_step_inv in blast)+

lemma mailbox_reach:
  assumes "inj U" "0 \<le> maxRetries C" "reach empty_store (mailbox_step U C) s"
  shows "mailbox_inv U C s"
proof (rule mailbox.inv_reach)
  show "reach empty_store (\<lambda>s t. mailbox_step U C s t \<and> inj U \<and> 0 \<le> maxRetries C) s"
    using assms(3) by (induction rule: reach.induct) (auto intro: reach.intros simp: assms(1,2))
qed

text \<open>
  C8: a delivery is handed out a bounded number of times.  In every state reachable by sends, polls,
  acknowledgements and sweeps, a delivery is queued, delivered, acknowledged, dead-lettered or expired; it
  has been retried at most the configured number of times and handed out at most once more than that; and
  when it is dead-lettered all retries are used up and a dead letter records it.
\<close>

theorem delivery_attempts_bounded:
  assumes "inj U" "0 \<le> maxRetries C" "reach empty_store (mailbox_step U C) s" "d \<in> set (message_deliveries s)"
  shows "dl_status d \<in> {''queued'', ''delivered'', ''acked'', ''dead_lettered'', ''expired''}
    \<and> 0 \<le> dl_retry_count d \<and> dl_retry_count d \<le> maxRetries C \<and> dl_delivery_attempts d \<le> maxRetries C + 1
    \<and> (dl_status d = ''dead_lettered'' \<longrightarrow> dl_retry_count d = maxRetries C
         \<and> dl_id d \<in> dd_original_delivery_id ` set (dead_letters s))"
  using mailbox_reach [OF assms(1-3)] assms(4) by (auto simp: mailbox_inv_def delivery_ok_def dead_ids_def)

text \<open>
  A message counts as acknowledged exactly when every one of its deliveries is.  In every reachable
  state, for every message that was delivered to anyone, its status is acknowledged if and only if no
  delivery of it is queued, delivered, dead-lettered or expired.
\<close>

theorem message_acked_iff_all_acked:
  assumes "inj U" "0 \<le> maxRetries C" "reach empty_store (mailbox_step U C) s"
    and "m \<in> set (messages s)" "d \<in> set (message_deliveries s)" "dl_message_id d = ms_id m"
  shows "ms_status m = ''acked'' \<longleftrightarrow> (\<forall>d\<in>set (message_deliveries s). dl_message_id d = ms_id m \<longrightarrow> dl_status d = ''acked'')"
proof -
  have "(ms_id m, ms_status m = ''acked'') \<in> msg_acked (messages s)" using assms(4) by (auto simp: msg_acked_def)
  moreover have "\<exists>b. (ms_id m, b) \<in> dl_acked (message_deliveries s)" using assms(5,6) by (metis dl_acked_has imageI)
  ultimately have "ms_status m = ''acked'' \<longleftrightarrow> (ms_id m, False) \<notin> dl_acked (message_deliveries s)"
    using mailbox_reach [OF assms(1-3)] by (simp add: mailbox_inv_def ack_tracks_def)
  then show ?thesis by (simp only: dl_acked_all)
qed

text \<open>
  C18: every delivery follows its lifecycle.  From any reachable state on, whatever steps follow, a delivery
  is never lost, keeps its message and its recipient, and its state moves only along the abstract
  lifecycle: out of the queue when it is polled, back to the queue with one more retry after a timeout while retries
  remain, to the dead letters when they are used up, to expired when its time is over, and to acknowledged, which is
  final.
\<close>

theorem delivery_refines_lifecycle:
  assumes "inj U" "0 \<le> maxRetries C" "reach empty_store (mailbox_step U C) s" "reach s (mailbox_step U C) t"
    and "d \<in> set (message_deliveries s)"
  shows "\<exists>d'\<in>set (message_deliveries t). dl_id d' = dl_id d \<and> dl_message_id d' = dl_message_id d
    \<and> dl_recipient_agent_id d' = dl_recipient_agent_id d \<and> (life_step (maxRetries C))\<^sup>*\<^sup>* (life_of d) (life_of d')
    \<and> (dl_status d = ''acked'' \<longrightarrow> dl_status d' = ''acked'')"
proof -
  have "mailbox_inv U C t \<and> advances C s t"
    using assms(4)
  proof induction
    case reach_start
    then show ?case by (simp add: mailbox_reach [OF assms(1-3)] advances_keep)
  next
    case (reach_step u v)
    with mailbox_step_inv [OF reach_step(2) _ assms(1,2)] advances_trans show ?case by blast
  qed
  then obtain d' where d': "d' \<in> set (message_deliveries t)" "same_delivery d d'"
    "(life_step (maxRetries C))\<^sup>*\<^sup>* (life_of d) (life_of d')"
    using assms(5) unfolding advances_def by blast
  have "y = Acked" if "(life_step (maxRetries C))\<^sup>*\<^sup>* Acked y" for y
    using that by (induction rule: rtranclp_induct) auto
  with d'(3) have "dl_status d = ''acked'' \<longrightarrow> dl_status d' = ''acked''"
    by (auto simp: life_of_def split: if_splits)
  with d' show ?thesis by (auto simp: same_delivery_def)
qed

section \<open>What the sweeps achieve\<close>

lemma fold_keeps_other:
  assumes "\<And>r s d. r \<in> set rows \<Longrightarrow> d \<in> set (message_deliveries s) \<Longrightarrow> dl_id d \<noteq> dl_id (snd r) \<Longrightarrow> d \<in> set (message_deliveries (f r s))"
    and "d \<in> set (message_deliveries s)" "dl_id d \<notin> (dl_id \<circ> snd) ` set rows"
  shows "d \<in> set (message_deliveries (fold f rows s))"
  using assms
proof (induction rows arbitrary: s)
  case (Cons r rows)
  have "d \<in> set (message_deliveries (f r s))" using Cons.prems by auto
  from Cons.IH [OF _ this] Cons.prems(1,3) show ?case by simp
qed simp

abbreviation sweep_row :: "env \<Rightarrow> message_row \<times> delivery_row \<Rightarrow> store \<Rightarrow> store" where
  "sweep_row E r \<equiv> if dl_retry_count (snd r) + 1 > maxRetries (cfg E) then moveToDeadLetter E r else requeue E r"

lemma sweep_row_keeps:
  assumes "d \<in> set (message_deliveries s)" "dl_id d \<noteq> dl_id (snd r)"
  shows "d \<in> set (message_deliveries (sweep_row E r s))"
  using assms by (cases r) (auto simp: moveToDeadLetter_def requeue_def Let_def in_update_where)

definition requeued :: "env \<Rightarrow> delivery_row \<Rightarrow> delivery_row" where
  "requeued E d = d\<lparr> dl_status := ''queued'', dl_delivered_at := None, dl_retry_count := dl_retry_count d + 1,
     dl_next_retry_at := Some (addSeconds (now E) (backoff (cfg E) (dl_retry_count d + 1))), dl_last_failure_reason := Some ''timeout'' \<rparr>"

lemma sweepRetryDeliveries_requeues:
  assumes dist: "distinct (map ms_id (messages s))" "distinct (map dl_id (message_deliveries s))"
    and md: "(m, d) \<in> set (timed_out E s)" and "dl_retry_count d < maxRetries (cfg E)"
  shows "requeued E d \<in> set (message_deliveries (snd (sweepRetryDeliveries E s)))"
proof -
  let ?rows = "timed_out E s"
  have d: "d \<in> set (message_deliveries s)" "dl_status d = ''delivered''" using md by (auto simp: timed_out_def join_deliveries_in)
  obtain xs ys where rows: "?rows = xs @ (m, d) # ys" using md by (auto simp: in_set_conv_decomp)
  have "distinct (map (dl_id \<circ> snd) ?rows)" unfolding timed_out_def by (rule join_deliveries_distinct [OF dist])
  then have sep: "dl_id d \<notin> (dl_id \<circ> snd) ` set xs" "dl_id d \<notin> (dl_id \<circ> snd) ` set ys" by (auto simp: rows)
  let ?s1 = "fold (sweep_row E) xs s"
  have d1: "d \<in> set (message_deliveries ?s1)" by (rule fold_keeps_other [OF sweep_row_keeps d(1) sep(1)])
  then have d2: "requeued E d \<in> set (message_deliveries (sweep_row E (m, d) ?s1))"
    using d(2) assms(4) by (auto simp: requeue_def requeued_def Let_def in_update_where)
  have "requeued E d \<in> set (message_deliveries (fold (sweep_row E) ys (sweep_row E (m, d) ?s1)))"
    by (rule fold_keeps_other [OF sweep_row_keeps d2]) (use sep(2) in \<open>simp_all add: requeued_def\<close>)
  then show ?thesis
    using retry_one_snd [of E ?rows "((0, 0), s)"] by (simp add: sweepRetryDeliveries_def rows)
qed

text \<open>
  A timed-out delivery is retried after the backoff and not before.  When a delivery was handed out longer than
  the timeout ago, is unacknowledged and unexpired and has retries left, the sweep puts it back in the
  queue with one more retry counted; no poll returns it until the backoff for that retry has passed, and
  from then on it is due again.
\<close>

theorem retry_respects_backoff:
  assumes "inj U" "0 \<le> maxRetries (cfg E)" "reach empty_store (mailbox_step U (cfg E)) s"
    and "m \<in> set (messages s)" "d \<in> set (message_deliveries s)" "dl_message_id d = ms_id m" "now E < ms_expires_at m"
    and "dl_status d = ''delivered''" "dl_delivered_at d = Some at" "at < addSeconds (now E) (- deliveryTimeoutSeconds (cfg E))"
    and "dl_retry_count d < maxRetries (cfg E)"
  shows "\<exists>d'\<in>set (message_deliveries (snd (sweepRetryDeliveries E s))). dl_id d' = dl_id d
    \<and> dl_retry_count d' = dl_retry_count d + 1
    \<and> (\<forall>E'. collectable E' (dl_recipient_agent_id d) d' \<longleftrightarrow> now E' \<ge> now E + 1000 * backoff (cfg E) (dl_retry_count d + 1))"
proof (intro bexI conjI allI)
  note dist = mailbox_distinct [OF mailbox_reach [OF assms(1-3)]]
  have "(m, d) \<in> set (timed_out E s)" using assms(4-10) by (simp add: timed_out_def join_deliveries_in)
  then show "requeued E d \<in> set (message_deliveries (snd (sweepRetryDeliveries E s)))"
    using dist assms(11) by (intro sweepRetryDeliveries_requeues) auto
qed (auto simp: requeued_def collectable_def addSeconds_def)

lemma fold_expire_deliveries:
  "message_deliveries (fold (expire_one E) rows s) =
     update_where (\<lambda>d. dl_id d \<in> (dl_id \<circ> snd) ` set rows) (\<lambda>d. d\<lparr> dl_status := ''expired'' \<rparr>) (message_deliveries s)"
proof (induction rows arbitrary: s)
  case Nil
  then show ?case by (simp add: update_where_id)
next
  case (Cons r rows)
  have "message_deliveries (expire_one E r s) =
      update_where (\<lambda>d. dl_id d = dl_id (snd r)) (\<lambda>d. d\<lparr> dl_status := ''expired'' \<rparr>) (message_deliveries s)"
    by (cases r) (simp add: expire_one_def)
  with Cons [of "expire_one E r s"] show ?case by (auto simp: update_where_def)
qed

text \<open>
  Nothing stays undecided past its time to live.  After an expiry sweep of a reachable state, every delivery
  whose message had expired by then is settled: acknowledged, dead-lettered or expired, and so it is
  never handed out again by a poll.
\<close>

theorem expiry_settles:
  assumes "inj U" "0 \<le> maxRetries C" "reach empty_store (mailbox_step U C) s" "sweepExpiredMessages E s = (n, t)"
    and "m \<in> set (messages s)" "ms_expires_at m \<le> now E" "d \<in> set (message_deliveries t)" "dl_message_id d = ms_id m"
  shows "dl_status d \<in> {''acked'', ''dead_lettered'', ''expired''} \<and> \<not> collectable E' a d"
proof -
  note inv = mailbox_reach [OF assms(1-3)]
  have t: "message_deliveries t = update_where (\<lambda>d. dl_id d \<in> (dl_id \<circ> snd) ` set (expirable E s))
      (\<lambda>d. d\<lparr> dl_status := ''expired'' \<rparr>) (message_deliveries s)"
    using assms(4) by (auto simp: sweepExpiredMessages_def fold_expire_deliveries)
  from assms(7) consider "dl_status d = ''expired''"
    | "d \<in> set (message_deliveries s)" "dl_id d \<notin> (dl_id \<circ> snd) ` set (expirable E s)"
    unfolding t in_update_where by auto
  then have "dl_status d \<in> {''acked'', ''dead_lettered'', ''expired''}"
  proof cases
    case 2
    have "dl_status d \<notin> {''queued'', ''delivered''}"
    proof
      assume "dl_status d \<in> {''queued'', ''delivered''}"
      then have "(m, d) \<in> set (expirable E s)" using assms(5,6,8) 2(1) by (simp add: expirable_def join_deliveries_in)
      then have "(dl_id \<circ> snd) (m, d) \<in> (dl_id \<circ> snd) ` set (expirable E s)" by (rule imageI)
      with 2(2) show False by simp
    qed
    moreover have "delivery_ok C (dead_ids s) d" using inv 2(1) by (simp add: mailbox_inv_def)
    ultimately show ?thesis by (auto simp: delivery_ok_def)
  qed simp
  then show ?thesis by (auto simp: collectable_def)
qed

section \<open>Samples\<close>

abbreviation sample_ids :: "nat \<Rightarrow> string" where
  "sample_ids \<equiv> \<lambda>n. replicate n CHR ''x''"

lemma sample_ids_inj: "inj sample_ids"
  by (rule injI) (metis length_replicate)

lemma sample_env_uuid: "uuid (sample_env t) = sample_ids"
  by (simp add: sample_env_def)

lemma sample_retries: "0 \<le> maxRetries default_config"
  by (simp add: default_config_def)

lemma sample_mailed_run: "reach empty_store (mailbox_step sample_ids default_config) sample_mailed"
proof -
  have "mailbox_step sample_ids default_config empty_store sample_enrolled"
    by (rule mailbox_step.Other) code_simp+
  moreover have "mailbox_step sample_ids default_config sample_enrolled sample_mailed"
    by (rule mailbox_step.Operator_send [where r' = "fst (createOperatorMessage (sample_env 2) sample_op_input sample_enrolled)"
          and E = "sample_env 2"]) (simp_all add: sample_mailed_def sample_env_uuid)
  ultimately show ?thesis by (meson reach_start reach_step)
qed

lemma sample_polled_run: "reach sample_mailed (mailbox_step sample_ids default_config) (snd sample_polled)"
  by (rule reach_step [OF reach_start]) (rule mailbox_step.Poll [OF sample_polled_eq])

lemma sample_polled_reach: "reach empty_store (mailbox_step sample_ids default_config) (snd sample_polled)"
  by (rule reach_step [OF sample_mailed_run]) (rule mailbox_step.Poll [OF sample_polled_eq])

lemma sample_mail:
  "hd (messages (snd sample_polled)) \<in> set (messages (snd sample_polled))"
  "hd (messages sample_mailed) \<in> set (messages sample_mailed)"
  "hd (message_deliveries (snd sample_polled)) \<in> set (message_deliveries (snd sample_polled))"
  "hd (message_deliveries sample_mailed) \<in> set (message_deliveries sample_mailed)"
  by (rule hd_in_set, code_simp)+

lemma delivery_attempts_bounded_witness:
  "dl_delivery_attempts (hd (message_deliveries (snd sample_polled))) \<le> maxRetries default_config + 1"
  using delivery_attempts_bounded [OF sample_ids_inj sample_retries sample_polled_reach sample_mail(3)] by simp

definition sample_acked :: store where
  "sample_acked = snd (ackMessages (sample_env 4) sample_agent [(ms_id (hd (messages sample_mailed)), ''t'')] (snd sample_polled))"

lemma message_acked_iff_all_acked_witness: "ms_status (hd (messages sample_acked)) = ''acked''"
proof -
  have r: "reach empty_store (mailbox_step sample_ids default_config) sample_acked"
    by (rule reach_step [OF sample_polled_reach], rule mailbox_step.Ack [where k = "fst (ackMessages (sample_env 4) sample_agent
          [(ms_id (hd (messages sample_mailed)), ''t'')] (snd sample_polled))"]) (simp add: sample_acked_def)
  have m: "hd (messages sample_acked) \<in> set (messages sample_acked)" "hd (message_deliveries sample_acked) \<in> set (message_deliveries sample_acked)"
    by (rule hd_in_set, code_simp)+
  have "dl_message_id (hd (message_deliveries sample_acked)) = ms_id (hd (messages sample_acked))" by code_simp
  moreover have "list_all (\<lambda>d. dl_status d = ''acked'') (message_deliveries sample_acked)" by code_simp
  ultimately show ?thesis
    using message_acked_iff_all_acked [OF sample_ids_inj sample_retries r m] by (simp add: list_all_iff)
qed

lemma delivery_refines_lifecycle_witness:
  "\<exists>d'\<in>set (message_deliveries (snd sample_polled)). dl_id d' = dl_id (hd (message_deliveries sample_mailed))
    \<and> (life_step (maxRetries default_config))\<^sup>*\<^sup>* (Queued 0) (life_of d')"
proof -
  have "life_of (hd (message_deliveries sample_mailed)) = Queued 0" by code_simp
  then show ?thesis
    using delivery_refines_lifecycle [OF sample_ids_inj sample_retries sample_mailed_run sample_polled_run sample_mail(4)] by auto
qed

lemma retry_respects_backoff_witness:
  "\<exists>d'\<in>set (message_deliveries (snd (sweepRetryDeliveries (sample_env 200000) (snd sample_polled)))). dl_retry_count d' = 1"
proof -
  let ?m = "hd (messages (snd sample_polled))" and ?d = "hd (message_deliveries (snd sample_polled))"
  have "dl_message_id ?d = ms_id ?m" "dl_status ?d = ''delivered''" "dl_delivered_at ?d = Some 3"
    "now (sample_env 200000) < ms_expires_at ?m" "3 < addSeconds (now (sample_env 200000)) (- deliveryTimeoutSeconds (cfg (sample_env 200000)))"
    "dl_retry_count ?d < maxRetries (cfg (sample_env 200000))" "dl_retry_count ?d = 0"
    by code_simp+
  then show ?thesis
    using retry_respects_backoff [of sample_ids "sample_env 200000", OF sample_ids_inj _ _ sample_mail(1,3)] sample_polled_reach
      sample_retries by force
qed

lemma expiry_settles_witness:
  "dl_status (hd (message_deliveries (snd (sweepExpiredMessages (sample_env 86500000) sample_mailed)))) \<in> {''acked'', ''dead_lettered'', ''expired''}"
proof -
  let ?t = "snd (sweepExpiredMessages (sample_env 86500000) sample_mailed)"
  have d: "hd (message_deliveries ?t) \<in> set (message_deliveries ?t)" by (rule hd_in_set) code_simp
  have "ms_expires_at (hd (messages sample_mailed)) \<le> now (sample_env 86500000)"
    "dl_message_id (hd (message_deliveries ?t)) = ms_id (hd (messages sample_mailed))"
    by code_simp+
  then show ?thesis
    using expiry_settles [OF sample_ids_inj sample_retries sample_mailed_run prod.collapse [symmetric] sample_mail(2) _ d] by simp
qed

end
