(* ===== verification/Governance.thy ===== *)
theory Governance
  imports Delivery
begin

text \<open>
  Who may act: heartbeats, operator controls and the automatic quarantines of \<^verbatim>\<open>db.ts\<close>
  (\<^verbatim>\<open>insertHeartbeat\<close>, \<^verbatim>\<open>controlAgent\<close>, \<^verbatim>\<open>setAgentTrust\<close>, \<^verbatim>\<open>setPeerAutoreply\<close>, \<^verbatim>\<open>ensureSystemOperator\<close>,
  \<^verbatim>\<open>sweepHeartbeatLiveness\<close>, \<^verbatim>\<open>checkRateLimitQuarantine\<close>, \<^verbatim>\<open>recordConversationStall\<close>).  The timeout and the
  windows of the configuration are positive, as shipped.
\<close>

section \<open>Controls\<close>

text \<open>
  \<^verbatim>\<open>UPDATE control_actions SET expires_at = now ...\<close> for the standing controls of an agent among the given actions.
\<close>

definition retire_controls :: "env \<Rightarrow> string \<Rightarrow> string list \<Rightarrow> control_row list \<Rightarrow> control_row list" where
  "retire_controls E agentId actions cs =
     update_where
       (\<lambda>c. ca_target_kind c = ''agent'' \<and> ca_target_id c = agentId \<and> ca_action c \<in> set actions
          \<and> (case ca_expires_at c of None \<Rightarrow> True | Some t \<Rightarrow> t > now E))
       (\<lambda>c. c\<lparr> ca_expires_at := Some (now E) \<rparr>) cs"

definition heartbeat_restores :: "agent_row \<Rightarrow> bool" where
  "heartbeat_restores a \<longleftrightarrow> ag_status a = ''quarantined'' \<and> ag_quarantine_reason a = Some ''heartbeat_timeout''"

definition insertHeartbeat :: "env \<Rightarrow> string \<Rightarrow> string \<Rightarrow> json \<Rightarrow> store \<Rightarrow> store" where
  "insertHeartbeat E agentId status metrics s =
     (case select_one (\<lambda>a. ag_id a = agentId) (agents s) of
        None \<Rightarrow> s
      | Some agent \<Rightarrow>
          let newStatus = (if status = ''healthy'' then ''healthy'' else ''degraded'');
              s1 = s\<lparr> heartbeats := heartbeats s @
                        [\<lparr> hb_id = mk_id E ''hbt'' (draws s), hb_agent_id = agentId, hb_status = status, hb_metrics = metrics,
                           hb_received_at = now E \<rparr>],
                      draws := Suc (draws s) \<rparr>;
              s2 = (if heartbeat_restores agent then
                      recordEvent E (ag_fleet_id agent) ''agent.auto_unquarantined'' ''system'' None ''agent'' (Some agentId) None
                        (JObj [(''reason'', JStr ''heartbeat_resumed'')])
                        (s1\<lparr> agents := update_where (\<lambda>a. ag_id a = agentId)
                               (\<lambda>a. a\<lparr> ag_status := newStatus, ag_last_seen_at := Some (now E), ag_missed_heartbeats := 0,
                                       ag_auto_quarantined_at := None, ag_quarantine_reason := None \<rparr>) (agents s1),
                             control_actions := retire_controls E agentId [''quarantine''] (control_actions s1) \<rparr>)
                    else
                      s1\<lparr> agents := update_where (\<lambda>a. ag_id a = agentId \<and> ag_status a \<notin> {''quarantined'', ''paused''})
                            (\<lambda>a. a\<lparr> ag_status := newStatus, ag_last_seen_at := Some (now E), ag_missed_heartbeats := 0 \<rparr>)
                            (agents s1) \<rparr>)
          in recordEvent E (ag_fleet_id agent) ''agent.heartbeat'' ''agent'' (Some agentId) ''agent'' (Some agentId) None
               (JObj [(''status'', JStr status), (''metrics'', metrics)]) s2)"

datatype control_action = Pause | Resume | Quarantine

fun control_name :: "control_action \<Rightarrow> string" where
  "control_name Pause = ''pause''"
| "control_name Resume = ''resume''"
| "control_name Quarantine = ''quarantine''"

fun control_status :: "control_action \<Rightarrow> string" where
  "control_status Pause = ''paused''"
| "control_status Quarantine = ''quarantined''"
| "control_status Resume = ''healthy''"

definition controlled_agent :: "string \<Rightarrow> string \<Rightarrow> agent_row \<Rightarrow> bool" where
  "controlled_agent fleetId agentId a \<longleftrightarrow> ag_id a = agentId \<and> ag_fleet_id a = fleetId \<and> ag_runtime a \<noteq> ''operator''"

definition controlAgent :: "env \<Rightarrow> string \<Rightarrow> string \<Rightarrow> string \<Rightarrow> control_action \<Rightarrow> json \<Rightarrow> store \<Rightarrow> bool \<times> store" where
  "controlAgent E fleetId agentId operatorId action payload s =
     (if \<not> select_exists (controlled_agent fleetId agentId) (agents s) then (False, s)
      else
        let cs = (if action = Resume then retire_controls E agentId [''pause'', ''quarantine''] (control_actions s)
                  else control_actions s)
        in (True,
            recordEvent E fleetId (''agent.'' @ control_name action) ''operator'' (Some operatorId) ''agent'' (Some agentId) None payload
              (s\<lparr> control_actions := cs @
                    [\<lparr> ca_id = mk_id E ''ctl'' (draws s), ca_fleet_id = fleetId, ca_target_kind = ''agent'', ca_target_id = agentId,
                       ca_action = control_name action, ca_payload = payload, ca_issued_by_operator_id = operatorId,
                       ca_created_at = now E,
                       ca_expires_at = (if action = Resume then Some (addSeconds (now E) 3600) else None) \<rparr>],
                  agents := update_where (\<lambda>a. ag_id a = agentId \<and> ag_fleet_id a = fleetId)
                    (\<lambda>a. a\<lparr> ag_status := control_status action,
                            ag_quarantine_reason := (if action = Quarantine then Some ''operator'' else None),
                            ag_auto_quarantined_at := None \<rparr>) (agents s),
                  draws := Suc (draws s) \<rparr>)))"

definition setAgentTrust :: "env \<Rightarrow> string \<Rightarrow> string \<Rightarrow> string \<Rightarrow> bool \<Rightarrow> store \<Rightarrow> bool option \<times> store" where
  "setAgentTrust E fleetId agentId operatorId trusted s =
     (if \<not> select_exists (controlled_agent fleetId agentId) (agents s) then (None, s)
      else
        (Some trusted,
         recordEvent E fleetId ''agent.trust_changed'' ''operator'' (Some operatorId) ''agent'' (Some agentId) None
           (JObj [(''operator_trusted'', JBool trusted)])
           (s\<lparr> agents := update_where (\<lambda>a. ag_id a = agentId \<and> ag_fleet_id a = fleetId)
                 (\<lambda>a. a\<lparr> ag_operator_trusted := trusted \<rparr>) (agents s) \<rparr>)))"

text \<open>The budget is undefined (\<^term>\<open>None\<close>), null or a number.\<close>

definition setPeerAutoreply ::
  "env \<Rightarrow> string \<Rightarrow> string \<Rightarrow> string \<Rightarrow> bool \<Rightarrow> int option option \<Rightarrow> store \<Rightarrow> (bool \<times> int option) option \<times> store" where
  "setPeerAutoreply E fleetId agentId operatorId autoreply budget s =
     (if \<not> select_exists (controlled_agent fleetId agentId) (agents s) then (None, s)
      else
        let p = (\<lambda>a. ag_id a = agentId \<and> ag_fleet_id a = fleetId);
            s1 = s\<lparr> agents := update_where p
                     (\<lambda>a. case budget of
                        Some b \<Rightarrow> a\<lparr> ag_peer_autoreply := autoreply, ag_peer_turn_budget := turnBudgetIn b \<rparr>
                      | None \<Rightarrow> a\<lparr> ag_peer_autoreply := autoreply \<rparr>) (agents s) \<rparr>
        in case select_one p (agents s1) of
          None \<Rightarrow> (None, s1)
        | Some row \<Rightarrow>
            (Some (ag_peer_autoreply row, turnBudgetOut (ag_peer_turn_budget row)),
             recordEvent E fleetId ''agent.peer_autoreply_changed'' ''operator'' (Some operatorId) ''agent'' (Some agentId) None
               (JObj [(''peer_autoreply'', JBool (ag_peer_autoreply row)),
                      (''peer_turn_budget'', case turnBudgetOut (ag_peer_turn_budget row) of None \<Rightarrow> JNull | Some n \<Rightarrow> JNum n)]) s1))"

section \<open>Automatic quarantine\<close>

text \<open>
  The fleet's own operator row for controls that nobody issued by hand.  The insert throws when another
  operator of the fleet has taken its email.
\<close>

definition system_operator_id :: "string \<Rightarrow> string" where
  "system_operator_id fleetId = ''opr_system_'' @ fleetId"

definition ensureSystemOperator :: "env \<Rightarrow> string \<Rightarrow> store \<Rightarrow> (string \<times> store) option" where
  "ensureSystemOperator E fleetId s =
     (if select_exists (\<lambda>r. op_id r = system_operator_id fleetId) (operators s) then Some (system_operator_id fleetId, s)
      else if select_exists (\<lambda>r. op_fleet_id r = fleetId \<and> op_email r = ''system@ekho.internal'') (operators s) then None
      else Some (system_operator_id fleetId,
             s\<lparr> operators := operators s @
                  [\<lparr> op_id = system_operator_id fleetId, op_fleet_id = fleetId, op_email = ''system@ekho.internal'',
                     op_password_hash = ''!system-no-login'', op_role = ''system'', op_created_at = now E,
                     op_display_name = None \<rparr>] \<rparr>))"

definition livenessWindowMs :: "config \<Rightarrow> int" where
  "livenessWindowMs C = heartbeatTimeoutSeconds C * heartbeatLivenessThreshold C * 1000"

text \<open>\<^verbatim>\<open>resumed_at\<close>: the newest resume of the agent that is still live or within the liveness window.\<close>

definition resumed_at :: "env \<Rightarrow> store \<Rightarrow> agent_row \<Rightarrow> int option" where
  "resumed_at E s a =
     (case select_all (\<lambda>c. ca_fleet_id c = ag_fleet_id a \<and> ca_target_kind c = ''agent'' \<and> ca_target_id c = ag_id a
             \<and> ca_action c = ''resume''
             \<and> (case ca_expires_at c of
                  None \<Rightarrow> True | Some t \<Rightarrow> t > now E \<or> ca_created_at c > now E - livenessWindowMs (cfg E)))
           (control_actions s) of
        [] \<Rightarrow> None
      | c # cs \<Rightarrow> Some (fold max (map ca_created_at cs) (ca_created_at c)))"

definition watched :: "agent_row \<Rightarrow> bool" where
  "watched a \<longleftrightarrow> ag_status a \<in> {''healthy'', ''degraded''} \<and> \<not> is_null (ag_last_seen_at a)"

definition missed_heartbeats :: "env \<Rightarrow> store \<Rightarrow> agent_row \<Rightarrow> int" where
  "missed_heartbeats E s a =
     (let lastSeen = max (the (ag_last_seen_at a)) (case resumed_at E s a of None \<Rightarrow> 0 | Some t \<Rightarrow> t)
      in (now E - lastSeen) div (heartbeatTimeoutSeconds (cfg E) * 1000))"

definition quarantine_control :: "env \<Rightarrow> string \<Rightarrow> string \<Rightarrow> string \<Rightarrow> json \<Rightarrow> store \<Rightarrow> store" where
  "quarantine_control E fleetId agentId operatorId payload s =
     s\<lparr> control_actions := control_actions s @
          [\<lparr> ca_id = mk_id E ''ctl'' (draws s), ca_fleet_id = fleetId, ca_target_kind = ''agent'', ca_target_id = agentId,
             ca_action = ''quarantine'', ca_payload = payload, ca_issued_by_operator_id = operatorId, ca_created_at = now E,
             ca_expires_at = None \<rparr>],
        draws := Suc (draws s) \<rparr>"

definition liveness_one :: "env \<Rightarrow> agent_row \<times> int \<Rightarrow> (nat \<times> store) option \<Rightarrow> (nat \<times> store) option" where
  "liveness_one E = (\<lambda>(a, missed) r.
     case r of None \<Rightarrow> None | Some (quarantined, s0) \<Rightarrow>
       let s = s0\<lparr> agents := update_where (\<lambda>b. ag_id b = ag_id a) (\<lambda>b. b\<lparr> ag_missed_heartbeats := missed \<rparr>) (agents s0) \<rparr> in
       if missed < heartbeatLivenessThreshold (cfg E) then Some (quarantined, s)
       else
         case ensureSystemOperator E (ag_fleet_id a) s of
           None \<Rightarrow> None
         | Some (systemOperatorId, s1) \<Rightarrow>
             let payload = JObj [(''reason'', JStr ''heartbeat_timeout''), (''missed_count'', JNum missed)] in
             Some (Suc quarantined,
               recordEvent E (ag_fleet_id a) ''agent.auto_quarantined'' ''system'' None ''agent'' (Some (ag_id a)) None payload
                 (quarantine_control E (ag_fleet_id a) (ag_id a) systemOperatorId payload
                   (s1\<lparr> agents := update_where (\<lambda>b. ag_id b = ag_id a)
                          (\<lambda>b. b\<lparr> ag_status := ''quarantined'', ag_auto_quarantined_at := Some (now E),
                                  ag_quarantine_reason := Some ''heartbeat_timeout'', ag_missed_heartbeats := missed \<rparr>)
                          (agents s1) \<rparr>))))"

text \<open>The rows and their resumes are read before the loop; a throw rolls the whole sweep back.\<close>

definition sweepHeartbeatLiveness :: "env \<Rightarrow> store \<Rightarrow> (nat \<times> store) option" where
  "sweepHeartbeatLiveness E s =
     fold (liveness_one E) (map (\<lambda>a. (a, missed_heartbeats E s a)) (select_all watched (agents s))) (Some (0, s))"

definition checkRateLimitQuarantine :: "env \<Rightarrow> string \<Rightarrow> string \<Rightarrow> store \<Rightarrow> store option" where
  "checkRateLimitQuarantine E agentId fleetId s =
     (let cutoff = now E - rateLimitViolationWindowSeconds (cfg E) * 1000;
          count = int (changes (\<lambda>v. rv_agent_id v = agentId \<and> rv_created_at v > cutoff) (rate_limit_violations s))
      in if count < rateLimitViolationThreshold (cfg E) then Some s
         else
           case ensureSystemOperator E fleetId s of
             None \<Rightarrow> None
           | Some (systemOperatorId, s1) \<Rightarrow>
               let payload = JObj [(''reason'', JStr ''rate_limit_abuse''), (''violation_count'', JNum count)] in
               Some (recordEvent E fleetId ''agent.auto_quarantined'' ''system'' None ''agent'' (Some agentId) None payload
                 (quarantine_control E fleetId agentId systemOperatorId payload
                   (s1\<lparr> agents := update_where (\<lambda>a. ag_id a = agentId \<and> ag_status a \<notin> {''quarantined'', ''paused''})
                          (\<lambda>a. a\<lparr> ag_status := ''quarantined'', ag_auto_quarantined_at := Some (now E),
                                  ag_quarantine_reason := Some ''rate_limit_abuse'' \<rparr>) (agents s1) \<rparr>))))"

section \<open>Holds\<close>

text \<open>What the gate and the sweeps read of an agent: its status and why it is quarantined.\<close>

definition hold_of :: "store \<Rightarrow> string \<Rightarrow> (string \<times> string option) option" where
  "hold_of s i = map_option (\<lambda>a. (ag_status a, ag_quarantine_reason a)) (select_one (\<lambda>a. ag_id a = i) (agents s))"

text \<open>A hold only an operator lifts: a pause, or a quarantine for anything but silence.\<close>

definition operator_hold :: "string \<times> string option \<Rightarrow> bool" where
  "operator_hold h \<longleftrightarrow> fst h = ''paused'' \<or> fst h = ''quarantined'' \<and> snd h \<noteq> Some ''heartbeat_timeout''"

lemma hold_of_same: "agents t = agents s \<Longrightarrow> hold_of t = hold_of s"
  by (simp add: hold_of_def fun_eq_iff)

lemma hold_of_update:
  assumes "\<And>a. ag_id (u a) = ag_id a"
  shows "hold_of (s\<lparr> agents := update_where p u rows \<rparr>) i =
     map_option (\<lambda>a. if p a then (ag_status (u a), ag_quarantine_reason (u a)) else (ag_status a, ag_quarantine_reason a))
       (select_one (\<lambda>a. ag_id a = i) rows)"
proof -
  have "select_one (\<lambda>a. ag_id a = i) (update_where p u rows) = map_option (\<lambda>a. if p a then u a else a) (select_one (\<lambda>a. ag_id a = i) rows)"
    by (rule select_one_update) (simp add: assms)
  then show ?thesis by (cases "select_one (\<lambda>a. ag_id a = i) rows") (simp_all add: hold_of_def)
qed

text \<open>An update of one agent under a condition on its hold acts on the hold.\<close>

lemma hold_of_set:
  assumes "\<And>a. p a \<longleftrightarrow> ag_id a = i \<and> P (ag_status a, ag_quarantine_reason a)" "\<And>a. ag_id (u a) = ag_id a"
    and "\<And>a. (ag_status (u a), ag_quarantine_reason (u a)) = g (ag_status a, ag_quarantine_reason a)"
    and "agents t = update_where p u (agents s)"
  shows "hold_of t j = map_option (\<lambda>h. if j = i \<and> P h then g h else h) (hold_of s j)"
proof -
  have t: "hold_of t j = hold_of (s\<lparr> agents := update_where p u (agents s) \<rparr>) j" using assms(4) by (simp add: hold_of_def)
  show ?thesis
  proof (cases "select_one (\<lambda>a. ag_id a = j) (agents s)")
    case None
    then show ?thesis unfolding t by (simp add: hold_of_update assms(2)) (simp add: hold_of_def)
  next
    case (Some a)
    then have "ag_id a = j" "hold_of s j = Some (ag_status a, ag_quarantine_reason a)"
      using select_one_Some [OF Some] by (simp_all add: hold_of_def)
    with Some show ?thesis unfolding t by (simp add: hold_of_update assms(1-3))
  qed
qed

lemma hold_of_row:
  assumes "distinct (map ag_id (agents s))" "a \<in> set (agents s)"
  shows "hold_of s (ag_id a) = Some (ag_status a, ag_quarantine_reason a)"
  using select_one_unique [OF assms] by (simp add: hold_of_def)

lemma ensureSystemOperator_agents: "ensureSystemOperator E f s = Some (o', t) \<Longrightarrow> agents t = agents s"
  by (auto simp: ensureSystemOperator_def split: if_splits)

lemma quarantine_control_agents [simp]: "agents (quarantine_control E f a o' p s) = agents s"
  by (simp add: quarantine_control_def)

lemma fold_liveness_None: "fold (liveness_one E) rs None = None"
  by (induction rs) (auto simp: liveness_one_def)

lemma liveness_one_hold:
  assumes "liveness_one E (a, m) (Some (n, s)) = Some (n', t)"
  shows "hold_of t i = (if i = ag_id a \<and> heartbeatLivenessThreshold (cfg E) \<le> m
           then map_option (\<lambda>_. (''quarantined'', Some ''heartbeat_timeout'')) (hold_of s i) else hold_of s i)"
    and "map ag_id (agents t) = map ag_id (agents s)"
proof -
  let ?s = "s\<lparr> agents := update_where (\<lambda>b. ag_id b = ag_id a) (\<lambda>b. b\<lparr> ag_missed_heartbeats := m \<rparr>) (agents s) \<rparr>"
  have s: "hold_of ?s j = hold_of s j" for j
    by (simp add: hold_of_update cong: if_cong) (simp add: hold_of_def)
  have "(hold_of t i = (if i = ag_id a \<and> heartbeatLivenessThreshold (cfg E) \<le> m
           then map_option (\<lambda>_. (''quarantined'', Some ''heartbeat_timeout'')) (hold_of s i) else hold_of s i))
     \<and> map ag_id (agents t) = map ag_id (agents s)"
  proof (cases "m < heartbeatLivenessThreshold (cfg E)")
    case True
    with assms have "t = ?s" by (simp add: liveness_one_def)
    with True s show ?thesis by simp
  next
    case False
    with assms obtain sid s1 where e: "ensureSystemOperator E (ag_fleet_id a) ?s = Some (sid, s1)"
      by (auto simp: liveness_one_def Let_def split: option.splits)
    let ?u = "\<lambda>b. b\<lparr> ag_status := ''quarantined'', ag_auto_quarantined_at := Some (now E),
                    ag_quarantine_reason := Some ''heartbeat_timeout'', ag_missed_heartbeats := m \<rparr>"
    have a: "agents s1 = agents ?s" by (rule ensureSystemOperator_agents [OF e])
    have t: "agents t = update_where (\<lambda>b. ag_id b = ag_id a) ?u (agents s1)"
      using assms False e by (auto simp: liveness_one_def Let_def)
    have "hold_of t i = map_option (\<lambda>h. if i = ag_id a \<and> True then (''quarantined'', Some ''heartbeat_timeout'') else h) (hold_of s1 i)"
      by (rule hold_of_set [OF _ _ _ t]) simp_all
    with False s [of i] show ?thesis by (cases "hold_of s i") (auto simp: hold_of_same [OF a] t a)
  qed
  then show "hold_of t i = (if i = ag_id a \<and> heartbeatLivenessThreshold (cfg E) \<le> m
           then map_option (\<lambda>_. (''quarantined'', Some ''heartbeat_timeout'')) (hold_of s i) else hold_of s i)"
    and "map ag_id (agents t) = map ag_id (agents s)" by blast+
qed

lemma fold_liveness_hold:
  assumes "fold (liveness_one E) rs (Some (n, s)) = Some (n', t)"
  shows "(hold_of t i = (if \<exists>(a, m)\<in>set rs. i = ag_id a \<and> heartbeatLivenessThreshold (cfg E) \<le> m
           then map_option (\<lambda>_. (''quarantined'', Some ''heartbeat_timeout'')) (hold_of s i) else hold_of s i))
     \<and> map ag_id (agents t) = map ag_id (agents s)"
  using assms
proof (induction rs arbitrary: n s)
  case Nil
  then show ?case by simp
next
  case (Cons r rs)
  obtain a m where r: "r = (a, m)" by (cases r)
  from Cons.prems obtain n1 s1 where 1: "liveness_one E (a, m) (Some (n, s)) = Some (n1, s1)"
    by (cases "liveness_one E (a, m) (Some (n, s))") (auto simp: fold_liveness_None r)
  with Cons.prems have 2: "fold (liveness_one E) rs (Some (n1, s1)) = Some (n', t)" by (simp add: r)
  have "map_option (\<lambda>_. q) (map_option (\<lambda>_. q) h) = map_option (\<lambda>_. q) h" for q :: "string \<times> string option" and h :: "(string \<times> string option) option"
    by (cases h) auto
  then show ?case
    using Cons.IH [OF 2] liveness_one_hold [OF 1] by (simp add: r)
qed

lemma fold_max_le: "fold max xs (x::int) \<le> b \<longleftrightarrow> x \<le> b \<and> (\<forall>y\<in>set xs. y \<le> b)"
  by (induction xs arbitrary: x) auto

definition resumes :: "agent_row \<Rightarrow> control_row \<Rightarrow> bool" where
  "resumes a c \<longleftrightarrow> ca_fleet_id c = ag_fleet_id a \<and> ca_target_kind c = ''agent'' \<and> ca_target_id c = ag_id a \<and> ca_action c = ''resume''"

text \<open>
  Silent for a whole liveness window: the last heartbeat and every resume lie a window back.  The sweep counts missed
  heartbeats from the newest resume that is still live or recent; the count reaches the threshold exactly then.
\<close>

definition silent :: "env \<Rightarrow> store \<Rightarrow> agent_row \<Rightarrow> bool" where
  "silent E s a \<longleftrightarrow> the (ag_last_seen_at a) \<le> now E - livenessWindowMs (cfg E)
     \<and> (\<forall>c\<in>set (control_actions s). resumes a c \<longrightarrow> ca_created_at c \<le> now E - livenessWindowMs (cfg E))"

lemma resumed_at_le:
  assumes "0 \<le> b" "b \<le> now E - livenessWindowMs (cfg E)" "now E - livenessWindowMs (cfg E) \<le> b"
  shows "(case resumed_at E s a of None \<Rightarrow> 0 | Some t \<Rightarrow> t) \<le> b \<longleftrightarrow> (\<forall>c\<in>set (control_actions s). resumes a c \<longrightarrow> ca_created_at c \<le> b)"
proof -
  let ?p = "\<lambda>c. ca_fleet_id c = ag_fleet_id a \<and> ca_target_kind c = ''agent'' \<and> ca_target_id c = ag_id a \<and> ca_action c = ''resume''
     \<and> (case ca_expires_at c of None \<Rightarrow> True | Some t \<Rightarrow> t > now E \<or> ca_created_at c > now E - livenessWindowMs (cfg E))"
  have "(case resumed_at E s a of None \<Rightarrow> 0 | Some t \<Rightarrow> t) \<le> b \<longleftrightarrow> (\<forall>c\<in>set (select_all ?p (control_actions s)). ca_created_at c \<le> b)"
    unfolding resumed_at_def using assms(1)
    by (cases "select_all ?p (control_actions s)") (auto simp: fold_max_le)
  also have "\<dots> \<longleftrightarrow> (\<forall>c\<in>set (control_actions s). resumes a c \<longrightarrow> ca_created_at c \<le> b)"
    using assms(2,3) by (fastforce simp: sql resumes_def split: option.splits)
  finally show ?thesis .
qed

lemma missed_heartbeats_silent:
  assumes "0 < heartbeatTimeoutSeconds (cfg E)" "livenessWindowMs (cfg E) \<le> now E"
  shows "heartbeatLivenessThreshold (cfg E) \<le> missed_heartbeats E s a \<longleftrightarrow> silent E s a"
proof -
  let ?b = "now E - livenessWindowMs (cfg E)" and ?d = "heartbeatTimeoutSeconds (cfg E) * 1000"
    and ?x = "max (the (ag_last_seen_at a)) (case resumed_at E s a of None \<Rightarrow> 0 | Some t \<Rightarrow> t)"
  have div: "k \<le> x div ?d \<longleftrightarrow> k * ?d \<le> x" for k x :: int
    using assms(1) pos_imp_zdiv_nonneg_iff [of ?d "x - k * ?d"] div_mult_self1 [of ?d x "- k"] by simp
  have "heartbeatLivenessThreshold (cfg E) \<le> missed_heartbeats E s a \<longleftrightarrow> ?x \<le> ?b"
    by (simp add: missed_heartbeats_def Let_def div livenessWindowMs_def algebra_simps)
  then show ?thesis using assms(2) by (simp add: resumed_at_le silent_def)
qed

lemma liveness_hold:
  assumes "0 < heartbeatTimeoutSeconds (cfg E)" "livenessWindowMs (cfg E) \<le> now E" "distinct (map ag_id (agents s))"
    and "sweepHeartbeatLiveness E s = Some (n, t)" "a \<in> set (agents s)"
  shows "hold_of t (ag_id a) =
    Some (if watched a \<and> silent E s a then (''quarantined'', Some ''heartbeat_timeout'') else (ag_status a, ag_quarantine_reason a))"
proof -
  let ?rs = "map (\<lambda>a. (a, missed_heartbeats E s a)) (select_all watched (agents s))"
  have "b = a" if "b \<in> set (agents s)" "ag_id a = ag_id b" for b
    using assms(3,5) that by (metis distinct_map inj_onD)
  then have "(\<exists>(b, m)\<in>set ?rs. ag_id a = ag_id b \<and> heartbeatLivenessThreshold (cfg E) \<le> m) \<longleftrightarrow> watched a \<and> silent E s a"
    using missed_heartbeats_silent [OF assms(1,2), of s] assms(5) by (force simp: sql)
  then show ?thesis
    using fold_liveness_hold [OF assms(4) [unfolded sweepHeartbeatLiveness_def], of "ag_id a"] hold_of_row [OF assms(3,5)] by simp
qed

text \<open>How a heartbeat changes a hold: silence is over, an operator's hold and an abuse quarantine stay.\<close>

definition beat :: "string \<Rightarrow> string \<times> string option \<Rightarrow> string \<times> string option" where
  "beat st h = (let v = (if st = ''healthy'' then ''healthy'' else ''degraded'') in
     if h = (''quarantined'', Some ''heartbeat_timeout'') then (v, None)
     else if fst h \<in> {''quarantined'', ''paused''} then h else (v, snd h))"

lemma insertHeartbeat_hold:
  "hold_of (insertHeartbeat E i st ms s) j = (if j = i then map_option (beat st) (hold_of s j) else hold_of s j)"
proof (cases "select_one (\<lambda>a. ag_id a = i) (agents s)")
  case None
  then show ?thesis by (simp add: insertHeartbeat_def hold_of_def)
next
  case (Some a)
  then have h: "hold_of s i = Some (ag_status a, ag_quarantine_reason a)" by (simp add: hold_of_def)
  let ?v = "if st = ''healthy'' then ''healthy'' else ''degraded''" and ?t = "insertHeartbeat E i st ms s"
  show ?thesis
  proof (cases "heartbeat_restores a")
    case True
    have t: "agents ?t = update_where (\<lambda>a. ag_id a = i) (\<lambda>a. a\<lparr> ag_status := ?v, ag_last_seen_at := Some (now E),
        ag_missed_heartbeats := 0, ag_auto_quarantined_at := None, ag_quarantine_reason := None \<rparr>) (agents s)"
      using Some True by (simp add: insertHeartbeat_def Let_def)
    have "hold_of ?t j = map_option (\<lambda>h. if j = i \<and> True then (?v, None) else h) (hold_of s j)"
      by (rule hold_of_set [OF _ _ _ t]) simp_all
    with True h show ?thesis by (cases "hold_of s j") (auto simp: beat_def heartbeat_restores_def)
  next
    case False
    have t: "agents ?t = update_where (\<lambda>a. ag_id a = i \<and> ag_status a \<notin> {''quarantined'', ''paused''})
        (\<lambda>a. a\<lparr> ag_status := ?v, ag_last_seen_at := Some (now E), ag_missed_heartbeats := 0 \<rparr>) (agents s)"
      using Some False by (simp add: insertHeartbeat_def Let_def)
    have "hold_of ?t j = map_option (\<lambda>h. if j = i \<and> fst h \<notin> {''quarantined'', ''paused''} then (?v, snd h) else h) (hold_of s j)"
      by (rule hold_of_set [OF _ _ _ t]) simp_all
    with False h show ?thesis by (cases "hold_of s j") (auto simp: beat_def heartbeat_restores_def Let_def)
  qed
qed

lemma beat_operator_hold: "operator_hold h \<Longrightarrow> beat st h = h"
  by (cases h) (auto simp: beat_def operator_hold_def)

lemma insertHeartbeat_ids [simp]: "map ag_id (agents (insertHeartbeat E i st ms s)) = map ag_id (agents s)"
  by (simp add: insertHeartbeat_def Let_def split: option.split)

lemma checkRateLimitQuarantine_agents:
  assumes "checkRateLimitQuarantine E i f s = Some t"
  shows "agents t = agents s \<or> agents t = update_where (\<lambda>a. ag_id a = i \<and> ag_status a \<notin> {''quarantined'', ''paused''})
     (\<lambda>a. a\<lparr> ag_status := ''quarantined'', ag_auto_quarantined_at := Some (now E), ag_quarantine_reason := Some ''rate_limit_abuse'' \<rparr>) (agents s)"
proof (cases "int (changes (\<lambda>v. rv_agent_id v = i \<and> rv_created_at v > now E - rateLimitViolationWindowSeconds (cfg E) * 1000)
    (rate_limit_violations s)) < rateLimitViolationThreshold (cfg E)")
  case True
  with assms show ?thesis by (simp add: checkRateLimitQuarantine_def)
next
  case False
  with assms obtain sid s1 where e: "ensureSystemOperator E f s = Some (sid, s1)"
    by (auto simp: checkRateLimitQuarantine_def Let_def split: option.splits)
  have "agents t = update_where (\<lambda>a. ag_id a = i \<and> ag_status a \<notin> {''quarantined'', ''paused''})
     (\<lambda>a. a\<lparr> ag_status := ''quarantined'', ag_auto_quarantined_at := Some (now E), ag_quarantine_reason := Some ''rate_limit_abuse'' \<rparr>) (agents s1)"
    using assms False e by (auto simp: checkRateLimitQuarantine_def Let_def)
  then show ?thesis using ensureSystemOperator_agents [OF e] by simp
qed

lemma checkRateLimitQuarantine_hold:
  assumes "checkRateLimitQuarantine E i f s = Some t"
  shows "map ag_id (agents t) = map ag_id (agents s)"
    and "hold_of t j = hold_of s j
      \<or> hold_of t j = map_option (\<lambda>h. if j = i \<and> fst h \<notin> {''quarantined'', ''paused''} then (''quarantined'', Some ''rate_limit_abuse'') else h) (hold_of s j)"
proof -
  note t = checkRateLimitQuarantine_agents [OF assms]
  then show "map ag_id (agents t) = map ag_id (agents s)" by auto
  from t show "hold_of t j = hold_of s j
      \<or> hold_of t j = map_option (\<lambda>h. if j = i \<and> fst h \<notin> {''quarantined'', ''paused''} then (''quarantined'', Some ''rate_limit_abuse'') else h) (hold_of s j)"
  proof
    assume "agents t = agents s"
    from hold_of_same [OF this] show ?thesis by simp
  next
    assume t: "agents t = update_where (\<lambda>a. ag_id a = i \<and> ag_status a \<notin> {''quarantined'', ''paused''})
     (\<lambda>a. a\<lparr> ag_status := ''quarantined'', ag_auto_quarantined_at := Some (now E), ag_quarantine_reason := Some ''rate_limit_abuse'' \<rparr>) (agents s)"
    show ?thesis by (rule disjI2, rule hold_of_set [OF _ _ _ t]) simp_all
  qed
qed

lemma agents_flags_hold:
  assumes "agents t = update_where (\<lambda>a. ag_id a = i \<and> ag_fleet_id a = f) u (agents s)" "\<And>a. ag_id (u a) = ag_id a"
    and "\<And>a. ag_status (u a) = ag_status a" "\<And>a. ag_quarantine_reason (u a) = ag_quarantine_reason a"
  shows "map ag_id (agents t) = map ag_id (agents s) \<and> hold_of t j = hold_of s j"
proof -
  let ?p = "\<lambda>a. ag_id a = i \<and> ag_fleet_id a = f"
  have "hold_of t j = hold_of (s\<lparr> agents := update_where ?p u (agents s) \<rparr>) j" using assms(1) by (simp add: hold_of_def)
  then have "hold_of t j = hold_of s j" unfolding hold_of_update [OF assms(2)] by (simp add: assms(3,4) hold_of_def cong: if_cong)
  then show ?thesis by (simp add: assms(1,2))
qed

section \<open>What happens without an operator's control\<close>

text \<open>
  The steps of the relay that touch agents other than an operator's control, and any step that leaves the holds of
  the known agents alone.
\<close>

inductive auto_step :: "store \<Rightarrow> store \<Rightarrow> bool" where
  Heartbeat: "auto_step s (insertHeartbeat E i st ms s)"
| Liveness: "sweepHeartbeatLiveness E s = Some (n, t) \<Longrightarrow> auto_step s t"
| Rate_quarantine: "checkRateLimitQuarantine E i f s = Some t \<Longrightarrow> auto_step s t"
| Trust: "auto_step s (snd (setAgentTrust E f i op b s))"
| Peer: "auto_step s (snd (setPeerAutoreply E f i op b budget s))"
| Other: "distinct (map ag_id (agents t)) \<Longrightarrow> \<forall>i. hold_of s i \<noteq> None \<longrightarrow> hold_of t i = hold_of s i \<Longrightarrow> auto_step s t"

lemma watched_no_operator_hold: "watched a \<Longrightarrow> \<not> operator_hold (ag_status a, ag_quarantine_reason a)"
  by (auto simp: watched_def operator_hold_def)

lemma auto_step_hold:
  assumes "auto_step s t" "distinct (map ag_id (agents s))" "hold_of s i = Some h" "operator_hold h"
  shows "distinct (map ag_id (agents t)) \<and> hold_of t i = Some h"
  using assms
proof cases
  case (Heartbeat E j st ms)
  have "hold_of t i = hold_of s i" using assms(3,4) by (cases "i = j") (simp_all add: Heartbeat insertHeartbeat_hold beat_operator_hold)
  with assms(2,3) show ?thesis by (simp add: Heartbeat)
next
  case (Liveness E n)
  let ?rs = "map (\<lambda>a. (a, missed_heartbeats E s a)) (select_all watched (agents s))"
  note f = fold_liveness_hold [OF Liveness(1) [unfolded sweepHeartbeatLiveness_def], of i]
  have "ag_id a \<noteq> i" if "a \<in> set (agents s)" "watched a" for a
    using hold_of_row [OF assms(2) that(1)] watched_no_operator_hold [OF that(2)] assms(3,4) by auto
  then have no: "\<not> (\<exists>(a, m)\<in>set ?rs. i = ag_id a \<and> heartbeatLivenessThreshold (cfg E) \<le> m)" by (auto simp: sql)
  have "hold_of t i = hold_of s i" using f unfolding if_not_P [OF no] by blast
  with f assms(2,3) show ?thesis by simp
next
  case (Rate_quarantine E j f)
  with assms(2-4) show ?thesis
    using checkRateLimitQuarantine_hold(1) [OF Rate_quarantine] checkRateLimitQuarantine_hold(2) [OF Rate_quarantine, of i] by (cases h) (auto simp: operator_hold_def)
next
  case (Trust E f j op b)
  show ?thesis
  proof (cases "agents t = agents s")
    case True
    with assms(2,3) hold_of_same [OF True] show ?thesis by simp
  next
    case False
    with Trust have "agents t = update_where (\<lambda>a. ag_id a = j \<and> ag_fleet_id a = f) (\<lambda>a. a\<lparr> ag_operator_trusted := b \<rparr>) (agents s)"
      by (auto simp: setAgentTrust_def split: if_splits)
    from agents_flags_hold [OF this, of i] assms(2,3) show ?thesis by simp
  qed
next
  case (Peer E f j op b budget)
  show ?thesis
  proof (cases "agents t = agents s")
    case True
    with assms(2,3) hold_of_same [OF True] show ?thesis by simp
  next
    case False
    with Peer have "agents t = update_where (\<lambda>a. ag_id a = j \<and> ag_fleet_id a = f)
        (\<lambda>a. case budget of Some b' \<Rightarrow> a\<lparr> ag_peer_autoreply := b, ag_peer_turn_budget := turnBudgetIn b' \<rparr> | None \<Rightarrow> a\<lparr> ag_peer_autoreply := b \<rparr>) (agents s)"
      by (auto simp: setPeerAutoreply_def Let_def split: if_splits option.splits)
    from agents_flags_hold [OF this, of i] assms(2,3) show ?thesis by (simp split: option.split)
  qed
next
  case Other
  with assms(2,3) show ?thesis by simp
qed

lemma retire_controls_dead:
  assumes "c \<in> set (retire_controls E i acts cs)" "ca_target_kind c = ''agent''" "ca_target_id c = i" "ca_action c \<in> set acts"
  shows "\<exists>x. ca_expires_at c = Some x \<and> x \<le> now E"
proof -
  let ?p = "\<lambda>c. ca_target_kind c = ''agent'' \<and> ca_target_id c = i \<and> ca_action c \<in> set acts
     \<and> (case ca_expires_at c of None \<Rightarrow> True | Some t \<Rightarrow> t > now E)"
  from assms(1) [unfolded retire_controls_def] obtain q where q: "c = (if ?p q then q\<lparr> ca_expires_at := Some (now E) \<rparr> else q)"
    by (rule update_where_cases)
  show ?thesis
  proof (cases "?p q")
    case True
    then show ?thesis unfolding q by simp
  next
    case False
    with q assms(2-4) show ?thesis by (cases "ca_expires_at c") auto
  qed
qed

lemma live_controls_not_retired:
  assumes "c \<in> set (live_controls E' i t)" "c \<in> set (retire_controls E i acts cs)" "now E \<le> now E'"
  shows "ca_action c \<notin> set acts"
  using retire_controls_dead [OF assms(2)] assms(1,3) by (auto simp: live_controls_def sql)

lemma insertHeartbeat_restored:
  assumes "distinct (map ag_id (agents s))" "hold_of s i = Some (''quarantined'', Some ''heartbeat_timeout'')"
  shows "control_actions (insertHeartbeat E i st ms s) = retire_controls E i [''quarantine''] (control_actions s)"
    and "\<exists>a\<in>set (agents (insertHeartbeat E i st ms s)). ag_id a = i \<and> ag_last_seen_at a = Some (now E)"
proof -
  from assms(2) obtain a where a: "select_one (\<lambda>a. ag_id a = i) (agents s) = Some a" "heartbeat_restores a"
    by (auto simp: hold_of_def heartbeat_restores_def)
  show "control_actions (insertHeartbeat E i st ms s) = retire_controls E i [''quarantine''] (control_actions s)"
    using a by (simp add: insertHeartbeat_def Let_def)
  have "a \<in> set (agents s)" "ag_id a = i" using select_one_Some [OF a(1)] by simp_all
  then show "\<exists>a\<in>set (agents (insertHeartbeat E i st ms s)). ag_id a = i \<and> ag_last_seen_at a = Some (now E)"
    unfolding select_exists_iff [symmetric] using a by (simp add: insertHeartbeat_def Let_def select_exists_hit [of a])
qed

text \<open>
  Nothing but an operator's control lifts a pause or a quarantine that is not for silence.  Whatever
  heartbeats, liveness sweeps, rate-limit quarantines, changes of trust and other steps follow, an agent
  that is paused, or quarantined by an operator or for abuse, stays exactly so.
\<close>

theorem operator_hold_sticks:
  assumes "reach s auto_step t" "distinct (map ag_id (agents s))" "hold_of s i = Some h" "operator_hold h"
  shows "hold_of t i = Some h"
proof -
  have "distinct (map ag_id (agents t)) \<and> hold_of t i = Some h"
    using assms(1) by induction (use assms auto_step_hold in blast)+
  then show ?thesis ..
qed

text \<open>
  The liveness sweep quarantines exactly the silent agents.  After a sweep an agent is quarantined for
  silence if it was healthy or degraded, had been seen, and its last heartbeat and every resume an operator
  issued for it lie at least the threshold times the timeout back; any other agent keeps its status and reason.
\<close>

theorem liveness_sweep_exact:
  assumes "0 < heartbeatTimeoutSeconds (cfg E)" "livenessWindowMs (cfg E) \<le> now E" "distinct (map ag_id (agents s))"
    and "sweepHeartbeatLiveness E s = Some (n, t)" "a \<in> set (agents s)"
  shows "hold_of t (ag_id a) =
    (if ag_status a \<in> {''healthy'', ''degraded''} \<and> ag_last_seen_at a \<noteq> None
        \<and> the (ag_last_seen_at a) + livenessWindowMs (cfg E) \<le> now E
        \<and> (\<forall>c\<in>set (control_actions s). ca_fleet_id c = ag_fleet_id a \<and> ca_target_kind c = ''agent'' \<and> ca_target_id c = ag_id a
             \<and> ca_action c = ''resume'' \<longrightarrow> ca_created_at c + livenessWindowMs (cfg E) \<le> now E)
     then Some (''quarantined'', Some ''heartbeat_timeout'') else Some (ag_status a, ag_quarantine_reason a))"
proof -
  have "watched a \<and> silent E s a \<longleftrightarrow> ag_status a \<in> {''healthy'', ''degraded''} \<and> ag_last_seen_at a \<noteq> None
        \<and> the (ag_last_seen_at a) + livenessWindowMs (cfg E) \<le> now E
        \<and> (\<forall>c\<in>set (control_actions s). ca_fleet_id c = ag_fleet_id a \<and> ca_target_kind c = ''agent'' \<and> ca_target_id c = ag_id a
             \<and> ca_action c = ''resume'' \<longrightarrow> ca_created_at c + livenessWindowMs (cfg E) \<le> now E)"
    unfolding watched_def silent_def resumes_def is_null_iff le_diff_eq by blast
  then show ?thesis unfolding liveness_hold [OF assms] if_distrib [of Some] by (simp only:)
qed

text \<open>
  An agent quarantined for silence comes back with its next heartbeat.  The heartbeat makes it healthy
  or degraded, no quarantine control is served to it any more, and no liveness sweep within the next window
  takes it out again.
\<close>

theorem heartbeat_recovers:
  assumes "distinct (map ag_id (agents s))" "hold_of s i = Some (''quarantined'', Some ''heartbeat_timeout'')"
    and "t = insertHeartbeat E i st ms s" "now E \<le> now E'" "now E' < now E + livenessWindowMs (cfg E')"
    and "0 < heartbeatTimeoutSeconds (cfg E')" "livenessWindowMs (cfg E') \<le> now E'" "sweepHeartbeatLiveness E' t = Some (n, u)"
  shows "hold_of t i = Some (if st = ''healthy'' then ''healthy'' else ''degraded'', None)
    \<and> (\<forall>c\<in>set (live_controls E' i t). ca_action c \<noteq> ''quarantine'') \<and> hold_of u i = hold_of t i"
proof (intro conjI ballI)
  show h: "hold_of t i = Some (if st = ''healthy'' then ''healthy'' else ''degraded'', None)"
    using assms(2) by (simp add: assms(3) insertHeartbeat_hold beat_def)
  fix c assume c: "c \<in> set (live_controls E' i t)"
  then have "c \<in> set (control_actions t)" by (auto simp: live_controls_def sql)
  then show "ca_action c \<noteq> ''quarantine''"
    using live_controls_not_retired [OF c] insertHeartbeat_restored(1) [OF assms(1,2)] assms(3,4) by fastforce
next
  have d: "distinct (map ag_id (agents t))" using assms(1) by (simp add: assms(3))
  from insertHeartbeat_restored(2) [OF assms(1,2)] obtain a where a: "a \<in> set (agents t)" "ag_id a = i" "ag_last_seen_at a = Some (now E)"
    unfolding assms(3) by blast
  have "\<not> silent E' t a" using assms(5) a(3) by (simp add: silent_def)
  then show "hold_of u i = hold_of t i"
    using liveness_hold [OF assms(6,7) d assms(8) a(1)] hold_of_row [OF d a(1)] a(2) by simp
qed

text \<open>An operator's resume retires the standing pause and quarantine controls and lifts every hold.\<close>

lemma resume_lifts:
  assumes "controlAgent E f i op Resume p s = (True, t)" "now E \<le> now E'"
  shows "\<forall>c\<in>set (live_controls E' i t). ca_action c \<notin> {''pause'', ''quarantine''}"
    and "a \<in> set (agents t) \<Longrightarrow> ag_id a = i \<Longrightarrow> ag_fleet_id a = f \<Longrightarrow> ag_status a = ''healthy''"
proof -
  show "\<forall>c\<in>set (live_controls E' i t). ca_action c \<notin> {''pause'', ''quarantine''}"
  proof
    fix c assume c: "c \<in> set (live_controls E' i t)"
    have "\<exists>r. control_actions t = retire_controls E i [''pause'', ''quarantine''] (control_actions s) @ [r] \<and> ca_action r = ''resume''"
      using assms(1) by (auto simp: controlAgent_def Let_def split: if_splits)
    moreover have "c \<in> set (control_actions t)" using c by (auto simp: live_controls_def sql)
    ultimately have "ca_action c = ''resume'' \<or> c \<in> set (retire_controls E i [''pause'', ''quarantine''] (control_actions s))" by auto
    with live_controls_not_retired [OF c _ assms(2)] show "ca_action c \<notin> {''pause'', ''quarantine''}" by fastforce
  qed
  show "a \<in> set (agents t) \<Longrightarrow> ag_id a = i \<Longrightarrow> ag_fleet_id a = f \<Longrightarrow> ag_status a = ''healthy''"
  proof -
    assume a: "a \<in> set (agents t)" "ag_id a = i" "ag_fleet_id a = f"
    have "agents t = update_where (\<lambda>a. ag_id a = i \<and> ag_fleet_id a = f)
        (\<lambda>a. a\<lparr> ag_status := ''healthy'', ag_quarantine_reason := None, ag_auto_quarantined_at := None \<rparr>) (agents s)"
      using assms(1) by (auto simp: controlAgent_def Let_def split: if_splits)
    from a(1) [unfolded this] obtain b where b: "a = (if ag_id b = i \<and> ag_fleet_id b = f
        then b\<lparr> ag_status := ''healthy'', ag_quarantine_reason := None, ag_auto_quarantined_at := None \<rparr> else b)"
      by (rule update_where_cases)
    show ?thesis
    proof (cases "ag_id b = i \<and> ag_fleet_id b = f")
      case True
      then show ?thesis unfolding b by simp
    next
      case False
      with a(2,3) b show ?thesis unfolding if_not_P [OF False] by simp
    qed
  qed
qed

section \<open>Witnesses\<close>

definition sample_paused :: store where
  "sample_paused = snd (controlAgent (sample_env 5) ''flt'' sample_agent ''opr'' Pause (JObj []) sample_enrolled)"

lemma operator_hold_sticks_witness:
  "hold_of (insertHeartbeat (sample_env 9) sample_agent ''healthy'' (JObj []) sample_paused) sample_agent = Some (''paused'', None)"
proof (rule operator_hold_sticks)
  show "reach sample_paused auto_step (insertHeartbeat (sample_env 9) sample_agent ''healthy'' (JObj []) sample_paused)"
    by (rule reach_step [OF reach_start]) (rule Heartbeat)
  show "distinct (map ag_id (agents sample_paused))" by code_simp
  show "hold_of sample_paused sample_agent = Some (''paused'', None)" by code_simp
qed (simp add: operator_hold_def)

definition sample_beaten :: store where
  "sample_beaten = insertHeartbeat (sample_env 1000) sample_agent ''healthy'' (JObj []) sample_enrolled"

definition sample_swept :: "nat \<times> store" where
  "sample_swept = the (sweepHeartbeatLiveness (sample_env 300000) sample_beaten)"

lemma sample_swept_eq: "sweepHeartbeatLiveness (sample_env 300000) sample_beaten = Some (fst sample_swept, snd sample_swept)"
proof -
  have "sweepHeartbeatLiveness (sample_env 300000) sample_beaten \<noteq> None" by code_simp
  then show ?thesis by (auto simp: sample_swept_def)
qed

lemma sample_window [simp]: "livenessWindowMs default_config = 270000"
  by (simp add: livenessWindowMs_def default_config_def)

lemma sample_timeout [simp]: "heartbeatTimeoutSeconds default_config = 90"
  by (simp add: default_config_def)

lemma liveness_sweep_exact_witness:
  "hold_of (snd sample_swept) (ag_id (hd (agents sample_beaten))) = Some (''quarantined'', Some ''heartbeat_timeout'')"
proof -
  have d: "distinct (map ag_id (agents sample_beaten))" by code_simp
  have a: "hd (agents sample_beaten) \<in> set (agents sample_beaten)" by code_simp
  have "ag_status (hd (agents sample_beaten)) = ''healthy''" "ag_last_seen_at (hd (agents sample_beaten)) = Some 1000" by code_simp+
  moreover have "control_actions sample_beaten = []" by code_simp
  ultimately show ?thesis using liveness_sweep_exact [OF _ _ d sample_swept_eq a] by simp
qed

definition sample_recovered :: store where
  "sample_recovered = insertHeartbeat (sample_env 300001) sample_agent ''busy'' (JObj []) (snd sample_swept)"

lemma heartbeat_recovers_witness:
  "hold_of sample_recovered sample_agent = Some (''degraded'', None)"
proof -
  have d: "distinct (map ag_id (agents (snd sample_swept)))" by code_simp
  have h: "hold_of (snd sample_swept) sample_agent = Some (''quarantined'', Some ''heartbeat_timeout'')" by code_simp
  obtain n u where u: "sweepHeartbeatLiveness (sample_env 400000) sample_recovered = Some (n, u)"
  proof -
    have "sweepHeartbeatLiveness (sample_env 400000) sample_recovered \<noteq> None" by code_simp
    then show ?thesis using that by auto
  qed
  show ?thesis using heartbeat_recovers [OF d h sample_recovered_def _ _ _ _ u] by simp
qed

end
