(* ===== verification/Limits.thy ===== *)
theory Limits
  imports Governance
begin

text \<open>
  The two windowed limits on the table \<^verbatim>\<open>rate_limit_counters\<close>, for messages (\<^verbatim>\<open>checkAndIncrementRateLimit\<close>) and for
  uploads (\<^verbatim>\<open>checkAndIncrementUploadLimit\<close>), and the sweep of old counters.  A fixed-window limiter is an interface
  of its own: its laws bound what any run admits, once, for both limits.
\<close>

section \<open>Operations\<close>

definition windowStart :: "env \<Rightarrow> int" where
  "windowStart E = (now E div 1000) div rateLimitWindowSeconds (cfg E) * rateLimitWindowSeconds (cfg E) * 1000"

definition counter_at :: "string \<Rightarrow> int \<Rightarrow> counter_row \<Rightarrow> bool" where
  "counter_at key w r \<longleftrightarrow> rc_agent_id r = key \<and> rc_window_start r = w"

text \<open>\<^verbatim>\<open>INSERT OR IGNORE\<close> of a counter at zero, and \<^verbatim>\<open>UPDATE ... SET message_count = message_count + 1\<close>.\<close>

definition open_counter :: "string \<Rightarrow> int \<Rightarrow> counter_row list \<Rightarrow> counter_row list" where
  "open_counter key w cs =
     (if select_exists (counter_at key w) cs then cs
      else cs @ [\<lparr> rc_agent_id = key, rc_window_start = w, rc_message_count = 0 \<rparr>])"

definition bump_counter :: "string \<Rightarrow> int \<Rightarrow> counter_row list \<Rightarrow> counter_row list" where
  "bump_counter key w cs = update_where (counter_at key w) (\<lambda>r. r\<lparr> rc_message_count := rc_message_count r + 1 \<rparr>) cs"

definition count_at :: "counter_row list \<Rightarrow> string \<Rightarrow> int \<Rightarrow> int" where
  "count_at cs key w = (case select_one (counter_at key w) cs of None \<Rightarrow> 0 | Some r \<Rightarrow> rc_message_count r)"

text \<open>
  The result is \<^term>\<open>None\<close> when the quarantine that follows a violation throws; the counters and the violation are
  committed by then.
\<close>

definition checkAndIncrementRateLimit :: "env \<Rightarrow> string \<Rightarrow> string \<Rightarrow> store \<Rightarrow> (bool \<times> int \<times> int) option \<times> store" where
  "checkAndIncrementRateLimit E agentId fleetId s =
     (let w = windowStart E; limit = rateLimitMaxMessages (cfg E);
          cs = open_counter agentId w (rate_limit_counters s); n = count_at cs agentId w
      in if n \<ge> limit then
           let s1 = recordEvent E fleetId ''agent.rate_limit_exceeded'' ''agent'' (Some agentId) ''agent'' (Some agentId) None
                      (JObj [(''window_start'', JStr (to_iso w)), (''message_count'', JNum n), (''limit'', JNum limit)])
                      (s\<lparr> rate_limit_counters := cs,
                          rate_limit_violations := rate_limit_violations s @
                            [\<lparr> rv_id = mk_id E ''rlv'' (draws s), rv_fleet_id = fleetId, rv_agent_id = agentId,
                               rv_window_start = w, rv_message_count = n, rv_limit_value = limit, rv_created_at = now E \<rparr>],
                          draws := Suc (draws s) \<rparr>)
           in (case checkRateLimitQuarantine E agentId fleetId s1 of
                 None \<Rightarrow> (None, s1)
               | Some s2 \<Rightarrow> (Some (False, n, limit), s2))
         else (Some (True, n + 1, limit), s\<lparr> rate_limit_counters := bump_counter agentId w cs \<rparr>))"

definition checkAndIncrementUploadLimit :: "env \<Rightarrow> string \<Rightarrow> string \<Rightarrow> store \<Rightarrow> (bool \<times> int \<times> int) \<times> store" where
  "checkAndIncrementUploadLimit E uploaderId fleetId s =
     (let w = windowStart E; limit = attachmentUploadMaxPerWindow (cfg E); key = ''upload:'' @ uploaderId;
          cs = open_counter key w (rate_limit_counters s); n = count_at cs key w
      in if n \<ge> limit then
           ((False, n, limit),
            recordEvent E fleetId ''attachment.rate_limit_exceeded'' ''agent'' (Some uploaderId) ''agent'' (Some uploaderId) None
              (JObj [(''window_start'', JStr (to_iso w)), (''upload_count'', JNum n), (''limit'', JNum limit)])
              (s\<lparr> rate_limit_counters := cs \<rparr>))
         else ((True, n + 1, limit), s\<lparr> rate_limit_counters := bump_counter key w cs \<rparr>))"

definition sweepStaleRateLimitCounters :: "env \<Rightarrow> store \<Rightarrow> store" where
  "sweepStaleRateLimitCounters E s =
     s\<lparr> rate_limit_counters :=
          delete_where (\<lambda>r. rc_window_start r < now E - rateLimitWindowSeconds (cfg E) * 2 * 1000) (rate_limit_counters s) \<rparr>"

section \<open>Fixed-window limiters\<close>

text \<open>
  A run of a limiter: checks under a clock that does not go back, and other steps in between.  The log has one entry, key
  and window, for every check that was granted.
\<close>

inductive limiter_run ::
  "('e \<Rightarrow> bool) \<Rightarrow> ('e \<Rightarrow> int) \<Rightarrow> ('e \<Rightarrow> int) \<Rightarrow> ('e \<Rightarrow> 'k \<Rightarrow> 's \<Rightarrow> bool \<times> 's) \<Rightarrow> ('e \<Rightarrow> 's \<Rightarrow> 's \<Rightarrow> bool) \<Rightarrow> 's
   \<Rightarrow> 'e \<Rightarrow> 's \<Rightarrow> ('k \<times> int) list \<Rightarrow> bool"
  for adm clock window check other s0 where
  Run_start: "adm e \<Longrightarrow> limiter_run adm clock window check other s0 e s0 []"
| Run_check: "limiter_run adm clock window check other s0 e s log \<Longrightarrow> adm e' \<Longrightarrow> clock e \<le> clock e'
    \<Longrightarrow> limiter_run adm clock window check other s0 e' (snd (check e' k s))
          (if fst (check e' k s) then (k, window e') # log else log)"
| Run_other: "limiter_run adm clock window check other s0 e s log \<Longrightarrow> adm e' \<Longrightarrow> clock e \<le> clock e' \<Longrightarrow> other e' s t
    \<Longrightarrow> limiter_run adm clock window check other s0 e' t log"

locale window_limiter =
  fixes adm :: "'e \<Rightarrow> bool" and clock :: "'e \<Rightarrow> int" and window :: "'e \<Rightarrow> int"
    and check :: "'e \<Rightarrow> 'k \<Rightarrow> 's \<Rightarrow> bool \<times> 's" and other :: "'e \<Rightarrow> 's \<Rightarrow> 's \<Rightarrow> bool"
    and tally :: "'s \<Rightarrow> 'k \<Rightarrow> int \<Rightarrow> int" and limit :: int and ok :: "'s \<Rightarrow> bool"
  assumes window_mono: "adm e \<Longrightarrow> adm e' \<Longrightarrow> clock e \<le> clock e' \<Longrightarrow> window e \<le> window e'"
    and tally_nonneg: "ok s \<Longrightarrow> 0 \<le> tally s k w"
    and check_ok: "ok s \<Longrightarrow> ok (snd (check e k s))"
    and check_limit: "adm e \<Longrightarrow> fst (check e k s) \<Longrightarrow> tally s k (window e) < limit"
    and check_counts: "adm e \<Longrightarrow> fst (check e k s) \<Longrightarrow> tally s k (window e) + 1 \<le> tally (snd (check e k s)) k (window e)"
    and check_keeps: "tally s k' w \<le> tally (snd (check e k s)) k' w"
    and other_ok: "other e s t \<Longrightarrow> ok s \<Longrightarrow> ok t"
    and other_keeps: "adm e \<Longrightarrow> other e s t \<Longrightarrow> window e \<le> w \<Longrightarrow> tally s k w \<le> tally t k w"
begin

lemma run_inv:
  assumes "limiter_run adm clock window check other s0 e s log" "ok s0"
  shows "ok s \<and> adm e \<and> (\<forall>k w. window e < w \<longrightarrow> count_list log (k, w) = 0)
    \<and> (\<forall>k. int (count_list log (k, window e)) \<le> tally s k (window e))
    \<and> (\<forall>k w. int (count_list log (k, w)) \<le> max 0 limit)"
  using assms
proof induction
  case (Run_start e)
  then show ?case by (simp add: tally_nonneg)
next
  case (Run_check e s log e' k)
  let ?c = "check e' k s" and ?w = "window e'"
  have le: "window e \<le> ?w" using Run_check window_mono by blast
  have n: "int (count_list log (j, ?w)) \<le> tally s j ?w" for j
    using Run_check le tally_nonneg [of s j ?w] by (cases "window e = ?w") force+
  have "int (count_list (if fst ?c then (k, ?w) # log else log) (j, ?w)) \<le> tally (snd ?c) j ?w" for j
    using n [of j] check_counts [OF Run_check(2), of k s] check_keeps [of s j ?w e' k] by auto
  moreover have "int (count_list (if fst ?c then (k, ?w) # log else log) (j, v)) \<le> max 0 limit" for j v
  proof (cases "fst ?c \<and> (j, v) = (k, ?w)")
    case True
    with n [of k] check_limit [OF Run_check(2), of k s] show ?thesis by auto
  next
    case False
    with Run_check show ?thesis by auto
  qed
  moreover have "ok (snd ?c)" using Run_check check_ok by blast
  ultimately show ?case using Run_check le by auto
next
  case (Run_other e s log e' t)
  let ?w = "window e'"
  have le: "window e \<le> ?w" using Run_other window_mono by blast
  have "int (count_list log (j, ?w)) \<le> tally s j ?w" for j
    using Run_other le tally_nonneg [of s j ?w] by (cases "window e = ?w") force+
  then have "int (count_list log (j, ?w)) \<le> tally t j ?w" for j
    using other_keeps [OF Run_other(2,4), of ?w j] by (meson order_refl order_trans)
  then show ?case using Run_other le other_ok by auto
qed

theorem granted_bounded:
  assumes "limiter_run adm clock window check other s0 e s log" "ok s0"
  shows "int (count_list log (k, w)) \<le> max 0 limit"
  using run_inv [OF assms] by blast

end

section \<open>The two limits are limiters\<close>

definition counters_ok :: "store \<Rightarrow> bool" where
  "counters_ok s \<longleftrightarrow> (\<forall>r\<in>set (rate_limit_counters s). 0 \<le> rc_message_count r)"

definition message_check :: "env \<times> string \<Rightarrow> string \<Rightarrow> store \<Rightarrow> bool \<times> store" where
  "message_check = (\<lambda>(E, fleetId) agentId s. case checkAndIncrementRateLimit E agentId fleetId s of
     (None, t) \<Rightarrow> (False, t) | (Some (allowed, _), t) \<Rightarrow> (allowed, t))"

definition upload_check :: "env \<times> string \<Rightarrow> string \<Rightarrow> store \<Rightarrow> bool \<times> store" where
  "upload_check = (\<lambda>(E, fleetId) uploaderId s. case checkAndIncrementUploadLimit E uploaderId fleetId s of
     ((allowed, _), t) \<Rightarrow> (allowed, t))"

text \<open>
  What may happen between two checks of one limit: checks of the other, sweeps of the counters, and anything that
  leaves the counters alone.
\<close>

inductive limit_other :: "(env \<times> string \<Rightarrow> string \<Rightarrow> store \<Rightarrow> bool \<times> store) \<Rightarrow> env \<times> string \<Rightarrow> store \<Rightarrow> store \<Rightarrow> bool" for check where
  Check_other: "limit_other check e s (snd (check e k s))"
| Sweep_counters: "limit_other check e s (sweepStaleRateLimitCounters (fst e) s)"
| Same_counters: "rate_limit_counters t = rate_limit_counters s \<Longrightarrow> limit_other check e s t"

lemma count_at_open [simp]: "count_at (open_counter key w cs) k v = count_at cs k v"
proof (cases "select_one (counter_at k v) cs")
  case None
  then show ?thesis by (simp add: count_at_def open_counter_def select_one_append select_one_single)
next
  case (Some r)
  then show ?thesis by (simp add: count_at_def open_counter_def select_one_append)
qed

lemma open_counter_exists: "\<exists>r. select_one (counter_at key w) (open_counter key w cs) = Some r"
  by (cases "select_exists (counter_at key w) cs")
    (auto simp: open_counter_def select_exists_iff select_one_append select_one_single counter_at_def
      split: option.splits intro!: select_one_exists)

lemma count_at_bump:
  "count_at (bump_counter key w (open_counter key w cs)) k v = count_at cs k v + (if k = key \<and> v = w then 1 else 0)"
proof -
  let ?cs = "open_counter key w cs"
  have u: "select_one (counter_at k v) (bump_counter key w ?cs) =
      map_option (\<lambda>r. if counter_at key w r then r\<lparr> rc_message_count := rc_message_count r + 1 \<rparr> else r) (select_one (counter_at k v) ?cs)"
    unfolding bump_counter_def by (rule select_one_update) (simp add: counter_at_def)
  have b: "count_at (bump_counter key w ?cs) k v = (case select_one (counter_at k v) (bump_counter key w ?cs) of None \<Rightarrow> 0 | Some r \<Rightarrow> rc_message_count r)"
    by (simp only: count_at_def)
  have c: "count_at cs k v = (case select_one (counter_at k v) ?cs of None \<Rightarrow> 0 | Some r \<Rightarrow> rc_message_count r)"
    unfolding count_at_def [symmetric] by simp
  show ?thesis
  proof (cases "select_one (counter_at k v) ?cs")
    case None
    with open_counter_exists [of key w cs] have "\<not> (k = key \<and> v = w)" by auto
    with None show ?thesis unfolding b c u by simp
  next
    case (Some r)
    have "counter_at key w r \<longleftrightarrow> k = key \<and> v = w" using select_one_Some [OF Some] by (auto simp: counter_at_def)
    with Some show ?thesis unfolding b c u by simp
  qed
qed

lemma count_at_nonneg: "counters_ok s \<Longrightarrow> 0 \<le> count_at (rate_limit_counters s) k w"
  by (auto simp: counters_ok_def count_at_def split: option.splits dest: select_one_Some)

lemma open_counter_ok: "\<forall>r\<in>set cs. 0 \<le> rc_message_count r \<Longrightarrow> \<forall>r\<in>set (open_counter key w cs). 0 \<le> rc_message_count r"
  by (auto simp: open_counter_def)

lemma bump_counter_ok: "\<forall>r\<in>set cs. 0 \<le> rc_message_count r \<Longrightarrow> \<forall>r\<in>set (bump_counter key w cs). 0 \<le> rc_message_count r"
  by (force simp: bump_counter_def in_update_where)

lemma checkRateLimitQuarantine_counters:
  assumes "checkRateLimitQuarantine E i f s = Some t"
  shows "rate_limit_counters t = rate_limit_counters s"
proof -
  have "rate_limit_counters s1 = rate_limit_counters s" if "ensureSystemOperator E f s = Some (sid, s1)" for sid s1
    using that by (auto simp: ensureSystemOperator_def split: if_splits)
  with assms show ?thesis
    by (auto simp: checkRateLimitQuarantine_def quarantine_control_def Let_def split: if_splits option.splits)
qed

text \<open>What both checks do to the counters.\<close>

lemma message_check_counters:
  "fst (message_check (E, f) k s) \<longleftrightarrow> count_at (rate_limit_counters s) k (windowStart E) < rateLimitMaxMessages (cfg E)"
  "rate_limit_counters (snd (message_check (E, f) k s)) =
     (if count_at (rate_limit_counters s) k (windowStart E) < rateLimitMaxMessages (cfg E)
      then bump_counter k (windowStart E) (open_counter k (windowStart E) (rate_limit_counters s))
      else open_counter k (windowStart E) (rate_limit_counters s))"
  by (auto simp: message_check_def checkAndIncrementRateLimit_def Let_def split: option.splits dest: checkRateLimitQuarantine_counters)

lemma upload_check_counters:
  "fst (upload_check (E, f) k s) \<longleftrightarrow> count_at (rate_limit_counters s) (''upload:'' @ k) (windowStart E) < attachmentUploadMaxPerWindow (cfg E)"
  "rate_limit_counters (snd (upload_check (E, f) k s)) =
     (if count_at (rate_limit_counters s) (''upload:'' @ k) (windowStart E) < attachmentUploadMaxPerWindow (cfg E)
      then bump_counter (''upload:'' @ k) (windowStart E) (open_counter (''upload:'' @ k) (windowStart E) (rate_limit_counters s))
      else open_counter (''upload:'' @ k) (windowStart E) (rate_limit_counters s))"
  by (auto simp: upload_check_def checkAndIncrementUploadLimit_def Let_def)

lemma check_keeps_counts:
  "count_at (rate_limit_counters s) k' w \<le> count_at (rate_limit_counters (snd (message_check e k s))) k' w"
  "count_at (rate_limit_counters s) k' w \<le> count_at (rate_limit_counters (snd (upload_check e k s))) k' w"
  by (cases e; simp add: message_check_counters upload_check_counters count_at_bump)+

lemma check_keeps_ok:
  "counters_ok s \<Longrightarrow> counters_ok (snd (message_check e k s))"
  "counters_ok s \<Longrightarrow> counters_ok (snd (upload_check e k s))"
  by (cases e; auto simp: counters_ok_def message_check_counters upload_check_counters intro!: bump_counter_ok open_counter_ok)+

lemma windowStart_mono:
  assumes "0 < rateLimitWindowSeconds (cfg E)" "cfg E' = cfg E" "now E \<le> now E'"
  shows "windowStart E \<le> windowStart E'"
  using assms by (simp add: windowStart_def zdiv_mono1)

lemma windowStart_recent:
  assumes "0 < rateLimitWindowSeconds (cfg E)"
  shows "now E - rateLimitWindowSeconds (cfg E) * 1000 < windowStart E \<and> windowStart E \<le> now E"
proof -
  let ?W = "rateLimitWindowSeconds (cfg E)" and ?n = "now E div 1000"
  have w: "windowStart E = (?n - ?n mod ?W) * 1000" by (simp add: windowStart_def minus_mod_eq_div_mult)
  have "0 \<le> ?n mod ?W" "?n mod ?W \<le> ?W - 1" using assms pos_mod_bound [of ?W ?n] by simp_all
  moreover have "?n * 1000 \<le> now E" "now E < ?n * 1000 + 1000" by simp_all
  ultimately show ?thesis unfolding w by (simp add: algebra_simps)
qed

lemma sweep_keeps_counts:
  assumes "0 < rateLimitWindowSeconds (cfg E)" "windowStart E \<le> w"
  shows "count_at (rate_limit_counters (sweepStaleRateLimitCounters E s)) k w = count_at (rate_limit_counters s) k w"
proof -
  have "\<not> w < now E - rateLimitWindowSeconds (cfg E) * 2 * 1000"
    using windowStart_recent [OF assms(1)] assms by linarith
  then have "select_one (counter_at k w) (delete_where (\<lambda>r. rc_window_start r < now E - rateLimitWindowSeconds (cfg E) * 2 * 1000) cs)
      = select_one (counter_at k w) cs" for cs
    by (induction cs) (auto simp: sql counter_at_def)
  then show ?thesis by (simp add: count_at_def sweepStaleRateLimitCounters_def)
qed

lemma sweep_keeps_ok: "counters_ok s \<Longrightarrow> counters_ok (sweepStaleRateLimitCounters E s)"
  by (simp add: counters_ok_def sweepStaleRateLimitCounters_def)

lemmas limit_rules = windowStart_mono count_at_nonneg check_keeps_counts check_keeps_ok sweep_keeps_ok

lemma limit_other_ok:
  assumes "limit_other check e s t" "counters_ok s" "check = message_check \<or> check = upload_check"
  shows "counters_ok t"
  using assms(1)
proof cases
  case Same_counters
  with assms(2) show ?thesis by (simp add: counters_ok_def)
qed (use assms(2,3) in \<open>auto simp: check_keeps_ok sweep_keeps_ok\<close>)

lemma limit_other_keeps:
  assumes "limit_other check e s t" "0 < rateLimitWindowSeconds (cfg (fst e))" "windowStart (fst e) \<le> w"
    "check = message_check \<or> check = upload_check"
  shows "count_at (rate_limit_counters s) k w \<le> count_at (rate_limit_counters t) k w"
  using assms by cases (auto simp: check_keeps_counts sweep_keeps_counts)

interpretation messages_limit: window_limiter "\<lambda>e. cfg (fst e) = C \<and> 0 < rateLimitWindowSeconds C" "\<lambda>e. now (fst e)" "\<lambda>e. windowStart (fst e)"
  message_check "limit_other upload_check" "\<lambda>s. count_at (rate_limit_counters s)" "rateLimitMaxMessages C" counters_ok for C
proof (unfold_locales, goal_cases)
  case (8 e s t w k)
  then show ?case using limit_other_keeps by blast
qed (auto simp: limit_rules message_check_counters count_at_bump split_paired_all intro: limit_other_ok)

interpretation uploads_limit: window_limiter "\<lambda>e. cfg (fst e) = C \<and> 0 < rateLimitWindowSeconds C" "\<lambda>e. now (fst e)" "\<lambda>e. windowStart (fst e)"
  upload_check "limit_other message_check" "\<lambda>s k. count_at (rate_limit_counters s) (''upload:'' @ k)" "attachmentUploadMaxPerWindow C" counters_ok for C
proof (unfold_locales, goal_cases)
  case (8 e s t w k)
  then show ?case using limit_other_keeps by blast
qed (auto simp: limit_rules upload_check_counters count_at_bump split_paired_all intro: limit_other_ok)

end
