(* ===== verification/Approvals.thy ===== *)
theory Approvals
  imports Limits
begin

text \<open>
  Proposed actions and their approvals (\<^verbatim>\<open>proposeAction\<close>, \<^verbatim>\<open>completeActionResult\<close>, \<^verbatim>\<open>getApprovalStatus\<close>,
  \<^verbatim>\<open>approveOrReject\<close> of \<^verbatim>\<open>db.ts\<close>), with the values the routes' schemas admit.
\<close>

section \<open>Operations\<close>

datatype decision = Deny | Allow | Pending_approval string

definition proposeAction ::
  "env \<Rightarrow> string \<Rightarrow> string \<Rightarrow> string \<Rightarrow> string \<Rightarrow> string \<Rightarrow> json \<Rightarrow> store \<Rightarrow> decision \<times> store" where
  "proposeAction E agentId conversationId actionType summary riskLevel payload s =
     (case select_one (\<lambda>a. ag_id a = agentId) (agents s) of
        None \<Rightarrow> (Deny, s)
      | Some agent \<Rightarrow>
          if ag_status agent = ''paused'' \<or> ag_status agent = ''quarantined'' then (Deny, s)
          else if riskLevel = ''high'' \<or> riskLevel = ''critical'' then
            let approvalId = mk_id E ''apr'' (draws s) in
            (Pending_approval approvalId,
             recordEvent E (ag_fleet_id agent) ''approval.requested'' ''agent'' (Some agentId) ''approval'' (Some approvalId)
               (Some conversationId) (JObj [(''action_type'', JStr actionType), (''risk_level'', JStr riskLevel)])
               (s\<lparr> approvals := approvals s @
                     [\<lparr> ap_id = approvalId, ap_fleet_id = ag_fleet_id agent, ap_agent_id = agentId,
                        ap_conversation_id = Some conversationId, ap_action_type = actionType, ap_risk_level = riskLevel,
                        ap_summary = summary, ap_payload = payload, ap_status = ''pending'', ap_requested_at = now E,
                        ap_resolved_at = None, ap_resolved_by_operator_id = None \<rparr>],
                   draws := Suc (draws s) \<rparr>))
          else (Allow, s))"

definition conversation_text :: "string option \<Rightarrow> string" where
  "conversation_text c = (case c of None \<Rightarrow> '''' | Some v \<Rightarrow> v)"

definition own_approval :: "string \<Rightarrow> string \<Rightarrow> string \<Rightarrow> approval_row \<Rightarrow> bool" where
  "own_approval approvalId fleetId agentId r \<longleftrightarrow> ap_id r = approvalId \<and> ap_fleet_id r = fleetId \<and> ap_agent_id r = agentId"

definition completeActionResult :: "env \<Rightarrow> string \<Rightarrow> string \<Rightarrow> string \<Rightarrow> string \<Rightarrow> json \<Rightarrow> store \<Rightarrow> bool \<times> store" where
  "completeActionResult E approvalId fleetId agentId result output s =
     (case select_one (own_approval approvalId fleetId agentId) (approvals s) of
        None \<Rightarrow> (False, s)
      | Some approval \<Rightarrow>
          (True,
           recordEvent E (ap_fleet_id approval) ''approval.result'' ''agent'' (Some (ap_agent_id approval)) ''approval'' (Some approvalId)
             (Some (conversation_text (ap_conversation_id approval))) (JObj [(''result'', JStr result), (''output'', output)])
             (s\<lparr> approvals := update_where (\<lambda>r. ap_id r = approvalId)
                   (\<lambda>r. r\<lparr> ap_status := (if result = ''executed'' then ''executed'' else result), ap_resolved_at := Some (now E) \<rparr>)
                   (approvals s) \<rparr>)))"

definition getApprovalStatus :: "string \<Rightarrow> string \<Rightarrow> string \<Rightarrow> store \<Rightarrow> approval_row option" where
  "getApprovalStatus approvalId fleetId agentId s = select_one (own_approval approvalId fleetId agentId) (approvals s)"

definition approveOrReject :: "env \<Rightarrow> string \<Rightarrow> string \<Rightarrow> string \<Rightarrow> string \<Rightarrow> store \<Rightarrow> bool \<times> store" where
  "approveOrReject E approvalId fleetId operatorId status s =
     (let p = (\<lambda>r. ap_id r = approvalId \<and> ap_fleet_id r = fleetId \<and> ap_status r = ''pending'') in
      case select_one p (approvals s) of
        None \<Rightarrow> (False, s)
      | Some approval \<Rightarrow>
          (True,
           recordEvent E (ap_fleet_id approval) (''approval.'' @ status) ''operator'' (Some operatorId) ''approval'' (Some approvalId)
             (Some (conversation_text (ap_conversation_id approval))) (JObj [])
             (s\<lparr> approvals := update_where p
                   (\<lambda>r. r\<lparr> ap_status := status, ap_resolved_at := Some (now E), ap_resolved_by_operator_id := Some operatorId \<rparr>)
                   (approvals s) \<rparr>)))"

section \<open>The life of an approval\<close>

text \<open>
  A run keeps a log of the calls: who decided what for which fleet, and which agent reported what.  An identifier is drawn
  fresh; it is the primary key of the table.
\<close>

datatype approval_call =
    Decided string string string string
  | Reported string string string string

inductive approval_step :: "approval_call list \<times> store \<Rightarrow> approval_call list \<times> store \<Rightarrow> bool" where
  Propose: "mk_id E ''apr'' (draws s) \<notin> ap_id ` set (approvals s) \<Longrightarrow> approval_step (L, s) (L, snd (proposeAction E a c ty su risk p s))"
| Report: "result \<in> {''executed'', ''cancelled'', ''failed''} \<Longrightarrow>
    approval_step (L, s) (L @ [Reported i f a result], snd (completeActionResult E i f a result out s))"
| Decide: "status \<in> {''approved'', ''rejected''} \<Longrightarrow>
    approval_step (L, s) (L @ [Decided i f op status], snd (approveOrReject E i f op status s))"
| Elsewhere: "approvals t = approvals s \<Longrightarrow> approval_step (L, s) (L, t)"

text \<open>The shape of a row, and the calls that brought it there.\<close>

definition approval_ok :: "approval_call list \<Rightarrow> approval_row \<Rightarrow> bool" where
  "approval_ok L r \<longleftrightarrow> ap_risk_level r \<in> {''high'', ''critical''}
     \<and> ap_status r \<in> {''pending'', ''approved'', ''rejected'', ''executed'', ''cancelled'', ''failed''}
     \<and> (ap_status r = ''pending'' \<longleftrightarrow> ap_resolved_at r = None)
     \<and> (ap_status r = ''pending'' \<longrightarrow> ap_resolved_by_operator_id r = None)
     \<and> (ap_status r \<in> {''approved'', ''rejected''} \<longrightarrow>
          (\<exists>op. ap_resolved_by_operator_id r = Some op \<and> Decided (ap_id r) (ap_fleet_id r) op (ap_status r) \<in> set L))
     \<and> (\<forall>op. ap_resolved_by_operator_id r = Some op \<longrightarrow>
          (\<exists>status\<in>{''approved'', ''rejected''}. Decided (ap_id r) (ap_fleet_id r) op status \<in> set L))
     \<and> (ap_status r \<in> {''executed'', ''cancelled'', ''failed''} \<longrightarrow>
          Reported (ap_id r) (ap_fleet_id r) (ap_agent_id r) (ap_status r) \<in> set L)"

lemma approval_ok_mono: "approval_ok L r \<Longrightarrow> approval_ok (L @ M) r"
  unfolding approval_ok_def by (simp only: set_append) blast

definition approvals_ok :: "approval_call list \<times> store \<Rightarrow> bool" where
  "approvals_ok = (\<lambda>(L, s). distinct (map ap_id (approvals s)) \<and> (\<forall>r\<in>set (approvals s). approval_ok L r))"

text \<open>What a row may become: the request never changes, and once it is no longer pending neither does the verdict.\<close>

definition becomes :: "approval_row \<Rightarrow> approval_row \<Rightarrow> bool" where
  "becomes r r' \<longleftrightarrow>
     (ap_id r', ap_fleet_id r', ap_agent_id r', ap_action_type r', ap_risk_level r', ap_summary r', ap_payload r') =
       (ap_id r, ap_fleet_id r, ap_agent_id r, ap_action_type r, ap_risk_level r, ap_summary r, ap_payload r)
     \<and> (ap_status r \<noteq> ''pending'' \<longrightarrow> ap_status r' \<noteq> ''pending'' \<and> ap_resolved_by_operator_id r' = ap_resolved_by_operator_id r
          \<and> ap_status r' \<in> {ap_status r, ''executed'', ''cancelled'', ''failed''})"

lemma becomes_refl [simp]: "becomes r r"
  by (simp add: becomes_def)

lemma becomes_trans: "becomes r r' \<Longrightarrow> becomes r' r'' \<Longrightarrow> becomes r r''"
  by (auto simp: becomes_def)

definition grows :: "store \<Rightarrow> store \<Rightarrow> bool" where
  "grows s t \<longleftrightarrow> (\<exists>rs later. approvals t = rs @ later \<and> list_all2 becomes (approvals s) rs)"

lemma grows_same: "approvals t = approvals s \<Longrightarrow> grows s t"
  unfolding grows_def by (intro exI [of _ "approvals s"] exI [of _ "[]"]) (simp add: list_all2_refl)

lemma grows_append: "approvals t = approvals s @ later \<Longrightarrow> grows s t"
  unfolding grows_def by (intro exI [of _ "approvals s"] exI [of _ later]) (simp add: list_all2_refl)

lemma grows_update:
  assumes "approvals t = update_where p u (approvals s)" "\<And>r. p r \<Longrightarrow> becomes r (u r)"
  shows "grows s t"
  unfolding grows_def assms(1)
  by (intro exI [of _ "update_where p u (approvals s)"] exI [of _ "[]"])
    (simp add: update_where_def list_all2_map2 list_all2_refl assms(2) list.rel_refl_strong)

lemma grows_trans: "grows r s \<Longrightarrow> grows s t \<Longrightarrow> grows r t"
proof -
  assume "grows r s" "grows s t"
  then obtain rs l rs' l' where a: "approvals s = rs @ l" "list_all2 becomes (approvals r) rs" "approvals t = rs' @ l'"
      "list_all2 becomes (rs @ l) rs'"
    by (auto simp: grows_def)
  then obtain xs ys where "rs' = xs @ ys" "list_all2 becomes rs xs" by (auto simp: list_all2_append1)
  with a list_all2_trans [of becomes becomes becomes "approvals r" rs xs, OF becomes_trans] show "grows r t"
    unfolding grows_def by (intro exI [of _ xs] exI [of _ "ys @ l'"]) simp
qed

text \<open>Every step is a change of no row, a new pending row, a report of the owner or a verdict on what is pending.\<close>

lemma approval_step_cases [consumes 1, case_names keep new report verdict]:
  assumes "approval_step x y"
  obtains L M s t where "x = (L, s)" "y = (L @ M, t)" "approvals t = approvals s"
  | L s t r where "x = (L, s)" "y = (L, t)" "approvals t = approvals s @ [r]" "ap_id r \<notin> ap_id ` set (approvals s)"
      "ap_risk_level r \<in> {''high'', ''critical''}" "ap_status r = ''pending''" "ap_resolved_at r = None" "ap_resolved_by_operator_id r = None"
  | L s t q result T where "x = (L, s)" "y = (L @ [Reported (ap_id q) (ap_fleet_id q) (ap_agent_id q) result], t)" "q \<in> set (approvals s)"
      "result \<in> {''executed'', ''cancelled'', ''failed''}"
      "approvals t = update_where (\<lambda>r. ap_id r = ap_id q) (\<lambda>r. r\<lparr> ap_status := result, ap_resolved_at := Some T \<rparr>) (approvals s)"
  | L s t i f op status T where "x = (L, s)" "y = (L @ [Decided i f op status], t)" "status \<in> {''approved'', ''rejected''}"
      "approvals t = update_where (\<lambda>r. ap_id r = i \<and> ap_fleet_id r = f \<and> ap_status r = ''pending'')
         (\<lambda>r. r\<lparr> ap_status := status, ap_resolved_at := Some T, ap_resolved_by_operator_id := Some op \<rparr>) (approvals s)"
  using assms
proof cases
  case (Propose E s L a c ty su risk p)
  let ?t = "snd (proposeAction E a c ty su risk p s)"
  show thesis
  proof (cases "approvals ?t = approvals s")
    case True
    with Propose that(1) [of L s "[]" ?t] show thesis by simp
  next
    case False
    then obtain r where "approvals ?t = approvals s @ [r]" "ap_id r = mk_id E ''apr'' (draws s)" "ap_risk_level r \<in> {''high'', ''critical''}"
        "ap_status r = ''pending''" "ap_resolved_at r = None" "ap_resolved_by_operator_id r = None"
      by (force simp: proposeAction_def Let_def split: option.splits if_splits)
    with Propose that(2) [of L s ?t r] show thesis by simp
  qed
next
  case (Report result L s i f a E out)
  show thesis
  proof (cases "select_one (own_approval i f a) (approvals s)")
    case None
    with Report that(1) [of L s "[Reported i f a result]" s] show thesis by (simp add: completeActionResult_def)
  next
    case (Some q)
    then have "q \<in> set (approvals s)" "own_approval i f a q" by (auto dest: select_one_Some)
    with Some Report that(3) [of L s q result _ "now E"] show thesis by (simp add: completeActionResult_def own_approval_def)
  qed
next
  case (Decide status L s i f op E)
  let ?p = "\<lambda>r. ap_id r = i \<and> ap_fleet_id r = f \<and> ap_status r = ''pending''"
  show thesis
  proof (cases "select_one ?p (approvals s)")
    case None
    with Decide that(1) [of L s "[Decided i f op status]" s] show thesis by (simp add: approveOrReject_def)
  next
    case (Some r)
    with Decide that(4) [of L s i f op status _ "now E"] show thesis by (simp add: approveOrReject_def)
  qed
next
  case (Elsewhere t s L)
  with that(1) [of L s "[]" t] show thesis by simp
qed

lemma approval_step_grows: "approval_step x y \<Longrightarrow> grows (snd x) (snd y)"
proof (induction rule: approval_step_cases)
  case (keep L M s t)
  then show ?case by (simp add: grows_same)
next
  case (new L s t r)
  then show ?case by (simp add: grows_append)
next
  case (report L s t q result T)
  then show ?case by simp (erule grows_update, auto simp: becomes_def)
next
  case (verdict L s t i f op status T)
  then show ?case by simp (erule grows_update, simp add: becomes_def)
qed

lemma ids_update: "(\<And>r. ap_id (u r) = ap_id r) \<Longrightarrow> map ap_id (update_where p u rs) = map ap_id rs"
  by (simp add: update_where_def)

lemma same_row: "distinct (map ap_id rs) \<Longrightarrow> q \<in> set rs \<Longrightarrow> r \<in> set rs \<Longrightarrow> ap_id q = ap_id r \<Longrightarrow> q = r"
  by (auto simp: distinct_map dest: inj_onD)

interpretation approvals_sound: stepping "([], empty_store)" approval_step approvals_ok
proof
  show "approvals_ok ([], empty_store)" by (simp add: approvals_ok_def empty_store_def)
next
  fix x y assume ok: "approvals_ok x" and "approval_step x y"
  from this(2) show "approvals_ok y"
  proof (cases rule: approval_step_cases)
    case (keep L M s t)
    with ok show ?thesis by (auto simp: approvals_ok_def approval_ok_mono)
  next
    case (new L s t r)
    with ok show ?thesis by (auto simp: approvals_ok_def approval_ok_def)
  next
    case (report L s t q result T)
    have i: "distinct (map ap_id (approvals s))" "\<And>r. r \<in> set (approvals s) \<Longrightarrow> approval_ok L r" using ok report(1) by (auto simp: approvals_ok_def)
    have "approval_ok (L @ [Reported (ap_id q) (ap_fleet_id q) (ap_agent_id q) result]) r" if r: "r \<in> set (approvals t)" for r
    proof -
      obtain r0 where r0: "r0 \<in> set (approvals s)" "r = (if ap_id r0 = ap_id q then r0\<lparr> ap_status := result, ap_resolved_at := Some T \<rparr> else r0)"
        using r unfolding report(5) by (rule update_where_cases)
      show ?thesis
      proof (cases "ap_id r0 = ap_id q")
        case True
        then have "r0 = q" by (rule same_row [OF i(1) r0(1) report(3)])
        with r0 report(4) i(2) [OF r0(1)] show ?thesis unfolding approval_ok_def by auto
      qed (use r0 i(2) [OF r0(1)] in \<open>simp add: approval_ok_mono\<close>)
    qed
    with i(1) show ?thesis by (auto simp: approvals_ok_def report(2,5) ids_update)
  next
    case (verdict L s t i f op status T)
    let ?p = "\<lambda>r. ap_id r = i \<and> ap_fleet_id r = f \<and> ap_status r = ''pending''"
    have k: "distinct (map ap_id (approvals s))" "\<And>r. r \<in> set (approvals s) \<Longrightarrow> approval_ok L r" using ok verdict(1) by (auto simp: approvals_ok_def)
    have "approval_ok (L @ [Decided i f op status]) r" if r: "r \<in> set (approvals t)" for r
    proof -
      obtain r0 where r0: "r0 \<in> set (approvals s)"
        "r = (if ?p r0 then r0\<lparr> ap_status := status, ap_resolved_at := Some T, ap_resolved_by_operator_id := Some op \<rparr> else r0)"
        using r unfolding verdict(4) by (rule update_where_cases)
      show ?thesis
      proof (cases "?p r0")
        case True
        with r0 verdict(3) k(2) [OF r0(1)] show ?thesis unfolding approval_ok_def by auto
      qed (use r0 k(2) [OF r0(1)] in \<open>auto simp: approval_ok_mono\<close>)
    qed
    with k(1) show ?thesis by (auto simp: approvals_ok_def verdict(2,4) ids_update)
  qed
qed

lemma approval_reach_grows: "reach x approval_step y \<Longrightarrow> grows (snd x) (snd y)"
proof (induction rule: reach.induct)
  case reach_start
  show ?case by (rule grows_same) simp
next
  case (reach_step t u)
  from grows_trans [OF this(3) approval_step_grows [OF this(2)]] show ?case .
qed

text \<open>
  C40: The life of an approval.  Over every run of proposals, decisions and reports, an approval is for a high or critical risk and is unresolved exactly
  while it is pending; it is approved or rejected only by a decision that an operator of its own fleet gave for it, and that operator is on record;
  it is executed, cancelled or failed only by a report of the very agent that asked.  And it is decided once: whatever follows, it stays in the
  table with the request it was made for, and once it is no longer pending no decision changes the verdict or who gave it; only a
  report of the agent can follow.  A report does not look at the verdict.
\<close>

theorem approval_lifecycle:
  assumes "reach ([], empty_store) approval_step (L, s)" "k < length (approvals s)" "reach (L, s) approval_step (L', t)"
  shows "approval_ok L (approvals s ! k) \<and> k < length (approvals t)
    \<and> ap_id (approvals t ! k) = ap_id (approvals s ! k) \<and> ap_fleet_id (approvals t ! k) = ap_fleet_id (approvals s ! k)
    \<and> ap_agent_id (approvals t ! k) = ap_agent_id (approvals s ! k) \<and> ap_payload (approvals t ! k) = ap_payload (approvals s ! k)
    \<and> (ap_status (approvals s ! k) \<noteq> ''pending'' \<longrightarrow>
         ap_resolved_by_operator_id (approvals t ! k) = ap_resolved_by_operator_id (approvals s ! k)
         \<and> ap_status (approvals t ! k) \<in> {ap_status (approvals s ! k), ''executed'', ''cancelled'', ''failed''})"
proof -
  have "approval_ok L (approvals s ! k)"
    using approvals_sound.inv_reach [OF assms(1)] assms(2) by (simp add: approvals_ok_def)
  moreover have "grows s t" using approval_reach_grows [OF assms(3)] by simp
  then obtain rs later where a: "approvals t = rs @ later" "list_all2 becomes (approvals s) rs" by (auto simp: grows_def)
  then have "k < length rs" "becomes (approvals s ! k) (approvals t ! k)"
    using assms(2) list_all2_lengthD list_all2_nthD by (fastforce simp: nth_append)+
  ultimately show ?thesis using a(1) by (auto simp: becomes_def)
qed

section \<open>Witnesses\<close>

definition sample_proposed :: store where
  "sample_proposed = snd (proposeAction (sample_env 5) sample_agent ''c'' ''deploy'' ''ship it'' ''high'' (JObj []) sample_enrolled)"

definition sample_rejected :: store where
  "sample_rejected = snd (approveOrReject (sample_env 6) (ap_id (hd (approvals sample_proposed))) ''flt'' ''opr'' ''rejected'' sample_proposed)"

definition sample_reported :: store where
  "sample_reported =
     snd (completeActionResult (sample_env 7) (ap_id (hd (approvals sample_proposed))) ''flt'' sample_agent ''executed'' JNull sample_rejected)"

abbreviation (input) sample_approval :: string where
  "sample_approval \<equiv> ap_id (hd (approvals sample_proposed))"

lemma sample_rejected_reach:
  "reach ([], empty_store) approval_step ([Decided sample_approval ''flt'' ''opr'' ''rejected''], sample_rejected)"
proof (rule reach_step)
  show "approval_step ([], sample_proposed) ([Decided sample_approval ''flt'' ''opr'' ''rejected''], sample_rejected)"
    unfolding sample_rejected_def using Decide [of "''rejected''" "[]" sample_proposed] by simp
  have e: "approvals sample_enrolled = []" by code_simp
  show "reach ([], empty_store) approval_step ([], sample_proposed)"
  proof (rule reach_step)
    show "approval_step ([], sample_enrolled) ([], sample_proposed)" unfolding sample_proposed_def by (rule Propose) (simp add: e)
    show "reach ([], empty_store) approval_step ([], sample_enrolled)"
      by (rule reach_step [OF reach_start], rule Elsewhere) (simp add: e empty_store_def)
  qed
qed

text \<open>A rejected request that its agent reports as executed all the same: the verdict stays on record.\<close>

lemma approval_lifecycle_witness:
  "ap_status (approvals sample_rejected ! 0) = ''rejected''
   \<and> ap_status (approvals sample_reported ! 0) = ''executed''
   \<and> ap_resolved_by_operator_id (approvals sample_reported ! 0) = Some ''opr''"
proof -
  have r: "reach ([Decided sample_approval ''flt'' ''opr'' ''rejected''], sample_rejected) approval_step
      ([Decided sample_approval ''flt'' ''opr'' ''rejected'', Reported sample_approval ''flt'' sample_agent ''executed''], sample_reported)"
    unfolding sample_reported_def
    using Report [of "''executed''" "[Decided sample_approval ''flt'' ''opr'' ''rejected'']" sample_rejected]
    by (intro reach_step [OF reach_start]) simp
  have "0 < length (approvals sample_rejected)" by code_simp
  moreover have "ap_status (approvals sample_rejected ! 0) = ''rejected''" "ap_resolved_by_operator_id (approvals sample_rejected ! 0) = Some ''opr''"
    "ap_status (approvals sample_reported ! 0) = ''executed''" by code_simp+
  ultimately show ?thesis using approval_lifecycle [OF sample_rejected_reach _ r, of 0] by simp
qed

end
