(* ===== verification/Gate.thy ===== *)
theory Gate
  imports Approvals "HOL-Library.Sublist"
begin

text \<open>
  The way of an agent's message into the relay: the policies of a fleet (\<^verbatim>\<open>evaluateMessagePolicies\<close>,
  \<^verbatim>\<open>matchesPolicyConditions\<close>, the policy editor's operations), the admission gate of \<^verbatim>\<open>message-gate.ts\<close>, and the route
  \<^verbatim>\<open>POST /v1/messages\<close> of \<^verbatim>\<open>routes-agent.ts\<close> from the authenticated request to \<^verbatim>\<open>createMessage\<close>.  Licensed extensions are
  code outside the repository: the list of their hooks is an argument.
\<close>

section \<open>Policies\<close>

text \<open>One condition of a rule against the value it constrains; undefined constrains nothing, a null value meets nothing.\<close>

fun condition_holds :: "json option \<times> string option \<Rightarrow> bool" where
  "condition_holds (None, _) = True"
| "condition_holds (Some c, None) = False"
| "condition_holds (Some (JArr allowed), Some v) = (JStr v \<in> set allowed)"
| "condition_holds (Some c, Some v) = (c = JStr v)"

definition matchesPolicyConditions :: "json \<Rightarrow> string \<Rightarrow> string option \<Rightarrow> string \<Rightarrow> string \<Rightarrow> bool" where
  "matchesPolicyConditions conditions senderAgentId recipientId messageType priority =
     list_all condition_holds
       [(json_get conditions ''sender_agent_id'', Some senderAgentId),
        (json_get conditions ''recipient_agent_id'', recipientId),
        (json_get conditions ''message_type'', Some messageType),
        (json_get conditions ''priority'', Some priority)]"

text \<open>The schema of the policy editor makes the conditions of a rule mandatory; a rule without them does not arise.\<close>

definition rule_conditions :: "json \<Rightarrow> json" where
  "rule_conditions rule = (case json_get rule ''conditions'' of None \<Rightarrow> JObj [] | Some c \<Rightarrow> c)"

definition denies :: "policy_row \<Rightarrow> bool" where
  "denies p \<longleftrightarrow> json_get (po_rule p) ''action'' = Some (JStr ''deny'')"

definition in_scope :: "string \<Rightarrow> string \<Rightarrow> string option \<Rightarrow> policy_row \<Rightarrow> bool" where
  "in_scope fleetId senderAgentId recipientId p \<longleftrightarrow>
     po_fleet_id p = fleetId \<and> po_enabled p
     \<and> (po_scope_kind p = ''fleet''
        \<or> po_scope_kind p = ''agent''
          \<and> (po_scope_id p = Some senderAgentId \<or> po_scope_id p = Some (case recipientId of None \<Rightarrow> '''' | Some r \<Rightarrow> r)))"

text \<open>The loop over the policies in their order: the first that matches settles it.\<close>

fun first_match :: "(policy_row \<Rightarrow> bool) \<Rightarrow> policy_row list \<Rightarrow> policy_row option" where
  "first_match matches [] = None"
| "first_match matches (p # ps) = (if matches p then Some p else first_match matches ps)"

definition evaluateMessagePolicies ::
  "env \<Rightarrow> string \<Rightarrow> string \<Rightarrow> string option \<Rightarrow> string \<Rightarrow> string \<Rightarrow> store \<Rightarrow> string option \<times> store" where
  "evaluateMessagePolicies E fleetId senderAgentId recipientId messageType priority s =
     (let ps = order_asc (\<lambda>p. if denies p then 0 else 1) (select_all (in_scope fleetId senderAgentId recipientId) (policies s))
      in case first_match (\<lambda>p. matchesPolicyConditions (rule_conditions (po_rule p)) senderAgentId recipientId messageType priority) ps of
           None \<Rightarrow> (None, s)
         | Some p \<Rightarrow>
             if denies p then
               (Some (po_name p),
                recordEvent E fleetId ''message.policy_denied'' ''system'' None ''policy'' (Some (po_id p)) None
                  (JObj [(''policy_name'', JStr (po_name p)), (''sender'', JStr senderAgentId), (''recipient'', str_opt recipientId),
                         (''message_type'', JStr messageType)]) s)
             else (None, s))"

definition createPolicy :: "env \<Rightarrow> string \<Rightarrow> string \<Rightarrow> string \<Rightarrow> string option \<Rightarrow> json \<Rightarrow> bool \<Rightarrow> store \<Rightarrow> string \<times> store" where
  "createPolicy E fleetId name scopeKind scopeId rule enabled s =
     (let policyId = mk_id E ''pol'' (draws s) in
      (policyId,
       recordEvent E fleetId ''policy.created'' ''operator'' None ''policy'' (Some policyId) None (JObj [(''name'', JStr name)])
         (s\<lparr> policies := policies s @
               [\<lparr> po_id = policyId, po_fleet_id = fleetId, po_name = name, po_scope_kind = scopeKind, po_scope_id = scopeId,
                  po_rule = rule, po_enabled = enabled, po_created_at = now E \<rparr>],
             draws := Suc (draws s) \<rparr>)))"

definition listPolicies :: "string \<Rightarrow> store \<Rightarrow> policy_row list" where
  "listPolicies fleetId s = order_desc po_created_at (select_all (\<lambda>p. po_fleet_id p = fleetId) (policies s))"

text \<open>Fields that are undefined in an update stay; the scope id may be set to null.\<close>

record policy_updates =
  pu_name :: "string option"
  pu_scopeKind :: "string option"
  pu_scopeId :: "string option option"
  pu_rule :: "json option"
  pu_enabled :: "bool option"

definition set_opt :: "('a \<Rightarrow> 'r \<Rightarrow> 'r) \<Rightarrow> 'a option \<Rightarrow> 'r \<Rightarrow> 'r" where
  "set_opt upd v r = (case v of None \<Rightarrow> r | Some x \<Rightarrow> upd x r)"

definition apply_updates :: "policy_updates \<Rightarrow> policy_row \<Rightarrow> policy_row" where
  "apply_updates u p =
     set_opt (\<lambda>v r. r\<lparr> po_enabled := v \<rparr>) (pu_enabled u)
       (set_opt (\<lambda>v r. r\<lparr> po_rule := v \<rparr>) (pu_rule u)
         (set_opt (\<lambda>v r. r\<lparr> po_scope_id := v \<rparr>) (pu_scopeId u)
           (set_opt (\<lambda>v r. r\<lparr> po_scope_kind := v \<rparr>) (pu_scopeKind u)
             (set_opt (\<lambda>v r. r\<lparr> po_name := v \<rparr>) (pu_name u) p))))"

definition no_updates :: "policy_updates \<Rightarrow> bool" where
  "no_updates u \<longleftrightarrow> is_null (pu_name u) \<and> is_null (pu_scopeKind u) \<and> is_null (pu_scopeId u) \<and> is_null (pu_rule u) \<and> is_null (pu_enabled u)"

text \<open>The route hands over an object with all five members, undefined ones included, so the event lists all five.\<close>

definition updatePolicy :: "env \<Rightarrow> string \<Rightarrow> string \<Rightarrow> policy_updates \<Rightarrow> store \<Rightarrow> bool \<times> store" where
  "updatePolicy E policyId fleetId updates s =
     (let p = (\<lambda>r. po_id r = policyId \<and> po_fleet_id r = fleetId) in
      if \<not> select_exists p (policies s) then (False, s)
      else if no_updates updates then (True, s)
      else (True,
        recordEvent E fleetId ''policy.updated'' ''operator'' None ''policy'' (Some policyId) None
          (JObj [(''updates'', JArr (map JStr [''name'', ''scopeKind'', ''scopeId'', ''rule'', ''enabled'']))])
          (s\<lparr> policies := update_where p (apply_updates updates) (policies s) \<rparr>)))"

definition deletePolicy :: "env \<Rightarrow> string \<Rightarrow> string \<Rightarrow> store \<Rightarrow> bool \<times> store" where
  "deletePolicy E policyId fleetId s =
     (let p = (\<lambda>r. po_id r = policyId \<and> po_fleet_id r = fleetId); t = s\<lparr> policies := delete_where p (policies s) \<rparr> in
      if 0 < changes p (policies s)
      then (True, recordEvent E fleetId ''policy.deleted'' ''operator'' None ''policy'' (Some policyId) None (JObj []) t)
      else (False, t))"

section \<open>The gate\<close>

text \<open>
  A hook gets fleet, sender, recipient, type, priority, body and metadata and returns the message of the error it
  throws, if it throws.
\<close>

record message_hook_input =
  hk_fleetId :: string
  hk_senderAgentId :: string
  hk_recipientId :: "string option"
  hk_messageType :: string
  hk_priority :: string
  hk_body :: json
  hk_metadata :: "json option"

type_synonym extension = "string \<times> (message_hook_input \<Rightarrow> string option) option"

datatype gate_denial =
    Sender_status string
  | Rate_limit int int int
  | Policy string
  | Extension string string

datatype verdict = Allowed | Denied gate_denial | Gate_throws

fun run_extensions :: "message_hook_input \<Rightarrow> extension list \<Rightarrow> verdict" where
  "run_extensions i [] = Allowed"
| "run_extensions i ((name, None) # exts) = run_extensions i exts"
| "run_extensions i ((name, Some onBeforeMessage) # exts) =
     (case onBeforeMessage i of None \<Rightarrow> run_extensions i exts | Some reason \<Rightarrow> Denied (Extension name reason))"

definition evaluateMessageGate ::
  "env \<Rightarrow> extension list \<Rightarrow> string \<times> string \<times> string \<Rightarrow> string option \<Rightarrow> string \<Rightarrow> string \<Rightarrow> json \<Rightarrow> json option \<Rightarrow> store
   \<Rightarrow> verdict \<times> store" where
  "evaluateMessageGate E exts = (\<lambda>(agentId, fleetId, status) recipientId messageType priority body metadata s.
     if status = ''quarantined'' \<or> status = ''paused'' then (Denied (Sender_status status), s)
     else
       let (rateCheck, s1) = checkAndIncrementRateLimit E agentId fleetId s in
       case rateCheck of
         None \<Rightarrow> (Gate_throws, s1)
       | Some (allowed, current, limit) \<Rightarrow>
           if \<not> allowed then (Denied (Rate_limit current limit (rateLimitWindowSeconds (cfg E))), s1)
           else
             let (denied, s2) = evaluateMessagePolicies E fleetId agentId recipientId messageType priority s1 in
             case denied of
               Some name \<Rightarrow> (Denied (Policy name), s2)
             | None \<Rightarrow>
                 (run_extensions
                    \<lparr> hk_fleetId = fleetId, hk_senderAgentId = agentId, hk_recipientId = recipientId, hk_messageType = messageType,
                      hk_priority = priority, hk_body = body, hk_metadata = metadata \<rparr> exts, s2))"

section \<open>The route\<close>

text \<open>The parsed body of \<^verbatim>\<open>POST /v1/messages\<close>.\<close>

record send_input =
  sd_recipient_kind :: string
  sd_recipient_id :: "string option"
  sd_message_type :: string
  sd_priority :: string
  sd_ttl_seconds :: int
  sd_requires_approval :: bool
  sd_body :: json
  sd_metadata :: "(string \<times> json) list option"
  sd_conversation_id :: string
  sd_correlation_id :: string
  sd_agent_sig :: "string option"
  sd_key_id :: "string option"
  sd_sig_canonical :: "(string \<times> json) list option"

definition sigMeta :: "send_input \<Rightarrow> (string \<times> json) list" where
  "sigMeta i =
     (case sd_sig_canonical i of
        Some canonical \<Rightarrow>
          if truthy (sd_agent_sig i) \<and> truthy (sd_key_id i)
          then [(''agent_sig'', JStr (the (sd_agent_sig i))), (''key_id'', JStr (the (sd_key_id i))), (''sig_canonical'', JObj canonical)]
          else []
      | None \<Rightarrow> [])"

text \<open>\<^verbatim>\<open>{ ...a, ...b }\<close>: a member of \<open>b\<close> replaces one of \<open>a\<close> in its place or comes after.\<close>

definition spread :: "(string \<times> json) list \<Rightarrow> (string \<times> json) list \<Rightarrow> (string \<times> json) list" where
  "spread a b = map (\<lambda>(k, v). (k, case map_of b k of None \<Rightarrow> v | Some w \<Rightarrow> w)) a @ filter (\<lambda>(k, _). k \<notin> fst ` set a) b"

datatype send_error =
    Gate_denied gate_denial
  | Nonce_empty
  | Nonce_too_long
  | Envelope_replayed
  | Not_found msg_error
  | Bad_request msg_error
  | Internal_error

text \<open>The nonce of the signed envelope: absent, unusable, or its text.\<close>

definition envelope_nonce :: "send_input \<Rightarrow> (send_error + string) option" where
  "envelope_nonce i =
     (case sd_sig_canonical i of
        None \<Rightarrow> None
      | Some canonical \<Rightarrow>
          if nullish (map_of canonical ''nonce'') then None
          else
            let nonce = (case map_of canonical ''nonce'' of
                           Some (JStr v) \<Rightarrow> js_trim v | Some (JNum n) \<Rightarrow> js_trim (js_string (JNum n)) | _ \<Rightarrow> '''')
            in Some (if nonce = [] then Inl Nonce_empty else if length nonce > 256 then Inl Nonce_too_long else Inr nonce))"

definition msg_input_of :: "string \<times> string \<times> string \<Rightarrow> send_input \<Rightarrow> message_input" where
  "msg_input_of = (\<lambda>(agentId, fleetId, status) i.
     let mergedMeta = spread (case sd_metadata i of None \<Rightarrow> [] | Some ms \<Rightarrow> ms) (sigMeta i) in
     \<lparr> mi_fleetId = fleetId, mi_senderAgentId = agentId, mi_recipientKind = sd_recipient_kind i, mi_recipientId = sd_recipient_id i,
       mi_messageType = sd_message_type i, mi_priority = sd_priority i, mi_ttlSeconds = sd_ttl_seconds i,
       mi_requiresApproval = sd_requires_approval i, mi_body = sd_body i,
       mi_metadata = (if mergedMeta = [] then None else Some (JObj mergedMeta)),
       mi_conversationId = sd_conversation_id i, mi_correlationId = sd_correlation_id i \<rparr>)"

text \<open>
  The messages of the errors that \<^verbatim>\<open>createMessage\<close> throws (a dash that is not ASCII is written as a hyphen); the two
  errors about signing keys are thrown for operators only.
\<close>

definition dquote :: string where
  "dquote = [CHR 0x22]"

definition error_text :: "config \<Rightarrow> string \<Rightarrow> msg_error \<Rightarrow> string" where
  "error_text C recipientKind e =
     (case e of
        Too_many_attachments \<Rightarrow> ''too many attachments (max '' @ js_string (JNum (attachmentMaxPerMessage C)) @ '')''
      | Attachment_not_owned \<Rightarrow> ''attachment not found in fleet or not owned by sender''
      | Room_not_found \<Rightarrow> ''room not found''
      | Recipient_conversation_mismatch c \<Rightarrow>
          ''recipient/conversation mismatch: conversation '' @ c @ '' is a room - a '' @ dquote @ recipientKind
          @ dquote @ '' recipient must use recipient.kind '' @ dquote @ ''group'' @ dquote @ '' (id = the room id) to post into it''
      | Recipient_not_found \<Rightarrow> ''recipient not found''
      | Unsupported_recipient k \<Rightarrow> ''unsupported recipient: '' @ k
      | Foreign_key \<Rightarrow> ''FOREIGN KEY constraint failed''
      | _ \<Rightarrow> [])"

definition send_error_of :: "config \<Rightarrow> string \<Rightarrow> msg_error \<Rightarrow> send_error" where
  "send_error_of C recipientKind e =
     (let msg = error_text C recipientKind e in
      if sublist ''not found'' msg then Not_found e
      else if sublist ''too many'' msg \<or> sublist ''unsupported recipient'' msg \<or> sublist ''recipient/conversation mismatch'' msg
      then Bad_request e
      else Internal_error)"

definition sendMessage ::
  "env \<Rightarrow> extension list \<Rightarrow> string \<times> string \<times> string \<Rightarrow> send_input \<Rightarrow> store \<Rightarrow> (send_error + string \<times> int) \<times> store" where
  "sendMessage E exts agent i s =
     (case evaluateMessageGate E exts agent (sd_recipient_id i) (sd_message_type i) (sd_priority i) (sd_body i)
             (map_option JObj (sd_metadata i)) s of
        (Gate_throws, s1) \<Rightarrow> (Inl Internal_error, s1)
      | (Denied d, s1) \<Rightarrow> (Inl (Gate_denied d), s1)
      | (Allowed, s1) \<Rightarrow>
          (case (case envelope_nonce i of
                   None \<Rightarrow> (None, s1)
                 | Some (Inl e) \<Rightarrow> (Some e, s1)
                 | Some (Inr nonce) \<Rightarrow>
                     let (fresh, s2) = claimEnvelopeNonce E (fst agent) nonce s1 in (if fresh then None else Some Envelope_replayed, s2)) of
             (Some e, s2) \<Rightarrow> (Inl e, s2)
           | (None, s2) \<Rightarrow>
               (case createMessage E (msg_input_of agent i) s2 of
                  Inl e \<Rightarrow> (Inl (send_error_of (cfg E) (sd_recipient_kind i) e), s2)
                | Inr (result, s3) \<Rightarrow> (Inr result, s3))))"

section \<open>What the gate admits\<close>

lemma first_match_find: "first_match m ps = List.find m ps"
  by (induction ps) auto

text \<open>With the denying policies in front the first match denies as soon as any match does.\<close>

lemma first_match_denies:
  assumes "first_match m (order_asc (\<lambda>p. if d p then 0 else 1) ps) = Some p" "q \<in> set ps" "m q" "d q"
  shows "d p"
proof -
  let ?k = "\<lambda>p. if d p then 0 else (1::int)" and ?os = "order_asc (\<lambda>p. if d p then 0 else 1) ps"
  from assms(1) obtain i where i: "i < length ?os" "?os ! i = p" "\<And>j. j < i \<Longrightarrow> \<not> m (?os ! j)"
    by (auto simp: first_match_find find_Some_iff)
  from assms(2) obtain j where j: "j < length ?os" "?os ! j = q" by (metis in_set_conv_nth set_order_asc)
  have "i \<le> j" using i(3) [of j] j(2) assms(3) by (auto simp: not_less [symmetric])
  moreover have "sorted (map ?k ?os)" by (simp add: sql)
  ultimately have "?k p \<le> ?k q" using i j by (metis (no_types, lifting) length_map nth_map sorted_nth_mono)
  with assms(4) show ?thesis by (simp split: if_splits)
qed

definition policy_denies :: "store \<Rightarrow> string \<Rightarrow> string \<Rightarrow> string option \<Rightarrow> string \<Rightarrow> string \<Rightarrow> policy_row \<Rightarrow> bool" where
  "policy_denies s f a r ty pr p \<longleftrightarrow> p \<in> set (policies s) \<and> in_scope f a r p \<and> denies p
     \<and> matchesPolicyConditions (rule_conditions (po_rule p)) a r ty pr"

lemma evaluateMessagePolicies_cases:
  "(\<exists>p t. evaluateMessagePolicies E f a r ty pr s = (Some (po_name p), t) \<and> policy_denies s f a r ty pr p)
   \<or> evaluateMessagePolicies E f a r ty pr s = (None, s) \<and> (\<nexists>p. policy_denies s f a r ty pr p)"
proof -
  let ?m = "\<lambda>p. matchesPolicyConditions (rule_conditions (po_rule p)) a r ty pr"
  let ?ps = "select_all (in_scope f a r) (policies s)" and ?o = "order_asc (\<lambda>p. if denies p then 0 else 1)"
  have in_ps: "p \<in> set ?ps \<longleftrightarrow> p \<in> set (policies s) \<and> in_scope f a r p" for p by (simp add: sql)
  show ?thesis
  proof (cases "first_match ?m (?o ?ps)")
    case None
    then have "\<not> ?m p" if "p \<in> set ?ps" for p using that by (simp add: first_match_find find_None_iff)
    with None show ?thesis by (auto simp: evaluateMessagePolicies_def policy_denies_def in_ps)
  next
    case (Some p)
    then have p: "p \<in> set ?ps" "?m p" by (auto simp: first_match_find find_Some_iff dest: nth_mem)
    show ?thesis
    proof (cases "denies p")
      case True
      with p have "policy_denies s f a r ty pr p" by (simp add: policy_denies_def in_ps)
      moreover have "fst (evaluateMessagePolicies E f a r ty pr s) = Some (po_name p)"
        using Some True by (simp add: evaluateMessagePolicies_def)
      ultimately show ?thesis by (metis prod.collapse)
    next
      case False
      with first_match_denies [OF Some] have "\<nexists>q. policy_denies s f a r ty pr q" by (auto simp: policy_denies_def in_ps)
      with Some False show ?thesis by (simp add: evaluateMessagePolicies_def)
    qed
  qed
qed

lemma evaluateMessagePolicies_frame:
  assumes "evaluateMessagePolicies E f a r ty pr s = (d, t)"
  shows "rate_limit_counters t = rate_limit_counters s \<and> replay_nonces t = replay_nonces s \<and> agents t = agents s"
  using assms by (auto simp: evaluateMessagePolicies_def Let_def split: option.splits if_splits)

lemma run_extensions_Allowed:
  "run_extensions i exts = Allowed \<longleftrightarrow> list_all (\<lambda>(name, hook). hook = None \<or> the hook i = None) exts"
  by (induction i exts rule: run_extensions.induct) (auto split: option.splits)

lemma run_extensions_no_throw: "run_extensions i exts \<noteq> Gate_throws"
  by (induction i exts rule: run_extensions.induct) (auto split: option.splits)

text \<open>A granted check only bumps a counter.\<close>

lemma rate_limit_granted:
  "\<exists>n l. checkAndIncrementRateLimit E a f s = (Some (True, n, l),
       s\<lparr> rate_limit_counters := bump_counter a (windowStart E) (open_counter a (windowStart E) (rate_limit_counters s)) \<rparr>)"
  if "count_at (rate_limit_counters s) a (windowStart E) < rateLimitMaxMessages (cfg E)"
  using that by (simp add: checkAndIncrementRateLimit_def Let_def)

lemma rate_limit_refused:
  "fst (checkAndIncrementRateLimit E a f s) = None \<or> (\<exists>n l. fst (checkAndIncrementRateLimit E a f s) = Some (False, n, l))"
  if "\<not> count_at (rate_limit_counters s) a (windowStart E) < rateLimitMaxMessages (cfg E)"
  using that by (auto simp: checkAndIncrementRateLimit_def Let_def split: option.splits)

text \<open>
  A denial overrides every allowance.  A message is denied by policy exactly when some enabled policy of
  the fleet that applies to the fleet, the sender or the recipient denies and its conditions match, however
  many matching policies allow it and wherever they stand; the policy named is one of those.
\<close>

theorem policy_deny_overrides:
  "(fst (evaluateMessagePolicies E f a r ty pr s) = None \<longleftrightarrow>
      \<not> list_ex (\<lambda>p. in_scope f a r p \<and> denies p \<and> matchesPolicyConditions (rule_conditions (po_rule p)) a r ty pr) (policies s))
   \<and> set_option (fst (evaluateMessagePolicies E f a r ty pr s)) \<subseteq>
      po_name ` {p \<in> set (policies s). in_scope f a r p \<and> denies p \<and> matchesPolicyConditions (rule_conditions (po_rule p)) a r ty pr}"
  using evaluateMessagePolicies_cases [of E f a r ty pr s] by (auto simp: policy_denies_def list_ex_iff)

text \<open>
  C36: what the gate admits.  A message passes exactly when its sender is neither quarantined nor paused, has
  sent less than the limit in the current window, no policy denies the message, and no extension's hook
  throws on it.
\<close>

theorem gate_admits_exactly:
  "fst (evaluateMessageGate E exts (a, f, st) r ty pr body meta s) = Allowed \<longleftrightarrow>
     st \<noteq> ''quarantined'' \<and> st \<noteq> ''paused''
     \<and> count_at (rate_limit_counters s) a (windowStart E) < rateLimitMaxMessages (cfg E)
     \<and> \<not> list_ex (\<lambda>p. in_scope f a r p \<and> denies p \<and> matchesPolicyConditions (rule_conditions (po_rule p)) a r ty pr) (policies s)
     \<and> list_all (\<lambda>(name, hook). hook = None \<or> the hook \<lparr> hk_fleetId = f, hk_senderAgentId = a, hk_recipientId = r, hk_messageType = ty,
          hk_priority = pr, hk_body = body, hk_metadata = meta \<rparr> = None) exts"
proof (cases "st = ''quarantined'' \<or> st = ''paused''
    \<or> \<not> count_at (rate_limit_counters s) a (windowStart E) < rateLimitMaxMessages (cfg E)")
  case True
  then show ?thesis
    using rate_limit_refused [of s a E f] by (auto simp: evaluateMessageGate_def split: prod.splits option.splits)
next
  case False
  let ?t = "s\<lparr> rate_limit_counters := bump_counter a (windowStart E) (open_counter a (windowStart E) (rate_limit_counters s)) \<rparr>"
  let ?i = "\<lparr> hk_fleetId = f, hk_senderAgentId = a, hk_recipientId = r, hk_messageType = ty, hk_priority = pr, hk_body = body, hk_metadata = meta \<rparr>"
  from False obtain n l where c: "checkAndIncrementRateLimit E a f s = (Some (True, n, l), ?t)"
    using rate_limit_granted by blast
  have g: "fst (evaluateMessageGate E exts (a, f, st) r ty pr body meta s) =
      (case fst (evaluateMessagePolicies E f a r ty pr ?t) of Some name \<Rightarrow> Denied (Policy name) | None \<Rightarrow> run_extensions ?i exts)"
    using False by (simp add: evaluateMessageGate_def c split: prod.split option.split)
  have p: "policy_denies ?t = policy_denies s" by (simp add: policy_denies_def fun_eq_iff)
  have x: "list_all (\<lambda>(name, hook). hook = None \<or> the hook ?i = None) exts \<longleftrightarrow> run_extensions ?i exts = Allowed"
    by (simp only: run_extensions_Allowed)
  have "fst (evaluateMessagePolicies E f a r ty pr ?t) = None \<longleftrightarrow>
     \<not> list_ex (\<lambda>p. in_scope f a r p \<and> denies p \<and> matchesPolicyConditions (rule_conditions (po_rule p)) a r ty pr) (policies s)"
    using evaluateMessagePolicies_cases [of E f a r ty pr ?t] unfolding p by (auto simp: policy_denies_def list_ex_iff)
  with False show ?thesis unfolding g x by (auto split: option.splits)
qed

section \<open>The route\<close>

lemma createMessage_counters:
  assumes "createMessage E i s = Inr (res, t)"
  shows "rate_limit_counters t = rate_limit_counters s \<and> replay_nonces t = replay_nonces s"
  using assms
  by (auto simp: createMessage_def bind_attachments_def insert_message_def Let_def split: if_splits sum.splits)

text \<open>The gate touches the counters only through the rate limit.\<close>

lemma gate_counters:
  assumes "evaluateMessageGate E exts (a, f, st) r ty pr body meta s = (v, t)"
  shows "rate_limit_counters t = rate_limit_counters s \<or> rate_limit_counters t = rate_limit_counters (snd (message_check (E, f) a s))"
    and "v = Allowed \<Longrightarrow> fst (message_check (E, f) a s) \<and> rate_limit_counters t = rate_limit_counters (snd (message_check (E, f) a s))"
proof -
  obtain rc s1 where c: "checkAndIncrementRateLimit E a f s = (rc, s1)" by fastforce
  have m: "message_check (E, f) a s = (case rc of None \<Rightarrow> False | Some x \<Rightarrow> fst x, s1)"
    by (simp add: message_check_def c split: option.split prod.split)
  obtain d s2 where p: "evaluateMessagePolicies E f a r ty pr s1 = (d, s2)" by fastforce
  note f = evaluateMessagePolicies_frame [OF p]
  show "rate_limit_counters t = rate_limit_counters s \<or> rate_limit_counters t = rate_limit_counters (snd (message_check (E, f) a s))"
    using assms f unfolding m by (auto simp: evaluateMessageGate_def c p split: if_splits option.splits)
  show "v = Allowed \<Longrightarrow> fst (message_check (E, f) a s) \<and> rate_limit_counters t = rate_limit_counters (snd (message_check (E, f) a s))"
    using assms f unfolding m by (auto simp: evaluateMessageGate_def c p split: if_splits option.splits)
qed

definition sent :: "send_error + string \<times> int \<Rightarrow> bool" where
  "sent r = (case r of Inl _ \<Rightarrow> False | Inr _ \<Rightarrow> True)"

lemma sendMessage_gate:
  assumes "evaluateMessageGate E exts ag (sd_recipient_id i) (sd_message_type i) (sd_priority i) (sd_body i) (map_option JObj (sd_metadata i)) s = (v, s1)"
  shows "rate_limit_counters (snd (sendMessage E exts ag i s)) = rate_limit_counters s1 \<and> (sent (fst (sendMessage E exts ag i s)) \<longrightarrow> v = Allowed)"
proof (cases v)
  case Allowed
  let ?n = "case envelope_nonce i of None \<Rightarrow> (None, s1) | Some (Inl e) \<Rightarrow> (Some e, s1)
     | Some (Inr nonce) \<Rightarrow> let (fresh, s2) = claimEnvelopeNonce E (fst ag) nonce s1 in (if fresh then None else Some Envelope_replayed, s2)"
  obtain e s2 where n: "?n = (e, s2)" by fastforce
  have "rate_limit_counters s2 = rate_limit_counters s1"
    using n by (auto simp: claimEnvelopeNonce_def claimNonce_def Let_def split: option.splits sum.splits if_splits)
  moreover have "snd (sendMessage E exts ag i s) = s2 \<or> (\<exists>res. createMessage E (msg_input_of ag i) s2 = Inr (res, snd (sendMessage E exts ag i s)))"
    unfolding sendMessage_def assms Allowed prod.case verdict.case n by (auto split: option.split sum.split)
  ultimately show ?thesis using Allowed createMessage_counters by fastforce
qed (simp_all add: sendMessage_def assms sent_def)

text \<open>The route as a limiter of what an agent gets accepted.\<close>

definition send_check :: "env \<times> extension list \<times> string \<times> string \<times> send_input \<Rightarrow> string \<Rightarrow> store \<Rightarrow> bool \<times> store" where
  "send_check = (\<lambda>(E, exts, fleetId, status, i) agentId s.
     (sent (fst (sendMessage E exts (agentId, fleetId, status) i s)), snd (sendMessage E exts (agentId, fleetId, status) i s)))"

definition send_other :: "env \<times> extension list \<times> string \<times> string \<times> send_input \<Rightarrow> store \<Rightarrow> store \<Rightarrow> bool" where
  "send_other e s t \<longleftrightarrow> (\<exists>fleetId. limit_other upload_check (fst e, fleetId) s t)"

lemma send_check_counters:
  "rate_limit_counters (snd (send_check (E, x, f, st, i) a s)) \<in>
     {rate_limit_counters s, rate_limit_counters (snd (message_check (E, f) a s))}"
  "fst (send_check (E, x, f, st, i) a s) \<Longrightarrow> fst (message_check (E, f) a s)
     \<and> rate_limit_counters (snd (send_check (E, x, f, st, i) a s)) = rate_limit_counters (snd (message_check (E, f) a s))"
proof -
  obtain v s1 where g: "evaluateMessageGate E x (a, f, st) (sd_recipient_id i) (sd_message_type i) (sd_priority i) (sd_body i)
      (map_option JObj (sd_metadata i)) s = (v, s1)" by fastforce
  note c = gate_counters [OF g] sendMessage_gate [OF g]
  from c(1,3) show "rate_limit_counters (snd (send_check (E, x, f, st, i) a s)) \<in>
     {rate_limit_counters s, rate_limit_counters (snd (message_check (E, f) a s))}"
    by (simp add: send_check_def)
  from c(2,3) show "fst (send_check (E, x, f, st, i) a s) \<Longrightarrow> fst (message_check (E, f) a s)
     \<and> rate_limit_counters (snd (send_check (E, x, f, st, i) a s)) = rate_limit_counters (snd (message_check (E, f) a s))"
    by (simp add: send_check_def)
qed

lemma send_check_keeps:
  "counters_ok s \<Longrightarrow> counters_ok (snd (send_check e a s))"
  "count_at (rate_limit_counters s) k w \<le> count_at (rate_limit_counters (snd (send_check e a s))) k w"
proof -
  obtain E x f st i where e: "e = (E, x, f, st, i)" by (cases e)
  show "counters_ok s \<Longrightarrow> counters_ok (snd (send_check e a s))"
    using send_check_counters(1) [of E x f st i a s] check_keeps_ok(1) [of s "(E, f)" a] unfolding e counters_ok_def by fastforce
  show "count_at (rate_limit_counters s) k w \<le> count_at (rate_limit_counters (snd (send_check e a s))) k w"
    using send_check_counters(1) [of E x f st i a s] check_keeps_counts(1) [of s k w "(E, f)" a] unfolding e by fastforce
qed

lemma send_check_grant:
  assumes "fst (send_check e a s)"
  shows "count_at (rate_limit_counters s) a (windowStart (fst e)) < rateLimitMaxMessages (cfg (fst e))"
    and "count_at (rate_limit_counters s) a (windowStart (fst e)) + 1 \<le> count_at (rate_limit_counters (snd (send_check e a s))) a (windowStart (fst e))"
proof -
  obtain E x f st i where e: "e = (E, x, f, st, i)" by (cases e)
  note c = send_check_counters(2) [OF assms [unfolded e]]
  show l: "count_at (rate_limit_counters s) a (windowStart (fst e)) < rateLimitMaxMessages (cfg (fst e))"
    using c by (simp add: e message_check_counters)
  show "count_at (rate_limit_counters s) a (windowStart (fst e)) + 1 \<le> count_at (rate_limit_counters (snd (send_check e a s))) a (windowStart (fst e))"
    using c l by (simp add: e message_check_counters count_at_bump)
qed

interpretation sends_limit: window_limiter "\<lambda>e. cfg (fst e) = C \<and> 0 < rateLimitWindowSeconds C" "\<lambda>e. now (fst e)" "\<lambda>e. windowStart (fst e)"
  send_check send_other "\<lambda>s. count_at (rate_limit_counters s)" "rateLimitMaxMessages C" counters_ok for C
proof (unfold_locales, goal_cases)
  case (1 e e')
  then show ?case by (simp add: windowStart_mono)
next
  case (2 s k w)
  then show ?case by (rule count_at_nonneg)
next
  case (3 s e k)
  then show ?case by (rule send_check_keeps)
next
  case (4 e k s)
  then show ?case using send_check_grant(1) by blast
next
  case (5 e k s)
  then show ?case using send_check_grant(2) by blast
next
  case (6 s k' w e k)
  then show ?case by (rule send_check_keeps)
next
  case (7 e s t)
  then show ?case by (auto simp: send_other_def intro: limit_other_ok)
next
  case (8 e s t w k)
  then obtain f where "limit_other upload_check (fst e, f) s t" by (auto simp: send_other_def)
  then show ?case by (rule limit_other_keeps) (use 8 in auto)
qed

text \<open>
  No agent gets more than its allowance accepted.  In any run of sends, uploads, counter sweeps and steps
  that leave the counters alone, under a clock that does not go back, at most the configured number of messages of one agent is
  accepted in one window.
\<close>

theorem sends_bounded:
  assumes "limiter_run (\<lambda>e. cfg (fst e) = C \<and> 0 < rateLimitWindowSeconds C) (\<lambda>e. now (fst e)) (\<lambda>e. windowStart (fst e))
      send_check send_other s0 e s accepted" "counters_ok s0"
  shows "int (count_list accepted (agentId, w)) \<le> max 0 (rateLimitMaxMessages C)"
  by (rule sends_limit.granted_bounded [OF assms])

lemma requireAgentAuth_row:
  assumes "requireAgentAuth E d rq s = (Inr (i, f, st), s')"
  obtains a where "a \<in> set (agents s)" "ag_id a = i" "ag_status a = st"
proof (rule requireAgentAuth_accepts [OF assms])
  fix ag h
  assume a: "authenticateAgent s i = Some (ag, h)" and st: "st = ag_status ag"
  from a have "select_one (\<lambda>a. ag_id a = i \<and> is_null (ag_revoked_at a)) (agents s) = Some ag"
    by (auto simp: authenticateAgent_def split: option.splits)
  from select_one_Some [OF this] st show thesis by (intro that [of ag]) simp_all
qed

text \<open>
  C9: a paused agent is silent.  After an operator paused an agent, or it was quarantined for anything but
  silence, and whatever happens short of another control by an operator, every message of a request that
  authenticates as this agent is refused with its status.
\<close>

theorem paused_agent_silent:
  assumes "reach s auto_step t" "distinct (map ag_id (agents s))" "hold_of s i = Some (st, reason)"
    and "st = ''paused'' \<or> st = ''quarantined'' \<and> reason \<noteq> Some ''heartbeat_timeout''"
    and "requireAgentAuth E date_of rq t = (Inr (i, f, status), t1)"
  shows "fst (sendMessage E' exts (i, f, status) m t1) = Inl (Gate_denied (Sender_status st))"
proof -
  have o: "operator_hold (st, reason)" using assms(4) by (auto simp: operator_hold_def)
  have t: "distinct (map ag_id (agents t)) \<and> hold_of t i = Some (st, reason)"
    using assms(1) by induction (use assms(2,3) o auto_step_hold in blast)+
  from assms(5) obtain a where a: "a \<in> set (agents t)" "ag_id a = i" "ag_status a = status"
    by (rule requireAgentAuth_row)
  with t hold_of_row [of t a] have "status = st" by simp
  with assms(4) show ?thesis by (auto simp: sendMessage_def evaluateMessageGate_def)
qed

lemma checkRateLimitQuarantine_nonces:
  assumes "checkRateLimitQuarantine E i f s = Some t"
  shows "replay_nonces t = replay_nonces s"
proof -
  have "replay_nonces s1 = replay_nonces s" if "ensureSystemOperator E f s = Some (sid, s1)" for sid s1
    using that by (auto simp: ensureSystemOperator_def split: if_splits)
  with assms show ?thesis
    by (auto simp: checkRateLimitQuarantine_def quarantine_control_def Let_def split: if_splits option.splits)
qed

lemma gate_nonces:
  assumes "evaluateMessageGate E exts (a, f, st) r ty pr body meta s = (v, t)"
  shows "replay_nonces t = replay_nonces s"
proof -
  obtain rc s1 where c: "checkAndIncrementRateLimit E a f s = (rc, s1)" by fastforce
  then have s1: "replay_nonces s1 = replay_nonces s"
    by (auto simp: checkAndIncrementRateLimit_def Let_def split: if_splits option.splits dest: checkRateLimitQuarantine_nonces)
  obtain d s2 where p: "evaluateMessagePolicies E f a r ty pr s1 = (d, s2)" by fastforce
  show ?thesis
    using assms s1 evaluateMessagePolicies_frame [OF p]
    by (auto simp: evaluateMessageGate_def c p split: if_splits option.splits)
qed

lemma sendMessage_claims:
  assumes "sendMessage E exts (a, f, st) i s = (Inr res, t)" "envelope_nonce i = Some (Inr n)"
  shows "\<exists>s1 s2. replay_nonces s1 = replay_nonces s \<and> claimEnvelopeNonce E a n s1 = (True, s2) \<and> replay_nonces t = replay_nonces s2"
proof -
  obtain v s1 where g: "evaluateMessageGate E exts (a, f, st) (sd_recipient_id i) (sd_message_type i) (sd_priority i) (sd_body i)
      (map_option JObj (sd_metadata i)) s = (v, s1)" by fastforce
  obtain b s2 where c: "claimEnvelopeNonce E a n s1 = (b, s2)" by fastforce
  have m: "v = Allowed \<and> b \<and> createMessage E (msg_input_of (a, f, st) i) s2 = Inr (res, t)"
    using assms by (auto simp: sendMessage_def g c split: verdict.splits if_splits sum.splits)
  with gate_nonces [OF g] c createMessage_counters [of E "msg_input_of (a, f, st) i" s2 res t] show ?thesis
    by (intro exI [of _ s1] exI [of _ s2]) simp
qed

text \<open>An envelope nonce is remembered until its retention is over.\<close>

definition remembered :: "config \<Rightarrow> string \<Rightarrow> string \<Rightarrow> int \<Rightarrow> int \<times> store \<Rightarrow> bool" where
  "remembered G a n T st \<longleftrightarrow> T + envelopeNonceRetentionSeconds G * 1000 < fst st
     \<or> (\<exists>r\<in>set (replay_nonces (snd st)). nc_agent_id r = a \<and> nc_nonce r = ''env:'' @ n \<and> nc_created_at r = T)"

lemma like_env_prefix: "like_env (''env:'' @ n)"
  by (simp add: like_env_def) code_simp

lemma remembered_grow:
  "remembered G a n T (t, s) \<Longrightarrow> set (replay_nonces s) \<subseteq> set (replay_nonces s') \<Longrightarrow> remembered G a n T (t, s')"
  by (auto simp: remembered_def)

lemma remembered_step: "auth_step G d st st' \<Longrightarrow> remembered G a n T st \<Longrightarrow> remembered G a n T st'"
proof (induction rule: auth_step.induct)
  case (Tick t t' s)
  then show ?case by (auto simp: remembered_def)
next
  case (Request E t rq s r s')
  show ?case
    by (rule remembered_grow [OF Request(4)]) (use requireAgentAuth_nonces [OF Request(3)] in auto)
next
  case (Envelope E t a' n' s b s')
  show ?case
    by (rule remembered_grow [OF Envelope(4)])
      (use Envelope(3) in \<open>auto simp: claimEnvelopeNonce_def claimNonce_def Let_def split: if_splits\<close>)
next
  case (Sweep E t s k s')
  show ?case
  proof (cases "T + envelopeNonceRetentionSeconds G * 1000 < t")
    case True
    then show ?thesis by (simp add: remembered_def)
  next
    case False
    with Sweep(4) obtain r where r: "r \<in> set (replay_nonces s)" "nc_agent_id r = a" "nc_nonce r = ''env:'' @ n" "nc_created_at r = T"
      by (auto simp: remembered_def)
    with False Sweep(1-3) like_env_prefix [of n] have "r \<in> set (replay_nonces s')"
      by (auto simp: sweepStaleNonces_def Let_def)
    with r show ?thesis by (auto simp: remembered_def)
  qed
next
  case (Other s' s t)
  then show ?case by (simp add: remembered_def)
qed

lemma remembered_reach: "reach st (auth_step G d) st' \<Longrightarrow> remembered G a n T st \<Longrightarrow> remembered G a n T st'"
  by (induction rule: reach.induct) (auto intro: remembered_step)

text \<open>
  A signed envelope in the member \<^verbatim>\<open>sig_canonical\<close> is accepted once.  After a message with such an envelope that carries a nonce was accepted,
  whatever requests, claims and sweeps follow while the clock moves forward, no message of the same agent with an envelope of that nonce in
  that member is accepted again before the configured retention is over.
\<close>

theorem envelope_accepted_once:
  assumes "sendMessage E exts (a, f, st) i s = (Inr res, s1)" "envelope_nonce i = Some (Inr n)"
    and "reach (now E, s1) (auth_step (cfg E) d) (now E', s')"
    and "now E' \<le> now E + envelopeNonceRetentionSeconds (cfg E) * 1000" "envelope_nonce i' = Some (Inr n)"
  shows "\<not> sent (fst (sendMessage E' exts' (a, f', st') i' s'))"
proof
  assume "sent (fst (sendMessage E' exts' (a, f', st') i' s'))"
  then obtain res' t where a': "sendMessage E' exts' (a, f', st') i' s' = (Inr res', t)"
    by (metis (no_types, lifting) prod.collapse sent_def sum.case_eq_if sum.collapse(2))
  from sendMessage_claims [OF assms(1,2)] have "remembered (cfg E) a n (now E) (now E, s1)"
    using claimNonce_row by (fastforce simp: remembered_def claimEnvelopeNonce_def)
  from remembered_reach [OF assms(3) this] assms(4)
  have "select_exists (\<lambda>r. nc_agent_id r = a \<and> nc_nonce r = ''env:'' @ n) (replay_nonces s')"
    by (auto simp: remembered_def select_exists_iff)
  with sendMessage_claims [OF a' assms(5)] show False
    by (auto simp: claimEnvelopeNonce_def claimNonce_def Let_def select_exists_iff split: if_splits)
qed

text \<open>
  The same envelope under \<^verbatim>\<open>metadata\<close> is another matter: the route hands the same input to \<^verbatim>\<open>createMessage\<close> and sees no nonce to claim.
\<close>

lemma metadata_envelope_unclaimed:
  fixes i :: send_input
  defines "j \<equiv> i\<lparr> sd_metadata := Some (spread (case sd_metadata i of None \<Rightarrow> [] | Some ms \<Rightarrow> ms) (sigMeta i)),
     sd_agent_sig := None, sd_key_id := None, sd_sig_canonical := None \<rparr>"
  shows "msg_input_of agent j = msg_input_of agent i \<and> envelope_nonce j = None"
  by (cases agent) (simp add: j_def msg_input_of_def envelope_nonce_def sigMeta_def spread_def Let_def)

section \<open>Witnesses\<close>

definition sample_send :: send_input where
  "sample_send = \<lparr> sd_recipient_kind = ''agent'', sd_recipient_id = Some (op_agent_id ''flt''), sd_message_type = ''direct'', sd_priority = ''normal'',
     sd_ttl_seconds = 60, sd_requires_approval = False, sd_body = JObj [(''text'', JStr ''hi'')], sd_metadata = None,
     sd_conversation_id = ''conv'', sd_correlation_id = ''cor'', sd_agent_sig = Some ''sig'', sd_key_id = Some ''key'',
     sd_sig_canonical = Some [(''nonce'', JNum 7)] \<rparr>"

abbreviation sample_send_at :: "int \<Rightarrow> env \<times> extension list \<times> string \<times> string \<times> send_input" where
  "sample_send_at t \<equiv> (sample_env t, [], ''flt'', ''healthy'', sample_send)"

lemma sample_sent: "fst (send_check (sample_send_at 5) sample_agent sample_mailed)"
  by code_simp

lemma sends_bounded_witness:
  "int (count_list [(sample_agent, windowStart (sample_env 5))] (sample_agent, windowStart (sample_env 5))) \<le> max 0 (rateLimitMaxMessages default_config)"
proof (rule sends_bounded)
  let ?A = "\<lambda>e. cfg (fst e) = default_config \<and> 0 < rateLimitWindowSeconds default_config"
  have start: "limiter_run ?A (\<lambda>e. now (fst e)) (\<lambda>e. windowStart (fst e)) send_check send_other sample_mailed (sample_send_at 5) sample_mailed []"
    by (rule Run_start) (simp add: default_config_def)
  show "limiter_run ?A (\<lambda>e. now (fst e)) (\<lambda>e. windowStart (fst e)) send_check send_other sample_mailed (sample_send_at 5)
      (snd (send_check (sample_send_at 5) sample_agent sample_mailed)) [(sample_agent, windowStart (sample_env 5))]"
    using Run_check [OF start, of "sample_send_at 5" sample_agent] sample_sent by (simp add: default_config_def)
  show "counters_ok sample_mailed" by code_simp
qed

lemma paused_agent_silent_witness:
  "fst (sendMessage (sample_env 6) [] (sample_agent, ''flt'', ''paused'') sample_send
      (snd (requireAgentAuth (sample_env 6) (\<lambda>_. Some 0) sample_request sample_paused))) = Inl (Gate_denied (Sender_status ''paused''))"
proof (rule paused_agent_silent [OF reach_start])
  show "distinct (map ag_id (agents sample_paused))" by code_simp
  show "hold_of sample_paused sample_agent = Some (''paused'', None)" by code_simp
  have "fst (requireAgentAuth (sample_env 6) (\<lambda>_. Some 0) sample_request sample_paused) = Inr (sample_agent, ''flt'', ''paused'')"
    by code_simp
  then show "requireAgentAuth (sample_env 6) (\<lambda>_. Some 0) sample_request sample_paused =
      (Inr (sample_agent, ''flt'', ''paused''), snd (requireAgentAuth (sample_env 6) (\<lambda>_. Some 0) sample_request sample_paused))"
    by (simp add: prod_eq_iff)
qed simp

lemma envelope_accepted_once_witness:
  "\<not> sent (fst (sendMessage (sample_env 9) [] (sample_agent, ''flt'', ''healthy'') sample_send
      (snd (sendMessage (sample_env 5) [] (sample_agent, ''flt'', ''healthy'') sample_send sample_mailed))))"
proof -
  let ?r = "sendMessage (sample_env 5) [] (sample_agent, ''flt'', ''healthy'') sample_send sample_mailed"
  have "sent (fst ?r)" using sample_sent by (simp add: send_check_def)
  then obtain res where r: "?r = (Inr res, snd ?r)" by (cases "fst ?r") (auto simp: sent_def prod_eq_iff)
  have n: "envelope_nonce sample_send = Some (Inr ''7'')" by code_simp
  have "reach (now (sample_env 5), snd ?r) (auth_step (cfg (sample_env 5)) (\<lambda>_. None)) (now (sample_env 9), snd ?r)"
    by (rule reach_step [OF reach_start]) (rule Tick, simp)
  from envelope_accepted_once [OF r n this _ n] show ?thesis by (simp add: default_config_def)
qed

end
