(* ===== verification/Retention.thy ===== *)
theory Retention
  imports Gate
begin

text \<open>
  The histories of the relay and their retention: the batched sweeps of the event log and of the heartbeats
  (\<^verbatim>\<open>sweepEventRetention\<close>, \<^verbatim>\<open>sweepHeartbeatRetention\<close>), and the stall notices read back from the log
  (\<^verbatim>\<open>recordConversationStall\<close>).
\<close>

section \<open>Batched deletes\<close>

text \<open>\<^verbatim>\<open>DELETE ... WHERE rowid IN (SELECT rowid ... WHERE p LIMIT n)\<close>: the first \<open>n\<close> matching rows.\<close>

fun delete_first :: "nat \<Rightarrow> ('r \<Rightarrow> bool) \<Rightarrow> 'r list \<Rightarrow> 'r list" where
  "delete_first n p [] = []"
| "delete_first n p (r # rows) =
     (if p r then (case n of 0 \<Rightarrow> r # rows | Suc m \<Rightarrow> delete_first m p rows) else r # delete_first n p rows)"

definition RETENTION_BATCH_SIZE :: nat where
  "RETENTION_BATCH_SIZE = 5000"

definition RETENTION_MAX_BATCHES_PER_TICK :: nat where
  "RETENTION_MAX_BATCHES_PER_TICK = 10"

text \<open>
  The loop over at most \<open>k\<close> batches of \<open>batch\<close> rows, which stops after a batch that was not full.  The candidates of
  each batch are those of the table the batch finds.
\<close>

fun sweep_batches :: "nat \<Rightarrow> nat \<Rightarrow> ('r list \<Rightarrow> 'r \<Rightarrow> bool) \<Rightarrow> 'r list \<Rightarrow> nat \<times> 'r list" where
  "sweep_batches 0 batch cand rows = (0, rows)"
| "sweep_batches (Suc k) batch cand rows =
     (let rows' = delete_first batch (cand rows) rows; n = length rows - length rows' in
      if n < batch then (n, rows')
      else let (deleted, rest) = sweep_batches k batch cand rows' in (n + deleted, rest))"

section \<open>Sweeps\<close>

definition PRUNABLE_EVENT_TYPES :: "string list" where
  "PRUNABLE_EVENT_TYPES =
     [''agent.heartbeat'', ''message.queued'', ''message.acked'', ''message.policy_denied'', ''agent.rate_limit_exceeded'',
      ''attachment.rate_limit_exceeded'', ''feed.delivered'', ''conversation.resumed'', ''conversation.stalled'',
      ''room.project_mode_changed'']"

definition prunable :: "int \<Rightarrow> event_row list \<Rightarrow> event_row \<Rightarrow> bool" where
  "prunable cutoff es e \<longleftrightarrow> ev_event_type e \<in> set PRUNABLE_EVENT_TYPES \<and> ev_created_at e < cutoff"

definition sweepEventRetention :: "env \<Rightarrow> store \<Rightarrow> nat \<times> store" where
  "sweepEventRetention E s =
     (let (deleted, es) = sweep_batches RETENTION_MAX_BATCHES_PER_TICK RETENTION_BATCH_SIZE
                            (prunable (now E - eventRetentionSeconds (cfg E) * 1000)) (events s)
      in (deleted, s\<lparr> events := es \<rparr>))"

text \<open>\<^verbatim>\<open>ORDER BY received_at DESC, rowid DESC LIMIT 1\<close> among the rows of an agent.\<close>

definition newest_heartbeat :: "heartbeat_row list \<Rightarrow> string \<Rightarrow> heartbeat_row option" where
  "newest_heartbeat hs agentId = head_option (rev (order_asc hb_received_at (select_all (\<lambda>h. hb_agent_id h = agentId) hs)))"

definition stale_heartbeat :: "int \<Rightarrow> heartbeat_row list \<Rightarrow> heartbeat_row \<Rightarrow> bool" where
  "stale_heartbeat cutoff hs h \<longleftrightarrow>
     hb_received_at h < cutoff
     \<and> (case newest_heartbeat hs (hb_agent_id h) of None \<Rightarrow> False | Some h2 \<Rightarrow> hb_id h \<noteq> hb_id h2)"

definition sweepHeartbeatRetention :: "env \<Rightarrow> store \<Rightarrow> nat \<times> store" where
  "sweepHeartbeatRetention E s =
     (let (deleted, hs) = sweep_batches RETENTION_MAX_BATCHES_PER_TICK RETENTION_BATCH_SIZE
                            (stale_heartbeat (now E - heartbeatRetentionSeconds (cfg E) * 1000)) (heartbeats s)
      in (deleted, s\<lparr> heartbeats := hs \<rparr>))"

section \<open>Stall notices\<close>

text \<open>\<^verbatim>\<open>SELECT MAX(created_at) ... WHERE actor_kind = 'operator'\<close>; the text of an instant is never empty.\<close>

definition last_operator_event :: "string \<Rightarrow> string \<Rightarrow> store \<Rightarrow> int option" where
  "last_operator_event fleetId conversationId s =
     (case select_all (\<lambda>e. ev_fleet_id e = fleetId \<and> ev_conversation_id e = Some conversationId \<and> ev_actor_kind e = ''operator'') (events s) of
        [] \<Rightarrow> None
      | e # es \<Rightarrow> Some (fold max (map ev_created_at es) (ev_created_at e)))"

definition open_stall :: "string \<Rightarrow> string \<Rightarrow> string \<Rightarrow> int option \<Rightarrow> event_row \<Rightarrow> bool" where
  "open_stall fleetId agentId conversationId boundary e \<longleftrightarrow>
     ev_fleet_id e = fleetId \<and> ev_conversation_id e = Some conversationId \<and> ev_event_type e = ''conversation.stalled''
     \<and> ev_actor_id e = Some agentId \<and> (case boundary of None \<Rightarrow> True | Some b \<Rightarrow> ev_created_at e > b)"

definition recordConversationStall ::
  "env \<Rightarrow> string \<Rightarrow> string \<Rightarrow> string \<Rightarrow> string \<Rightarrow> int \<Rightarrow> int option \<Rightarrow> store \<Rightarrow> bool \<times> store" where
  "recordConversationStall E fleetId agentId conversationId reason pending_count budget s =
     (let boundary = last_operator_event fleetId conversationId s in
      if select_exists (open_stall fleetId agentId conversationId boundary) (events s) then (False, s)
      else (True,
        recordEvent E fleetId ''conversation.stalled'' ''agent'' (Some agentId) ''conversation'' (Some conversationId) (Some conversationId)
          (JObj [(''conversation_id'', JStr conversationId), (''reason'', JStr reason), (''pending_count'', JNum pending_count),
                 (''budget'', case budget of None \<Rightarrow> JNull | Some n \<Rightarrow> JNum n)]) s))"

section \<open>What a batched sweep deletes\<close>

lemma delete_first_0 [simp]: "delete_first 0 p rows = rows"
  by (induction rows) auto

lemma delete_first_cong: "(\<And>r. r \<in> set rows \<Longrightarrow> p r = q r) \<Longrightarrow> delete_first n p rows = delete_first n q rows"
  by (induction rows arbitrary: n) (auto split: nat.split)

lemma delete_first_add: "delete_first m p (delete_first n p rows) = delete_first (n + m) p rows"
  by (induction rows arbitrary: n) (auto split: nat.split)

lemma delete_first_subset: "set (delete_first n p rows) \<subseteq> set rows"
  by (induction rows arbitrary: n) (auto split: nat.splits)

lemma filter_delete_first: "filter (\<lambda>r. \<not> p r) (delete_first n p rows) = filter (\<lambda>r. \<not> p r) rows"
  by (induction rows arbitrary: n) (auto split: nat.splits)

lemma delete_first_all: "length (filter p rows) \<le> n \<Longrightarrow> delete_first n p rows = filter (\<lambda>r. \<not> p r) rows"
  by (induction rows arbitrary: n) (auto split: nat.splits simp: filter_empty_conv intro: filter_True [symmetric])

lemma length_delete_first: "length (delete_first n p rows) + min n (length (filter p rows)) = length rows"
  by (induction rows arbitrary: n) (auto split: nat.splits)

lemma filter_filter_delete: "length (filter p (delete_first n p rows)) = length (filter p rows) - n"
  by (induction rows arbitrary: n) (auto split: nat.splits)

lemma delete_first_kept: "r \<in> set rows \<Longrightarrow> \<not> p r \<Longrightarrow> r \<in> set (delete_first n p rows)"
  by (induction rows arbitrary: n) (auto split: nat.splits)

lemma delete_first_filter: "distinct rows \<Longrightarrow> delete_first n p rows = filter (\<lambda>r. r \<in> set (delete_first n p rows)) rows"
proof (induction rows arbitrary: n)
  case Nil
  then show ?case by simp
next
  case (Cons r rows)
  have r: "r \<notin> set (delete_first m p rows)" for m using Cons.prems delete_first_subset [of m p rows] by auto
  have "filter (\<lambda>x. x = r \<or> x \<in> set (delete_first m p rows)) rows = delete_first m p rows" for m
  proof -
    have "filter (\<lambda>x. x = r \<or> x \<in> set (delete_first m p rows)) rows = filter (\<lambda>x. x \<in> set (delete_first m p rows)) rows"
      using Cons.prems by (intro filter_cong) auto
    with Cons show ?thesis by simp
  qed
  with Cons r show ?case by (auto split: nat.split intro: filter_True [symmetric])
qed

text \<open>
  A table under retention: which of its rows are candidates does not depend on other candidates that were
  deleted before.  Then the loop is one delete of the first \<open>k\<close> times \<open>batch\<close> candidates, early exit included.
\<close>

locale retention =
  fixes cand :: "'r list \<Rightarrow> 'r \<Rightarrow> bool" and ok :: "'r list \<Rightarrow> bool"
  assumes cand_kept: "ok rows \<Longrightarrow> r \<in> set (delete_first n (cand rows) rows)
      \<Longrightarrow> cand (delete_first n (cand rows) rows) r \<longleftrightarrow> cand rows r"
    and ok_kept: "ok rows \<Longrightarrow> ok (delete_first n (cand rows) rows)"
begin

lemma sweep_batches_eq:
  "ok rows \<Longrightarrow> sweep_batches k batch cand rows =
     (min (k * batch) (length (filter (cand rows) rows)), delete_first (k * batch) (cand rows) rows)"
proof (induction k arbitrary: rows)
  case 0
  then show ?case by simp
next
  case (Suc k)
  let ?p = "cand rows" and ?rows = "delete_first batch (cand rows) rows"
  have n: "length rows - length ?rows = min batch (length (filter ?p rows))"
    using length_delete_first [of batch ?p rows] by linarith
  show ?case
  proof (cases "length (filter ?p rows) < batch")
    case True
    then have "delete_first batch ?p rows = delete_first (Suc k * batch) ?p rows" by (simp add: delete_first_all)
    with True n show ?thesis by simp
  next
    case False
    have c: "cand ?rows r = ?p r" if "r \<in> set ?rows" for r using cand_kept [OF Suc.prems that] .
    have d: "delete_first m (cand ?rows) ?rows = delete_first (batch + m) ?p rows" for m
      using delete_first_cong [of ?rows "cand ?rows" ?p m] c by (simp add: delete_first_add)
    have l: "length (filter (cand ?rows) ?rows) = length (filter ?p rows) - batch"
      using filter_cong [of ?rows ?rows "cand ?rows" ?p] c by (simp add: filter_filter_delete)
    show ?thesis using False n Suc.IH [OF ok_kept [OF Suc.prems]] by (simp add: d l Let_def min_def) arith
  qed
qed

end

interpretation event_log: retention "prunable cutoff" "\<lambda>_. True" for cutoff
  by unfold_locales (simp_all add: prunable_def)

lemma newest_heartbeat_filter:
  assumes "newest_heartbeat hs a = Some h" "P h"
  shows "newest_heartbeat (filter P hs) a = Some h"
proof -
  let ?o = "order_asc hb_received_at (select_all (\<lambda>h. hb_agent_id h = a) hs)"
  have "order_asc hb_received_at (select_all (\<lambda>h. hb_agent_id h = a) (filter P hs)) = filter P ?o"
    by (simp add: sql filter_sort filter_filter conj_commute)
  moreover have "head_option (filter P (rev ?o)) = Some h"
    using assms by (cases "rev ?o") (auto simp: newest_heartbeat_def head_option_def)
  ultimately show ?thesis by (simp add: newest_heartbeat_def rev_filter)
qed

lemma newest_heartbeat_in: "newest_heartbeat hs a = Some h \<Longrightarrow> h \<in> set hs \<and> hb_agent_id h = a"
  by (auto simp: newest_heartbeat_def sql dest!: head_option_Some)

lemma newest_heartbeat_exists: "h \<in> set hs \<Longrightarrow> \<exists>h2. newest_heartbeat hs (hb_agent_id h) = Some h2"
proof -
  assume "h \<in> set hs"
  then have "h \<in> set (order_asc hb_received_at (select_all (\<lambda>x. hb_agent_id x = hb_agent_id h) hs))" by (simp add: sql)
  then have "order_asc hb_received_at (select_all (\<lambda>x. hb_agent_id x = hb_agent_id h) hs) \<noteq> []" by (metis empty_iff empty_set)
  then show ?thesis by (auto simp: newest_heartbeat_def head_option_def split: list.split)
qed

lemma newest_heartbeat_kept:
  assumes "distinct (map hb_id hs)"
  shows "newest_heartbeat (delete_first n (stale_heartbeat c hs) hs) a = newest_heartbeat hs a"
proof (cases "newest_heartbeat hs a")
  case None
  then have "\<forall>h\<in>set hs. hb_agent_id h \<noteq> a" using newest_heartbeat_exists by fastforce
  then have "\<forall>h\<in>set (delete_first n (stale_heartbeat c hs) hs). hb_agent_id h \<noteq> a" using delete_first_subset by fastforce
  with None show ?thesis using newest_heartbeat_in by (metis not_Some_eq)
next
  case (Some h)
  have d: "distinct hs" using assms by (simp add: distinct_map)
  have "\<not> stale_heartbeat c hs h" using Some newest_heartbeat_in [OF Some] by (simp add: stale_heartbeat_def)
  with newest_heartbeat_in [OF Some] have "h \<in> set (delete_first n (stale_heartbeat c hs) hs)" by (simp add: delete_first_kept)
  then show ?thesis
    using newest_heartbeat_filter [OF Some, of "\<lambda>r. r \<in> set (delete_first n (stale_heartbeat c hs) hs)"] Some
    by (subst delete_first_filter [OF d]) simp
qed

interpretation heartbeat_history: retention "stale_heartbeat cutoff" "\<lambda>hs. distinct (map hb_id hs)" for cutoff
proof
  fix rows :: "heartbeat_row list" and r n
  assume d: "distinct (map hb_id rows)"
  show "stale_heartbeat cutoff (delete_first n (stale_heartbeat cutoff rows) rows) r \<longleftrightarrow> stale_heartbeat cutoff rows r"
    unfolding stale_heartbeat_def [of cutoff _ r] newest_heartbeat_kept [OF d] ..
  have "distinct rows" using d by (simp add: distinct_map)
  from delete_first_filter [OF this] d show "distinct (map hb_id (delete_first n (stale_heartbeat cutoff rows) rows))"
    by (metis distinct_map_filter)
qed

definition RETENTION_MAX_ROWS_PER_TICK :: nat where
  "RETENTION_MAX_ROWS_PER_TICK = RETENTION_BATCH_SIZE * RETENTION_MAX_BATCHES_PER_TICK"

lemma tick_rows: "RETENTION_MAX_BATCHES_PER_TICK * RETENTION_BATCH_SIZE = RETENTION_MAX_ROWS_PER_TICK"
  by (simp add: RETENTION_MAX_ROWS_PER_TICK_def)

lemma event_sweep_eq:
  "sweepEventRetention E s =
     (min RETENTION_MAX_ROWS_PER_TICK (length (filter (prunable (now E - eventRetentionSeconds (cfg E) * 1000) []) (events s))),
      s\<lparr> events := delete_first RETENTION_MAX_ROWS_PER_TICK (prunable (now E - eventRetentionSeconds (cfg E) * 1000) []) (events s) \<rparr>)"
proof -
  have "prunable c (events s) = prunable c []" for c by (simp add: prunable_def fun_eq_iff)
  then show ?thesis
    by (simp add: sweepEventRetention_def event_log.sweep_batches_eq tick_rows)
qed

lemma heartbeat_sweep_eq:
  assumes "distinct (map hb_id (heartbeats s))"
  shows "sweepHeartbeatRetention E s =
     (min RETENTION_MAX_ROWS_PER_TICK (length (filter (stale_heartbeat (now E - heartbeatRetentionSeconds (cfg E) * 1000) (heartbeats s)) (heartbeats s))),
      s\<lparr> heartbeats := delete_first RETENTION_MAX_ROWS_PER_TICK
             (stale_heartbeat (now E - heartbeatRetentionSeconds (cfg E) * 1000) (heartbeats s)) (heartbeats s) \<rparr>)"
  using assms by (simp add: sweepHeartbeatRetention_def heartbeat_history.sweep_batches_eq tick_rows)

lemma delete_first_left:
  assumes "r \<in> set rows" "r \<notin> set (delete_first n p rows)"
  shows "p r"
  using assms delete_first_kept [of r rows p n] by blast

text \<open>
  Retention never touches the audit trail.  A sweep of the event log keeps every event whose type is
  not listed as prunable, and every recent one, in their order, whatever the retention is set to; it deletes
  at most fifty thousand rows, reports how many, and stops short of that only when no prunable event past
  the retention is left.
\<close>

theorem event_sweep_keeps_audit:
  "let old = (\<lambda>e :: event_row. ev_event_type e \<in> set PRUNABLE_EVENT_TYPES \<and> ev_created_at e < now E - eventRetentionSeconds (cfg E) * 1000);
       (n, t) = sweepEventRetention E s
   in filter (\<lambda>e. \<not> old e) (events t) = filter (\<lambda>e. \<not> old e) (events s)
      \<and> length (events t) + n = length (events s) \<and> n \<le> 50000 \<and> (n = 50000 \<or> filter old (events t) = [])"
proof -
  define old where "old = (\<lambda>e :: event_row. ev_event_type e \<in> set PRUNABLE_EVENT_TYPES \<and> ev_created_at e < now E - eventRetentionSeconds (cfg E) * 1000)"
  have o: "prunable (now E - eventRetentionSeconds (cfg E) * 1000) [] = old" by (simp add: old_def prunable_def fun_eq_iff)
  have "filter old (delete_first n old rows) = []" if "length (filter old rows) < n" for n rows
    using that by (simp add: delete_first_all)
  moreover have "RETENTION_MAX_ROWS_PER_TICK = 50000"
    by (simp add: RETENTION_MAX_ROWS_PER_TICK_def RETENTION_BATCH_SIZE_def RETENTION_MAX_BATCHES_PER_TICK_def)
  ultimately have "case sweepEventRetention E s of (n, t) \<Rightarrow> filter (\<lambda>e. \<not> old e) (events t) = filter (\<lambda>e. \<not> old e) (events s)
      \<and> length (events t) + n = length (events s) \<and> n \<le> 50000 \<and> (n = 50000 \<or> filter old (events t) = [])"
    using length_delete_first [of RETENTION_MAX_ROWS_PER_TICK old "events s"]
    by (auto simp: event_sweep_eq o filter_delete_first min_def)
  then show ?thesis unfolding old_def Let_def .
qed

text \<open>
  Heartbeat retention forgets no agent.  A sweep of the heartbeats leaves every agent its newest
  heartbeat however old it is, deletes only heartbeats past the retention, and never more than fifty thousand rows.
\<close>

theorem heartbeat_sweep_keeps_newest:
  assumes "distinct (map hb_id (heartbeats s))" "sweepHeartbeatRetention E s = (n, t)"
  shows "newest_heartbeat (heartbeats t) a = newest_heartbeat (heartbeats s) a
    \<and> (\<forall>h\<in>set (heartbeats s). h \<notin> set (heartbeats t) \<longrightarrow> hb_received_at h < now E - heartbeatRetentionSeconds (cfg E) * 1000)
    \<and> length (heartbeats t) + n = length (heartbeats s) \<and> n \<le> 50000"
proof -
  let ?p = "stale_heartbeat (now E - heartbeatRetentionSeconds (cfg E) * 1000) (heartbeats s)"
  let ?hs = "delete_first RETENTION_MAX_ROWS_PER_TICK ?p (heartbeats s)"
  have t: "heartbeats t = ?hs" and n: "n = min RETENTION_MAX_ROWS_PER_TICK (length (filter ?p (heartbeats s)))"
    using assms(2) by (auto simp: heartbeat_sweep_eq [OF assms(1)])
  have "?p h" if "h \<in> set (heartbeats s)" "h \<notin> set ?hs" for h by (rule delete_first_left [OF that])
  moreover have "RETENTION_MAX_ROWS_PER_TICK = 50000"
    by (simp add: RETENTION_MAX_ROWS_PER_TICK_def RETENTION_BATCH_SIZE_def RETENTION_MAX_BATCHES_PER_TICK_def)
  ultimately show ?thesis
    using length_delete_first [of RETENTION_MAX_ROWS_PER_TICK ?p "heartbeats s"]
    by (simp add: t n newest_heartbeat_kept [OF assms(1)] stale_heartbeat_def)
qed

text \<open>A stall is noted once: until an operator engages again a second notice of the same agent records nothing.\<close>

lemma stall_noted_once:
  assumes "recordConversationStall E f a c reason k b s = (True, t)" "last_operator_event f c s = None \<or> the (last_operator_event f c s) < now E"
    and "set (events t) \<subseteq> set (events u)" "last_operator_event f c u = last_operator_event f c s"
  shows "recordConversationStall E' f a c reason' k' b' u = (False, u)"
proof -
  have "\<exists>e\<in>set (events t). open_stall f a c (last_operator_event f c s) e"
    using assms(1,2) by (auto simp: recordConversationStall_def recordEvent_def open_stall_def Let_def split: if_splits option.splits)
  then have "select_exists (open_stall f a c (last_operator_event f c u)) (events u)"
    using assms(3,4) by (auto simp: select_exists_iff)
  then show ?thesis by (simp add: recordConversationStall_def)
qed

text \<open>A project mode is an operator's decision, and yet its event is one of the prunable types.\<close>

lemma operator_decision_prunable:
  assumes "setRoomProjectMode E f r op en b s = (Some res, t)"
  shows "\<exists>e. events t = events s @ [e] \<and> ev_actor_kind e = ''operator'' \<and> ev_event_type e \<in> set PRUNABLE_EVENT_TYPES"
  using assms by (auto simp: setRoomProjectMode_def recordEvent_def PRUNABLE_EVENT_TYPES_def Let_def split: if_splits option.splits)

section \<open>Witness\<close>

definition sample_beats :: store where
  "sample_beats = insertHeartbeat (sample_env 2000) sample_agent ''idle'' (JObj []) sample_beaten"

lemma heartbeat_sweep_keeps_newest_witness:
  "newest_heartbeat (heartbeats (snd (sweepHeartbeatRetention (sample_env 200000000) sample_beats))) sample_agent = newest_heartbeat (heartbeats sample_beats) sample_agent"
proof -
  have "distinct (map hb_id (heartbeats sample_beats))" by code_simp
  from heartbeat_sweep_keeps_newest [OF this prod.collapse [symmetric]] show ?thesis by blast
qed

end
