(* ===== verification/Attachments.thy ===== *)
theory Attachments
  imports Retention "HOL-Library.Word"
begin

text \<open>
  File attachments: the checks of \<^verbatim>\<open>attachments.ts\<close>, the two upload routes (\<^verbatim>\<open>POST /v1/attachments\<close>,
  \<^verbatim>\<open>POST /v1/operator/attachments\<close>), and the operations of \<^verbatim>\<open>db.ts\<close> that keep rows and bytes
  (\<^verbatim>\<open>createAttachment\<close>, \<^verbatim>\<open>getFleetAttachmentBytes\<close>, \<^verbatim>\<open>sweepAttachments\<close>, \<^verbatim>\<open>getAttachment\<close>).  The disk is a map from paths to
  bytes beside the database; Node's base64 codec is an argument.
\<close>

section \<open>Checks\<close>

type_synonym bytes = "8 word list"
type_synonym disk = "string \<Rightarrow> bytes option"

definition ATTACHMENT_MIME_ALLOWLIST :: "(string \<times> bool) list" where
  "ATTACHMENT_MIME_ALLOWLIST =
     [(''image/png'', True), (''image/jpeg'', True), (''image/gif'', True), (''image/webp'', True), (''application/pdf'', False),
      (''text/plain'', False), (''text/markdown'', False), (''text/csv'', False), (''application/json'', False)]"

definition isAllowedMime :: "string \<Rightarrow> bool" where
  "isAllowedMime mime \<longleftrightarrow> mime \<in> fst ` set ATTACHMENT_MIME_ALLOWLIST"

definition isImageMime :: "string \<Rightarrow> bool" where
  "isImageMime mime \<longleftrightarrow> map_of ATTACHMENT_MIME_ALLOWLIST mime = Some True"

text \<open>\<^verbatim>\<open>path.basename\<close> on a POSIX system.\<close>

definition path_basename :: "string \<Rightarrow> string" where
  "path_basename v = rev (takeWhile (\<lambda>c. c \<noteq> CHR ''/'') (dropWhile (\<lambda>c. c = CHR ''/'') (rev v)))"

text \<open>\<^verbatim>\<open>.replace(/\s+/g, " ")\<close>.\<close>

function collapse_spaces :: "string \<Rightarrow> string" where
  "collapse_spaces [] = []"
| "collapse_spaces (c # cs) =
     (if is_space c then CHR '' '' # collapse_spaces (dropWhile is_space cs) else c # collapse_spaces cs)"
  by pat_completeness auto
termination
  by (relation "measure length") (auto simp: less_Suc_eq_le length_dropWhile_le)

definition is_control :: "char \<Rightarrow> bool" where
  "is_control c \<longleftrightarrow> of_char c < (32 :: nat) \<or> of_char c = (127 :: nat)"

definition sanitizeFilename :: "string \<Rightarrow> string" where
  "sanitizeFilename raw =
     (let base = path_basename raw;
          printable = filter (\<lambda>c. \<not> is_control c) base;
          flat = filter (\<lambda>c. c \<noteq> CHR ''/'' \<and> c \<noteq> CHR 0x5C) printable;
          undotted = dropWhile (\<lambda>c. c = CHR ''.'') flat;
          cleaned = take 200 (js_trim (collapse_spaces undotted))
      in if cleaned = [] then ''file'' else cleaned)"

text \<open>\<^verbatim>\<open>toString("ascii")\<close> drops the high bit of each byte.\<close>

definition ascii :: "bytes \<Rightarrow> string" where
  "ascii bs = map (\<lambda>b. char_of (unat (take_bit 7 b))) bs"

definition sniffImageMatches :: "string \<Rightarrow> bytes \<Rightarrow> bool" where
  "sniffImageMatches mime b =
     (if \<not> isImageMime mime then True
      else if mime = ''image/png'' then take 8 b = [0x89, 0x50, 0x4e, 0x47, 0x0d, 0x0a, 0x1a, 0x0a]
      else if mime = ''image/jpeg'' then take 3 b = [0xff, 0xd8, 0xff]
      else if mime = ''image/gif'' then ascii (take 6 b) \<in> {''GIF87a'', ''GIF89a''}
      else if mime = ''image/webp'' then length b \<ge> 12 \<and> ascii (take 4 b) = ''RIFF'' \<and> ascii (take 4 (drop 8 b)) = ''WEBP''
      else False)"

record codec =
  base64_decode :: "string \<Rightarrow> bytes"
  base64_encode :: "bytes \<Rightarrow> string"

definition decodeBase64Strict :: "codec \<Rightarrow> string \<Rightarrow> bytes option" where
  "decodeBase64Strict K dataBase64 =
     (if dataBase64 = [] then None
      else
        let buf = base64_decode K dataBase64; normalized = filter (\<lambda>c. \<not> is_space c) dataBase64 in
        if buf = [] \<or> \<bar>int (length (base64_encode K buf)) - int (length normalized)\<bar> > 4 then None else Some buf)"

section \<open>Rows and bytes\<close>

definition attachmentStoragePath :: "string \<Rightarrow> string \<Rightarrow> string \<Rightarrow> string" where
  "attachmentStoragePath dir fleetId attachmentId = dir @ ''/'' @ path_basename fleetId @ ''/'' @ path_basename attachmentId"

definition createAttachment ::
  "env \<Rightarrow> string \<Rightarrow> string \<Rightarrow> string \<Rightarrow> string \<Rightarrow> string \<Rightarrow> string \<Rightarrow> bytes \<Rightarrow> store \<times> disk \<Rightarrow> string \<times> store \<times> disk" where
  "createAttachment E dir fleetId uploaderKind uploaderId filename mime bytes = (\<lambda>(s, d).
     let attachmentId = mk_id E ''att'' (draws s);
         storagePath = attachmentStoragePath dir fleetId attachmentId
     in (attachmentId,
         recordEvent E fleetId ''attachment.uploaded'' uploaderKind (Some uploaderId) ''attachment'' (Some attachmentId) None
           (JObj [(''filename'', JStr filename), (''mime'', JStr mime), (''size_bytes'', JNum (int (length bytes)))])
           (s\<lparr> attachments := attachments s @
                 [\<lparr> at_id = attachmentId, at_fleet_id = fleetId, at_uploader_kind = uploaderKind, at_uploader_id = uploaderId,
                    at_filename = filename, at_mime = mime, at_size_bytes = int (length bytes), at_storage_path = storagePath,
                    at_created_at = now E, at_bound_message_id = None, at_bound_at = None \<rparr>],
               draws := Suc (draws s) \<rparr>),
         d(storagePath \<mapsto> bytes)))"

definition getFleetAttachmentBytes :: "string \<Rightarrow> store \<Rightarrow> int" where
  "getFleetAttachmentBytes fleetId s = sum_list (map at_size_bytes (select_all (\<lambda>r. at_fleet_id r = fleetId) (attachments s)))"

definition getAttachment :: "string \<Rightarrow> string \<Rightarrow> store \<Rightarrow> attachment_row option" where
  "getAttachment fleetId attachmentId s = select_one (\<lambda>r. at_id r = attachmentId \<and> at_fleet_id r = fleetId) (attachments s)"

definition collectable :: "env \<Rightarrow> attachment_row \<Rightarrow> bool" where
  "collectable E r \<longleftrightarrow>
     (case at_bound_at r of
        None \<Rightarrow> at_created_at r < now E - attachmentUnboundTtlSeconds (cfg E) * 1000
      | Some t \<Rightarrow> t < now E - attachmentRetentionSeconds (cfg E) * 1000)"

text \<open>
  One round of the collection.  \<open>stuck\<close> says at which paths \<^verbatim>\<open>unlink\<close> fails with anything but a missing file; the row
  then stays for the next sweep.
\<close>

definition collect_one :: "(string \<Rightarrow> bool) \<Rightarrow> attachment_row \<Rightarrow> nat \<times> store \<times> disk \<Rightarrow> nat \<times> store \<times> disk" where
  "collect_one stuck row = (\<lambda>(deleted, s, d).
     if stuck (at_storage_path row) then (deleted, s, d)
     else (Suc deleted, s\<lparr> attachments := delete_where (\<lambda>r. at_id r = at_id row) (attachments s) \<rparr>, d(at_storage_path row := None)))"

definition sweepAttachments :: "env \<Rightarrow> (string \<Rightarrow> bool) \<Rightarrow> store \<times> disk \<Rightarrow> nat \<times> store \<times> disk" where
  "sweepAttachments E stuck = (\<lambda>(s, d). fold (collect_one stuck) (select_all (collectable E) (attachments s)) (0, s, d))"

section \<open>Uploads\<close>

record upload_input =
  up_filename :: string
  up_mime :: string
  up_size_bytes :: int
  up_data_base64 :: string

datatype upload_error =
    Uploader_held string
  | Upload_rate_limited
  | Unsupported_media_type
  | Declared_too_large
  | Invalid_base64
  | Decoded_too_large
  | Bytes_mismatch
  | Quota_exceeded

text \<open>The checks on the file itself, in the order both routes have them.\<close>

definition accepted_bytes :: "config \<Rightarrow> codec \<Rightarrow> upload_input \<Rightarrow> upload_error + bytes" where
  "accepted_bytes C K u =
     (if \<not> isAllowedMime (up_mime u) then Inl Unsupported_media_type
      else if up_size_bytes u > attachmentMaxBytes C then Inl Declared_too_large
      else case decodeBase64Strict K (up_data_base64 u) of
        None \<Rightarrow> Inl Invalid_base64
      | Some bytes \<Rightarrow>
          if int (length bytes) > attachmentMaxBytes C then Inl Decoded_too_large
          else if \<not> sniffImageMatches (up_mime u) bytes then Inl Bytes_mismatch
          else Inr bytes)"

definition store_upload ::
  "env \<Rightarrow> string \<Rightarrow> string \<Rightarrow> string \<Rightarrow> string \<Rightarrow> upload_input \<Rightarrow> bytes \<Rightarrow> store \<times> disk \<Rightarrow> (upload_error + string) \<times> store \<times> disk" where
  "store_upload E dir fleetId kind uploaderId u bytes st =
     (if getFleetAttachmentBytes fleetId (fst st) + int (length bytes) > attachmentFleetQuotaBytes (cfg E) then (Inl Quota_exceeded, st)
      else let (attachmentId, st') = createAttachment E dir fleetId kind uploaderId (sanitizeFilename (up_filename u)) (up_mime u) bytes st
           in (Inr attachmentId, st'))"

definition uploadAsAgent ::
  "env \<Rightarrow> codec \<Rightarrow> string \<Rightarrow> string \<times> string \<times> string \<Rightarrow> upload_input \<Rightarrow> store \<times> disk \<Rightarrow> (upload_error + string) \<times> store \<times> disk" where
  "uploadAsAgent E K dir = (\<lambda>(agentId, fleetId, status) u (s, d).
     if status = ''quarantined'' \<or> status = ''paused'' then (Inl (Uploader_held status), s, d)
     else
       let ((allowed, _), s1) = checkAndIncrementUploadLimit E agentId fleetId s in
       if \<not> allowed then (Inl Upload_rate_limited, s1, d)
       else case accepted_bytes (cfg E) K u of
         Inl e \<Rightarrow> (Inl e, s1, d)
       | Inr bytes \<Rightarrow> store_upload E dir fleetId ''agent'' agentId u bytes (s1, d))"

definition uploadAsOperator ::
  "env \<Rightarrow> codec \<Rightarrow> string \<Rightarrow> string \<times> string \<Rightarrow> upload_input \<Rightarrow> store \<times> disk \<Rightarrow> (upload_error + string) \<times> store \<times> disk" where
  "uploadAsOperator E K dir = (\<lambda>(operatorId, fleetId) u (s, d).
     case accepted_bytes (cfg E) K u of
       Inl e \<Rightarrow> (Inl e, s, d)
     | Inr bytes \<Rightarrow>
         let ((allowed, _), s1) = checkAndIncrementUploadLimit E operatorId fleetId s in
         if \<not> allowed then (Inl Upload_rate_limited, s1, d)
         else store_upload E dir fleetId ''operator'' operatorId u bytes (s1, d))"

section \<open>Names that are safe to serve\<close>

lemma set_collapse_spaces: "set (collapse_spaces v) \<subseteq> insert (CHR '' '') (set v)"
proof (induction v rule: collapse_spaces.induct)
  case (2 c cs)
  then show ?case using set_dropWhileD [of _ is_space cs] by (auto split: if_splits)
qed simp

lemma set_js_trim: "set (js_trim v) \<subseteq> set v"
  unfolding js_trim_def using set_dropWhileD [of _ is_space] by (metis set_rev subset_iff)

text \<open>
  A stored file name is safe to hand out.  Whatever name is uploaded, the sanitised one is not empty, has
  at most two hundred characters, and has no path separator and no control character in it.
\<close>

theorem sanitized_filename_safe:
  "sanitizeFilename raw \<noteq> [] \<and> length (sanitizeFilename raw) \<le> 200
   \<and> list_all (\<lambda>c. c \<noteq> CHR ''/'' \<and> c \<noteq> CHR 0x5C \<and> \<not> is_control c) (sanitizeFilename raw)"
proof -
  define flat where "flat = filter (\<lambda>c. c \<noteq> CHR ''/'' \<and> c \<noteq> CHR 0x5C) (filter (\<lambda>c. \<not> is_control c) (path_basename raw))"
  define cleaned where "cleaned = take 200 (js_trim (collapse_spaces (dropWhile (\<lambda>c. c = CHR ''.'') flat)))"
  have "set cleaned \<subseteq> insert (CHR '' '') (set flat)"
    unfolding cleaned_def using set_js_trim set_collapse_spaces set_dropWhileD by (fastforce dest: in_set_takeD)
  then have c: "c \<noteq> CHR ''/'' \<and> c \<noteq> CHR 0x5C \<and> \<not> is_control c" if "c \<in> set cleaned" for c
    using that by (auto simp: flat_def is_control_def)
  have s: "sanitizeFilename raw = (if cleaned = [] then ''file'' else cleaned)"
    by (simp add: sanitizeFilename_def cleaned_def flat_def Let_def)
  have "length cleaned \<le> 200" by (simp add: cleaned_def)
  with c show ?thesis unfolding s by (auto simp: list_all_iff is_control_def)
qed

text \<open>The dots are stripped before the blanks, so a name behind a blank keeps its leading dots.\<close>

lemma sanitized_filename_dots: "sanitizeFilename '' ..'' = ''..''"
  by code_simp

section \<open>Rows, bytes and quota\<close>

lemma path_basename_plain: "CHR ''/'' \<notin> set v \<Longrightarrow> path_basename v = v"
proof -
  assume v: "CHR ''/'' \<notin> set v"
  then have d: "dropWhile (\<lambda>c. c = CHR ''/'') (rev v) = rev v" by (cases "rev v") (auto dest: arg_cong [of _ _ set])
  have t: "takeWhile (\<lambda>c. c \<noteq> CHR ''/'') (rev v) = rev v" using v by (auto simp: takeWhile_eq_all_conv)
  show "path_basename v = v" unfolding path_basename_def d t by simp
qed

lemma storage_path_inj:
  assumes "attachmentStoragePath dir f i = attachmentStoragePath dir f' i'" "CHR ''/'' \<notin> set i" "CHR ''/'' \<notin> set i'"
  shows "i = i'"
proof -
  have "takeWhile (\<lambda>c. c \<noteq> CHR ''/'') (rev (attachmentStoragePath dir f i)) = rev i" if "CHR ''/'' \<notin> set i" for f i
    using that by (simp add: attachmentStoragePath_def path_basename_plain) (subst takeWhile_append2, auto)
  from this [OF assms(2), of f] this [OF assms(3), of f'] show ?thesis using assms(1) by simp
qed

definition att_key :: "attachment_row \<Rightarrow> string \<times> string \<times> int \<times> string" where
  "att_key r = (at_id r, at_fleet_id r, at_size_bytes r, at_storage_path r)"

definition fleet_bytes :: "string \<Rightarrow> attachment_row list \<Rightarrow> int" where
  "fleet_bytes f rows = sum_list (map at_size_bytes (select_all (\<lambda>r. at_fleet_id r = f) rows))"

definition row_on_disk :: "string \<Rightarrow> disk \<Rightarrow> attachment_row \<Rightarrow> bool" where
  "row_on_disk dir d r \<longleftrightarrow> at_storage_path r = attachmentStoragePath dir (at_fleet_id r) (at_id r)
     \<and> (\<exists>b. d (at_storage_path r) = Some b \<and> at_size_bytes r = int (length b))"

definition attachments_inv :: "(nat \<Rightarrow> string) \<Rightarrow> config \<Rightarrow> string \<Rightarrow> store \<times> disk \<Rightarrow> bool" where
  "attachments_inv U C dir = (\<lambda>(s, d).
     drawn U ''att'' (draws s) (map at_id (attachments s))
     \<and> (\<forall>r\<in>set (attachments s). row_on_disk dir d r)
     \<and> (\<forall>p b. d p = Some b \<longrightarrow> p \<in> at_storage_path ` set (attachments s))
     \<and> (\<forall>f. fleet_bytes f (attachments s) \<le> max 0 (attachmentFleetQuotaBytes C)))"

lemma fleet_bytes_append: "fleet_bytes f (rows @ [r]) = fleet_bytes f rows + (if at_fleet_id r = f then at_size_bytes r else 0)"
  by (simp add: fleet_bytes_def sql)

lemma fleet_bytes_delete:
  assumes "\<And>r. r \<in> set rows \<Longrightarrow> 0 \<le> at_size_bytes r"
  shows "fleet_bytes f (delete_where p rows) \<le> fleet_bytes f rows"
  using assms by (induction rows) (auto simp: fleet_bytes_def sql add_increasing)

lemma fleet_bytes_keys:
  assumes "map att_key rows = map att_key rows'"
  shows "fleet_bytes f rows = fleet_bytes f rows'"
proof -
  have "fleet_bytes f rows = sum_list (map (\<lambda>(_, _, z, _). z) (filter (\<lambda>(_, g, _). g = f) (map att_key rows)))" for rows
    by (induction rows) (auto simp: fleet_bytes_def sql att_key_def)
  with assms show ?thesis by metis
qed

lemma on_disk_size: "row_on_disk dir d r \<Longrightarrow> 0 \<le> at_size_bytes r"
  by (auto simp: row_on_disk_def)

text \<open>Storing an upload under a fresh identifier, within the quota.\<close>

lemma upload_limit_frame:
  assumes "checkAndIncrementUploadLimit E u f s = (r, t)"
  shows "attachments t = attachments s \<and> draws s \<le> draws t"
  using assms by (auto simp: checkAndIncrementUploadLimit_def Let_def split: if_splits)

lemma fresh_path:
  assumes "attachments_inv U C dir (s, d)" "inj U" "\<And>n. CHR ''/'' \<notin> set (U n)" "draws s \<le> n" "r \<in> set (attachments s)"
  shows "at_storage_path r \<noteq> attachmentStoragePath dir f (id_of U ''att'' n)"
proof
  assume eq: "at_storage_path r = attachmentStoragePath dir f (id_of U ''att'' n)"
  from assms(1,5) obtain k where k: "k < draws s" "at_id r = id_of U ''att'' k" "row_on_disk dir d r"
    by (auto simp: attachments_inv_def drawn_def)
  have sl: "CHR ''/'' \<notin> set (id_of U ''att'' m)" for m using assms(3) by (simp add: id_of_def)
  have "id_of U ''att'' k = id_of U ''att'' n"
    by (rule storage_path_inj [of dir "at_fleet_id r" _ f]) (use k eq sl in \<open>auto simp: row_on_disk_def\<close>)
  with assms(2,4) k(1) show False by (auto dest: injD [OF inj_id_of])
qed

lemma attachments_inv_draws: "attachments_inv U C dir (s, d) \<Longrightarrow> attachments t = attachments s \<Longrightarrow> draws s \<le> draws t \<Longrightarrow> attachments_inv U C dir (t, d)"
  by (auto simp: attachments_inv_def intro: drawn_mono)

lemma store_upload_inv:
  assumes inv: "attachments_inv U C dir (s, d)" and U: "inj U" "\<And>n. CHR ''/'' \<notin> set (U n)" "uuid E = U" and "cfg E = C"
    and "store_upload E dir f kind who u bs (s, d) = (res, t, e)"
  shows "attachments_inv U C dir (t, e)"
proof (cases "fleet_bytes f (attachments s) + int (length bs) > attachmentFleetQuotaBytes C")
  case True
  with assms(5,6) inv show ?thesis by (simp add: store_upload_def getFleetAttachmentBytes_def fleet_bytes_def)
next
  case False
  let ?i = "id_of U ''att'' (draws s)" and ?p = "attachmentStoragePath dir f (id_of U ''att'' (draws s))"
  obtain r where r: "attachments t = attachments s @ [r]" "at_id r = ?i" "at_fleet_id r = f" "at_size_bytes r = int (length bs)"
      "at_storage_path r = ?p" "e = d(?p \<mapsto> bs)" "draws t = Suc (Suc (draws s))"
    using assms(5,6) False U(3)
    by (auto simp: store_upload_def createAttachment_def getFleetAttachmentBytes_def fleet_bytes_def mk_id_of Let_def)
  have new: "\<And>q. q \<in> set (attachments s) \<Longrightarrow> at_storage_path q \<noteq> ?p" using fresh_path [OF inv U(1,2) order_refl] by blast
  have "drawn U ''att'' (draws s + 1) (map at_id (attachments s) @ map (id_of U ''att'') [draws s..<draws s + 1])"
    by (rule drawn_append) (use inv U(1) in \<open>auto simp: attachments_inv_def\<close>)
  then have "drawn U ''att'' (draws t) (map at_id (attachments t))" using r by (auto intro: drawn_mono)
  moreover have "\<forall>q\<in>set (attachments t). row_on_disk dir e q"
    using inv new r by (auto simp: attachments_inv_def row_on_disk_def)
  moreover have "\<forall>p b. e p = Some b \<longrightarrow> p \<in> at_storage_path ` set (attachments t)"
    using inv r by (auto simp: attachments_inv_def)
  moreover have "\<forall>g. fleet_bytes g (attachments t) \<le> max 0 (attachmentFleetQuotaBytes C)"
    using inv False r by (auto simp: attachments_inv_def fleet_bytes_append)
  ultimately show ?thesis by (simp add: attachments_inv_def)
qed

lemma collect_one_inv:
  assumes inv: "attachments_inv U C dir (s, d)"
    and rows: "distinct (map at_id rows)" "set (attachments s) \<subseteq> set rows" "row \<in> set rows"
    and path: "\<And>r. r \<in> set rows \<Longrightarrow> at_storage_path r = attachmentStoragePath dir (at_fleet_id r) (at_id r) \<and> CHR ''/'' \<notin> set (at_id r)"
    and "collect_one stuck row (n, s, d) = (m, t, e)"
  shows "attachments_inv U C dir (t, e) \<and> set (attachments t) \<subseteq> set rows"
proof (cases "stuck (at_storage_path row)")
  case True
  with assms(6) inv rows(2) show ?thesis by (simp add: collect_one_def)
next
  case False
  with assms(6) have t: "attachments t = delete_where (\<lambda>r. at_id r = at_id row) (attachments s)" "e = d(at_storage_path row := None)" "draws t = draws s"
    by (auto simp: collect_one_def)
  have same: "q = row" if "q \<in> set rows" "at_id q = at_id row" for q
    using that rows(1,3) by (metis distinct_map inj_onD)
  have other: "at_storage_path q \<noteq> at_storage_path row" if "q \<in> set rows" "at_id q \<noteq> at_id row" for q
    using that path [OF that(1)] path [OF rows(3)] storage_path_inj [of dir "at_fleet_id q" "at_id q"] by metis
  have "drawn U ''att'' (draws t) (map at_id (attachments t))"
    using inv distinct_delete_where [of at_id "attachments s"] unfolding t by (auto simp: attachments_inv_def drawn_def)
  moreover have "\<forall>q\<in>set (attachments t). row_on_disk dir e q"
  proof
    fix q assume "q \<in> set (attachments t)"
    then have q: "q \<in> set (attachments s)" "at_id q \<noteq> at_id row" unfolding t by auto
    have "row_on_disk dir d q" using inv q(1) by (auto simp: attachments_inv_def)
    with other [of q] q rows(2) show "row_on_disk dir e q" unfolding row_on_disk_def t by auto
  qed
  moreover have "\<forall>p b. e p = Some b \<longrightarrow> p \<in> at_storage_path ` set (attachments t)"
  proof (intro allI impI)
    fix p b assume p: "e p = Some b"
    then have "d p = Some b" "p \<noteq> at_storage_path row" unfolding t by (auto split: if_splits)
    with inv obtain q where q: "q \<in> set (attachments s)" "p = at_storage_path q" by (auto simp: attachments_inv_def)
    with \<open>p \<noteq> at_storage_path row\<close> same rows(2) have "at_id q \<noteq> at_id row" by blast
    with q show "p \<in> at_storage_path ` set (attachments t)" unfolding t by auto
  qed
  moreover have "fleet_bytes f (attachments t) \<le> max 0 (attachmentFleetQuotaBytes C)" for f
    using inv fleet_bytes_delete [of "attachments s" f "\<lambda>r. at_id r = at_id row"] unfolding t
    by (fastforce simp: attachments_inv_def dest: on_disk_size intro: order_trans)
  ultimately show ?thesis using rows(2) by (auto simp: attachments_inv_def t)
qed

lemma collect_fold_inv:
  assumes "attachments_inv U C dir (s, d)" "distinct (map at_id rows)" "set (attachments s) \<subseteq> set rows" "set xs \<subseteq> set rows"
    and path: "\<And>r. r \<in> set rows \<Longrightarrow> at_storage_path r = attachmentStoragePath dir (at_fleet_id r) (at_id r) \<and> CHR ''/'' \<notin> set (at_id r)"
    and "fold (collect_one stuck) xs (n, s, d) = (m, t, e)"
  shows "attachments_inv U C dir (t, e)"
  using assms(1,3,4,6)
proof (induction xs arbitrary: n s d)
  case Nil
  then show ?case by simp
next
  case (Cons x xs)
  obtain n1 s1 d1 where 1: "collect_one stuck x (n, s, d) = (n1, s1, d1)" by (metis prod_cases3)
  have "attachments_inv U C dir (s1, d1) \<and> set (attachments s1) \<subseteq> set rows"
    by (rule collect_one_inv [OF Cons.prems(1) assms(2) Cons.prems(2) _ path 1]) (use Cons.prems(3) in auto)
  with Cons.IH [of s1 d1 n1] Cons.prems(3,4) 1 show ?case by simp
qed

lemma sweepAttachments_inv:
  assumes inv: "attachments_inv U C dir (s, d)" and "\<And>n. CHR ''/'' \<notin> set (U n)" "sweepAttachments E stuck (s, d) = (m, t, e)"
  shows "attachments_inv U C dir (t, e)"
proof (rule collect_fold_inv [OF inv _ subset_refl])
  show "distinct (map at_id (attachments s))" using inv by (auto simp: attachments_inv_def drawn_def)
  show "fold (collect_one stuck) (select_all (collectable E) (attachments s)) (0, s, d) = (m, t, e)"
    using assms(3) by (simp add: sweepAttachments_def)
  show "set (select_all (collectable E) (attachments s)) \<subseteq> set (attachments s)" by (auto simp: sql)
  fix r assume "r \<in> set (attachments s)"
  with inv assms(2) show "at_storage_path r = attachmentStoragePath dir (at_fleet_id r) (at_id r) \<and> CHR ''/'' \<notin> set (at_id r)"
    by (auto simp: attachments_inv_def row_on_disk_def drawn_def id_of_def)
qed

section \<open>Runs\<close>

inductive attachment_step :: "(nat \<Rightarrow> string) \<Rightarrow> config \<Rightarrow> string \<Rightarrow> store \<times> disk \<Rightarrow> store \<times> disk \<Rightarrow> bool" for U C dir where
  Agent_upload: "uuid E = U \<Longrightarrow> cfg E = C \<Longrightarrow> uploadAsAgent E K dir who u st = (res, st') \<Longrightarrow> attachment_step U C dir st st'"
| Operator_upload: "uuid E = U \<Longrightarrow> cfg E = C \<Longrightarrow> uploadAsOperator E K dir who u st = (res, st') \<Longrightarrow> attachment_step U C dir st st'"
| Collect: "cfg E = C \<Longrightarrow> sweepAttachments E stuck st = (n, st') \<Longrightarrow> attachment_step U C dir st st'"
| Elsewhere: "map att_key (attachments t) = map att_key (attachments s) \<Longrightarrow> draws s \<le> draws t \<Longrightarrow> attachment_step U C dir (s, d) (t, d)"

text \<open>A sent message binds attachments, which is such a step elsewhere.\<close>

lemma bind_attachments_keys: "map att_key (attachments (bind_attachments E m ids s)) = map att_key (attachments s)"
  by (simp add: bind_attachments_def att_key_def)

lemma attachments_inv_step:
  assumes "attachments_inv U C dir st" "attachment_step U C dir st st'" "inj U" "\<And>n. CHR ''/'' \<notin> set (U n)"
  shows "attachments_inv U C dir st'"
  using assms(2)
proof cases
  case (Agent_upload E K who u res)
  obtain a f status where who: "who = (a, f, status)" by (cases who)
  obtain s d where st: "st = (s, d)" by (cases st)
  obtain t e where st': "st' = (t, e)" by (cases st')
  obtain ok x y s1 where l: "checkAndIncrementUploadLimit E a f s = ((ok, x, y), s1)" by (metis prod.exhaust)
  note i = attachments_inv_draws [OF assms(1) [unfolded st]]
  have 1: "attachments_inv U C dir (s1, d)" using i upload_limit_frame [OF l] by blast
  show ?thesis
    using Agent_upload assms(1) 1 store_upload_inv [OF 1 assms(3,4) Agent_upload(1,2), of f "''agent''" a u _ res t e] unfolding who st st'
    by (auto simp: uploadAsAgent_def l split: if_splits sum.splits)
next
  case (Operator_upload E K who u res)
  obtain a f where who: "who = (a, f)" by (cases who)
  obtain s d where st: "st = (s, d)" by (cases st)
  obtain t e where st': "st' = (t, e)" by (cases st')
  obtain ok x y s1 where l: "checkAndIncrementUploadLimit E a f s = ((ok, x, y), s1)" by (metis prod.exhaust)
  have 1: "attachments_inv U C dir (s1, d)"
    using attachments_inv_draws [OF assms(1) [unfolded st]] upload_limit_frame [OF l] by blast
  show ?thesis
    using Operator_upload assms(1) 1 store_upload_inv [OF 1 assms(3,4) Operator_upload(1,2), of f "''operator''" a u _ res t e] unfolding who st st'
    by (auto simp: uploadAsOperator_def l split: if_splits sum.splits)
next
  case (Collect E stuck n)
  then show ?thesis using assms(1,4) sweepAttachments_inv [of U C dir] by (cases st, cases st') blast
next
  case (Elsewhere t s d)
  have keys: "att_key ` set (attachments t) = att_key ` set (attachments s)" using Elsewhere(3) by (metis list.set_map)
  have "map fst (map att_key rows) = map at_id rows" for rows by (simp add: att_key_def)
  then have "map at_id (attachments t) = map at_id (attachments s)" using Elsewhere(3) by metis
  moreover have "row_on_disk dir d r" if r: "r \<in> set (attachments t)" for r
  proof -
    from r keys obtain q where "q \<in> set (attachments s)" "att_key q = att_key r" by (metis imageE imageI)
    with assms(1) show ?thesis by (auto simp: Elsewhere(1) attachments_inv_def row_on_disk_def att_key_def)
  qed
  moreover have "at_storage_path ` set (attachments t) = at_storage_path ` set (attachments s)"
    using arg_cong [OF keys, of "image (\<lambda>(_, _, _, p). p)"] by (simp add: image_image att_key_def)
  ultimately show ?thesis
    using assms(1) Elsewhere(4) fleet_bytes_keys [OF Elsewhere(3)]
    by (auto simp: Elsewhere(1,2) attachments_inv_def intro: drawn_mono)
qed

interpretation attachment_store: stepping "(empty_store, Map.empty :: disk)"
  "\<lambda>st st'. attachment_step U C dir st st' \<and> inj U \<and> (\<forall>n. CHR ''/'' \<notin> set (U n))" "attachments_inv U C dir" for U C dir
proof
  show "attachments_inv U C dir (empty_store, Map.empty)"
    by (simp add: attachments_inv_def empty_store_def drawn_def fleet_bytes_def sql)
next
  fix s t :: "store \<times> disk"
  assume "attachments_inv U C dir s" "attachment_step U C dir s t \<and> inj U \<and> (\<forall>n. CHR ''/'' \<notin> set (U n))"
  then show "attachments_inv U C dir t" using attachments_inv_step by blast
qed

lemma attachments_reach:
  assumes "inj U" "\<forall>n. CHR ''/'' \<notin> set (U n)" "reach (empty_store, Map.empty) (attachment_step U C dir) st"
  shows "attachments_inv U C dir st"
proof (rule attachment_store.inv_reach)
  show "reach (empty_store, Map.empty) (\<lambda>st st'. attachment_step U C dir st st' \<and> inj U \<and> (\<forall>n. CHR ''/'' \<notin> set (U n))) st"
    using assms(3) by induction (use assms(1,2) in \<open>auto intro: reach.intros\<close>)
qed

text \<open>
  C17: uploads never exceed a fleet's quota, and rows and bytes agree.  In every state reachable by uploads
  of agents and operators, garbage collection (also when files cannot be removed) and any other steps that
  keep the rows, the stored bytes of each fleet are within the quota, every attachment row has a file of
  exactly its size on disk, and every file on disk belongs to a row.
\<close>

theorem attachments_within_quota:
  assumes "inj U" "\<forall>n. CHR ''/'' \<notin> set (U n)" "reach (empty_store, Map.empty) (attachment_step U C dir) (s, d)"
  shows "getFleetAttachmentBytes fleetId s \<le> max 0 (attachmentFleetQuotaBytes C)
    \<and> (\<forall>r\<in>set (attachments s). \<exists>b. d (at_storage_path r) = Some b \<and> at_size_bytes r = int (length b))
    \<and> dom d = at_storage_path ` set (attachments s)"
proof -
  note inv = attachments_reach [OF assms]
  then have "\<And>r. r \<in> set (attachments s) \<Longrightarrow> \<exists>b. d (at_storage_path r) = Some b \<and> at_size_bytes r = int (length b)"
    by (auto simp: attachments_inv_def row_on_disk_def)
  moreover have "dom d = at_storage_path ` set (attachments s)" using calculation inv unfolding attachments_inv_def by (simp add: dom_def set_eq_iff image_iff) blast
  moreover have "getFleetAttachmentBytes fleetId s \<le> max 0 (attachmentFleetQuotaBytes C)"
    using inv by (simp add: attachments_inv_def fleet_bytes_def getFleetAttachmentBytes_def)
  ultimately show ?thesis by blast
qed

text \<open>What an upload stores is a file of an allowed type whose bytes match it, and it is served within its fleet only.\<close>

lemma accepted_bytes_sound:
  assumes "accepted_bytes C K u = Inr b"
  shows "isAllowedMime (up_mime u)" "int (length b) \<le> attachmentMaxBytes C" "sniffImageMatches (up_mime u) b" "b \<noteq> []"
  using assms by (auto simp: accepted_bytes_def decodeBase64Strict_def Let_def split: if_splits option.splits)

lemma getAttachment_scoped: "getAttachment f i s = Some r \<Longrightarrow> at_fleet_id r = f \<and> r \<in> set (attachments s)"
  unfolding getAttachment_def by (drule select_one_Some) simp

section \<open>Witness\<close>

definition sample_codec :: codec where
  "sample_codec = \<lparr> base64_decode = (\<lambda>v. map (\<lambda>c. of_nat (of_char c)) v), base64_encode = (\<lambda>b. map (\<lambda>x. char_of (unat x)) b) \<rparr>"

definition sample_upload :: upload_input where
  "sample_upload = \<lparr> up_filename = ''../notes.txt'', up_mime = ''text/plain'', up_size_bytes = 2, up_data_base64 = ''hi'' \<rparr>"

definition sample_stored :: "(upload_error + string) \<times> store \<times> disk" where
  "sample_stored = uploadAsAgent (sample_env 5) sample_codec ''/data'' (''agt'', ''flt'', ''healthy'') sample_upload (empty_store, Map.empty)"

lemma sample_stored_ok: "isl (fst sample_stored) = False \<and> getFleetAttachmentBytes ''flt'' (fst (snd sample_stored)) = 2"
  by code_simp

lemma attachments_within_quota_witness:
  "getFleetAttachmentBytes ''flt'' (fst (snd sample_stored)) = 2 \<and> dom (snd (snd sample_stored)) = at_storage_path ` set (attachments (fst (snd sample_stored)))"
proof -
  let ?U = "uuid (sample_env 5)"
  have U: "inj ?U" "\<forall>n. CHR ''/'' \<notin> set (?U n)" by (auto simp: sample_env_def inj_def dest: arg_cong [of _ _ length])
  have "reach (empty_store, Map.empty) (attachment_step ?U default_config ''/data'') (fst (snd sample_stored), snd (snd sample_stored))"
    by (rule reach_step [OF reach_start], rule Agent_upload [of "sample_env 5"]) (simp_all add: sample_stored_def prod_eq_iff)
  from attachments_within_quota [OF U this] sample_stored_ok show ?thesis by blast
qed

end
