(* ===== verification/A2A.thy ===== *)
theory A2A
  imports Gate
begin

text \<open>
  The A2A transport, \<^verbatim>\<open>a2a/\<close>: the task store (\<^verbatim>\<open>task-store.ts\<close>), the JSON-RPC envelope
  (\<^verbatim>\<open>jsonrpc.ts\<close>), the methods (\<^verbatim>\<open>methods.ts\<close>) and the dispatch of a request (\<^verbatim>\<open>routes.ts\<close>).  The two tables stand
  beside the relay's store; a call works on both.  The two streaming methods answer with the same first event as
  \<^verbatim>\<open>message/send\<close> and \<^verbatim>\<open>tasks/get\<close>; the event bus that would feed a stream later has no publisher in the relay.
\<close>

section \<open>Tasks\<close>

definition TERMINAL_STATES :: "string list" where
  "TERMINAL_STATES = [''completed'', ''failed'', ''canceled'', ''rejected'']"

record a2a_message =
  am_messageId :: string
  am_role :: string
  am_parts :: "json list"
  am_taskId :: "string option"
  am_contextId :: "string option"
  am_metadata :: "json option"

record task_row =
  ta_id :: string
  ta_fleet_id :: string
  ta_agent_id :: string
  ta_sender_agent_id :: "string option"
  ta_context_id :: string
  ta_state :: string
  ta_history :: "a2a_message list"
  ta_artifacts :: "json list"
  ta_metadata :: "json option"
  ta_created_at :: int
  ta_updated_at :: int

record a2a_store =
  a2a_tasks :: "task_row list"
  a2a_task_messages :: "(string \<times> string) list"

record a2a_task =
  tk_id :: string
  tk_contextId :: string
  tk_state :: string
  tk_timestamp :: int
  tk_history :: "a2a_message list"
  tk_artifacts :: "json list"
  tk_metadata :: "json option"

definition rowToTask :: "task_row \<Rightarrow> a2a_task" where
  "rowToTask r = \<lparr> tk_id = ta_id r, tk_contextId = ta_context_id r, tk_state = ta_state r, tk_timestamp = ta_updated_at r,
     tk_history = ta_history r, tk_artifacts = ta_artifacts r, tk_metadata = ta_metadata r \<rparr>"

text \<open>
  The errors of a call: the relay's own answers, each with its JSON-RPC code, and an exception of another kind.
\<close>

datatype rpc_error =
    Invalid_request
  | Method_not_found string
  | Invalid_params
  | Task_not_found string
  | Task_not_cancelable string
  | Sender_not_permitted string
  | Rate_limit_exceeded int int
  | Blocked_by_policy string
  | Blocked_by_extension string string
  | Rpc_internal

definition rpc_code :: "rpc_error \<Rightarrow> int" where
  "rpc_code e =
     (case e of
        Invalid_request \<Rightarrow> -32600
      | Method_not_found _ \<Rightarrow> -32601
      | Invalid_params \<Rightarrow> -32602
      | Rpc_internal \<Rightarrow> -32603
      | Task_not_found _ \<Rightarrow> -32001
      | Task_not_cancelable _ \<Rightarrow> -32002
      | Sender_not_permitted _ \<Rightarrow> -32050
      | Rate_limit_exceeded _ _ \<Rightarrow> -32051
      | Blocked_by_policy _ \<Rightarrow> -32052
      | Blocked_by_extension _ _ \<Rightarrow> -32053)"

text \<open>\<^verbatim>\<open>createTask\<close>; the primary key refuses an id that is in use.\<close>

definition createTask ::
  "env \<Rightarrow> string \<Rightarrow> string \<Rightarrow> string \<Rightarrow> string option \<Rightarrow> a2a_message option \<Rightarrow> json option \<Rightarrow> store \<times> a2a_store
   \<Rightarrow> (rpc_error + a2a_task) \<times> store \<times> a2a_store" where
  "createTask E fleetId agentId senderAgentId contextId initialMessage metadata = (\<lambda>(s, t).
     let taskId = mk_id E ''task'' (draws s); s1 = s\<lparr> draws := Suc (draws s) \<rparr>;
         ctx = (case contextId of Some c \<Rightarrow> c | None \<Rightarrow> mk_id E ''ctx'' (draws s1));
         s2 = (case contextId of Some _ \<Rightarrow> s1 | None \<Rightarrow> s1\<lparr> draws := Suc (draws s1) \<rparr>);
         row = \<lparr> ta_id = taskId, ta_fleet_id = fleetId, ta_agent_id = agentId, ta_sender_agent_id = Some senderAgentId,
                 ta_context_id = ctx, ta_state = ''submitted'', ta_history = (case initialMessage of None \<Rightarrow> [] | Some m \<Rightarrow> [m]),
                 ta_artifacts = [], ta_metadata = metadata, ta_created_at = now E, ta_updated_at = now E \<rparr>
     in if select_exists (\<lambda>r. ta_id r = taskId) (a2a_tasks t) then (Inl Rpc_internal, s2, t)
        else (Inr (rowToTask row), s2, t\<lparr> a2a_tasks := a2a_tasks t @ [row] \<rparr>))"

definition getTask :: "string \<Rightarrow> a2a_store \<Rightarrow> a2a_task option" where
  "getTask taskId t = map_option rowToTask (select_one (\<lambda>r. ta_id r = taskId) (a2a_tasks t))"

definition participant :: "string \<Rightarrow> task_row \<Rightarrow> bool" where
  "participant agentId r \<longleftrightarrow> ta_agent_id r = agentId \<or> ta_sender_agent_id r = Some agentId"

definition getTaskForParticipant :: "string \<Rightarrow> string \<Rightarrow> string \<Rightarrow> a2a_store \<Rightarrow> a2a_task option" where
  "getTaskForParticipant taskId fleetId agentId t =
     map_option rowToTask
       (select_one (\<lambda>r. ta_id r = taskId \<and> ta_fleet_id r = fleetId \<and> participant agentId r) (a2a_tasks t))"

definition taskParticipants :: "string \<Rightarrow> a2a_store \<Rightarrow> (string \<times> string \<times> string option) option" where
  "taskParticipants taskId t =
     map_option (\<lambda>r. (ta_fleet_id r, ta_agent_id r, ta_sender_agent_id r)) (select_one (\<lambda>r. ta_id r = taskId) (a2a_tasks t))"

definition listTasks ::
  "string \<Rightarrow> string \<Rightarrow> string option \<Rightarrow> string option \<Rightarrow> int \<Rightarrow> int \<Rightarrow> a2a_store \<Rightarrow> a2a_task list \<times> nat" where
  "listTasks fleetId participantAgentId counterpartyAgentId state limit offset t =
     (let p = (\<lambda>r. ta_fleet_id r = fleetId \<and> participant participantAgentId r
                \<and> (truthy counterpartyAgentId \<longrightarrow> participant (the counterpartyAgentId) r)
                \<and> (truthy state \<longrightarrow> ta_state r = the state));
          rows = select_all p (a2a_tasks t)
      in (map rowToTask (limit_rows limit (drop (nat offset) (order_desc ta_updated_at rows))), length rows))"

text \<open>\<^verbatim>\<open>updateStatus\<close>: null without the task, an exception in a terminal state.\<close>

definition updateStatus :: "env \<Rightarrow> string \<Rightarrow> string \<Rightarrow> a2a_message option \<Rightarrow> a2a_store \<Rightarrow> (rpc_error + bool) \<times> a2a_store" where
  "updateStatus E taskId state msg t =
     (case getTask taskId t of
        None \<Rightarrow> (Inr False, t)
      | Some task \<Rightarrow>
          if tk_state task \<in> set TERMINAL_STATES then (Inl Rpc_internal, t)
          else
            let newHistory = tk_history task @ (case msg of None \<Rightarrow> [] | Some m \<Rightarrow> [m]) in
            (Inr True, t\<lparr> a2a_tasks := update_where (\<lambda>r. ta_id r = taskId)
               (\<lambda>r. r\<lparr> ta_state := state, ta_history := newHistory, ta_updated_at := now E \<rparr>) (a2a_tasks t) \<rparr>))"

definition appendArtifact :: "env \<Rightarrow> string \<Rightarrow> json \<Rightarrow> a2a_store \<Rightarrow> bool \<times> a2a_store" where
  "appendArtifact E taskId artifact t =
     (case getTask taskId t of
        None \<Rightarrow> (False, t)
      | Some task \<Rightarrow>
          (True, t\<lparr> a2a_tasks := update_where (\<lambda>r. ta_id r = taskId)
             (\<lambda>r. r\<lparr> ta_artifacts := tk_artifacts task @ [artifact], ta_updated_at := now E \<rparr>) (a2a_tasks t) \<rparr>))"

definition appendMessage :: "env \<Rightarrow> string \<Rightarrow> a2a_message \<Rightarrow> a2a_store \<Rightarrow> bool \<times> a2a_store" where
  "appendMessage E taskId msg t =
     (case getTask taskId t of
        None \<Rightarrow> (False, t)
      | Some task \<Rightarrow>
          (True, t\<lparr> a2a_tasks := update_where (\<lambda>r. ta_id r = taskId)
             (\<lambda>r. r\<lparr> ta_history := tk_history task @ [msg], ta_updated_at := now E \<rparr>) (a2a_tasks t) \<rparr>))"

definition linkMessage :: "string \<Rightarrow> string \<Rightarrow> a2a_store \<Rightarrow> a2a_store" where
  "linkMessage taskId messageId t =
     t\<lparr> a2a_task_messages := (if (taskId, messageId) \<in> set (a2a_task_messages t) then a2a_task_messages t
                              else a2a_task_messages t @ [(taskId, messageId)]) \<rparr>"

definition cancelTask :: "env \<Rightarrow> string \<Rightarrow> a2a_store \<Rightarrow> (rpc_error + a2a_task option) \<times> a2a_store" where
  "cancelTask E taskId t =
     (case getTask taskId t of
        None \<Rightarrow> (Inr None, t)
      | Some task \<Rightarrow>
          if tk_state task \<in> set TERMINAL_STATES then (Inr (Some task), t)
          else (case updateStatus E taskId ''canceled'' None t of
                  (Inl e, t') \<Rightarrow> (Inl e, t')
                | (Inr _, t') \<Rightarrow> (Inr (getTask taskId t'), t')))"

section \<open>Parameters of a call\<close>

definition assertObject :: "json option \<Rightarrow> rpc_error + json" where
  "assertObject params = (case params of Some (JObj ms) \<Rightarrow> Inr (JObj ms) | _ \<Rightarrow> Inl Invalid_params)"

definition requireString :: "json \<Rightarrow> string \<Rightarrow> rpc_error + string" where
  "requireString obj key = (case json_get obj key of Some (JStr v) \<Rightarrow> if v = [] then Inl Invalid_params else Inr v | _ \<Rightarrow> Inl Invalid_params)"

definition string_member :: "json \<Rightarrow> string \<Rightarrow> string option" where
  "string_member obj key = (case json_get obj key of Some (JStr v) \<Rightarrow> Some v | _ \<Rightarrow> None)"

definition normalizeInboundMessage :: "env \<Rightarrow> json option \<Rightarrow> store \<Rightarrow> (rpc_error + a2a_message) \<times> store" where
  "normalizeInboundMessage E raw s =
     (case assertObject raw of
        Inl e \<Rightarrow> (Inl e, s)
      | Inr obj \<Rightarrow>
          (case json_get obj ''parts'' of
             Some (JArr (part # parts)) \<Rightarrow>
               let (messageId, s1) = (case string_member obj ''messageId'' of
                      Some v \<Rightarrow> (v, s) | None \<Rightarrow> (mk_id E ''a2a-msg'' (draws s), s\<lparr> draws := Suc (draws s) \<rparr>))
               in (Inr \<lparr> am_messageId = messageId, am_role = (if json_get obj ''role'' = Some (JStr ''agent'') then ''agent'' else ''user''),
                         am_parts = part # parts, am_taskId = string_member obj ''taskId'', am_contextId = string_member obj ''contextId'',
                         am_metadata = (case json_get obj ''metadata'' of
                            Some (JObj ms) \<Rightarrow> Some (JObj ms) | Some (JArr vs) \<Rightarrow> Some (JArr vs) | _ \<Rightarrow> None) \<rparr>, s1)
           | _ \<Rightarrow> (Inl Invalid_params, s)))"

text \<open>\<^verbatim>\<open>parts.find\<close>: reading a member of a null part throws.\<close>

fun find_text :: "json list \<Rightarrow> rpc_error + string option" where
  "find_text [] = Inr None"
| "find_text (JNull # parts) = Inl Rpc_internal"
| "find_text (part # parts) =
     (if json_get part ''kind'' = Some (JStr ''text'') \<and> string_member part ''text'' \<noteq> None
      then Inr (string_member part ''text'') else find_text parts)"

definition opt_member :: "string \<Rightarrow> string option \<Rightarrow> (string \<times> json) list" where
  "opt_member k v = (case v of None \<Rightarrow> [] | Some x \<Rightarrow> [(k, JStr x)])"

text \<open>The body, and the summary that no caller uses.\<close>

definition messageToEkhoBody :: "a2a_message \<Rightarrow> rpc_error + json \<times> string" where
  "messageToEkhoBody m =
     (case find_text (am_parts m) of
        Inl e \<Rightarrow> Inl e
      | Inr found \<Rightarrow>
          Inr (JObj ([(''a2a'', JBool True), (''messageId'', JStr (am_messageId m)), (''role'', JStr (am_role m)), (''parts'', JArr (am_parts m))]
                     @ opt_member ''taskId'' (am_taskId m) @ opt_member ''contextId'' (am_contextId m)
                     @ [(''metadata'', case am_metadata m of None \<Rightarrow> JNull | Some j \<Rightarrow> j)]),
               case found of None \<Rightarrow> ''a2a message'' | Some x \<Rightarrow> take 120 x))"

section \<open>Methods\<close>

record a2a_context =
  cx_senderAgentId :: string
  cx_senderFleetId :: string
  cx_senderStatus :: string
  cx_targetAgentId :: "string option"

fun gateDenialToRpcError :: "gate_denial \<Rightarrow> rpc_error" where
  "gateDenialToRpcError (Sender_status st) = Sender_not_permitted st"
| "gateDenialToRpcError (Rate_limit current limit retryAfterSeconds) = Rate_limit_exceeded retryAfterSeconds limit"
| "gateDenialToRpcError (Policy name) = Blocked_by_policy name"
| "gateDenialToRpcError (Extension name reason) = Blocked_by_extension name reason"

definition requireOwnTask :: "a2a_context \<Rightarrow> string \<Rightarrow> a2a_store \<Rightarrow> rpc_error + a2a_task" where
  "requireOwnTask ctx taskId t =
     (case getTaskForParticipant taskId (cx_senderFleetId ctx) (cx_senderAgentId ctx) t of
        None \<Rightarrow> Inl (Task_not_found taskId) | Some task \<Rightarrow> Inr task)"

definition recipient_of :: "a2a_context \<Rightarrow> json \<Rightarrow> a2a_message \<Rightarrow> string option" where
  "recipient_of ctx p m =
     (case cx_targetAgentId ctx of
        Some r \<Rightarrow> Some r
      | None \<Rightarrow> (case string_member p ''recipientAgentId'' of
          Some r \<Rightarrow> Some r
        | None \<Rightarrow> Option.bind (am_metadata m) (\<lambda>j. string_member j ''recipientAgentId'')))"

text \<open>The task the message belongs to: the one it names, if the caller may continue it, or a new one.\<close>

definition task_of_message ::
  "env \<Rightarrow> a2a_context \<Rightarrow> string \<Rightarrow> a2a_message \<Rightarrow> store \<times> a2a_store \<Rightarrow> (rpc_error + a2a_task) \<times> store \<times> a2a_store" where
  "task_of_message E ctx recipientId m = (\<lambda>(s, t).
     if truthy (am_taskId m) then
       let taskId = the (am_taskId m) in
       case taskParticipants taskId t of
         None \<Rightarrow> (Inl (Task_not_found taskId), s, t)
       | Some (fleetId, recipientAgentId, senderAgentId) \<Rightarrow>
           if \<not> (fleetId = cx_senderFleetId ctx \<and> (recipientAgentId = cx_senderAgentId ctx \<or> senderAgentId = Some (cx_senderAgentId ctx)))
           then (Inl (Task_not_found taskId), s, t)
           else if recipientId \<noteq> recipientAgentId \<and> Some recipientId \<noteq> senderAgentId then (Inl Invalid_params, s, t)
           else
             (case getTask taskId t of
                None \<Rightarrow> (Inl Rpc_internal, s, t)
              | Some existing \<Rightarrow>
                  if tk_state existing \<in> set TERMINAL_STATES then (Inl (Task_not_cancelable taskId), s, t)
                  else
                    let t' = snd (appendMessage E taskId m t)
                    in (case getTask taskId t' of None \<Rightarrow> (Inl Rpc_internal, s, t') | Some task \<Rightarrow> (Inr task, s, t')))
     else createTask E (cx_senderFleetId ctx) recipientId (cx_senderAgentId ctx) (am_contextId m) (Some m) None (s, t))"

definition task_message :: "a2a_context \<Rightarrow> string \<Rightarrow> json \<Rightarrow> a2a_task \<Rightarrow> message_input" where
  "task_message ctx recipientId body task =
     \<lparr> mi_fleetId = cx_senderFleetId ctx, mi_senderAgentId = cx_senderAgentId ctx, mi_recipientKind = ''agent'',
       mi_recipientId = Some recipientId, mi_messageType = ''a2a.message'', mi_priority = ''normal'', mi_ttlSeconds = 3600,
       mi_requiresApproval = False, mi_body = body,
       mi_metadata = Some (JObj [(''a2a_task_id'', JStr (tk_id task)), (''a2a_context_id'', JStr (tk_contextId task))]),
       mi_conversationId = tk_contextId task, mi_correlationId = tk_id task \<rparr>"

definition messageSend ::
  "env \<Rightarrow> extension list \<Rightarrow> a2a_context \<Rightarrow> json option \<Rightarrow> store \<times> a2a_store \<Rightarrow> (rpc_error + a2a_task) \<times> store \<times> a2a_store" where
  "messageSend E exts ctx params = (\<lambda>(s, t).
     case assertObject params of
       Inl e \<Rightarrow> (Inl e, s, t)
     | Inr p \<Rightarrow>
         case normalizeInboundMessage E (json_get p ''message'') s of
           (Inl e, s1) \<Rightarrow> (Inl e, s1, t)
         | (Inr m, s1) \<Rightarrow>
             if \<not> truthy (recipient_of ctx p m) then (Inl Invalid_params, s1, t)
             else
               let recipientId = the (recipient_of ctx p m) in
               if findFleetAgent s1 (cx_senderFleetId ctx) recipientId = None then (Inl Invalid_params, s1, t)
               else
                 case messageToEkhoBody m of
                   Inl e \<Rightarrow> (Inl e, s1, t)
                 | Inr (body, _) \<Rightarrow>
                     (case evaluateMessageGate E exts (cx_senderAgentId ctx, cx_senderFleetId ctx, cx_senderStatus ctx) (Some recipientId)
                             ''a2a.message'' ''normal'' body (am_metadata m) s1 of
                        (Gate_throws, s2) \<Rightarrow> (Inl Rpc_internal, s2, t)
                      | (Denied d, s2) \<Rightarrow> (Inl (gateDenialToRpcError d), s2, t)
                      | (Allowed, s2) \<Rightarrow>
                          (case task_of_message E ctx recipientId m (s2, t) of
                             (Inl e, st) \<Rightarrow> (Inl e, st)
                           | (Inr task, s3, t3) \<Rightarrow>
                               (case createMessage E (task_message ctx recipientId body task) s3 of
                                  Inl _ \<Rightarrow> (Inl Rpc_internal, s3, t3)
                                | Inr ((messageId, _), s4) \<Rightarrow> (Inr task, s4, linkMessage (tk_id task) messageId t3)))))"

definition tasksGet :: "a2a_context \<Rightarrow> json option \<Rightarrow> a2a_store \<Rightarrow> rpc_error + a2a_task" where
  "tasksGet ctx params t =
     (case assertObject params of
        Inl e \<Rightarrow> Inl e
      | Inr p \<Rightarrow>
          (case requireString p ''id'' of
             Inl e \<Rightarrow> Inl e
           | Inr taskId \<Rightarrow>
               (case requireOwnTask ctx taskId t of
                  Inl e \<Rightarrow> Inl e
                | Inr task \<Rightarrow> Inr (if json_get p ''historyLength'' = Some (JNum 0) then task\<lparr> tk_history := [] \<rparr> else task))))"

definition tasksList :: "a2a_context \<Rightarrow> json option \<Rightarrow> a2a_store \<Rightarrow> a2a_task list \<times> nat" where
  "tasksList ctx params t =
     (let p = (case params of Some (JObj ms) \<Rightarrow> JObj ms | _ \<Rightarrow> JObj []);
          limit = (case json_get p ''limit'' of Some (JNum n) \<Rightarrow> min (max 1 n) 200 | _ \<Rightarrow> 50);
          offset = (case json_get p ''offset'' of Some (JNum n) \<Rightarrow> max 0 n | _ \<Rightarrow> 0)
      in listTasks (cx_senderFleetId ctx) (cx_senderAgentId ctx) (cx_targetAgentId ctx) (string_member p ''state'') limit offset t)"

definition tasksCancel :: "env \<Rightarrow> a2a_context \<Rightarrow> json option \<Rightarrow> a2a_store \<Rightarrow> (rpc_error + a2a_task) \<times> a2a_store" where
  "tasksCancel E ctx params t =
     (case assertObject params of
        Inl e \<Rightarrow> (Inl e, t)
      | Inr p \<Rightarrow>
          (case requireString p ''id'' of
             Inl e \<Rightarrow> (Inl e, t)
           | Inr taskId \<Rightarrow>
               (case requireOwnTask ctx taskId t of
                  Inl e \<Rightarrow> (Inl e, t)
                | Inr existing \<Rightarrow>
                    if tk_state existing \<in> set TERMINAL_STATES then (Inl (Task_not_cancelable taskId), t)
                    else
                      (case cancelTask E taskId t of
                         (Inl e, t') \<Rightarrow> (Inl e, t')
                       | (Inr None, t') \<Rightarrow> (Inl (Task_not_found taskId), t')
                       | (Inr (Some task), t') \<Rightarrow> (Inr task, t')))))"

section \<open>Dispatch\<close>

text \<open>The method and parameters of a request body, once its envelope is accepted.\<close>

definition parseRequest :: "json option \<Rightarrow> rpc_error + string \<times> json option" where
  "parseRequest raw =
     (case raw of
        Some (JObj ms) \<Rightarrow>
          if map_of ms ''jsonrpc'' \<noteq> Some (JStr ''2.0'') then Inl Invalid_request
          else (case map_of ms ''method'' of Some (JStr m) \<Rightarrow> Inr (m, map_of ms ''params'') | _ \<Rightarrow> Inl Invalid_request)
      | _ \<Rightarrow> Inl Invalid_request)"

datatype rpc_result = Task_result a2a_task | List_result "a2a_task list" nat

definition as_task :: "(rpc_error + a2a_task) \<Rightarrow> rpc_error + rpc_result" where
  "as_task r = (case r of Inl e \<Rightarrow> Inl e | Inr task \<Rightarrow> Inr (Task_result task))"

text \<open>
  \<^verbatim>\<open>handleJsonRpc\<close> for an authenticated agent (id, fleet, status).  The route of an agent resolves its target in the
  caller's fleet first; without one it answers 404, here \<open>None\<close>.
\<close>

definition handleJsonRpc ::
  "env \<Rightarrow> extension list \<Rightarrow> a2a_context \<Rightarrow> json option \<Rightarrow> store \<times> a2a_store \<Rightarrow> (rpc_error + rpc_result) \<times> store \<times> a2a_store" where
  "handleJsonRpc E exts ctx body = (\<lambda>(s, t).
     case parseRequest body of
       Inl e \<Rightarrow> (Inl e, s, t)
     | Inr (meth, params) \<Rightarrow>
         if meth = ''message/send'' \<or> meth = ''message/stream'' then apfst as_task (messageSend E exts ctx params (s, t))
         else if meth = ''tasks/get'' \<or> meth = ''tasks/resubscribe'' then (as_task (tasksGet ctx params t), s, t)
         else if meth = ''tasks/list'' then (Inr (case tasksList ctx params t of (ts, n) \<Rightarrow> List_result ts n), s, t)
         else if meth = ''tasks/cancel'' then (case tasksCancel E ctx params t of (r, t') \<Rightarrow> (as_task r, s, t'))
         else (Inl (Method_not_found meth), s, t))"

definition a2aRoute ::
  "env \<Rightarrow> extension list \<Rightarrow> string \<times> string \<times> string \<Rightarrow> string option \<Rightarrow> json option \<Rightarrow> store \<times> a2a_store
   \<Rightarrow> (rpc_error + rpc_result) option \<times> store \<times> a2a_store" where
  "a2aRoute E exts = (\<lambda>(agentId, fleetId, status) path body (s, t).
     let ctx = (\<lambda>target. \<lparr> cx_senderAgentId = agentId, cx_senderFleetId = fleetId, cx_senderStatus = status, cx_targetAgentId = target \<rparr>) in
     case path of
       None \<Rightarrow> apfst Some (handleJsonRpc E exts (ctx None) body (s, t))
     | Some a \<Rightarrow>
         (case findFleetAgent s fleetId a of
            None \<Rightarrow> (None, s, t)
          | Some target \<Rightarrow> apfst Some (handleJsonRpc E exts (ctx (Some (ag_id target))) body (s, t))))"

section \<open>What a call does\<close>

lemma normalize_draws:
  assumes "normalizeInboundMessage E raw s = (r, s1)"
  shows "\<exists>n. s1 = s\<lparr> draws := n \<rparr>"
proof -
  have same: "\<exists>n. s = s\<lparr> draws := n \<rparr>" by (rule exI [of _ "draws s"]) simp
  from assms same show ?thesis
    by (auto simp: normalizeInboundMessage_def Let_def split: sum.splits option.splits json.splits list.splits)
qed

lemma createTask_draws:
  assumes "createTask E f a sa c im md (s, t) = (r, s', t')"
  shows "\<exists>n. s' = s\<lparr> draws := n \<rparr>"
  using assms by (auto simp: createTask_def Let_def split: option.splits if_splits)

lemma task_of_message_draws:
  assumes "task_of_message E ctx rid m (s, t) = (r, s', t')"
  shows "\<exists>n. s' = s\<lparr> draws := n \<rparr>"
proof (cases "truthy (am_taskId m)")
  case True
  then have "s' = s" using assms by (auto simp: task_of_message_def Let_def split: option.splits if_splits)
  then show ?thesis by (intro exI [of _ "draws s"]) simp
next
  case False
  with assms createTask_draws show ?thesis by (simp add: task_of_message_def)
qed

text \<open>A send stops before the gate, at the gate, after it, or is carried.\<close>

lemma messageSend_cases:
  assumes "messageSend E exts ctx params (s, t) = (r, s', t')"
  obtains (early) n e where "s' = s\<lparr> draws := n \<rparr>" "t' = t" "r = Inl e"
  | (gated) n rid body meta v e where "evaluateMessageGate E exts (cx_senderAgentId ctx, cx_senderFleetId ctx, cx_senderStatus ctx) (Some rid)
        ''a2a.message'' ''normal'' body meta (s\<lparr> draws := n \<rparr>) = (v, s')" "v \<noteq> Allowed" "t' = t" "r = Inl e"
  | (stopped) n rid body m s2 x e where "evaluateMessageGate E exts (cx_senderAgentId ctx, cx_senderFleetId ctx, cx_senderStatus ctx) (Some rid)
        ''a2a.message'' ''normal'' body (am_metadata m) (s\<lparr> draws := n \<rparr>) = (Allowed, s2)"
      "task_of_message E ctx rid m (s2, t) = (x, s', t')" "r = Inl e"
  | (carried) n rid body m s2 task s3 t3 mid at where "evaluateMessageGate E exts (cx_senderAgentId ctx, cx_senderFleetId ctx, cx_senderStatus ctx) (Some rid)
        ''a2a.message'' ''normal'' body (am_metadata m) (s\<lparr> draws := n \<rparr>) = (Allowed, s2)"
      "findFleetAgent s (cx_senderFleetId ctx) rid \<noteq> None"
      "task_of_message E ctx rid m (s2, t) = (Inr task, s3, t3)"
      "createMessage E (task_message ctx rid body task) s3 = Inr ((mid, at), s')" "t' = linkMessage (tk_id task) mid t3" "r = Inr task"
proof -
  have same: "s = s\<lparr> draws := draws s \<rparr>" by simp
  show thesis
  proof (cases "assertObject params")
    case (Inl e)
    with assms show thesis by (intro early [of "draws s" e]) (simp_all add: messageSend_def)
  next
    case (Inr p)
    obtain y s1 where y: "normalizeInboundMessage E (json_get p ''message'') s = (y, s1)" by fastforce
    obtain n where n: "s1 = s\<lparr> draws := n \<rparr>" using normalize_draws [OF y] by blast
    have ff: "findFleetAgent (s\<lparr> draws := n \<rparr>) f a = findFleetAgent s f a" for f a by (simp add: findFleetAgent_def)
    show thesis
    proof (cases "\<exists>m body sm. y = Inr m \<and> truthy (recipient_of ctx p m) \<and> findFleetAgent s1 (cx_senderFleetId ctx) (the (recipient_of ctx p m)) \<noteq> None
        \<and> messageToEkhoBody m = Inr (body, sm)")
      case False
      then have "\<exists>e. r = Inl e \<and> s' = s1 \<and> t' = t"
        using assms by (auto simp: messageSend_def Inr y Let_def split: sum.splits if_splits prod.splits)
      with n early show thesis by blast
    next
      case True
      then obtain m body sm where m: "y = Inr m" "truthy (recipient_of ctx p m)" "messageToEkhoBody m = Inr (body, sm)"
        "findFleetAgent s1 (cx_senderFleetId ctx) (the (recipient_of ctx p m)) \<noteq> None" by blast
      let ?rid = "the (recipient_of ctx p m)"
      obtain v s2 where g: "evaluateMessageGate E exts (cx_senderAgentId ctx, cx_senderFleetId ctx, cx_senderStatus ctx) (Some ?rid)
        ''a2a.message'' ''normal'' body (am_metadata m) (s\<lparr> draws := n \<rparr>) = (v, s2)" by fastforce
      note a = assms [unfolded messageSend_def prod.case Inr sum.case y m(1) Let_def m(3) n g]
      note a = a [unfolded n [symmetric] if_not_P [OF m(4)]] m(2,4)
      show thesis
      proof (cases "v = Allowed")
        case False
        with a have "t' = t \<and> s' = s2 \<and> (\<exists>e. r = Inl e)" by (cases v) auto
        with g False gated show thesis by blast
      next
        case True
        obtain x s3 t3 where tm: "task_of_message E ctx ?rid m (s2, t) = (x, s3, t3)" by (metis prod.collapse)
        from a True tm show thesis
          by (cases x; cases "createMessage E (task_message ctx ?rid body (projr x)) s3")
            (auto intro: stopped [OF g [unfolded True]] carried [OF g [unfolded True]] simp: n ff)
      qed
    qed
  qed
qed

section \<open>Whose tasks a caller sees\<close>

definition a2a_ok :: "a2a_store \<Rightarrow> bool" where
  "a2a_ok t \<longleftrightarrow> distinct (map ta_id (a2a_tasks t))"

lemma select_task:
  "a2a_ok t \<Longrightarrow> r \<in> set (a2a_tasks t) \<Longrightarrow> select_one (\<lambda>x. ta_id x = ta_id r) (a2a_tasks t) = Some r"
  unfolding a2a_ok_def by (rule select_one_unique)

text \<open>A task as the caller may see it: a row of the caller's fleet with the caller on it, with or without its history.\<close>

definition own_task :: "string \<Rightarrow> string \<Rightarrow> a2a_store \<Rightarrow> a2a_task \<Rightarrow> bool" where
  "own_task f a t tk \<longleftrightarrow> (\<exists>r\<in>set (a2a_tasks t). ta_fleet_id r = f \<and> participant a r \<and>
     (tk = rowToTask r \<or> tk = (rowToTask r)\<lparr> tk_history := [] \<rparr>))"

lemma own_taskI: "r \<in> set (a2a_tasks t) \<Longrightarrow> ta_fleet_id r = f \<Longrightarrow> participant a r \<Longrightarrow> tk = rowToTask r \<Longrightarrow> own_task f a t tk"
  by (auto simp: own_task_def)

lemma getTask_update:
  assumes "select_one (\<lambda>r. ta_id r = k) (a2a_tasks t) = Some r" "\<And>r. ta_id (u r) = ta_id r"
  shows "getTask k (t\<lparr> a2a_tasks := update_where (\<lambda>r. ta_id r = k) u (a2a_tasks t) \<rparr>) = Some (rowToTask (u r))"
    "u r \<in> set (update_where (\<lambda>r. ta_id r = k) u (a2a_tasks t))"
proof -
  have k: "ta_id r = k" "r \<in> set (a2a_tasks t)" using select_one_Some [OF assms(1)] by simp_all
  have "select_one (\<lambda>r. ta_id r = k) (update_where (\<lambda>r. ta_id r = k) u (a2a_tasks t)) = Some (u r)"
    using select_one_update [of "\<lambda>r. ta_id r = k" "\<lambda>r. ta_id r = k" u "a2a_tasks t"] assms(2) k by (simp add: assms(1))
  then show "getTask k (t\<lparr> a2a_tasks := update_where (\<lambda>r. ta_id r = k) u (a2a_tasks t) \<rparr>) = Some (rowToTask (u r))"
    by (simp add: getTask_def)
  show "u r \<in> set (update_where (\<lambda>r. ta_id r = k) u (a2a_tasks t))" using k by (auto simp: in_update_where)
qed

lemma getTask_row: "getTask k t = Some tk \<Longrightarrow> \<exists>r. select_one (\<lambda>r. ta_id r = k) (a2a_tasks t) = Some r \<and> tk = rowToTask r"
  by (auto simp: getTask_def)

lemma task_of_message_own:
  assumes "task_of_message E ctx rid m (s, t) = (Inr task, s', t')"
  shows "own_task (cx_senderFleetId ctx) (cx_senderAgentId ctx) t' task"
proof (cases "truthy (am_taskId m)")
  case False
  with assms show ?thesis
    by (auto simp: task_of_message_def createTask_def Let_def participant_def intro!: own_taskI split: if_splits)
next
  case True
  let ?k = "the (am_taskId m)"
  obtain r where r: "select_one (\<lambda>r. ta_id r = ?k) (a2a_tasks t) = Some r" "ta_fleet_id r = cx_senderFleetId ctx"
      "participant (cx_senderAgentId ctx) r" "t' = snd (appendMessage E ?k m t)" "getTask ?k t' = Some task"
    using assms True by (auto simp: task_of_message_def taskParticipants_def participant_def Let_def split: option.splits if_splits)
  let ?u = "\<lambda>x. x\<lparr> ta_history := ta_history r @ [m], ta_updated_at := now E \<rparr>"
  have t': "t' = t\<lparr> a2a_tasks := update_where (\<lambda>r. ta_id r = ?k) ?u (a2a_tasks t) \<rparr>"
    using r(1,4) by (simp add: appendMessage_def getTask_def rowToTask_def)
  note g = getTask_update [OF r(1), of ?u]
  have "task = rowToTask (?u r)" using g(1) r(5) unfolding t' by simp
  moreover have "?u r \<in> set (a2a_tasks t')" using g(2) unfolding t' by simp
  ultimately show ?thesis using r(2,3) by (intro own_taskI [of "?u r"]) (simp_all add: participant_def)
qed

lemma requireOwnTask_own:
  assumes "requireOwnTask ctx k t = Inr tk"
  obtains r where "r \<in> set (a2a_tasks t)" "ta_id r = k" "ta_fleet_id r = cx_senderFleetId ctx" "participant (cx_senderAgentId ctx) r" "tk = rowToTask r"
  using assms by (auto simp: requireOwnTask_def getTaskForParticipant_def split: option.splits dest!: select_one_Some)

lemma updateStatus_row:
  assumes "select_one (\<lambda>r. ta_id r = k) (a2a_tasks t) = Some r" "ta_state r \<notin> set TERMINAL_STATES"
  shows "updateStatus E k st msg t = (Inr True, t\<lparr> a2a_tasks := update_where (\<lambda>r. ta_id r = k)
     (\<lambda>x. x\<lparr> ta_state := st, ta_history := ta_history r @ (case msg of None \<Rightarrow> [] | Some m \<Rightarrow> [m]), ta_updated_at := now E \<rparr>) (a2a_tasks t) \<rparr>)"
  using assms by (simp add: updateStatus_def getTask_def rowToTask_def)

lemma tasksCancel_own:
  assumes "tasksCancel E ctx params t = (Inr tk, t')" "a2a_ok t"
  shows "own_task (cx_senderFleetId ctx) (cx_senderAgentId ctx) t' tk"
proof -
  from assms(1) obtain k ex where k: "requireOwnTask ctx k t = Inr ex" "tk_state ex \<notin> set TERMINAL_STATES" "cancelTask E k t = (Inr (Some tk), t')"
    by (auto simp: tasksCancel_def split: sum.splits option.splits if_splits prod.splits)
  from k(1) obtain r where r: "r \<in> set (a2a_tasks t)" "ta_id r = k" "ta_fleet_id r = cx_senderFleetId ctx"
    "participant (cx_senderAgentId ctx) r" "ex = rowToTask r" by (rule requireOwnTask_own)
  have s: "select_one (\<lambda>r. ta_id r = k) (a2a_tasks t) = Some r" using select_task [OF assms(2) r(1)] r(2) by simp
  have live: "ta_state r \<notin> set TERMINAL_STATES" using k(2) r(5) by (simp add: rowToTask_def)
  let ?u = "\<lambda>x. x\<lparr> ta_state := ''canceled'', ta_history := ta_history r @ [], ta_updated_at := now E \<rparr>"
  have "(Inr (Some tk), t') = (Inr (getTask k t'), t') \<and> t' = t\<lparr> a2a_tasks := update_where (\<lambda>r. ta_id r = k) ?u (a2a_tasks t) \<rparr>"
    using k(3) updateStatus_row [OF s live, of E "''canceled''" None] live s by (auto simp: cancelTask_def getTask_def rowToTask_def)
  with getTask_update [OF s, of ?u] r(3,4) show ?thesis
    by (intro own_taskI [of "?u r"]) (auto simp: participant_def)
qed

lemma listTasks_own:
  assumes "listTasks f a c st l off t = (ts, n)" "tk \<in> set ts"
  shows "own_task f a t tk"
proof -
  from assms obtain r where "r \<in> set (select_all (\<lambda>r. ta_fleet_id r = f \<and> participant a r
      \<and> (truthy c \<longrightarrow> participant (the c) r) \<and> (truthy st \<longrightarrow> ta_state r = the st)) (a2a_tasks t))" "tk = rowToTask r"
    by (auto simp: listTasks_def Let_def dest!: subsetD [OF set_limit_rows] in_set_dropD)
  then show ?thesis by (intro own_taskI [of r]) (simp_all add: sql)
qed

lemma handleJsonRpc_cases:
  assumes "handleJsonRpc E exts ctx body (s, t) = (r, s', t')"
  obtains (send) params x where "messageSend E exts ctx params (s, t) = (x, s', t')" "r = as_task x"
  | (get) params where "r = as_task (tasksGet ctx params t)" "t' = t"
  | (list) params ts n where "tasksList ctx params t = (ts, n)" "r = Inr (List_result ts n)" "t' = t"
  | (cancel) params x where "tasksCancel E ctx params t = (x, t')" "r = as_task x"
  | (bad) e where "r = Inl e" "t' = t"
proof (cases "parseRequest body")
  case (Inl e)
  with assms show ?thesis by (intro bad [of e]) (simp_all add: handleJsonRpc_def)
next
  case (Inr mp)
  obtain meth params where p: "parseRequest body = Inr (meth, params)" using Inr by (cases mp) simp
  note a = assms [unfolded handleJsonRpc_def prod.case p sum.case]
  obtain x s1 t1 where m: "messageSend E exts ctx params (s, t) = (x, s1, t1)" by (metis prod.collapse)
  obtain ts n where l: "tasksList ctx params t = (ts, n)" by (metis prod.collapse)
  obtain y t2 where c: "tasksCancel E ctx params t = (y, t2)" by (metis prod.collapse)
  consider "meth = ''message/send'' \<or> meth = ''message/stream''"
    | "\<not> (meth = ''message/send'' \<or> meth = ''message/stream'')" "meth = ''tasks/get'' \<or> meth = ''tasks/resubscribe''"
    | "\<not> (meth = ''message/send'' \<or> meth = ''message/stream'')" "\<not> (meth = ''tasks/get'' \<or> meth = ''tasks/resubscribe'')" by satx
  then show ?thesis
  proof cases
    case 1
    show ?thesis by (rule send [of params x]) (use a m 1 in \<open>simp_all only: if_True, simp_all add: apfst_def\<close>)
  next
    case 2
    show ?thesis by (rule get [of params]) (use a 2 in \<open>simp_all only: if_True if_False, simp_all\<close>)
  next
    case 3
    note b = a [unfolded if_not_P [OF 3(1)] if_not_P [OF 3(2)]]
    show ?thesis
    proof (cases "meth = ''tasks/list''")
      case True
      show ?thesis by (rule list [of params ts n]) (use b True l in \<open>simp_all only: if_True, simp_all\<close>)
    next
      case False
      show ?thesis
      proof (cases "meth = ''tasks/cancel''")
        case True
        show ?thesis by (rule cancel [of params y]) (use b False True c in \<open>simp_all only: if_True if_False, simp_all\<close>)
      next
        case neq: False
        show ?thesis by (rule bad [of "Method_not_found meth"]) (use b False neq in \<open>simp_all only: if_False, simp_all\<close>)
      qed
    qed
  qed
qed

definition shown :: "rpc_result \<Rightarrow> a2a_task set" where
  "shown r = (case r of Task_result tk \<Rightarrow> {tk} | List_result ts _ \<Rightarrow> set ts)"

text \<open>
  C32: an agent sees only its own tasks.  Whatever method an authenticated agent calls, with whatever parameters and
  over either endpoint, every task in the answer is a task of its fleet on which it stands as sender or as
  recipient.  A task of other agents is answered like one that does not exist.
\<close>

theorem a2a_discloses_own_tasks:
  assumes "a2aRoute E exts (agentId, fleetId, status) path body (s, t) = (Some (Inr res), s', t')" "a2a_ok t" "tk \<in> shown res"
  shows "own_task fleetId agentId t' tk"
proof -
  obtain target where h: "handleJsonRpc E exts \<lparr> cx_senderAgentId = agentId, cx_senderFleetId = fleetId, cx_senderStatus = status,
      cx_targetAgentId = target \<rparr> body (s, t) = (Inr res, s', t')"
    using assms(1) by (auto simp: a2aRoute_def Let_def apfst_def map_prod_def split: option.splits prod.splits)
  define ctx where "ctx = \<lparr> cx_senderAgentId = agentId, cx_senderFleetId = fleetId, cx_senderStatus = status, cx_targetAgentId = target \<rparr>"
  have c: "cx_senderAgentId ctx = agentId" "cx_senderFleetId ctx = fleetId" "handleJsonRpc E exts ctx body (s, t) = (Inr res, s', t')"
    using h by (simp_all add: ctx_def)
  from c(3) show ?thesis
  proof (cases rule: handleJsonRpc_cases)
    case (send params x)
    then obtain task where task: "messageSend E exts ctx params (s, t) = (Inr task, s', t')" "res = Task_result task"
      by (auto simp: as_task_def split: sum.splits)
    from task(1) show ?thesis
    proof (cases rule: messageSend_cases)
      case (carried n rid body m s2 task' s3 t3 mid at)
      with task_of_message_own [OF carried(3)] task assms(3) c(1,2) show ?thesis
        by (simp add: shown_def own_task_def linkMessage_def)
    qed simp_all
  next
    case (get params)
    then obtain task k ex where "requireOwnTask ctx k t = Inr ex" "task = ex \<or> task = ex\<lparr> tk_history := [] \<rparr>" "res = Task_result task"
      by (auto simp: tasksGet_def as_task_def split: sum.splits if_splits)
    then show ?thesis
      using get assms(3) c(1,2) by (elim requireOwnTask_own) (auto simp: shown_def own_task_def)
  next
    case (list params ts n)
    then show ?thesis using listTasks_own assms(3) c(1,2) by (auto simp: tasksList_def Let_def shown_def)
  next
    case (cancel params x)
    then obtain task where "tasksCancel E ctx params t = (Inr task, t')" "res = Task_result task"
      by (auto simp: as_task_def split: sum.splits)
    then show ?thesis using tasksCancel_own [OF _ assms(2)] assms(3) c(1,2) by (auto simp: shown_def)
  qed simp
qed

section \<open>A finished task stays as it is\<close>

text \<open>What a row of the table may become.\<close>

definition follows :: "task_row \<Rightarrow> task_row \<Rightarrow> bool" where
  "follows r r' \<longleftrightarrow>
     (ta_id r', ta_fleet_id r', ta_agent_id r', ta_sender_agent_id r', ta_context_id r', ta_created_at r') =
       (ta_id r, ta_fleet_id r, ta_agent_id r, ta_sender_agent_id r, ta_context_id r, ta_created_at r) \<and>
     prefix (ta_history r) (ta_history r') \<and>
     (ta_state r \<in> set TERMINAL_STATES \<longrightarrow> ta_state r' = ta_state r \<and> ta_history r' = ta_history r)"

lemma follows_refl [simp]: "follows r r"
  by (simp add: follows_def)

lemma follows_trans: "follows r r' \<Longrightarrow> follows r' r'' \<Longrightarrow> follows r r''"
  by (auto simp: follows_def)

definition carries_on :: "a2a_store \<Rightarrow> a2a_store \<Rightarrow> bool" where
  "carries_on t t' \<longleftrightarrow> a2a_ok t' \<and> (\<forall>r\<in>set (a2a_tasks t). \<exists>r'\<in>set (a2a_tasks t'). follows r r')"

lemma carries_on_same: "a2a_ok t \<Longrightarrow> a2a_tasks t' = a2a_tasks t \<Longrightarrow> carries_on t t'"
  unfolding carries_on_def a2a_ok_def by (metis follows_refl)

lemma carries_on_new:
  assumes "a2a_ok t" "a2a_tasks t' = a2a_tasks t @ [r]" "ta_id r \<notin> ta_id ` set (a2a_tasks t)"
  shows "carries_on t t'"
proof -
  have "\<exists>r'\<in>set (a2a_tasks t'). follows q r'" if "q \<in> set (a2a_tasks t)" for q
    using that by (intro bexI [of _ q]) (simp_all add: assms(2))
  then show ?thesis using assms by (simp add: carries_on_def a2a_ok_def)
qed

lemma carries_on_update:
  assumes "a2a_ok t" "a2a_tasks t' = update_where (\<lambda>r. ta_id r = k) u (a2a_tasks t)"
    and "\<And>r. select_one (\<lambda>r. ta_id r = k) (a2a_tasks t) = Some r \<Longrightarrow> follows r (u r)" "\<And>r. ta_id (u r) = ta_id r"
  shows "carries_on t t'"
proof -
  have "\<exists>r'\<in>set (a2a_tasks t'). follows r r'" if r: "r \<in> set (a2a_tasks t)" for r
  proof (cases "ta_id r = k")
    case True
    with select_task [OF assms(1) r] assms(3) have "follows r (u r)" by simp
    moreover have "u r \<in> set (a2a_tasks t')" using r True by (auto simp: assms(2) in_update_where)
    ultimately show ?thesis by blast
  next
    case False
    with r have "r \<in> set (a2a_tasks t')" by (auto simp: assms(2) in_update_where)
    then show ?thesis by (rule bexI [rotated]) simp
  qed
  moreover have "a2a_ok t'" using assms(1,2,4) by (simp add: a2a_ok_def)
  ultimately show ?thesis by (simp add: carries_on_def)
qed

lemma updateStatus_carries:
  assumes "a2a_ok t"
  shows "carries_on t (snd (updateStatus E k st msg t))"
proof (cases "\<exists>r. select_one (\<lambda>r. ta_id r = k) (a2a_tasks t) = Some r \<and> ta_state r \<notin> set TERMINAL_STATES")
  case True
  then obtain r where r: "select_one (\<lambda>r. ta_id r = k) (a2a_tasks t) = Some r" "ta_state r \<notin> set TERMINAL_STATES" by blast
  show ?thesis
    by (rule carries_on_update [OF assms, where k = k and u = "\<lambda>x. x\<lparr> ta_state := st,
          ta_history := ta_history r @ (case msg of None \<Rightarrow> [] | Some m \<Rightarrow> [m]), ta_updated_at := now E \<rparr>"])
      (use r in \<open>simp_all add: updateStatus_row [OF r] follows_def\<close>)
next
  case False
  then show ?thesis
    by (intro carries_on_same assms) (auto simp: updateStatus_def getTask_def rowToTask_def Let_def split: option.splits)
qed

lemma appendArtifact_carries:
  assumes "a2a_ok t"
  shows "carries_on t (snd (appendArtifact E k art t))"
proof (cases "getTask k t")
  case None
  then show ?thesis by (intro carries_on_same assms) (simp add: appendArtifact_def)
next
  case (Some task)
  show ?thesis
    by (rule carries_on_update [OF assms, where k = k and u = "\<lambda>r. r\<lparr> ta_artifacts := tk_artifacts task @ [art], ta_updated_at := now E \<rparr>"])
      (simp_all add: appendArtifact_def Some follows_def)
qed

lemma task_of_message_carries:
  assumes "task_of_message E ctx rid m (s, t) = (x, s', t')" "a2a_ok t"
  shows "carries_on t t'"
proof (cases "truthy (am_taskId m)")
  case False
  show ?thesis
  proof (cases "t' = t")
    case True
    with assms(2) show ?thesis by (intro carries_on_same) simp_all
  next
    case new: False
    then obtain r where "a2a_tasks t' = a2a_tasks t @ [r]" "\<not> select_exists (\<lambda>x. ta_id x = ta_id r) (a2a_tasks t)"
      using assms(1) False by (auto simp: task_of_message_def createTask_def Let_def split: if_splits)
    with assms(2) show ?thesis by (intro carries_on_new) (auto simp: select_exists_iff)
  qed
next
  case True
  let ?k = "the (am_taskId m)"
  show ?thesis
  proof (cases "t' = t")
    case True
    with assms(2) show ?thesis by (intro carries_on_same) simp_all
  next
    case False
    then obtain r where r: "select_one (\<lambda>r. ta_id r = ?k) (a2a_tasks t) = Some r" "ta_state r \<notin> set TERMINAL_STATES"
        "t' = snd (appendMessage E ?k m t)"
      using assms(1) True by (auto simp: task_of_message_def getTask_def rowToTask_def Let_def split: option.splits if_splits)
    show ?thesis
      by (rule carries_on_update [OF assms(2), where k = ?k and u = "\<lambda>x. x\<lparr> ta_history := ta_history r @ [m], ta_updated_at := now E \<rparr>"])
        (use r in \<open>simp_all add: appendMessage_def getTask_def rowToTask_def follows_def\<close>)
  qed
qed

lemma linkMessage_tasks [simp]: "a2a_tasks (linkMessage k mid t) = a2a_tasks t"
  by (simp add: linkMessage_def)

lemma carries_on_link: "carries_on t t' \<Longrightarrow> carries_on t (linkMessage k mid t')"
  by (simp add: carries_on_def a2a_ok_def)

lemma cancelTask_carries: "a2a_ok t \<Longrightarrow> carries_on t (snd (cancelTask E k t))"
  using updateStatus_carries [of t E k "''canceled''" None]
  by (auto simp: cancelTask_def carries_on_same split: option.splits sum.splits prod.splits)

lemma handleJsonRpc_carries:
  assumes "handleJsonRpc E exts ctx body (s, t) = (r, s', t')" "a2a_ok t"
  shows "carries_on t t'"
proof -
  have send: "carries_on t t'" if "messageSend E exts ctx params (s, t) = (x, s', t')" for params x
    using that
  proof (cases rule: messageSend_cases)
    case (stopped n rid body m s2 y e)
    with task_of_message_carries assms(2) show ?thesis by blast
  next
    case (carried n rid body m s2 task s3 t3 mid at)
    with task_of_message_carries [OF carried(3) assms(2)] carries_on_link show ?thesis by simp
  qed (use assms(2) carries_on_same in auto)
  have cancel: "carries_on t t'" if "tasksCancel E ctx params t = (x, t')" for params x
    using that cancelTask_carries [OF assms(2), of E] carries_on_same [OF assms(2), of t']
    by (auto simp: tasksCancel_def split: sum.splits if_splits prod.splits option.splits) (metis snd_conv)+
  from assms(1) show ?thesis
    by (cases rule: handleJsonRpc_cases) (use send cancel carries_on_same [OF assms(2), of t] in auto)
qed

inductive a2a_step :: "store \<times> a2a_store \<Rightarrow> store \<times> a2a_store \<Rightarrow> bool" where
  Call: "a2aRoute E exts agent path body st = (r, st') \<Longrightarrow> a2a_step st st'"
| Status: "a2a_step (s, t) (s, snd (updateStatus E k state msg t))"
| Artifact: "a2a_step (s, t) (s, snd (appendArtifact E k art t))"
| Elsewhere: "a2a_step (s, t) (s', t)"

lemma a2a_step_carries:
  assumes "a2a_step st st'" "a2a_ok (snd st)"
  shows "carries_on (snd st) (snd st')"
  using assms
proof cases
  case (Call E exts agent path body r)
  with assms(2) carries_on_same [OF assms(2) refl] handleJsonRpc_carries show ?thesis
    by (cases st; cases st'; cases agent)
      (auto simp: a2aRoute_def Let_def apfst_def map_prod_def split: option.splits prod.splits; fastforce)
qed (use updateStatus_carries appendArtifact_carries carries_on_same in auto)

text \<open>
  A finished task is final.  Once a task is completed, failed, canceled or rejected, no later call of any agent, no
  status update and no new artifact changes its state or its history; and for as long as a task lives, its
  fleet, its two participants and its context never change, and its history only grows.
\<close>

theorem finished_task_final:
  assumes "reach st a2a_step st'" "a2a_ok (snd st)" "r \<in> set (a2a_tasks (snd st))"
  shows "\<exists>r'\<in>set (a2a_tasks (snd st')). follows r r'"
proof -
  have "carries_on (snd st) (snd st')"
    using assms(1)
  proof (induction rule: reach.induct)
    case reach_start
    with assms(2) show ?case by (simp add: carries_on_same)
  next
    case (reach_step u v)
    then have "carries_on (snd u) (snd v)" using a2a_step_carries by (simp add: carries_on_def)
    with reach_step.IH show ?case unfolding carries_on_def by (meson follows_trans)
  qed
  with assms(3) show ?thesis by (simp add: carries_on_def)
qed

section \<open>What is carried\<close>

lemma gate_allowed_store:
  assumes "evaluateMessageGate E exts (a, f, st) r ty pr body meta s = (Allowed, s2)"
  shows "s2 = s\<lparr> rate_limit_counters := rate_limit_counters s2 \<rparr>"
proof -
  have a: "\<not> (st = ''quarantined'' \<or> st = ''paused'')"
    "count_at (open_counter a (windowStart E) (rate_limit_counters s)) a (windowStart E) < rateLimitMaxMessages (cfg E)"
    using assms by (auto simp: evaluateMessageGate_def checkAndIncrementRateLimit_def Let_def not_le [symmetric] split: if_splits option.splits prod.splits)
  then show ?thesis
    using assms evaluateMessagePolicies_cases
      [of E f a r ty pr "s\<lparr> rate_limit_counters := bump_counter a (windowStart E) (open_counter a (windowStart E) (rate_limit_counters s)) \<rparr>"]
    by (auto simp: evaluateMessageGate_def checkAndIncrementRateLimit_def Let_def)
qed

lemma task_of_message_row:
  assumes "task_of_message E ctx rid m (s, t) = (Inr task, s', t')"
  obtains r where "r \<in> set (a2a_tasks t')" "ta_id r = tk_id task" "ta_fleet_id r = cx_senderFleetId ctx"
    "participant (cx_senderAgentId ctx) r" "participant rid r"
proof (cases "truthy (am_taskId m)")
  case False
  with assms show ?thesis
    by (auto simp: task_of_message_def createTask_def Let_def participant_def rowToTask_def split: if_splits intro: that)
next
  case True
  let ?k = "the (am_taskId m)"
  obtain r where r: "select_one (\<lambda>r. ta_id r = ?k) (a2a_tasks t) = Some r" "ta_fleet_id r = cx_senderFleetId ctx"
      "participant (cx_senderAgentId ctx) r" "participant rid r" "t' = snd (appendMessage E ?k m t)" "getTask ?k t' = Some task"
    using assms True by (auto simp: task_of_message_def taskParticipants_def participant_def Let_def split: option.splits if_splits)
  let ?u = "\<lambda>x. x\<lparr> ta_history := ta_history r @ [m], ta_updated_at := now E \<rparr>"
  have t': "t' = t\<lparr> a2a_tasks := update_where (\<lambda>r. ta_id r = ?k) ?u (a2a_tasks t) \<rparr>"
    using r(1,5) by (simp add: appendMessage_def getTask_def rowToTask_def)
  note g = getTask_update [OF r(1), of ?u]
  have "task = rowToTask (?u r)" using g(1) r(6) unfolding t' by simp
  moreover have "?u r \<in> set (a2a_tasks t')" using g(2) unfolding t' by simp
  ultimately show ?thesis using r(2-4) by (intro that [of "?u r"]) (simp_all add: participant_def rowToTask_def)
qed

text \<open>
  An A2A message is carried like any other and filed with its task.  When \<^verbatim>\<open>message/send\<close> answers with a task, exactly one
  message of the caller has been stored, of the caller's fleet, correlated with the task and linked to it,
  with one delivery; and its recipient and the caller are the participants of that task.
\<close>

theorem a2a_message_carried:
  assumes "messageSend E exts ctx params (s, t) = (Inr task, s', t')"
  shows "\<exists>m ds r rid. messages s' = messages s @ [m] \<and> message_deliveries s' = message_deliveries s @ ds \<and>
    ms_fleet_id m = cx_senderFleetId ctx \<and> ms_sender_agent_id m = cx_senderAgentId ctx \<and> ms_correlation_id m = tk_id task \<and>
    (tk_id task, ms_id m) \<in> set (a2a_task_messages t') \<and>
    map dl_recipient_agent_id ds = [rid] \<and> map dl_message_id ds = [ms_id m] \<and>
    r \<in> set (a2a_tasks t') \<and> ta_id r = tk_id task \<and> ta_fleet_id r = cx_senderFleetId ctx \<and>
    participant (cx_senderAgentId ctx) r \<and> participant rid r"
  using assms
proof (cases rule: messageSend_cases)
  case (carried n rid body m s2 task' s3 t3 mid at)
  then have tk: "task' = task" by simp
  obtain n3 where n3: "s3 = s2\<lparr> draws := n3 \<rparr>" using task_of_message_draws [OF carried(3)] by blast
  have st: "messages s3 = messages s" "message_deliveries s3 = message_deliveries s"
    using arg_cong [OF gate_allowed_store [OF carried(1)], of messages] arg_cong [OF gate_allowed_store [OF carried(1)], of message_deliveries]
    by (simp_all add: n3)
  let ?i = "task_message ctx rid body task"
  from carried(4) [unfolded tk] show ?thesis
  proof (rule createMessage_Inr)
    fix rids
    let ?m = "queued_message E ?i mid (message_conversation ?i)" and ?ds = "delivery_rows E mid (Suc (draws s3)) rids"
    assume c: "message_recipients s3 ?i (message_conversation ?i) = Inr rids" "messages s' = messages s3 @ [?m]"
      "message_deliveries s' = message_deliveries s3 @ ?ds"
    have rids: "rids = [rid]" using message_recipients_Inr(5) [OF c(1) refl] by (simp add: task_message_def)
    obtain r where r: "r \<in> set (a2a_tasks t3)" "ta_id r = tk_id task" "ta_fleet_id r = cx_senderFleetId ctx"
      "participant (cx_senderAgentId ctx) r" "participant rid r" by (rule task_of_message_row [OF carried(3) [unfolded tk]])
    have l: "(tk_id task, mid) \<in> set (a2a_task_messages t')" by (simp add: carried(5) tk linkMessage_def)
    have d: "map dl_message_id ?ds = [mid]" by (simp add: rids delivery_rows_def)
    show ?thesis
      using c(2,3) st r l d delivery_rows_map(1) [of E mid "Suc (draws s3)" rids] carried(5)
      by (intro exI [of _ ?m] exI [of _ ?ds] exI [of _ r] exI [of _ rid]) (simp add: rids queued_message_def task_message_def)
  qed
qed simp_all

section \<open>One allowance for both transports\<close>

datatype carriage = Native send_input | Rpc "string option" "json option"

definition carry_check ::
  "env \<times> extension list \<times> string \<times> string \<times> carriage \<Rightarrow> string \<Rightarrow> store \<times> a2a_store \<Rightarrow> bool \<times> store \<times> a2a_store" where
  "carry_check = (\<lambda>(E, exts, fleetId, status, c) agentId (s, t).
     case c of
       Native i \<Rightarrow> (sent (fst (sendMessage E exts (agentId, fleetId, status) i s)), snd (sendMessage E exts (agentId, fleetId, status) i s), t)
     | Rpc target params \<Rightarrow>
         let r = messageSend E exts \<lparr> cx_senderAgentId = agentId, cx_senderFleetId = fleetId, cx_senderStatus = status,
                   cx_targetAgentId = target \<rparr> params (s, t)
         in (\<not> isl (fst r), snd r))"

definition carry_other :: "env \<times> extension list \<times> string \<times> string \<times> carriage \<Rightarrow> store \<times> a2a_store \<Rightarrow> store \<times> a2a_store \<Rightarrow> bool" where
  "carry_other e st st' \<longleftrightarrow> (\<exists>fleetId. limit_other upload_check (fst e, fleetId) (fst st) (fst st'))"

lemma message_check_draws:
  "fst (message_check e a (s\<lparr> draws := n \<rparr>)) = fst (message_check e a s)"
  "rate_limit_counters (snd (message_check e a (s\<lparr> draws := n \<rparr>))) = rate_limit_counters (snd (message_check e a s))"
  by (cases e; simp add: message_check_counters cong: if_cong)+

lemma messageSend_counters:
  assumes "messageSend E exts ctx params (s, t) = (r, s', t')"
  shows "rate_limit_counters s' \<in> {rate_limit_counters s, rate_limit_counters (snd (message_check (E, cx_senderFleetId ctx) (cx_senderAgentId ctx) s))}"
    and "\<not> isl r \<Longrightarrow> fst (message_check (E, cx_senderFleetId ctx) (cx_senderAgentId ctx) s) \<and>
      rate_limit_counters s' = rate_limit_counters (snd (message_check (E, cx_senderFleetId ctx) (cx_senderAgentId ctx) s))"
proof -
  note mc = message_check_draws
  have task: "rate_limit_counters s3 = rate_limit_counters s2" if "task_of_message E ctx rid m (s2, t) = (x, s3, t3)" for rid m s2 x s3 t3
    using task_of_message_draws [OF that] by auto
  show "rate_limit_counters s' \<in> {rate_limit_counters s, rate_limit_counters (snd (message_check (E, cx_senderFleetId ctx) (cx_senderAgentId ctx) s))}"
    using assms
  proof (cases rule: messageSend_cases)
    case (gated n rid body meta v e)
    show ?thesis using gate_counters(1) [OF gated(1)] by (simp add: mc)
  next
    case (stopped n rid body m s2 x e)
    show ?thesis using gate_counters(1) [OF stopped(1)] task [OF stopped(2)] by (simp add: mc)
  next
    case (carried n rid body m s2 task s3 t3 mid at)
    show ?thesis
      using gate_counters(1) [OF carried(1)] task [OF carried(3)] createMessage_counters [OF carried(4)] by (simp add: mc)
  qed simp
  show "\<not> isl r \<Longrightarrow> fst (message_check (E, cx_senderFleetId ctx) (cx_senderAgentId ctx) s) \<and>
      rate_limit_counters s' = rate_limit_counters (snd (message_check (E, cx_senderFleetId ctx) (cx_senderAgentId ctx) s))"
    using assms
  proof (cases rule: messageSend_cases)
    case (carried n rid body m s2 task s3 t3 mid at)
    show ?thesis
      using gate_counters(2) [OF carried(1)] task [OF carried(3)] createMessage_counters [OF carried(4)] by (simp add: mc)
  qed simp_all
qed

lemma carry_check_counters:
  "rate_limit_counters (fst (snd (carry_check (E, x, f, st, c) a (s, t)))) \<in>
     {rate_limit_counters s, rate_limit_counters (snd (message_check (E, f) a s))}"
  "fst (carry_check (E, x, f, st, c) a (s, t)) \<Longrightarrow> fst (message_check (E, f) a s) \<and>
     rate_limit_counters (fst (snd (carry_check (E, x, f, st, c) a (s, t)))) = rate_limit_counters (snd (message_check (E, f) a s))"
proof -
  let ?cx = "\<lambda>target. \<lparr> cx_senderAgentId = a, cx_senderFleetId = f, cx_senderStatus = st, cx_targetAgentId = target \<rparr>"
  have rpc: "messageSend E x (?cx target) params (s, t) = (r, s', t') \<Longrightarrow>
      rate_limit_counters s' \<in> {rate_limit_counters s, rate_limit_counters (snd (message_check (E, f) a s))} \<and>
      (\<not> isl r \<longrightarrow> fst (message_check (E, f) a s) \<and> rate_limit_counters s' = rate_limit_counters (snd (message_check (E, f) a s)))" for target params r s' t'
    using messageSend_counters [of E x "?cx target" params s t r s' t'] by auto
  show "rate_limit_counters (fst (snd (carry_check (E, x, f, st, c) a (s, t)))) \<in>
     {rate_limit_counters s, rate_limit_counters (snd (message_check (E, f) a s))}"
    using send_check_counters(1) [of E x f st _ a s] rpc by (cases c) (auto simp: carry_check_def send_check_def Let_def, (metis prod.collapse)+)
  show "fst (carry_check (E, x, f, st, c) a (s, t)) \<Longrightarrow> fst (message_check (E, f) a s) \<and>
     rate_limit_counters (fst (snd (carry_check (E, x, f, st, c) a (s, t)))) = rate_limit_counters (snd (message_check (E, f) a s))"
    using send_check_counters(2) [of E x f st _ a s] rpc by (cases c) (auto simp: carry_check_def send_check_def Let_def, (metis prod.collapse)+)
qed

interpretation carriage_limit: window_limiter "\<lambda>e. cfg (fst e) = C \<and> 0 < rateLimitWindowSeconds C" "\<lambda>e. now (fst e)" "\<lambda>e. windowStart (fst e)"
  carry_check carry_other "\<lambda>st. count_at (rate_limit_counters (fst st))" "rateLimitMaxMessages C" "\<lambda>st. counters_ok (fst st)" for C
proof (unfold_locales, goal_cases)
  case (1 e e')
  then show ?case by (simp add: windowStart_mono)
next
  case (2 s k w)
  then show ?case by (rule count_at_nonneg)
next
  case (3 s e k)
  then show ?case
    using carry_check_counters(1) [of "fst e" _ _ _ _ k "fst s" "snd s"] check_keeps_ok(1) [of "fst s" _ k] unfolding counters_ok_def
    by (cases e) (simp, metis)
next
  case (4 e k s)
  then show ?case using carry_check_counters(2) [of _ _ _ _ _ k "fst s" "snd s"] by (cases e) (auto simp: message_check_counters)
next
  case (5 e k s)
  then show ?case using carry_check_counters(2) [of _ _ _ _ _ k "fst s" "snd s"] by (cases e) (auto simp: message_check_counters count_at_bump)
next
  case (6 s k' w e k)
  then show ?case
    using carry_check_counters(1) [of "fst e" _ _ _ _ k "fst s" "snd s"] check_keeps_counts(1) [of "fst s" k' w _ k]
    by (cases e) (simp, metis order_refl)
next
  case (7 e s t)
  then show ?case by (auto simp: carry_other_def intro: limit_other_ok)
next
  case (8 e s t w k)
  then obtain f where "limit_other upload_check (fst e, f) (fst s) (fst t)" by (auto simp: carry_other_def)
  then show ?case by (rule limit_other_keeps) (use 8 in auto)
qed

text \<open>
  C16: no agent gets more than its allowance accepted, over both transports together.  In any run of native sends, A2A
  sends, uploads, counter sweeps and steps that leave the counters alone, under a clock that does not go back, at most the
  configured number of messages of one agent is accepted in one window, whichever way they came.
\<close>

theorem all_sends_bounded:
  assumes "limiter_run (\<lambda>e. cfg (fst e) = C \<and> 0 < rateLimitWindowSeconds C) (\<lambda>e. now (fst e)) (\<lambda>e. windowStart (fst e))
      carry_check carry_other st0 e st accepted" "counters_ok (fst st0)"
  shows "int (count_list accepted (agentId, w)) \<le> max 0 (rateLimitMaxMessages C)"
  by (rule carriage_limit.granted_bounded [OF assms])

section \<open>A sample exchange\<close>

definition sample_rpc :: "string option \<Rightarrow> json" where
  "sample_rpc task = JObj ([(''jsonrpc'', JStr ''2.0''), (''method'', JStr ''message/send''),
     (''params'', JObj [(''recipientAgentId'', JStr (op_agent_id ''flt'')),
        (''message'', JObj ([(''parts'', JArr [JObj [(''kind'', JStr ''text''), (''text'', JStr ''hi'')]])]
           @ (case task of None \<Rightarrow> [] | Some k \<Rightarrow> [(''taskId'', JStr k)])))])])"

definition sample_cx :: a2a_context where
  "sample_cx = \<lparr> cx_senderAgentId = sample_agent, cx_senderFleetId = ''flt'', cx_senderStatus = ''healthy'', cx_targetAgentId = None \<rparr>"

definition no_tasks :: a2a_store where
  "no_tasks = \<lparr> a2a_tasks = [], a2a_task_messages = [] \<rparr>"

definition sample_call :: "(rpc_error + rpc_result) option \<times> store \<times> a2a_store" where
  "sample_call = a2aRoute (sample_env 5) [] (sample_agent, ''flt'', ''healthy'') None (Some (sample_rpc None)) (sample_mailed, no_tasks)"

definition sample_task :: a2a_task where
  "sample_task = (case fst sample_call of Some (Inr (Task_result tk)) \<Rightarrow> tk | _ \<Rightarrow> undefined)"

lemma sample_call_task: "fst sample_call = Some (Inr (Task_result sample_task))"
proof -
  have "\<not> (fst sample_call = None) \<and> \<not> isl (the (fst sample_call)) \<and> (case projr (the (fst sample_call)) of Task_result _ \<Rightarrow> True | _ \<Rightarrow> False)"
    by code_simp
  then show ?thesis
    by (cases "fst sample_call"; cases "the (fst sample_call)"; cases "projr (the (fst sample_call))") (auto simp: sample_task_def)
qed

lemma no_tasks_ok: "a2a_ok no_tasks"
  by (simp add: a2a_ok_def no_tasks_def)

theorem a2a_discloses_own_tasks_witness: "own_task ''flt'' sample_agent (snd (snd sample_call)) sample_task"
proof (rule a2a_discloses_own_tasks [OF _ no_tasks_ok])
  show "a2aRoute (sample_env 5) [] (sample_agent, ''flt'', ''healthy'') None (Some (sample_rpc None)) (sample_mailed, no_tasks)
      = (Some (Inr (Task_result sample_task)), fst (snd sample_call), snd (snd sample_call))"
    using sample_call_task by (simp add: sample_call_def prod_eq_iff)
qed (simp add: shown_def)

definition sample_final :: "store \<times> a2a_store" where
  "sample_final = (sample_mailed, snd (updateStatus (sample_env 9) (tk_id sample_task) ''completed'' None (snd (snd sample_call))))"

theorem finished_task_final_witness:
  "\<exists>r'\<in>set (a2a_tasks (snd (snd (a2aRoute (sample_env 9) [] (sample_agent, ''flt'', ''healthy'') None
        (Some (sample_rpc (Some (tk_id sample_task)))) sample_final)))).
     follows (hd (a2a_tasks (snd sample_final))) r'"
proof (rule finished_task_final)
  show "reach sample_final a2a_step (snd (a2aRoute (sample_env 9) [] (sample_agent, ''flt'', ''healthy'') None
        (Some (sample_rpc (Some (tk_id sample_task)))) sample_final))"
    by (rule reach_step [OF reach_start]) (rule Call, rule prod.collapse [symmetric])
  show "a2a_ok (snd sample_final)" by code_simp
  show "hd (a2a_tasks (snd sample_final)) \<in> set (a2a_tasks (snd sample_final))" by code_simp
qed

theorem a2a_message_carried_witness:
  "length (messages (fst (snd (messageSend (sample_env 5) [] sample_cx (json_get (sample_rpc None) ''params'') (sample_mailed, no_tasks)))))
   = Suc (length (messages sample_mailed))"
proof -
  let ?r = "messageSend (sample_env 5) [] sample_cx (json_get (sample_rpc None) ''params'') (sample_mailed, no_tasks)"
  have "\<not> isl (fst ?r)" by code_simp
  then have "?r = (Inr (projr (fst ?r)), fst (snd ?r), snd (snd ?r))" by (cases "fst ?r") (auto simp: prod_eq_iff)
  from a2a_message_carried [OF this] show ?thesis by auto
qed

definition sample_carriage :: "env \<times> extension list \<times> string \<times> string \<times> carriage" where
  "sample_carriage = (sample_env 5, [], ''flt'', ''healthy'', Rpc None (json_get (sample_rpc None) ''params''))"

theorem all_sends_bounded_witness:
  "int (count_list [(sample_agent, windowStart (sample_env 5))] (sample_agent, windowStart (sample_env 5))) \<le> max 0 (rateLimitMaxMessages default_config)"
proof (rule all_sends_bounded)
  let ?A = "\<lambda>e. cfg (fst e) = default_config \<and> 0 < rateLimitWindowSeconds default_config"
  have adm: "?A sample_carriage" by (simp add: sample_carriage_def default_config_def)
  have start: "limiter_run ?A (\<lambda>e. now (fst e)) (\<lambda>e. windowStart (fst e)) carry_check carry_other (sample_mailed, no_tasks) sample_carriage
      (sample_mailed, no_tasks) []"
    by (rule Run_start) (rule adm)
  have "fst (carry_check sample_carriage sample_agent (sample_mailed, no_tasks))" by code_simp
  then show "limiter_run ?A (\<lambda>e. now (fst e)) (\<lambda>e. windowStart (fst e)) carry_check carry_other (sample_mailed, no_tasks) sample_carriage
      (snd (carry_check sample_carriage sample_agent (sample_mailed, no_tasks))) [(sample_agent, windowStart (sample_env 5))]"
    using Run_check [OF start adm, of sample_agent] by (simp add: sample_carriage_def)
  show "counters_ok (fst (sample_mailed, no_tasks))" by code_simp
qed

end
