(* ===== verification/Envelope.thy ===== *)
theory Envelope
  imports Gate
begin

text \<open>
  Signed envelopes as an agent checks and makes them, \<^verbatim>\<open>packages/sdk/src/identity\<close>: \<^verbatim>\<open>verifyInbound\<close> of
  \<^verbatim>\<open>verify.ts\<close>, and \<^verbatim>\<open>verifyBatch\<close>, \<^verbatim>\<open>shouldAutowake\<close>, \<^verbatim>\<open>buildSignedSendFields\<close> and
  \<^verbatim>\<open>makeSnapshotVerifier\<close> of \<^verbatim>\<open>verification.ts\<close>.  The agent does not trust the relay that hands it the
  message: everything here is computed from the message as it came, the operator keys the agent has
  pinned and the roster.  \<^verbatim>\<open>canonicalize\<close>, the payload builders, \<^verbatim>\<open>keyId\<close> and \<^verbatim>\<open>verifyCanonical\<close> of
  \<^verbatim>\<open>primitives.ts\<close> are the functions of \<open>Json\<close> and \<open>Relay_Store\<close>.  A record such as
  \<^verbatim>\<open>operatorKeys\<close> is the list of its own members; names of members that every JavaScript object
  inherits are taken not to be used as ids.
\<close>

section \<open>JavaScript readings of a value\<close>

fun json_truthy :: "json option \<Rightarrow> bool" where
  "json_truthy None = False"
| "json_truthy (Some JNull) = False"
| "json_truthy (Some (JBool b)) = b"
| "json_truthy (Some (JNum n)) = (n \<noteq> 0)"
| "json_truthy (Some (JStr v)) = (v \<noteq> [])"
| "json_truthy (Some _) = True"

text \<open>\<^verbatim>\<open>String(x)\<close> of a member that may be undefined.\<close>

definition js_String :: "json option \<Rightarrow> string" where
  "js_String v = (case v of None \<Rightarrow> ''undefined'' | Some j \<Rightarrow> js_string j)"

text \<open>\<open>decimal_at_least n v\<close>: the unsigned decimal literal \<open>v\<close> denotes a number that is at least \<open>n\<close>.\<close>

definition decimal_at_least :: "int \<Rightarrow> string \<Rightarrow> bool" where
  "decimal_at_least n v =
     (let isE = (\<lambda>c. c = CHR ''e'' \<or> c = CHR ''E'');
          mant = takeWhile (\<lambda>c. \<not> isE c) v; rest = dropWhile (\<lambda>c. \<not> isE c) v;
          ip = takeWhile (\<lambda>c. c \<noteq> CHR ''.'') mant; fp = drop 1 (dropWhile (\<lambda>c. c \<noteq> CHR ''.'') mant);
          ex = (if rest = [] then Some 0 else signed_digits (drop 1 rest))
      in v = ''Infinity'' \<or>
         (case (digits_val (ip @ fp), ex) of
            (Some m, Some e) \<Rightarrow>
              let k = e - int (length fp) in
              if 0 \<le> k then n \<le> int m * 10 ^ nat k else n * 10 ^ nat (- k) \<le> int m
          | _ \<Rightarrow> False))"

text \<open>\<^verbatim>\<open>Number(text) >= n\<close> for a positive \<open>n\<close>; \<^verbatim>\<open>NaN\<close> is not at least anything.\<close>

definition text_at_least :: "int \<Rightarrow> string \<Rightarrow> bool" where
  "text_at_least n text =
     (let v = js_trim text; p = js_lower (take 2 v); r = drop 2 v;
          rad = (\<lambda>b. case radix_digits b r of None \<Rightarrow> False | Some i \<Rightarrow> n \<le> i) in
      if v = [] then False
      else if p = ''0x'' then rad 16
      else if p = ''0o'' then rad 8
      else if p = ''0b'' then rad 2
      else if hd v = CHR ''-'' then False
      else if hd v = CHR ''+'' then decimal_at_least n (tl v)
      else decimal_at_least n v)"

text \<open>\<^verbatim>\<open>Number(c.v ?? 1) >= 2\<close>.  An array converts through its text, an object to \<^verbatim>\<open>NaN\<close>.\<close>

fun version_at_least_2 :: "json option \<Rightarrow> bool" where
  "version_at_least_2 None = False"
| "version_at_least_2 (Some JNull) = False"
| "version_at_least_2 (Some (JBool b)) = False"
| "version_at_least_2 (Some (JNum n)) = (2 \<le> n)"
| "version_at_least_2 (Some (JStr v)) = text_at_least 2 v"
| "version_at_least_2 (Some (JArr vs)) = text_at_least 2 (js_string (JArr vs))"
| "version_at_least_2 (Some (JObj ms)) = False"

text \<open>\<^verbatim>\<open>Array.isArray(x) ? x.map(String).sort() : []\<close>.\<close>

definition sorted_texts :: "json option \<Rightarrow> string list" where
  "sorted_texts v = (case v of Some (JArr vs) \<Rightarrow> sort (map js_string vs) | _ \<Rightarrow> [])"

definition opt_get :: "json option \<Rightarrow> string \<Rightarrow> json option" where
  "opt_get v k = (case v of None \<Rightarrow> None | Some j \<Rightarrow> json_get j k)"

section \<open>Messages, roster and options\<close>

record signed_message =
  sm_message_id :: "string option"
  sm_sender_kind :: "string option"
  sm_sender_agent_id :: "string option"
  sm_message_type :: "string option"
  sm_priority :: "string option"
  sm_body :: "json option"
  sm_operator_sig :: "string option"
  sm_agent_sig :: "string option"
  sm_key_id :: "string option"
  sm_sig_canonical :: "json option"

record roster_entry =
  re_agent_id :: "string option"
  re_identity_public_key :: "string option"
  re_key_id :: "string option"
  re_endorsed_by_key_id :: "string option"
  re_endorsement_sig :: "string option"

datatype sender = Operator_sender | Peer_sender

text \<open>The reasons of \<^verbatim>\<open>verifyInbound\<close>, and the two that the plugin gives to what it withholds in require mode.\<close>

datatype verify_reason =
    Unsigned
  | Unknown_operator_key
  | Unknown_sender_key
  | Sender_key_unendorsed
  | Endorser_not_pinned
  | Bad_endorsement
  | Bad_signature
  | Key_id_mismatch
  | Fleet_mismatch
  | Sender_mismatch
  | Recipient_mismatch
  | Body_mismatch
  | Type_mismatch
  | Priority_mismatch
  | Attachments_mismatch
  | Bad_timestamp
  | Stale
  | Replay
  | Unsigned_require_signed
  | Unverifiable_require_signed

record verify_result =
  vr_verified :: bool
  vr_kind :: sender
  vr_reason :: "verify_reason option"
  vr_keyId :: "string option"

record verify_opts =
  vo_selfAgentId :: string
  vo_fleetId :: string
  vo_operatorKeys :: "(string \<times> string) list"
  vo_rosterByAgent :: "(string \<times> roster_entry) list"
  vo_seenNonces :: "string list"
  vo_now :: int
  vo_maxSkewSeconds :: "int option"
  vo_maxFutureSkewSeconds :: "int option"

definition MAX_PAST_SKEW_SECONDS :: int where
  "MAX_PAST_SKEW_SECONDS = 86400 + 300"

definition MAX_FUTURE_SKEW_SECONDS :: int where
  "MAX_FUTURE_SKEW_SECONDS = 300"

definition or_empty :: "string option \<Rightarrow> string" where
  "or_empty v = (case v of None \<Rightarrow> [] | Some x \<Rightarrow> x)"

definition or_default :: "int option \<Rightarrow> int \<Rightarrow> int" where
  "or_default v d = (case v of None \<Rightarrow> d | Some x \<Rightarrow> x)"

definition is_operator :: "signed_message \<Rightarrow> bool" where
  "is_operator m \<longleftrightarrow> sm_sender_kind m = Some ''operator''"

definition sender_of :: "signed_message \<Rightarrow> sender" where
  "sender_of m = (if is_operator m then Operator_sender else Peer_sender)"

definition sig_of :: "signed_message \<Rightarrow> string option" where
  "sig_of m = (if is_operator m then sm_operator_sig m else sm_agent_sig m)"

text \<open>\<^verbatim>\<open>typeof msg.body?.text === "string" ? msg.body.text : ""\<close>.\<close>

definition message_text :: "signed_message \<Rightarrow> string" where
  "message_text m = (case opt_get (sm_body m) ''text'' of Some (JStr t) \<Rightarrow> t | _ \<Rightarrow> [])"

section \<open>verifyInbound\<close>

text \<open>Step 1: the signer's public key; a peer's must be endorsed by a pinned operator key.\<close>

definition resolve_signer :: "crypto \<Rightarrow> verify_opts \<Rightarrow> signed_message \<Rightarrow> verify_reason + string" where
  "resolve_signer C opts m =
     (if is_operator m then
        (case map_of (vo_operatorKeys opts) (the (sm_key_id m)) of
           None \<Rightarrow> Inl Unknown_operator_key
         | Some pub \<Rightarrow> if pub = [] then Inl Unknown_operator_key else Inr pub)
      else
        (case map_of (vo_rosterByAgent opts) (or_empty (sm_sender_agent_id m)) of
           None \<Rightarrow> Inl Unknown_sender_key
         | Some entry \<Rightarrow>
             if \<not> truthy (re_identity_public_key entry) \<or> re_key_id entry \<noteq> sm_key_id m then Inl Unknown_sender_key
             else if \<not> truthy (re_endorsed_by_key_id entry) \<or> \<not> truthy (re_endorsement_sig entry) then Inl Sender_key_unendorsed
             else
               (case map_of (vo_operatorKeys opts) (the (re_endorsed_by_key_id entry)) of
                  None \<Rightarrow> Inl Endorser_not_pinned
                | Some endorserPub \<Rightarrow>
                    if endorserPub = [] then Inl Endorser_not_pinned
                    else if verifyCanonical C
                              (agentKeyEndorsementPayload (vo_fleetId opts) (or_empty (sm_sender_agent_id m))
                                 (or_empty (re_key_id entry)) (the (re_identity_public_key entry)))
                              (the (re_endorsement_sig entry)) endorserPub
                    then Inr (the (re_identity_public_key entry))
                    else Inl Bad_endorsement)))"

text \<open>Steps 3 to 7: the signed structure \<open>c\<close> is about this message.\<close>

definition binding_error :: "crypto \<Rightarrow> verify_opts \<Rightarrow> signed_message \<Rightarrow> json \<Rightarrow> verify_reason option" where
  "binding_error C opts m c =
     (let recipient = json_get c ''recipient'';
          text = message_text m in
      if json_get c ''key_id'' \<noteq> map_option JStr (sm_key_id m) then Some Key_id_mismatch
      else if json_get c ''fleet_id'' \<noteq> Some (JStr (vo_fleetId opts)) then Some Fleet_mismatch
      else if \<not> is_operator m \<and> json_get c ''sender_agent_id'' \<noteq> map_option JStr (sm_sender_agent_id m)
      then Some Sender_mismatch
      else if opt_get recipient ''kind'' = Some (JStr ''agent'') \<and> opt_get recipient ''id'' \<noteq> Some (JStr (vo_selfAgentId opts))
      then Some Recipient_mismatch
      else if json_get c ''body_sha256'' \<noteq> Some (JStr (sha256_hex C text)) then Some Body_mismatch
      else if version_at_least_2 (json_get c ''v'') then
        if json_get c ''message_type'' \<noteq> Some (JStr (or_empty (sm_message_type m))) then Some Type_mismatch
        else if json_get c ''priority'' \<noteq> Some (JStr (or_empty (sm_priority m))) then Some Priority_mismatch
        else if sorted_texts (json_get c ''attachments'') \<noteq> sorted_texts (opt_get (sm_body m) ''attachments'')
        then Some Attachments_mismatch
        else None
      else None)"

text \<open>The instant and the nonce of the signed structure.\<close>

definition freshness_error :: "(string \<Rightarrow> int option) \<Rightarrow> verify_opts \<Rightarrow> json \<Rightarrow> verify_reason option" where
  "freshness_error date_of opts c =
     (case date_of (js_String (json_get c ''sent_at'')) of
        None \<Rightarrow> Some Bad_timestamp
      | Some sentAt \<Rightarrow>
          let ageMs = vo_now opts - sentAt in
          if ageMs > or_default (vo_maxSkewSeconds opts) MAX_PAST_SKEW_SECONDS * 1000
             \<or> - ageMs > or_default (vo_maxFutureSkewSeconds opts) MAX_FUTURE_SKEW_SECONDS * 1000
          then Some Stale
          else if \<not> json_truthy (json_get c ''nonce'') \<or> js_String (json_get c ''nonce'') \<in> set (vo_seenNonces opts)
          then Some Replay
          else None)"

text \<open>\<open>date_of\<close> is \<^verbatim>\<open>Date.parse\<close>, as in \<open>Auth\<close>.\<close>

definition verifyInbound ::
  "crypto \<Rightarrow> (string \<Rightarrow> int option) \<Rightarrow> verify_opts \<Rightarrow> signed_message \<Rightarrow> verify_result" where
  "verifyInbound C date_of opts m =
     (let fail = (\<lambda>r. \<lparr> vr_verified = False, vr_kind = sender_of m, vr_reason = Some r, vr_keyId = sm_key_id m \<rparr>) in
      if \<not> truthy (sig_of m) \<or> \<not> json_truthy (sm_sig_canonical m) \<or> \<not> truthy (sm_key_id m) then fail Unsigned
      else
        let c = the (sm_sig_canonical m) in
        case resolve_signer C opts m of
          Inl r \<Rightarrow> fail r
        | Inr signerPub \<Rightarrow>
            if \<not> verifyCanonical C c (the (sig_of m)) signerPub then fail Bad_signature
            else
              (case binding_error C opts m c of
                 Some r \<Rightarrow> fail r
               | None \<Rightarrow>
                   (case freshness_error date_of opts c of
                      Some r \<Rightarrow> fail r
                    | None \<Rightarrow> \<lparr> vr_verified = True, vr_kind = sender_of m, vr_reason = None, vr_keyId = sm_key_id m \<rparr>)))"

section \<open>Batches, snapshots and the wake gate\<close>

text \<open>\<^verbatim>\<open>r[String(id)] = entry\<close> for every entry with an id, later entries replacing earlier ones.\<close>

definition put :: "string \<Rightarrow> 'v \<Rightarrow> (string \<times> 'v) list \<Rightarrow> (string \<times> 'v) list" where
  "put k v ms = (if map_of ms k = None then ms @ [(k, v)] else map (\<lambda>(k', v'). (k', if k' = k then v else v')) ms)"

definition roster_by_agent :: "roster_entry list \<Rightarrow> (string \<times> roster_entry) list" where
  "roster_by_agent roster =
     foldl (\<lambda>ms r. if truthy (re_agent_id r) then put (the (re_agent_id r)) r ms else ms) [] roster"

text \<open>
  The verdicts of \<^verbatim>\<open>verifyBatch\<close>, by message id: null for every message while the agent has no pinned key or no
  fleet.  \<open>pinned\<close> are the identity's pinned operator keys.
\<close>

definition verifyBatch ::
  "crypto \<Rightarrow> (string \<Rightarrow> int option) \<Rightarrow> (string \<times> string) list \<Rightarrow> string \<Rightarrow> string option \<Rightarrow> roster_entry list
   \<Rightarrow> string list \<Rightarrow> int \<Rightarrow> signed_message list \<Rightarrow> (string \<times> verify_result option) list" where
  "verifyBatch C date_of pinned selfAgentId fleetId roster seenNonces t msgs =
     (let verdict = (\<lambda>m. if pinned = [] \<or> \<not> truthy fleetId then None
            else Some (verifyInbound C date_of
              \<lparr> vo_selfAgentId = selfAgentId, vo_fleetId = the fleetId, vo_operatorKeys = pinned,
                vo_rosterByAgent = roster_by_agent roster, vo_seenNonces = seenNonces, vo_now = t,
                vo_maxSkewSeconds = None, vo_maxFutureSkewSeconds = None \<rparr> m))
      in foldl (\<lambda>ms m. put (js_String (map_option JStr (sm_message_id m))) (verdict m) ms) [] msgs)"

datatype require_signed = Off | Warn | Require

definition parseRequireSignedMode :: "string option \<Rightarrow> require_signed" where
  "parseRequireSignedMode raw =
     (let v = js_lower (js_trim (or_empty raw))
      in if v = ''require'' then Require else if v = ''off'' then Off else Warn)"

definition shouldAutowake ::
  "signed_message \<Rightarrow> verify_result option \<Rightarrow> bool \<Rightarrow> bool \<Rightarrow> require_signed \<Rightarrow> bool" where
  "shouldAutowake m verification operatorTrusted peerEnabled requireSigned =
     (let signed = truthy (sig_of m) in
      if is_operator m then
        (case verification of Some v \<Rightarrow> if signed then vr_verified v else operatorTrusted | None \<Rightarrow> operatorTrusted)
      else if \<not> peerEnabled then False
      else if requireSigned = Require then
        (case verification of Some v \<Rightarrow> signed \<and> vr_verified v | None \<Rightarrow> False)
      else (case verification of Some v \<Rightarrow> if signed then vr_verified v else True | None \<Rightarrow> True))"

record snapshot_like =
  sl_message_id :: "string option"
  sl_sender_agent_id :: "string option"
  sl_sender_kind :: "string option"
  sl_text :: "json option"
  sl_message_type :: "string option"
  sl_priority :: "string option"
  sl_attachments :: "json option"
  sl_operator_sig :: "string option"
  sl_agent_sig :: "string option"
  sl_key_id :: "string option"
  sl_sig_canonical :: "json option"

text \<open>A quoted snapshot in the shape of a message: its text and attachments move into the body.\<close>

definition as_message :: "snapshot_like \<Rightarrow> signed_message" where
  "as_message n =
     \<lparr> sm_message_id = sl_message_id n, sm_sender_kind = sl_sender_kind n, sm_sender_agent_id = sl_sender_agent_id n,
       sm_message_type = sl_message_type n, sm_priority = sl_priority n,
       sm_body = Some (JObj [(''text'', case sl_text n of Some (JStr t) \<Rightarrow> JStr t | _ \<Rightarrow> JStr []),
                             (''attachments'', case sl_attachments n of Some (JArr vs) \<Rightarrow> JArr vs | _ \<Rightarrow> JArr [])]),
       sm_operator_sig = sl_operator_sig n, sm_agent_sig = sl_agent_sig n, sm_key_id = sl_key_id n,
       sm_sig_canonical = sl_sig_canonical n \<rparr>"

definition makeSnapshotVerifier ::
  "crypto \<Rightarrow> (string \<Rightarrow> int option) \<Rightarrow> (string \<times> string) list \<Rightarrow> string \<Rightarrow> string option \<Rightarrow> roster_entry list
   \<Rightarrow> int \<Rightarrow> snapshot_like option \<Rightarrow> bool" where
  "makeSnapshotVerifier C date_of pinned selfAgentId fleetId roster t snapshot =
     (if pinned = [] \<or> \<not> truthy fleetId then False
      else case snapshot of
        None \<Rightarrow> False
      | Some n \<Rightarrow> vr_verified (verifyInbound C date_of
            \<lparr> vo_selfAgentId = selfAgentId, vo_fleetId = the fleetId, vo_operatorKeys = pinned,
              vo_rosterByAgent = roster_by_agent roster, vo_seenNonces = [], vo_now = t,
              vo_maxSkewSeconds = None, vo_maxFutureSkewSeconds = None \<rparr> (as_message n)))"

section \<open>Signing what an agent sends\<close>

text \<open>
  Ed25519 signing and the public key of a seed, both base64url as the source encodes them.  The
  seed is the hexadecimal text of the identity file.
\<close>

record signing =
  ed_sign :: "string \<Rightarrow> string \<Rightarrow> string"
  ed_public :: "string \<Rightarrow> string"

record send_opts =
  so_fleetId :: string
  so_selfAgentId :: string
  so_recipient :: json
  so_conversationId :: string
  so_bodyText :: string
  so_nonce :: string
  so_sentAt :: string
  so_messageType :: string
  so_priority :: string
  so_attachments :: "string list"

definition signed_canonical :: "crypto \<Rightarrow> signing \<Rightarrow> string \<Rightarrow> send_opts \<Rightarrow> json" where
  "signed_canonical C G seedHex o' =
     JObj [(''v'', JNum 2), (''fleet_id'', JStr (so_fleetId o')), (''sender_agent_id'', JStr (so_selfAgentId o')),
           (''key_id'', JStr (keyId C (ed_public G seedHex))), (''recipient'', so_recipient o'),
           (''conversation_id'', JStr (so_conversationId o')), (''body_sha256'', JStr (sha256_hex C (so_bodyText o'))),
           (''sent_at'', JStr (so_sentAt o')), (''nonce'', JStr (so_nonce o')),
           (''message_type'', JStr (so_messageType o')), (''priority'', JStr (so_priority o')),
           (''attachments'', JArr (map JStr (sort (so_attachments o'))))]"

text \<open>The signature, the key id and the signed structure.\<close>

definition buildSignedSendFields :: "crypto \<Rightarrow> signing \<Rightarrow> string \<Rightarrow> send_opts \<Rightarrow> string \<times> string \<times> json" where
  "buildSignedSendFields C G seedHex o' =
     (let canonical = signed_canonical C G seedHex o'
      in (ed_sign G (canonicalize canonical) seedHex, keyId C (ed_public G seedHex), canonical))"

section \<open>Records\<close>

lemma map_of_put [simp]: "map_of (put k v ms) = (map_of ms)(k \<mapsto> v)"
proof (cases "map_of ms k")
  case None
  then show ?thesis by (auto simp: put_def map_add_def fun_eq_iff split: option.splits)
next
  case (Some w)
  have "map_of (map (\<lambda>(k', v'). (k', if k' = k then v else v')) ms) x
      = (if x = k then map_option (\<lambda>_. v) (map_of ms k) else map_of ms x)" for x
    by (induction ms) auto
  with Some show ?thesis by (auto simp: put_def fun_eq_iff)
qed

lemma map_of_put_foldl:
  "map_of (foldl (\<lambda>ms x. put (f x) (g x) ms) ms xs) k
   = (case List.find (\<lambda>x. f x = k) (rev xs) of None \<Rightarrow> map_of ms k | Some x \<Rightarrow> Some (g x))"
proof (induction xs rule: rev_induct)
  case (snoc x xs)
  then show ?case by auto
qed simp

lemma find_rev_unique:
  assumes "distinct (map f xs)" "x \<in> set xs"
  shows "List.find (\<lambda>y. f y = f x) (rev xs) = Some x"
proof -
  obtain y where y: "List.find (\<lambda>y. f y = f x) (rev xs) = Some y"
    using assms(2) by (cases "List.find (\<lambda>y. f y = f x) (rev xs)") (auto simp: find_None_iff)
  then have "y \<in> set xs" "f y = f x" by (auto simp: find_Some_iff rev_nth)
  with assms y show ?thesis by (metis distinct_map inj_onD)
qed

section \<open>The signed structure and its canonical text\<close>

text \<open>Sorting the members of an object is stable, so reading a member is not affected.\<close>

lemma map_of_filter_key: "map_of ms k = map_of (filter (\<lambda>m. fst m = k) ms) k"
  by (induction ms) auto

lemma filter_insort_key_other: "fst m \<noteq> k \<Longrightarrow> filter (\<lambda>x. fst x = k) (insort_key fst m ms) = filter (\<lambda>x. fst x = k) ms"
  by (induction ms) auto

lemma filter_sort_members: "filter (\<lambda>m. fst m = k) (sort_key fst ms) = filter (\<lambda>m. fst m = k) ms"
  by (rule sort_key_stable)

lemma map_of_sort_members: "map_of (sort_key fst ms) k = map_of ms k"
  by (metis filter_sort_members map_of_filter_key)

lemma json_get_sort_members: "json_get (sort_members j) k = map_option sort_members (json_get j k)"
  by (cases j) (simp_all add: map_of_sort_members map_of_map)

text \<open>Two structures with one canonical text have the same members, up to the order inside them.\<close>

lemma canonical_member:
  assumes "canonicalize c = canonicalize d"
  shows "map_option sort_members (json_get c k) = map_option sort_members (json_get d k)"
  using canonicalize_inj [OF assms] by (metis json_get_sort_members)

lemma sort_members_atom [simp]:
  "sort_members j = JStr v \<longleftrightarrow> j = JStr v" "sort_members j = JNum n \<longleftrightarrow> j = JNum n"
  by (cases j; simp)+

lemma sort_members_texts: "sort_members j = JArr (map JStr vs) \<longleftrightarrow> j = JArr (map JStr vs)"
proof (cases j)
  case (JArr ws)
  have "map sort_members ws = map JStr vs \<longleftrightarrow> ws = map JStr vs"
    by (induction ws arbitrary: vs) (auto simp: map_eq_Cons_conv Cons_eq_map_conv)
  with JArr show ?thesis by simp
qed auto

lemma canonical_text_member:
  assumes "canonicalize c = canonicalize d" "json_get d k = Some (JStr v)"
  shows "json_get c k = Some (JStr v)"
  using canonical_member [OF assms(1), of k] assms(2) by (cases "json_get c k") simp_all

section \<open>What a verified message guarantees\<close>

lemma verified_iff:
  "vr_verified (verifyInbound C date_of opts m) \<longleftrightarrow>
     truthy (sig_of m) \<and> json_truthy (sm_sig_canonical m) \<and> truthy (sm_key_id m) \<and>
     (\<exists>pub. resolve_signer C opts m = Inr pub \<and>
        ed_verify C (canonicalize (the (sm_sig_canonical m))) (the (sig_of m)) pub) \<and>
     binding_error C opts m (the (sm_sig_canonical m)) = None \<and>
     freshness_error date_of opts (the (sm_sig_canonical m)) = None"
  by (auto simp: verifyInbound_def verifyCanonical_def Let_def split: sum.splits option.splits)

lemma binding_ok:
  assumes "binding_error C opts m c = None"
  shows "json_get c ''key_id'' = map_option JStr (sm_key_id m)"
    "json_get c ''fleet_id'' = Some (JStr (vo_fleetId opts))"
    "\<not> is_operator m \<Longrightarrow> json_get c ''sender_agent_id'' = map_option JStr (sm_sender_agent_id m)"
    "opt_get (json_get c ''recipient'') ''kind'' = Some (JStr ''agent'')
       \<Longrightarrow> opt_get (json_get c ''recipient'') ''id'' = Some (JStr (vo_selfAgentId opts))"
    "json_get c ''body_sha256'' = Some (JStr (sha256_hex C (message_text m)))"
    "version_at_least_2 (json_get c ''v'') \<Longrightarrow> json_get c ''message_type'' = Some (JStr (or_empty (sm_message_type m)))"
    "version_at_least_2 (json_get c ''v'') \<Longrightarrow> json_get c ''priority'' = Some (JStr (or_empty (sm_priority m)))"
    "version_at_least_2 (json_get c ''v'') \<Longrightarrow>
       sorted_texts (json_get c ''attachments'') = sorted_texts (opt_get (sm_body m) ''attachments'')"
  using assms unfolding binding_error_def Let_def by (simp_all split: if_split_asm)

lemma resolve_peer:
  assumes "resolve_signer C opts m = Inr pub" "\<not> is_operator m" "truthy (sm_key_id m)"
  obtains kid opub esig where "sm_key_id m = Some kid" "opub \<in> snd ` set (vo_operatorKeys opts)"
    "ed_verify C (canonicalize (agentKeyEndorsementPayload (vo_fleetId opts) (or_empty (sm_sender_agent_id m)) kid pub)) esig opub"
proof -
  obtain entry where e: "map_of (vo_rosterByAgent opts) (or_empty (sm_sender_agent_id m)) = Some entry"
    using assms(1,2) by (auto simp: resolve_signer_def split: option.splits)
  obtain kid where k: "sm_key_id m = Some kid" using assms(3) by (auto simp: truthy_iff)
  obtain opub where o: "map_of (vo_operatorKeys opts) (the (re_endorsed_by_key_id entry)) = Some opub"
    using assms(1,2) e by (simp split: option.splits if_split_asm add: resolve_signer_def)
  have "pub = the (re_identity_public_key entry)" "re_key_id entry = Some kid"
    "ed_verify C (canonicalize (agentKeyEndorsementPayload (vo_fleetId opts) (or_empty (sm_sender_agent_id m)) kid pub))
       (the (re_endorsement_sig entry)) opub"
    using assms(1,2) e o k by (simp_all split: if_split_asm add: resolve_signer_def verifyCanonical_def or_empty_def)
  moreover have "opub \<in> snd ` set (vo_operatorKeys opts)" using o by (force dest: map_of_SomeD)
  ultimately show ?thesis using that k by blast
qed

text \<open>The verdict of a message in its batch.\<close>

definition message_key :: "signed_message \<Rightarrow> string" where
  "message_key m = js_String (map_option JStr (sm_message_id m))"

lemma verifyBatch_verdict:
  assumes "distinct (map message_key msgs)" "m \<in> set msgs" "pinned \<noteq> []" "f \<noteq> []"
  shows "map_of (verifyBatch C date_of pinned self (Some f) roster seen t msgs) (message_key m) =
    Some (Some (verifyInbound C date_of
      \<lparr> vo_selfAgentId = self, vo_fleetId = f, vo_operatorKeys = pinned, vo_rosterByAgent = roster_by_agent roster,
        vo_seenNonces = seen, vo_now = t, vo_maxSkewSeconds = None, vo_maxFutureSkewSeconds = None \<rparr> m))"
  using assms(3,4) find_rev_unique [OF assms(1,2)]
  by (simp add: verifyBatch_def Let_def map_of_put_foldl message_key_def [symmetric])

lemma verifyBatch_dormant:
  assumes "pinned = [] \<or> \<not> truthy fleetId" "map_of (verifyBatch C date_of pinned self fleetId roster seen t msgs) k = Some v"
  shows "v = None"
proof -
  have "map_of (verifyBatch C date_of pinned self fleetId roster seen t msgs) k =
      (case List.find (\<lambda>x. js_String (map_option JStr (sm_message_id x)) = k) (rev msgs) of None \<Rightarrow> None | Some _ \<Rightarrow> Some None)"
    using assms(1) by (auto simp: verifyBatch_def Let_def map_of_put_foldl split: option.splits)
  with assms(2) show ?thesis by (simp split: option.splits)
qed

lemma signed_canonical_members:
  "json_get (signed_canonical C G seed o') ''v'' = Some (JNum 2)"
  "json_get (signed_canonical C G seed o') ''fleet_id'' = Some (JStr (so_fleetId o'))"
  "json_get (signed_canonical C G seed o') ''sender_agent_id'' = Some (JStr (so_selfAgentId o'))"
  "json_get (signed_canonical C G seed o') ''key_id'' = Some (JStr (keyId C (ed_public G seed)))"
  "json_get (signed_canonical C G seed o') ''recipient'' = Some (so_recipient o')"
  "json_get (signed_canonical C G seed o') ''body_sha256'' = Some (JStr (sha256_hex C (so_bodyText o')))"
  "json_get (signed_canonical C G seed o') ''sent_at'' = Some (JStr (so_sentAt o'))"
  "json_get (signed_canonical C G seed o') ''nonce'' = Some (JStr (so_nonce o'))"
  "json_get (signed_canonical C G seed o') ''message_type'' = Some (JStr (so_messageType o'))"
  "json_get (signed_canonical C G seed o') ''priority'' = Some (JStr (so_priority o'))"
  "json_get (signed_canonical C G seed o') ''attachments'' = Some (JArr (map JStr (sort (so_attachments o'))))"
  by (simp_all add: signed_canonical_def)

lemma sorted_texts_strings [simp]: "sorted_texts (Some (JArr (map JStr vs))) = sort vs"
  by (simp add: sorted_texts_def comp_def)

text \<open>What the message and the options of the send agree on.\<close>

definition sent_as :: "crypto \<Rightarrow> verify_opts \<Rightarrow> signed_message \<Rightarrow> send_opts \<Rightarrow> bool" where
  "sent_as C opts m o' \<longleftrightarrow>
     so_fleetId o' = vo_fleetId opts \<and> Some (so_selfAgentId o') = sm_sender_agent_id m \<and>
     (json_get (so_recipient o') ''kind'' = Some (JStr ''agent'') \<longrightarrow>
        json_get (so_recipient o') ''id'' = Some (JStr (vo_selfAgentId opts))) \<and>
     sha256_hex C (so_bodyText o') = sha256_hex C (message_text m) \<and>
     so_messageType o' = or_empty (sm_message_type m) \<and> so_priority o' = or_empty (sm_priority m) \<and>
     sort (so_attachments o') = sorted_texts (opt_get (sm_body m) ''attachments'')"

lemma bound_sent_as:
  assumes eq: "canonicalize c = canonicalize (signed_canonical C G seed o')"
    and b: "binding_error C opts m c = None" and peer: "\<not> is_operator m"
  shows "sent_as C opts m o'"
proof -
  note txts = canonical_text_member [OF eq]
  note M = signed_canonical_members [of C G seed o']
  have v: "version_at_least_2 (json_get c ''v'')"
    using canonical_member [OF eq, of "''v''"] M(1) by (cases "json_get c ''v''") simp_all
  have at: "json_get c ''attachments'' = Some (JArr (map JStr (sort (so_attachments o'))))"
    using canonical_member [OF eq, of "''attachments''"] sort_members_texts [of _ "sort (so_attachments o')"] M(11)
    by (cases "json_get c ''attachments''") (simp_all add: comp_def)
  have r: "map_option sort_members (json_get c ''recipient'') = Some (sort_members (so_recipient o'))"
    using canonical_member [OF eq, of "''recipient''"] M(5) by simp
  then obtain rc where rc: "json_get c ''recipient'' = Some rc" "sort_members rc = sort_members (so_recipient o')" by auto
  have rk: "json_get rc k = Some (JStr x) \<longleftrightarrow> json_get (so_recipient o') k = Some (JStr x)" for k x
    using arg_cong [OF rc(2), of "\<lambda>j. json_get j k"] unfolding json_get_sort_members
    by (cases "json_get rc k"; cases "json_get (so_recipient o') k") (auto, (metis sort_members_atom(1))+)
  have f: "so_fleetId o' = vo_fleetId opts" using binding_ok(2) [OF b] txts [OF M(2)] by simp
  have s: "Some (so_selfAgentId o') = sm_sender_agent_id m"
    using binding_ok(3) [OF b peer] txts [OF M(3)] by (cases "sm_sender_agent_id m") simp_all
  have h: "sha256_hex C (so_bodyText o') = sha256_hex C (message_text m)" using binding_ok(5) [OF b] txts [OF M(6)] by simp
  have t: "so_messageType o' = or_empty (sm_message_type m)" using binding_ok(6) [OF b v] txts [OF M(9)] by simp
  have p: "so_priority o' = or_empty (sm_priority m)" using binding_ok(7) [OF b v] txts [OF M(10)] by simp
  have a: "sort (so_attachments o') = sorted_texts (opt_get (sm_body m) ''attachments'')"
    using binding_ok(8) [OF b v] at by (simp add: sorted_sort_id)
  have k: "json_get (so_recipient o') ''kind'' = Some (JStr ''agent'') \<longrightarrow>
        json_get (so_recipient o') ''id'' = Some (JStr (vo_selfAgentId opts))"
    using binding_ok(4) [OF b] rc(1) rk by (simp add: opt_get_def)
  from f s k h t p a show ?thesis unfolding sent_as_def by (intro conjI)
qed

lemma verified_sent_as:
  assumes unforgeable: "\<And>t sig pub. ed_verify C t sig pub \<Longrightarrow> (pub, t) \<in> Signed"
    and endorsed: "\<And>opub kid pub. opub \<in> snd ` set (vo_operatorKeys opts) \<Longrightarrow>
      (opub, canonicalize (agentKeyEndorsementPayload (vo_fleetId opts) peer kid pub)) \<in> Signed \<Longrightarrow> pub = ed_public G seed"
    and honest: "\<And>t. (ed_public G seed, t) \<in> Signed \<Longrightarrow> \<exists>o'\<in>Sent. t = canonicalize (signed_canonical C G seed o')"
    and v: "vr_verified (verifyInbound C date_of opts m)" and peer: "\<not> is_operator m" "sm_sender_agent_id m = Some peer"
  shows "\<exists>o'\<in>Sent. sent_as C opts m o'"
proof -
  from v obtain pub where pub: "resolve_signer C opts m = Inr pub"
      "ed_verify C (canonicalize (the (sm_sig_canonical m))) (the (sig_of m)) pub"
    and k: "truthy (sm_key_id m)" and b: "binding_error C opts m (the (sm_sig_canonical m)) = None"
    unfolding verified_iff by blast
  obtain kid opub esig where "opub \<in> snd ` set (vo_operatorKeys opts)"
      "ed_verify C (canonicalize (agentKeyEndorsementPayload (vo_fleetId opts) (or_empty (sm_sender_agent_id m)) kid pub)) esig opub"
    by (rule resolve_peer [OF pub(1) peer(1) k])
  then have "pub = ed_public G seed" using endorsed [OF _ unforgeable] peer(2) by (auto simp: or_empty_def)
  then obtain o' where "o' \<in> Sent" "canonicalize (the (sm_sig_canonical m)) = canonicalize (signed_canonical C G seed o')"
    using honest unforgeable pub(2) by blast
  with bound_sent_as b peer(1) show ?thesis by blast
qed

section \<open>A sample exchange\<close>

definition sample_send :: send_opts where
  "sample_send = \<lparr> so_fleetId = ''flt'', so_selfAgentId = ''agt_b'',
     so_recipient = JObj [(''kind'', JStr ''agent''), (''id'', JStr ''agt_a'')], so_conversationId = ''c'', so_bodyText = ''hi'',
     so_nonce = ''n'', so_sentAt = ''1970-01-01T00:00:01.000Z'', so_messageType = ''direct'', so_priority = ''normal'',
     so_attachments = [''y'', ''x''] \<rparr>"

definition sample_signing :: signing where
  "sample_signing = \<lparr> ed_sign = (\<lambda>t seed. ''sig''), ed_public = (\<lambda>seed. ''pub'') \<rparr>"

text \<open>What was signed: the operator's endorsement of the peer's key, and the envelope.\<close>

definition sample_signed :: "(string \<times> string) list" where
  "sample_signed =
     [(''op'', canonicalize (agentKeyEndorsementPayload ''flt'' ''agt_b'' ''pub'' ''pub'')),
      (''pub'', canonicalize (signed_canonical sample_crypto sample_signing ''seed'' sample_send))]"

definition signed_crypto :: crypto where
  "signed_crypto = sample_crypto\<lparr> ed_verify := (\<lambda>t sig pub. (pub, t) \<in> set sample_signed) \<rparr>"

definition sample_roster :: roster_entry where
  "sample_roster = \<lparr> re_agent_id = Some ''agt_b'', re_identity_public_key = Some ''pub'', re_key_id = Some ''pub'',
     re_endorsed_by_key_id = Some ''opk'', re_endorsement_sig = Some ''esig'' \<rparr>"

definition sample_message :: signed_message where
  "sample_message = \<lparr> sm_message_id = Some ''m'', sm_sender_kind = Some ''agent'', sm_sender_agent_id = Some ''agt_b'',
     sm_message_type = Some ''direct'', sm_priority = Some ''normal'',
     sm_body = Some (JObj [(''text'', JStr ''hi''), (''attachments'', JArr (map JStr [''x'', ''y'']))]),
     sm_operator_sig = None, sm_agent_sig = Some ''sig'', sm_key_id = Some ''pub'',
     sm_sig_canonical = Some (signed_canonical sample_crypto sample_signing ''seed'' sample_send) \<rparr>"

lemma signed_crypto_simps [simp]:
  "ed_verify signed_crypto t sig pub \<longleftrightarrow> (pub, t) \<in> set sample_signed"
  "signed_canonical signed_crypto G seed o' = signed_canonical sample_crypto G seed o'"
  "keyId signed_crypto = keyId sample_crypto" "sha256_hex signed_crypto = sha256_hex sample_crypto"
  by (simp_all add: signed_crypto_def signed_canonical_def keyId_def fun_eq_iff)

lemma sample_signing_simps [simp]: "ed_public sample_signing seed = ''pub''" "ed_sign sample_signing t seed = ''sig''"
  by (simp_all add: sample_signing_def)

lemma sample_signed_own:
  "(''pub'', t) \<in> set sample_signed \<Longrightarrow> t = canonicalize (signed_canonical sample_crypto sample_signing ''seed'' sample_send)"
  by (simp add: sample_signed_def del: canonicalize.simps)

lemma sample_signed_operator:
  "(''op'', canonicalize (agentKeyEndorsementPayload f a k p)) \<in> set sample_signed \<Longrightarrow> p = ''pub''"
  by (simp add: sample_signed_def payloads_by_value del: canonicalize.simps)

lemma sample_verdict:
  "map_of (verifyBatch signed_crypto date_parse [(''opk'', ''op'')] ''agt_a'' (Some ''flt'') [sample_roster] [] 2000 [sample_message]) ''m''
   = Some (Some \<lparr> vr_verified = True, vr_kind = Peer_sender, vr_reason = None, vr_keyId = Some ''pub'' \<rparr>)"
  by code_simp



section \<open>Round trip\<close>

text \<open>
  C38: what an agent signs, its peer verifies.  If signing with a seed verifies under the seed's public key, the
  sender's key is in the roster endorsed by a key the recipient pinned, and the message arrives with the fields
  it was sent with (the attachments in any order), within the time window and with a nonce not
  seen before, then \<^verbatim>\<open>verifyInbound\<close> accepts what \<^verbatim>\<open>buildSignedSendFields\<close> made.
\<close>

theorem signed_envelope_roundtrip:
  assumes law: "\<And>t. ed_verify C t (ed_sign G t seed) (ed_public G seed)"
    and fields: "buildSignedSendFields C G seed o' = (sig, kid, canonical)" "sig \<noteq> []" "kid \<noteq> []"
    and entry: "map_of (vo_rosterByAgent opts) (so_selfAgentId o') = Some entry"
      "re_identity_public_key entry = Some (ed_public G seed)" "ed_public G seed \<noteq> []" "re_key_id entry = Some kid"
      "re_endorsed_by_key_id entry = Some ekid" "ekid \<noteq> []" "re_endorsement_sig entry = Some esig" "esig \<noteq> []"
      "map_of (vo_operatorKeys opts) ekid = Some opub" "opub \<noteq> []"
      "ed_verify C (canonicalize (agentKeyEndorsementPayload (vo_fleetId opts) (so_selfAgentId o') kid (ed_public G seed))) esig opub"
    and msg: "m = \<lparr> sm_message_id = mid, sm_sender_kind = Some ''agent'', sm_sender_agent_id = Some (so_selfAgentId o'),
      sm_message_type = Some (so_messageType o'), sm_priority = Some (so_priority o'),
      sm_body = Some (JObj [(''text'', JStr (so_bodyText o')), (''attachments'', JArr (map JStr atts))]),
      sm_operator_sig = None, sm_agent_sig = Some sig, sm_key_id = Some kid, sm_sig_canonical = Some canonical \<rparr>"
      "sort atts = sort (so_attachments o')"
    and to: "so_fleetId o' = vo_fleetId opts"
      "so_recipient o' = JObj [(''kind'', JStr ''agent''), (''id'', JStr (vo_selfAgentId opts))]"
    and time: "date_of (so_sentAt o') = Some sentAt" "vo_maxSkewSeconds opts = None" "vo_maxFutureSkewSeconds opts = None"
      "vo_now opts - 86700 * 1000 \<le> sentAt" "sentAt \<le> vo_now opts + 300 * 1000"
    and nonce: "so_nonce o' \<noteq> []" "so_nonce o' \<notin> set (vo_seenNonces opts)"
  shows "verifyInbound C date_of opts m = \<lparr> vr_verified = True, vr_kind = Peer_sender, vr_reason = None, vr_keyId = Some kid \<rparr>"
proof -
  have c: "canonical = signed_canonical C G seed o'" "sig = ed_sign G (canonicalize canonical) seed" "kid = keyId C (ed_public G seed)"
    using fields(1) by (auto simp: buildSignedSendFields_def Let_def)
  have peer: "\<not> is_operator m" "sig_of m = Some sig" "sender_of m = Peer_sender"
    by (simp_all add: msg(1) is_operator_def sig_of_def sender_of_def)
  have "resolve_signer C opts m = Inr (ed_public G seed)"
    using peer(1) entry by (simp add: resolve_signer_def msg(1) or_empty_def verifyCanonical_def)
  moreover have "verifyCanonical C canonical sig (ed_public G seed)" by (simp add: verifyCanonical_def c(2) law)
  moreover have "binding_error C opts m canonical = None"
    using peer(1) msg(2) to by (simp add: binding_error_def Let_def c signed_canonical_members msg(1) message_text_def opt_get_def
        or_empty_def sorted_sort_id)
  moreover have "freshness_error date_of opts canonical = None"
    using time nonce by (simp add: freshness_error_def Let_def c(1) signed_canonical_members js_String_def or_default_def
        MAX_PAST_SKEW_SECONDS_def MAX_FUTURE_SKEW_SECONDS_def)
  moreover have "json_truthy (Some canonical)" by (simp add: c(1) signed_canonical_def)
  ultimately show ?thesis
    using fields(2,3) peer(2,3) by (simp add: verifyInbound_def Let_def msg(1))
qed

theorem signed_envelope_roundtrip_witness:
  "vr_verified (verifyInbound sample_crypto date_parse
     \<lparr> vo_selfAgentId = ''agt_a'', vo_fleetId = ''flt'', vo_operatorKeys = [(''opk'', ''op'')],
       vo_rosterByAgent = [(''agt_b'', sample_roster)], vo_seenNonces = [''z''], vo_now = 2000,
       vo_maxSkewSeconds = None, vo_maxFutureSkewSeconds = None \<rparr> sample_message)"
proof -
  have d: "date_parse ''1970-01-01T00:00:01.000Z'' = Some 1000" by code_simp
  have "verifyInbound sample_crypto date_parse
     \<lparr> vo_selfAgentId = ''agt_a'', vo_fleetId = ''flt'', vo_operatorKeys = [(''opk'', ''op'')],
       vo_rosterByAgent = [(''agt_b'', sample_roster)], vo_seenNonces = [''z''], vo_now = 2000,
       vo_maxSkewSeconds = None, vo_maxFutureSkewSeconds = None \<rparr> sample_message
     = \<lparr> vr_verified = True, vr_kind = Peer_sender, vr_reason = None, vr_keyId = Some ''pub'' \<rparr>"
    by (rule signed_envelope_roundtrip [where G = sample_signing and seed = "''seed''" and o' = sample_send and entry = sample_roster
          and atts = "[''x'', ''y'']" and sentAt = 1000])
      (auto simp: sample_send_def sample_roster_def sample_message_def d buildSignedSendFields_def Let_def sample_crypto_def keyId_def)
  then show ?thesis by simp
qed

end
