(* ===== verification/Trust_Root.thy ===== *)
theory Trust_Root
  imports Envelope
begin

text \<open>
  The agent's own trust root, \<^verbatim>\<open>packages/sdk/src/identity\<close>: the identity file of \<^verbatim>\<open>store.ts\<close> and the
  pinned operator keys that \<^verbatim>\<open>syncPinnedOperatorKeys\<close> of \<^verbatim>\<open>verification.ts\<close> updates from what the relay serves.
  The relay is not trusted here: its list of keys is an arbitrary input.  A \<^verbatim>\<open>Record\<close> is the list of
  its own members in insertion order, as in \<open>Envelope\<close>.
\<close>

section \<open>The identity\<close>

datatype admitted_by = Tofu | Chain

record admission =
  ad_admitted_by :: admitted_by
  ad_endorsed_by_key_id :: "string option"
  ad_endorsement_sig :: "string option"
  ad_admitted_at :: string

text \<open>\<^verbatim>\<open>EkhoIdentity\<close>; \<open>id_other\<close> are the members of the file that this version does not know.\<close>

record identity =
  id_seedHex :: string
  id_pinnedOperatorKeys :: "(string \<times> string) list"
  id_tofuAt :: "string option"
  id_revokedOperatorKeys :: "(string \<times> string) list option"
  id_operatorKeyAdmissions :: "(string \<times> admission) list option"
  id_other :: "(string \<times> json) list"

text \<open>\<^verbatim>\<open>Partial<EkhoIdentity>\<close>, what the file holds.\<close>

record stored_identity =
  si_seedHex :: "string option"
  si_pinnedOperatorKeys :: "(string \<times> string) list option"
  si_tofuAt :: "string option"
  si_revokedOperatorKeys :: "(string \<times> string) list option"
  si_operatorKeyAdmissions :: "(string \<times> admission) list option"
  si_other :: "(string \<times> json) list"

text \<open>A file of the configuration directory: a JSON object, or bytes that are no JSON.\<close>

datatype identity_file = Stored stored_identity | Other_bytes string

type_synonym disk = "string \<Rightarrow> identity_file option"

definition IDENTITY_FILE :: string where
  "IDENTITY_FILE = ''.ekho-identity.json''"

datatype identity_error = Unreadable "string option" | Missing_identity | Rename_failed

text \<open>
  What the file system does during one call: whether the identity file can be read, whether a copy
  can be written, whether the rename goes through; and the process id.
\<close>

record io =
  io_readable :: bool
  io_copy_ok :: bool
  io_rename_ok :: bool
  io_pid :: nat

definition encode_identity :: "identity \<Rightarrow> stored_identity" where
  "encode_identity i =
     \<lparr> si_seedHex = Some (id_seedHex i), si_pinnedOperatorKeys = Some (id_pinnedOperatorKeys i), si_tofuAt = id_tofuAt i,
       si_revokedOperatorKeys = id_revokedOperatorKeys i, si_operatorKeyAdmissions = id_operatorKeyAdmissions i,
       si_other = id_other i \<rparr>"

text \<open>The temporary file is written, then renamed over the real one; a failed rename removes it again and throws.\<close>

definition saveIdentity :: "io \<Rightarrow> int \<Rightarrow> string \<Rightarrow> identity \<Rightarrow> disk \<Rightarrow> (identity_error + unit) \<times> disk" where
  "saveIdentity F t filePath i d =
     (let tmp = filePath @ ''.tmp-'' @ nat_str (io_pid F) @ ''-'' @ int_str t;
          d1 = d(tmp \<mapsto> Stored (encode_identity i))
      in if io_rename_ok F then (Inr (), (d1(filePath := d1 tmp))(tmp := None))
         else (Inl Rename_failed, d1(tmp := None)))"

definition preserveUnusableFile :: "io \<Rightarrow> int \<Rightarrow> string \<Rightarrow> identity_file option \<Rightarrow> disk \<Rightarrow> string option \<times> disk" where
  "preserveUnusableFile F t filePath raw d =
     (case raw of
        None \<Rightarrow> (None, d)
      | Some bytes \<Rightarrow>
          let target = filePath @ ''.unusable-'' @ map (\<lambda>c. if c = CHR '':'' \<or> c = CHR ''.'' then CHR ''-'' else c) (to_iso t)
          in if io_copy_ok F then (Some target, d(target \<mapsto> bytes)) else (None, d))"

text \<open>\<open>fresh\<close> is the random seed drawn when a new identity is made.\<close>

definition loadOrCreateIdentity ::
  "io \<Rightarrow> int \<Rightarrow> string \<Rightarrow> string \<Rightarrow> bool \<Rightarrow> disk \<Rightarrow> (identity_error + identity) \<times> disk" where
  "loadOrCreateIdentity F t filePath fresh allowCreate d =
     (case d filePath of
        Some file \<Rightarrow>
          let refuse = (let (preserved, d') = preserveUnusableFile F t filePath (if io_readable F then Some file else None) d
                        in (Inl (Unreadable preserved), d'))
          in if \<not> io_readable F then refuse
             else (case file of
                     Stored s \<Rightarrow>
                       if truthy (si_seedHex s) then
                         (Inr \<lparr> id_seedHex = the (si_seedHex s),
                                id_pinnedOperatorKeys = (case si_pinnedOperatorKeys s of None \<Rightarrow> [] | Some p \<Rightarrow> p),
                                id_tofuAt = si_tofuAt s, id_revokedOperatorKeys = si_revokedOperatorKeys s,
                                id_operatorKeyAdmissions = si_operatorKeyAdmissions s, id_other = si_other s \<rparr>, d)
                       else refuse
                   | Other_bytes _ \<Rightarrow> refuse)
      | None \<Rightarrow>
          if \<not> allowCreate then (Inl Missing_identity, d)
          else
            let i = \<lparr> id_seedHex = fresh, id_pinnedOperatorKeys = [], id_tofuAt = None, id_revokedOperatorKeys = None,
                      id_operatorKeyAdmissions = None, id_other = [] \<rparr>
            in (case saveIdentity F t filePath i d of
                  (Inl e, d') \<Rightarrow> (Inl e, d')
                | (Inr _, d') \<Rightarrow> (Inr i, d')))"

section \<open>Warnings about unproven revocations\<close>

definition ADVISORY_REVOCATION_WARNING_SUMMARY_EVERY :: nat where
  "ADVISORY_REVOCATION_WARNING_SUMMARY_EVERY = 120"

definition ADVISORY_REVOCATION_WARNING_MAX_SCOPES :: nat where
  "ADVISORY_REVOCATION_WARNING_MAX_SCOPES = 64"

definition MAX_ADVISORY_KEYS_IN_LOG :: nat where
  "MAX_ADVISORY_KEYS_IN_LOG = 8"

definition MAX_ADVISORY_KID_CHARS :: nat where
  "MAX_ADVISORY_KID_CHARS = 32"

record advisory_warn_entry =
  aw_fingerprint :: string
  aw_suppressed :: nat

type_synonym advisory_warns = "(string \<times> advisory_warn_entry) list"

text \<open>What is written to the log.\<close>

datatype sync_log =
    Unrevoke_unbound string
  | Unrevoke_unsigned string
  | Unrevoke_outdated string string string
  | Unrevoked string
  | Last_root_kept string
  | Key_dropped string string
  | Advisory string

definition remove_key :: "string \<Rightarrow> (string \<times> 'v) list \<Rightarrow> (string \<times> 'v) list" where
  "remove_key k ms = filter (\<lambda>m. fst m \<noteq> k) ms"

definition advisoryScopeKey :: "signing \<Rightarrow> identity \<Rightarrow> string option \<Rightarrow> string" where
  "advisoryScopeKey G i fleetId = ed_public G (id_seedHex i) @ CHR 0x00 # or_empty fleetId"

text \<open>The loop that drops the oldest scopes while there are too many, but never the scope just touched.\<close>

fun evict_oldest :: "string \<Rightarrow> advisory_warns \<Rightarrow> advisory_warns" where
  "evict_oldest scopeKey [] = []"
| "evict_oldest scopeKey (e # es) =
     (if length (e # es) > ADVISORY_REVOCATION_WARNING_MAX_SCOPES \<and> fst e \<noteq> scopeKey
      then evict_oldest scopeKey es else e # es)"

definition touchAdvisoryScope :: "string \<Rightarrow> advisory_warn_entry \<Rightarrow> advisory_warns \<Rightarrow> advisory_warns" where
  "touchAdvisoryScope scopeKey entry ws = evict_oldest scopeKey (put scopeKey entry (remove_key scopeKey ws))"

definition format_kid_char :: "char \<Rightarrow> string" where
  "format_kid_char c =
     (let code = of_char c :: nat in
      if c = CHR 0x5C then [CHR 0x5C, CHR 0x5C]
      else if c = CHR 0x0A then [CHR 0x5C, CHR ''n'']
      else if c = CHR 0x0D then [CHR 0x5C, CHR ''r'']
      else if c = CHR 0x09 then [CHR 0x5C, CHR ''t'']
      else if c = CHR 0x00 then [CHR 0x5C, CHR ''0'']
      else if code < 32 \<or> 127 \<le> code \<and> code \<le> 159
      then [CHR 0x5C, CHR ''u'', CHR ''0'', CHR ''0'', hex_char (code div 16), hex_char (code mod 16)]
      else [c])"

definition formatKidForLog :: "string \<Rightarrow> string" where
  "formatKidForLog kid =
     (let escaped = concat (map format_kid_char kid)
      in if length escaped \<le> MAX_ADVISORY_KID_CHARS then escaped else take MAX_ADVISORY_KID_CHARS escaped @ ''...'')"

text \<open>\<^verbatim>\<open>parts.join(", ")\<close>.\<close>

fun join_comma_space :: "string list \<Rightarrow> string" where
  "join_comma_space [] = []"
| "join_comma_space [p] = p"
| "join_comma_space (p # q # ps) = p @ '', '' @ join_comma_space (q # ps)"

definition formatAdvisoryKeyList :: "string list \<Rightarrow> string" where
  "formatAdvisoryKeyList kids =
     (let shown = map formatKidForLog (take MAX_ADVISORY_KEYS_IN_LOG kids); omitted = length kids - length shown;
          l = join_comma_space shown
      in if omitted = 0 then l else l @ '' (+'' @ nat_str omitted @ '' omitted)'')"

definition formatAdvisoryWarning :: "string list \<Rightarrow> string" where
  "formatAdvisoryWarning kids =
     (if length kids = 1 then
        ''[ekho] relay reports operator key '' @ formatKidForLog (hd kids)
        @ '' as REVOKED without a valid revocation signature. Treating the claim as ADVISORY: the key is NOT unpinned and NOT tombstoned, but it will not be newly adopted until a signed revocation arrives.''
      else
        ''[ekho] relay reports '' @ nat_str (length kids) @ '' operator keys as REVOKED without a valid revocation signature: ''
        @ formatAdvisoryKeyList kids
        @ ''. Treating the claim as ADVISORY: the keys are NOT unpinned and NOT tombstoned, but they will not be newly adopted until a signed revocation arrives.'')"

definition formatAdvisorySummary :: "string list \<Rightarrow> nat \<Rightarrow> string" where
  "formatAdvisorySummary kids suppressed =
     ''[ekho] still treating '' @ nat_str (length kids) @ '' unsigned/invalid operator-key revocation claim(s) as ADVISORY (suppressed ''
     @ nat_str suppressed @ '' identical warning(s) this process). Keys: '' @ formatAdvisoryKeyList kids
     @ ''. Not unpinned, not tombstoned; still blocking new adoption.''"

text \<open>\<open>advisory\<close> is the set of key ids, as a list without repetitions.\<close>

definition warnAdvisoryRevocations ::
  "crypto \<Rightarrow> string \<Rightarrow> string list \<Rightarrow> advisory_warns \<Rightarrow> sync_log list \<times> advisory_warns" where
  "warnAdvisoryRevocations C scopeKey advisory ws =
     (if advisory = [] then ([], remove_key scopeKey ws)
      else
        let kids = sort advisory; fingerprint = sha256_hex C (canonicalize (JArr (map JStr kids))) in
        case map_of ws scopeKey of
          None \<Rightarrow> ([Advisory (formatAdvisoryWarning kids)],
                   touchAdvisoryScope scopeKey \<lparr> aw_fingerprint = fingerprint, aw_suppressed = 0 \<rparr> ws)
        | Some prev \<Rightarrow>
            if aw_fingerprint prev \<noteq> fingerprint
            then ([Advisory (formatAdvisoryWarning kids)],
                  touchAdvisoryScope scopeKey \<lparr> aw_fingerprint = fingerprint, aw_suppressed = 0 \<rparr> ws)
            else
              let n = aw_suppressed prev + 1 in
              if n \<ge> ADVISORY_REVOCATION_WARNING_SUMMARY_EVERY
              then ([Advisory (formatAdvisorySummary kids n)], touchAdvisoryScope scopeKey (prev\<lparr> aw_suppressed := 0 \<rparr>) ws)
              else ([], put scopeKey (prev\<lparr> aw_suppressed := n \<rparr>) ws))"

section \<open>The relay's claims\<close>

record op_key_entry =
  oe_key_id :: "string option"
  oe_public_key :: "string option"
  oe_revoked :: bool
  oe_endorsed_by_key_id :: "string option"
  oe_endorsement_sig :: "string option"
  oe_revocation_sig :: "string option"
  oe_revoked_at :: "string option"
  oe_unrevoke_sig :: "string option"
  oe_unrevoke_revoked_at :: "string option"
  oe_unrevoke_issued_at :: "string option"
  oe_unrevoke_nonce :: "string option"

text \<open>\<^verbatim>\<open>ClaimCtx\<close> and \<^verbatim>\<open>RelayKeyClaims\<close>: the working trust root and what was done to it.\<close>

record claims =
  cl_pinned :: "(string \<times> string) list"
  cl_revokedLedger :: "(string \<times> string) list"
  cl_admissions :: "(string \<times> admission) list"
  cl_advisory :: "string list"
  cl_pinRemoved :: bool
  cl_ledgerChanged :: bool
  cl_admissionsChanged :: bool
  cl_log :: "sync_log list"

definition signedByAPinnedKey :: "crypto \<Rightarrow> (string \<times> string) list \<Rightarrow> json \<Rightarrow> string \<Rightarrow> bool" where
  "signedByAPinnedKey C authorities payload sig = list_ex (\<lambda>(_, pub). verifyCanonical C payload sig pub) authorities"

definition unrevoke_one :: "crypto \<Rightarrow> (string \<times> string) list \<Rightarrow> string option \<Rightarrow> claims \<Rightarrow> op_key_entry \<Rightarrow> claims" where
  "unrevoke_one C authorities fleetId x k =
     (let kid = the (oe_key_id k); revokedAt = oe_unrevoke_revoked_at k; issuedAt = oe_unrevoke_issued_at k;
          nonce = oe_unrevoke_nonce k; warn = (\<lambda>l. x\<lparr> cl_log := cl_log x @ [l] \<rparr>) in
      if \<not> truthy (oe_key_id k) \<or> \<not> truthy (oe_unrevoke_sig k) \<or> \<not> truthy (map_of (cl_revokedLedger x) kid) then x
      else if \<not> truthy revokedAt \<or> \<not> truthy issuedAt \<or> \<not> truthy nonce then warn (Unrevoke_unbound kid)
      else if \<not> truthy fleetId \<or>
        \<not> (case unrevokePayload (the fleetId) kid (the revokedAt) (the issuedAt) (the nonce) of
             None \<Rightarrow> False | Some payload \<Rightarrow> signedByAPinnedKey C authorities payload (the (oe_unrevoke_sig k)))
      then warn (Unrevoke_unsigned kid)
      else if revokedAt \<noteq> map_of (cl_revokedLedger x) kid
      then warn (Unrevoke_outdated kid (the revokedAt) (the (map_of (cl_revokedLedger x) kid)))
      else x\<lparr> cl_revokedLedger := remove_key kid (cl_revokedLedger x), cl_ledgerChanged := True,
              cl_log := cl_log x @ [Unrevoked kid] \<rparr>)"

definition clearTombstonesOnSignedUnrevoke ::
  "crypto \<Rightarrow> (string \<times> string) list \<Rightarrow> string option \<Rightarrow> op_key_entry list \<Rightarrow> claims \<Rightarrow> claims" where
  "clearTombstonesOnSignedUnrevoke C authorities fleetId operatorKeys x =
     foldl (unrevoke_one C authorities fleetId) x operatorKeys"

definition noteAdvisoryClaim :: "string \<Rightarrow> claims \<Rightarrow> claims" where
  "noteAdvisoryClaim kid x = x\<lparr> cl_advisory := (if kid \<in> set (cl_advisory x) then cl_advisory x else cl_advisory x @ [kid]) \<rparr>"

definition isLastPinnedKey :: "string \<Rightarrow> claims \<Rightarrow> bool" where
  "isLastPinnedKey kid x \<longleftrightarrow> truthy (map_of (cl_pinned x) kid) \<and> length (cl_pinned x) = 1"

definition noteLastRootRefusal :: "string \<Rightarrow> claims \<Rightarrow> claims" where
  "noteLastRootRefusal kid x = x\<lparr> cl_log := cl_log x @ [Last_root_kept kid] \<rparr>"

definition dropRevokedKey :: "string \<Rightarrow> string \<Rightarrow> claims \<Rightarrow> claims" where
  "dropRevokedKey kid at x =
     (let x1 = (if truthy (map_of (cl_revokedLedger x) kid) then x
                else x\<lparr> cl_revokedLedger := put kid at (cl_revokedLedger x), cl_ledgerChanged := True \<rparr>);
          x2 = (if truthy (map_of (cl_pinned x1) kid)
                then x1\<lparr> cl_pinned := remove_key kid (cl_pinned x1), cl_pinRemoved := True, cl_log := cl_log x1 @ [Key_dropped kid at] \<rparr>
                else x1)
      in if map_of (cl_admissions x2) kid \<noteq> None
         then x2\<lparr> cl_admissions := remove_key kid (cl_admissions x2), cl_admissionsChanged := True \<rparr>
         else x2)"

definition revoke_one :: "crypto \<Rightarrow> (string \<times> string) list \<Rightarrow> string option \<Rightarrow> claims \<Rightarrow> op_key_entry \<Rightarrow> claims" where
  "revoke_one C authorities fleetId x k =
     (let kid = the (oe_key_id k); at = oe_revoked_at k; sig = oe_revocation_sig k in
      if \<not> truthy (oe_key_id k) \<or> \<not> oe_revoked k then x
      else
        let proven = truthy sig \<and> truthy at \<and> truthy fleetId \<and>
              signedByAPinnedKey C authorities (revocationPayload (the fleetId) kid (the at)) (the sig)
        in if \<not> proven then noteAdvisoryClaim kid x
           else if isLastPinnedKey kid x then noteLastRootRefusal kid x
           else dropRevokedKey kid (the at) x)"

definition applySignedRevocations ::
  "crypto \<Rightarrow> (string \<times> string) list \<Rightarrow> string option \<Rightarrow> op_key_entry list \<Rightarrow> claims \<Rightarrow> claims" where
  "applySignedRevocations C authorities fleetId operatorKeys x = foldl (revoke_one C authorities fleetId) x operatorKeys"

definition applyRelayKeyClaims ::
  "crypto \<Rightarrow> (string \<times> string) list \<Rightarrow> string option \<Rightarrow> op_key_entry list \<Rightarrow> string \<Rightarrow> advisory_warns \<Rightarrow> claims
   \<Rightarrow> claims \<times> advisory_warns" where
  "applyRelayKeyClaims C authorities fleetId operatorKeys scopeKey ws x =
     (let x1 = clearTombstonesOnSignedUnrevoke C authorities fleetId operatorKeys x;
          x2 = applySignedRevocations C authorities fleetId operatorKeys x1;
          (lines, ws') = warnAdvisoryRevocations C scopeKey (cl_advisory x2) ws
      in (x2\<lparr> cl_log := cl_log x2 @ lines \<rparr>, ws'))"

section \<open>Pinning\<close>

text \<open>The pinned keys, why each is pinned, and whether one was added.\<close>

type_synonym pin_state = "(string \<times> string) list \<times> (string \<times> admission) list \<times> bool"

text \<open>First contact: one entry, and whether anything was adopted.\<close>

definition tofu_one ::
  "string \<Rightarrow> string list \<Rightarrow> (string \<times> string) list \<Rightarrow> pin_state
   \<Rightarrow> op_key_entry \<Rightarrow> pin_state" where
  "tofu_one at advisory revokedLedger = (\<lambda>(pinned, admissions, adopted) k.
     let kid = the (oe_key_id k) in
     if truthy (oe_key_id k) \<and> truthy (oe_public_key k) \<and> kid \<notin> set advisory \<and> \<not> truthy (map_of revokedLedger kid)
     then (put kid (the (oe_public_key k)) pinned,
           put kid \<lparr> ad_admitted_by = Tofu, ad_endorsed_by_key_id = None, ad_endorsement_sig = None, ad_admitted_at = at \<rparr> admissions,
           True)
     else (pinned, admissions, adopted))"

text \<open>Endorsement by a key that is pinned by now: one entry, and whether a key was added.\<close>

definition chain_one ::
  "crypto \<Rightarrow> string \<Rightarrow> string option \<Rightarrow> string list \<Rightarrow> (string \<times> string) list
   \<Rightarrow> pin_state
   \<Rightarrow> op_key_entry \<Rightarrow> pin_state" where
  "chain_one C at fleetId advisory revokedLedger = (\<lambda>(pinned, admissions, added) k.
     let kid = the (oe_key_id k); endorser = oe_endorsed_by_key_id k; esig = oe_endorsement_sig k; pub = oe_public_key k in
     if \<not> truthy (oe_key_id k) \<or> truthy (map_of pinned kid) \<or> truthy (map_of revokedLedger kid) \<or> kid \<in> set advisory
     then (pinned, admissions, added)
     else if truthy endorser \<and> truthy esig \<and> truthy pub \<and> truthy fleetId \<and> truthy (map_of pinned (the endorser)) \<and>
       verifyCanonical C (endorsementPayload (the fleetId) kid (the pub)) (the esig) (the (map_of pinned (the endorser)))
     then (put kid (the pub) pinned,
           put kid \<lparr> ad_admitted_by = Chain, ad_endorsed_by_key_id = endorser, ad_endorsement_sig = esig, ad_admitted_at = at \<rparr> admissions,
           True)
     else (pinned, admissions, added))"

definition or_nil :: "'a list option \<Rightarrow> 'a list" where
  "or_nil v = (case v of None \<Rightarrow> [] | Some x \<Rightarrow> x)"

text \<open>The identity after the call, whether it changed, the log and the state of the warnings.\<close>

definition syncPinnedOperatorKeys ::
  "crypto \<Rightarrow> signing \<Rightarrow> int \<Rightarrow> string option \<Rightarrow> op_key_entry list \<Rightarrow> advisory_warns \<Rightarrow> identity
   \<Rightarrow> identity \<times> bool \<times> sync_log list \<times> advisory_warns" where
  "syncPinnedOperatorKeys C G t fleetId operatorKeys ws i =
     (let authorities = id_pinnedOperatorKeys i; at = to_iso t;
          (x, ws') = applyRelayKeyClaims C authorities fleetId operatorKeys (advisoryScopeKey G i fleetId) ws
            \<lparr> cl_pinned = id_pinnedOperatorKeys i, cl_revokedLedger = or_nil (id_revokedOperatorKeys i),
              cl_admissions = or_nil (id_operatorKeyAdmissions i), cl_advisory = [], cl_pinRemoved = False,
              cl_ledgerChanged = False, cl_admissionsChanged = False, cl_log = [] \<rparr>;
          i1 = (if cl_ledgerChanged x then i\<lparr> id_revokedOperatorKeys := Some (cl_revokedLedger x) \<rparr> else i);
          changed = cl_pinRemoved x \<or> cl_ledgerChanged x;
          (tp, ta, adopted) = (if cl_pinned x = [] \<and> \<not> truthy (id_tofuAt i)
             then foldl (tofu_one at (cl_advisory x) (cl_revokedLedger x)) (cl_pinned x, cl_admissions x, False) operatorKeys
             else (cl_pinned x, cl_admissions x, False))
      in if adopted
         then (i1\<lparr> id_tofuAt := Some at, id_pinnedOperatorKeys := tp, id_operatorKeyAdmissions := Some ta \<rparr>, True, cl_log x, ws')
         else
           let (p, a, added) = foldl (chain_one C at fleetId (cl_advisory x) (cl_revokedLedger x))
                                 (cl_pinned x, cl_admissions x, False) operatorKeys;
               changed' = changed \<or> added; admissionsChanged = cl_admissionsChanged x \<or> added;
               i2 = (if changed' then i1\<lparr> id_pinnedOperatorKeys := p \<rparr> else i1);
               i3 = (if admissionsChanged then i2\<lparr> id_operatorKeyAdmissions := Some a \<rparr> else i2)
           in (i3, changed' \<or> admissionsChanged, cl_log x, ws'))"

section \<open>What a call does\<close>

text \<open>The working trust root after the two passes over the relay's claims.\<close>

definition start_claims :: "identity \<Rightarrow> claims" where
  "start_claims i =
     \<lparr> cl_pinned = id_pinnedOperatorKeys i, cl_revokedLedger = or_nil (id_revokedOperatorKeys i),
       cl_admissions = or_nil (id_operatorKeyAdmissions i), cl_advisory = [], cl_pinRemoved = False,
       cl_ledgerChanged = False, cl_admissionsChanged = False, cl_log = [] \<rparr>"

definition settled_claims :: "crypto \<Rightarrow> string option \<Rightarrow> op_key_entry list \<Rightarrow> identity \<Rightarrow> claims" where
  "settled_claims C fleetId ks i =
     applySignedRevocations C (id_pinnedOperatorKeys i) fleetId ks
       (clearTombstonesOnSignedUnrevoke C (id_pinnedOperatorKeys i) fleetId ks (start_claims i))"

lemma foldl_keeps: "P x \<Longrightarrow> (\<And>x k. k \<in> set ks \<Longrightarrow> P x \<Longrightarrow> P (f x k)) \<Longrightarrow> P (foldl f x ks)"
  by (induction ks arbitrary: x) auto

lemma settled_claims_keep:
  assumes "P (start_claims i)"
    and "\<And>x k. k \<in> set ks \<Longrightarrow> P x \<Longrightarrow> P (unrevoke_one C (id_pinnedOperatorKeys i) fleetId x k)"
    and "\<And>x k. k \<in> set ks \<Longrightarrow> P x \<Longrightarrow> P (revoke_one C (id_pinnedOperatorKeys i) fleetId x k)"
  shows "P (settled_claims C fleetId ks i)"
  unfolding settled_claims_def applySignedRevocations_def clearTombstonesOnSignedUnrevoke_def
  by (rule foldl_keeps [where P = P], rule foldl_keeps [where P = P]) (fact assms)+

lemma map_of_remove_key [simp]: "map_of (remove_key k ms) = (map_of ms)(k := None)"
proof
  show "map_of (remove_key k ms) x = ((map_of ms)(k := None)) x" for x
    by (induction ms) (auto simp: remove_key_def)
qed

lemma remove_key_incl: "set (remove_key k ms) \<subseteq> set ms" "m \<in> set (remove_key k ms) \<Longrightarrow> fst m \<noteq> k"
  by (auto simp: remove_key_def)

lemma distinct_remove_key [simp]: "distinct (map fst ms) \<Longrightarrow> distinct (map fst (remove_key k ms))"
  by (simp add: remove_key_def distinct_map_filter)

lemma put_not_Nil [simp]: "put k v ms \<noteq> []"
  by (auto simp: put_def)

lemma keys_put: "map fst (put k v ms) = (if k \<in> fst ` set ms then map fst ms else map fst ms @ [k])"
proof -
  have "fst \<circ> (\<lambda>(k', v'). (k', if k' = k then v else v')) = fst" by (auto simp: fun_eq_iff)
  then show ?thesis by (simp add: put_def map_of_eq_None_iff)
qed

lemma distinct_put [simp]: "distinct (map fst ms) \<Longrightarrow> distinct (map fst (put k v ms))"
  by (auto simp: keys_put)

text \<open>A call that reports no change of a part left that part as it was.\<close>

lemmas claim_defs = unrevoke_one_def revoke_one_def noteAdvisoryClaim_def noteLastRootRefusal_def dropRevokedKey_def Let_def

lemma settled_unchanged:
  fixes C fleetId ks i
  defines "x \<equiv> settled_claims C fleetId ks i"
  shows "\<not> cl_pinRemoved x \<Longrightarrow> cl_pinned x = id_pinnedOperatorKeys i"
    "\<not> cl_ledgerChanged x \<Longrightarrow> cl_revokedLedger x = or_nil (id_revokedOperatorKeys i)"
    "\<not> cl_admissionsChanged x \<Longrightarrow> cl_admissions x = or_nil (id_operatorKeyAdmissions i)"
proof -
  have "\<not> cl_pinRemoved x \<longrightarrow> cl_pinned x = id_pinnedOperatorKeys i"
    unfolding x_def by (rule settled_claims_keep) (simp_all add: start_claims_def claim_defs)
  moreover have "\<not> cl_ledgerChanged x \<longrightarrow> cl_revokedLedger x = or_nil (id_revokedOperatorKeys i)"
    unfolding x_def by (rule settled_claims_keep) (simp_all add: start_claims_def claim_defs)
  moreover have "\<not> cl_admissionsChanged x \<longrightarrow> cl_admissions x = or_nil (id_operatorKeyAdmissions i)"
    unfolding x_def by (rule settled_claims_keep) (simp_all add: start_claims_def claim_defs)
  ultimately show "\<not> cl_pinRemoved x \<Longrightarrow> cl_pinned x = id_pinnedOperatorKeys i"
    "\<not> cl_ledgerChanged x \<Longrightarrow> cl_revokedLedger x = or_nil (id_revokedOperatorKeys i)"
    "\<not> cl_admissionsChanged x \<Longrightarrow> cl_admissions x = or_nil (id_operatorKeyAdmissions i)" by blast+
qed

definition tofu_pins :: "string \<Rightarrow> claims \<Rightarrow> op_key_entry list \<Rightarrow> pin_state" where
  "tofu_pins at x ks = foldl (tofu_one at (cl_advisory x) (cl_revokedLedger x)) (cl_pinned x, cl_admissions x, False) ks"

definition chain_pins ::
  "crypto \<Rightarrow> string \<Rightarrow> string option \<Rightarrow> claims \<Rightarrow> op_key_entry list \<Rightarrow> pin_state" where
  "chain_pins C at fleetId x ks =
     foldl (chain_one C at fleetId (cl_advisory x) (cl_revokedLedger x)) (cl_pinned x, cl_admissions x, False) ks"

lemma chain_one_cases:
  obtains (keep) "chain_one C at fleetId adv led st k = st"
  | (add) p a b kid pub fl ekid epub esig adm where "st = (p, a, b)" "chain_one C at fleetId adv led st k = (put kid pub p, put kid adm a, True)"
      "kid \<noteq> []" "pub \<noteq> []" "\<not> truthy (map_of led kid)" "fleetId = Some fl" "map_of p ekid = Some epub"
      "oe_endorsement_sig k = Some esig" "ed_verify C (canonicalize (endorsementPayload fl kid pub)) esig epub"
proof -
  obtain p a b where st: "st = (p, a, b)" by (cases st)
  let ?kid = "the (oe_key_id k)" and ?e = "the (oe_endorsed_by_key_id k)"
  show ?thesis
  proof (cases "\<not> truthy (oe_key_id k) \<or> truthy (map_of p ?kid) \<or> truthy (map_of led ?kid) \<or> ?kid \<in> set adv \<or>
      \<not> (truthy (oe_endorsed_by_key_id k) \<and> truthy (oe_endorsement_sig k) \<and> truthy (oe_public_key k) \<and> truthy fleetId \<and> truthy (map_of p ?e) \<and>
       verifyCanonical C (endorsementPayload (the fleetId) ?kid (the (oe_public_key k))) (the (oe_endorsement_sig k)) (the (map_of p ?e)))")
    case True
    then have "chain_one C at fleetId adv led st k = st" unfolding chain_one_def Let_def st by (simp only: prod.case) meson
    then show ?thesis by (rule keep)
  next
    case False
    then obtain kid pub fl epub esig where v: "oe_key_id k = Some kid" "oe_public_key k = Some pub" "fleetId = Some fl"
      "map_of p ?e = Some epub" "oe_endorsement_sig k = Some esig" "kid \<noteq> []" "pub \<noteq> []" by (auto simp: truthy_iff)
    with False show ?thesis
      using add [OF st, of kid pub _ fl ?e epub esig] by (simp add: chain_one_def st verifyCanonical_def)
  qed
qed

lemma chain_pins_unchanged: "\<not> snd (snd (chain_pins C at fleetId x ks)) \<Longrightarrow> chain_pins C at fleetId x ks = (cl_pinned x, cl_admissions x, False)"
proof -
  have "snd (snd (chain_pins C at fleetId x ks)) \<or> chain_pins C at fleetId x ks = (cl_pinned x, cl_admissions x, False)"
    unfolding chain_pins_def
  proof (rule foldl_keeps)
    fix y :: pin_state and k assume IH: "snd (snd y) \<or> y = (cl_pinned x, cl_admissions x, False)"
    show "snd (snd (chain_one C at fleetId (cl_advisory x) (cl_revokedLedger x) y k)) \<or>
        chain_one C at fleetId (cl_advisory x) (cl_revokedLedger x) y k = (cl_pinned x, cl_admissions x, False)"
      using IH by (cases rule: chain_one_cases [of C at fleetId "cl_advisory x" "cl_revokedLedger x" y k]) simp_all
  qed simp
  then show "\<not> snd (snd (chain_pins C at fleetId x ks)) \<Longrightarrow> ?thesis" by blast
qed

lemma applyRelayKeyClaims_settled:
  "fst (applyRelayKeyClaims C (id_pinnedOperatorKeys i) fleetId ks scopeKey ws (start_claims i))
   = (let x = settled_claims C fleetId ks i
      in x\<lparr> cl_log := cl_log x @ fst (warnAdvisoryRevocations C scopeKey (cl_advisory x) ws) \<rparr>)"
  by (simp add: applyRelayKeyClaims_def settled_claims_def Let_def case_prod_unfold)

lemma sync_eq:
  "fst (syncPinnedOperatorKeys C G t fleetId ks ws i) =
   (let x = settled_claims C fleetId ks i;
        i1 = (if cl_ledgerChanged x then i\<lparr> id_revokedOperatorKeys := Some (cl_revokedLedger x) \<rparr> else i);
        (tp, ta, adopted) = tofu_pins (to_iso t) x ks; (p, a, added) = chain_pins C (to_iso t) fleetId x ks
    in if cl_pinned x = [] \<and> \<not> truthy (id_tofuAt i) \<and> adopted
       then i1\<lparr> id_tofuAt := Some (to_iso t), id_pinnedOperatorKeys := tp, id_operatorKeyAdmissions := Some ta \<rparr>
       else
         let i2 = (if cl_pinRemoved x \<or> cl_ledgerChanged x \<or> added then i1\<lparr> id_pinnedOperatorKeys := p \<rparr> else i1)
         in if cl_admissionsChanged x \<or> added then i2\<lparr> id_operatorKeyAdmissions := Some a \<rparr> else i2)"
proof -
  let ?x = "settled_claims C fleetId ks i"
  obtain l ws2 where A: "applyRelayKeyClaims C (id_pinnedOperatorKeys i) fleetId ks (advisoryScopeKey G i fleetId) ws (start_claims i)
      = (?x\<lparr> cl_log := l \<rparr>, ws2)"
    using applyRelayKeyClaims_settled [of C i fleetId ks "advisoryScopeKey G i fleetId" ws] by (metis prod.collapse)
  obtain tp ta ad where T: "tofu_pins (to_iso t) ?x ks = (tp, ta, ad)" by (metis prod.collapse)
  obtain p a ad' where P: "chain_pins C (to_iso t) fleetId ?x ks = (p, a, ad')" by (metis prod.collapse)
  have TP: "foldl (tofu_one (to_iso t) (cl_advisory ?x) (cl_revokedLedger ?x)) (cl_pinned ?x, cl_admissions ?x, False) ks = (tp, ta, ad)"
    "foldl (chain_one C (to_iso t) fleetId (cl_advisory ?x) (cl_revokedLedger ?x)) (cl_pinned ?x, cl_admissions ?x, False) ks = (p, a, ad')"
    using T P by (simp_all add: tofu_pins_def chain_pins_def)
  have S: "cl_pinned (?x\<lparr> cl_log := l \<rparr>) = cl_pinned ?x" "cl_revokedLedger (?x\<lparr> cl_log := l \<rparr>) = cl_revokedLedger ?x"
    "cl_admissions (?x\<lparr> cl_log := l \<rparr>) = cl_admissions ?x" "cl_advisory (?x\<lparr> cl_log := l \<rparr>) = cl_advisory ?x"
    "cl_pinRemoved (?x\<lparr> cl_log := l \<rparr>) = cl_pinRemoved ?x" "cl_ledgerChanged (?x\<lparr> cl_log := l \<rparr>) = cl_ledgerChanged ?x"
    "cl_admissionsChanged (?x\<lparr> cl_log := l \<rparr>) = cl_admissionsChanged ?x"
    by simp_all
  show ?thesis
    unfolding syncPinnedOperatorKeys_def start_claims_def [symmetric] Let_def A T P prod.case S TP by simp
qed

lemma sync_result:
  fixes C G t fleetId ks ws i
  defines "x \<equiv> settled_claims C fleetId ks i" and "i' \<equiv> fst (syncPinnedOperatorKeys C G t fleetId ks ws i)"
  shows "or_nil (id_revokedOperatorKeys i') = cl_revokedLedger x" "id_seedHex i' = id_seedHex i"
    "cl_pinned x = [] \<Longrightarrow> \<not> truthy (id_tofuAt i) \<Longrightarrow> snd (snd (tofu_pins (to_iso t) x ks)) \<Longrightarrow>
       id_pinnedOperatorKeys i' = fst (tofu_pins (to_iso t) x ks) \<and> id_tofuAt i' = Some (to_iso t)"
    "cl_pinned x \<noteq> [] \<or> truthy (id_tofuAt i) \<or> \<not> snd (snd (tofu_pins (to_iso t) x ks)) \<Longrightarrow>
       id_pinnedOperatorKeys i' = fst (chain_pins C (to_iso t) fleetId x ks) \<and> id_tofuAt i' = id_tofuAt i"
proof -
  obtain tp ta ad where T: "tofu_pins (to_iso t) x ks = (tp, ta, ad)" by (metis prod.collapse)
  obtain p a ad' where P: "chain_pins C (to_iso t) fleetId x ks = (p, a, ad')" by (metis prod.collapse)
  note E = sync_eq [of C G t fleetId ks ws i, folded x_def i'_def, unfolded Let_def T P, simplified]
  show "or_nil (id_revokedOperatorKeys i') = cl_revokedLedger x" "id_seedHex i' = id_seedHex i"
    using E settled_unchanged(2) [of C fleetId ks i, folded x_def] by (simp_all add: or_nil_def)
  show "cl_pinned x = [] \<Longrightarrow> \<not> truthy (id_tofuAt i) \<Longrightarrow> snd (snd (tofu_pins (to_iso t) x ks)) \<Longrightarrow>
       id_pinnedOperatorKeys i' = fst (tofu_pins (to_iso t) x ks) \<and> id_tofuAt i' = Some (to_iso t)"
    using E T by simp
  show "cl_pinned x \<noteq> [] \<or> truthy (id_tofuAt i) \<or> \<not> snd (snd (tofu_pins (to_iso t) x ks)) \<Longrightarrow>
       id_pinnedOperatorKeys i' = fst (chain_pins C (to_iso t) fleetId x ks) \<and> id_tofuAt i' = id_tofuAt i"
    using E T P settled_unchanged(1) [of C fleetId ks i, folded x_def] chain_pins_unchanged [of C "to_iso t" fleetId x ks]
    by auto
qed

lemma tofu_one_cases:
  obtains (keep) "tofu_one at adv led st k = st"
  | (add) p a b kid pub adm where "st = (p, a, b)" "tofu_one at adv led st k = (put kid pub p, put kid adm a, True)"
      "kid \<noteq> []" "pub \<noteq> []" "\<not> truthy (map_of led kid)"
proof -
  obtain p a b where st: "st = (p, a, b)" by (cases st)
  show ?thesis
  proof (cases "truthy (oe_key_id k) \<and> truthy (oe_public_key k) \<and> the (oe_key_id k) \<notin> set adv \<and> \<not> truthy (map_of led (the (oe_key_id k)))")
    case True
    then have "the (oe_key_id k) \<noteq> []" "the (oe_public_key k) \<noteq> []" by (auto simp: truthy_iff)
    with True show ?thesis
      using add [OF st, of "the (oe_key_id k)" "the (oe_public_key k)"] by (simp add: tofu_one_def st Let_def)
  next
    case False
    then have "tofu_one at adv led st k = st" unfolding tofu_one_def Let_def st by (simp only: prod.case if_False)
    then show ?thesis by (rule keep)
  qed
qed

lemma signedByAPinnedKey_iff:
  "signedByAPinnedKey C auth payload sig \<longleftrightarrow> (\<exists>pub\<in>snd ` set auth. ed_verify C (canonicalize payload) sig pub)"
  by (force simp: signedByAPinnedKey_def list_ex_iff verifyCanonical_def)

lemma unrevoke_one_cases:
  obtains (keep) "cl_revokedLedger (unrevoke_one C auth f x k) = cl_revokedLedger x"
      "cl_ledgerChanged (unrevoke_one C auth f x k) = cl_ledgerChanged x"
  | (clear) kid at fl iss n payload sig where "cl_revokedLedger (unrevoke_one C auth f x k) = remove_key kid (cl_revokedLedger x)"
      "map_of (cl_revokedLedger x) kid = Some at" "f = Some fl" "unrevokePayload fl kid at iss n = Some payload"
      "oe_unrevoke_sig k = Some sig" "signedByAPinnedKey C auth payload sig"
proof (cases "cl_revokedLedger (unrevoke_one C auth f x k) = cl_revokedLedger x \<and> cl_ledgerChanged (unrevoke_one C auth f x k) = cl_ledgerChanged x")
  case False
  let ?kid = "the (oe_key_id k)"
  from False have c: "truthy (oe_unrevoke_sig k)" "truthy (map_of (cl_revokedLedger x) ?kid)" "truthy f"
    "case unrevokePayload (the f) ?kid (the (oe_unrevoke_revoked_at k)) (the (oe_unrevoke_issued_at k)) (the (oe_unrevoke_nonce k)) of
       None \<Rightarrow> False | Some payload \<Rightarrow> signedByAPinnedKey C auth payload (the (oe_unrevoke_sig k))"
    "oe_unrevoke_revoked_at k = map_of (cl_revokedLedger x) ?kid"
    "cl_revokedLedger (unrevoke_one C auth f x k) = remove_key ?kid (cl_revokedLedger x)"
    by (simp_all add: unrevoke_one_def Let_def split: if_split_asm)
  from c(1-3) obtain sig at fl where v: "oe_unrevoke_sig k = Some sig" "map_of (cl_revokedLedger x) ?kid = Some at" "f = Some fl"
    by (auto simp: truthy_iff)
  from c(4) obtain payload where "unrevokePayload fl ?kid at (the (oe_unrevoke_issued_at k)) (the (oe_unrevoke_nonce k)) = Some payload"
    "signedByAPinnedKey C auth payload sig" using c(5) v by (simp split: option.splits)
  with clear [OF c(6) v(2,3) _ v(1)] show ?thesis by blast
qed (auto intro: keep)

lemma unrevoke_one_pins [simp]:
  "cl_pinned (unrevoke_one C auth f x k) = cl_pinned x" "cl_admissions (unrevoke_one C auth f x k) = cl_admissions x"
  "cl_pinRemoved (unrevoke_one C auth f x k) = cl_pinRemoved x"
  "cl_admissionsChanged (unrevoke_one C auth f x k) = cl_admissionsChanged x"
  by (simp_all add: unrevoke_one_def Let_def)

lemma revoke_one_cases:
  obtains (keep) "cl_revokedLedger (revoke_one C auth f x k) = cl_revokedLedger x" "cl_pinned (revoke_one C auth f x k) = cl_pinned x"
      "cl_admissions (revoke_one C auth f x k) = cl_admissions x" "cl_pinRemoved (revoke_one C auth f x k) = cl_pinRemoved x"
      "cl_ledgerChanged (revoke_one C auth f x k) = cl_ledgerChanged x"
      "cl_admissionsChanged (revoke_one C auth f x k) = cl_admissionsChanged x"
  | (drop) kid at fl sig where "revoke_one C auth f x k = dropRevokedKey kid at x"
      "at \<noteq> []" "f = Some fl" "oe_revocation_sig k = Some sig" "signedByAPinnedKey C auth (revocationPayload fl kid at) sig"
      "\<not> isLastPinnedKey kid x"
proof (cases "truthy (oe_key_id k) \<and> oe_revoked k \<and> truthy (oe_revocation_sig k) \<and> truthy (oe_revoked_at k) \<and> truthy f \<and>
    signedByAPinnedKey C auth (revocationPayload (the f) (the (oe_key_id k)) (the (oe_revoked_at k))) (the (oe_revocation_sig k)) \<and>
    \<not> isLastPinnedKey (the (oe_key_id k)) x")
  case True
  then obtain kid at fl sig where v: "oe_key_id k = Some kid" "oe_revoked_at k = Some at" "f = Some fl"
    "oe_revocation_sig k = Some sig" "at \<noteq> []" by (auto simp: truthy_iff)
  have "revoke_one C auth f x k = dropRevokedKey kid at x" using True v by (simp add: revoke_one_def)
  with True v show ?thesis using drop [of kid at fl sig] by simp
next
  case False
  show ?thesis
    by (rule keep; use False in \<open>simp add: revoke_one_def Let_def noteAdvisoryClaim_def noteLastRootRefusal_def\<close>)
qed

lemma dropRevokedKey_parts [simp]:
  "cl_revokedLedger (dropRevokedKey kid at x) = (if truthy (map_of (cl_revokedLedger x) kid) then cl_revokedLedger x else put kid at (cl_revokedLedger x))"
  "cl_pinned (dropRevokedKey kid at x) = (if truthy (map_of (cl_pinned x) kid) then remove_key kid (cl_pinned x) else cl_pinned x)"
  by (simp_all add: dropRevokedKey_def Let_def)

section \<open>The trust root is never emptied\<close>

text \<open>The keys of a record are distinct, and no pinned public key is the empty text.\<close>

definition pins_ok :: "(string \<times> string) list \<Rightarrow> bool" where
  "pins_ok ps \<longleftrightarrow> distinct (map fst ps) \<and> (\<forall>p\<in>set ps. snd p \<noteq> [])"

inductive sync_step :: "crypto \<Rightarrow> string option \<Rightarrow> identity \<Rightarrow> identity \<Rightarrow> bool" for C fleetId where
  Sync: "sync_step C fleetId i (fst (syncPinnedOperatorKeys C G t fleetId ks ws i))"

inductive_cases sync_stepE: "sync_step C fleetId i j"

lemma pins_ok_put: "pins_ok ps \<Longrightarrow> pub \<noteq> [] \<Longrightarrow> pins_ok (put kid pub ps)"
  by (auto simp: pins_ok_def put_def split: if_splits) (simp_all add: map_of_eq_None_iff comp_def case_prod_unfold)

lemma pins_ok_remove: "pins_ok ps \<Longrightarrow> pins_ok (remove_key kid ps)"
  using remove_key_incl(1) [of kid ps] by (auto simp: pins_ok_def)

text \<open>Dropping one of several distinct keys leaves a key.\<close>

lemma remove_key_left:
  assumes "distinct (map fst ps)" "length ps \<noteq> 1" "ps \<noteq> []"
  shows "remove_key kid ps \<noteq> []"
proof
  assume "remove_key kid ps = []"
  then have "set (map fst ps) \<subseteq> {kid}" by (auto simp: remove_key_def filter_empty_conv)
  then have "card (set (map fst ps)) \<le> 1" by (metis card_mono card.empty card_insert_disjoint finite.intros One_nat_def empty_iff)
  then have "length ps \<le> 1" using distinct_card [OF assms(1)] by simp
  with assms(2,3) show False by (cases ps) simp_all
qed

lemma settled_pins:
  assumes "pins_ok (id_pinnedOperatorKeys i)" "id_pinnedOperatorKeys i \<noteq> []"
  shows "pins_ok (cl_pinned (settled_claims C f ks i)) \<and> cl_pinned (settled_claims C f ks i) \<noteq> []"
proof (rule settled_claims_keep)
  fix x :: claims and k assume IH: "pins_ok (cl_pinned x) \<and> cl_pinned x \<noteq> []"
  show "pins_ok (cl_pinned (revoke_one C (id_pinnedOperatorKeys i) f x k)) \<and> cl_pinned (revoke_one C (id_pinnedOperatorKeys i) f x k) \<noteq> []"
  proof (cases rule: revoke_one_cases [of C "id_pinnedOperatorKeys i" f x k])
    case (drop kid at fl sig)
    then have "truthy (map_of (cl_pinned x) kid) \<Longrightarrow> remove_key kid (cl_pinned x) \<noteq> []"
      using remove_key_left [of "cl_pinned x" kid] IH by (simp add: isLastPinnedKey_def pins_ok_def)
    with drop(1) IH pins_ok_remove show ?thesis by simp
  qed (use IH in simp)
qed (use assms in \<open>simp_all add: start_claims_def\<close>)

lemma tofu_pins_ok:
  assumes "pins_ok (cl_pinned x)"
  shows "pins_ok (fst (tofu_pins at x ks))"
  unfolding tofu_pins_def
proof (rule foldl_keeps)
  fix y :: pin_state and k assume "pins_ok (fst y)"
  then show "pins_ok (fst (tofu_one at (cl_advisory x) (cl_revokedLedger x) y k))"
    by (cases rule: tofu_one_cases [of at "cl_advisory x" "cl_revokedLedger x" y k]) (simp_all add: pins_ok_put)
qed (use assms in simp)

lemma chain_pins_ok:
  assumes "pins_ok (cl_pinned x)"
  shows "pins_ok (fst (chain_pins C at f x ks)) \<and> (cl_pinned x \<noteq> [] \<longrightarrow> fst (chain_pins C at f x ks) \<noteq> [])"
  unfolding chain_pins_def
proof (rule foldl_keeps)
  fix y :: pin_state and k assume "pins_ok (fst y) \<and> (cl_pinned x \<noteq> [] \<longrightarrow> fst y \<noteq> [])"
  then show "pins_ok (fst (chain_one C at f (cl_advisory x) (cl_revokedLedger x) y k)) \<and>
      (cl_pinned x \<noteq> [] \<longrightarrow> fst (chain_one C at f (cl_advisory x) (cl_revokedLedger x) y k) \<noteq> [])"
    by (cases rule: chain_one_cases [of C at f "cl_advisory x" "cl_revokedLedger x" y k]) (simp_all add: pins_ok_put)
qed (use assms in simp)

text \<open>With a key pinned there is no first contact: only the chain adds keys.\<close>

lemma sync_chained:
  fixes C G t f ks ws i
  assumes "pins_ok (id_pinnedOperatorKeys i)" "id_pinnedOperatorKeys i \<noteq> []"
  defines "j \<equiv> fst (syncPinnedOperatorKeys C G t f ks ws i)"
  shows "id_pinnedOperatorKeys j = fst (chain_pins C (to_iso t) f (settled_claims C f ks i) ks)" "id_tofuAt j = id_tofuAt i"
    "pins_ok (id_pinnedOperatorKeys j)" "id_pinnedOperatorKeys j \<noteq> []"
proof -
  note s = settled_pins [OF assms(1,2), of C f ks]
  then show "id_pinnedOperatorKeys j = fst (chain_pins C (to_iso t) f (settled_claims C f ks i) ks)" "id_tofuAt j = id_tofuAt i"
    using sync_result(4) [of C f ks i t G ws] by (simp_all add: j_def)
  then show "pins_ok (id_pinnedOperatorKeys j)" "id_pinnedOperatorKeys j \<noteq> []"
    using chain_pins_ok [of "settled_claims C f ks i"] s by simp_all
qed

section \<open>Sample identities\<close>

definition entry :: "string \<Rightarrow> string \<Rightarrow> op_key_entry" where
  "entry kid pub = \<lparr> oe_key_id = Some kid, oe_public_key = Some pub, oe_revoked = False, oe_endorsed_by_key_id = None,
     oe_endorsement_sig = None, oe_revocation_sig = None, oe_revoked_at = None, oe_unrevoke_sig = None,
     oe_unrevoke_revoked_at = None, oe_unrevoke_issued_at = None, oe_unrevoke_nonce = None \<rparr>"

definition sample_identity :: identity where
  "sample_identity = \<lparr> id_seedHex = ''00'', id_pinnedOperatorKeys = [(''A'', ''pa'')], id_tofuAt = None,
     id_revokedOperatorKeys = Some [(''B'', ''t'')], id_operatorKeyAdmissions = None, id_other = [(''x'', JNum 1)] \<rparr>"

definition signed_by_A :: "(string \<times> string) list" where
  "signed_by_A = [(''pa'', canonicalize (endorsementPayload ''flt'' ''D'' ''pd'')), (''pa'', canonicalize (endorsementPayload ''flt'' ''B'' ''pb'')),
     (''pa'', canonicalize (revocationPayload ''flt'' ''A'' ''u''))]"

definition crypto_A :: crypto where
  "crypto_A = sample_crypto\<lparr> ed_verify := (\<lambda>t sig pub. (pub, t) \<in> set signed_by_A) \<rparr>"

text \<open>The relay serves a signed revocation of the last key, and endorsements of two others by it.\<close>

definition sample_entries :: "op_key_entry list" where
  "sample_entries = [(entry ''A'' ''pa'')\<lparr> oe_revoked := True, oe_revocation_sig := Some ''r'', oe_revoked_at := Some ''u'' \<rparr>,
     (entry ''B'' ''pb'')\<lparr> oe_endorsed_by_key_id := Some ''A'', oe_endorsement_sig := Some ''e'' \<rparr>,
     (entry ''D'' ''pd'')\<lparr> oe_endorsed_by_key_id := Some ''A'', oe_endorsement_sig := Some ''e'' \<rparr>]"

definition synced_identity :: identity where
  "synced_identity = fst (syncPinnedOperatorKeys crypto_A sample_signing 0 (Some ''flt'') sample_entries [] sample_identity)"

lemma synced_identity_reach: "reach sample_identity (sync_step crypto_A (Some ''flt'')) synced_identity"
  by (rule reach_step [OF reach_start]) (simp only: synced_identity_def, rule Sync)

lemma sample_identity_ok: "pins_ok (id_pinnedOperatorKeys sample_identity) \<and> id_pinnedOperatorKeys sample_identity \<noteq> []"
  by (simp add: sample_identity_def pins_ok_def)

lemma synced_identity_pins: "id_pinnedOperatorKeys synced_identity = [(''A'', ''pa''), (''D'', ''pd'')]"
  by code_simp

lemma crypto_A_verifies: "ed_verify crypto_A t sig pub \<Longrightarrow> (pub, t) \<in> set signed_by_A"
  by (simp add: crypto_A_def)

text \<open>
  C5: the trust root is never emptied and first contact is never repeated.  However the relay's answers look, an agent
  that has a pinned operator key keeps one through every later sync: the revocation of the last pinned key is
  refused even when it is signed, in whatever order a batch lists its revocations.  Nor does such an agent
  trust the relay on first use again.
\<close>

theorem trust_root_never_emptied:
  assumes "reach i (sync_step C fleetId) j" "pins_ok (id_pinnedOperatorKeys i)" "id_pinnedOperatorKeys i \<noteq> []"
  shows "id_pinnedOperatorKeys j \<noteq> [] \<and> pins_ok (id_pinnedOperatorKeys j) \<and> id_tofuAt j = id_tofuAt i"
  using assms
proof (induction rule: reach.induct)
  case (reach_step j l)
  with sync_chained show ?case by (auto elim!: sync_stepE)
qed simp

theorem trust_root_never_emptied_witness: "id_pinnedOperatorKeys synced_identity \<noteq> [] \<and> id_tofuAt synced_identity = None"
  using trust_root_never_emptied [OF synced_identity_reach] sample_identity_ok by (simp add: sample_identity_def)

section \<open>Nothing without an operator's signature\<close>

text \<open>Every signature that the relay serves with a key.\<close>

definition served_sigs :: "op_key_entry list \<Rightarrow> string set" where
  "served_sigs ks = {sig. \<exists>k\<in>set ks. oe_endorsement_sig k = Some sig \<or> oe_revocation_sig k = Some sig \<or> oe_unrevoke_sig k = Some sig}"

text \<open>
  Whoever controls the relay but no operator key cannot change whom the agent trusts.  If none of the
  signatures in the relay's answer verifies under a pinned key, then the sync leaves the identity as it
  was: nothing is pinned, unpinned, tombstoned or resurrected, whatever the answer claims to be revoked.
\<close>

theorem unproven_claims_inert:
  assumes "id_pinnedOperatorKeys i \<noteq> []"
    and "\<And>kid pub sig t. (kid, pub) \<in> set (id_pinnedOperatorKeys i) \<Longrightarrow> sig \<in> served_sigs ks \<Longrightarrow> \<not> ed_verify C t sig pub"
  shows "fst (syncPinnedOperatorKeys C G t fleetId ks ws i) = i"
proof -
  let ?x = "settled_claims C fleetId ks i"
  have no: "\<not> signedByAPinnedKey C (id_pinnedOperatorKeys i) payload sig" if "sig \<in> served_sigs ks" for payload sig
    using assms(2) that by (auto simp: signedByAPinnedKey_iff)
  have served: "sig \<in> served_sigs ks" if "k \<in> set ks" "oe_endorsement_sig k = Some sig \<or> oe_revocation_sig k = Some sig \<or> oe_unrevoke_sig k = Some sig"
    for k sig using that by (auto simp: served_sigs_def)
  let ?P = "\<lambda>x :: claims. cl_pinned x = id_pinnedOperatorKeys i \<and> cl_revokedLedger x = or_nil (id_revokedOperatorKeys i) \<and>
    \<not> cl_pinRemoved x \<and> \<not> cl_ledgerChanged x \<and> \<not> cl_admissionsChanged x"
  have s: "?P ?x"
  proof (rule settled_claims_keep [where P = ?P])
    fix x :: claims and k assume k: "k \<in> set ks" and IH: "?P x"
    show "?P (unrevoke_one C (id_pinnedOperatorKeys i) fleetId x k)"
      by (cases rule: unrevoke_one_cases [of C "id_pinnedOperatorKeys i" fleetId x k]) (use IH no served [OF k] in auto)
    show "?P (revoke_one C (id_pinnedOperatorKeys i) fleetId x k)"
      by (cases rule: revoke_one_cases [of C "id_pinnedOperatorKeys i" fleetId x k]) (use IH no served [OF k] in auto)
  qed (simp add: start_claims_def)
  have "chain_pins C (to_iso t) fleetId ?x ks = (cl_pinned ?x, cl_admissions ?x, False)"
    unfolding chain_pins_def
  proof (rule foldl_keeps)
    fix y :: pin_state and k assume k: "k \<in> set ks" and IH: "y = (cl_pinned ?x, cl_admissions ?x, False)"
    show "chain_one C (to_iso t) fleetId (cl_advisory ?x) (cl_revokedLedger ?x) y k = (cl_pinned ?x, cl_admissions ?x, False)"
    proof (cases rule: chain_one_cases [of C "to_iso t" fleetId "cl_advisory ?x" "cl_revokedLedger ?x" y k])
      case (add p a b kid pub fl ekid epub esig adm)
      with IH s served [OF k] assms(2) show ?thesis by (auto dest!: map_of_SomeD)
    qed (use IH in simp)
  qed simp
  with s assms(1) show ?thesis unfolding sync_eq by (simp add: case_prod_unfold)
qed

theorem unproven_claims_inert_witness:
  "fst (syncPinnedOperatorKeys (sample_crypto\<lparr> ed_verify := (\<lambda>t sig pub. False) \<rparr>) sample_signing 0 (Some ''flt'') sample_entries []
     sample_identity) = sample_identity"
  by (rule unproven_claims_inert) (simp_all add: sample_identity_ok)

section \<open>Every pin is rooted\<close>

text \<open>
  A key is rooted if it is one of the roots or a rooted key signed its endorsement for the fleet.
\<close>

inductive rooted :: "(string \<times> string) set \<Rightarrow> string \<Rightarrow> (string \<times> string) set \<Rightarrow> string \<Rightarrow> string \<Rightarrow> bool"
  for Signed fl roots where
  root: "(kid, pub) \<in> roots \<Longrightarrow> rooted Signed fl roots kid pub"
| endorsed: "rooted Signed fl roots ekid epub \<Longrightarrow> (epub, canonicalize (endorsementPayload fl kid pub)) \<in> Signed
    \<Longrightarrow> rooted Signed fl roots kid pub"

lemma in_put: "(k', v') \<in> set (put k v ms) \<Longrightarrow> (k' = k \<and> v' = v) \<or> (k', v') \<in> set ms"
  by (auto simp: put_def split: if_splits)

lemma settled_pins_incl: "set (cl_pinned (settled_claims C f ks i)) \<subseteq> set (id_pinnedOperatorKeys i)"
proof (rule settled_claims_keep)
  fix x :: claims and k assume IH: "set (cl_pinned x) \<subseteq> set (id_pinnedOperatorKeys i)"
  show "set (cl_pinned (revoke_one C (id_pinnedOperatorKeys i) f x k)) \<subseteq> set (id_pinnedOperatorKeys i)"
    by (cases rule: revoke_one_cases [of C "id_pinnedOperatorKeys i" f x k])
      (use IH remove_key_incl(1) in \<open>auto split: if_splits\<close>)
qed (auto simp: start_claims_def)

lemma chain_pins_rooted:
  assumes "\<And>t sig pub. ed_verify C t sig pub \<Longrightarrow> (pub, t) \<in> Signed"
    and "\<forall>(kid, pub)\<in>set (cl_pinned x). rooted Signed fl roots kid pub"
  shows "\<forall>(kid, pub)\<in>set (fst (chain_pins C at (Some fl) x ks)). rooted Signed fl roots kid pub"
  unfolding chain_pins_def
proof (rule foldl_keeps)
  fix y :: pin_state and k assume IH: "\<forall>(kid, pub)\<in>set (fst y). rooted Signed fl roots kid pub"
  show "\<forall>(kid, pub)\<in>set (fst (chain_one C at (Some fl) (cl_advisory x) (cl_revokedLedger x) y k)). rooted Signed fl roots kid pub"
  proof (cases rule: chain_one_cases [of C at "Some fl" "cl_advisory x" "cl_revokedLedger x" y k])
    case (add p a b kid pub fl' ekid epub esig adm)
    then have "rooted Signed fl roots ekid epub" using IH by (auto dest!: map_of_SomeD)
    then have "rooted Signed fl roots kid pub" using add assms(1) by (blast intro: rooted.endorsed)
    with add IH show ?thesis by (auto dest!: in_put)
  qed (use IH in simp)
qed (use assms(2) in simp)

text \<open>
  C30: every key an agent ever pins goes back to its roots.  Read Ed25519 symbolically as in \<open>Envelope\<close>.  Starting from
  any non-empty set of pinned keys, after any sequence of syncs with any relay each pinned key
  is one of the first ones or stands at the end of a chain of endorsements for this fleet, each signed by the key before it.
\<close>

theorem pins_rooted:
  assumes "\<And>t sig pub. ed_verify C t sig pub \<Longrightarrow> (pub, t) \<in> Signed"
    and "reach i (sync_step C (Some fl)) j" "pins_ok (id_pinnedOperatorKeys i)" "id_pinnedOperatorKeys i \<noteq> []"
    and "(kid, pub) \<in> set (id_pinnedOperatorKeys j)"
  shows "rooted Signed fl (set (id_pinnedOperatorKeys i)) kid pub"
proof -
  let ?R = "\<lambda>ps. \<forall>(kid, pub)\<in>set ps. rooted Signed fl (set (id_pinnedOperatorKeys i)) kid pub"
  from assms(2) have "pins_ok (id_pinnedOperatorKeys j) \<and> id_pinnedOperatorKeys j \<noteq> [] \<and> ?R (id_pinnedOperatorKeys j)"
  proof (induction rule: reach.induct)
    case reach_start
    with assms(3,4) show ?case by (auto intro: rooted.root)
  next
    case (reach_step j l)
    from reach_step.hyps(2) obtain G t ks ws where l: "l = fst (syncPinnedOperatorKeys C G t (Some fl) ks ws j)" by (auto elim: sync_stepE)
    note ok = reach_step.IH
    have "?R (cl_pinned (settled_claims C (Some fl) ks j))" using settled_pins_incl [of C "Some fl" ks j] ok by blast
    with assms(1) have "?R (fst (chain_pins C (to_iso t) (Some fl) (settled_claims C (Some fl) ks j) ks))"
      by (rule chain_pins_rooted)
    with ok show ?case using sync_chained [of j C G t "Some fl" ks ws] unfolding l by simp
  qed
  with assms(5) show ?thesis by blast
qed

theorem pins_rooted_witness: "rooted (set signed_by_A) ''flt'' {(''A'', ''pa'')} ''D'' ''pd''"
proof -
  have "rooted (set signed_by_A) ''flt'' (set (id_pinnedOperatorKeys sample_identity)) ''D'' ''pd''"
    by (rule pins_rooted [OF _ synced_identity_reach])
      (auto simp: sample_identity_ok synced_identity_pins intro: crypto_A_verifies)
  then show ?thesis by (simp add: sample_identity_def)
qed

section \<open>A tombstone stands\<close>

text \<open>The tombstone of \<open>kid\<close> is at \<open>at\<close> and the key is not pinned.\<close>

definition buried :: "string \<Rightarrow> string \<Rightarrow> (string \<times> string) list \<Rightarrow> (string \<times> string) list \<Rightarrow> bool" where
  "buried kid at ledger pinned \<longleftrightarrow> map_of ledger kid = Some at \<and> map_of pinned kid = None"

lemma settled_buried:
  assumes "\<And>t sig pub. ed_verify C t sig pub \<Longrightarrow> (pub, t) \<in> Signed"
    and "\<And>pub iss n payload. unrevokePayload fl kid at iss n = Some payload \<Longrightarrow> (pub, canonicalize payload) \<notin> Signed"
    and "at \<noteq> []" "buried kid at (or_nil (id_revokedOperatorKeys i)) (id_pinnedOperatorKeys i)"
  shows "buried kid at (cl_revokedLedger (settled_claims C (Some fl) ks i)) (cl_pinned (settled_claims C (Some fl) ks i))"
proof (rule settled_claims_keep)
  fix x :: claims and k assume IH: "buried kid at (cl_revokedLedger x) (cl_pinned x)"
  show "buried kid at (cl_revokedLedger (unrevoke_one C (id_pinnedOperatorKeys i) (Some fl) x k))
      (cl_pinned (unrevoke_one C (id_pinnedOperatorKeys i) (Some fl) x k))"
  proof (cases rule: unrevoke_one_cases [of C "id_pinnedOperatorKeys i" "Some fl" x k])
    case (clear kid' at' fl' iss n payload sig)
    then obtain pub where "(pub, canonicalize payload) \<in> Signed" using assms(1) by (auto simp: signedByAPinnedKey_iff)
    then have "kid' \<noteq> kid" using assms(2) [of iss n payload pub] clear(2-4) IH by (auto simp: buried_def)
    with clear IH show ?thesis by (auto simp: buried_def)
  qed (use IH in simp)
  show "buried kid at (cl_revokedLedger (revoke_one C (id_pinnedOperatorKeys i) (Some fl) x k))
      (cl_pinned (revoke_one C (id_pinnedOperatorKeys i) (Some fl) x k))"
    by (cases rule: revoke_one_cases [of C "id_pinnedOperatorKeys i" "Some fl" x k]) (use IH assms(3) in \<open>auto simp: buried_def\<close>)
qed (use assms(4) in \<open>simp add: start_claims_def\<close>)

lemma adds_keep_buried:
  assumes "at \<noteq> []" "buried kid at (cl_revokedLedger x) (cl_pinned x)"
  shows "map_of (fst (chain_pins C t f x ks)) kid = None" "map_of (fst (tofu_pins t x ks)) kid = None"
proof -
  have tr: "truthy (map_of (cl_revokedLedger x) kid)" using assms by (simp add: buried_def)
  show "map_of (fst (chain_pins C t f x ks)) kid = None" unfolding chain_pins_def
  proof (rule foldl_keeps)
    fix y :: pin_state and k assume "map_of (fst y) kid = None"
    then show "map_of (fst (chain_one C t f (cl_advisory x) (cl_revokedLedger x) y k)) kid = None"
      by (cases rule: chain_one_cases [of C t f "cl_advisory x" "cl_revokedLedger x" y k]) (use tr in auto)
  qed (use assms(2) in \<open>simp add: buried_def\<close>)
  show "map_of (fst (tofu_pins t x ks)) kid = None" unfolding tofu_pins_def
  proof (rule foldl_keeps)
    fix y :: pin_state and k assume "map_of (fst y) kid = None"
    then show "map_of (fst (tofu_one t (cl_advisory x) (cl_revokedLedger x) y k)) kid = None"
      by (cases rule: tofu_one_cases [of t "cl_advisory x" "cl_revokedLedger x" y k]) (use tr in auto)
  qed (use assms(2) in \<open>simp add: buried_def\<close>)
qed

text \<open>
  C28: a tombstoned operator key does not come back.  Unless some key signed an un-revoke for this fleet that names the key and
  the very instant of the standing tombstone, the tombstone stays as it is and the key stays
  unpinned through every later sync: neither first contact, nor an endorsement, nor an un-revoke of
  another revocation, nor the relay's silence about the revocation re-admits it.
\<close>

theorem tombstone_stands:
  assumes "\<And>t sig pub. ed_verify C t sig pub \<Longrightarrow> (pub, t) \<in> Signed"
    and "\<And>pub iss n payload. unrevokePayload fl kid at iss n = Some payload \<Longrightarrow> (pub, canonicalize payload) \<notin> Signed"
    and "at \<noteq> []" "buried kid at (or_nil (id_revokedOperatorKeys i)) (id_pinnedOperatorKeys i)"
    and "reach i (sync_step C (Some fl)) j"
  shows "buried kid at (or_nil (id_revokedOperatorKeys j)) (id_pinnedOperatorKeys j)"
  using assms(5,4)
proof (induction rule: reach.induct)
  case (reach_step j l)
  from reach_step.hyps(2) obtain G t ks ws where l: "l = fst (syncPinnedOperatorKeys C G t (Some fl) ks ws j)" by (auto elim: sync_stepE)
  let ?x = "settled_claims C (Some fl) ks j"
  have x: "buried kid at (cl_revokedLedger ?x) (cl_pinned ?x)"
    using assms(1-3) reach_step.IH [OF reach_step.prems] by (rule settled_buried)
  note r = sync_result [where C = C and G = G and t = t and fleetId = "Some fl" and ks = ks and ws = ws and i = j]
  have "map_of (id_pinnedOperatorKeys l) kid = None"
    using r(3,4) adds_keep_buried [OF assms(3) x] unfolding l by (metis (no_types, lifting))
  with r(1) x show ?case unfolding l by (simp add: buried_def)
qed simp

theorem tombstone_stands_witness: "buried ''B'' ''t'' (or_nil (id_revokedOperatorKeys synced_identity)) (id_pinnedOperatorKeys synced_identity)"
proof (rule tombstone_stands [OF _ _ _ _ synced_identity_reach, where Signed = "set signed_by_A"])
  show "(pub, canonicalize payload) \<notin> set signed_by_A" if "unrevokePayload ''flt'' ''B'' ''t'' iss n = Some payload" for pub iss n payload
    using unrevoke_distinct [of "''flt''" "''B''" "''t''" iss n] that by (auto simp: signed_by_A_def simp del: canonicalize.simps)
qed (simp_all add: crypto_A_verifies buried_def sample_identity_def or_nil_def)

section \<open>The log stays readable and small\<close>

definition printable :: "char \<Rightarrow> bool" where
  "printable c \<longleftrightarrow> (let n = of_char c :: nat in 32 \<le> n \<and> \<not> (127 \<le> n \<and> n \<le> 159))"

lemma hex_char_printable: "d < 16 \<Longrightarrow> printable (hex_char d)"
  by (simp add: printable_def hex_char_def Let_def)

lemma format_kid_char_printable: "list_all printable (format_kid_char c)"
proof -
  let ?n = "of_char c :: nat"
  have "?n div 16 < 16" "?n mod 16 < 16" by (simp_all add: less_mult_imp_div_less)
  note h = hex_char_printable [OF this(1)] hex_char_printable [OF this(2)]
  show ?thesis using h by (simp add: format_kid_char_def Let_def) (simp add: printable_def Let_def)
qed

lemma formatKidForLog_bounded: "list_all printable (formatKidForLog kid)" "length (formatKidForLog kid) \<le> 35"
proof -
  have "list_all printable (concat (map format_kid_char kid))"
    using format_kid_char_printable by (induction kid) simp_all
  then have "list_all printable (take n (concat (map format_kid_char kid)))" for n
    by (auto simp only: list_all_iff dest: in_set_takeD)
  then show "list_all printable (formatKidForLog kid)"
    using \<open>list_all printable (concat _)\<close> by (simp add: formatKidForLog_def Let_def) (simp add: printable_def)
qed (simp add: formatKidForLog_def Let_def MAX_ADVISORY_KID_CHARS_def)

lemma nat_str_printable: "list_all printable (nat_str n)"
proof -
  have "printable c" if "is_digit c" for c
    using that by (simp add: is_digit_def printable_def Let_def)
  then show ?thesis using nat_str_digits [of _ n] by (auto simp: list_all_iff)
qed

lemma join_comma_space_printable: "\<forall>p\<in>set ps. list_all printable p \<Longrightarrow> list_all printable (join_comma_space ps)"
  by (induction ps rule: join_comma_space.induct) (simp_all add: printable_def)

lemma formatAdvisoryKeyList_printable: "list_all printable (formatAdvisoryKeyList kids)"
proof -
  have "list_all printable (join_comma_space (map formatKidForLog ks))" for ks
    by (rule join_comma_space_printable) (simp add: formatKidForLog_bounded(1))
  then show ?thesis by (simp add: formatAdvisoryKeyList_def Let_def nat_str_printable) (simp add: printable_def)
qed

lemma advisory_texts_printable:
  "list_all printable (formatAdvisoryWarning kids)" "list_all printable (formatAdvisorySummary kids n)"
  by (simp_all add: formatAdvisoryWarning_def formatAdvisorySummary_def formatKidForLog_bounded(1) nat_str_printable
      formatAdvisoryKeyList_printable) (simp_all add: printable_def)

lemma evict_oldest_bound: "fst (last (e # es)) = k \<Longrightarrow> distinct (map fst (e # es)) \<Longrightarrow> length (evict_oldest k (e # es)) \<le> 64"
proof (induction es arbitrary: e)
  case (Cons e' es)
  have "fst (last (e' # es)) \<in> fst ` set (e' # es)" by (rule imageI) (rule last_in_set, simp)
  moreover have "fst e \<notin> fst ` set (e' # es)" "fst (last (e' # es)) = k" using Cons.prems by simp_all
  ultimately have "fst e \<noteq> k" by metis
  with Cons show ?case by (simp add: ADVISORY_REVOCATION_WARNING_MAX_SCOPES_def)
qed (simp add: ADVISORY_REVOCATION_WARNING_MAX_SCOPES_def)

lemma evict_oldest_suffix: "\<exists>ds. ws = ds @ evict_oldest k ws"
proof (induction ws)
  case (Cons e es)
  then obtain ds where "es = ds @ evict_oldest k es" by blast
  then have "e # es = (e # ds) @ evict_oldest k es" by simp
  then show ?case by (metis append_Nil evict_oldest.simps(2))
qed simp

lemma touch_bound:
  assumes "distinct (map fst ws)"
  shows "length (touchAdvisoryScope k e ws) \<le> 64" "distinct (map fst (touchAdvisoryScope k e ws))"
proof -
  let ?p = "put k e (remove_key k ws)"
  have p: "?p = remove_key k ws @ [(k, e)]" by (simp add: put_def)
  have d: "distinct (map fst ?p)" using assms by simp
  obtain a as where aa: "?p = a # as" using put_not_Nil [of k e "remove_key k ws"] by (meson neq_Nil_conv)
  show "length (touchAdvisoryScope k e ws) \<le> 64"
    unfolding touchAdvisoryScope_def aa by (rule evict_oldest_bound) (use p d aa in \<open>metis last_snoc fst_conv\<close>)+
  show "distinct (map fst (touchAdvisoryScope k e ws))"
    using d evict_oldest_suffix [of ?p k] unfolding touchAdvisoryScope_def by (metis distinct_append map_append)
qed

lemma length_put: "length (put k v ms) = (if k \<in> fst ` set ms then length ms else Suc (length ms))"
  by (simp add: put_def map_of_eq_None_iff)

inductive warn_step :: "advisory_warns \<Rightarrow> advisory_warns \<Rightarrow> bool" where
  Warn_poll: "warn_step ws (snd (warnAdvisoryRevocations C scopeKey advisory ws))"

lemma warn_step_bound:
  assumes "warn_step ws ws'" "length ws \<le> 64 \<and> distinct (map fst ws)"
  shows "length ws' \<le> 64 \<and> distinct (map fst ws')"
  using assms
proof (cases rule: warn_step.cases)
  case (Warn_poll C k advisory)
  have "length (remove_key k ws) \<le> 64" using assms(2) by (simp add: remove_key_def) (meson le_trans length_filter_le)
  moreover have "k \<in> fst ` set ws" if "map_of ws k = Some e" for e using that by (force dest: map_of_SomeD)
  ultimately show ?thesis
    using assms(2) touch_bound [of ws k] unfolding Warn_poll warnAdvisoryRevocations_def
    by (auto simp: Let_def length_put split: option.splits)
qed

interpretation warns: stepping "[]" warn_step "\<lambda>ws. length ws \<le> 64 \<and> distinct (map fst ws)"
  by unfold_locales (simp, rule warn_step_bound)

text \<open>
  However a relay floods an agent with unproven revocations, the memory of the warnings holds at most 64 scopes, the
  part of a line that names one key has at most 35 characters, and no line holds a control character, so no key id
  the relay makes up can break a log line or reach the terminal as an escape sequence.
\<close>

theorem advisory_warnings_bounded:
  assumes "reach [] warn_step ws" "Advisory line \<in> set (fst (warnAdvisoryRevocations C scopeKey advisory ws))"
  shows "length (snd (warnAdvisoryRevocations C scopeKey advisory ws)) \<le> 64 \<and> list_all printable line \<and> length (formatKidForLog kid) \<le> 35"
proof -
  have "reach [] warn_step (snd (warnAdvisoryRevocations C scopeKey advisory ws))"
    by (rule reach_step [OF assms(1)]) (rule Warn_poll)
  then have "length (snd (warnAdvisoryRevocations C scopeKey advisory ws)) \<le> 64" by (rule warns.inv_reach [THEN conjunct1])
  moreover have "list_all printable line"
    using assms(2) advisory_texts_printable
    by (auto simp: warnAdvisoryRevocations_def Let_def split: if_splits option.splits)
  ultimately show ?thesis using formatKidForLog_bounded(2) by blast
qed

theorem advisory_warnings_bounded_witness:
  "list_all printable (formatAdvisoryWarning [[CHR 0x1B]]) \<and> length (formatKidForLog [CHR 0x1B]) \<le> 35"
  using advisory_warnings_bounded [OF reach_start, of "formatAdvisoryWarning [[CHR 0x1B]]" sample_crypto "''s''" "[[CHR 0x1B]]" "[CHR 0x1B]"]
  by (simp add: warnAdvisoryRevocations_def Let_def)

section \<open>The identity file\<close>

text \<open>
  What is saved is loaded again, the seed, the pins, the tombstones and the members this version does not know
  included; and a save that fails leaves the identity file as it was and no temporary file behind.
\<close>

theorem identity_file_roundtrip:
  assumes "id_seedHex i \<noteq> []" "io_readable F'" "d (filePath @ ''.tmp-'' @ nat_str (io_pid F) @ ''-'' @ int_str t) = None"
  shows "case saveIdentity F t filePath i d of
           (Inr _, d') \<Rightarrow> loadOrCreateIdentity F' t' filePath fresh allowCreate d' = (Inr i, d')
         | (Inl _, d') \<Rightarrow> d' = d"
  using assms
  by (auto simp: saveIdentity_def loadOrCreateIdentity_def encode_identity_def Let_def fun_eq_iff)

theorem identity_file_roundtrip_witness:
  "fst (loadOrCreateIdentity \<lparr> io_readable = True, io_copy_ok = False, io_rename_ok = True, io_pid = 7 \<rparr> 9 IDENTITY_FILE ''f'' False
     (snd (saveIdentity \<lparr> io_readable = True, io_copy_ok = False, io_rename_ok = True, io_pid = 7 \<rparr> 5 IDENTITY_FILE sample_identity (\<lambda>_. None))))
   = Inr sample_identity"
  using identity_file_roundtrip [of sample_identity "\<lparr> io_readable = True, io_copy_ok = False, io_rename_ok = True, io_pid = 7 \<rparr>" "\<lambda>_. None"
      IDENTITY_FILE "\<lparr> io_readable = True, io_copy_ok = False, io_rename_ok = True, io_pid = 7 \<rparr>" 5 9 "''f''" False]
  by (simp add: saveIdentity_def sample_identity_def Let_def)

text \<open>
  An identity is never minted over a file.  Whatever is in the identity file, loading leaves it there
  byte for byte, and an identity that loading returns has the seed that stands in the file; bytes that cannot be used
  are an error.  Without a file, an agent that is already enrolled gets an error and the disk is not touched.
\<close>

theorem identity_never_reminted:
  assumes "loadOrCreateIdentity F t filePath fresh allowCreate d = (r, d')" "d filePath \<noteq> None \<or> \<not> allowCreate"
  shows "d' filePath = d filePath \<and>
    (case r of Inr i \<Rightarrow> (\<exists>st. d filePath = Some (Stored st) \<and> si_seedHex st = Some (id_seedHex i) \<and> id_seedHex i \<noteq> [] \<and> d' = d)
     | Inl e \<Rightarrow> e \<noteq> Rename_failed \<and> (d filePath = None \<longrightarrow> e = Missing_identity \<and> d' = d))"
  using assms
  by (auto simp: loadOrCreateIdentity_def preserveUnusableFile_def Let_def truthy_iff
      split: option.splits if_splits identity_file.splits)

theorem identity_never_reminted_witness:
  "snd (loadOrCreateIdentity \<lparr> io_readable = True, io_copy_ok = True, io_rename_ok = True, io_pid = 7 \<rparr> 9 IDENTITY_FILE ''f'' True
     [IDENTITY_FILE \<mapsto> Other_bytes ''garbage'']) IDENTITY_FILE = Some (Other_bytes ''garbage'')"
  using identity_never_reminted [of "\<lparr> io_readable = True, io_copy_ok = True, io_rename_ok = True, io_pid = 7 \<rparr>" 9 IDENTITY_FILE "''f''" True
      "[IDENTITY_FILE \<mapsto> Other_bytes ''garbage'']"] by (simp add: prod_eq_iff)

section \<open>Rotation takes effect\<close>

text \<open>A key pinned when the chain is walked stays pinned, under the same public key.\<close>

lemma chain_one_extends:
  "truthy (map_of (fst y) k) \<Longrightarrow> map_of (fst (chain_one C at f adv led y e)) k = map_of (fst y) k"
proof -
  assume a: "truthy (map_of (fst y) k)"
  obtain p q b where y: "y = (p, q, b)" by (cases y)
  from a y show ?thesis by (cases "oe_key_id e = Some k") (auto simp: chain_one_def Let_def)
qed

lemma chain_fold_extends:
  "truthy (map_of (fst y) k) \<Longrightarrow> map_of (fst (foldl (chain_one C at f adv led) y es)) k = map_of (fst y) k"
  by (induction es arbitrary: y) (simp_all add: chain_one_extends)

lemma chain_one_adopts:
  assumes "oe_key_id e = Some kid" "kid \<noteq> []" "oe_public_key e = Some pub" "pub \<noteq> []" "oe_endorsed_by_key_id e = Some ekid" "ekid \<noteq> []"
    "oe_endorsement_sig e = Some esig" "esig \<noteq> []" "fl \<noteq> []" "map_of (fst y) ekid = Some epub" "epub \<noteq> []"
    "ed_verify C (canonicalize (endorsementPayload fl kid pub)) esig epub" "\<not> truthy (map_of led kid)" "kid \<notin> set adv"
  shows "truthy (map_of (fst (chain_one C at (Some fl) adv led y e)) kid)"
  using assms by (cases y) (auto simp: chain_one_def verifyCanonical_def Let_def)

lemma settled_bystander:
  assumes "\<forall>k\<in>set ks. oe_revoked k \<longrightarrow> oe_key_id k \<noteq> Some kid \<and> oe_key_id k \<noteq> Some ekid"
    and "map_of (id_pinnedOperatorKeys i) ekid = Some epub" "map_of (or_nil (id_revokedOperatorKeys i)) kid = None"
  shows "map_of (cl_pinned (settled_claims C f ks i)) ekid = Some epub \<and> map_of (cl_revokedLedger (settled_claims C f ks i)) kid = None \<and>
    kid \<notin> set (cl_advisory (settled_claims C f ks i))"
proof -
  let ?P = "\<lambda>x :: claims. map_of (cl_pinned x) ekid = Some epub \<and> map_of (cl_revokedLedger x) kid = None \<and> kid \<notin> set (cl_advisory x)"
  show ?thesis
  proof (rule settled_claims_keep [where P = ?P])
    fix x :: claims and k assume k: "k \<in> set ks" and IH: "?P x"
    show "?P (unrevoke_one C (id_pinnedOperatorKeys i) f x k)"
      using IH by (auto simp: unrevoke_one_def Let_def)
    show "?P (revoke_one C (id_pinnedOperatorKeys i) f x k)"
    proof (cases "truthy (oe_key_id k) \<and> oe_revoked k")
      case True
      then obtain kd where "oe_key_id k = Some kd" "kd \<noteq> kid" "kd \<noteq> ekid" using assms(1) k by (auto simp: truthy_iff)
      then show ?thesis
        using IH by (auto simp: revoke_one_def Let_def noteAdvisoryClaim_def noteLastRootRefusal_def dropRevokedKey_def)
    next
      case False
      then have "revoke_one C (id_pinnedOperatorKeys i) f x k = x" unfolding revoke_one_def Let_def by (simp only: de_Morgan_conj if_True)
      with IH show ?thesis by simp
    qed
  qed (use assms in \<open>simp_all add: start_claims_def\<close>)
qed

text \<open>
  A rotation takes effect at the next sync.  If the relay serves a key that a pinned key endorsed for this fleet, the
  key has no tombstone and neither of the two is reported as revoked, then the key is pinned after the sync,
  wherever in the list it stands and whatever else the list holds.
\<close>

theorem endorsed_key_adopted:
  assumes "\<forall>k\<in>set ks. oe_revoked k \<longrightarrow> oe_key_id k \<noteq> Some kid \<and> oe_key_id k \<noteq> Some ekid"
    and "map_of (id_pinnedOperatorKeys i) ekid = Some epub" "map_of (or_nil (id_revokedOperatorKeys i)) kid = None"
    and "e \<in> set ks" "oe_key_id e = Some kid" "kid \<noteq> []" "oe_public_key e = Some pub" "pub \<noteq> []"
    and "oe_endorsed_by_key_id e = Some ekid" "ekid \<noteq> []" "oe_endorsement_sig e = Some esig" "esig \<noteq> []" "fl \<noteq> []" "epub \<noteq> []"
    and "ed_verify C (canonicalize (endorsementPayload fl kid pub)) esig epub"
  shows "truthy (map_of (id_pinnedOperatorKeys (fst (syncPinnedOperatorKeys C G t (Some fl) ks ws i))) kid)"
proof -
  let ?x = "settled_claims C (Some fl) ks i"
  note x = settled_bystander [OF assms(1-3), of C "Some fl"]
  have ne: "cl_pinned ?x \<noteq> []" using x by auto
  obtain as bs where ks: "ks = as @ e # bs" using assms(4) by (meson split_list)
  define y where "y = foldl (chain_one C (to_iso t) (Some fl) (cl_advisory ?x) (cl_revokedLedger ?x)) (cl_pinned ?x, cl_admissions ?x, False) as"
  have "map_of (fst y) ekid = Some epub" unfolding y_def using x assms(14) by (subst chain_fold_extends) simp_all
  then have "truthy (map_of (fst (chain_one C (to_iso t) (Some fl) (cl_advisory ?x) (cl_revokedLedger ?x) y e)) kid)"
    using x assms by (intro chain_one_adopts) simp_all
  from chain_fold_extends [OF this] this
  have "truthy (map_of (fst (chain_pins C (to_iso t) (Some fl) ?x ks)) kid)"
    unfolding chain_pins_def by (subst (3) ks) (simp add: y_def)
  then show ?thesis using sync_result(4) [of C "Some fl" ks i t G ws] ne by simp
qed

theorem endorsed_key_adopted_witness:
  "truthy (map_of (id_pinnedOperatorKeys (fst (syncPinnedOperatorKeys crypto_A sample_signing 0 (Some ''flt'') (tl sample_entries) [] sample_identity))) ''D'')"
  by (rule endorsed_key_adopted [where ekid = "''A''" and epub = "''pa''" and pub = "''pd''" and esig = "''e''" and e = "sample_entries ! 2"])
    (simp_all add: sample_entries_def entry_def sample_identity_def or_nil_def crypto_A_def signed_by_A_def del: canonicalize.simps)

end
