(* ===== verification/Mcp_Store.thy ===== *)
theory Mcp_Store
  imports Trust_Root
begin

text \<open>
  The local message store of the MCP connector, \<^verbatim>\<open>packages/mcp-connector/src/store.ts\<close>: a bounded ring of messages that an MCP
  client reads in batches.  A batch is handed out under a cursor and stays unread until the client confirms it by
  naming the cursor.  The file that mirrors the state is written after every change; its content is the state itself.
\<close>

section \<open>State\<close>

datatype direction = In | Out

datatype verification_status = Verified | Relay_attested | Unsigned_message | Failed | Unverifiable | Self_signed

text \<open>Why a signed message is not verified: a reason of \<^verbatim>\<open>verifyInbound\<close>, or no key to check it with.\<close>

datatype class_reason = Verdict verify_reason | No_pinned_operator_keys

record stored_message =
  st_message_id :: string
  st_conversation_id :: string
  st_direction :: direction
  st_sender_agent_id :: string
  st_sender_label :: string
  st_sender_kind :: string
  st_message_type :: string
  st_priority :: string
  st_text :: string
  st_attachments :: "json list"
  st_mentions :: "string list"
  st_reply_to :: "(string \<times> string \<times> string) option"
  st_room :: "(string \<times> string) option"
  st_verification :: "verification_status \<times> class_reason option \<times> string option"
  st_sent_at :: string
  st_stored_at :: int
  st_delivered_cursor :: "string option"

record roster_snapshot =
  rs_agent_id :: string
  rs_display_name :: string
  rs_runtime :: string
  rs_status :: string
  rs_endorsed :: bool

record cursor_record =
  cr_cursor :: string
  cr_messages :: "stored_message list"
  cr_created_at :: int
  cr_confirmed :: bool

record message_store =
  q_messages :: "stored_message list"
  q_cursors :: "cursor_record list"
  q_seenNonces :: "string list"
  q_seenMessageIds :: "string list"
  q_roster :: "roster_snapshot list"
  q_rooms :: "(string \<times> string) list"
  q_operatorTrusted :: bool

definition SEEN_CAP :: nat where
  "SEEN_CAP = 500"

definition CURSOR_CAP :: nat where
  "CURSOR_CAP = 16"

section \<open>Operations\<close>

definition isUnread :: "stored_message \<Rightarrow> bool" where
  "isUnread m \<longleftrightarrow> st_direction m = In \<and> st_delivered_cursor m = None"

definition unreadCount :: "message_store \<Rightarrow> nat" where
  "unreadCount q = length (filter isUnread (q_messages q))"

definition hasRoom :: "nat \<Rightarrow> message_store \<Rightarrow> bool" where
  "hasRoom maxMessages q \<longleftrightarrow> unreadCount q < maxMessages"

definition markMessageSeen :: "string \<Rightarrow> message_store \<Rightarrow> message_store" where
  "markMessageSeen i q =
     (if i \<in> set (q_seenMessageIds q) then q else q\<lparr> q_seenMessageIds := keep_last SEEN_CAP (q_seenMessageIds q @ [i]) \<rparr>)"

definition markNonceSeen :: "string \<Rightarrow> message_store \<Rightarrow> message_store" where
  "markNonceSeen n q =
     (if n \<in> set (q_seenNonces q) then q else q\<lparr> q_seenNonces := keep_last SEEN_CAP (q_seenNonces q @ [n]) \<rparr>)"

text \<open>The pass that drops the oldest messages that are not unread, as many as there are too many.\<close>

fun evict :: "nat \<Rightarrow> stored_message list \<Rightarrow> stored_message list" where
  "evict excess [] = []"
| "evict excess (m # ms) = (if excess = 0 \<or> isUnread m then m # evict excess ms else evict (excess - 1) ms)"

text \<open>What was just added is kept even past the bound.\<close>

definition add :: "nat \<Rightarrow> stored_message list \<Rightarrow> message_store \<Rightarrow> message_store" where
  "add maxMessages ms q =
     (if ms = [] then q
      else
        let q1 = foldl (\<lambda>q m. if st_direction m = In then markMessageSeen (st_message_id m) q else q) q ms;
            excess = length (q_messages q) + length ms - maxMessages
        in q1\<lparr> q_messages := evict excess (q_messages q) @ ms \<rparr>)"

text \<open>Unknown cursors are ignored.\<close>

definition confirm :: "string \<Rightarrow> message_store \<Rightarrow> message_store" where
  "confirm cursor q =
     (case List.find (\<lambda>c. cr_cursor c = cursor) (q_cursors q) of
        None \<Rightarrow> q
      | Some found \<Rightarrow>
          let ids = map st_message_id (cr_messages found) in
          q\<lparr> q_cursors := (case List.extract (\<lambda>c. cr_cursor c = cursor) (q_cursors q) of
                 None \<Rightarrow> q_cursors q | Some (before, c, after) \<Rightarrow> before @ c\<lparr> cr_confirmed := True \<rparr> # after),
             q_messages := map (\<lambda>m. if st_message_id m \<in> set ids \<and> st_delivered_cursor m = None
                                    then m\<lparr> st_delivered_cursor := Some cursor \<rparr> else m) (q_messages q) \<rparr>)"

text \<open>\<open>cursor\<close> is the fresh cursor id, \<open>t\<close> the clock.\<close>

definition takeUnread ::
  "string \<Rightarrow> int \<Rightarrow> nat \<Rightarrow> string option \<Rightarrow> message_store \<Rightarrow> (string \<times> stored_message list) \<times> message_store" where
  "takeUnread cursor t limit after q =
     (let q1 = (if truthy after then confirm (the after) q else q);
          batch = take limit (filter isUnread (q_messages q1));
          record' = \<lparr> cr_cursor = cursor, cr_messages = batch, cr_created_at = t, cr_confirmed = False \<rparr>
      in ((cursor, batch), q1\<lparr> q_cursors := keep_last CURSOR_CAP (q_cursors q1 @ [record']) \<rparr>))"

definition replay :: "string \<Rightarrow> message_store \<Rightarrow> stored_message list option" where
  "replay cursor q = map_option cr_messages (List.find (\<lambda>c. cr_cursor c = cursor) (q_cursors q))"

definition conversation :: "string \<Rightarrow> nat \<Rightarrow> message_store \<Rightarrow> stored_message list" where
  "conversation conversationId limit q =
     (let ms = filter (\<lambda>m. st_conversation_id m = conversationId) (q_messages q) in if limit = 0 then ms else keep_last limit ms)"

definition nonceSeen :: "string \<Rightarrow> message_store \<Rightarrow> bool" where
  "nonceSeen n q \<longleftrightarrow> n \<in> set (q_seenNonces q)"

definition messageSeen :: "string \<Rightarrow> message_store \<Rightarrow> bool" where
  "messageSeen i q \<longleftrightarrow> i \<in> set (q_seenMessageIds q)"

text \<open>Rooms are merged by id, the roster is replaced.\<close>

definition setFleetView ::
  "roster_snapshot list option \<Rightarrow> (string \<times> string) list option \<Rightarrow> bool option \<Rightarrow> message_store \<Rightarrow> message_store" where
  "setFleetView roster rooms' trusted q =
     (let q1 = (case roster of None \<Rightarrow> q | Some r \<Rightarrow> q\<lparr> q_roster := r \<rparr>);
          q2 = (case rooms' of None \<Rightarrow> q1 | Some rs \<Rightarrow> q1\<lparr> q_rooms := foldl (\<lambda>m (i, n). put i n m) (q_rooms q1) rs \<rparr>)
      in case trusted of None \<Rightarrow> q2 | Some b \<Rightarrow> q2\<lparr> q_operatorTrusted := b \<rparr>)"

section \<open>Lemmas\<close>

lemma evict_keeps: "m \<in> set ms \<Longrightarrow> isUnread m \<Longrightarrow> m \<in> set (evict n ms)"
  by (induction n ms rule: evict.induct) auto

lemma evict_incl: "m \<in> set (evict n ms) \<Longrightarrow> m \<in> set ms"
  by (induction n ms rule: evict.induct) (auto split: if_splits)

lemma evict_unread: "filter isUnread (evict n ms) = filter isUnread ms"
  by (induction n ms rule: evict.induct) auto

lemma length_evict: "length (evict n ms) = length ms - min n (length (filter (\<lambda>m. \<not> isUnread m) ms))"
proof (induction n ms rule: evict.induct)
  case (2 n m ms)
  have "length (filter (\<lambda>m. \<not> isUnread m) ms) \<le> length ms" by simp
  then have "min n (length (filter (\<lambda>m. \<not> isUnread m) ms)) \<le> length ms" by linarith
  with 2 show ?case by (cases n) (auto simp: Suc_diff_le)
qed simp

lemma seen_messages: "q_messages (foldl (\<lambda>q m. if st_direction m = In then markMessageSeen (st_message_id m) q else q) q ms) = q_messages q"
  by (induction ms arbitrary: q) (auto simp: markMessageSeen_def)

lemma seen_cursors: "q_cursors (foldl (\<lambda>q m. if st_direction m = In then markMessageSeen (st_message_id m) q else q) q ms) = q_cursors q"
  by (induction ms arbitrary: q) (auto simp: markMessageSeen_def)

lemma seen_nonces: "q_seenNonces (foldl (\<lambda>q m. if st_direction m = In then markMessageSeen (st_message_id m) q else q) q ms) = q_seenNonces q"
  by (induction ms arbitrary: q) (auto simp: markMessageSeen_def)

lemma add_parts:
  "q_messages (add n ms q) = (if ms = [] then q_messages q else evict (length (q_messages q) + length ms - n) (q_messages q) @ ms)"
  "q_cursors (add n ms q) = q_cursors q" "q_seenNonces (add n ms q) = q_seenNonces q"
  by (simp_all add: add_def Let_def seen_messages seen_cursors seen_nonces)

lemma setFleetView_parts [simp]:
  "q_messages (setFleetView r rm b q) = q_messages q" "q_cursors (setFleetView r rm b q) = q_cursors q"
  "q_seenNonces (setFleetView r rm b q) = q_seenNonces q"
  by (auto simp: setFleetView_def Let_def split: option.splits)

lemma markNonceSeen_parts [simp]:
  "q_messages (markNonceSeen n q) = q_messages q" "q_cursors (markNonceSeen n q) = q_cursors q"
  by (simp_all add: markNonceSeen_def)

lemma confirm_messages:
  "q_messages (confirm c q) = (case List.find (\<lambda>x. cr_cursor x = c) (q_cursors q) of None \<Rightarrow> q_messages q
     | Some e \<Rightarrow> map (\<lambda>m. if st_message_id m \<in> st_message_id ` set (cr_messages e) \<and> st_delivered_cursor m = None
                       then m\<lparr> st_delivered_cursor := Some c \<rparr> else m) (q_messages q))"
  by (auto simp: confirm_def Let_def split: option.splits)

text \<open>Confirming changes no cursor but for its flag.\<close>

lemma confirm_cursors: "map (\<lambda>c. (cr_cursor c, cr_messages c)) (q_cursors (confirm c q)) = map (\<lambda>c. (cr_cursor c, cr_messages c)) (q_cursors q)"
proof (cases "List.extract (\<lambda>x. cr_cursor x = c) (q_cursors q)")
  case None
  then show ?thesis by (simp add: confirm_def Let_def split: option.splits)
next
  case (Some p)
  obtain b e a where p: "p = (b, e, a)" by (cases p)
  with Some have "q_cursors q = b @ e # a" by (simp add: extract_Some_iff)
  then show ?thesis using Some p by (simp add: confirm_def Let_def split: option.splits)
qed

lemma confirm_parts [simp]:
  "q_seenNonces (confirm c q) = q_seenNonces q" "q_seenMessageIds (confirm c q) = q_seenMessageIds q"
  by (simp_all add: confirm_def Let_def split: option.splits)

lemma takeUnread_parts:
  fixes a :: "string option" and q
  defines "q1 \<equiv> (if truthy a then confirm (the a) q else q)"
  shows "fst (takeUnread c t l a q) = (c, take l (filter isUnread (q_messages q1)))"
    "q_messages (snd (takeUnread c t l a q)) = q_messages q1"
    "q_cursors (snd (takeUnread c t l a q)) = keep_last CURSOR_CAP (q_cursors q1 @
       [\<lparr> cr_cursor = c, cr_messages = take l (filter isUnread (q_messages q1)), cr_created_at = t, cr_confirmed = False \<rparr>])"
  by (simp_all add: takeUnread_def q1_def Let_def)

section \<open>Runs of the store\<close>

datatype store_op =
    Add "stored_message list"
  | Take string int nat "string option"
  | Burn string
  | View "roster_snapshot list option" "(string \<times> string) list option" "bool option"

definition new_store :: message_store where
  "new_store = \<lparr> q_messages = [], q_cursors = [], q_seenNonces = [], q_seenMessageIds = [], q_roster = [], q_rooms = [],
     q_operatorTrusted = False \<rparr>"

text \<open>The store and the batches handed out so far, with the cursor of each.\<close>

type_synonym store_run = "message_store \<times> (string \<times> stored_message list) list"

fun store_step :: "nat \<Rightarrow> store_run \<Rightarrow> store_op \<Rightarrow> store_run" where
  "store_step n (q, h) (Add ms) = (add n ms q, h)"
| "store_step n (q, h) (Take c t l a) = (snd (takeUnread c t l a q), h @ [fst (takeUnread c t l a q)])"
| "store_step n (q, h) (Burn x) = (markNonceSeen x q, h)"
| "store_step n (q, h) (View r rm b) = (setFleetView r rm b q, h)"

definition store_run :: "nat \<Rightarrow> store_op list \<Rightarrow> store_run" where
  "store_run n ops = foldl (store_step n) (new_store, []) ops"

fun arrivals :: "store_op \<Rightarrow> stored_message list" where
  "arrivals (Add ms) = ms"
| "arrivals _ = []"

fun confirms :: "store_op \<Rightarrow> string list" where
  "confirms (Take c t l (Some a)) = [a]"
| "confirms _ = []"

fun is_take :: "store_op \<Rightarrow> bool" where
  "is_take (Take c t l a) = True"
| "is_take _ = False"

definition batch_of :: "cursor_record \<Rightarrow> string \<times> stored_message list" where
  "batch_of c = (cr_cursor c, cr_messages c)"

lemma store_run_snoc: "store_run n (ops @ [x]) = store_step n (store_run n ops) x"
  by (simp add: store_run_def)

lemma confirm_batches: "map batch_of (q_cursors (confirm c q)) = map batch_of (q_cursors q)"
  using confirm_cursors [of c q] by (simp add: batch_of_def [abs_def])

lemma find_batches: "map_option cr_messages (List.find (\<lambda>x. cr_cursor x = c) cs) = map_of (map batch_of cs) c"
  by (induction cs) (auto simp: batch_of_def)

lemma replay_batches: "replay c q = map_of (map batch_of (q_cursors q)) c"
  by (simp add: replay_def find_batches)

lemma take_batches:
  "map batch_of (q_cursors (snd (takeUnread c t l a q))) = keep_last CURSOR_CAP (map batch_of (q_cursors q) @ [fst (takeUnread c t l a q)])"
  by (simp add: takeUnread_parts map_keep_last confirm_batches batch_of_def [of "\<lparr> cr_cursor = c, cr_messages = b, cr_created_at = t, cr_confirmed = f \<rparr>" for b f])

text \<open>Every cursor the store remembers was handed out with just that batch.\<close>

lemma remembered_handed:
  "set (map batch_of (q_cursors (fst (store_run n ops)))) \<subseteq> set (snd (store_run n ops))"
proof (induction ops rule: rev_induct)
  case (snoc x ops)
  obtain q h where r: "store_run n ops = (q, h)" by (cases "store_run n ops")
  show ?case
  proof (cases x)
    case (Take c t l a)
    have "set (map batch_of (q_cursors (snd (takeUnread c t l a q)))) \<subseteq> set (map batch_of (q_cursors q)) \<union> {fst (takeUnread c t l a q)}"
      unfolding take_batches by (auto dest: keep_last_incl)
    then show ?thesis using snoc by (auto simp: store_run_snoc r Take)
  qed (use snoc in \<open>auto simp: store_run_snoc r add_parts\<close>)
qed (simp add: store_run_def new_store_def)

text \<open>A message that a confirmation marks was in the batch of the cursor it names.\<close>

lemma confirm_marks:
  assumes "m \<in> set (q_messages q)" "m \<notin> set (q_messages (confirm c q))"
  shows "\<exists>b. (c, b) \<in> set (map batch_of (q_cursors q)) \<and> st_message_id m \<in> st_message_id ` set b"
proof (cases "List.find (\<lambda>x. cr_cursor x = c) (q_cursors q)")
  case (Some e)
  then have e: "e \<in> set (q_cursors q)" "cr_cursor e = c" by (auto simp: find_Some_iff)
  have "st_message_id m \<in> st_message_id ` set (cr_messages e)"
    using assms Some by (force simp: confirm_messages)
  with e show ?thesis by (force simp: batch_of_def)
qed (use assms in \<open>simp add: confirm_messages\<close>)

section \<open>Claims\<close>

lemma unread_step:
  assumes "m \<in> set (q_messages q)" "isUnread m" "m \<notin> set (q_messages (fst (store_step n (q, h) x)))"
  shows "\<exists>c b. c \<in> set (confirms x) \<and> (c, b) \<in> set (map batch_of (q_cursors q)) \<and> st_message_id m \<in> st_message_id ` set b"
proof (cases x)
  case (Add ms)
  then show ?thesis using assms by (auto simp: add_parts evict_keeps split: if_splits)
next
  case (Take c t l a)
  with assms have "truthy a" and "m \<notin> set (q_messages (confirm (the a) q))"
    by (auto simp: takeUnread_parts split: if_splits)
  with confirm_marks [OF assms(1)] Take show ?thesis by (auto simp: truthy_iff)
qed (use assms in auto)

lemma accepted_kept:
  assumes "m \<in> set (concat (map arrivals ops))" "isUnread m" "m \<notin> set (q_messages (fst (store_run n ops)))"
  shows "\<exists>c b. c \<in> set (concat (map confirms ops)) \<and> (c, b) \<in> set (snd (store_run n ops)) \<and> st_message_id m \<in> st_message_id ` set b"
  using assms
proof (induction ops rule: rev_induct)
  case (snoc x ops)
  obtain q h where r: "store_run n ops = (q, h)" by (cases "store_run n ops")
  have more: "set h \<subseteq> set (snd (store_run n (ops @ [x])))" by (cases x) (auto simp: store_run_snoc r)
  show ?case
  proof (cases "m \<in> set (q_messages q)")
    case True
    have "m \<notin> set (q_messages (fst (store_step n (q, h) x)))" using snoc.prems(3) by (simp add: store_run_snoc r)
    from unread_step [OF True snoc.prems(2) this] obtain c b
      where "c \<in> set (confirms x)" "(c, b) \<in> set (map batch_of (q_cursors q))" "st_message_id m \<in> st_message_id ` set b"
      by blast
    moreover from this(2) have "(c, b) \<in> set h" using remembered_handed [of n ops] by (auto simp: r)
    ultimately show ?thesis using more by auto
  next
    case False
    have "m \<notin> set (arrivals x)" using snoc.prems(3) by (cases x) (auto simp: store_run_snoc r add_parts split: if_splits)
    then have "m \<in> set (concat (map arrivals ops))" using snoc.prems(1) by auto
    from snoc.IH [OF this snoc.prems(2)] False show ?thesis using more by (auto simp: r)
  qed
qed simp

text \<open>
  C12: From the first start of the connector, whatever its polls store and its client reads, in every order and for
  every bound of the ring, a message accepted from the relay is still in the store as unread, unless the client
  confirmed a cursor, and then the store had handed out a batch with that message under that cursor.  The relay has
  been told that the message arrived, so this is what keeps it from being lost.
\<close>

theorem accepted_never_lost:
  assumes "Add ms \<in> set ops" "m \<in> set ms" "st_direction m = In" "st_delivered_cursor m = None"
  shows "m \<in> set (filter isUnread (q_messages (fst (store_run n ops)))) \<or>
    (\<exists>c t l a b. Take c t l (Some a) \<in> set ops \<and> (a, b) \<in> set (snd (store_run n ops)) \<and> st_message_id m \<in> st_message_id ` set b)"
proof (cases "m \<in> set (q_messages (fst (store_run n ops)))")
  case False
  have "m \<in> set (concat (map arrivals ops))" using assms(1,2) by force
  moreover have "isUnread m" using assms(3,4) by (simp add: isUnread_def)
  moreover have "\<exists>c t l. Take c t l (Some a) \<in> set ops" if a: "a \<in> set (concat (map confirms ops))" for a
  proof -
    from a obtain x where "x \<in> set ops" "a \<in> set (confirms x)" by auto
    then show ?thesis by (cases x rule: confirms.cases) auto
  qed
  ultimately show ?thesis using accepted_kept [OF _ _ False] by metis
qed (use assms in \<open>simp add: isUnread_def\<close>)

text \<open>A small client session: two messages arrive, the client reads them, confirms and reads again.\<close>

definition sample_message :: "string \<Rightarrow> stored_message" where
  "sample_message i = \<lparr> st_message_id = i, st_conversation_id = ''c'', st_direction = In, st_sender_agent_id = ''a'', st_sender_label = ''A'',
     st_sender_kind = ''agent'', st_message_type = ''direct'', st_priority = ''normal'', st_text = ''hi'', st_attachments = [],
     st_mentions = [], st_reply_to = None, st_room = None, st_verification = (Verified, None, None), st_sent_at = ''t'', st_stored_at = 0,
     st_delivered_cursor = None \<rparr>"

definition sample_session :: "store_op list" where
  "sample_session = [Add [sample_message ''m1'', sample_message ''m2''], Take ''k1'' 0 1 None, Take ''k2'' 0 5 (Some ''k1'')]"

lemmas store_eval = sample_session_def sample_message_def store_run_def new_store_def takeUnread_def confirm_def add_def Let_def
  markMessageSeen_def keep_last_def isUnread_def CURSOR_CAP_def SEEN_CAP_def batch_of_def

theorem accepted_never_lost_witness:
  "sample_message ''m2'' \<in> set (filter isUnread (q_messages (fst (store_run 1 sample_session))))"
proof -
  have run: "set (snd (store_run 1 sample_session)) = {(''k1'', [sample_message ''m1'']), (''k2'', [sample_message ''m2''])}"
    by (auto simp: store_eval)
  have "sample_message ''m2'' \<in> set (filter isUnread (q_messages (fst (store_run 1 sample_session)))) \<or>
    (\<exists>c t l a b. Take c t l (Some a) \<in> set sample_session \<and> (a, b) \<in> set (snd (store_run 1 sample_session))
       \<and> st_message_id (sample_message ''m2'') \<in> st_message_id ` set b)"
    by (rule accepted_never_lost [of "[sample_message ''m1'', sample_message ''m2'']"]) (simp_all add: sample_session_def sample_message_def)
  then show ?thesis unfolding run by (auto simp: sample_session_def) (auto simp: sample_message_def)
qed

text \<open>Ids the client has confirmed: no message with such an id is unread.\<close>

definition settled :: "string set \<Rightarrow> message_store \<Rightarrow> bool" where
  "settled I q \<longleftrightarrow> (\<forall>m\<in>set (q_messages q). isUnread m \<longrightarrow> st_message_id m \<notin> I)"

lemma unread_confirm: "m \<in> set (q_messages (confirm c q)) \<Longrightarrow> isUnread m \<Longrightarrow> m \<in> set (q_messages q)"
  by (auto simp: confirm_messages isUnread_def split: option.splits if_splits)

lemma settled_confirm: "settled I q \<Longrightarrow> settled I (confirm c q)"
  using unread_confirm by (auto simp: settled_def)

lemma confirm_settles:
  assumes "replay c q = Some b"
  shows "settled (st_message_id ` set b) (confirm c q)"
proof -
  from assms obtain e where e: "List.find (\<lambda>x. cr_cursor x = c) (q_cursors q) = Some e" "b = cr_messages e"
    by (auto simp: replay_def)
  then show ?thesis by (auto simp: settled_def confirm_messages isUnread_def)
qed

lemma settled_take:
  assumes "settled I (if truthy a then confirm (the a) q else q)"
  shows "settled I (snd (takeUnread c t l a q))" "\<forall>m\<in>set (snd (fst (takeUnread c t l a q))). st_message_id m \<notin> I"
  using assms by (auto simp: settled_def takeUnread_parts dest: in_set_takeD)

lemma settled_run:
  assumes "settled I q" "\<forall>x\<in>set ops. \<forall>m\<in>set (arrivals x). st_message_id m \<notin> I"
  shows "\<exists>h'. snd (foldl (store_step n) (q, h) ops) = h @ h' \<and> (\<forall>(c, b)\<in>set h'. \<forall>m\<in>set b. st_message_id m \<notin> I)"
  using assms
proof (induction ops arbitrary: q h)
  case (Cons x ops)
  show ?case
  proof (cases x)
    case (Take c t l a)
    have "settled I (if truthy a then confirm (the a) q else q)" using Cons.prems(1) by (simp add: settled_confirm)
    note s = settled_take [OF this, of c t l]
    from Cons.IH [OF s(1), of "h @ [fst (takeUnread c t l a q)]"] Cons.prems(2) s(2) show ?thesis
      by (cases "fst (takeUnread c t l a q)") (fastforce simp: Take)
  next
    case (Add ms)
    have "settled I (add n ms q)" using Cons.prems Add by (auto simp: settled_def add_parts dest: evict_incl)
    with Cons Add show ?thesis by auto
  next
    case (Burn y)
    then show ?thesis using Cons by (auto simp: settled_def)
  next
    case (View r rm b)
    then show ?thesis using Cons by (auto simp: settled_def)
  qed
qed simp

text \<open>
  Once the client confirms a batch that the store remembers, by naming its cursor on the next read, no message of that
  batch is handed out again, neither by that read nor by any later one, even where an earlier or later batch that was
  never confirmed also carried it.  What the relay delivers later has other ids: the agent skips those it has stored.
\<close>

theorem confirmed_never_again:
  assumes "replay a (fst (store_run n ops1)) = Some b" "a \<noteq> []"
    and "\<forall>x\<in>set ops2. \<forall>m\<in>set (arrivals x). st_message_id m \<notin> st_message_id ` set b"
    and "(c', b') \<in> set (drop (length (snd (store_run n ops1))) (snd (store_run n (ops1 @ Take c t l (Some a) # ops2))))"
  shows "st_message_id ` set b' \<inter> st_message_id ` set b = {}"
proof -
  obtain q h where r: "store_run n ops1 = (q, h)" by (cases "store_run n ops1")
  let ?I = "st_message_id ` set b"
  have "settled ?I (if truthy (Some a) then confirm (the (Some a)) q else q)"
    using confirm_settles assms(1,2) r by simp
  note s = settled_take [OF this, of c t l]
  from settled_run [OF s(1) assms(3), of n "h @ [fst (takeUnread c t l (Some a) q)]"] obtain h'
    where h': "snd (store_run n (ops1 @ Take c t l (Some a) # ops2)) = h @ fst (takeUnread c t l (Some a) q) # h'"
      "\<forall>(c, b)\<in>set h'. \<forall>m\<in>set b. st_message_id m \<notin> ?I"
    using r by (auto simp: store_run_def)
  from assms(4) h'(1) r have "(c', b') = fst (takeUnread c t l (Some a) q) \<or> (c', b') \<in> set h'" by simp
  then show ?thesis using s(2) h'(2) by (cases "fst (takeUnread c t l (Some a) q)") fastforce+
qed

theorem confirmed_never_again_witness:
  "st_message_id ` set [sample_message ''m2''] \<inter> st_message_id ` set [sample_message ''m1''] = {}"
  by (rule confirmed_never_again [of "''k1''" 1 "take 2 sample_session" "[sample_message ''m1'']" "[]" "''k2''" "[sample_message ''m2'']" "''k2''" 0 5])
    (simp_all add: store_eval replay_def)

lemma keep_last_snoc_fresh:
  assumes "length ys < n" "c \<notin> fst ` set xs"
  shows "map_of (keep_last n (xs @ (c, b) # ys)) c = Some b"
proof -
  have "keep_last n (xs @ (c, b) # ys) = drop (length xs + Suc (length ys) - n) xs @ (c, b) # ys"
    using assms(1) by (simp add: keep_last_def)
  moreover have "c \<notin> fst ` set (drop k xs)" for k using assms(2) by (auto dest: in_set_dropD)
  ultimately show ?thesis by (simp add: map_of_append map_add_Some_iff map_of_eq_None_iff)
qed

text \<open>The remembered batches are the last ones handed out.\<close>

lemma remembered_last: "map batch_of (q_cursors (fst (store_run n ops))) = keep_last CURSOR_CAP (snd (store_run n ops))"
proof (induction ops rule: rev_induct)
  case (snoc x ops)
  obtain q h where r: "store_run n ops = (q, h)" by (cases "store_run n ops")
  show ?case
  proof (cases x)
    case (Take c t l a)
    then show ?thesis using snoc by (cases "length h < CURSOR_CAP") (simp_all add: store_run_snoc r take_batches keep_last_def Suc_diff_le)
  qed (use snoc in \<open>simp_all add: store_run_snoc r add_parts\<close>)
qed (simp add: store_run_def new_store_def keep_last_def)

lemma handed_extends: "\<exists>h'. snd (foldl (store_step n) (q, h) ops) = h @ h' \<and> length h' = length (filter is_take ops)"
proof (induction ops arbitrary: q h)
  case (Cons x ops)
  show ?case
  proof (cases x)
    case (Take c t l a)
    with Cons.IH [of "snd (takeUnread c t l a q)" "h @ [fst (takeUnread c t l a q)]"] show ?thesis by auto
  qed (use Cons in auto)
qed simp

text \<open>
  A client that lost an answer and asks again with its cursor gets exactly the batch that the first read returned,
  whatever arrived, was confirmed or was evicted meanwhile, as long as fewer than sixteen reads came after it and
  the cursor was not one that the store had given out before.
\<close>

theorem replay_exact:
  assumes "c \<notin> fst ` set (snd (store_run n ops1))" "length (filter is_take ops2) < CURSOR_CAP"
  shows "replay c (fst (store_run n (ops1 @ Take c t l a # ops2)))
    = Some (snd (fst (takeUnread c t l a (fst (store_run n ops1)))))"
proof -
  obtain q h where r: "store_run n ops1 = (q, h)" by (cases "store_run n ops1")
  obtain b where b: "fst (takeUnread c t l a q) = (c, b)" by (simp add: takeUnread_parts)
  from handed_extends [of n "snd (takeUnread c t l a q)" "h @ [(c, b)]" ops2] obtain h'
    where h': "snd (store_run n (ops1 @ Take c t l a # ops2)) = h @ (c, b) # h'" "length h' = length (filter is_take ops2)"
    using r b by (auto simp: store_run_def)
  show ?thesis unfolding replay_batches remembered_last h'(1)
    using assms h'(2) b r by (simp add: keep_last_snoc_fresh)
qed

theorem replay_exact_witness:
  "replay ''k1'' (fst (store_run 1 sample_session)) = Some [sample_message ''m1'']"
  using replay_exact [of "''k1''" 1 "take 1 sample_session" "drop 2 sample_session" 0 1 None]
  by (simp add: store_eval)

end
