(* ===== verification/Mcp_Agent.thy ===== *)
theory Mcp_Agent
  imports Mcp_Store
begin

text \<open>
  The Ekho side of the MCP connector, \<^verbatim>\<open>packages/mcp-connector/src\<close>: \<^verbatim>\<open>agent.ts\<close>, \<^verbatim>\<open>credentials.ts\<close>,
  \<^verbatim>\<open>dead-letter.ts\<close>.  One enrolled agent polls the relay, judges every message with the functions of \<open>Envelope\<close>
  against the trust root of \<open>Trust_Root\<close>, and keeps what its mode admits in the store of \<open>Mcp_Store\<close>.  A poll is three
  steps, because the client may read and send while the relay answers: the request goes out, the answer is
  taken in, the acknowledgement has come back.  The answers of the relay are arbitrary inputs.
\<close>

section \<open>What the relay delivers\<close>

record inbox_message = signed_message +
  im_conversation_id :: string
  im_created_at :: string
  im_attachments :: "json list"
  im_mentions :: "json option"
  im_reply_to :: "(string \<times> string \<times> string) option"
  im_metadata :: "json option"

record roster_member = roster_entry +
  rm_display_name :: string
  rm_runtime :: string
  rm_status :: string

record inbox_batch =
  ib_messages :: "inbox_message list"
  ib_controls :: "string list"
  ib_fleet_id :: "string option"
  ib_operator_keys :: "op_key_entry list"
  ib_roster :: "roster_member list"
  ib_rooms :: "(string \<times> string) list option"
  ib_operator_trusted :: bool

section \<open>Dead letters\<close>

datatype reject_reason = Reason class_reason | Status verification_status

record dead_letter =
  dl_rejected_at :: int
  dl_reason :: reject_reason
  dl_kind :: string
  dl_key_id :: "string option"
  dl_message :: inbox_message

definition MAX_BYTES :: nat where
  "MAX_BYTES = 5 * 1024 * 1024"

text \<open>The file and the one it was last rotated to; \<open>bytes\<close> is the length of the line that is written for a record.\<close>

type_synonym dead_letter_files = "dead_letter list option \<times> dead_letter list option"

definition appendDeadLetters :: "(dead_letter \<Rightarrow> nat) \<Rightarrow> dead_letter list \<Rightarrow> dead_letter_files \<Rightarrow> dead_letter_files" where
  "appendDeadLetters bytes records files =
     (if records = [] then files
      else case files of
        (Some cur, old) \<Rightarrow>
          if sum_list (map (\<lambda>r. bytes r + 1) cur) > MAX_BYTES then (Some records, Some cur) else (Some (cur @ records), old)
      | (None, old) \<Rightarrow> (Some records, old))"

section \<open>The verdict the client sees\<close>

definition classify ::
  "'a signed_message_scheme \<Rightarrow> verify_result option \<Rightarrow> bool \<Rightarrow> verification_status \<times> class_reason option \<times> string option" where
  "classify msg verdict operatorTrusted =
     (let isOperator = sm_sender_kind msg = Some ''operator'';
          signed = truthy (if isOperator then sm_operator_sig msg else sm_agent_sig msg) in
      if \<not> signed then (if isOperator \<and> operatorTrusted then Relay_attested else Unsigned_message, None, None)
      else case verdict of
        None \<Rightarrow> (Unverifiable, Some No_pinned_operator_keys, sm_key_id msg)
      | Some v \<Rightarrow> if vr_verified v then (Verified, None, vr_keyId v) else (Failed, map_option Verdict (vr_reason v), sm_key_id msg))"

definition admits :: "require_signed \<Rightarrow> verification_status \<Rightarrow> bool" where
  "admits mode status = (if mode = Require then status = Verified \<or> status = Relay_attested else status \<noteq> Failed)"

definition text_member :: "json option \<Rightarrow> string \<Rightarrow> string option" where
  "text_member j k = (case opt_get j k of Some (JStr v) \<Rightarrow> Some v | _ \<Rightarrow> None)"

definition sender_label :: "(string \<Rightarrow> string option) \<Rightarrow> inbox_message \<Rightarrow> string" where
  "sender_label labelOf raw =
     (let sender = or_empty (sm_sender_agent_id raw) in
      if sm_sender_kind raw = Some ''operator'' then
        (case opt_get (im_metadata raw) ''sender_label'' of None \<Rightarrow> ''Operator'' | Some JNull \<Rightarrow> ''Operator'' | Some j \<Rightarrow> js_string j)
      else (case labelOf sender of None \<Rightarrow> sender | Some l \<Rightarrow> l))"

definition to_stored ::
  "(string \<Rightarrow> string option) \<Rightarrow> (string \<Rightarrow> string option) \<Rightarrow> int \<Rightarrow> verification_status \<times> class_reason option \<times> string option
   \<Rightarrow> inbox_message \<Rightarrow> stored_message" where
  "to_stored roomName labelOf t v raw =
     \<lparr> st_message_id = the (sm_message_id raw), st_conversation_id = im_conversation_id raw, st_direction = In,
       st_sender_agent_id = or_empty (sm_sender_agent_id raw), st_sender_label = sender_label labelOf raw,
       st_sender_kind = (if sm_sender_kind raw = Some ''operator'' then ''operator'' else ''agent''),
       st_message_type = or_empty (sm_message_type raw), st_priority = or_empty (sm_priority raw),
       st_text = or_empty (text_member (sm_body raw) ''text''), st_attachments = im_attachments raw,
       st_mentions = (case im_mentions raw of Some (JArr vs) \<Rightarrow> map js_string vs | _ \<Rightarrow> []), st_reply_to = im_reply_to raw,
       st_room = map_option (Pair (im_conversation_id raw)) (roomName (im_conversation_id raw)), st_verification = v,
       st_sent_at = (case text_member (sm_sig_canonical raw) ''sent_at'' of Some s \<Rightarrow> s | None \<Rightarrow> im_created_at raw),
       st_stored_at = t, st_delivered_cursor = None \<rparr>"

text \<open>What the loop does with one message; an accepted one may carry a nonce to burn.\<close>

datatype judgement = Skip | Rejected dead_letter | Accepted stored_message "string option"

definition judge ::
  "require_signed \<Rightarrow> string \<Rightarrow> (string \<Rightarrow> bool) \<Rightarrow> (string \<Rightarrow> verify_result option) \<Rightarrow> bool \<Rightarrow> (string \<Rightarrow> string option)
   \<Rightarrow> (string \<Rightarrow> string option) \<Rightarrow> int \<Rightarrow> inbox_message \<Rightarrow> judgement" where
  "judge mode selfId seen verdicts operatorTrusted roomName labelOf t raw =
     (case sm_message_id raw of
        None \<Rightarrow> Skip
      | Some i \<Rightarrow>
          if sm_sender_agent_id raw = Some selfId then Skip
          else if sm_message_type raw = Some ''heartbeat'' then Skip
          else if seen i then Skip
          else
            let verdict = verdicts i; v = classify raw verdict operatorTrusted in
            if \<not> admits mode (fst v) then
              Rejected \<lparr> dl_rejected_at = t, dl_reason = (case fst (snd v) of Some r \<Rightarrow> Reason r | None \<Rightarrow> Status (fst v)),
                dl_kind = (if sm_sender_kind raw = Some ''operator'' then ''operator'' else ''peer''), dl_key_id = snd (snd v),
                dl_message = raw \<rparr>
            else
              Accepted (to_stored roomName labelOf t v raw)
                (case verdict of
                   Some r \<Rightarrow> if vr_verified r \<and> truthy (text_member (sm_sig_canonical raw) ''nonce'')
                             then text_member (sm_sig_canonical raw) ''nonce'' else None
                 | None \<Rightarrow> None))"

fun accepted_of :: "judgement \<Rightarrow> stored_message list" where
  "accepted_of (Accepted m n) = [m]"
| "accepted_of _ = []"

fun rejects_of :: "judgement \<Rightarrow> dead_letter list" where
  "rejects_of (Rejected d) = [d]"
| "rejects_of _ = []"

fun nonces_of :: "judgement \<Rightarrow> string list" where
  "nonces_of (Accepted m (Some n)) = [n]"
| "nonces_of _ = []"

section \<open>The agent\<close>

record credentials =
  cd_agentId :: string
  cd_secret :: string
  cd_relayBaseUrl :: string
  cd_fleetId :: string

datatype agent_status = Starting | Connected | Paused | Identity_unavailable | Errored | Stopped

text \<open>Where a poll is: none under way, the request is out, or the acknowledgement is.\<close>

datatype polling = Idle | Fetching | Acking

record agent_options =
  ao_stateDir :: string
  ao_displayName :: string
  ao_fleetId :: "string option"
  ao_enrollmentToken :: "string option"
  ao_relayBaseUrl :: string
  ao_requireSigned :: require_signed
  ao_queueMax :: nat

record connector =
  ca_store :: message_store
  ca_credentials :: "credentials option"
  ca_identity :: "identity option"
  ca_status :: agent_status
  ca_paused :: bool
  ca_polling :: polling
  ca_deadLetters :: dead_letter_files
  ca_disk :: disk
  ca_warns :: advisory_warns

text \<open>
  What the outside does during one poll: the file system for the identity file, whether the dead letters can be
  appended, whether the queue file can be written after the messages were added and after the view of the fleet was set.
\<close>

record poll_io =
  pi_identity :: io
  pi_append_ok :: bool
  pi_add_ok :: bool
  pi_view_ok :: bool

definition identity_path :: "agent_options \<Rightarrow> string" where
  "identity_path opts = ao_stateDir opts @ ''/'' @ IDENTITY_FILE"

text \<open>The trust root follows the served keys; a failure to write it is logged and the keys in memory stand.\<close>

definition sync_identity ::
  "crypto \<Rightarrow> signing \<Rightarrow> io \<Rightarrow> agent_options \<Rightarrow> int \<Rightarrow> string option \<Rightarrow> op_key_entry list \<Rightarrow> connector \<Rightarrow> connector" where
  "sync_identity C G F opts t fleetId keys a =
     (case ca_identity a of
        None \<Rightarrow> a
      | Some i \<Rightarrow>
          let (i', changed, _, ws') = syncPinnedOperatorKeys C G t fleetId keys (ca_warns a) i in
          a\<lparr> ca_identity := Some i', ca_warns := ws',
             ca_disk := (if changed then snd (saveIdentity F t (identity_path opts) i' (ca_disk a)) else ca_disk a) \<rparr>)"

definition verdicts_for ::
  "crypto \<Rightarrow> (string \<Rightarrow> int option) \<Rightarrow> int \<Rightarrow> string option \<Rightarrow> inbox_batch \<Rightarrow> connector \<Rightarrow> string \<Rightarrow> verify_result option" where
  "verdicts_for C date_of t fleetId batch a i =
     (case ca_identity a of
        None \<Rightarrow> None
      | Some ident \<Rightarrow>
          (case map_of (verifyBatch C date_of (id_pinnedOperatorKeys ident)
                   (case ca_credentials a of None \<Rightarrow> [] | Some c \<Rightarrow> cd_agentId c) fleetId
                   (map roster_entry.truncate (ib_roster batch)) (q_seenNonces (ca_store a)) t
                   (map signed_message.truncate (ib_messages batch))) i of
             Some (Some v) \<Rightarrow> Some v | _ \<Rightarrow> None))"

definition judge_batch ::
  "crypto \<Rightarrow> (string \<Rightarrow> int option) \<Rightarrow> agent_options \<Rightarrow> int \<Rightarrow> string option \<Rightarrow> inbox_batch \<Rightarrow> connector \<Rightarrow> judgement list" where
  "judge_batch C date_of opts t fleetId batch a =
     map (judge (ao_requireSigned opts) (case ca_credentials a of None \<Rightarrow> [] | Some c \<Rightarrow> cd_agentId c)
            (\<lambda>i. messageSeen i (ca_store a)) (verdicts_for C date_of t fleetId batch a) (ib_operator_trusted batch)
            (map_of (rev (or_nil (ib_rooms batch))))
            (map_of (rev (map (\<lambda>r. (or_empty (re_agent_id r), rm_display_name r)) (ib_roster batch)))) t)
       (ib_messages batch)"

definition fleet_roster :: "inbox_batch \<Rightarrow> roster_snapshot list" where
  "fleet_roster batch =
     map (\<lambda>r. \<lparr> rs_agent_id = or_empty (re_agent_id r), rs_display_name = rm_display_name r, rs_runtime = rm_runtime r,
                rs_status = rm_status r,
                rs_endorsed = (truthy (re_endorsed_by_key_id r) \<and> truthy (re_endorsement_sig r)) \<rparr>) (ib_roster batch)"

text \<open>
  The accepted messages, or nothing where a file could not be written and the call throws.  The nonces of
  the accepted messages are burned before the files are written.
\<close>

definition ingest ::
  "crypto \<Rightarrow> signing \<Rightarrow> (string \<Rightarrow> int option) \<Rightarrow> (dead_letter \<Rightarrow> nat) \<Rightarrow> poll_io \<Rightarrow> agent_options \<Rightarrow> int \<Rightarrow> inbox_batch
   \<Rightarrow> string option \<Rightarrow> connector \<Rightarrow> stored_message list option \<times> connector" where
  "ingest C G date_of bytes P opts t batch fleetId a =
     (let a1 = sync_identity C G (pi_identity P) opts t fleetId (ib_operator_keys batch) a;
          js = judge_batch C date_of opts t fleetId batch a1;
          accepted = concat (map accepted_of js); rejects = concat (map rejects_of js);
          a2 = a1\<lparr> ca_store := foldl (\<lambda>q n. markNonceSeen n q) (ca_store a1) (concat (map nonces_of js)) \<rparr>
      in if rejects \<noteq> [] \<and> \<not> pi_append_ok P then (None, a2)
         else
           let a3 = a2\<lparr> ca_deadLetters := appendDeadLetters bytes rejects (ca_deadLetters a2),
                        ca_store := add (ao_queueMax opts) accepted (ca_store a2) \<rparr>
           in if accepted \<noteq> [] \<and> \<not> pi_add_ok P then (None, a3)
              else (if pi_view_ok P then Some accepted else None,
                    a3\<lparr> ca_store := setFleetView (Some (fleet_roster batch)) (ib_rooms batch) (Some (ib_operator_trusted batch)) (ca_store a3) \<rparr>))"

section \<open>Polling\<close>

definition poll_begin :: "agent_options \<Rightarrow> connector \<Rightarrow> bool \<times> connector" where
  "poll_begin opts a =
     (if ca_credentials a = None \<or> ca_polling a \<noteq> Idle then (False, a)
      else if \<not> hasRoom (ao_queueMax opts) (ca_store a) then (False, a)
      else (True, a\<lparr> ca_polling := Fetching \<rparr>))"

definition apply_control :: "bool \<Rightarrow> string \<Rightarrow> bool" where
  "apply_control p action = (if action = ''pause'' \<or> action = ''quarantine'' then True else if action = ''resume'' then False else p)"

text \<open>The answer of the relay: an error, or a batch.  The result is what was stored and the ids to acknowledge.\<close>

definition poll_answer ::
  "crypto \<Rightarrow> signing \<Rightarrow> (string \<Rightarrow> int option) \<Rightarrow> (dead_letter \<Rightarrow> nat) \<Rightarrow> poll_io \<Rightarrow> agent_options \<Rightarrow> int \<Rightarrow> inbox_batch option
   \<Rightarrow> connector \<Rightarrow> (stored_message list \<times> string option list) \<times> connector" where
  "poll_answer C G date_of bytes P opts t answer a =
     (case answer of
        None \<Rightarrow> (([], []), a\<lparr> ca_polling := Idle \<rparr>)
      | Some batch \<Rightarrow>
          let p = foldl apply_control (ca_paused a) (ib_controls batch);
              a1 = a\<lparr> ca_paused := p, ca_status := (if p then Paused else Connected) \<rparr>;
              fleetId = (case ib_fleet_id batch of Some f \<Rightarrow> Some f | None \<Rightarrow> map_option cd_fleetId (ca_credentials a1)) in
          (case ingest C G date_of bytes P opts t batch fleetId a1 of
             (None, a2) \<Rightarrow> (([], []), a2\<lparr> ca_polling := Idle \<rparr>)
           | (Some stored, a2) \<Rightarrow>
               ((stored, map sm_message_id (ib_messages batch)),
                a2\<lparr> ca_polling := (if ib_messages batch = [] then Idle else Acking) \<rparr>)))"

definition poll_end :: "connector \<Rightarrow> connector" where
  "poll_end a = (if ca_polling a = Acking then a\<lparr> ca_polling := Idle \<rparr> else a)"

section \<open>Sending\<close>

datatype agent_error =
    Not_connected
  | Refused_paused
  | Empty_text
  | Text_too_long
  | Not_one_target
  | Ambiguous_member string
  | Unknown_member string
  | Credentials_unavailable "string option"
  | Identity_error identity_error
  | Not_enrolled
  | Enrollment_failed
  | Save_failed

definition MAX_SEND_TEXT :: nat where
  "MAX_SEND_TEXT = 8000"

definition EKHO_ORIGIN_STAMP :: string where
  "EKHO_ORIGIN_STAMP = ''ekho-mcp''"

record send_request =
  sq_recipientAgentId :: "string option"
  sq_roomId :: "string option"
  sq_broadcast :: bool
  sq_text :: string
  sq_replyTo :: "string option"
  sq_mentions :: "string list option"

record send_payload =
  sp_recipient :: json
  sp_text :: string
  sp_metadata :: json
  sp_conversation_id :: string
  sp_agent_sig :: string
  sp_key_id :: string
  sp_sig_canonical :: json

definition send_targets :: "send_request \<Rightarrow> nat" where
  "send_targets req = length (filter truthy [sq_roomId req, sq_recipientAgentId req, if sq_broadcast req then Some ''broadcast'' else None])"

definition send_recipient :: "send_request \<Rightarrow> json" where
  "send_recipient req =
     (if truthy (sq_roomId req) then JObj [(''kind'', JStr ''group''), (''id'', JStr (the (sq_roomId req)))]
      else if sq_broadcast req then JObj [(''kind'', JStr ''broadcast'')]
      else JObj [(''kind'', JStr ''agent''), (''id'', JStr (or_empty (sq_recipientAgentId req)))])"

definition send_metadata :: "send_request \<Rightarrow> json" where
  "send_metadata req =
     JObj ([(''ekho_origin'', JStr EKHO_ORIGIN_STAMP)]
       @ (if or_nil (sq_mentions req) \<noteq> [] then [(''mentions'', JArr (map JStr (or_nil (sq_mentions req))))] else [])
       @ (if truthy (sq_replyTo req) then [(''reply_to_message_id'', JStr (the (sq_replyTo req)))] else []))"

text \<open>
  Up to the request to the relay: the checks and the signed payload.  \<open>fresh\<close> is the conversation id made for
  a message that is not for a room, \<open>nonce\<close> the random nonce.
\<close>

definition send_begin ::
  "crypto \<Rightarrow> signing \<Rightarrow> int \<Rightarrow> string \<Rightarrow> string \<Rightarrow> send_request \<Rightarrow> connector \<Rightarrow> agent_error + send_payload" where
  "send_begin C G t fresh nonce req a =
     (case (ca_credentials a, ca_identity a) of
        (Some cred, Some ident) \<Rightarrow>
          if ca_paused a then Inl Refused_paused
          else if js_trim (sq_text req) = [] then Inl Empty_text
          else if length (sq_text req) > MAX_SEND_TEXT then Inl Text_too_long
          else if send_targets req \<noteq> 1 then Inl Not_one_target
          else
            let conversationId = (if truthy (sq_roomId req) then the (sq_roomId req) else fresh);
                (sig, kid, canonical) = buildSignedSendFields C G (id_seedHex ident)
                  \<lparr> so_fleetId = cd_fleetId cred, so_selfAgentId = cd_agentId cred, so_recipient = send_recipient req,
                    so_conversationId = conversationId, so_bodyText = sq_text req, so_nonce = nonce, so_sentAt = to_iso t,
                    so_messageType = ''direct'', so_priority = ''normal'', so_attachments = [] \<rparr>
            in Inr \<lparr> sp_recipient = send_recipient req, sp_text = sq_text req, sp_metadata = send_metadata req,
                     sp_conversation_id = conversationId, sp_agent_sig = sig, sp_key_id = kid, sp_sig_canonical = canonical \<rparr>
      | _ \<Rightarrow> Inl Not_connected)"

text \<open>After the relay took the message under \<open>messageId\<close>: our own copy goes into the store, as read.\<close>

definition send_done :: "agent_options \<Rightarrow> int \<Rightarrow> int \<Rightarrow> string \<Rightarrow> send_request \<Rightarrow> send_payload \<Rightarrow> connector \<Rightarrow> connector" where
  "send_done opts sentAt t messageId req payload a =
     a\<lparr> ca_store := add (ao_queueMax opts)
        [\<lparr> st_message_id = messageId, st_conversation_id = sp_conversation_id payload, st_direction = Out,
           st_sender_agent_id = (case ca_credentials a of Some c \<Rightarrow> cd_agentId c | None \<Rightarrow> []), st_sender_label = ao_displayName opts,
           st_sender_kind = ''agent'', st_message_type = ''direct'', st_priority = ''normal'', st_text = sq_text req,
           st_attachments = [], st_mentions = or_nil (sq_mentions req),
           st_reply_to = (if truthy (sq_replyTo req) then Some (the (sq_replyTo req), [], []) else None),
           st_room = (if truthy (sq_roomId req)
                      then Some (the (sq_roomId req), case map_of (q_rooms (ca_store a)) (the (sq_roomId req)) of
                                                        Some n \<Rightarrow> n | None \<Rightarrow> the (sq_roomId req))
                      else None),
           st_verification = (Self_signed, None, Some (sp_key_id payload)), st_sent_at = to_iso sentAt, st_stored_at = t,
           st_delivered_cursor = Some ''self'' \<rparr>] (ca_store a) \<rparr>"

definition resolve_member :: "roster_snapshot list \<Rightarrow> string \<Rightarrow> agent_error + string" where
  "resolve_member roster m =
     (case List.find (\<lambda>r. rs_agent_id r = m) roster of
        Some r \<Rightarrow> Inr (rs_agent_id r)
      | None \<Rightarrow>
          (case filter (\<lambda>r. js_lower (rs_display_name r) = js_lower m) roster of
             [] \<Rightarrow> Inl (Unknown_member m)
           | [r] \<Rightarrow> Inr (rs_agent_id r)
           | _ \<Rightarrow> Inl (Ambiguous_member m)))"

fun resolve_members :: "roster_snapshot list \<Rightarrow> string list \<Rightarrow> agent_error + string list" where
  "resolve_members roster [] = Inr []"
| "resolve_members roster (m # ms) =
     (case resolve_member roster m of
        Inl e \<Rightarrow> Inl e
      | Inr i \<Rightarrow> (case resolve_members roster ms of Inl e \<Rightarrow> Inl e | Inr is \<Rightarrow> Inr (i # is)))"

text \<open>The ids to create the room with, and the store once the relay has created it as \<open>(i, name)\<close>.\<close>

definition openRoom_begin :: "string list \<Rightarrow> connector \<Rightarrow> agent_error + string list" where
  "openRoom_begin members a =
     (if ca_credentials a = None then Inl Not_connected
      else if ca_paused a then Inl Refused_paused
      else resolve_members (q_roster (ca_store a)) members)"

definition openRoom_done :: "string \<Rightarrow> string \<Rightarrow> connector \<Rightarrow> connector" where
  "openRoom_done i name a = a\<lparr> ca_store := setFleetView None (Some [(i, name)]) None (ca_store a) \<rparr>"

section \<open>Connecting\<close>

text \<open>The credentials file: what it holds where it is JSON with the four texts, or bytes that are not.\<close>

datatype credentials_file = Usable credentials | Unusable string

datatype credentials_state = Absent | Present credentials | Broken "string option"

definition CREDENTIALS_FILE :: string where
  "CREDENTIALS_FILE = ''.ekho-credentials.json''"

text \<open>The bytes of a broken file are kept beside it, when they could be read at all.\<close>

definition credentialsState :: "io \<Rightarrow> int \<Rightarrow> agent_options \<Rightarrow> credentials_file option \<Rightarrow> disk \<Rightarrow> credentials_state \<times> disk" where
  "credentialsState F t opts file d =
     (let path = ao_stateDir opts @ ''/'' @ CREDENTIALS_FILE in
      case file of
        None \<Rightarrow> (Absent, d)
      | Some (Usable c) \<Rightarrow>
          if io_readable F then (Present c, d)
          else (let (p, d') = preserveUnusableFile F t path None d in (Broken p, d'))
      | Some (Unusable b) \<Rightarrow>
          (let (p, d') = preserveUnusableFile F t path (if io_readable F then Some (Other_bytes b) else None) d in (Broken p, d')))"

text \<open>
  \<^verbatim>\<open>connect\<close>: \<open>answer\<close> is what the enrolment request returns, the credentials and the operator keys; \<open>seed\<close> the
  random seed of a new identity, \<open>saved\<close> whether the credentials file could be written.  The file is returned too.
\<close>

definition connect ::
  "crypto \<Rightarrow> signing \<Rightarrow> io \<Rightarrow> agent_options \<Rightarrow> int \<Rightarrow> string \<Rightarrow> bool \<Rightarrow> (credentials \<times> op_key_entry list) option
   \<Rightarrow> credentials_file option \<Rightarrow> connector \<Rightarrow> (agent_error + unit) \<times> credentials_file option \<times> connector" where
  "connect C G F opts t seed saved answer file a =
     (let (state, d) = credentialsState F t opts file (ca_disk a); a0 = a\<lparr> ca_disk := d \<rparr>;
          finish = (\<lambda>a. a\<lparr> ca_status := (if ca_paused a then Paused else Connected) \<rparr>) in
      case state of
        Broken p \<Rightarrow> (Inl (Credentials_unavailable p), file, a0)
      | _ \<Rightarrow>
        (case loadOrCreateIdentity F t (identity_path opts) seed (state = Absent) (ca_disk a0) of
           (Inl e, d') \<Rightarrow> (Inl (Identity_error e), file,
             a0\<lparr> ca_disk := d', ca_status := (if e = Rename_failed then ca_status a0 else Identity_unavailable) \<rparr>)
         | (Inr i, d') \<Rightarrow>
             let a1 = a0\<lparr> ca_disk := d', ca_identity := Some i \<rparr> in
             (case state of
                Present c \<Rightarrow> (Inr (), file, finish (a1\<lparr> ca_credentials := Some c \<rparr>))
              | _ \<Rightarrow>
                if \<not> truthy (ao_fleetId opts) \<or> \<not> truthy (ao_enrollmentToken opts) then (Inl Not_enrolled, file, a1)
                else (case answer of
                    None \<Rightarrow> (Inl Enrollment_failed, file, a1)
                  | Some (c, keys) \<Rightarrow>
                      if \<not> saved then (Inl Save_failed, file, a1)
                      else
                        let a2 = a1\<lparr> ca_credentials := Some c \<rparr>;
                            (i', changed, _, ws') = syncPinnedOperatorKeys C G t (Some (cd_fleetId c)) keys (ca_warns a2) i;
                            a3 = a2\<lparr> ca_identity := Some i', ca_warns := ws' \<rparr> in
                        if keys = [] then (Inr (), Some (Usable c), finish a2)
                        else if \<not> changed then (Inr (), Some (Usable c), finish a3)
                        else (case saveIdentity F t (identity_path opts) i' (ca_disk a3) of
                            (Inl e, d'') \<Rightarrow> (Inl (Identity_error e), Some (Usable c), a3\<lparr> ca_disk := d'' \<rparr>)
                          | (Inr _, d'') \<Rightarrow> (Inr (), Some (Usable c), finish (a3\<lparr> ca_disk := d'' \<rparr>)))))))"

section \<open>What a poll does to the parts of the state\<close>

definition self_id :: "connector \<Rightarrow> string" where
  "self_id a = (case ca_credentials a of None \<Rightarrow> [] | Some c \<Rightarrow> cd_agentId c)"

lemma sync_identity_parts [simp]:
  "ca_store (sync_identity C G F opts t f keys a) = ca_store a" "ca_credentials (sync_identity C G F opts t f keys a) = ca_credentials a"
  "ca_deadLetters (sync_identity C G F opts t f keys a) = ca_deadLetters a"
  "ca_polling (sync_identity C G F opts t f keys a) = ca_polling a"
  by (simp_all add: sync_identity_def Let_def split: option.splits prod.splits)

lemma burned_parts [simp]:
  "q_messages (foldl (\<lambda>q n. markNonceSeen n q) q ns) = q_messages q" "q_cursors (foldl (\<lambda>q n. markNonceSeen n q) q ns) = q_cursors q"
  "q_seenMessageIds (foldl (\<lambda>q n. markNonceSeen n q) q ns) = q_seenMessageIds q"
  by (induction ns arbitrary: q) (simp_all add: markNonceSeen_def)

lemma judge_Accepted:
  assumes "judge mode selfId seen verdicts tr roomName labelOf t raw = Accepted s n"
  shows "\<exists>i. sm_message_id raw = Some i \<and> \<not> seen i \<and> admits mode (fst (classify raw (verdicts i) tr))
    \<and> s = to_stored roomName labelOf t (classify raw (verdicts i) tr) raw
    \<and> n = (case verdicts i of
             Some r \<Rightarrow> if vr_verified r \<and> truthy (text_member (sm_sig_canonical raw) ''nonce'') then text_member (sm_sig_canonical raw) ''nonce'' else None
           | None \<Rightarrow> None)"
  using assms unfolding judge_def Let_def by (cases "sm_message_id raw") (simp_all split: if_splits)

text \<open>The trust root that the batch is judged with.\<close>

definition synced ::
  "crypto \<Rightarrow> signing \<Rightarrow> poll_io \<Rightarrow> agent_options \<Rightarrow> int \<Rightarrow> inbox_batch \<Rightarrow> string option \<Rightarrow> connector \<Rightarrow> connector" where
  "synced C G P opts t batch f a = sync_identity C G (pi_identity P) opts t f (ib_operator_keys batch) a"

definition judged ::
  "crypto \<Rightarrow> signing \<Rightarrow> (string \<Rightarrow> int option) \<Rightarrow> poll_io \<Rightarrow> agent_options \<Rightarrow> int \<Rightarrow> inbox_batch \<Rightarrow> string option \<Rightarrow> connector
   \<Rightarrow> judgement list" where
  "judged C G date_of P opts t batch f a = judge_batch C date_of opts t f batch (synced C G P opts t batch f a)"

lemma ingest_accepted:
  assumes "ingest C G date_of bytes P opts t batch f a = (Some stored, a')"
  shows "stored = concat (map accepted_of (judged C G date_of P opts t batch f a))"
    "ca_identity a' = ca_identity (synced C G P opts t batch f a)"
    "ca_deadLetters a' = appendDeadLetters bytes (concat (map rejects_of (judged C G date_of P opts t batch f a))) (ca_deadLetters a)"
    "q_messages (ca_store a') = q_messages (add (ao_queueMax opts) stored (ca_store a))"
  using assms by (auto simp: ingest_def judged_def synced_def Let_def add_parts split: if_splits)

lemma ingest_nonces:
  "q_seenNonces (ca_store (snd (ingest C G date_of bytes P opts t batch f a)))
   = q_seenNonces (foldl (\<lambda>q n. markNonceSeen n q) (ca_store a) (concat (map nonces_of (judged C G date_of P opts t batch f a))))"
  by (simp add: ingest_def judged_def synced_def Let_def add_parts)

lemma in_accepted: "s \<in> set (concat (map accepted_of js)) \<longleftrightarrow> (\<exists>n. Accepted s n \<in> set js)"
proof -
  have "s \<in> set (accepted_of j) \<longleftrightarrow> (\<exists>n. j = Accepted s n)" for j by (cases j) auto
  then show ?thesis by auto
qed

text \<open>The verdict of a message is that of \<^verbatim>\<open>verifyInbound\<close> where no other message of the batch has its id.\<close>

definition opts_for :: "string option \<Rightarrow> int \<Rightarrow> inbox_batch \<Rightarrow> connector \<Rightarrow> verify_opts" where
  "opts_for f t batch a =
     \<lparr> vo_selfAgentId = self_id a, vo_fleetId = the f, vo_operatorKeys = id_pinnedOperatorKeys (the (ca_identity a)),
       vo_rosterByAgent = roster_by_agent (map roster_entry.truncate (ib_roster batch)), vo_seenNonces = q_seenNonces (ca_store a),
       vo_now = t, vo_maxSkewSeconds = None, vo_maxFutureSkewSeconds = None \<rparr>"

lemma message_key_inj:
  fixes ms :: "inbox_message list"
  assumes "distinct (map sm_message_id ms)" "\<forall>m\<in>set ms. sm_message_id m \<noteq> None"
  shows "distinct (map message_key (map signed_message.truncate ms))"
proof -
  have "message_key (signed_message.truncate m) = the (sm_message_id m)" if "m \<in> set ms" for m :: inbox_message
    using assms(2) that by (auto simp: message_key_def js_String_def signed_message.defs)
  then have eq: "map message_key (map signed_message.truncate ms) = map (the \<circ> sm_message_id) ms" by simp
  have "inj_on the (sm_message_id ` set ms)" using assms(2) by (intro inj_onI) (metis imageE option.collapse)
  then have "distinct (map (the \<circ> sm_message_id) ms)" using assms(1) by (simp add: distinct_map comp_inj_on)
  then show ?thesis unfolding eq .
qed

lemma verdicts_for_verified:
  assumes ids: "distinct (map sm_message_id (ib_messages batch))" "\<forall>m\<in>set (ib_messages batch). sm_message_id m \<noteq> None"
    and m: "m \<in> set (ib_messages batch)" "sm_message_id m = Some i"
    and v: "verdicts_for C date_of t f batch a i = Some r"
  shows "r = verifyInbound C date_of (opts_for f t batch a) (signed_message.truncate m)" "ca_identity a \<noteq> None"
    "f = Some (the f)" "id_pinnedOperatorKeys (the (ca_identity a)) \<noteq> []"
proof -
  from v obtain ident where ident: "ca_identity a = Some ident" by (auto simp: verdicts_for_def split: option.splits)
  let ?vb = "verifyBatch C date_of (id_pinnedOperatorKeys ident) (self_id a) f (map roster_entry.truncate (ib_roster batch))
     (q_seenNonces (ca_store a)) t (map signed_message.truncate (ib_messages batch))"
  have r: "map_of ?vb i = Some (Some r)" using v ident by (auto simp: verdicts_for_def self_id_def split: option.splits)
  then have "\<not> (id_pinnedOperatorKeys ident = [] \<or> \<not> truthy f)"
    using verifyBatch_dormant [of "id_pinnedOperatorKeys ident" f] by fastforce
  then obtain g where g: "f = Some g" "g \<noteq> []" "id_pinnedOperatorKeys ident \<noteq> []" by (auto simp: truthy_iff)
  have k: "message_key (signed_message.truncate m) = i" using m(2) by (simp add: message_key_def js_String_def signed_message.defs)
  have "signed_message.truncate m \<in> set (map signed_message.truncate (ib_messages batch))" using m(1) by simp
  from verifyBatch_verdict [OF message_key_inj [OF ids] this g(3,2)] r k g(1)
  show "r = verifyInbound C date_of (opts_for f t batch a) (signed_message.truncate m)"
    by (simp add: opts_for_def ident)
  show "ca_identity a \<noteq> None" "f = Some (the f)" "id_pinnedOperatorKeys (the (ca_identity a)) \<noteq> []" using ident g by simp_all
qed

section \<open>Connecting again\<close>

lemma load_only: "loadOrCreateIdentity F t path seed False d = loadOrCreateIdentity F t path seed' False d"
  by (simp add: loadOrCreateIdentity_def split: option.splits)

lemma credentialsState_present: "fst (credentialsState F t opts (Some fl) d) \<noteq> Absent"
  by (cases fl) (simp_all add: credentialsState_def Let_def split: prod.splits)

text \<open>
  A connector that has a credentials file, readable or not, is never enrolled a second time: connecting leaves the
  file as it is, and neither what an enrolment request would answer nor the seed that a new identity would get has any
  influence on the outcome, so that no new agent and no new key can come of it.
\<close>

theorem enrolment_never_replaced:
  "fst (snd (connect C G F opts t seed saved answer (Some fl) a)) = Some fl \<and>
   connect C G F opts t seed saved answer (Some fl) a = connect C G F opts t seed' saved' answer' (Some fl) a"
proof -
  obtain state d where c: "credentialsState F t opts (Some fl) (ca_disk a) = (state, d)" by fastforce
  then have "state \<noteq> Absent" using credentialsState_present [of F t opts fl "ca_disk a"] by simp
  then show ?thesis
    using load_only [of F t "identity_path opts" seed d seed'] c
    by (cases state) (simp_all add: connect_def Let_def split: prod.splits sum.splits)
qed

section \<open>What the client reads\<close>

text \<open>A message shown as verified was signed, and its signature holds under the trust root of the connector.\<close>

lemma stored_verified:
  assumes ids: "distinct (map sm_message_id (ib_messages batch))" "\<forall>m\<in>set (ib_messages batch). sm_message_id m \<noteq> None"
    and acc: "Accepted s n \<in> set (judged C G date_of P opts t batch f a)"
  shows "\<exists>m\<in>set (ib_messages batch). sm_message_id m = Some (st_message_id s) \<and> st_text s = or_empty (text_member (sm_body m) ''text'') \<and>
    \<not> messageSeen (st_message_id s) (ca_store a) \<and> admits (ao_requireSigned opts) (fst (st_verification s)) \<and>
    (fst (st_verification s) = Verified \<longrightarrow>
       vr_verified (verifyInbound C date_of (opts_for f t batch (synced C G P opts t batch f a)) (signed_message.truncate m)) \<and>
       n = (if truthy (text_member (sm_sig_canonical m) ''nonce'') then text_member (sm_sig_canonical m) ''nonce'' else None)) \<and>
    (fst (st_verification s) = Relay_attested \<longrightarrow>
       is_operator (signed_message.truncate m) \<and> \<not> truthy (sm_operator_sig m) \<and> ib_operator_trusted batch)"
proof -
  let ?a = "synced C G P opts t batch f a"
  from acc obtain m rn lo where m: "m \<in> set (ib_messages batch)"
    and j: "judge (ao_requireSigned opts) (self_id ?a) (\<lambda>i. messageSeen i (ca_store ?a)) (verdicts_for C date_of t f batch ?a)
         (ib_operator_trusted batch) rn lo t m = Accepted s n"
    unfolding judged_def judge_batch_def self_id_def [symmetric] set_map image_iff by (elim bexE) (auto dest: sym)
  note J = judge_Accepted [OF j]
  obtain i where i: "sm_message_id m = Some i" "\<not> messageSeen i (ca_store ?a)"
      "admits (ao_requireSigned opts) (fst (classify m (verdicts_for C date_of t f batch ?a i) (ib_operator_trusted batch)))"
      "s = to_stored rn lo t (classify m (verdicts_for C date_of t f batch ?a i) (ib_operator_trusted batch)) m"
      "n = (case verdicts_for C date_of t f batch ?a i of
             Some r \<Rightarrow> if vr_verified r \<and> truthy (text_member (sm_sig_canonical m) ''nonce'') then text_member (sm_sig_canonical m) ''nonce'' else None
           | None \<Rightarrow> None)"
    using J by blast
  have s: "st_message_id s = i" "st_text s = or_empty (text_member (sm_body m) ''text'')"
    "st_verification s = classify m (verdicts_for C date_of t f batch ?a i) (ib_operator_trusted batch)"
    using i(1,4) by (simp_all add: to_stored_def)
  have ver: "\<exists>r. verdicts_for C date_of t f batch ?a i = Some r \<and> vr_verified r" if "fst (st_verification s) = Verified"
    using that by (auto simp: s(3) classify_def Let_def split: if_splits option.splits)
  have att: "is_operator (signed_message.truncate m) \<and> \<not> truthy (sm_operator_sig m) \<and> ib_operator_trusted batch"
    if "fst (st_verification s) = Relay_attested"
    using that by (auto simp: s(3) classify_def Let_def is_operator_def signed_message.defs split: if_splits option.splits)
  have chk: "vr_verified (verifyInbound C date_of (opts_for f t batch ?a) (signed_message.truncate m)) \<and>
       n = (if truthy (text_member (sm_sig_canonical m) ''nonce'') then text_member (sm_sig_canonical m) ''nonce'' else None)"
    if V: "fst (st_verification s) = Verified"
  proof -
    from ver [OF V] obtain r where r: "verdicts_for C date_of t f batch ?a i = Some r" "vr_verified r" by blast
    from verdicts_for_verified(1) [OF ids m i(1) r(1)] r i(5) show ?thesis by simp
  qed
  have "ca_store ?a = ca_store a" by (simp add: synced_def)
  then have "\<not> messageSeen (st_message_id s) (ca_store a)" "admits (ao_requireSigned opts) (fst (st_verification s))"
    "sm_message_id m = Some (st_message_id s)"
    using i(1,2,3) s by simp_all
  with m s(2) att chk show ?thesis by blast
qed

text \<open>
  C11: In require mode a poll stores a message for the client only if the signature verifies as
  \<^verbatim>\<open>verifyInbound\<close> defines it, under the operator keys that the connector itself has pinned once the keys the relay
  served were taken in, or if it is an unsigned message of the operator and the fleet is marked as trusting those;
  the text stored is the text of that message.  The batch must not hold two messages with one id.
\<close>

theorem require_mode_stores_genuine:
  assumes "ao_requireSigned opts = Require"
    and "distinct (map sm_message_id (ib_messages batch))" "\<forall>m\<in>set (ib_messages batch). sm_message_id m \<noteq> None"
    and "ingest C G date_of bytes P opts t batch f a = (Some stored, a')" "s \<in> set stored"
  shows "\<exists>m\<in>set (ib_messages batch). sm_message_id m = Some (st_message_id s) \<and> st_text s = or_empty (text_member (sm_body m) ''text'') \<and>
    (fst (st_verification s) = Verified \<and>
       vr_verified (verifyInbound C date_of
         \<lparr> vo_selfAgentId = self_id a, vo_fleetId = the f, vo_operatorKeys = id_pinnedOperatorKeys (the (ca_identity a')),
           vo_rosterByAgent = roster_by_agent (map roster_entry.truncate (ib_roster batch)), vo_seenNonces = q_seenNonces (ca_store a),
           vo_now = t, vo_maxSkewSeconds = None, vo_maxFutureSkewSeconds = None \<rparr> (signed_message.truncate m)) \<or>
     fst (st_verification s) = Relay_attested \<and> sm_sender_kind m = Some ''operator'' \<and> \<not> truthy (sm_operator_sig m) \<and>
       ib_operator_trusted batch)"
proof -
  note I = ingest_accepted [OF assms(4)]
  obtain n where acc: "Accepted s n \<in> set (judged C G date_of P opts t batch f a)"
    using assms(5) unfolding I(1) in_accepted by blast
  from stored_verified [OF assms(2,3) acc] obtain m where m: "m \<in> set (ib_messages batch)" "sm_message_id m = Some (st_message_id s)"
    "st_text s = or_empty (text_member (sm_body m) ''text'')" "admits Require (fst (st_verification s))"
    "fst (st_verification s) = Verified \<Longrightarrow>
       vr_verified (verifyInbound C date_of (opts_for f t batch (synced C G P opts t batch f a)) (signed_message.truncate m))"
    "fst (st_verification s) = Relay_attested \<Longrightarrow>
       is_operator (signed_message.truncate m) \<and> \<not> truthy (sm_operator_sig m) \<and> ib_operator_trusted batch"
    unfolding assms(1) by blast
  have "opts_for f t batch (synced C G P opts t batch f a) =
         \<lparr> vo_selfAgentId = self_id a, vo_fleetId = the f, vo_operatorKeys = id_pinnedOperatorKeys (the (ca_identity a')),
           vo_rosterByAgent = roster_by_agent (map roster_entry.truncate (ib_roster batch)), vo_seenNonces = q_seenNonces (ca_store a),
           vo_now = t, vo_maxSkewSeconds = None, vo_maxFutureSkewSeconds = None \<rparr>"
    by (simp add: opts_for_def I(2) [symmetric]) (simp add: synced_def self_id_def)
  with m show ?thesis by (auto simp: admits_def is_operator_def signed_message.defs intro!: bexI [of _ m])
qed

section \<open>Bounds\<close>

lemma unread_add: "unreadCount (add n ms q) = unreadCount q + length (filter isUnread ms)"
  by (simp add: unreadCount_def add_parts evict_unread)

lemma ring_add:
  assumes "length (q_messages q) \<le> n \<or> ms \<noteq> []"
  shows "length (q_messages (add n ms q)) \<le> max n (unreadCount q + length ms)"
proof -
  let ?L = "length (q_messages q)" and ?R = "length (filter (\<lambda>m. \<not> isUnread m) (q_messages q))"
  have "unreadCount q + ?R = ?L" unfolding unreadCount_def by (rule sum_length_filter_compl)
  moreover have "length (evict (?L + length ms - n) (q_messages q)) = ?L - min (?L + length ms - n) ?R" by (rule length_evict)
  ultimately show ?thesis using assms by (auto simp: add_parts)
qed

lemma length_confirm [simp]: "length (q_messages (confirm c q)) = length (q_messages q)" "length (q_cursors (confirm c q)) = length (q_cursors q)"
  using arg_cong [OF confirm_batches [of c q], of length] by (simp_all add: confirm_messages split: option.splits)

lemma unread_confirm_le: "unreadCount (confirm c q) \<le> unreadCount q"
proof -
  have fewer: "length (filter isUnread (map g ms)) \<le> length (filter isUnread ms)"
    if "\<And>m. isUnread (g m) \<Longrightarrow> isUnread m" for g ms
    using that by (induction ms) auto
  show ?thesis
  proof (cases "List.find (\<lambda>x. cr_cursor x = c) (q_cursors q)")
    case (Some e)
    show ?thesis unfolding unreadCount_def confirm_messages Some option.case
      by (rule fewer) (simp add: isUnread_def split: if_splits)
  qed (simp add: unreadCount_def confirm_messages)
qed

lemma seen_bound: "length (q_seenMessageIds q) \<le> SEEN_CAP \<Longrightarrow> length (q_seenMessageIds (add n ms q)) \<le> SEEN_CAP"
proof -
  assume q: "length (q_seenMessageIds q) \<le> SEEN_CAP"
  then have "length (q_seenMessageIds (foldl (\<lambda>q m. if st_direction m = In then markMessageSeen (st_message_id m) q else q) q ms)) \<le> SEEN_CAP"
    by (induction ms arbitrary: q) (auto simp: markMessageSeen_def length_keep_last)
  with q show ?thesis by (simp add: add_def Let_def)
qed

lemma nonce_bound: "length (q_seenNonces q) \<le> SEEN_CAP \<Longrightarrow> length (q_seenNonces (foldl (\<lambda>q n. markNonceSeen n q) q ns)) \<le> SEEN_CAP"
  by (induction ns arbitrary: q) (auto simp: markNonceSeen_def length_keep_last)

text \<open>A batch of the relay holds at most the 25 messages that the connector asks for.\<close>

definition PAGE :: nat where
  "PAGE = 25"

definition store_bounded :: "nat \<Rightarrow> message_store \<Rightarrow> bool" where
  "store_bounded n q \<longleftrightarrow>
     unreadCount q < n + PAGE \<and> length (q_messages q) \<le> n + PAGE \<and> length (q_cursors q) \<le> CURSOR_CAP \<and>
     length (q_seenNonces q) \<le> SEEN_CAP \<and> length (q_seenMessageIds q) \<le> SEEN_CAP"

definition agent_bounded :: "agent_options \<Rightarrow> connector \<Rightarrow> bool" where
  "agent_bounded opts a \<longleftrightarrow> store_bounded (ao_queueMax opts) (ca_store a) \<and>
     (ca_polling a = Fetching \<longrightarrow> unreadCount (ca_store a) < ao_queueMax opts)"

text \<open>The steps of a connector, in any order; \<open>env\<close> are the parameters of the model that do not change.\<close>

inductive agent_step ::
  "crypto \<times> signing \<times> (string \<Rightarrow> int option) \<times> (dead_letter \<Rightarrow> nat) \<times> agent_options \<Rightarrow> connector \<Rightarrow> connector \<Rightarrow> bool" for env where
  step_begin: "poll_begin opts a = (True, a') \<Longrightarrow> env = (C, G, date_of, bytes, opts) \<Longrightarrow> agent_step env a a'"
| step_answer: "poll_answer C G date_of bytes P opts t answer a = (r, a') \<Longrightarrow> env = (C, G, date_of, bytes, opts) \<Longrightarrow>
    ca_polling a = Fetching \<Longrightarrow> (\<And>b. answer = Some b \<Longrightarrow> length (ib_messages b) \<le> PAGE) \<Longrightarrow> agent_step env a a'"
| step_end: "agent_step env a (poll_end a)"
| step_send: "send_begin C G t fresh nonce req a0 = Inr payload \<Longrightarrow> env = (C, G, date_of, bytes, opts) \<Longrightarrow>
    agent_step env a (send_done opts t t' mid req payload a)"
| step_room: "agent_step env a (openRoom_done i name a)"
| step_read: "takeUnread c t l after (ca_store a) = (out, q') \<Longrightarrow> agent_step env a (a\<lparr> ca_store := q' \<rparr>)"

text \<open>A connector with an empty queue, after \<^verbatim>\<open>connect\<close>.\<close>

definition started :: "credentials \<Rightarrow> identity option \<Rightarrow> disk \<Rightarrow> connector" where
  "started cred ident d = \<lparr> ca_store = new_store, ca_credentials = Some cred, ca_identity = ident, ca_status = Connected, ca_paused = False,
     ca_polling = Idle, ca_deadLetters = (None, None), ca_disk = d, ca_warns = [] \<rparr>"

lemma fleet_view_bounded [simp]: "store_bounded n (setFleetView r rm b q) \<longleftrightarrow> store_bounded n q"
proof -
  have "q_seenMessageIds (setFleetView r rm b q) = q_seenMessageIds q"
    by (auto simp: setFleetView_def Let_def split: option.splits)
  then show ?thesis by (simp add: store_bounded_def unreadCount_def)
qed

lemma add_bounded:
  assumes "store_bounded n q" "unreadCount q + length (filter isUnread ms) < n + PAGE" "unreadCount q + length ms \<le> n + PAGE"
  shows "store_bounded n (add n ms q)"
proof (cases "ms = []")
  case True
  then show ?thesis using assms by (simp add: add_def)
next
  case False
  then have "length (q_messages (add n ms q)) \<le> n + PAGE" using ring_add [of q n ms] assms(3) by simp
  then show ?thesis using assms seen_bound [of q n ms] by (simp add: store_bounded_def unread_add add_parts)
qed

lemma burn_bounded: "store_bounded n q \<Longrightarrow> store_bounded n (foldl (\<lambda>q n. markNonceSeen n q) q ns)"
  by (simp add: store_bounded_def unreadCount_def nonce_bound)

lemma take_bounded:
  assumes "store_bounded n q"
  shows "store_bounded n (snd (takeUnread c t l a q))" "unreadCount (snd (takeUnread c t l a q)) \<le> unreadCount q"
proof -
  have s: "q_seenNonces (snd (takeUnread c t l a q)) = q_seenNonces q" "q_seenMessageIds (snd (takeUnread c t l a q)) = q_seenMessageIds q"
    by (simp_all add: takeUnread_def Let_def)
  have m: "unreadCount (snd (takeUnread c t l a q)) = unreadCount (if truthy a then confirm (the a) q else q)"
    by (simp add: unreadCount_def takeUnread_parts)
  then show u: "unreadCount (snd (takeUnread c t l a q)) \<le> unreadCount q" using unread_confirm_le by simp
  show "store_bounded n (snd (takeUnread c t l a q))"
    using assms s u by (simp add: store_bounded_def takeUnread_parts length_keep_last)
qed

lemma accepted_length: "length (concat (map accepted_of (map f xs))) \<le> length xs"
proof -
  have "length (accepted_of j) \<le> 1" for j by (cases j) auto
  then show ?thesis by (induction xs) (auto simp: le_SucI add.commute intro: order.trans [OF add_mono])
qed

lemma ingest_bounded:
  assumes "store_bounded (ao_queueMax opts) (ca_store a)" "unreadCount (ca_store a) < ao_queueMax opts" "length (ib_messages batch) \<le> PAGE"
  shows "store_bounded (ao_queueMax opts) (ca_store (snd (ingest C G date_of bytes P opts t batch f a)))"
proof -
  let ?js = "judged C G date_of P opts t batch f a"
  let ?acc = "concat (map accepted_of ?js)" and ?q = "foldl (\<lambda>q n. markNonceSeen n q) (ca_store a) (concat (map nonces_of ?js))"
  have q: "store_bounded (ao_queueMax opts) ?q" "unreadCount ?q < ao_queueMax opts"
    using assms(1,2) by (simp_all add: burn_bounded unreadCount_def)
  have "length ?acc \<le> PAGE"
    unfolding judged_def judge_batch_def using assms(3) by (rule order.trans [OF accepted_length])
  moreover have "length (filter isUnread ?acc) \<le> length ?acc" by simp
  ultimately have "store_bounded (ao_queueMax opts) (add (ao_queueMax opts) ?acc ?q)" using q by (intro add_bounded) linarith+
  then show ?thesis using q(1) by (simp add: ingest_def judged_def synced_def Let_def)
qed

lemma sent_bounded:
  assumes "store_bounded n q" "st_direction m = Out"
  shows "store_bounded n (add n [m] q)" "unreadCount (add n [m] q) = unreadCount q"
proof -
  have "unreadCount q < n + PAGE" using assms(1) by (simp add: store_bounded_def)
  then show "store_bounded n (add n [m] q)" by (intro add_bounded [OF assms(1)]) (use assms(2) in \<open>simp_all add: isUnread_def\<close>)
  show "unreadCount (add n [m] q) = unreadCount q" using assms(2) by (simp add: unread_add isUnread_def)
qed

lemma agent_bounded_step:
  assumes "agent_step env a a'" "env = (C, G, date_of, bytes, opts)" "agent_bounded opts a"
  shows "agent_bounded opts a'"
  using assms
proof (cases rule: agent_step.cases)
  case (step_answer C' G' date_of' bytes' P opts' t answer r)
  then have fetching: "store_bounded (ao_queueMax opts) (ca_store a)" "unreadCount (ca_store a) < ao_queueMax opts" "opts' = opts"
    using assms(2,3) by (simp_all add: agent_bounded_def)
  have "store_bounded (ao_queueMax opts) (ca_store a') \<and> ca_polling a' \<noteq> Fetching"
  proof (cases answer)
    case (Some b)
    have "store_bounded (ao_queueMax opts)
       (ca_store (snd (ingest C' G' date_of' bytes' P opts t b fl (a\<lparr> ca_paused := p, ca_status := st \<rparr>))))" for fl p st
      by (rule ingest_bounded) (use fetching step_answer(4) Some in simp_all)
    then show ?thesis using step_answer(1) Some fetching(3)
      by (auto simp: poll_answer_def Let_def split: prod.splits option.splits if_splits) (metis snd_conv)+
  qed (use step_answer(1) fetching in \<open>auto simp: poll_answer_def\<close>)
  then show ?thesis by (simp add: agent_bounded_def)
next
  case (step_send C' G' t fresh nonce req a0 payload date_of' bytes' opts' t' mid)
  have "store_bounded (ao_queueMax opts) (ca_store a)" using assms(3) by (simp add: agent_bounded_def)
  from sent_bounded [OF this] show ?thesis using assms(2,3) step_send by (simp add: agent_bounded_def send_done_def)
next
  case (step_read c t l after out q')
  then show ?thesis using assms(3) take_bounded [of "ao_queueMax opts" "ca_store a" c t l after]
    by (auto simp: agent_bounded_def)
qed (use assms in \<open>auto simp: agent_bounded_def poll_begin_def poll_end_def openRoom_done_def hasRoom_def unreadCount_def split: if_splits\<close>)

interpretation backlog: stepping "started cred ident d" "agent_step (C, G, date_of, bytes, opts)" "agent_bounded opts"
  for cred ident d C G date_of bytes opts
proof unfold_locales
  show "agent_bounded opts (started cred ident d)"
    by (simp add: agent_bounded_def started_def store_bounded_def new_store_def unreadCount_def PAGE_def CURSOR_CAP_def SEEN_CAP_def)
qed (rule agent_bounded_step, auto)

text \<open>
  However polls, the client's reads, sends and rooms interleave, the connector stays within its bounds as long as the relay
  answers a poll with no more than the 25 messages asked for: fewer than the queue bound plus 25 messages are unread, the
  ring holds at most the bound plus 25, sixteen cursors are remembered, and five hundred nonces and message ids.
\<close>

theorem connector_bounded:
  assumes "reach (started cred ident d) (agent_step (C, G, date_of, bytes, opts)) a"
  shows "unreadCount (ca_store a) < ao_queueMax opts + 25 \<and> length (q_messages (ca_store a)) \<le> ao_queueMax opts + 25 \<and>
    length (q_cursors (ca_store a)) \<le> 16 \<and> length (q_seenNonces (ca_store a)) \<le> 500 \<and> length (q_seenMessageIds (ca_store a)) \<le> 500"
  using backlog.inv_reach [OF assms] by (simp add: agent_bounded_def store_bounded_def PAGE_def CURSOR_CAP_def SEEN_CAP_def)

section \<open>Nothing acknowledged is dropped\<close>

lemma dead_letters_kept:
  assumes "d \<in> set records"
  shows "\<exists>cur. fst (appendDeadLetters bytes records files) = Some cur \<and> d \<in> set cur"
  using assms by (auto simp: appendDeadLetters_def split: option.splits prod.splits)

text \<open>
  Whatever the mode, when a poll goes on to acknowledge its batch, every message of the batch is either one that the
  connector is meant to ignore (its own, a heartbeat, one it stored before, one without an id), or is in the store as
  unread with its id and text, or is in the dead-letter file as it came.  When a file cannot be written, nothing
  is acknowledged.
\<close>

theorem acknowledged_is_kept:
  assumes "poll_answer C G date_of bytes P opts t (Some batch) a = ((stored, acks), a')" "m \<in> set (ib_messages batch)" "sm_message_id m \<in> set acks"
    and "sm_message_id m = Some i" "sm_sender_agent_id m \<noteq> Some (self_id a)" "sm_message_type m \<noteq> Some ''heartbeat''" "\<not> messageSeen i (ca_store a)"
  shows "(\<exists>s\<in>set (filter isUnread (q_messages (ca_store a'))). st_message_id s = i \<and> st_text s = or_empty (text_member (sm_body m) ''text'')) \<or>
    (\<exists>cur. fst (ca_deadLetters a') = Some cur \<and> (\<exists>d\<in>set cur. dl_message d = m))"
proof -
  let ?p = "foldl apply_control (ca_paused a) (ib_controls batch)"
  let ?a1 = "a\<lparr> ca_paused := ?p, ca_status := (if ?p then Paused else Connected) \<rparr>"
  define f where "f = (case ib_fleet_id batch of Some f \<Rightarrow> Some f | None \<Rightarrow> map_option cd_fleetId (ca_credentials ?a1))"
  obtain a2 where a2: "ingest C G date_of bytes P opts t batch f ?a1 = (Some stored, a2)" "ca_store a' = ca_store a2" "ca_deadLetters a' = ca_deadLetters a2"
    using assms(1,3) unfolding f_def by (auto simp: poll_answer_def Let_def split: prod.splits option.splits)
  note I = ingest_accepted [OF a2(1)]
  let ?b = "synced C G P opts t batch f ?a1"
  have same: "self_id ?b = self_id a" "ca_store ?b = ca_store a" by (simp_all add: synced_def self_id_def)
  obtain rn lo where j: "judge (ao_requireSigned opts) (self_id ?b) (\<lambda>i. messageSeen i (ca_store ?b)) (verdicts_for C date_of t f batch ?b)
         (ib_operator_trusted batch) rn lo t m \<in> set (judged C G date_of P opts t batch f ?a1)" (is "?j \<in> _")
    unfolding judged_def judge_batch_def self_id_def [symmetric] set_map using assms(2) by blast
  show ?thesis
  proof (cases ?j)
    case Skip
    then show ?thesis using assms(4-7) same by (simp add: judge_def Let_def split: if_splits)
  next
    case (Rejected d)
    then have "dl_message d = m" using assms(4-7) same by (auto simp: judge_def Let_def split: if_splits)
    moreover have "d \<in> set (concat (map rejects_of (judged C G date_of P opts t batch f ?a1)))" using j Rejected by force
    ultimately show ?thesis using dead_letters_kept unfolding a2(3) I(3) by metis
  next
    case (Accepted s n)
    then have s: "st_message_id s = i" "st_text s = or_empty (text_member (sm_body m) ''text'')" "isUnread s"
      using judge_Accepted [OF Accepted] assms(4) by (auto simp: to_stored_def isUnread_def)
    have "s \<in> set stored" unfolding I(1) in_accepted using j Accepted by auto
    then have "s \<in> set (q_messages (ca_store a'))" unfolding a2(2) I(4) by (auto simp: add_parts)
    with s show ?thesis by auto
  qed
qed

section \<open>Replays\<close>

text \<open>The nonces burned since \<open>x\<close> was are the only ones that push it out.\<close>

lemma burned_pushes:
  "\<exists>ys. q_seenNonces (foldl (\<lambda>q n. markNonceSeen n q) q ns) = keep_last SEEN_CAP (q_seenNonces q @ ys) \<and> length ys \<le> length ns"
  if "length (q_seenNonces q) \<le> SEEN_CAP"
  using that
proof (induction ns arbitrary: q)
  case Nil
  then show ?case by (intro exI [of _ "[]"]) (simp add: keep_last_def)
next
  case (Cons n ns)
  have "length (q_seenNonces (markNonceSeen n q)) \<le> SEEN_CAP" using Cons.prems by (simp add: markNonceSeen_def length_keep_last)
  from Cons.IH [OF this] obtain ys where ys: "length ys \<le> length ns"
    "q_seenNonces (foldl (\<lambda>q n. markNonceSeen n q) (markNonceSeen n q) ns) = keep_last SEEN_CAP (q_seenNonces (markNonceSeen n q) @ ys)" by blast
  show ?case
  proof (cases "n \<in> set (q_seenNonces q)")
    case True
    then show ?thesis using ys by (intro exI [of _ ys]) (simp add: markNonceSeen_def)
  next
    case False
    have "keep_last SEEN_CAP (keep_last SEEN_CAP (q_seenNonces q @ [n]) @ ys) = keep_last SEEN_CAP (q_seenNonces q @ n # ys)"
      using keep_last_again [of SEEN_CAP "q_seenNonces q @ [n]" ys] by simp
    then show ?thesis using ys False by (intro exI [of _ "n # ys"]) (simp add: markNonceSeen_def)
  qed
qed

text \<open>How many more nonces must come before the newest one is forgotten.\<close>

definition remembered :: "string \<Rightarrow> nat \<Rightarrow> message_store \<Rightarrow> bool" where
  "remembered x k q \<longleftrightarrow> (\<exists>us vs. q_seenNonces q = us @ x # vs \<and> length vs + k < SEEN_CAP) \<and> length (q_seenNonces q) \<le> SEEN_CAP"

lemma remembered_burn:
  assumes "remembered x (length ns + k) q"
  shows "remembered x k (foldl (\<lambda>q n. markNonceSeen n q) q ns)"
proof -
  from assms obtain us vs where q: "q_seenNonces q = us @ x # vs" "length vs + length ns + k < SEEN_CAP" "length (q_seenNonces q) \<le> SEEN_CAP"
    by (auto simp: remembered_def)
  from burned_pushes [OF q(3)] obtain ys where ys: "length ys \<le> length ns"
    "q_seenNonces (foldl (\<lambda>q n. markNonceSeen n q) q ns) = keep_last SEEN_CAP (us @ x # vs @ ys)" by (auto simp: q(1))
  have "keep_last SEEN_CAP (us @ x # vs @ ys) = drop (length us + length vs + length ys + 1 - SEEN_CAP) us @ x # vs @ ys"
    using q(2) ys(1) by (simp add: keep_last_def add.assoc)
  then show ?thesis unfolding remembered_def ys(2) using q(2) ys(1) length_keep_last [of SEEN_CAP "us @ x # vs @ ys"]
    by (intro conjI exI [of _ "drop (length us + length vs + length ys + 1 - SEEN_CAP) us"] exI [of _ "vs @ ys"]) auto
qed

lemma nonces_length: "length (concat (map nonces_of (map g xs))) \<le> length xs"
proof -
  have "length (nonces_of j) \<le> 1" for j by (cases j rule: nonces_of.cases) auto
  then show ?thesis by (induction xs) (auto simp: le_SucI add.commute intro: order.trans [OF add_mono])
qed

text \<open>Several polls after one another.\<close>

fun ingests ::
  "crypto \<Rightarrow> signing \<Rightarrow> (string \<Rightarrow> int option) \<Rightarrow> (dead_letter \<Rightarrow> nat) \<Rightarrow> agent_options
   \<Rightarrow> (poll_io \<times> int \<times> inbox_batch \<times> string option) list \<Rightarrow> connector \<Rightarrow> connector" where
  "ingests C G date_of bytes opts [] a = a"
| "ingests C G date_of bytes opts ((P, t, batch, f) # ps) a =
     ingests C G date_of bytes opts ps (snd (ingest C G date_of bytes P opts t batch f a))"

definition delivered :: "(poll_io \<times> int \<times> inbox_batch \<times> string option) list \<Rightarrow> nat" where
  "delivered ps = sum_list (map (\<lambda>(P, t, batch, f). length (ib_messages batch)) ps)"

lemma remembered_cong: "q_seenNonces q = q_seenNonces q' \<Longrightarrow> remembered x k q = remembered x k q'"
  by (simp add: remembered_def)

lemma remembered_mono: "remembered x k q \<Longrightarrow> j \<le> k \<Longrightarrow> remembered x j q"
  by (force simp: remembered_def)

lemma remembered_ingest:
  assumes "remembered x (length (ib_messages batch) + k) (ca_store a)"
  shows "remembered x k (ca_store (snd (ingest C G date_of bytes P opts t batch f a)))"
proof -
  let ?ns = "concat (map nonces_of (judged C G date_of P opts t batch f a))"
  have "length ?ns \<le> length (ib_messages batch)" unfolding judged_def judge_batch_def by (rule nonces_length)
  then have "remembered x (length ?ns + k) (ca_store a)" using assms by (auto intro: remembered_mono)
  from remembered_burn [OF this] show ?thesis using remembered_cong [OF ingest_nonces] by blast
qed

lemma remembered_ingests:
  "remembered x (delivered ps + k) (ca_store a) \<Longrightarrow> remembered x k (ca_store (ingests C G date_of bytes opts ps a))"
proof (induction ps arbitrary: a)
  case (Cons p ps)
  obtain P t batch f where p: "p = (P, t, batch, f)" by (cases p)
  from Cons.prems have "remembered x (length (ib_messages batch) + (delivered ps + k)) (ca_store a)"
    by (simp add: delivered_def p add.assoc)
  from Cons.IH [OF remembered_ingest [OF this]] show ?case by (simp add: p)
qed (simp add: delivered_def)

lemma burned_remembered:
  assumes "x \<in> set ns" "x \<notin> set (q_seenNonces q)" "length ns + k \<le> SEEN_CAP" "length (q_seenNonces q) \<le> SEEN_CAP"
  shows "remembered x k (foldl (\<lambda>q n. markNonceSeen n q) q ns)"
  using assms
proof (induction ns arbitrary: q)
  case (Cons n ns)
  have b: "length (q_seenNonces (markNonceSeen n q)) \<le> SEEN_CAP" using Cons.prems(4) by (simp add: markNonceSeen_def length_keep_last)
  show ?case
  proof (cases "n = x")
    case True
    have "q_seenNonces (markNonceSeen x q) = drop (length (q_seenNonces q) + 1 - SEEN_CAP) (q_seenNonces q) @ [x]"
      using Cons.prems(2,3) by (simp add: markNonceSeen_def keep_last_def)
    then have "remembered x (length ns + k) (markNonceSeen x q)" 
      unfolding remembered_def using b True Cons.prems(3) by (intro conjI exI [of _ "[]"] exI) auto
    then show ?thesis using remembered_burn [of x ns k] True by simp
  next
    case False
    have "set (q_seenNonces (markNonceSeen n q)) \<subseteq> insert n (set (q_seenNonces q))" by (auto simp: markNonceSeen_def dest: keep_last_incl)
    then have "x \<notin> set (q_seenNonces (markNonceSeen n q))" using False Cons.prems(2) by auto
    then show ?thesis using Cons b False by simp
  qed
qed simp

text \<open>A verified message had a nonce that was not burned.\<close>

lemma verified_nonce:
  assumes "vr_verified (verifyInbound C date_of vo m)" "text_member (sm_sig_canonical m) ''nonce'' = Some x"
  shows "x \<noteq> []" "x \<notin> set (vo_seenNonces vo)"
proof -
  obtain c where c: "sm_sig_canonical m = Some c" using assms(2) by (cases "sm_sig_canonical m") (simp_all add: text_member_def opt_get_def)
  have "freshness_error date_of vo c = None" using assms(1) c unfolding verified_iff by simp
  moreover have "json_get c ''nonce'' = Some (JStr x)"
    using assms(2) c by (auto simp: text_member_def opt_get_def split: option.splits json.splits)
  ultimately show "x \<noteq> []" "x \<notin> set (vo_seenNonces vo)"
    by (auto simp: freshness_error_def Let_def js_String_def split: option.splits if_splits)
qed

lemma stored_nonce:
  assumes ids: "distinct (map sm_message_id (ib_messages batch))" "\<forall>m\<in>set (ib_messages batch). sm_message_id m \<noteq> None"
    and acc: "Accepted s n \<in> set (judged C G date_of P opts t batch f a)" "fst (st_verification s) = Verified"
    and m: "m \<in> set (ib_messages batch)" "sm_message_id m = Some (st_message_id s)" "text_member (sm_sig_canonical m) ''nonce'' = Some x"
  shows "x \<notin> set (q_seenNonces (ca_store a))" "n = Some x"
proof -
  from stored_verified [OF ids acc(1)] acc(2) obtain m' where m': "m' \<in> set (ib_messages batch)" "sm_message_id m' = Some (st_message_id s)"
    "vr_verified (verifyInbound C date_of (opts_for f t batch (synced C G P opts t batch f a)) (signed_message.truncate m'))"
    "n = (if truthy (text_member (sm_sig_canonical m') ''nonce'') then text_member (sm_sig_canonical m') ''nonce'' else None)" by blast
  have "m' = m" using ids(1) m(1,2) m'(1,2) by (metis distinct_map inj_onD)
  moreover have "q_seenNonces (ca_store (synced C G P opts t batch f a)) = q_seenNonces (ca_store a)" by (simp add: synced_def)
  ultimately show "x \<notin> set (q_seenNonces (ca_store a))" "n = Some x"
    using verified_nonce [OF m'(3), of x] m'(4) m(3) by (simp_all add: opts_for_def signed_message.defs)
qed

text \<open>
  A signed envelope counts once.  When a poll stored a message as verified, no later poll stores a message with the
  nonce of that envelope as verified, under whatever id the relay delivers it again, until the connector has been handed
  so many messages that the five hundred nonces it remembers can have been used up.
\<close>

theorem replayed_envelope_refused:
  assumes "length (q_seenNonces (ca_store a)) \<le> 500"
    and "distinct (map sm_message_id (ib_messages b1))" "\<forall>m\<in>set (ib_messages b1). sm_message_id m \<noteq> None"
    and "ingest C G date_of bytes P1 opts t1 b1 f1 a = (Some stored1, a1)" "s1 \<in> set stored1" "fst (st_verification s1) = Verified"
    and "m1 \<in> set (ib_messages b1)" "sm_message_id m1 = Some (st_message_id s1)" "text_member (sm_sig_canonical m1) ''nonce'' = Some x"
    and "length (ib_messages b1) + delivered ps \<le> 500"
    and "distinct (map sm_message_id (ib_messages b2))" "\<forall>m\<in>set (ib_messages b2). sm_message_id m \<noteq> None"
    and "ingest C G date_of bytes P2 opts t2 b2 f2 (ingests C G date_of bytes opts ps a1) = (Some stored2, a2)" "s2 \<in> set stored2"
    and "m2 \<in> set (ib_messages b2)" "sm_message_id m2 = Some (st_message_id s2)" "text_member (sm_sig_canonical m2) ''nonce'' = Some x"
  shows "fst (st_verification s2) \<noteq> Verified"
proof
  assume V2: "fst (st_verification s2) = Verified"
  let ?js = "judged C G date_of P1 opts t1 b1 f1 a"
  obtain n1 where n1: "Accepted s1 n1 \<in> set ?js" using assms(5) unfolding ingest_accepted(1) [OF assms(4)] in_accepted by blast
  note N = stored_nonce [OF assms(2,3) n1 assms(6,7,8,9)]
  have "length (concat (map nonces_of ?js)) \<le> length (ib_messages b1)" unfolding judged_def judge_batch_def by (rule nonces_length)
  moreover have "x \<in> set (concat (map nonces_of ?js))" using n1 N(2) by force
  ultimately have "remembered x (delivered ps) (foldl (\<lambda>q n. markNonceSeen n q) (ca_store a) (concat (map nonces_of ?js)))"
    using N(1) assms(1,10) by (intro burned_remembered) (simp_all add: SEEN_CAP_def)
  then have "remembered x (delivered ps) (ca_store a1)"
    using remembered_cong [OF ingest_nonces] assms(4) by (metis snd_conv)
  then have "remembered x 0 (ca_store (ingests C G date_of bytes opts ps a1))" by (intro remembered_ingests) simp
  then have "x \<in> set (q_seenNonces (ca_store (ingests C G date_of bytes opts ps a1)))" by (auto simp: remembered_def)
  moreover obtain n2 where "Accepted s2 n2 \<in> set (judged C G date_of P2 opts t2 b2 f2 (ingests C G date_of bytes opts ps a1))"
    using assms(14) unfolding ingest_accepted(1) [OF assms(13)] in_accepted by blast
  ultimately show False using stored_nonce(1) [OF assms(11,12) _ V2 assms(15,16,17)] by blast
qed

section \<open>A poll, concretely\<close>

definition sample_inbox :: "string \<Rightarrow> inbox_message" where
  "sample_inbox i = signed_message.extend (Envelope.sample_message\<lparr> sm_message_id := Some i \<rparr>)
     \<lparr> im_conversation_id = ''c'', im_created_at = ''t'', im_attachments = [], im_mentions = None, im_reply_to = None, im_metadata = None \<rparr>"

definition sample_member :: roster_member where
  "sample_member = roster_entry.extend sample_roster \<lparr> rm_display_name = ''Peer'', rm_runtime = ''custom'', rm_status = ''active'' \<rparr>"

definition sample_batch :: "inbox_message list \<Rightarrow> inbox_batch" where
  "sample_batch ms = \<lparr> ib_messages = ms, ib_controls = [], ib_fleet_id = Some ''flt'', ib_operator_keys = [], ib_roster = [sample_member],
     ib_rooms = None, ib_operator_trusted = False \<rparr>"

definition sample_options :: "require_signed \<Rightarrow> agent_options" where
  "sample_options mode = \<lparr> ao_stateDir = ''/s'', ao_displayName = ''C'', ao_fleetId = None, ao_enrollmentToken = None, ao_relayBaseUrl = ''u'',
     ao_requireSigned = mode, ao_queueMax = 2 \<rparr>"

definition sample_credentials :: credentials where
  "sample_credentials = \<lparr> cd_agentId = ''agt_a'', cd_secret = ''s'', cd_relayBaseUrl = ''u'', cd_fleetId = ''flt'' \<rparr>"

definition sample_agent :: connector where
  "sample_agent = started sample_credentials
     (Some \<lparr> id_seedHex = ''ab'', id_pinnedOperatorKeys = [(''opk'', ''op'')], id_tofuAt = Some ''t'', id_revokedOperatorKeys = None,
        id_operatorKeyAdmissions = None, id_other = [] \<rparr>) Map.empty"

definition sample_io :: poll_io where
  "sample_io = \<lparr> pi_identity = \<lparr> io_readable = True, io_copy_ok = True, io_rename_ok = True, io_pid = 1 \<rparr>, pi_append_ok = True,
     pi_add_ok = True, pi_view_ok = True \<rparr>"

definition sample_poll :: "require_signed \<Rightarrow> inbox_message list \<Rightarrow> connector \<Rightarrow> stored_message list option \<times> connector" where
  "sample_poll mode ms a =
     ingest signed_crypto sample_signing date_parse (\<lambda>_. 1) sample_io (sample_options mode) 2000 (sample_batch ms) (Some ''flt'') a"

text \<open>The same envelope under a new id, with its signature removed.\<close>

definition stripped :: inbox_message where
  "stripped = (sample_inbox ''m2'')\<lparr> sm_agent_sig := None \<rparr>"

definition shown :: "stored_message list option \<Rightarrow> (string \<times> verification_status) list option" where
  "shown = map_option (map (\<lambda>s. (st_message_id s, fst (st_verification s))))"

lemma sample_poll_stored: "shown (fst (sample_poll Require [sample_inbox ''m''] sample_agent)) = Some [(''m'', Verified)]"
  by code_simp

lemma sample_polls_stored:
  "(let p = sample_poll Warn [sample_inbox ''m''] sample_agent in (shown (fst p), shown (fst (sample_poll Warn [stripped] (snd p)))))
   = (Some [(''m'', Verified)], Some [(''m2'', Unsigned_message)])"
  by code_simp

theorem require_mode_stores_genuine_witness:
  "vr_verified (verifyInbound signed_crypto date_parse
     \<lparr> vo_selfAgentId = ''agt_a'', vo_fleetId = ''flt'', vo_operatorKeys = [(''opk'', ''op'')], vo_rosterByAgent = roster_by_agent [sample_roster],
       vo_seenNonces = [], vo_now = 2000, vo_maxSkewSeconds = None, vo_maxFutureSkewSeconds = None \<rparr> Envelope.sample_message)"
proof -
  obtain s a' where p: "sample_poll Require [sample_inbox ''m''] sample_agent = (Some [s], a')" "fst (st_verification s) = Verified"
    using sample_poll_stored by (cases "sample_poll Require [sample_inbox ''m''] sample_agent") (auto simp: shown_def map_eq_Cons_conv)
  have k: "map_option id_pinnedOperatorKeys (ca_identity (snd (sample_poll Require [sample_inbox ''m''] sample_agent))) = Some [(''opk'', ''op'')]"
    by code_simp
  have r: "map roster_entry.truncate [sample_member] = [sample_roster]" "signed_message.truncate (sample_inbox ''m'') = Envelope.sample_message"
    by (simp_all add: sample_member_def sample_inbox_def roster_entry.defs signed_message.defs sample_roster_def Envelope.sample_message_def)
  have f: "ib_messages (sample_batch [sample_inbox ''m'']) = [sample_inbox ''m'']" "ib_roster (sample_batch [sample_inbox ''m'']) = [sample_member]"
    "sm_message_id (sample_inbox ''m'') = Some ''m''" "self_id sample_agent = ''agt_a''" "q_seenNonces (ca_store sample_agent) = []"
    "id_pinnedOperatorKeys (the (ca_identity a')) = [(''opk'', ''op'')]" "ao_requireSigned (sample_options Require) = Require"
    using k p(1) by (auto simp: sample_batch_def sample_inbox_def signed_message.defs self_id_def sample_agent_def started_def new_store_def
        sample_credentials_def sample_options_def)
  show ?thesis
    using require_mode_stores_genuine [where s = s, OF f(7) _ _ p(1) [unfolded sample_poll_def]] p(2) r
    by (simp add: f)
qed

theorem replayed_envelope_refused_witness:
  "map_option (map (\<lambda>s. fst (st_verification s) = Verified))
     (fst (sample_poll Warn [stripped] (snd (sample_poll Warn [sample_inbox ''m''] sample_agent)))) = Some [False]"
proof -
  obtain s a' where p: "sample_poll Warn [sample_inbox ''m''] sample_agent = (Some [s], a')" "fst (st_verification s) = Verified" "st_message_id s = ''m''"
    using sample_polls_stored by (cases "sample_poll Warn [sample_inbox ''m''] sample_agent") (auto simp: shown_def map_eq_Cons_conv Let_def)
  obtain s2 a2 where p2: "sample_poll Warn [stripped] a' = (Some [s2], a2)" "st_message_id s2 = ''m2''"
    using sample_polls_stored p(1) by (cases "sample_poll Warn [stripped] a'") (auto simp: shown_def map_eq_Cons_conv Let_def)
  have n: "text_member (sm_sig_canonical (sample_inbox ''m'')) ''nonce'' = Some ''n''" "text_member (sm_sig_canonical stripped) ''nonce'' = Some ''n''"
    by code_simp+
  have i: "sm_message_id (sample_inbox i) = Some i" "sm_message_id stripped = Some ''m2''" for i
    by (simp_all add: sample_inbox_def stripped_def signed_message.defs)
  have "fst (st_verification s2) \<noteq> Verified"
    by (rule replayed_envelope_refused [of sample_agent "sample_batch [sample_inbox ''m'']" signed_crypto sample_signing date_parse "\<lambda>_. 1" sample_io
          "sample_options Warn" 2000 "Some ''flt''" "[s]" a' s "sample_inbox ''m''" "''n''" "[]" "sample_batch [stripped]" sample_io 2000 "Some ''flt''" "[s2]" a2 s2 stripped])
      (use p p2 n i in \<open>simp_all add: sample_poll_def sample_agent_def started_def new_store_def sample_batch_def delivered_def\<close>)
  with p p2 show ?thesis by simp
qed

theorem acknowledged_is_kept_witness:
  "\<exists>cur. fst (ca_deadLetters (snd (poll_answer signed_crypto sample_signing date_parse (\<lambda>_. 1) sample_io (sample_options Require) 2000
        (Some (sample_batch [stripped])) sample_agent))) = Some cur \<and> stripped \<in> dl_message ` set cur"
proof -
  let ?r = "poll_answer signed_crypto sample_signing date_parse (\<lambda>_. 1) sample_io (sample_options Require) 2000 (Some (sample_batch [stripped])) sample_agent"
  have r: "fst ?r = ([], [Some ''m2''])" "q_messages (ca_store (snd ?r)) = []" by code_simp+
  have "(\<exists>s\<in>set (filter isUnread (q_messages (ca_store (snd ?r)))). st_message_id s = ''m2'' \<and> st_text s = or_empty (text_member (sm_body stripped) ''text'')) \<or>
    (\<exists>cur. fst (ca_deadLetters (snd ?r)) = Some cur \<and> (\<exists>d\<in>set cur. dl_message d = stripped))"
    by (rule acknowledged_is_kept [of signed_crypto sample_signing date_parse "\<lambda>_. 1" sample_io "sample_options Require" 2000 "sample_batch [stripped]" sample_agent "[]" "[Some ''m2'']"])
      (use r(1) in \<open>simp_all add: prod_eq_iff stripped_def sample_inbox_def sample_batch_def signed_message.defs
        Envelope.sample_message_def self_id_def sample_agent_def started_def sample_credentials_def messageSeen_def new_store_def\<close>)
  then show ?thesis unfolding r(2) by force
qed

theorem connector_bounded_witness:
  "length (q_messages (ca_store (snd (poll_begin (sample_options Require) sample_agent)))) \<le> 27"
proof -
  have "fst (poll_begin (sample_options Require) sample_agent)" by code_simp
  then have "poll_begin (sample_options Require) sample_agent = (True, snd (poll_begin (sample_options Require) sample_agent))"
    by (simp add: prod_eq_iff)
  then have "agent_step (signed_crypto, sample_signing, date_parse, \<lambda>_. 1, sample_options Require) sample_agent (snd (poll_begin (sample_options Require) sample_agent))"
    by (rule step_begin) simp
  then have "reach (started sample_credentials (ca_identity sample_agent) Map.empty) (agent_step (signed_crypto, sample_signing, date_parse, \<lambda>_. 1, sample_options Require))
     (snd (poll_begin (sample_options Require) sample_agent))"
    by (auto simp: sample_agent_def started_def intro: reach.intros)
  from connector_bounded [OF this] show ?thesis by (simp add: sample_options_def)
qed

end
