(* ===== verification/Mcp_OAuth.thy ===== *)
theory Mcp_OAuth
  imports Mcp_Store
begin

text \<open>
  Who may use the MCP connector over HTTP, \<^verbatim>\<open>packages/mcp-connector/src\<close>: the bearer schemes and the client key of
  \<^verbatim>\<open>auth.ts\<close> and the authorization server of \<^verbatim>\<open>oauth.ts\<close>: registration, the consent page that asks for the operator's
  password, codes with PKCE, and rotating refresh tokens.  Random values (client ids, nonces, codes, tokens) are
  arguments of the operation that draws them, the clock is read once per operation, and \<^verbatim>\<open>URL\<close> is a parameter.
  A \<^verbatim>\<open>Map\<close> is the list of its entries in insertion order.
\<close>

section \<open>Bearer tokens and client addresses\<close>

text \<open>\<^verbatim>\<open>/^\s*Bearer\s+(\S+)\s*$/i\<close>.\<close>

definition bearerFromHeader :: "string option \<Rightarrow> string option" where
  "bearerFromHeader header =
     (case header of
        None \<Rightarrow> None
      | Some h \<Rightarrow>
          let v = js_trim h; r = drop 6 v; token = dropWhile is_space r in
          if js_lower (take 6 v) = ''bearer'' \<and> r \<noteq> [] \<and> is_space (hd r) \<and> token \<noteq> [] \<and> list_all (\<lambda>c. \<not> is_space c) token
          then Some token else None)"

text \<open>Digests are compared; \<open>C\<close> has SHA-256.\<close>

definition constantTimeEqual :: "crypto \<Rightarrow> string \<Rightarrow> string \<Rightarrow> bool" where
  "constantTimeEqual C a b \<longleftrightarrow> sha256_hex C a = sha256_hex C b"

datatype auth_decision = Granted string | Refused string

definition static_authenticate :: "crypto \<Rightarrow> string \<Rightarrow> string option \<Rightarrow> auth_decision" where
  "static_authenticate C token header =
     (case bearerFromHeader header of
        None \<Rightarrow> Refused ''unauthorized''
      | Some presented \<Rightarrow> if constantTimeEqual C presented token then Granted ''bearer'' else Refused ''invalid_token'')"

text \<open>The value of \<^verbatim>\<open>X-Forwarded-For\<close> is absent, or given once or several times.\<close>

definition forwarded_parts :: "string list \<Rightarrow> string list" where
  "forwarded_parts values = filter (\<lambda>p. p \<noteq> []) (map js_trim (js_split CHR '','' (join_with CHR '','' values)))"

definition clientKey :: "string list \<Rightarrow> string option \<Rightarrow> bool \<Rightarrow> int \<Rightarrow> string" where
  "clientKey forwarded remoteAddress trustProxy hops =
     (let parts = forwarded_parts forwarded; depth = (if hops \<ge> 1 then nat hops else 1) in
      if trustProxy \<and> length parts \<ge> depth then parts ! (length parts - depth)
      else (case remoteAddress of Some a \<Rightarrow> a | None \<Rightarrow> ''unknown''))"

section \<open>The authorization server\<close>

definition ACCESS_TOKEN_TTL_SECONDS :: int where
  "ACCESS_TOKEN_TTL_SECONDS = 3600"

definition REFRESH_TOKEN_TTL_SECONDS :: int where
  "REFRESH_TOKEN_TTL_SECONDS = 30 * 24 * 3600"

definition CODE_TTL_MS :: int where
  "CODE_TTL_MS = 10 * 60000"

definition CONSENT_TTL_MS :: int where
  "CONSENT_TTL_MS = 10 * 60000"

definition MAX_CLIENTS :: nat where
  "MAX_CLIENTS = 32"

definition MAX_TOKENS :: nat where
  "MAX_TOKENS = 200"

definition SCOPE :: string where
  "SCOPE = ''ekho''"

definition LOGIN_MAX_FAILURES :: nat where
  "LOGIN_MAX_FAILURES = 5"

definition LOGIN_WINDOW_MS :: int where
  "LOGIN_WINDOW_MS = 15 * 60000"

record registered_client =
  rc_client_id :: string
  rc_client_name :: "string option"
  rc_redirect_uris :: "string list"
  rc_grant_types :: "string list"
  rc_client_id_issued_at :: int

datatype token_kind = Access | Refresh

record stored_token =
  tk_hash :: string
  tk_kind :: token_kind
  tk_client_id :: string
  tk_resource :: string
  tk_scope :: string
  tk_expires_at :: int

record pending_code =
  pc_client_id :: string
  pc_redirect_uri :: string
  pc_code_challenge :: string
  pc_resource :: string
  pc_scope :: string
  pc_expires_at :: int

record authorize_params =
  ap_client_id :: string
  ap_redirect_uri :: string
  ap_code_challenge :: string
  ap_state :: "string option"
  ap_scope :: string
  ap_resource :: string

record oauth_server =
  oa_clients :: "registered_client list"
  oa_tokens :: "stored_token list"
  oa_codes :: "(string \<times> pending_code) list"
  oa_consents :: "(string \<times> authorize_params \<times> int) list"
  oa_loginFailures :: "(string \<times> nat \<times> int) list"

text \<open>Status and error code of \<^verbatim>\<open>OAuthError\<close>.\<close>

datatype oauth_error = OAuthError nat string

record url_parts =
  ur_protocol :: string
  ur_hostname :: string
  ur_host :: string
  ur_hash :: string

record oauth_options =
  oo_publicUrl :: string
  oo_mcpPath :: string
  oo_password :: string
  oo_allowedRedirectHosts :: "string list"

definition resource :: "oauth_options \<Rightarrow> string" where
  "resource opts = oo_publicUrl opts @ oo_mcpPath opts"

definition isLoopback :: "string \<Rightarrow> bool" where
  "isLoopback host \<longleftrightarrow> host = ''localhost'' \<or> host = ''127.0.0.1'' \<or> host = ''[::1]''"

text \<open>The state is written after every change; on the way expired tokens go, and the oldest past the bound.\<close>

definition persist :: "int \<Rightarrow> oauth_server \<Rightarrow> oauth_server" where
  "persist t s = s\<lparr> oa_tokens := keep_last MAX_TOKENS (filter (\<lambda>x. tk_expires_at x > t) (oa_tokens s)) \<rparr>"

section \<open>Registration\<close>

text \<open>\<open>parse\<close> is \<^verbatim>\<open>new URL\<close>, nothing where it throws.\<close>

definition validateRedirectUri :: "(string \<Rightarrow> url_parts option) \<Rightarrow> oauth_options \<Rightarrow> string \<Rightarrow> bool" where
  "validateRedirectUri parse opts u =
     (case parse u of
        None \<Rightarrow> False
      | Some p \<Rightarrow>
          let loop = isLoopback (ur_hostname p) \<or> isLoopback (ur_host p) in
          if ur_hash p \<noteq> [] then False
          else if ur_protocol p = ''http:'' \<and> \<not> loop then False
          else if ur_protocol p \<noteq> ''https:'' \<and> ur_protocol p \<noteq> ''http:'' then False
          else if oo_allowedRedirectHosts opts \<noteq> [] \<and> \<not> loop \<and> js_lower (ur_hostname p) \<notin> set (oo_allowedRedirectHosts opts) then False
          else True)"

definition getClient :: "string \<Rightarrow> oauth_server \<Rightarrow> registered_client option" where
  "getClient clientId s = List.find (\<lambda>c. rc_client_id c = clientId) (oa_clients s)"

definition hasLiveRefreshToken :: "int \<Rightarrow> string \<Rightarrow> oauth_server \<Rightarrow> bool" where
  "hasLiveRefreshToken t clientId s = list_ex (\<lambda>x. tk_kind x = Refresh \<and> tk_client_id x = clientId \<and> tk_expires_at x > t) (oa_tokens s)"

text \<open>The first client that \<open>p\<close> selects goes, with every token of its id.\<close>

definition remove_first_client :: "(registered_client \<Rightarrow> bool) \<Rightarrow> oauth_server \<Rightarrow> oauth_server option" where
  "remove_first_client p s =
     (case List.extract p (oa_clients s) of
        None \<Rightarrow> None
      | Some (before, gone, after) \<Rightarrow>
          Some (s\<lparr> oa_clients := before @ after, oa_tokens := filter (\<lambda>x. tk_client_id x \<noteq> rc_client_id gone) (oa_tokens s) \<rparr>))"

definition texts_or :: "json option \<Rightarrow> string list \<Rightarrow> string list" where
  "texts_or v d = (case v of Some (JArr vs) \<Rightarrow> map js_string vs | _ \<Rightarrow> d)"

definition is_object :: "json \<Rightarrow> bool" where
  "is_object j = (case j of JObj _ \<Rightarrow> True | JArr _ \<Rightarrow> True | _ \<Rightarrow> False)"

definition registerClient ::
  "(string \<Rightarrow> url_parts option) \<Rightarrow> oauth_options \<Rightarrow> int \<Rightarrow> string \<Rightarrow> json \<Rightarrow> oauth_server \<Rightarrow> (oauth_error + registered_client) \<times> oauth_server" where
  "registerClient parse opts t fresh body s =
     (if \<not> is_object body then (Inl (OAuthError 400 ''invalid_client_metadata''), s)
      else
        let uris = texts_or (json_get body ''redirect_uris'') [];
            authMethod = json_get body ''token_endpoint_auth_method'';
            grants = texts_or (json_get body ''grant_types'') [''authorization_code''];
            responses = texts_or (json_get body ''response_types'') [''code''];
            client = \<lparr> rc_client_id = fresh,
              rc_client_name = (case json_get body ''client_name'' of Some (JStr n) \<Rightarrow> Some (take 120 n) | _ \<Rightarrow> None),
              rc_redirect_uris = uris, rc_grant_types = (if ''refresh_token'' \<in> set grants then grants else grants @ [''refresh_token'']),
              rc_client_id_issued_at = t div 1000 \<rparr>;
            admit = (\<lambda>s. (Inr client, persist t (s\<lparr> oa_clients := oa_clients s @ [client] \<rparr>))) in
        if uris = [] \<or> length uris > 10 then (Inl (OAuthError 400 ''invalid_redirect_uri''), s)
        else if \<not> list_all (validateRedirectUri parse opts) uris then (Inl (OAuthError 400 ''invalid_redirect_uri''), s)
        else if \<not> nullish authMethod \<and> authMethod \<noteq> Some (JStr ''none'') then (Inl (OAuthError 400 ''invalid_client_metadata''), s)
        else if \<not> set grants \<subseteq> {''authorization_code'', ''refresh_token''} then (Inl (OAuthError 400 ''invalid_client_metadata''), s)
        else if \<not> set responses \<subseteq> {''code''} then (Inl (OAuthError 400 ''invalid_client_metadata''), s)
        else if length (oa_clients s) \<ge> MAX_CLIENTS then
          (case remove_first_client (\<lambda>c. \<not> hasLiveRefreshToken t (rc_client_id c) s) s of
             None \<Rightarrow> (Inl (OAuthError 429 ''too_many_clients''), s)
           | Some s' \<Rightarrow> admit s')
        else admit s)"

section \<open>Authorization\<close>

type_synonym query = "string \<Rightarrow> string option"

datatype authorize_outcome = Validated authorize_params | Redirect_error string string

definition url_safe :: "string \<Rightarrow> char \<Rightarrow> bool" where
  "url_safe extra c \<longleftrightarrow> (let n = of_char c :: nat in 65 \<le> n \<and> n \<le> 90 \<or> 97 \<le> n \<and> n \<le> 122 \<or> 48 \<le> n \<and> n \<le> 57) \<or> c \<in> set extra"

text \<open>\<^verbatim>\<open>{43,128}\<close> characters of the class.\<close>

definition pkce_text :: "string \<Rightarrow> string \<Rightarrow> bool" where
  "pkce_text extra v \<longleftrightarrow> 43 \<le> length v \<and> length v \<le> 128 \<and> list_all (url_safe extra) v"

text \<open>\<^verbatim>\<open>split(/\s+/).filter(Boolean)\<close>.\<close>

function words :: "string \<Rightarrow> string list" where
  "words [] = []"
| "words (c # cs) =
     (if is_space c then words cs
      else (c # takeWhile (\<lambda>d. \<not> is_space d) cs) # words (dropWhile (\<lambda>d. \<not> is_space d) cs))"
  by pat_completeness auto

termination
  by (relation "measure length") (auto simp: le_imp_less_Suc length_dropWhile_le)

definition validateAuthorizeRequest :: "oauth_options \<Rightarrow> query \<Rightarrow> oauth_server \<Rightarrow> oauth_error + authorize_outcome" where
  "validateAuthorizeRequest opts q s =
     (case (if truthy (q ''client_id'') then getClient (the (q ''client_id'')) s else None) of
        None \<Rightarrow> Inl (OAuthError 400 ''invalid_client'')
      | Some client \<Rightarrow>
          if \<not> truthy (q ''redirect_uri'') \<and> length (rc_redirect_uris client) \<noteq> 1 then Inl (OAuthError 400 ''invalid_request'')
          else
            let redirectUri = (if truthy (q ''redirect_uri'') then the (q ''redirect_uri'') else hd (rc_redirect_uris client));
                challenge = q ''code_challenge'' in
            if redirectUri \<notin> set (rc_redirect_uris client) then Inl (OAuthError 400 ''invalid_request'')
            else if q ''response_type'' \<noteq> Some ''code'' then Inr (Redirect_error redirectUri ''unsupported_response_type'')
            else if \<not> truthy challenge \<or> \<not> pkce_text ''_-'' (the challenge) then Inr (Redirect_error redirectUri ''invalid_request'')
            else if q ''code_challenge_method'' \<noteq> Some ''S256'' then Inr (Redirect_error redirectUri ''invalid_request'')
            else if q ''resource'' \<noteq> None \<and> q ''resource'' \<noteq> Some (resource opts) then Inr (Redirect_error redirectUri ''invalid_target'')
            else if q ''scope'' \<noteq> None \<and> list_ex (\<lambda>w. w \<noteq> SCOPE) (words (the (q ''scope''))) then Inr (Redirect_error redirectUri ''invalid_scope'')
            else Inr (Validated \<lparr> ap_client_id = rc_client_id client, ap_redirect_uri = redirectUri, ap_code_challenge = the challenge,
                   ap_state = q ''state'', ap_scope = SCOPE, ap_resource = (case q ''resource'' of Some r \<Rightarrow> r | None \<Rightarrow> resource opts) \<rparr>))"

definition beginConsent :: "int \<Rightarrow> string \<Rightarrow> authorize_params \<Rightarrow> oauth_server \<Rightarrow> oauth_server" where
  "beginConsent t nonce params s =
     s\<lparr> oa_consents := keep_last 200 (filter (\<lambda>(k, p, e). e > t) (put nonce (params, t + CONSENT_TTL_MS) (oa_consents s))) \<rparr>"

definition loginThrottled :: "int \<Rightarrow> string \<Rightarrow> oauth_server \<Rightarrow> bool \<times> oauth_server" where
  "loginThrottled t key s =
     (case map_of (oa_loginFailures s) key of
        None \<Rightarrow> (False, s)
      | Some (n, w) \<Rightarrow>
          if t - w > LOGIN_WINDOW_MS then (False, s\<lparr> oa_loginFailures := remove_key key (oa_loginFailures s) \<rparr>)
          else (n \<ge> LOGIN_MAX_FAILURES, s))"

text \<open>The code, to be put into the redirect to the client with its state.\<close>

definition completeConsent ::
  "crypto \<Rightarrow> oauth_options \<Rightarrow> int \<Rightarrow> string \<Rightarrow> string option \<Rightarrow> string option \<Rightarrow> string \<Rightarrow> oauth_server
   \<Rightarrow> (oauth_error + string \<times> string \<times> string option) \<times> oauth_server" where
  "completeConsent C opts t code nonce password key s0 =
     (let (throttled, s) = loginThrottled t key s0 in
      if throttled then (Inl (OAuthError 429 ''slow_down''), s)
      else case (if truthy nonce then map_of (oa_consents s) (the nonce) else None) of
        None \<Rightarrow> (Inl (OAuthError 400 ''invalid_request''), s)
      | Some (p, expires) \<Rightarrow>
          if expires \<le> t then (Inl (OAuthError 400 ''invalid_request''), s)
          else if \<not> truthy password \<or> \<not> constantTimeEqual C (the password) (oo_password opts) then
            (Inl (OAuthError 401 ''access_denied''),
             s\<lparr> oa_loginFailures :=
                  (case map_of (oa_loginFailures s) key of
                     None \<Rightarrow> put key (1, t) (oa_loginFailures s)
                   | Some (n, w) \<Rightarrow> if t - w > LOGIN_WINDOW_MS then put key (1, t) (oa_loginFailures s)
                                    else put key (n + 1, w) (oa_loginFailures s)) \<rparr>)
          else
            (Inr (code, ap_redirect_uri p, ap_state p),
             s\<lparr> oa_consents := remove_key (the nonce) (oa_consents s), oa_loginFailures := remove_key key (oa_loginFailures s),
                oa_codes := put code \<lparr> pc_client_id = ap_client_id p, pc_redirect_uri = ap_redirect_uri p,
                  pc_code_challenge = ap_code_challenge p, pc_resource = ap_resource p, pc_scope = ap_scope p,
                  pc_expires_at = t + CODE_TTL_MS \<rparr> (oa_codes s) \<rparr>))"

section \<open>Tokens\<close>

definition issueTokens ::
  "crypto \<Rightarrow> int \<Rightarrow> string \<Rightarrow> string \<Rightarrow> string \<Rightarrow> string \<Rightarrow> string \<Rightarrow> oauth_server \<Rightarrow> (string \<times> string) \<times> oauth_server" where
  "issueTokens C t access refresh clientId res scope s =
     ((access, refresh), persist t (s\<lparr> oa_tokens := oa_tokens s @
        [\<lparr> tk_hash = sha256_hex C access, tk_kind = Access, tk_client_id = clientId, tk_resource = res, tk_scope = scope,
           tk_expires_at = t + ACCESS_TOKEN_TTL_SECONDS * 1000 \<rparr>,
         \<lparr> tk_hash = sha256_hex C refresh, tk_kind = Refresh, tk_client_id = clientId, tk_resource = res, tk_scope = scope,
           tk_expires_at = t + REFRESH_TOKEN_TTL_SECONDS * 1000 \<rparr>] \<rparr>))"

definition exchange_code ::
  "crypto \<Rightarrow> int \<Rightarrow> string \<Rightarrow> string \<Rightarrow> registered_client \<Rightarrow> query \<Rightarrow> oauth_server \<Rightarrow> (oauth_error + string \<times> string) \<times> oauth_server" where
  "exchange_code C t access refresh client form s =
     (let found = (if truthy (form ''code'') then map_of (oa_codes s) (the (form ''code'')) else None);
          s1 = (if truthy (form ''code'') then s\<lparr> oa_codes := remove_key (the (form ''code'')) (oa_codes s) \<rparr> else s);
          deny = (\<lambda>e. (Inl (OAuthError 400 e), s1)); verifier = or_empty (form ''code_verifier'') in
      case found of
        None \<Rightarrow> deny ''invalid_grant''
      | Some code \<Rightarrow>
          if pc_expires_at code \<le> t then deny ''invalid_grant''
          else if pc_client_id code \<noteq> rc_client_id client then deny ''invalid_grant''
          else if form ''redirect_uri'' \<noteq> None \<and> form ''redirect_uri'' \<noteq> Some (pc_redirect_uri code) then deny ''invalid_grant''
          else if \<not> pkce_text ''._~-'' verifier then deny ''invalid_grant''
          else if \<not> constantTimeEqual C (sha256_b64url C verifier) (pc_code_challenge code) then deny ''invalid_grant''
          else if form ''resource'' \<noteq> None \<and> form ''resource'' \<noteq> Some (pc_resource code) then deny ''invalid_target''
          else (let (r, s2) = issueTokens C t access refresh (rc_client_id client) (pc_resource code) (pc_scope code) s1 in (Inr r, s2)))"

definition rotate_refresh ::
  "crypto \<Rightarrow> int \<Rightarrow> string \<Rightarrow> string \<Rightarrow> registered_client \<Rightarrow> query \<Rightarrow> oauth_server \<Rightarrow> (oauth_error + string \<times> string) \<times> oauth_server" where
  "rotate_refresh C t access refresh client form s =
     (let hash = sha256_hex C (or_empty (form ''refresh_token'')); deny = (\<lambda>e. (Inl (OAuthError 400 e), s)) in
      case List.extract (\<lambda>x. tk_kind x = Refresh \<and> tk_hash x = hash) (oa_tokens s) of
        None \<Rightarrow> deny ''invalid_grant''
      | Some (before, stored, after) \<Rightarrow>
          if tk_expires_at stored \<le> t then deny ''invalid_grant''
          else if tk_client_id stored \<noteq> rc_client_id client then deny ''invalid_grant''
          else if form ''resource'' \<noteq> None \<and> form ''resource'' \<noteq> Some (tk_resource stored) then deny ''invalid_target''
          else (let (r, s2) = issueTokens C t access refresh (rc_client_id client) (tk_resource stored) (tk_scope stored)
                                (s\<lparr> oa_tokens := before @ after \<rparr>) in (Inr r, s2)))"

definition token ::
  "crypto \<Rightarrow> int \<Rightarrow> string \<Rightarrow> string \<Rightarrow> query \<Rightarrow> oauth_server \<Rightarrow> (oauth_error + string \<times> string) \<times> oauth_server" where
  "token C t access refresh form s =
     (case (if truthy (form ''client_id'') then getClient (the (form ''client_id'')) s else None) of
        None \<Rightarrow> (Inl (OAuthError 401 ''invalid_client''), s)
      | Some client \<Rightarrow>
          if form ''grant_type'' = Some ''authorization_code'' then exchange_code C t access refresh client form s
          else if form ''grant_type'' = Some ''refresh_token'' then rotate_refresh C t access refresh client form s
          else (Inl (OAuthError 400 ''unsupported_grant_type''), s))"

section \<open>The protected resource\<close>

definition verifyAccessToken :: "crypto \<Rightarrow> oauth_options \<Rightarrow> int \<Rightarrow> string \<Rightarrow> oauth_server \<Rightarrow> string option" where
  "verifyAccessToken C opts t tok s =
     (case List.find (\<lambda>x. tk_kind x = Access \<and> tk_hash x = sha256_hex C tok) (oa_tokens s) of
        None \<Rightarrow> None
      | Some stored \<Rightarrow>
          if tk_expires_at stored \<le> t then None
          else if tk_resource stored \<noteq> resource opts then None
          else Some (tk_client_id stored))"

definition oauth_authenticate :: "crypto \<Rightarrow> oauth_options \<Rightarrow> int \<Rightarrow> string option \<Rightarrow> oauth_server \<Rightarrow> auth_decision" where
  "oauth_authenticate C opts t header s =
     (case bearerFromHeader header of
        None \<Rightarrow> Refused ''unauthorized''
      | Some presented \<Rightarrow>
          (case verifyAccessToken C opts t presented s of Some clientId \<Rightarrow> Granted clientId | None \<Rightarrow> Refused ''invalid_token''))"

section \<open>Runs of the server\<close>

text \<open>The requests, with the clock and the random values each of them meets.\<close>

datatype oauth_op =
    Register int string json
  | Authorize int string query
  | Consent int string "string option" "string option" string
  | Token int string string query

text \<open>Beside the server, every consent that was given: the password that was typed in and what it was given for.\<close>

type_synonym oauth_run = "oauth_server \<times> (string \<times> authorize_params) list"

record oauth_env =
  oe_crypto :: crypto
  oe_parse :: "string \<Rightarrow> url_parts option"
  oe_options :: oauth_options

fun oauth_do :: "oauth_env \<Rightarrow> oauth_run \<Rightarrow> oauth_op \<Rightarrow> oauth_run" where
  "oauth_do E (s, g) (Register t fresh body) = (snd (registerClient (oe_parse E) (oe_options E) t fresh body s), g)"
| "oauth_do E (s, g) (Authorize t nonce q) =
     (case validateAuthorizeRequest (oe_options E) q s of Inr (Validated p) \<Rightarrow> (beginConsent t nonce p s, g) | _ \<Rightarrow> (s, g))"
| "oauth_do E (s, g) (Consent t code nonce password key) =
     (case completeConsent (oe_crypto E) (oe_options E) t code nonce password key s of
        (Inl e, s') \<Rightarrow> (s', g)
      | (Inr r, s') \<Rightarrow> (s', g @ [(the password, fst (the (map_of (oa_consents s) (the nonce))))]))"
| "oauth_do E (s, g) (Token t access refresh form) = (snd (token (oe_crypto E) t access refresh form s), g)"

definition oauth_step :: "oauth_env \<Rightarrow> oauth_run \<Rightarrow> oauth_run \<Rightarrow> bool" where
  "oauth_step E x y \<longleftrightarrow> (\<exists>op. y = oauth_do E x op)"

section \<open>What the server keeps to\<close>

text \<open>Where a grant may lead: a consent with the operator's password, for this client, to a redirect address that is allowed.\<close>

definition consented :: "oauth_env \<Rightarrow> (string \<times> authorize_params) list \<Rightarrow> string \<Rightarrow> bool" where
  "consented E g c \<longleftrightarrow> (\<exists>(pw, p)\<in>set g. constantTimeEqual (oe_crypto E) pw (oo_password (oe_options E)) \<and> ap_client_id p = c \<and>
     validateRedirectUri (oe_parse E) (oe_options E) (ap_redirect_uri p))"

definition uris_ok :: "oauth_env \<Rightarrow> oauth_server \<Rightarrow> bool" where
  "uris_ok E s \<longleftrightarrow>
     (\<forall>c\<in>set (oa_clients s). \<forall>u\<in>set (rc_redirect_uris c). validateRedirectUri (oe_parse E) (oe_options E) u) \<and>
     (\<forall>(k, p, e)\<in>set (oa_consents s). validateRedirectUri (oe_parse E) (oe_options E) (ap_redirect_uri p))"

definition grants_ok :: "oauth_env \<Rightarrow> oauth_run \<Rightarrow> bool" where
  "grants_ok E x \<longleftrightarrow>
     (\<forall>tk\<in>set (oa_tokens (fst x)). consented E (snd x) (tk_client_id tk)) \<and>
     (\<forall>(k, c)\<in>set (oa_codes (fst x)). consented E (snd x) (pc_client_id c))"

definition sizes_ok :: "oauth_server \<Rightarrow> bool" where
  "sizes_ok s \<longleftrightarrow> length (oa_clients s) \<le> MAX_CLIENTS \<and> length (oa_tokens s) \<le> MAX_TOKENS \<and> length (oa_consents s) \<le> 200"

lemma persist_parts [simp]:
  "oa_clients (persist t s) = oa_clients s" "oa_codes (persist t s) = oa_codes s" "oa_consents (persist t s) = oa_consents s"
  "length (oa_tokens (persist t s)) \<le> MAX_TOKENS"
  by (simp_all add: persist_def length_keep_last)

lemma persist_tokens: "x \<in> set (oa_tokens (persist t s)) \<Longrightarrow> x \<in> set (oa_tokens s)"
  by (auto simp: persist_def dest: keep_last_incl)

lemma persist_keeps: "length (oa_tokens s) \<le> MAX_TOKENS \<Longrightarrow> oa_tokens (persist t s) = filter (\<lambda>x. tk_expires_at x > t) (oa_tokens s)"
  by (simp add: persist_def keep_last_def order.trans [OF length_filter_le])

lemma getClient_in: "getClient i s = Some c \<Longrightarrow> c \<in> set (oa_clients s) \<and> rc_client_id c = i"
  by (auto simp: getClient_def dest: find_in)

lemma put_in: "m \<in> set (put k v ms) \<Longrightarrow> m \<in> set ms \<or> m = (k, v)"
  by (auto simp: put_def split: if_splits)

text \<open>The outcomes of a registration.\<close>

lemma registerClient_cases:
  assumes "registerClient parse opts t fresh body s = (r, s')"
  obtains (refused) e where "r = Inl e" "s' = s"
  | (admitted) client s1 where "r = Inr client" "s' = persist t (s1\<lparr> oa_clients := oa_clients s1 @ [client] \<rparr>)" "rc_client_id client = fresh"
      "\<forall>u\<in>set (rc_redirect_uris client). validateRedirectUri parse opts u"
      "s1 = s \<and> length (oa_clients s) < MAX_CLIENTS \<or>
       remove_first_client (\<lambda>c. \<not> hasLiveRefreshToken t (rc_client_id c) s) s = Some s1"
  using assms unfolding registerClient_def Let_def
  by (simp split: if_splits option.splits add: list_all_iff) (auto simp: not_le)

lemma remove_first_client_Some:
  assumes "remove_first_client p s = Some s1"
  obtains before gone after where "oa_clients s = before @ gone # after" "p gone" "oa_clients s1 = before @ after"
    "oa_tokens s1 = filter (\<lambda>x. tk_client_id x \<noteq> rc_client_id gone) (oa_tokens s)"
    "oa_codes s1 = oa_codes s" "oa_consents s1 = oa_consents s"
  using assms unfolding remove_first_client_def by (auto simp: extract_Some_iff split: option.splits)

lemma exchange_code_cases:
  assumes "exchange_code C t access refresh client form s = (r, s')"
  obtains (refused) e where "r = Inl e" "oa_clients s' = oa_clients s" "oa_tokens s' = oa_tokens s" "oa_consents s' = oa_consents s"
      "set (oa_codes s') \<subseteq> set (oa_codes s)"
  | (issued) k code s1 where "form ''code'' = Some k" "map_of (oa_codes s) k = Some code" "pc_client_id code = rc_client_id client"
      "t < pc_expires_at code" "constantTimeEqual C (sha256_b64url C (or_empty (form ''code_verifier''))) (pc_code_challenge code)"
      "s1 = s\<lparr> oa_codes := remove_key k (oa_codes s) \<rparr>"
      "r = Inr (access, refresh)" "s' = snd (issueTokens C t access refresh (rc_client_id client) (pc_resource code) (pc_scope code) s1)"
proof -
  have sub: "set (oa_codes (if truthy (form ''code'') then s\<lparr> oa_codes := remove_key (the (form ''code'')) (oa_codes s) \<rparr> else s)) \<subseteq> set (oa_codes s)"
    by (simp add: remove_key_incl(1))
  show thesis
  proof (cases "isl r")
    case True
    then have "s' = (if truthy (form ''code'') then s\<lparr> oa_codes := remove_key (the (form ''code'')) (oa_codes s) \<rparr> else s)"
      using assms by (auto simp: exchange_code_def Let_def issueTokens_def split: option.splits if_splits)
    then show thesis using refused [of "projl r"] True sub by simp
  next
    case False
    then have "truthy (form ''code'')" using assms by (auto simp: exchange_code_def Let_def split: option.splits if_splits)
    then obtain k where k: "form ''code'' = Some k" "k \<noteq> []" by (auto simp: truthy_iff)
    obtain code where code: "map_of (oa_codes s) k = Some code"
      using assms False k by (auto simp: exchange_code_def Let_def split: option.splits)
    show thesis
      by (rule issued [OF k(1) code])
        (use assms False k code in \<open>auto simp: exchange_code_def Let_def issueTokens_def split: if_splits\<close>)
  qed
qed

lemma rotate_refresh_cases:
  assumes "rotate_refresh C t access refresh client form s = (r, s')"
  obtains (refused) e where "r = Inl e" "s' = s"
  | (issued) before stored after where "oa_tokens s = before @ stored # after" "tk_kind stored = Refresh"
      "tk_hash stored = sha256_hex C (or_empty (form ''refresh_token''))" "tk_client_id stored = rc_client_id client" "t < tk_expires_at stored"
      "r = Inr (access, refresh)"
      "s' = snd (issueTokens C t access refresh (rc_client_id client) (tk_resource stored) (tk_scope stored) (s\<lparr> oa_tokens := before @ after \<rparr>))"
proof (cases "isl r")
  case True
  then have "s' = s" using assms by (auto simp: rotate_refresh_def Let_def issueTokens_def split: option.splits if_splits)
  then show thesis using refused [of "projl r"] True by simp
next
  case False
  let ?p = "\<lambda>x. tk_kind x = Refresh \<and> tk_hash x = sha256_hex C (or_empty (form ''refresh_token''))"
  obtain before stored after where x: "List.extract ?p (oa_tokens s) = Some (before, stored, after)"
    using assms False by (auto simp: rotate_refresh_def Let_def split: option.splits)
  then have "oa_tokens s = before @ stored # after" "tk_kind stored = Refresh" "tk_hash stored = sha256_hex C (or_empty (form ''refresh_token''))"
    by (auto simp: extract_Some_iff)
  then show thesis
    by (rule issued) (use assms False x in \<open>auto simp: rotate_refresh_def Let_def issueTokens_def split: if_splits\<close>)
qed

lemma token_cases:
  assumes "token C t access refresh form s = (r, s')"
  obtains (refused) e where "r = Inl e" "s' = s"
  | (code) client where "client \<in> set (oa_clients s)" "form ''grant_type'' = Some ''authorization_code''"
      "exchange_code C t access refresh client form s = (r, s')"
  | (rotation) client where "client \<in> set (oa_clients s)" "form ''grant_type'' = Some ''refresh_token''"
      "rotate_refresh C t access refresh client form s = (r, s')"
  using assms unfolding token_def by (auto dest: getClient_in split: option.splits if_splits)

lemma issueTokens_parts:
  "oa_clients (snd (issueTokens C t a r c res sc s)) = oa_clients s" "oa_codes (snd (issueTokens C t a r c res sc s)) = oa_codes s"
  "oa_consents (snd (issueTokens C t a r c res sc s)) = oa_consents s"
  "length (oa_tokens (snd (issueTokens C t a r c res sc s))) \<le> MAX_TOKENS"
  "x \<in> set (oa_tokens (snd (issueTokens C t a r c res sc s))) \<Longrightarrow>
     x \<in> set (oa_tokens s) \<or> tk_client_id x = c \<and> tk_hash x \<in> {sha256_hex C a, sha256_hex C r}"
  by (auto simp: issueTokens_def dest!: persist_tokens)

text \<open>What a token request can do to the server.\<close>

lemma token_effect:
  assumes "token C t a r form s = (res, s')"
  shows "oa_clients s' = oa_clients s" "oa_consents s' = oa_consents s" "set (oa_codes s') \<subseteq> set (oa_codes s)"
    "length (oa_tokens s) \<le> MAX_TOKENS \<Longrightarrow> length (oa_tokens s') \<le> MAX_TOKENS"
    "x \<in> set (oa_tokens s') \<Longrightarrow> x \<in> set (oa_tokens s) \<or> tk_hash x \<in> {sha256_hex C a, sha256_hex C r} \<and>
       (tk_client_id x \<in> tk_client_id ` set (oa_tokens s) \<or> tk_client_id x \<in> pc_client_id ` snd ` set (oa_codes s))"
proof -
  have "oa_clients s' = oa_clients s \<and> oa_consents s' = oa_consents s \<and> set (oa_codes s') \<subseteq> set (oa_codes s) \<and>
    (length (oa_tokens s) \<le> MAX_TOKENS \<longrightarrow> length (oa_tokens s') \<le> MAX_TOKENS) \<and>
    (x \<in> set (oa_tokens s') \<longrightarrow> x \<in> set (oa_tokens s) \<or> tk_hash x \<in> {sha256_hex C a, sha256_hex C r} \<and>
       (tk_client_id x \<in> tk_client_id ` set (oa_tokens s) \<or> tk_client_id x \<in> pc_client_id ` snd ` set (oa_codes s)))"
    using assms
  proof (cases rule: token_cases)
    case (code client)
    from code(3) show ?thesis
    proof (cases rule: exchange_code_cases)
      case (issued k cd s1)
      have "tk_client_id x \<in> pc_client_id ` snd ` set (oa_codes s)" if "tk_client_id x = rc_client_id client"
        using that issued(2,3) by (force dest: map_of_SomeD)
      then show ?thesis unfolding issued(6,8)
        by (auto simp: issueTokens_parts(1-4) dest!: issueTokens_parts(5) dest: subsetD [OF remove_key_incl(1)])
    qed auto
  next
    case (rotation client)
    from rotation(3) show ?thesis
    proof (cases rule: rotate_refresh_cases)
      case (issued before stored after)
      have "tk_client_id x \<in> tk_client_id ` set (oa_tokens s)" if "tk_client_id x = rc_client_id client"
        using that issued(1,4) by auto
      then show ?thesis unfolding issued(7)
        by (auto simp: issued(1) issueTokens_parts(1-4) dest!: issueTokens_parts(5))
    qed simp
  qed simp
  then show "oa_clients s' = oa_clients s" "oa_consents s' = oa_consents s" "set (oa_codes s') \<subseteq> set (oa_codes s)"
    "length (oa_tokens s) \<le> MAX_TOKENS \<Longrightarrow> length (oa_tokens s') \<le> MAX_TOKENS"
    "x \<in> set (oa_tokens s') \<Longrightarrow> x \<in> set (oa_tokens s) \<or> tk_hash x \<in> {sha256_hex C a, sha256_hex C r} \<and>
       (tk_client_id x \<in> tk_client_id ` set (oa_tokens s) \<or> tk_client_id x \<in> pc_client_id ` snd ` set (oa_codes s))"
    by auto
qed

lemma completeConsent_cases:
  assumes "completeConsent C opts t code nonce password key s = (r, s')"
  shows "oa_clients s' = oa_clients s \<and> oa_tokens s' = oa_tokens s \<and> set (oa_consents s') \<subseteq> set (oa_consents s) \<and>
    length (oa_consents s') \<le> length (oa_consents s) \<and>
    (case r of
       Inl e \<Rightarrow> oa_codes s' = oa_codes s
     | Inr out \<Rightarrow> (\<exists>n pw p e cd. nonce = Some n \<and> password = Some pw \<and> map_of (oa_consents s) n = Some (p, e) \<and>
         constantTimeEqual C pw (oo_password opts) \<and> oa_codes s' = put code cd (oa_codes s) \<and> pc_client_id cd = ap_client_id p \<and>
         pc_code_challenge cd = ap_code_challenge p))"
proof -
  obtain th s1 where l: "loginThrottled t key s = (th, s1)" by fastforce
  then have s1: "oa_clients s1 = oa_clients s" "oa_tokens s1 = oa_tokens s" "oa_consents s1 = oa_consents s" "oa_codes s1 = oa_codes s"
    by (auto simp: loginThrottled_def split: option.splits prod.splits if_splits)
  have len: "length (remove_key k ms) \<le> length ms" for k and ms :: "(string \<times> authorize_params \<times> int) list"
    by (simp add: remove_key_def)
  show ?thesis
  proof (cases r)
    case (Inl e)
    then show ?thesis using assms l s1
      by (auto simp: completeConsent_def Let_def split: if_splits option.splits prod.splits)
  next
    case (Inr out)
    then have ok: "truthy nonce" "truthy password" using assms l
      by (auto simp: completeConsent_def Let_def split: if_splits option.splits prod.splits)
    then obtain n pw where n: "nonce = Some n" "password = Some pw" "n \<noteq> []" "pw \<noteq> []" by (auto simp: truthy_iff)
    obtain p e where p: "map_of (oa_consents s) n = Some (p, e)" using assms l Inr n s1
      by (auto simp: completeConsent_def Let_def split: if_splits option.splits prod.splits)
    show ?thesis using assms l Inr n p s1 len remove_key_incl(1) [of n "oa_consents s"]
      by (auto simp: completeConsent_def Let_def split: if_splits)
  qed
qed

lemma validate_uri:
  assumes "validateAuthorizeRequest opts q s = Inr (Validated p)"
  shows "\<exists>c\<in>set (oa_clients s). rc_client_id c = ap_client_id p \<and> ap_redirect_uri p \<in> set (rc_redirect_uris c)"
  using assms unfolding validateAuthorizeRequest_def Let_def
  by (auto split: option.splits if_splits dest!: getClient_in)

lemma beginConsent_in: "x \<in> set (oa_consents (beginConsent t n p s)) \<Longrightarrow> x \<in> set (oa_consents s) \<or> x = (n, p, t + CONSENT_TTL_MS)"
  by (auto simp: beginConsent_def dest!: keep_last_incl put_in)

lemma oauth_consent_step:
  assumes "completeConsent (oe_crypto E) (oe_options E) t code nonce password key s = (r, s')"
    and "uris_ok E s" "grants_ok E (s, g)" "sizes_ok s"
  shows "uris_ok E s'" "sizes_ok s'" "grants_ok E (s', case r of Inl e \<Rightarrow> g | Inr out \<Rightarrow> g @ [(the password, fst (the (map_of (oa_consents s) (the nonce))))])"
proof -
  note cc = completeConsent_cases [OF assms(1)]
  show "uris_ok E s'" using cc assms(2) unfolding uris_ok_def by auto
  show "sizes_ok s'" using cc assms(4) unfolding sizes_ok_def by auto
  have mono: "consented E g c \<Longrightarrow> consented E (g @ h) c" for c h by (auto simp: consented_def)
  show "grants_ok E (s', case r of Inl e \<Rightarrow> g | Inr out \<Rightarrow> g @ [(the password, fst (the (map_of (oa_consents s) (the nonce))))])"
  proof (cases r)
    case (Inl e)
    then show ?thesis using cc assms(3) by (simp add: grants_ok_def)
  next
    case (Inr out)
    with cc obtain n pw p e cd where x: "nonce = Some n" "password = Some pw" "map_of (oa_consents s) n = Some (p, e)"
      "constantTimeEqual (oe_crypto E) pw (oo_password (oe_options E))" "oa_codes s' = put code cd (oa_codes s)" "pc_client_id cd = ap_client_id p"
      "oa_tokens s' = oa_tokens s" by auto
    have "(n, p, e) \<in> set (oa_consents s)" using x(3) by (rule map_of_SomeD)
    then have "validateRedirectUri (oe_parse E) (oe_options E) (ap_redirect_uri p)" using assms(2) by (auto simp: uris_ok_def)
    then have "consented E (g @ [(pw, p)]) (pc_client_id cd)" using x(4,6) by (auto simp: consented_def)
    then show ?thesis using assms(3) x Inr by (auto simp: grants_ok_def mono dest!: put_in)
  qed
qed

definition oauth_inv :: "oauth_env \<Rightarrow> oauth_run \<Rightarrow> bool" where
  "oauth_inv E x \<longleftrightarrow> uris_ok E (fst x) \<and> grants_ok E x \<and> sizes_ok (fst x)"

lemma register_inv:
  assumes "registerClient (oe_parse E) (oe_options E) t fresh body s = (r, s')" "oauth_inv E (s, g)"
  shows "oauth_inv E (s', g)"
  using assms(1)
proof (cases rule: registerClient_cases)
  case (admitted client s1)
  have one: "set (oa_clients s1) \<subseteq> set (oa_clients s)" "set (oa_tokens s1) \<subseteq> set (oa_tokens s)" "length (oa_clients s1) < MAX_CLIENTS"
    "oa_codes s1 = oa_codes s" "oa_consents s1 = oa_consents s"
    using admitted(5) assms(2) by (auto simp: oauth_inv_def sizes_ok_def elim!: remove_first_client_Some)
  have u: "uris_ok E s'" using assms(2) admitted(4) one by (auto simp: admitted(2) oauth_inv_def uris_ok_def)
  have g: "grants_ok E (s', g)" using assms(2) one by (auto simp: admitted(2) oauth_inv_def grants_ok_def dest!: persist_tokens)
  have z: "sizes_ok s'" using assms(2) one by (simp add: admitted(2) oauth_inv_def sizes_ok_def)
  from u g z show ?thesis by (simp add: oauth_inv_def)
qed (use assms(2) in simp)

lemma authorize_inv:
  assumes "validateAuthorizeRequest (oe_options E) q s = Inr (Validated p)" "oauth_inv E (s, g)"
  shows "oauth_inv E (beginConsent t nonce p s, g)"
proof -
  have parts: "oa_clients (beginConsent t nonce p s) = oa_clients s" "oa_tokens (beginConsent t nonce p s) = oa_tokens s"
    "oa_codes (beginConsent t nonce p s) = oa_codes s" "length (oa_consents (beginConsent t nonce p s)) \<le> 200"
    by (simp_all add: beginConsent_def length_keep_last)
  have "validateRedirectUri (oe_parse E) (oe_options E) (ap_redirect_uri p)"
    using validate_uri [OF assms(1)] assms(2) by (auto simp: oauth_inv_def uris_ok_def)
  then have "uris_ok E (beginConsent t nonce p s)"
    using assms(2) parts by (auto simp: oauth_inv_def uris_ok_def dest!: beginConsent_in)
  then show ?thesis using assms(2) parts by (simp add: oauth_inv_def grants_ok_def sizes_ok_def)
qed

lemma token_inv:
  assumes "token (oe_crypto E) t a r form s = (res, s')" "oauth_inv E (s, g)"
  shows "oauth_inv E (s', g)"
proof -
  note te = token_effect [OF assms(1)]
  have "consented E g (tk_client_id x)" if "x \<in> set (oa_tokens s')" for x
    using te(5) [OF that] assms(2) by (force simp: oauth_inv_def grants_ok_def)
  moreover have "consented E g (pc_client_id c)" if "(k, c) \<in> set (oa_codes s')" for k c
    using te(3) that assms(2) by (force simp: oauth_inv_def grants_ok_def)
  ultimately show ?thesis using te(1,2,4) assms(2) by (auto simp: oauth_inv_def uris_ok_def grants_ok_def sizes_ok_def)
qed

lemma oauth_inv_do:
  assumes "oauth_inv E (s, g)"
  shows "oauth_inv E (oauth_do E (s, g) x)"
proof (cases x)
  case (Register t fresh body)
  then show ?thesis using register_inv [OF _ assms] by (cases "registerClient (oe_parse E) (oe_options E) t fresh body s") simp
next
  case (Authorize t nonce q)
  then show ?thesis using authorize_inv assms by (auto split: sum.splits authorize_outcome.splits)
next
  case (Consent t code nonce password key)
  obtain r s' where c: "completeConsent (oe_crypto E) (oe_options E) t code nonce password key s = (r, s')" by fastforce
  from oauth_consent_step [OF c, of g] assms show ?thesis by (cases r) (simp_all add: oauth_inv_def Consent c)
next
  case (Token t a r form)
  then show ?thesis using token_inv [OF _ assms] by (cases "token (oe_crypto E) t a r form s") simp
qed

definition new_server :: oauth_server where
  "new_server = \<lparr> oa_clients = [], oa_tokens = [], oa_codes = [], oa_consents = [], oa_loginFailures = [] \<rparr>"

interpretation oauth: stepping "(new_server, [])" "oauth_step E" "oauth_inv E" for E
proof unfold_locales
  show "oauth_inv E (new_server, [])" by (simp add: oauth_inv_def new_server_def uris_ok_def grants_ok_def sizes_ok_def)
  show "oauth_inv E t" if "oauth_inv E s" "oauth_step E s t" for s t
    using that oauth_inv_do [of E "fst s" "snd s"] by (auto simp: oauth_step_def)
qed

section \<open>Claims\<close>

text \<open>
  C10: Whatever requests come in, from an empty registry on, a bearer token opens the MCP endpoint for a client only if somebody
  typed the operator's password (a text with its digest) into the consent page for that very client, and the code of
  that consent was sent to an address that registration allows: https or loopback, and on the list of hosts if there
  is one.
\<close>

theorem access_needs_consent:
  assumes "reach (new_server, []) (oauth_step E) (s, g)" "oauth_authenticate (oe_crypto E) (oe_options E) t header s = Granted c"
  shows "\<exists>(pw, p)\<in>set g. sha256_hex (oe_crypto E) pw = sha256_hex (oe_crypto E) (oo_password (oe_options E)) \<and> ap_client_id p = c \<and>
    validateRedirectUri (oe_parse E) (oe_options E) (ap_redirect_uri p)"
proof -
  have inv: "oauth_inv E (s, g)" by (rule oauth.inv_reach [OF assms(1)])
  from assms(2) obtain tok where "verifyAccessToken (oe_crypto E) (oe_options E) t tok s = Some c"
    by (auto simp: oauth_authenticate_def split: option.splits)
  then obtain x where "x \<in> set (oa_tokens s)" "tk_client_id x = c"
    by (auto simp: verifyAccessToken_def split: option.splits if_splits dest: find_in)
  then have "consented E g c" using inv by (auto simp: oauth_inv_def grants_ok_def)
  then show ?thesis by (simp add: consented_def constantTimeEqual_def)
qed

text \<open>
  At every moment there are at most 32 clients, 200 tokens and 200 consents under way, however many registrations and
  authorization requests arrive; none of these needs a password.
\<close>

theorem oauth_state_bounded:
  assumes "reach (new_server, []) (oauth_step E) (s, g)"
  shows "length (oa_clients s) \<le> 32 \<and> length (oa_tokens s) \<le> 200 \<and> length (oa_consents s) \<le> 200"
  using oauth.inv_reach [OF assms] by (simp add: oauth_inv_def sizes_ok_def MAX_CLIENTS_def MAX_TOKENS_def)

text \<open>
  Registration is open to everybody, and never costs an established client its place: a client with a live refresh
  token is still registered after any registration, with every unexpired token it had.
\<close>

theorem established_client_kept:
  assumes "reach (new_server, []) (oauth_step E) (s, g)" "c \<in> set (oa_clients s)" "hasLiveRefreshToken t (rc_client_id c) s"
    and "registerClient (oe_parse E) (oe_options E) t fresh body s = (r, s')"
  shows "c \<in> set (oa_clients s') \<and> hasLiveRefreshToken t (rc_client_id c) s' \<and>
    filter (\<lambda>x. tk_client_id x = rc_client_id c \<and> tk_expires_at x > t) (oa_tokens s') =
    filter (\<lambda>x. tk_client_id x = rc_client_id c \<and> tk_expires_at x > t) (oa_tokens s)"
  using assms(4)
proof (cases rule: registerClient_cases)
  case (admitted client s1)
  have le: "length (oa_tokens s) \<le> MAX_TOKENS" using oauth.inv_reach [OF assms(1)] by (simp add: oauth_inv_def sizes_ok_def)
  let ?own = "\<lambda>x. tk_client_id x = rc_client_id c \<and> tk_expires_at x > t"
  have "c \<in> set (oa_clients s1) \<and> length (oa_tokens s1) \<le> MAX_TOKENS \<and> filter ?own (oa_tokens s1) = filter ?own (oa_tokens s)"
    using admitted(5)
  proof
    assume "remove_first_client (\<lambda>c. \<not> hasLiveRefreshToken t (rc_client_id c) s) s = Some s1"
    then show ?thesis
    proof (rule remove_first_client_Some)
      fix before gone after
      assume x: "oa_clients s = before @ gone # after" "\<not> hasLiveRefreshToken t (rc_client_id gone) s" "oa_clients s1 = before @ after"
        "oa_tokens s1 = filter (\<lambda>x. tk_client_id x \<noteq> rc_client_id gone) (oa_tokens s)"
      then have "rc_client_id gone \<noteq> rc_client_id c" using assms(3) by auto
      then show ?thesis using x assms(2) le by (auto intro: order.trans [OF length_filter_le] filter_cong)
    qed
  qed (use assms(2) le in simp)
  moreover from this have "oa_tokens s' = filter (\<lambda>x. tk_expires_at x > t) (oa_tokens s1)" by (simp add: admitted(2) persist_keeps)
  ultimately have t: "c \<in> set (oa_clients s')" "filter ?own (oa_tokens s') = filter ?own (oa_tokens s)"
    by (auto simp: admitted(2) conj_ac intro: filter_cong)
  have live: "hasLiveRefreshToken t (rc_client_id c) q \<longleftrightarrow> list_ex (\<lambda>x. tk_kind x = Refresh) (filter ?own (oa_tokens q))" for q
    by (auto simp: hasLiveRefreshToken_def list_ex_iff)
  show ?thesis using t assms(3) unfolding live by simp
qed (use assms in simp)

text \<open>What must not be drawn again for a spent grant to stay spent: its code, or a token with the digest of its refresh token.\<close>

fun draws_again :: "oauth_env \<Rightarrow> query \<Rightarrow> oauth_op \<Rightarrow> bool" where
  "draws_again E form (Consent t code nonce password key) \<longleftrightarrow> form ''code'' = Some code"
| "draws_again E form (Token t a r f) \<longleftrightarrow>
     sha256_hex (oe_crypto E) (or_empty (form ''refresh_token'')) \<in> {sha256_hex (oe_crypto E) a, sha256_hex (oe_crypto E) r}"
| "draws_again E form _ \<longleftrightarrow> False"

definition spent :: "oauth_env \<Rightarrow> query \<Rightarrow> oauth_server \<Rightarrow> bool" where
  "spent E form s \<longleftrightarrow>
     (form ''grant_type'' = Some ''authorization_code'' \<longrightarrow> (\<forall>k. form ''code'' = Some k \<longrightarrow> map_of (oa_codes s) k = None)) \<and>
     (form ''grant_type'' = Some ''refresh_token'' \<longrightarrow>
        (\<forall>x\<in>set (oa_tokens s). tk_kind x = Refresh \<longrightarrow> tk_hash x \<noteq> sha256_hex (oe_crypto E) (or_empty (form ''refresh_token''))))"

lemma spent_shrinks:
  assumes "spent E form s" "set (oa_codes s') \<subseteq> set (oa_codes s)"
    and "\<And>x. x \<in> set (oa_tokens s') \<Longrightarrow> x \<in> set (oa_tokens s) \<or> tk_hash x \<noteq> sha256_hex (oe_crypto E) (or_empty (form ''refresh_token''))"
  shows "spent E form s'"
proof -
  have "map_of (oa_codes s') k = None" if "map_of (oa_codes s) k = None" for k
    using that assms(2) by (force simp: map_of_eq_None_iff)
  then show ?thesis using assms(1,3) unfolding spent_def by blast
qed

lemma spent_do:
  assumes "spent E form s" "\<not> draws_again E form x"
  shows "spent E form (fst (oauth_do E (s, g) x))"
proof (cases x)
  case (Register t fresh body)
  obtain r s' where r: "registerClient (oe_parse E) (oe_options E) t fresh body s = (r, s')" by fastforce
  then have "set (oa_codes s') \<subseteq> set (oa_codes s) \<and> set (oa_tokens s') \<subseteq> set (oa_tokens s)"
    by (cases rule: registerClient_cases) (auto elim!: remove_first_client_Some dest!: persist_tokens)
  then show ?thesis using assms(1) r by (auto simp: Register intro: spent_shrinks)
next
  case (Authorize t nonce q)
  have "spent E form (beginConsent t nonce p s)" for p
    using assms(1) by (rule spent_shrinks) (simp_all add: beginConsent_def)
  then show ?thesis using assms(1) by (auto simp: Authorize split: sum.splits authorize_outcome.splits)
next
  case (Consent t code nonce password key)
  obtain r s' where r: "completeConsent (oe_crypto E) (oe_options E) t code nonce password key s = (r, s')" by fastforce
  have "spent E form s'" using completeConsent_cases [OF r] assms by (cases r) (auto simp: spent_def Consent)
  then show ?thesis using r by (cases r) (simp_all add: Consent)
next
  case (Token t a r f)
  obtain res s' where r: "token (oe_crypto E) t a r f s = (res, s')" by fastforce
  note te = token_effect [OF r]
  have "spent E form s'" using assms(1) te(3) by (rule spent_shrinks) (use te(5) assms(2) Token in fastforce)
  then show ?thesis using r by (simp add: Token)
qed

lemma spent_run: "spent E form s \<Longrightarrow> \<forall>x\<in>set ops. \<not> draws_again E form x \<Longrightarrow> spent E form (fst (foldl (oauth_do E) (s, g) ops))"
proof (induction ops arbitrary: s g)
  case (Cons x ops)
  obtain s' g' where d: "oauth_do E (s, g) x = (s', g')" by fastforce
  with spent_do [OF Cons.prems(1), of x g] Cons.prems(2) have "spent E form s'" by simp
  with Cons d show ?case by simp
qed simp

lemma spent_refused:
  assumes "spent E form s" "form2 ''grant_type'' = form ''grant_type''" "form2 ''code'' = form ''code''"
    "form2 ''refresh_token'' = form ''refresh_token''"
  shows "isl (fst (token (oe_crypto E) t a r form2 s))"
proof -
  obtain res s' where r: "token (oe_crypto E) t a r form2 s = (res, s')" by fastforce
  then have "isl res"
  proof (cases rule: token_cases)
    case (code client)
    from code(3) show ?thesis by (cases rule: exchange_code_cases) (use assms code(2) in \<open>auto simp: spent_def\<close>)
  next
    case (rotation client)
    from rotation(3) show ?thesis by (cases rule: rotate_refresh_cases) (use assms rotation(2) in \<open>auto simp: spent_def\<close>)
  qed simp
  with r show ?thesis by simp
qed

lemma token_spends:
  assumes "token (oe_crypto E) t a r form s = (Inr out, s')" "\<not> draws_again E form (Token t a r form)"
    and "distinct (map tk_hash (filter (\<lambda>x. tk_kind x = Refresh) (oa_tokens s)))"
  shows "spent E form s'"
  using assms(1)
proof (cases rule: token_cases)
  case (code client)
  from code(3) show ?thesis
    by (cases rule: exchange_code_cases) (use code(2) in \<open>auto simp: spent_def issueTokens_parts(2)\<close>)
next
  case (rotation client)
  from rotation(3) show ?thesis
  proof (cases rule: rotate_refresh_cases)
    case (issued before stored after)
    have "tk_hash x \<noteq> tk_hash stored" if "x \<in> set before \<union> set after" "tk_kind x = Refresh" for x
      using assms(3) that unfolding issued(1) using issued(2) by (auto simp: image_iff)
    then have "tk_hash x \<noteq> tk_hash stored" if "x \<in> set (oa_tokens s')" "tk_kind x = Refresh" for x
      using that assms(2) issued(3) unfolding issued(7) by (auto dest!: issueTokens_parts(5))
    then show ?thesis using rotation(2) issued(3) by (simp add: spent_def)
  qed simp
qed simp

text \<open>
  A grant is good once.  After a token request succeeded, with a code or with a refresh token, every later request with the
  same code or the same refresh token is refused, whatever happened in between, unless a random draw gives the same value
  again.  A code is only taken with a verifier whose digest is the challenge that was consented to, before it
  expires.
\<close>

theorem grant_good_once:
  assumes "token (oe_crypto E) t a r form s = (Inr out, s')" "\<not> draws_again E form (Token t a r form)"
    and "distinct (map tk_hash (filter (\<lambda>x. tk_kind x = Refresh) (oa_tokens s)))" "\<forall>x\<in>set ops. \<not> draws_again E form x"
    and "form2 ''grant_type'' = form ''grant_type''" "form2 ''code'' = form ''code''" "form2 ''refresh_token'' = form ''refresh_token''"
  shows "(\<exists>e. fst (token (oe_crypto E) t2 a2 r2 form2 (fst (foldl (oauth_do E) (s', g) ops))) = Inl e) \<and>
    (form ''grant_type'' = Some ''authorization_code'' \<longrightarrow>
       (\<exists>k cd. form ''code'' = Some k \<and> map_of (oa_codes s) k = Some cd \<and> t < pc_expires_at cd \<and>
          constantTimeEqual (oe_crypto E) (sha256_b64url (oe_crypto E) (or_empty (form ''code_verifier''))) (pc_code_challenge cd)))"
proof
  have "isl (fst (token (oe_crypto E) t2 a2 r2 form2 (fst (foldl (oauth_do E) (s', g) ops))))"
    by (rule spent_refused [OF spent_run [OF token_spends [OF assms(1-3)] assms(4)] assms(5-7)])
  then show "\<exists>e. fst (token (oe_crypto E) t2 a2 r2 form2 (fst (foldl (oauth_do E) (s', g) ops))) = Inl e" by (metis isl_def)
  show "form ''grant_type'' = Some ''authorization_code'' \<longrightarrow>
       (\<exists>k cd. form ''code'' = Some k \<and> map_of (oa_codes s) k = Some cd \<and> t < pc_expires_at cd \<and>
          constantTimeEqual (oe_crypto E) (sha256_b64url (oe_crypto E) (or_empty (form ''code_verifier''))) (pc_code_challenge cd))"
    using assms(1)
  proof (cases rule: token_cases)
    case (code client)
    from code(3) show ?thesis by (cases rule: exchange_code_cases) auto
  qed auto
qed

section \<open>A client that connects\<close>

definition sample_oauth :: oauth_env where
  "sample_oauth = \<lparr> oe_crypto = sample_crypto,
     oe_parse = (\<lambda>u. Some \<lparr> ur_protocol = ''https:'', ur_hostname = ''c.example'', ur_host = ''c.example'', ur_hash = [] \<rparr>),
     oe_options = \<lparr> oo_publicUrl = ''https://e'', oo_mcpPath = ''/mcp'', oo_password = ''pw'', oo_allowedRedirectHosts = [] \<rparr> \<rparr>"

definition sample_challenge :: string where
  "sample_challenge = replicate 43 CHR ''a''"

definition sample_query :: query where
  "sample_query = map_of [(''client_id'', ''cl''), (''response_type'', ''code''), (''code_challenge'', sample_challenge), (''code_challenge_method'', ''S256'')]"

definition sample_form :: query where
  "sample_form = map_of [(''grant_type'', ''authorization_code''), (''client_id'', ''cl''), (''code'', ''ac''), (''code_verifier'', sample_challenge)]"

definition sample_ops :: "oauth_op list" where
  "sample_ops = [Register 0 ''cl'' (JObj [(''redirect_uris'', JArr [JStr ''https://c.example/cb''])]), Authorize 1 ''n'' sample_query,
     Consent 2 ''ac'' (Some ''n'') (Some ''pw'') ''ip'', Token 3 ''at'' ''rt'' sample_form]"

definition sample_run :: "nat \<Rightarrow> oauth_run" where
  "sample_run n = foldl (oauth_do sample_oauth) (new_server, []) (take n sample_ops)"

lemma reach_foldl: "reach (new_server, []) (oauth_step E) (foldl (oauth_do E) (new_server, []) ops)"
proof (induction ops rule: rev_induct)
  case (snoc x ops)
  have "oauth_step E (foldl (oauth_do E) (new_server, []) ops) (foldl (oauth_do E) (new_server, []) (ops @ [x]))"
    by (auto simp: oauth_step_def)
  with snoc show ?case by (rule reach_step)
qed (simp add: reach_start)

lemma sample_reach: "reach (new_server, []) (oauth_step sample_oauth) (fst (sample_run n), snd (sample_run n))"
  using reach_foldl by (simp add: sample_run_def)

theorem access_needs_consent_witness:
  "(\<exists>(pw, p)\<in>set (snd (sample_run 4)). pw = ''pw'' \<and> ap_client_id p = ''cl'')"
proof -
  have "oauth_authenticate (oe_crypto sample_oauth) (oe_options sample_oauth) 4 (Some ''Bearer at'') (fst (sample_run 4)) = Granted ''cl''"
    by code_simp
  from access_needs_consent [OF sample_reach this] show ?thesis by (auto simp: sample_oauth_def sample_crypto_def)
qed

theorem oauth_state_bounded_witness: "length (oa_tokens (fst (sample_run 4))) \<le> 200"
  using oauth_state_bounded [OF sample_reach [of 4]] by simp

theorem established_client_kept_witness:
  "''cl'' \<in> rc_client_id ` set (oa_clients (snd (registerClient (oe_parse sample_oauth) (oe_options sample_oauth) 5 ''cl2''
     (JObj [(''redirect_uris'', JArr [JStr ''https://c.example/cb''])]) (fst (sample_run 4)))))"
proof -
  let ?r = "registerClient (oe_parse sample_oauth) (oe_options sample_oauth) 5 ''cl2'' (JObj [(''redirect_uris'', JArr [JStr ''https://c.example/cb''])]) (fst (sample_run 4))"
  have "map rc_client_id (oa_clients (fst (sample_run 4))) = [''cl'']" by code_simp
  then obtain c where c: "c \<in> set (oa_clients (fst (sample_run 4)))" "rc_client_id c = ''cl''" by (auto simp: map_eq_Cons_conv)
  have "hasLiveRefreshToken 5 ''cl'' (fst (sample_run 4))" by code_simp
  then have "c \<in> set (oa_clients (snd ?r))"
    using established_client_kept [OF sample_reach c(1), of 5 "''cl2''" _ "fst ?r" "snd ?r"] c(2) by simp
  with c(2) show ?thesis by force
qed

theorem grant_good_once_witness:
  "\<exists>e. fst (token sample_crypto 9 ''at3'' ''rt3'' sample_form (fst (sample_run 4))) = Inl e"
proof -
  have ok: "fst (token (oe_crypto sample_oauth) 3 ''at'' ''rt'' sample_form (fst (sample_run 3))) = Inr (''at'', ''rt'')" by code_simp
  have s: "snd (token (oe_crypto sample_oauth) 3 ''at'' ''rt'' sample_form (fst (sample_run 3))) = fst (sample_run 4)"
    by (cases "sample_run 3") (simp add: sample_run_def sample_ops_def)
  have t: "oa_tokens (fst (sample_run 3)) = []" by code_simp
  have "token (oe_crypto sample_oauth) 3 ''at'' ''rt'' sample_form (fst (sample_run 3)) = (Inr (''at'', ''rt''), fst (sample_run 4))"
    using ok s by (simp add: prod_eq_iff)
  from grant_good_once [OF this, of "[]" sample_form] t show ?thesis
    by (simp add: sample_oauth_def sample_crypto_def sample_form_def or_empty_def)
qed

section \<open>The client key\<close>

lemma js_split_two: "js_split d (u @ d # w) = js_split d u @ js_split d w"
proof (induction u)
  case (Cons c u)
  obtain p ps where "js_split d u = p # ps" by (cases "js_split d u") auto
  with Cons show ?case by simp
qed simp

lemma js_trim_space: "js_trim (CHR '' '' # v) = js_trim v"
  by (simp add: js_trim_def is_space_def)

lemma appended_parts:
  assumes "\<forall>e\<in>set es. e \<noteq> [] \<and> CHR '','' \<notin> set e \<and> js_trim e = e"
  shows "forwarded_parts [v @ concat (map (\<lambda>e. '', '' @ e) es)] = forwarded_parts [v] @ es"
  using assms
proof (induction es rule: rev_induct)
  case (snoc e es)
  have "js_split CHR '','' (CHR '' '' # e) = [CHR '' '' # e]" using snoc.prems by (intro js_split_plain) auto
  then have "forwarded_parts [(v @ concat (map (\<lambda>e. '', '' @ e) es)) @ CHR '','' # (CHR '' '' # e)]
      = forwarded_parts [v @ concat (map (\<lambda>e. '', '' @ e) es)] @ [e]"
    using snoc.prems unfolding forwarded_parts_def by (simp only: join_with.simps js_split_two) (simp add: js_trim_space)
  with snoc show ?case by simp
qed simp

text \<open>
  Behind trusted proxies the client cannot choose the address it is counted under.  When as many proxies as configured each
  append the address of their peer to \<^verbatim>\<open>X-Forwarded-For\<close>, the key is what the first of them appended, whatever the
  header held when it came in from the client.
\<close>

theorem client_key_not_spoofed:
  assumes "es \<noteq> []" "\<forall>e\<in>set es. e \<noteq> [] \<and> CHR '','' \<notin> set e \<and> js_trim e = e"
  shows "clientKey [v @ concat (map (\<lambda>e. '', '' @ e) es)] addr True (int (length es)) = hd es"
proof -
  have "int (length es) \<ge> 1" using assms(1) by (cases es) simp_all
  then show ?thesis using assms(1) unfolding clientKey_def Let_def appended_parts [OF assms(2)] by (simp add: hd_conv_nth nth_append)
qed

theorem client_key_not_spoofed_witness: "clientKey [''1.1.1.1, 9.9.9.9''] None True 1 = ''9.9.9.9''"
proof -
  have "js_trim ''9.9.9.9'' = ''9.9.9.9''" by code_simp
  then show ?thesis using client_key_not_spoofed [of "[''9.9.9.9'']" "''1.1.1.1''" None] by simp
qed

end
