(* ===== verification/Stash.thy ===== *)
theory Stash
  imports Trust_Root
begin

text \<open>
  Work the OpenClaw plugin has acknowledged but not yet handed to a turn, \<^verbatim>\<open>packages/openclaw-plugin/src/autoreply.ts\<close>: messages
  held back because another agent has the floor of their conversation, each with the verdict that was
  computed for it.  A message is the JSON value that came from the relay.  Members that the wire format declares as texts are
  texts or absent.  A message that is nested too deeply to be serialized is uncomparable: it gets a random token in place
  of its digest, one for each value here where the code draws one for each object, so that nothing here tells two copies of one uncomparable
  message apart.  A \<^verbatim>\<open>Map\<close> is the list of its entries in insertion order.
\<close>

section \<open>The identity of a message\<close>

definition wire_text :: "json \<Rightarrow> string \<Rightarrow> string option" where
  "wire_text m k = (case json_get m k of Some (JStr v) \<Rightarrow> Some v | _ \<Rightarrow> None)"

definition message_id :: "json \<Rightarrow> string" where
  "message_id m = or_empty (wire_text m ''message_id'')"

text \<open>The id as a property name: undefined is a name too.\<close>

definition id_key :: "json \<Rightarrow> string" where
  "id_key m = (case wire_text m ''message_id'' of Some i \<Rightarrow> i | None \<Rightarrow> ''undefined'')"

definition conversation_id :: "json \<Rightarrow> string" where
  "conversation_id m = or_empty (wire_text m ''conversation_id'')"

definition UNCOMPARABLE_PREFIX :: string where
  "UNCOMPARABLE_PREFIX = ''uncomparable:''"

definition materialDigest :: "crypto \<Rightarrow> json \<Rightarrow> string" where
  "materialDigest C m =
     (case uncomparable_token C m of None \<Rightarrow> sha256_hex C (canonicalize m) | Some token \<Rightarrow> UNCOMPARABLE_PREFIX @ token)"

text \<open>\<^verbatim>\<open>digest.startsWith(UNCOMPARABLE_PREFIX)\<close>.\<close>

definition uncomparable :: "string \<Rightarrow> bool" where
  "uncomparable digest \<longleftrightarrow> take (length UNCOMPARABLE_PREFIX) digest = UNCOMPARABLE_PREFIX"

definition heldKey :: "crypto \<Rightarrow> json \<Rightarrow> string" where
  "heldKey C m = materialDigest C m @ CHR 0x00 # message_id m"

definition heldKeyId :: "string \<Rightarrow> string" where
  "heldKeyId key = drop 1 (dropWhile (\<lambda>c. c \<noteq> CHR 0x00) key)"

definition sameSignedMaterial :: "crypto \<Rightarrow> json \<Rightarrow> json \<Rightarrow> bool" where
  "sameSignedMaterial C a b \<longleftrightarrow> \<not> uncomparable (materialDigest C a) \<and> materialDigest C a = materialDigest C b"

type_synonym verdicts = "(string \<times> verify_result option) list"

text \<open>A verdict bound to the message itself comes first, one bound to its id second.\<close>

definition verdictFor :: "crypto \<Rightarrow> verdicts option \<Rightarrow> json \<Rightarrow> verify_result option" where
  "verdictFor C verifications m =
     (case verifications of
        None \<Rightarrow> None
      | Some vs \<Rightarrow>
          (case map_of vs (heldKey C m) of
             Some v \<Rightarrow> v
           | None \<Rightarrow> (case map_of vs (id_key m) of Some v \<Rightarrow> v | None \<Rightarrow> None)))"

text \<open>An id that two different messages of the batch claim has no verdict.\<close>

definition claimed_twice :: "crypto \<Rightarrow> json list \<Rightarrow> string \<Rightarrow> bool" where
  "claimed_twice C ms i \<longleftrightarrow> 1 < length (remdups (filter (\<lambda>k. heldKeyId k = i) (map (heldKey C) ms)))"

definition batchVerdictsByHeldKey :: "crypto \<Rightarrow> json list \<Rightarrow> verdicts \<Rightarrow> verdicts" where
  "batchVerdictsByHeldKey C ms vs =
     foldl (\<lambda>out m.
         put (heldKey C m)
           (if claimed_twice C ms (heldKeyId (heldKey C m)) then None
            else (case map_of vs (id_key m) of Some v \<Rightarrow> v | None \<Rightarrow> None)) out)
       [] ms"

section \<open>Stashes\<close>

definition DEFERRED_CONVERSATION_CAP :: nat where
  "DEFERRED_CONVERSATION_CAP = 50"

definition DEFERRED_MESSAGES_PER_CONV :: nat where
  "DEFERRED_MESSAGES_PER_CONV = 10"

text \<open>The length of a turn in seconds is read from the environment, 900 by default.\<close>

definition FLOOR_TTL_SECONDS :: "int \<Rightarrow> int" where
  "FLOOR_TTL_SECONDS turnTimeout = turnTimeout + 60"

definition DEFERRED_GRACE_SECONDS :: int where
  "DEFERRED_GRACE_SECONDS = 120"

definition DEFERRED_RETRY_TTL_MS :: "int \<Rightarrow> int" where
  "DEFERRED_RETRY_TTL_MS turnTimeout = (FLOOR_TTL_SECONDS turnTimeout + DEFERRED_GRACE_SECONDS) * 1000"

record stash_entry =
  se_message :: json
  se_verification :: "verify_result option"
  se_generation :: "string option"

record stash =
  ds_entries :: "stash_entry list"
  ds_firstDeferredAtMs :: int

definition stash_messages :: "stash \<Rightarrow> json list" where
  "stash_messages s = map se_message (ds_entries s)"

type_synonym stashes = "(string \<times> stash) list"

text \<open>A passing verdict holds only under the generation of trust it was computed in.\<close>

definition entryVerdict :: "string option \<Rightarrow> stash_entry \<Rightarrow> verify_result option" where
  "entryVerdict generation e =
     (case se_verification e of
        Some v \<Rightarrow> if vr_verified v \<and> (se_generation e = None \<or> se_generation e \<noteq> generation) then None else Some v
      | None \<Rightarrow> None)"

definition stashVerdicts :: "crypto \<Rightarrow> string option \<Rightarrow> stash \<Rightarrow> verdicts" where
  "stashVerdicts C generation s = foldl (\<lambda>out e. put (heldKey C (se_message e)) (entryVerdict generation e) out) [] (ds_entries s)"

datatype drop_reason = Overflow_per_conv | Evicted_cap | Expired_spawn_failed | Retry_spawn_failed | Loop_stopped | Inflight_stopped

record deferred_drop =
  dd_conversationId :: string
  dd_messages :: "json list"
  dd_reason :: drop_reason

definition stash_incoming ::
  "crypto \<Rightarrow> verdicts \<Rightarrow> string option \<Rightarrow> (string \<times> stash_entry) list \<Rightarrow> json \<Rightarrow> (string \<times> stash_entry) list" where
  "stash_incoming C verifications generation byKey m =
     (let key = heldKey C m; v = verdictFor C (Some verifications) m in
      put key
        (case (v, map_of byKey key) of
           (None, Some prior) \<Rightarrow> \<lparr> se_message = m, se_verification = se_verification prior, se_generation = se_generation prior \<rparr>
         | _ \<Rightarrow> \<lparr> se_message = m, se_verification = v, se_generation = generation \<rparr>) byKey)"

text \<open>The stash of one conversation with the messages that come in, oldest first.\<close>

definition stash_ordered ::
  "crypto \<Rightarrow> stash option \<Rightarrow> json list \<Rightarrow> verdicts \<Rightarrow> string option \<Rightarrow> stash_entry list" where
  "stash_ordered C existing ms verifications generation =
     map snd (foldl (stash_incoming C verifications generation)
       (foldl (\<lambda>byKey e. put (heldKey C (se_message e)) e byKey) [] (case existing of None \<Rightarrow> [] | Some s \<Rightarrow> ds_entries s)) ms)"

definition stashDeferred ::
  "crypto \<Rightarrow> string \<Rightarrow> json list \<Rightarrow> verdicts \<Rightarrow> int \<Rightarrow> string option \<Rightarrow> stashes \<Rightarrow> deferred_drop list \<times> stashes" where
  "stashDeferred C conv ms verifications nowMs generation st =
     (let existing = map_of st conv;
          ordered = stash_ordered C existing ms verifications generation;
          merged = keep_last DEFERRED_MESSAGES_PER_CONV ordered;
          overflowed = map se_message (take (length ordered - length merged) ordered);
          st1 = remove_key conv st @ [(conv, \<lparr> ds_entries = merged,
             ds_firstDeferredAtMs = (case existing of Some s \<Rightarrow> ds_firstDeferredAtMs s | None \<Rightarrow> nowMs) \<rparr>)];
          evicted = take (length st1 - DEFERRED_CONVERSATION_CAP) st1
      in ((if overflowed = [] then [] else [\<lparr> dd_conversationId = conv, dd_messages = overflowed, dd_reason = Overflow_per_conv \<rparr>])
           @ map (\<lambda>(c, s). \<lparr> dd_conversationId = c, dd_messages = stash_messages s, dd_reason = Evicted_cap \<rparr>) evicted,
          keep_last DEFERRED_CONVERSATION_CAP st1))"

definition expired :: "int \<Rightarrow> int \<Rightarrow> stash \<Rightarrow> bool" where
  "expired ttl nowMs s \<longleftrightarrow> nowMs - ds_firstDeferredAtMs s > ttl"

text \<open>Sorting is stable, as \<^verbatim>\<open>Array.prototype.sort\<close> is.\<close>

definition listRetryableDeferred :: "int \<Rightarrow> int \<Rightarrow> stashes \<Rightarrow> string list" where
  "listRetryableDeferred ttl nowMs st =
     map fst (sort_key (\<lambda>(c, s). ds_firstDeferredAtMs s) (filter (\<lambda>(c, s). \<not> expired ttl nowMs s) st))"

definition takeExpiredDeferred :: "int \<Rightarrow> int \<Rightarrow> nat option \<Rightarrow> stashes \<Rightarrow> stashes \<times> stashes" where
  "takeExpiredDeferred ttl nowMs limit st =
     (let exp = sort_key (\<lambda>(c, s). ds_firstDeferredAtMs s) (filter (\<lambda>(c, s). expired ttl nowMs s) st);
          taken = (case limit of None \<Rightarrow> exp | Some n \<Rightarrow> take n exp)
      in (taken, filter (\<lambda>(c, s). c \<notin> fst ` set taken) st))"

definition clearDeferred :: "string \<Rightarrow> stashes \<Rightarrow> stashes" where
  "clearDeferred conv st = remove_key conv st"

section \<open>A turn takes the stashes of its conversations along\<close>

record turn_context =
  tc_conversationId :: string
  tc_heldMs :: int
  tc_overrun :: bool
  tc_merged :: bool
  tc_heldMessageIds :: "string list"
  tc_heldKeys :: "string list"
  tc_deferredConversations :: "(string \<times> int) list"

record covered_stashes =
  cs_messages :: "json list"
  cs_verifications :: verdicts
  cs_coveredConversationIds :: "string list"
  cs_deferred :: "turn_context option"

text \<open>The distinct values in the order of their first occurrence, as a \<^verbatim>\<open>Set\<close> iterates.\<close>

definition first_seen :: "'a list \<Rightarrow> 'a list" where
  "first_seen xs = rev (remdups (rev xs))"

definition covered_by :: "json list \<Rightarrow> stashes \<Rightarrow> stashes" where
  "covered_by floored st =
     sort_key (\<lambda>(c, s). ds_firstDeferredAtMs s)
       (concat (map (\<lambda>c. case map_of st c of Some s \<Rightarrow> if stash_messages s = [] then [] else [(c, s)] | None \<Rightarrow> [])
          (first_seen (map conversation_id floored))))"

text \<open>What is put together: the messages, their verdicts by key, and the keys so far.\<close>

type_synonym merge_state = "json list \<times> verdicts \<times> string list"

definition merge_held ::
  "crypto \<Rightarrow> json list \<Rightarrow> verdicts \<Rightarrow> string option \<Rightarrow> merge_state \<Rightarrow> stash_entry \<Rightarrow> merge_state" where
  "merge_held C floored verifications generation = (\<lambda>(out, vs, seen) e.
     let key = heldKey C (se_message e) in
     if key \<in> set seen then (out, vs, seen)
     else case List.find (\<lambda>m. heldKey C m = key) (rev floored) of
         Some fresh \<Rightarrow> (out @ [fresh], put key (verdictFor C (Some verifications) fresh) vs, seen @ [key])
       | None \<Rightarrow> (out @ [se_message e], put key (entryVerdict generation e) vs, seen @ [key]))"

definition merge_fresh :: "crypto \<Rightarrow> verdicts \<Rightarrow> merge_state \<Rightarrow> json \<Rightarrow> merge_state" where
  "merge_fresh C verifications = (\<lambda>(out, vs, seen) m.
     let key = heldKey C m in
     if key \<in> set seen then (out, vs, seen)
     else (out @ [m], put key (verdictFor C (Some verifications) m) vs, seen @ [key]))"

definition mergeCoveredStashes ::
  "crypto \<Rightarrow> json list \<Rightarrow> verdicts \<Rightarrow> int \<Rightarrow> string option \<Rightarrow> stashes \<Rightarrow> covered_stashes" where
  "mergeCoveredStashes C floored verifications nowMs generation st =
     (case covered_by floored st of
        [] \<Rightarrow> \<lparr> cs_messages = floored, cs_verifications = verifications, cs_coveredConversationIds = [], cs_deferred = None \<rparr>
      | (c0, s0) # rest \<Rightarrow>
          let covered = (c0, s0) # rest;
              held = foldl (merge_held C floored verifications generation) ([], [], []) (concat (map (\<lambda>(c, s). ds_entries s) covered));
              (out, vs, _) = foldl (merge_fresh C verifications) held floored;
              waits = map (\<lambda>(c, s). (c, max 0 (nowMs - ds_firstDeferredAtMs s))) covered
          in \<lparr> cs_messages = out, cs_verifications = vs, cs_coveredConversationIds = map fst covered,
               cs_deferred = Some \<lparr> tc_conversationId = c0, tc_heldMs = max 0 (nowMs - ds_firstDeferredAtMs s0), tc_overrun = False,
                 tc_merged = True, tc_heldMessageIds = map message_id (fst held), tc_heldKeys = snd (snd held), tc_deferredConversations = waits \<rparr> \<rparr>)"

section \<open>Nothing held back is lost\<close>

text \<open>Entries under the key of their message.\<close>

definition keyed :: "crypto \<Rightarrow> (string \<times> stash_entry) list \<Rightarrow> bool" where
  "keyed C byKey \<longleftrightarrow> (\<forall>(k, e)\<in>set byKey. heldKey C (se_message e) = k)"

lemma keyed_put: "keyed C b \<Longrightarrow> heldKey C (se_message e) = k \<Longrightarrow> keyed C (put k e b)"
  by (auto simp: keyed_def dest!: in_put)

lemma fst_put: "fst ` set (put k v ms) = insert k (fst ` set ms)"
  by (force simp: put_def map_of_eq_None_iff)

lemma keyed_keys: "keyed C b \<Longrightarrow> heldKey C ` set (map se_message (map snd b)) = fst ` set b"
  by (force simp: keyed_def)

lemma existing_keyed:
  "keyed C b \<Longrightarrow> keyed C (foldl (\<lambda>b e. put (heldKey C (se_message e)) e b) b es) \<and>
     fst ` set (foldl (\<lambda>b e. put (heldKey C (se_message e)) e b) b es) = fst ` set b \<union> heldKey C ` se_message ` set es"
  by (induction es arbitrary: b) (auto simp: keyed_put fst_put)

lemma incoming_keyed:
  "keyed C b \<Longrightarrow> keyed C (foldl (stash_incoming C vs g) b ms) \<and>
     fst ` set (foldl (stash_incoming C vs g) b ms) = fst ` set b \<union> heldKey C ` set ms"
proof (induction ms arbitrary: b)
  case (Cons m ms)
  have "keyed C (stash_incoming C vs g b m) \<and> fst ` set (stash_incoming C vs g b m) = insert (heldKey C m) (fst ` set b)"
    using Cons.prems by (auto simp: stash_incoming_def Let_def fst_put intro!: keyed_put split: option.splits)
  with Cons.IH show ?case by auto
qed simp

lemma ordered_keys:
  "heldKey C ` se_message ` set (stash_ordered C existing ms vs g) =
     heldKey C ` se_message ` set (case existing of None \<Rightarrow> [] | Some s \<Rightarrow> ds_entries s) \<union> heldKey C ` set ms"
proof -
  let ?es = "case existing of None \<Rightarrow> [] | Some s \<Rightarrow> ds_entries s"
  let ?b = "foldl (\<lambda>b e. put (heldKey C (se_message e)) e b) [] ?es"
  have b: "keyed C ?b" "fst ` set ?b = heldKey C ` se_message ` set ?es" using existing_keyed [of C "[]" ?es] by (auto simp: keyed_def)
  note i = incoming_keyed [OF b(1), of vs g ms]
  from keyed_keys [OF conjunct1 [OF i]] i b(2) show ?thesis unfolding stash_ordered_def by (simp add: image_image)
qed

text \<open>What the stashes hold, and what was given up, as pairs of conversation and key.\<close>

definition held :: "crypto \<Rightarrow> stashes \<Rightarrow> (string \<times> string) set" where
  "held C st = (\<Union>(c, s)\<in>set st. Pair c ` heldKey C ` set (stash_messages s))"

definition given_up :: "crypto \<Rightarrow> deferred_drop list \<Rightarrow> (string \<times> string) set" where
  "given_up C ds = (\<Union>d\<in>set ds. Pair (dd_conversationId d) ` heldKey C ` set (dd_messages d))"

lemma held_append: "held C (a @ b) = held C a \<union> held C b"
  by (auto simp: held_def)

lemma given_up_append: "given_up C (a @ b) = given_up C a \<union> given_up C b"
  by (auto simp: given_up_def)

lemma held_one: "held C [(c, s)] = Pair c ` heldKey C ` se_message ` set (ds_entries s)"
  by (auto simp: held_def stash_messages_def)

lemma keep_last_split: "take (length xs - n) xs @ keep_last n xs = xs"
  by (simp add: keep_last_def)

lemma held_remove:
  assumes "distinct (map fst st)"
  shows "held C st = held C (remove_key c st) \<union> (case map_of st c of None \<Rightarrow> {} | Some s \<Rightarrow> held C [(c, s)])"
proof -
  have "(a, b) \<in> set st \<longleftrightarrow> (a, b) \<in> set (remove_key c st) \<or> map_of st c = Some b \<and> a = c" for a b
    using assms by (auto simp: remove_key_def)
  then have "set st = set (remove_key c st) \<union> (case map_of st c of None \<Rightarrow> {} | Some s \<Rightarrow> {(c, s)})"
    by (auto split: option.splits)
  then have "held C st = (\<Union>(d, s)\<in>set (remove_key c st) \<union> (case map_of st c of None \<Rightarrow> {} | Some s \<Rightarrow> {(c, s)}). Pair d ` heldKey C ` set (stash_messages s))"
    unfolding held_def by simp
  then show ?thesis by (auto simp: held_def split: option.splits)
qed

lemma evicted_held: "given_up C (map (\<lambda>(c, s). \<lparr> dd_conversationId = c, dd_messages = stash_messages s, dd_reason = r \<rparr>) st) = held C st"
  by (force simp: given_up_def held_def)

text \<open>
  Holding work back never loses any.  After a conversation's messages are stashed, what the stashes hold together with
  what the call reports as given up is exactly what was held before together with the messages that came in,
  conversation by conversation, where messages are told apart by their id and their signed material.
\<close>

lemma stash_conserves:
  assumes "distinct (map fst st)" "stashDeferred C conv ms vs nowMs g st = (drops, st')"
  shows "held C st' \<union> given_up C drops = held C st \<union> Pair conv ` heldKey C ` set ms"
proof -
  let ?old = "case map_of st conv of None \<Rightarrow> [] | Some s \<Rightarrow> ds_entries s"
  let ?ord = "stash_ordered C (map_of st conv) ms vs g"
  let ?m = "keep_last DEFERRED_MESSAGES_PER_CONV ?ord" and ?o = "take (length ?ord - length (keep_last DEFERRED_MESSAGES_PER_CONV ?ord)) ?ord"
  let ?new = "\<lparr> ds_entries = ?m, ds_firstDeferredAtMs = (case map_of st conv of Some s \<Rightarrow> ds_firstDeferredAtMs s | None \<Rightarrow> nowMs) \<rparr>"
  let ?st1 = "remove_key conv st @ [(conv, ?new)]" and ?n = DEFERRED_CONVERSATION_CAP
  have "length ?ord - length ?m = length ?ord - DEFERRED_MESSAGES_PER_CONV" by (simp add: length_keep_last)
  then have "?o @ ?m = ?ord" by (simp add: keep_last_split)
  then have parts: "set ?o \<union> set ?m = set ?ord" by (metis set_append)
  have over: "given_up C (if map se_message ?o = [] then [] else [\<lparr> dd_conversationId = conv, dd_messages = map se_message ?o, dd_reason = Overflow_per_conv \<rparr>])
      = Pair conv ` heldKey C ` se_message ` set ?o"
    by (auto simp: given_up_def)
  note d = assms(2) [unfolded stashDeferred_def Let_def prod.inject]
  have drops: "given_up C drops = Pair conv ` heldKey C ` se_message ` set ?o \<union> held C (take (length ?st1 - ?n) ?st1)"
    unfolding conjunct1 [OF d, symmetric] given_up_append over evicted_held ..
  have st': "st' = keep_last ?n ?st1" by (rule conjunct2 [OF d, symmetric])
  have "held C st' \<union> given_up C drops = held C ?st1 \<union> Pair conv ` heldKey C ` se_message ` set ?o"
    unfolding st' drops held_append [of C "take (length ?st1 - ?n) ?st1" "keep_last ?n ?st1", unfolded keep_last_split] by blast
  also have "\<dots> = held C (remove_key conv st) \<union> Pair conv ` heldKey C ` se_message ` set ?ord"
    unfolding held_append held_one parts [symmetric] by (auto simp: image_Un)
  also have "\<dots> = held C st \<union> Pair conv ` heldKey C ` set ms"
    unfolding ordered_keys held_remove [OF assms(1), of C conv] by (auto simp: held_one split: option.splits)
  finally show ?thesis .
qed

definition held_message :: "string \<Rightarrow> json" where
  "held_message i = JObj [(''message_id'', JStr i), (''conversation_id'', JStr ''c1'')]"

text \<open>
  Both caps hold: at most fifty conversations, ten messages in each.
\<close>

lemma stashDeferred_bounds:
  assumes "stashDeferred C conv ms vs nowMs g st = (drops, st')" "\<forall>(c, s)\<in>set st. length (ds_entries s) \<le> DEFERRED_MESSAGES_PER_CONV"
    and "distinct (map fst st)"
  shows "length st' \<le> DEFERRED_CONVERSATION_CAP" "\<forall>(c, s)\<in>set st'. length (ds_entries s) \<le> DEFERRED_MESSAGES_PER_CONV" "distinct (map fst st')"
proof -
  have sub: "set (keep_last k xs) \<subseteq> set xs" for k and xs :: "(string \<times> stash) list" by (auto dest: keep_last_incl)
  show "length st' \<le> DEFERRED_CONVERSATION_CAP" using assms(1) by (auto simp: stashDeferred_def Let_def length_keep_last)
  show "\<forall>(c, s)\<in>set st'. length (ds_entries s) \<le> DEFERRED_MESSAGES_PER_CONV"
    using assms(1,2) by (auto simp: stashDeferred_def Let_def length_keep_last remove_key_def dest!: keep_last_incl)
  show "distinct (map fst st')"
  proof -
    have "conv \<notin> fst ` set (remove_key conv st)" by (auto simp: remove_key_def)
    then have "distinct (map fst (remove_key conv st @ [(conv, x)]))" for x using assms(3) by simp
    then show ?thesis using assms(1) by (auto simp: stashDeferred_def Let_def map_keep_last keep_last_def [of _ "map fst xs" for xs] simp del: map_append distinct_append)
  qed
qed

section \<open>A covering turn delivers what it covers\<close>

definition merge_ok :: "crypto \<Rightarrow> merge_state \<Rightarrow> bool" where
  "merge_ok C = (\<lambda>(out, vs, seen). map (heldKey C) out = seen \<and> distinct seen)"

lemma merge_held_ok:
  "merge_ok C x \<Longrightarrow> merge_ok C (foldl (merge_held C floored vf g) x es) \<and>
     set (snd (snd (foldl (merge_held C floored vf g) x es))) = set (snd (snd x)) \<union> heldKey C ` se_message ` set es"
proof (induction es arbitrary: x)
  case (Cons e es)
  obtain out vs seen where x: "x = (out, vs, seen)" by (cases x)
  have "merge_ok C (merge_held C floored vf g x e) \<and> set (snd (snd (merge_held C floored vf g x e))) = insert (heldKey C (se_message e)) (set seen)"
    using Cons.prems by (auto simp: x merge_held_def merge_ok_def Let_def split: option.splits dest: find_in)
  with Cons.IH show ?case by (auto simp: x)
qed simp

lemma merge_fresh_ok:
  "merge_ok C x \<Longrightarrow> merge_ok C (foldl (merge_fresh C vf) x ms) \<and>
     set (snd (snd (foldl (merge_fresh C vf) x ms))) = set (snd (snd x)) \<union> heldKey C ` set ms"
proof (induction ms arbitrary: x)
  case (Cons m ms)
  obtain out vs seen where x: "x = (out, vs, seen)" by (cases x)
  have "merge_ok C (merge_fresh C vf x m) \<and> set (snd (snd (merge_fresh C vf x m))) = insert (heldKey C m) (set seen)"
    using Cons.prems by (auto simp: x merge_fresh_def merge_ok_def Let_def)
  with Cons.IH show ?case by (auto simp: x)
qed simp

lemma covered_in:
  "(c, s) \<in> set (covered_by floored st) \<longleftrightarrow> c \<in> conversation_id ` set floored \<and> map_of st c = Some s \<and> stash_messages s \<noteq> []"
proof -
  let ?f = "\<lambda>c. case map_of st c of Some s \<Rightarrow> if stash_messages s = [] then [] else [(c, s)] | None \<Rightarrow> []"
  have f: "(c, s) \<in> set (?f d) \<longleftrightarrow> d = c \<and> map_of st c = Some s \<and> stash_messages s \<noteq> []" for d
    by (cases "map_of st d"; cases "d = c") auto
  have "(c, s) \<in> set (covered_by floored st) \<longleftrightarrow> (\<exists>d\<in>conversation_id ` set floored. (c, s) \<in> set (?f d))"
    unfolding covered_by_def by (simp add: first_seen_def)
  then show ?thesis unfolding f by blast
qed

text \<open>
  A turn that starts in a conversation with held-back work carries that work: its messages are exactly its own and those
  of the stashes of its conversations, each once, and the conversations it reports as covered, whose stashes are cleared
  when it starts, are exactly those whose stash it carries.
\<close>

lemma covering_turn_delivers:
  "heldKey C ` set (cs_messages (mergeCoveredStashes C floored vf nowMs g st)) =
     heldKey C ` set floored \<union> (\<Union>c\<in>set (cs_coveredConversationIds (mergeCoveredStashes C floored vf nowMs g st)).
        heldKey C ` set (stash_messages (the (map_of st c)))) \<and>
   (\<forall>c. c \<in> set (cs_coveredConversationIds (mergeCoveredStashes C floored vf nowMs g st)) \<longleftrightarrow>
      c \<in> conversation_id ` set floored \<and> (\<exists>s. map_of st c = Some s \<and> stash_messages s \<noteq> [])) \<and>
   (cs_coveredConversationIds (mergeCoveredStashes C floored vf nowMs g st) = [] \<or>
      distinct (map (heldKey C) (cs_messages (mergeCoveredStashes C floored vf nowMs g st))))"
proof (cases "covered_by floored st")
  case Nil
  then show ?thesis using covered_in [of _ _ floored st] by (auto simp: mergeCoveredStashes_def)
next
  case (Cons cs rest)
  obtain c0 s0 where cs: "cs = (c0, s0)" by (cases cs)
  let ?cov = "(c0, s0) # rest"
  let ?es = "concat (map (\<lambda>(c, s). ds_entries s) ?cov)"
  let ?h = "foldl (merge_held C floored vf g) ([], [], []) ?es"
  obtain out vs seen where f: "foldl (merge_fresh C vf) ?h floored = (out, vs, seen)" by (cases "foldl (merge_fresh C vf) ?h floored")
  have h: "merge_ok C ?h" "set (snd (snd ?h)) = heldKey C ` se_message ` set ?es"
    using merge_held_ok [of C "([], [], [])" floored vf g ?es] by (auto simp: merge_ok_def)
  from merge_fresh_ok [OF h(1), of vf floored] have o: "map (heldKey C) out = seen" "distinct seen" "set seen = heldKey C ` se_message ` set ?es \<union> heldKey C ` set floored"
    unfolding f h(2) by (auto simp: merge_ok_def)
  have r: "cs_messages (mergeCoveredStashes C floored vf nowMs g st) = out"
    "cs_coveredConversationIds (mergeCoveredStashes C floored vf nowMs g st) = map fst ?cov"
    using f by (simp_all add: mergeCoveredStashes_def Cons cs Let_def)
  have cv: "(c, s) \<in> set ?cov \<longleftrightarrow> c \<in> conversation_id ` set floored \<and> map_of st c = Some s \<and> stash_messages s \<noteq> []" for c s
    using covered_in [of c s floored st] by (simp add: Cons cs)
  have "se_message ` set ?es = (\<Union>(c, s)\<in>set ?cov. set (stash_messages s))" by (auto simp: stash_messages_def)
  also have "\<dots> = (\<Union>c\<in>fst ` set ?cov. set (stash_messages (the (map_of st c))))"
    using cv by (force simp del: set_simps)
  finally have es: "heldKey C ` se_message ` set ?es = (\<Union>c\<in>set (map fst ?cov). heldKey C ` set (stash_messages (the (map_of st c))))"
    unfolding image_set [symmetric] by (simp only: image_UN)
  have "heldKey C ` set out = set seen" unfolding o(1) [symmetric] by simp
  then have "heldKey C ` set out = heldKey C ` set floored \<union> (\<Union>c\<in>set (map fst ?cov). heldKey C ` set (stash_messages (the (map_of st c))))"
    unfolding o(3) es by (simp only: Un_commute)
  moreover have "\<forall>c. c \<in> set (map fst ?cov) \<longleftrightarrow> c \<in> conversation_id ` set floored \<and> (\<exists>s. map_of st c = Some s \<and> stash_messages s \<noteq> [])"
    unfolding set_map using cv by (metis (no_types, lifting) fst_conv imageE imageI prod.collapse)
  ultimately show ?thesis using o(1,2) unfolding r by blast
qed

section \<open>Whose verdict a message carries\<close>

text \<open>Every verdict put together for a covering turn is one that its origin allows.\<close>

definition verdicts_from :: "(string \<Rightarrow> verify_result option \<Rightarrow> bool) \<Rightarrow> merge_state \<Rightarrow> bool" where
  "verdicts_from P = (\<lambda>(out, vs, seen). \<forall>(k, v)\<in>set vs. P k v)"

lemma verdicts_from_put: "verdicts_from P (out, vs, seen) \<Longrightarrow> P k v \<Longrightarrow> verdicts_from P (out', put k v vs, seen')"
  by (auto simp: verdicts_from_def dest!: in_put)

lemma merge_held_from:
  assumes "verdicts_from P x"
    and "\<And>m. m \<in> set floored \<Longrightarrow> P (heldKey C m) (verdictFor C (Some vf) m)"
    and "\<And>e. e \<in> set es \<Longrightarrow> P (heldKey C (se_message e)) (entryVerdict g e)"
  shows "verdicts_from P (foldl (merge_held C floored vf g) x es)"
proof (rule foldl_keeps [where P = "verdicts_from P"])
  show "verdicts_from P x" by (rule assms(1))
  fix y e assume y: "verdicts_from P y" and e: "e \<in> set es"
  obtain out vs seen where yy: "y = (out, vs, seen)" by (cases y)
  have "P (heldKey C (se_message e)) (verdictFor C (Some vf) m)" if "List.find (\<lambda>m. heldKey C m = heldKey C (se_message e)) (rev floored) = Some m" for m
    using find_in [OF that] assms(2) [of m] by simp
  with y assms(3) [OF e] show "verdicts_from P (merge_held C floored vf g y e)"
    by (auto simp: yy merge_held_def Let_def split: option.splits intro: verdicts_from_put)
qed

lemma merge_fresh_from:
  assumes "verdicts_from P x" "\<And>m. m \<in> set ms \<Longrightarrow> P (heldKey C m) (verdictFor C (Some vf) m)"
  shows "verdicts_from P (foldl (merge_fresh C vf) x ms)"
proof (rule foldl_keeps [where P = "verdicts_from P"])
  show "verdicts_from P x" by (rule assms(1))
  fix y m assume y: "verdicts_from P y" and m: "m \<in> set ms"
  obtain out vs seen where "y = (out, vs, seen)" by (cases y)
  with y assms(2) [OF m] show "verdicts_from P (merge_fresh C vf y m)"
    by (auto simp: merge_fresh_def Let_def intro: verdicts_from_put)
qed

text \<open>
  The verdict of a covering turn.  When a turn that carries held-back work shows a message as verified, then either this
  batch carries that very message, the same id and the same signed material, and the verdict is the one computed for it now, or
  the message was held back with that verdict beside it and the set of trusted keys has not changed since.
\<close>

theorem covering_verdict_is_own:
  assumes "cs_coveredConversationIds (mergeCoveredStashes C floored vf nowMs g st) \<noteq> []"
    and "map_of (cs_verifications (mergeCoveredStashes C floored vf nowMs g st)) k = Some (Some v)" "vr_verified v"
  shows "(\<exists>m\<in>set floored. heldKey C m = k \<and> verdictFor C (Some vf) m = Some v) \<or>
     (\<exists>c s e. map_of st c = Some s \<and> e \<in> set (ds_entries s) \<and> heldKey C (se_message e) = k \<and>
        se_verification e = Some v \<and> se_generation e = g \<and> g \<noteq> None)"
proof -
  define P where "P = (\<lambda>k v. (\<exists>m\<in>set floored. heldKey C m = k \<and> verdictFor C (Some vf) m = v) \<or>
    (\<exists>c s e. map_of st c = Some s \<and> e \<in> set (ds_entries s) \<and> heldKey C (se_message e) = k \<and> entryVerdict g e = v))"
  let ?es = "concat (map (\<lambda>(c, s). ds_entries s) (covered_by floored st))"
  let ?h = "foldl (merge_held C floored vf g) ([], [], []) ?es"
  obtain c0 s0 rest where cov: "covered_by floored st = (c0, s0) # rest"
    using assms(1) by (cases "covered_by floored st") (auto simp: mergeCoveredStashes_def)
  obtain out vs seen where f: "foldl (merge_fresh C vf) ?h floored = (out, vs, seen)" by (cases "foldl (merge_fresh C vf) ?h floored")
  have fresh: "P (heldKey C m) (verdictFor C (Some vf) m)" if "m \<in> set floored" for m unfolding P_def using that by blast
  have "P (heldKey C (se_message e)) (entryVerdict g e)" if e: "e \<in> set ?es" for e
  proof -
    obtain c s where "(c, s) \<in> set (covered_by floored st)" "e \<in> set (ds_entries s)" using e by auto
    then show ?thesis unfolding P_def covered_in by blast
  qed
  with fresh have "verdicts_from P ?h" by (intro merge_held_from) (simp_all add: verdicts_from_def)
  then have "verdicts_from P (foldl (merge_fresh C vf) ?h floored)" by (rule merge_fresh_from) (rule fresh)
  then have "verdicts_from P (out, vs, seen)" unfolding f .
  moreover have "cs_verifications (mergeCoveredStashes C floored vf nowMs g st) = vs"
    using f by (simp add: mergeCoveredStashes_def cov Let_def)
  ultimately have "P k (Some v)" using assms(2) by (auto simp: verdicts_from_def dest!: map_of_SomeD)
  moreover have "se_verification e = Some v \<and> se_generation e = g \<and> g \<noteq> None" if "entryVerdict g e = Some v" for e
    using that assms(3) by (auto simp: entryVerdict_def split: option.splits if_splits)
  ultimately show ?thesis unfolding P_def by blast
qed

definition sample_stash :: stashes where
  "sample_stash = [(''c1'', \<lparr> ds_entries = [\<lparr> se_message = held_message ''m1'',
     se_verification = Some \<lparr> vr_verified = True, vr_kind = Peer_sender, vr_reason = None, vr_keyId = None \<rparr>, se_generation = Some ''g'' \<rparr>],
     ds_firstDeferredAtMs = 0 \<rparr>)]"

theorem covering_verdict_is_own_witness:
  "\<exists>c s e. map_of sample_stash c = Some s \<and> e \<in> set (ds_entries s) \<and>
     heldKey sample_crypto (se_message e) = heldKey sample_crypto (held_message ''m1'') \<and> se_generation e = Some ''g''"
proof -
  let ?r = "mergeCoveredStashes sample_crypto [held_message ''m2''] [] 5 (Some ''g'') sample_stash"
  let ?v = "\<lparr> vr_verified = True, vr_kind = Peer_sender, vr_reason = None, vr_keyId = None \<rparr>"
  have "cs_coveredConversationIds ?r \<noteq> []" by code_simp
  moreover have "map_of (cs_verifications ?r) (heldKey sample_crypto (held_message ''m1'')) = Some (Some ?v)" by code_simp
  moreover have "heldKey sample_crypto (held_message ''m2'') \<noteq> heldKey sample_crypto (held_message ''m1'')" by code_simp
  ultimately show ?thesis
    using covering_verdict_is_own [of sample_crypto "[held_message ''m2'']" "[]" 5 "Some ''g''" sample_stash "heldKey sample_crypto (held_message ''m1'')" ?v] by auto
qed

section \<open>The verdicts of one batch\<close>

lemma heldKeyId_heldKey: "CHR 0x00 \<notin> set (materialDigest C m) \<Longrightarrow> heldKeyId (heldKey C m) = message_id m"
  unfolding heldKeyId_def heldKey_def by (subst dropWhile_append2) auto

lemma remdups_le_one: "x \<in> set xs \<Longrightarrow> y \<in> set xs \<Longrightarrow> \<not> 1 < length (remdups xs) \<Longrightarrow> x = y"
  by (metis One_nat_def card_le_Suc0_iff_eq finite_set length_remdups_card_conv linorder_not_less)

lemma foldl_put_in:
  assumes "(k, v) \<in> set (foldl (\<lambda>out m. put (f m) (g m) out) [] ms)"
  shows "\<exists>m\<in>set ms. f m = k \<and> g m = v"
proof -
  have "\<forall>(k, v)\<in>set (foldl (\<lambda>out m. put (f m) (g m) out) [] ms). \<exists>m\<in>set ms. f m = k \<and> g m = v"
    by (rule foldl_keeps [where P = "\<lambda>out. \<forall>(k, v)\<in>set out. \<exists>m\<in>set ms. f m = k \<and> g m = v"]) (auto dest!: in_put)
  with assms show ?thesis by auto
qed

lemma batchVerdicts_in:
  "(k, v) \<in> set (batchVerdictsByHeldKey C ms vs) \<Longrightarrow> \<exists>m\<in>set ms. heldKey C m = k \<and>
     (if claimed_twice C ms (heldKeyId (heldKey C m)) then None else (case map_of vs (id_key m) of Some v \<Rightarrow> v | None \<Rightarrow> None)) = v"
  unfolding batchVerdictsByHeldKey_def by (rule foldl_put_in)

text \<open>
  An id is no identity.  A verdict that was computed under an id of the batch reaches a message only when no other message
  of the batch claims that id: an id claimed by two different messages vouches for neither.
\<close>

theorem batch_verdict_unambiguous:
  assumes "\<forall>x. CHR 0x00 \<notin> set (sha256_hex C x)" "\<forall>x t. uncomparable_token C x = Some t \<longrightarrow> CHR 0x00 \<notin> set t"
    and "map_of (batchVerdictsByHeldKey C ms vs) k = Some (Some v)"
  shows "\<exists>m\<in>set ms. heldKey C m = k \<and> map_of vs (id_key m) = Some (Some v) \<and>
     (\<forall>n\<in>set ms. message_id n = message_id m \<longrightarrow> heldKey C n = k)"
proof -
  have id: "heldKeyId (heldKey C m) = message_id m" for m
    using assms(1,2) by (auto simp: heldKeyId_heldKey materialDigest_def UNCOMPARABLE_PREFIX_def split: option.splits)
  from map_of_SomeD [OF assms(3)] obtain m where m: "m \<in> set ms" "heldKey C m = k"
    "(if claimed_twice C ms (heldKeyId (heldKey C m)) then None else (case map_of vs (id_key m) of Some v \<Rightarrow> v | None \<Rightarrow> None)) = Some v"
    by (blast dest: batchVerdicts_in)
  then have once: "\<not> claimed_twice C ms (message_id m)" and v: "map_of vs (id_key m) = Some (Some v)"
    by (auto simp: id split: if_splits option.splits)
  have "heldKey C n = k" if "n \<in> set ms" "message_id n = message_id m" for n
    using remdups_le_one [of "heldKey C n" "filter (\<lambda>k. heldKeyId k = message_id m) (map (heldKey C) ms)" "heldKey C m"] that m(1,2) once
    by (auto simp: claimed_twice_def id)
  with m(1,2) v show ?thesis by blast
qed

text \<open>A digest that consists of hexadecimal digits, as the documentation of the hash promises.\<close>

definition hex_crypto :: crypto where
  "hex_crypto = sample_crypto\<lparr> sha256_hex := (\<lambda>x. replicate (length x) (CHR ''a'')) \<rparr>"

theorem batch_verdict_unambiguous_witness:
  "\<exists>m\<in>{held_message ''m1'', held_message ''m2''}. heldKey hex_crypto m = heldKey hex_crypto (held_message ''m1'') \<and>
     map_of [(''m1'', Some \<lparr> vr_verified = True, vr_kind = Peer_sender, vr_reason = None, vr_keyId = None \<rparr>)] (id_key m) =
       Some (Some \<lparr> vr_verified = True, vr_kind = Peer_sender, vr_reason = None, vr_keyId = None \<rparr>)"
proof -
  let ?v = "\<lparr> vr_verified = True, vr_kind = Peer_sender, vr_reason = None, vr_keyId = None \<rparr>"
  have "map_of (batchVerdictsByHeldKey hex_crypto [held_message ''m1'', held_message ''m2''] [(''m1'', Some ?v)])
      (heldKey hex_crypto (held_message ''m1'')) = Some (Some ?v)" by code_simp
  from batch_verdict_unambiguous [OF _ _ this] show ?thesis by (auto simp: hex_crypto_def sample_crypto_def split: if_splits)
qed

end
