(* ===== verification/Wake_Gate.thy ===== *)
theory Wake_Gate
  imports Stash
begin

text \<open>
  What may wake an agent of the OpenClaw plugin, \<^verbatim>\<open>packages/openclaw-plugin/src/autoreply.ts\<close>: the qualifying filter, the
  rolling rate gate per peer, the optional turn budget per conversation with its latch, the progress signals that
  refresh it, and the two collections of refused messages that go to the dead letters.  A set with its order of insertion
  is the list of its members in that order.  Budgets in JSON are integers; zero means that there is no limit.
\<close>

section \<open>State of the loop\<close>

record rate_entry =
  ra_count :: nat
  ra_windowStart :: int

record autoreply_state =
  as_seen :: "string list"
  as_seenNonces :: "string list"
  as_recentInboundByPeer :: "(string \<times> rate_entry) list"
  as_inFlight :: bool
  as_peerTurns :: "(string \<times> nat) list"
  as_escalated :: "string list"
  as_deferred :: stashes
  as_progressRefreshes :: "(string \<times> int list) list"

definition createAutoReplyState :: autoreply_state where
  "createAutoReplyState = \<lparr> as_seen = [], as_seenNonces = [], as_recentInboundByPeer = [], as_inFlight = False,
     as_peerTurns = [], as_escalated = [], as_deferred = [], as_progressRefreshes = [] \<rparr>"

section \<open>Messages as the gate reads them\<close>

definition signed_view :: "json \<Rightarrow> signed_message" where
  "signed_view m = \<lparr> sm_message_id = wire_text m ''message_id'', sm_sender_kind = wire_text m ''sender_kind'',
     sm_sender_agent_id = wire_text m ''sender_agent_id'', sm_message_type = wire_text m ''message_type'',
     sm_priority = wire_text m ''priority'', sm_body = json_get m ''body'', sm_operator_sig = wire_text m ''operator_sig'',
     sm_agent_sig = wire_text m ''agent_sig'', sm_key_id = wire_text m ''key_id'', sm_sig_canonical = json_get m ''sig_canonical'' \<rparr>"

definition from_operator :: "json \<Rightarrow> bool" where
  "from_operator m \<longleftrightarrow> wire_text m ''sender_kind'' = Some ''operator''"

definition sender_agent_id :: "json \<Rightarrow> string" where
  "sender_agent_id m = or_empty (wire_text m ''sender_agent_id'')"

definition id_verdict :: "verdicts \<Rightarrow> json \<Rightarrow> verify_result option" where
  "id_verdict vs m = (case map_of vs (id_key m) of Some v \<Rightarrow> v | None \<Rightarrow> None)"

section \<open>Budgets\<close>

definition NO_PEER_TURN_LIMIT :: int where
  "NO_PEER_TURN_LIMIT = 0"

definition normalizeTurnBudget :: "json option \<Rightarrow> int" where
  "normalizeTurnBudget v = (case v of Some (JNum n) \<Rightarrow> if n \<ge> 1 then n else NO_PEER_TURN_LIMIT | _ \<Rightarrow> NO_PEER_TURN_LIMIT)"

definition isCapped :: "int \<Rightarrow> bool" where
  "isCapped budget \<longleftrightarrow> budget > 0"

definition effectivePeerSettings :: "json \<Rightarrow> bool \<times> json option \<Rightarrow> bool \<times> int" where
  "effectivePeerSettings batch defaults =
     (let relayBudget = normalizeTurnBudget (json_get batch ''peer_turn_budget'')
      in (case json_get batch ''peer_autoreply'' of Some (JBool b) \<Rightarrow> b | _ \<Rightarrow> fst defaults,
          if isCapped relayBudget then relayBudget else normalizeTurnBudget (snd defaults)))"

definition budget_entries :: "json \<Rightarrow> (string \<times> json) list" where
  "budget_entries batch = (case json_get batch ''conversation_budgets'' of Some (JObj es) \<Rightarrow> es | _ \<Rightarrow> [])"

definition effectiveConversationBudget :: "(string \<times> json) list \<Rightarrow> string \<Rightarrow> int \<Rightarrow> int" where
  "effectiveConversationBudget budgets conv fallback =
     (case map_of budgets conv of
        Some (JNum v) \<Rightarrow> if v \<ge> 0 then normalizeTurnBudget (Some (JNum v)) else normalizeTurnBudget (Some (JNum fallback))
      | _ \<Rightarrow> normalizeTurnBudget (Some (JNum fallback)))"

definition withLocalRoomCap :: "(string \<times> json) list \<Rightarrow> json option \<Rightarrow> (string \<times> json) list" where
  "withLocalRoomCap budgets localPeerTurnBudget =
     (let localCap = normalizeTurnBudget localPeerTurnBudget
      in if \<not> isCapped localCap then budgets
         else map (\<lambda>(conv, v). (conv, if v = JNum 0 then JNum localCap else v)) budgets)"

section \<open>What was seen\<close>

definition TRIGGER_TYPES :: "string list" where
  "TRIGGER_TYPES = [''direct'', ''broadcast'', ''handoff'', ''claim'', ''alert'']"

definition PROGRESS_SIGNAL_TYPES :: "string list" where
  "PROGRESS_SIGNAL_TYPES = [''handoff'', ''claim'', ''complete'']"

definition SEEN_CAP :: nat where
  "SEEN_CAP = 500"

definition remember :: "string \<Rightarrow> string list \<Rightarrow> string list" where
  "remember k ks = (if k \<in> set ks then ks else keep_last SEEN_CAP (ks @ [k]))"

definition markSeen :: "crypto \<Rightarrow> autoreply_state \<Rightarrow> json \<Rightarrow> autoreply_state" where
  "markSeen C s m = s\<lparr> as_seen := remember (heldKey C m) (as_seen s) \<rparr>"

definition markNonceSeen :: "autoreply_state \<Rightarrow> string \<Rightarrow> autoreply_state" where
  "markNonceSeen s nonce = s\<lparr> as_seenNonces := remember nonce (as_seenNonces s) \<rparr>"

section \<open>The latch\<close>

definition PEER_LATCH_CONVERSATION_CAP :: nat where
  "PEER_LATCH_CONVERSATION_CAP = 500"

definition turns_used :: "autoreply_state \<Rightarrow> string \<Rightarrow> nat" where
  "turns_used s conv = (case map_of (as_peerTurns s) conv of Some n \<Rightarrow> n | None \<Rightarrow> 0)"

definition peerLatchOpen :: "autoreply_state \<Rightarrow> string \<Rightarrow> int \<Rightarrow> bool" where
  "peerLatchOpen s conv budget \<longleftrightarrow>
     \<not> isCapped (normalizeTurnBudget (Some (JNum budget))) \<or> int (turns_used s conv) < budget"

definition consumePeerLatch :: "autoreply_state \<Rightarrow> string \<Rightarrow> autoreply_state" where
  "consumePeerLatch s conv =
     s\<lparr> as_peerTurns := keep_last PEER_LATCH_CONVERSATION_CAP (put conv (turns_used s conv + 1) (as_peerTurns s)) \<rparr>"

definition resetPeerLatch :: "autoreply_state \<Rightarrow> string \<Rightarrow> autoreply_state" where
  "resetPeerLatch s conv = s\<lparr> as_peerTurns := remove_key conv (as_peerTurns s), as_escalated := removeAll conv (as_escalated s) \<rparr>"

text \<open>One message of \<^verbatim>\<open>applyPeerLatch\<close>: what is kept, and how many messages of each conversation are withheld.\<close>

type_synonym latch_state = "json list \<times> (string \<times> nat) list \<times> autoreply_state"

definition latch_one :: "(string \<times> json) list \<Rightarrow> int \<Rightarrow> latch_state \<Rightarrow> json \<Rightarrow> latch_state" where
  "latch_one budgets peerTurnBudget = (\<lambda>(kept, latched, s) m.
     if from_operator m then (kept @ [m], latched, s)
     else
       let conv = conversation_id m; convBudget = effectiveConversationBudget budgets conv peerTurnBudget in
       if peerLatchOpen s conv convBudget then
         (kept @ [m], latched, if isCapped convBudget then consumePeerLatch s conv else resetPeerLatch s conv)
       else (kept, put conv ((case map_of latched conv of Some n \<Rightarrow> n | None \<Rightarrow> 0) + 1) latched, s))"

definition applyPeerLatch :: "json list \<Rightarrow> autoreply_state \<Rightarrow> (string \<times> json) list \<Rightarrow> int \<Rightarrow> latch_state" where
  "applyPeerLatch rateKept s budgets peerTurnBudget = foldl (latch_one budgets peerTurnBudget) ([], [], s) rateKept"

definition reconcilePeerLatches :: "autoreply_state \<Rightarrow> (string \<times> json) list \<Rightarrow> int \<Rightarrow> autoreply_state" where
  "reconcilePeerLatches s budgets peerTurnBudget =
     foldl (\<lambda>s conv. if isCapped (effectiveConversationBudget budgets conv peerTurnBudget) then s else resetPeerLatch s conv)
       s (first_seen (map fst (as_peerTurns s) @ as_escalated s))"

definition markConversationEscalated :: "autoreply_state \<Rightarrow> string \<Rightarrow> bool \<times> autoreply_state" where
  "markConversationEscalated s conv =
     (if conv \<in> set (as_escalated s) then (False, s)
      else (True, s\<lparr> as_escalated := keep_last PEER_LATCH_CONVERSATION_CAP (as_escalated s @ [conv]) \<rparr>))"

section \<open>Progress signals\<close>

definition PROGRESS_REFRESH_MAX_PER_WINDOW :: nat where
  "PROGRESS_REFRESH_MAX_PER_WINDOW = 5"

definition PROGRESS_REFRESH_WINDOW_MS :: int where
  "PROGRESS_REFRESH_WINDOW_MS = 60 * 60000"

definition noteProgressRefresh :: "autoreply_state \<Rightarrow> string \<Rightarrow> int \<Rightarrow> bool \<times> autoreply_state" where
  "noteProgressRefresh s conv nowMs =
     (let stamps = filter (\<lambda>t. nowMs - t < PROGRESS_REFRESH_WINDOW_MS)
            (case map_of (as_progressRefreshes s) conv of Some ts \<Rightarrow> ts | None \<Rightarrow> []) in
      if length stamps \<ge> PROGRESS_REFRESH_MAX_PER_WINDOW then
        (False, s\<lparr> as_progressRefreshes := put conv stamps (as_progressRefreshes s) \<rparr>)
      else
        (True, s\<lparr> as_progressRefreshes := keep_last PEER_LATCH_CONVERSATION_CAP (put conv (stamps @ [nowMs]) (as_progressRefreshes s)) \<rparr>))"

definition progress_signal :: "string \<Rightarrow> json \<Rightarrow> bool" where
  "progress_signal selfAgentId m \<longleftrightarrow> \<not> from_operator m \<and> wire_text m ''sender_agent_id'' \<noteq> Some selfAgentId \<and>
     (\<exists>t\<in>set PROGRESS_SIGNAL_TYPES. wire_text m ''message_type'' = Some t) \<and> truthy (wire_text m ''conversation_id'')"

definition refresh_one ::
  "crypto \<Rightarrow> string \<Rightarrow> verdicts option \<Rightarrow> int \<Rightarrow> string list \<times> autoreply_state \<Rightarrow> json \<Rightarrow> string list \<times> autoreply_state" where
  "refresh_one C selfAgentId verifications nowMs = (\<lambda>(refreshed, s) m.
     if \<not> progress_signal selfAgentId m then (refreshed, s)
     else case (if truthy (wire_text m ''message_id'') then verdictFor C verifications m else None) of
         Some v \<Rightarrow> if \<not> vr_verified v then (refreshed, s)
           else (case noteProgressRefresh s (conversation_id m) nowMs of
               (True, t) \<Rightarrow> (refreshed @ [conversation_id m], resetPeerLatch t (conversation_id m)) | (False, t) \<Rightarrow> (refreshed, t))
       | None \<Rightarrow> (case noteProgressRefresh s (conversation_id m) nowMs of
               (True, t) \<Rightarrow> (refreshed @ [conversation_id m], resetPeerLatch t (conversation_id m)) | (False, t) \<Rightarrow> (refreshed, t)))"

definition refreshBudgetForProgressSignals ::
  "crypto \<Rightarrow> autoreply_state \<Rightarrow> json list \<Rightarrow> string \<Rightarrow> verdicts option \<Rightarrow> int \<Rightarrow> string list \<times> autoreply_state" where
  "refreshBudgetForProgressSignals C s ms selfAgentId verifications nowMs =
     (let (refreshed, t) = foldl (refresh_one C selfAgentId verifications nowMs) ([], s) ms in (first_seen refreshed, t))"

section \<open>The qualifying filter\<close>

datatype not_real = No_id | Self | Not_trigger | Empty_text | Seen | Authority "verify_reason option" | Authority_plain

definition message_trigger :: "json \<Rightarrow> bool" where
  "message_trigger m \<longleftrightarrow> (\<exists>t\<in>set TRIGGER_TYPES. wire_text m ''message_type'' = Some t)"

definition whyNotRealInbound ::
  "crypto \<Rightarrow> json \<Rightarrow> string \<Rightarrow> autoreply_state \<Rightarrow> bool \<Rightarrow> bool \<Rightarrow> verify_result option \<Rightarrow> require_signed \<Rightarrow> not_real option" where
  "whyNotRealInbound C m selfAgentId s operatorTrusted peerEnabled verification requireSigned =
     (if wire_text m ''message_id'' = None then Some No_id
      else if wire_text m ''sender_agent_id'' = Some selfAgentId then Some Self
      else if \<not> message_trigger m then Some Not_trigger
      else if js_trim (message_text (signed_view m)) = [] then Some Empty_text
      else if heldKey C m \<in> set (as_seen s) then Some Seen
      else if \<not> shouldAutowake (signed_view m) verification operatorTrusted peerEnabled requireSigned then
        (case verification of
           Some v \<Rightarrow> Some (if vr_verified v then Authority_plain else Authority (vr_reason v))
         | None \<Rightarrow> Some Authority_plain)
      else None)"

definition isRealInbound ::
  "crypto \<Rightarrow> json \<Rightarrow> string \<Rightarrow> autoreply_state \<Rightarrow> bool \<Rightarrow> bool \<Rightarrow> verify_result option \<Rightarrow> require_signed \<Rightarrow> bool" where
  "isRealInbound C m selfAgentId s operatorTrusted peerEnabled verification requireSigned \<longleftrightarrow>
     whyNotRealInbound C m selfAgentId s operatorTrusted peerEnabled verification requireSigned = None"

section \<open>Refused messages\<close>

record reject =
  rj_message :: json
  rj_verdict :: verify_result

definition withheld :: "verdicts \<Rightarrow> string \<Rightarrow> json \<Rightarrow> bool" where
  "withheld vs selfAgentId m \<longleftrightarrow> wire_text m ''message_id'' \<noteq> None \<and> wire_text m ''sender_agent_id'' \<noteq> Some selfAgentId \<and>
     \<not> from_operator m \<and> message_trigger m \<and> (truthy (wire_text m ''agent_sig'') \<longrightarrow> id_verdict vs m = None)"

definition collectRequireSignedWithheld :: "json list \<Rightarrow> verdicts \<Rightarrow> string \<Rightarrow> reject list" where
  "collectRequireSignedWithheld ms vs selfAgentId =
     map (\<lambda>m. \<lparr> rj_message = m, rj_verdict = \<lparr> vr_verified = False, vr_kind = Peer_sender,
         vr_reason = Some (if truthy (wire_text m ''agent_sig'') then Unverifiable_require_signed else Unsigned_require_signed),
         vr_keyId = wire_text m ''key_id'' \<rparr> \<rparr>)
       (filter (withheld vs selfAgentId) ms)"

definition rejected :: "verdicts \<Rightarrow> string \<Rightarrow> json \<Rightarrow> verify_result option" where
  "rejected vs selfAgentId m =
     (if wire_text m ''message_id'' = None \<or> wire_text m ''sender_agent_id'' = Some selfAgentId then None
      else case id_verdict vs m of
          Some v \<Rightarrow> if \<not> vr_verified v \<and> truthy (sig_of (signed_view m)) then Some v else None
        | None \<Rightarrow> None)"

definition collectVerificationRejects :: "json list \<Rightarrow> verdicts \<Rightarrow> string \<Rightarrow> reject list" where
  "collectVerificationRejects ms vs selfAgentId =
     List.map_filter (\<lambda>m. map_option (\<lambda>v. \<lparr> rj_message = m, rj_verdict = v \<rparr>) (rejected vs selfAgentId m)) ms"

section \<open>The rate gate\<close>

definition PEER_RATE_MAX :: nat where
  "PEER_RATE_MAX = 5"

definition PEER_RATE_WINDOW_MS :: int where
  "PEER_RATE_WINDOW_MS = 60000"

definition rate_one ::
  "int \<Rightarrow> json list \<times> (string \<times> rate_entry) list \<Rightarrow> json \<Rightarrow> json list \<times> (string \<times> rate_entry) list" where
  "rate_one t = (\<lambda>(kept, peers) m.
     if from_operator m then (kept @ [m], peers)
     else
       let peer = sender_agent_id m;
           entry = (case map_of peers peer of
               Some e \<Rightarrow> if t - ra_windowStart e > PEER_RATE_WINDOW_MS then \<lparr> ra_count = 0, ra_windowStart = t \<rparr> else e
             | None \<Rightarrow> \<lparr> ra_count = 0, ra_windowStart = t \<rparr>)
       in if ra_count entry \<ge> PEER_RATE_MAX then (kept, put peer entry peers)
          else (kept @ [m], put peer (entry\<lparr> ra_count := ra_count entry + 1 \<rparr>) peers))"

definition applyPeerRateGate :: "int \<Rightarrow> json list \<Rightarrow> autoreply_state \<Rightarrow> json list \<times> autoreply_state" where
  "applyPeerRateGate t real s =
     (let (kept, peers) = foldl (rate_one t) ([], as_recentInboundByPeer s) real in (kept, s\<lparr> as_recentInboundByPeer := peers \<rparr>))"

section \<open>The rate gate bounds the wakes of a peer\<close>

text \<open>The number of instants from \<open>a\<close> to \<open>b\<close>.\<close>

definition between :: "int list \<Rightarrow> int \<Rightarrow> int \<Rightarrow> nat" where
  "between L a b = length (filter (\<lambda>u. a \<le> u \<and> u \<le> b) L)"

lemma between_append: "between (L @ [u]) a b = between L a b + (if a \<le> u \<and> u \<le> b then 1 else 0)"
  by (simp add: between_def)

lemma between_mono: "a' \<le> a \<Longrightarrow> b \<le> b' \<Longrightarrow> between L a b \<le> between L a' b'"
  unfolding between_def by (induction L) auto

lemma between_split: "between L a b \<le> between L a (c - 1) + between L c b"
  unfolding between_def by (induction L) auto

lemma between_cut: "\<forall>u\<in>set L. u \<le> b \<Longrightarrow> b \<le> b' \<Longrightarrow> between L a b' = between L a b"
  unfolding between_def by (induction L) auto

lemma between_none: "\<forall>u\<in>set L. u < a \<Longrightarrow> between L a b = 0"
  unfolding between_def by (induction L) auto

text \<open>
  The instants \<open>L\<close> at which a peer was let through, against its entry: the window of the entry starts after
  everything that was counted in earlier windows, and the window before it let through no more than the limit either.
\<close>

definition rate_ok :: "int list \<Rightarrow> rate_entry option \<Rightarrow> int \<Rightarrow> bool" where
  "rate_ok L e t \<longleftrightarrow> (\<forall>u\<in>set L. u \<le> t) \<and> (\<forall>a. between L a (a + PEER_RATE_WINDOW_MS) \<le> 2 * PEER_RATE_MAX) \<and>
     (case e of None \<Rightarrow> L = []
      | Some e \<Rightarrow> ra_windowStart e \<le> t \<and> (\<forall>u\<in>set L. u \<le> ra_windowStart e + PEER_RATE_WINDOW_MS) \<and>
          between L (ra_windowStart e) t = ra_count e \<and> ra_count e \<le> PEER_RATE_MAX \<and>
          between L (ra_windowStart e - PEER_RATE_WINDOW_MS) (ra_windowStart e - 1) \<le> PEER_RATE_MAX)"

lemma rate_ok_later: "rate_ok L e t \<Longrightarrow> t \<le> t' \<Longrightarrow> rate_ok L e t'"
  unfolding rate_ok_def using between_cut [of L t t'] by (auto split: option.splits)

lemma rate_ok_renew:
  assumes "rate_ok L e t" "\<And>x. e = Some x \<Longrightarrow> t - ra_windowStart x > PEER_RATE_WINDOW_MS"
  shows "rate_ok L (Some \<lparr> ra_count = 0, ra_windowStart = t \<rparr>) t"
proof (cases e)
  case None
  then show ?thesis using assms(1) by (auto simp: rate_ok_def between_def PEER_RATE_WINDOW_MS_def)
next
  case (Some x)
  note w = assms(2) [OF Some]
  have late: "\<forall>u\<in>set L. u < t" using assms(1) w by (auto simp: rate_ok_def Some)
  have "between L (t - PEER_RATE_WINDOW_MS) (t - 1) \<le> between L (ra_windowStart x) t" using w by (intro between_mono) auto
  then show ?thesis using assms(1) late between_none [OF late]
    by (force simp: rate_ok_def Some PEER_RATE_WINDOW_MS_def)
qed

lemma rate_ok_accept:
  assumes "rate_ok L (Some e) t" "ra_count e < PEER_RATE_MAX" "t - ra_windowStart e \<le> PEER_RATE_WINDOW_MS"
  shows "rate_ok (L @ [t]) (Some (e\<lparr> ra_count := ra_count e + 1 \<rparr>)) t"
proof -
  let ?w = "ra_windowStart e" and ?W = PEER_RATE_WINDOW_MS
  have i: "\<forall>u\<in>set L. u \<le> t" "?w \<le> t" "\<forall>u\<in>set L. u \<le> ?w + ?W" "between L ?w t = ra_count e" "between L (?w - ?W) (?w - 1) \<le> PEER_RATE_MAX"
    "between L a (a + ?W) \<le> 2 * PEER_RATE_MAX" for a using assms(1) by (auto simp: rate_ok_def)
  have "between (L @ [t]) a (a + ?W) \<le> 2 * PEER_RATE_MAX" for a
  proof (cases "a \<le> t \<and> t \<le> a + ?W")
    case True
    have "between L a (a + ?W) \<le> between L (?w - ?W) (a + ?W)" using i(2) True by (intro between_mono) auto
    also have "\<dots> \<le> between L (?w - ?W) (?w - 1) + between L ?w (a + ?W)" by (rule between_split)
    also have "between L ?w (a + ?W) = between L ?w t" using True by (intro between_cut [OF i(1)]) auto
    finally show ?thesis using i(4,5) assms(2) True by (simp add: between_append)
  next
    case False
    then show ?thesis using i(6) [of a] by (auto simp: between_append)
  qed
  moreover have "between (L @ [t]) (?w - ?W) (?w - 1) = between L (?w - ?W) (?w - 1)" "between (L @ [t]) ?w t = ra_count e + 1"
    using i(2,4) by (auto simp: between_append)
  ultimately show ?thesis using i(1-3,5) assms(2,3) by (simp add: rate_ok_def)
qed

text \<open>The gate over one poll after another: what is let through, with its instant.\<close>

fun gate_runs :: "(int \<times> json list) list \<Rightarrow> autoreply_state \<Rightarrow> (int \<times> json) list" where
  "gate_runs [] s = []"
| "gate_runs ((t, real) # calls) s = (let (kept, s') = applyPeerRateGate t real s in map (Pair t) kept @ gate_runs calls s')"

definition wakes_of :: "string \<Rightarrow> (int \<times> json) list \<Rightarrow> int list" where
  "wakes_of p log = map fst (filter (\<lambda>(u, m). \<not> from_operator m \<and> sender_agent_id m = p) log)"

lemma rate_one_ok:
  assumes "rate_ok (L @ wakes_of p (map (Pair t) kept)) (map_of peers p) t" "rate_one t (kept, peers) m = (kept', peers')"
  shows "rate_ok (L @ wakes_of p (map (Pair t) kept')) (map_of peers' p) t"
proof (cases "from_operator m \<or> sender_agent_id m \<noteq> p")
  case True
  then show ?thesis using assms by (auto simp: rate_one_def Let_def wakes_of_def split: if_splits)
next
  case False
  let ?L = "L @ wakes_of p (map (Pair t) kept)"
  define e where "e = (case map_of peers p of
               Some e \<Rightarrow> if t - ra_windowStart e > PEER_RATE_WINDOW_MS then \<lparr> ra_count = 0, ra_windowStart = t \<rparr> else e
             | None \<Rightarrow> \<lparr> ra_count = 0, ra_windowStart = t \<rparr>)"
  have ok: "rate_ok ?L (Some e) t" using assms(1) rate_ok_renew [OF assms(1)] by (auto simp: e_def split: option.splits)
  have win: "t - ra_windowStart e \<le> PEER_RATE_WINDOW_MS" by (auto simp: e_def PEER_RATE_WINDOW_MS_def split: option.splits)
  have "rate_one t (kept, peers) m = (if ra_count e \<ge> PEER_RATE_MAX then (kept, put p e peers) else (kept @ [m], put p (e\<lparr> ra_count := ra_count e + 1 \<rparr>) peers))"
    using False by (auto simp: rate_one_def Let_def e_def)
  then show ?thesis using assms(2) False ok rate_ok_accept [OF ok _ win] by (cases "ra_count e \<ge> PEER_RATE_MAX") (auto simp: wakes_of_def)
qed

lemma rate_fold_ok:
  assumes "rate_ok (L @ wakes_of p (map (Pair t) kept)) (map_of peers p) t" "foldl (rate_one t) (kept, peers) real = (kept', peers')"
  shows "rate_ok (L @ wakes_of p (map (Pair t) kept')) (map_of peers' p) t"
  using assms
proof (induction real arbitrary: kept peers)
  case (Cons m real)
  obtain k q where r: "rate_one t (kept, peers) m = (k, q)" by (cases "rate_one t (kept, peers) m")
  show ?case using Cons.IH [OF rate_one_ok [OF Cons.prems(1) r]] Cons.prems(2) r by simp
qed simp

lemma gate_runs_ok:
  assumes "rate_ok L (map_of (as_recentInboundByPeer s) p) t0" "sorted (t0 # map fst calls)"
  shows "\<exists>e t. rate_ok (L @ wakes_of p (gate_runs calls s)) e t"
  using assms
proof (induction calls arbitrary: s L t0)
  case Nil
  then show ?case by (auto simp: wakes_of_def)
next
  case (Cons c calls)
  obtain t real where c: "c = (t, real)" by (cases c)
  obtain kept peers where f: "foldl (rate_one t) ([], as_recentInboundByPeer s) real = (kept, peers)"
    by (cases "foldl (rate_one t) ([], as_recentInboundByPeer s) real")
  have "rate_ok L (map_of (as_recentInboundByPeer s) p) t" using Cons.prems by (auto simp: c intro: rate_ok_later)
  then have "rate_ok (L @ wakes_of p (map (Pair t) kept)) (map_of peers p) t"
    using rate_fold_ok [OF _ f, of L p] by (simp add: wakes_of_def)
  with Cons.IH [of "L @ wakes_of p (map (Pair t) kept)" "s\<lparr> as_recentInboundByPeer := peers \<rparr>" t] Cons.prems(2)
  show ?case by (simp add: c f applyPeerRateGate_def wakes_of_def)
qed

text \<open>
  C31: The circuit breaker.  Over any sequence of polls, in any sixty seconds, the rate gate lets through at most ten messages of one
  peer: five of a window and five of the one before it.
\<close>

theorem peer_wakes_bounded:
  assumes "sorted (map fst calls)"
  shows "between (wakes_of p (gate_runs calls createAutoReplyState)) t (t + PEER_RATE_WINDOW_MS) \<le> 2 * PEER_RATE_MAX"
proof (cases calls)
  case Nil
  then show ?thesis by (simp add: wakes_of_def between_def)
next
  case (Cons c cs)
  have "rate_ok [] (map_of (as_recentInboundByPeer createAutoReplyState) p) (fst c)"
    by (simp add: createAutoReplyState_def rate_ok_def between_def)
  with gate_runs_ok [of "[]" createAutoReplyState p "fst c" calls] assms show ?thesis by (auto simp: Cons rate_ok_def)
qed

definition peer_message :: "string \<Rightarrow> string \<Rightarrow> json" where
  "peer_message i kind = JObj [(''message_id'', JStr i), (''conversation_id'', JStr ''c1''), (''sender_agent_id'', JStr ''p1''),
     (''sender_kind'', JStr ''agent''), (''message_type'', JStr kind), (''body'', JObj [(''text'', JStr ''hi'')])]"

theorem peer_wakes_bounded_witness:
  "between (wakes_of ''p1'' (gate_runs [(0, replicate 7 (peer_message ''m'' ''direct'')), (5, [peer_message ''n'' ''direct''])] createAutoReplyState))
     0 (0 + PEER_RATE_WINDOW_MS) \<le> 2 * PEER_RATE_MAX"
  by (rule peer_wakes_bounded) simp

section \<open>The latch bounds the wakes of a conversation\<close>

definition peer_in :: "string \<Rightarrow> json \<Rightarrow> bool" where
  "peer_in conv m \<longleftrightarrow> \<not> from_operator m \<and> conversation_id m = conv"

definition how_many :: "string \<Rightarrow> (string \<times> nat) list \<Rightarrow> nat" where
  "how_many conv counts = (case map_of counts conv of Some n \<Rightarrow> n | None \<Rightarrow> 0)"

lemma how_many_put: "how_many c (put d n counts) = (if c = d then n else how_many c counts)"
  by (simp add: how_many_def)

lemma turns_used_how_many: "turns_used s c = how_many c (as_peerTurns s)"
  by (simp add: turns_used_def how_many_def)

lemma budget_normal:
  "isCapped (effectiveConversationBudget b c f) \<Longrightarrow> normalizeTurnBudget (Some (JNum (effectiveConversationBudget b c f))) = effectiveConversationBudget b c f"
  by (simp add: isCapped_def normalizeTurnBudget_def NO_PEER_TURN_LIMIT_def)

text \<open>The conversations that are tracked fit the cap, so that none is forgotten.\<close>

definition tracked :: "string set \<Rightarrow> autoreply_state \<Rightarrow> bool" where
  "tracked K s \<longleftrightarrow> distinct (map fst (as_peerTurns s)) \<and> fst ` set (as_peerTurns s) \<subseteq> K"

lemma short_keys: "distinct (map fst ms) \<Longrightarrow> fst ` set ms \<subseteq> K \<Longrightarrow> finite K \<Longrightarrow> length ms \<le> card K"
  by (metis card_mono distinct_card length_map set_map)

lemma consume_used:
  assumes "tracked K s" "finite K" "card K \<le> PEER_LATCH_CONVERSATION_CAP" "conv \<in> K"
  shows "tracked K (consumePeerLatch s conv)" "turns_used (consumePeerLatch s conv) c = turns_used s c + (if c = conv then 1 else 0)"
proof -
  let ?p = "put conv (turns_used s conv + 1) (as_peerTurns s)"
  have d: "distinct (map fst ?p)" "fst ` set ?p \<subseteq> K" using assms by (auto simp: tracked_def distinct_put fst_put)
  from short_keys [OF this assms(2)] assms(3) have "keep_last PEER_LATCH_CONVERSATION_CAP ?p = ?p" by (simp add: keep_last_def)
  then have c: "as_peerTurns (consumePeerLatch s conv) = ?p" by (simp add: consumePeerLatch_def)
  show "tracked K (consumePeerLatch s conv)" unfolding tracked_def c using d ..
  show "turns_used (consumePeerLatch s conv) c = turns_used s c + (if c = conv then 1 else 0)"
    unfolding turns_used_how_many c how_many_put by simp
qed

lemma reset_used:
  "tracked K s \<Longrightarrow> tracked K (resetPeerLatch s conv)" "c \<noteq> conv \<Longrightarrow> turns_used (resetPeerLatch s conv) c = turns_used s c"
proof -
  have "map_of (filter (\<lambda>m. fst m \<noteq> conv) ms) c = map_of ms c" if "c \<noteq> conv" for ms :: "(string \<times> nat) list" using that by (induction ms) auto
  then show "c \<noteq> conv \<Longrightarrow> turns_used (resetPeerLatch s conv) c = turns_used s c"
    by (simp add: turns_used_how_many how_many_def resetPeerLatch_def remove_key_def)
  show "tracked K s \<Longrightarrow> tracked K (resetPeerLatch s conv)"
    by (auto simp: tracked_def resetPeerLatch_def remove_key_def distinct_map_filter)
qed

text \<open>What holds of one conversation while the messages go by.\<close>

definition latch_ok :: "string set \<Rightarrow> string \<Rightarrow> int \<Rightarrow> nat \<Rightarrow> json list \<Rightarrow> latch_state \<Rightarrow> bool" where
  "latch_ok K conv b used past = (\<lambda>(kept, latched, s). tracked K s \<and>
     turns_used s conv = used + length (filter (peer_in conv) kept) \<and> int (turns_used s conv) \<le> max (int used) b \<and>
     length (filter (peer_in conv) kept) + how_many conv latched = length (filter (peer_in conv) past))"

lemma latch_one_ok:
  assumes "latch_ok K conv (effectiveConversationBudget budgets conv f) used past x"
    and "finite K" "card K \<le> PEER_LATCH_CONVERSATION_CAP" "conversation_id m \<in> K" "isCapped (effectiveConversationBudget budgets conv f)"
  shows "latch_ok K conv (effectiveConversationBudget budgets conv f) used (past @ [m]) (latch_one budgets f x m)"
proof -
  obtain kept latched s where x: "x = (kept, latched, s)" by (cases x)
  note i = assms(1) [unfolded x latch_ok_def prod.case]
  let ?c = "conversation_id m" and ?b = "effectiveConversationBudget budgets (conversation_id m) f"
  consider "from_operator m" | "\<not> from_operator m" "peerLatchOpen s ?c ?b" "isCapped ?b" | "\<not> from_operator m" "peerLatchOpen s ?c ?b" "\<not> isCapped ?b"
    | "\<not> from_operator m" "\<not> peerLatchOpen s ?c ?b" by blast
  then show ?thesis
  proof cases
    case 1
    with i show ?thesis by (simp add: x latch_ok_def latch_one_def peer_in_def)
  next
    case 2
    have "int (turns_used s conv) + 1 \<le> effectiveConversationBudget budgets conv f" if "?c = conv"
      using 2(2) budget_normal [OF assms(5)] assms(5) unfolding that peerLatchOpen_def by simp
    with 2 i consume_used [of K s ?c] assms(2-4) show ?thesis by (auto simp: x latch_ok_def latch_one_def Let_def peer_in_def)
  next
    case 3
    then have "?c \<noteq> conv" using assms(5) by metis
    with 3 i reset_used [where conv = ?c and s = s] show ?thesis by (simp add: x latch_ok_def latch_one_def Let_def peer_in_def)
  next
    case 4
    with i show ?thesis by (auto simp: x latch_ok_def latch_one_def Let_def peer_in_def how_many_put how_many_def [symmetric])
  qed
qed

text \<open>
  The turn budget.  With a budget of \<open>b\<close> turns for a conversation, the latch counts every teammate's message that wakes the agent
  there, and never lets the count pass \<open>b\<close> (or what it was, when the budget has been lowered since); the other messages of
  teammates there are exactly those it reports as withheld, so none disappears.  The conversations at hand must not exceed
  the cap on tracked conversations.
\<close>

theorem latch_bounds_wakes:
  assumes "isCapped (effectiveConversationBudget budgets conv f)" "distinct (map fst (as_peerTurns s))"
    and "card (fst ` set (as_peerTurns s) \<union> conversation_id ` set ms) \<le> PEER_LATCH_CONVERSATION_CAP"
    and "applyPeerLatch ms s budgets f = (kept, latched, s')"
  shows "turns_used s' conv = turns_used s conv + length (filter (peer_in conv) kept) \<and>
     int (turns_used s' conv) \<le> max (int (turns_used s conv)) (effectiveConversationBudget budgets conv f) \<and>
     length (filter (peer_in conv) kept) + how_many conv latched = length (filter (peer_in conv) ms)"
proof -
  let ?K = "fst ` set (as_peerTurns s) \<union> conversation_id ` set ms"
  have "latch_ok ?K conv (effectiveConversationBudget budgets conv f) (turns_used s conv) (past @ ns) (foldl (latch_one budgets f) x ns)"
    if "latch_ok ?K conv (effectiveConversationBudget budgets conv f) (turns_used s conv) past x" "set ns \<subseteq> set ms" for past ns x
    using that
  proof (induction ns arbitrary: past x)
    case (Cons n ns)
    then show ?case using Cons.IH [OF latch_one_ok [OF Cons.prems(1)], of n] assms(1,3) by simp
  qed simp
  from this [of "[]" "([], [], s)" ms] assms(2,4) show ?thesis
    by (simp add: applyPeerLatch_def latch_ok_def tracked_def how_many_def)
qed

theorem latch_bounds_wakes_witness:
  "turns_used (snd (snd (applyPeerLatch (map (\<lambda>i. peer_message i ''direct'') [''m1'', ''m2'', ''m3'']) createAutoReplyState [] 2))) ''c1'' = 2"
proof -
  let ?ms = "map (\<lambda>i. peer_message i ''direct'') [''m1'', ''m2'', ''m3'']"
  let ?r = "applyPeerLatch ?ms createAutoReplyState [] 2"
  have m: "conversation_id ` set ?ms = {''c1''}" by (simp add: conversation_id_def wire_text_def peer_message_def or_empty_def)
  have "turns_used (snd (snd ?r)) ''c1'' = turns_used createAutoReplyState ''c1'' + length (filter (peer_in ''c1'') (fst ?r))"
    using latch_bounds_wakes [of "[]" "''c1''" 2 createAutoReplyState ?ms "fst ?r" "fst (snd ?r)" "snd (snd ?r)"]
    unfolding m by (simp add: createAutoReplyState_def PEER_LATCH_CONVERSATION_CAP_def isCapped_def effectiveConversationBudget_def normalizeTurnBudget_def)
  moreover have "length (filter (peer_in ''c1'') (fst ?r)) = 2" by code_simp
  ultimately show ?thesis by (simp add: createAutoReplyState_def turns_used_def)
qed

section \<open>Refreshes are rationed\<close>

text \<open>Requests to refresh, one after another, with those that were granted.\<close>

fun refresh_runs :: "(int \<times> string) list \<Rightarrow> autoreply_state \<Rightarrow> (int \<times> string) list" where
  "refresh_runs [] s = []"
| "refresh_runs ((t, conv) # calls) s =
     (case noteProgressRefresh s conv t of (True, s') \<Rightarrow> (t, conv) # refresh_runs calls s' | (False, s') \<Rightarrow> refresh_runs calls s')"

definition stamps_of :: "autoreply_state \<Rightarrow> string \<Rightarrow> int list" where
  "stamps_of s c = (case map_of (as_progressRefreshes s) c of Some ts \<Rightarrow> ts | None \<Rightarrow> [])"

definition granted_to :: "string \<Rightarrow> (int \<times> string) list \<Rightarrow> int list" where
  "granted_to c log = map fst (filter (\<lambda>(t, d). d = c) log)"

text \<open>The stamps of a conversation are the grants that a later request can still see.\<close>

definition stamps_ok :: "string set \<Rightarrow> (int \<times> string) list \<Rightarrow> autoreply_state \<Rightarrow> int \<Rightarrow> bool" where
  "stamps_ok K log s t \<longleftrightarrow> distinct (map fst (as_progressRefreshes s)) \<and> fst ` set (as_progressRefreshes s) \<subseteq> K \<and>
     (\<forall>u\<in>fst ` set log. u \<le> t) \<and>
     (\<forall>c. \<forall>t'\<ge>t. filter (\<lambda>u. t' - u < PROGRESS_REFRESH_WINDOW_MS) (stamps_of s c) =
        filter (\<lambda>u. t' - u < PROGRESS_REFRESH_WINDOW_MS) (granted_to c log)) \<and>
     (\<forall>c a. between (granted_to c log) (a - PROGRESS_REFRESH_WINDOW_MS + 1) a \<le> PROGRESS_REFRESH_MAX_PER_WINDOW)"

lemma filter_more: "(\<And>x. x \<in> set L \<Longrightarrow> P x \<Longrightarrow> Q x) \<Longrightarrow> length (filter P L) \<le> length (filter Q L)"
  by (induction L) auto

lemma stamps_step:
  assumes "stamps_ok K log s t0" "t0 \<le> t" "finite K" "card K \<le> PEER_LATCH_CONVERSATION_CAP" "conv \<in> K"
    and "noteProgressRefresh s conv t = (ok, s')"
  shows "stamps_ok K (if ok then log @ [(t, conv)] else log) s' t"
proof -
  let ?W = PROGRESS_REFRESH_WINDOW_MS and ?M = PROGRESS_REFRESH_MAX_PER_WINDOW
  let ?f = "\<lambda>t' L. filter (\<lambda>u. t' - u < ?W) L"
  let ?st = "?f t (stamps_of s conv)" and ?v = "if ok then ?f t (stamps_of s conv) @ [t] else ?f t (stamps_of s conv)"
  note i = assms(1) [unfolded stamps_ok_def]
  let ?p = "put conv ?v (as_progressRefreshes s)"
  have d: "distinct (map fst ?p)" "fst ` set ?p \<subseteq> K" using i assms(5) by (auto simp: distinct_put fst_put)
  from short_keys [OF this assms(3)] assms(4) have "keep_last PEER_LATCH_CONVERSATION_CAP ?p = ?p" by (simp add: keep_last_def)
  then have p: "as_progressRefreshes s' = ?p" and ok: "ok \<longleftrightarrow> length ?st < ?M"
    using assms(6) by (auto simp: noteProgressRefresh_def Let_def stamps_of_def split: if_splits)
  have st: "stamps_of s' c = (if c = conv then ?v else stamps_of s c)" for c by (simp add: stamps_of_def p)
  have g: "granted_to c (log @ [(t, conv)]) = granted_to c log @ (if c = conv then [t] else [])" for c by (simp add: granted_to_def)
  have past: "\<forall>u\<in>set (granted_to c log). u \<le> t" for c using i assms(2) by (fastforce simp: granted_to_def)
  have sees: "?f t' (stamps_of s c) = ?f t' (granted_to c log)" if "t \<le> t'" for t' c using i assms(2) that by (meson order_trans)
  have again: "?f t' (?f t L) = ?f t' L" if "t \<le> t'" for t' L using that by (auto intro!: filter_cong simp: filter_filter)
  have "between (granted_to conv log @ [t]) (a - ?W + 1) a \<le> ?M" if "ok" for a
  proof (cases "a - ?W + 1 \<le> t \<and> t \<le> a")
    case True
    have "between (granted_to conv log) (a - ?W + 1) a \<le> length (?f t (granted_to conv log))"
      unfolding between_def using True by (intro filter_more) auto
    then show ?thesis using that ok sees [of t conv] True by (simp add: between_append)
  next
    case False
    then show ?thesis using i by (auto simp: between_append)
  qed
  moreover have "?f t' (stamps_of s' c) = ?f t' (granted_to c (if ok then log @ [(t, conv)] else log))" if "t \<le> t'" for t' c
    using sees [OF that, of c] again [OF that, of "stamps_of s conv"] by (cases "c = conv") (simp_all add: st g)
  ultimately show ?thesis using i d assms(2) unfolding stamps_ok_def p by (auto simp: g)
qed

lemma refresh_runs_ok:
  assumes "stamps_ok K log s t0" "sorted (t0 # map fst calls)" "finite K" "card K \<le> PEER_LATCH_CONVERSATION_CAP" "snd ` set calls \<subseteq> K"
  shows "\<exists>s' t. stamps_ok K (log @ refresh_runs calls s) s' t"
  using assms(1,2,5)
proof (induction calls arbitrary: s log t0)
  case Nil
  then show ?case by auto
next
  case (Cons c calls)
  obtain t conv where c: "c = (t, conv)" by (cases c)
  obtain ok s' where n: "noteProgressRefresh s conv t = (ok, s')" by (cases "noteProgressRefresh s conv t")
  have "stamps_ok K (if ok then log @ [(t, conv)] else log) s' t"
    using Cons.prems by (intro stamps_step [OF Cons.prems(1) _ assms(3,4) _ n]) (auto simp: c)
  from Cons.IH [OF this] Cons.prems(2,3) show ?case by (cases ok) (auto simp: c n)
qed

text \<open>
  Progress signals are rationed.  In any hour at most five signals of one conversation refresh its turn budget, however many are sent,
  as long as the conversations at hand do not exceed the cap on tracked conversations.
\<close>

theorem refreshes_rationed:
  assumes "sorted (map fst calls)" "card (snd ` set calls) \<le> PEER_LATCH_CONVERSATION_CAP"
  shows "between (granted_to conv (refresh_runs calls createAutoReplyState)) (t - PROGRESS_REFRESH_WINDOW_MS + 1) t
    \<le> PROGRESS_REFRESH_MAX_PER_WINDOW"
proof (cases calls)
  case Nil
  then show ?thesis by (simp add: granted_to_def between_def)
next
  case (Cons c cs)
  have "stamps_ok (snd ` set calls) [] createAutoReplyState (fst c)"
    by (simp add: stamps_ok_def createAutoReplyState_def granted_to_def between_def stamps_of_def)
  from refresh_runs_ok [OF this, of calls] assms show ?thesis by (auto simp: Cons stamps_ok_def)
qed

theorem refreshes_rationed_witness:
  "between (granted_to ''c1'' (refresh_runs (replicate 9 (7, ''c1'')) createAutoReplyState)) (7 - PROGRESS_REFRESH_WINDOW_MS + 1) 7
    \<le> PROGRESS_REFRESH_MAX_PER_WINDOW"
  by (rule refreshes_rationed) (simp_all add: PEER_LATCH_CONVERSATION_CAP_def)

section \<open>Nothing refused goes unrecorded\<close>

lemma rejects_messages:
  "map rj_message (collectVerificationRejects ms vs self) = filter (\<lambda>m. rejected vs self m \<noteq> None) ms"
  "map rj_message (collectRequireSignedWithheld ms vs self) = filter (withheld vs self) ms"
proof -
  show "map rj_message (collectVerificationRejects ms vs self) = filter (\<lambda>m. rejected vs self m \<noteq> None) ms"
    unfolding collectVerificationRejects_def by (induction ms) (auto simp: map_filter_simps split: option.splits)
qed (simp add: collectRequireSignedWithheld_def comp_def)

lemma count_filter: "count_list (filter P xs) x = (if P x then count_list xs x else 0)"
  by (induction xs) auto

lemma signed_view_operator: "is_operator (signed_view m) \<longleftrightarrow> from_operator m"
  by (simp add: is_operator_def signed_view_def from_operator_def)



end
