(* ===== verification/Inbox_Cache.thy ===== *)
theory Inbox_Cache
  imports Wake_Gate
begin

text \<open>
  The inbox that the OpenClaw plugin shows to its tools, \<^verbatim>\<open>packages/openclaw-plugin/src/autoreply.ts\<close>: a ring of the last
  messages, one per message id, each with its own verdict, under the connection and the generation of trusted keys
  it was filled in, and the verdicts of what was rejected while the ring held it.  The process-wide registry of these caches is a list by
  agent.  An operation that the code performs on the cache it looked up is an operation on the registry here.
\<close>

section \<open>Generations of trust\<close>

text \<open>
  \<^verbatim>\<open>localeCompare\<close> is the order of the runtime's locale: \<open>by_name\<close> sorts the entries in it.
\<close>

definition text_members :: "(string \<times> string) list \<Rightarrow> json" where
  "text_members es = JObj (map (\<lambda>(k, v). (k, JStr v)) es)"

definition trust_value :: "((string \<times> string) list \<Rightarrow> (string \<times> string) list) \<Rightarrow> identity option \<Rightarrow> json" where
  "trust_value by_name i = JArr
     [JArr (map (\<lambda>(k, v). JArr [JStr k, JStr v]) (by_name (case i of None \<Rightarrow> [] | Some x \<Rightarrow> id_pinnedOperatorKeys x))),
      text_members (case i of None \<Rightarrow> [] | Some x \<Rightarrow> or_nil (id_revokedOperatorKeys x)),
      (case i of None \<Rightarrow> JNull | Some x \<Rightarrow> (case id_tofuAt x of None \<Rightarrow> JNull | Some t \<Rightarrow> JStr t))]"

definition verificationGeneration :: "crypto \<Rightarrow> ((string \<times> string) list \<Rightarrow> (string \<times> string) list) \<Rightarrow> identity option \<Rightarrow> string" where
  "verificationGeneration C by_name i = sha256_hex C (plain (trust_value by_name i))"

text \<open>The public key of the identity is an argument.\<close>

definition inboxCacheContext ::
  "crypto \<Rightarrow> ((string \<times> string) list \<Rightarrow> (string \<times> string) list) \<Rightarrow> string \<Rightarrow> string \<Rightarrow> string option \<Rightarrow> (string \<times> identity) option \<Rightarrow> string" where
  "inboxCacheContext C by_name relayBaseUrl agentId fleetId ident =
     sha256_hex C (plain (JArr [JStr relayBaseUrl, JStr agentId, JStr (or_empty fleetId),
        (case ident of None \<Rightarrow> JNull | Some (pub, _) \<Rightarrow> JStr pub)]))
     @ ''.'' @ verificationGeneration C by_name (map_option snd ident)"

definition contextParts :: "string \<Rightarrow> string \<times> string" where
  "contextParts context =
     (if CHR ''.'' \<in> set context
      then (takeWhile (\<lambda>c. c \<noteq> CHR ''.'') context, drop 1 (dropWhile (\<lambda>c. c \<noteq> CHR ''.'') context))
      else (context, context))"

section \<open>Caches\<close>

definition LAST_BATCH_CAP :: nat where
  "LAST_BATCH_CAP = 25"

record cached_entry =
  ce_message :: json
  ce_verification :: "verify_result option"

record batch_meta =
  bm_recorded_at :: "int option"
  bm_operator_trusted :: bool
  bm_roster :: "json list"
  bm_controls :: "json list"
  bm_conversation_history :: json
  bm_peer_autoreply :: bool
  bm_peer_turn_budget :: int
  bm_conversation_budgets :: "(string \<times> json) list"
  bm_peer_turns_used :: "(string \<times> nat) list"

record agent_cache =
  ac_context :: string
  ac_connectionIdentity :: string
  ac_verificationGeneration :: string
  ac_entries :: "(string \<times> cached_entry) list"
  ac_meta :: batch_meta
  ac_rejects :: "(string \<times> verify_result) list"

type_synonym registry = "(string \<times> agent_cache) list"

definition freshCache :: "string \<Rightarrow> (string \<times> verify_result) list \<Rightarrow> agent_cache" where
  "freshCache context rejects =
     \<lparr> ac_context = context, ac_connectionIdentity = fst (contextParts context), ac_verificationGeneration = snd (contextParts context),
       ac_entries = [],
       ac_meta = \<lparr> bm_recorded_at = None, bm_operator_trusted = False, bm_roster = [], bm_controls = [], bm_conversation_history = JObj [],
         bm_peer_autoreply = False, bm_peer_turn_budget = NO_PEER_TURN_LIMIT, bm_conversation_budgets = [], bm_peer_turns_used = [] \<rparr>,
       ac_rejects = rejects \<rparr>"

definition failed_verdict :: "verify_result option \<Rightarrow> bool" where
  "failed_verdict v \<longleftrightarrow> (case v of Some r \<Rightarrow> \<not> vr_verified r | None \<Rightarrow> False)"

text \<open>What remains of a cache under another context: the failures.\<close>

definition kept_rejects :: "crypto \<Rightarrow> agent_cache \<Rightarrow> (string \<times> verify_result) list" where
  "kept_rejects C cache =
     foldl (\<lambda>rs (i, e). if failed_verdict (ce_verification e) \<and> \<not> uncomparable (materialDigest C (ce_message e))
         then put (materialDigest C (ce_message e)) (the (ce_verification e)) rs else rs)
       (ac_rejects cache) (ac_entries cache)"

definition inboxCache :: "crypto \<Rightarrow> string \<Rightarrow> string \<Rightarrow> bool \<Rightarrow> registry \<Rightarrow> agent_cache \<times> registry" where
  "inboxCache C agentId context reader reg =
     (case map_of reg agentId of
        Some cache \<Rightarrow>
          if reader \<and> ac_connectionIdentity cache \<noteq> fst (contextParts context) then (freshCache context [], reg)
          else if reader then (cache, reg)
          else if ac_context cache = context then (cache, reg)
          else (let c = freshCache context (kept_rejects C cache) in (c, put agentId c reg))
      | None \<Rightarrow> (let c = freshCache context [] in (c, put agentId c reg)))"

section \<open>Filling the cache\<close>

definition array_of :: "json option \<Rightarrow> json list" where
  "array_of v = (case v of Some (JArr xs) \<Rightarrow> xs | _ \<Rightarrow> [])"

definition batch_messages :: "json \<Rightarrow> json list" where
  "batch_messages batch = array_of (json_get batch ''messages'')"

definition batch_meta_of :: "int \<Rightarrow> json \<Rightarrow> json option \<Rightarrow> (string \<times> nat) list \<Rightarrow> batch_meta" where
  "batch_meta_of t batch localBudget used =
     \<lparr> bm_recorded_at = Some t, bm_operator_trusted = Envelope.json_truthy (json_get batch ''operator_trusted''),
       bm_roster = array_of (json_get batch ''roster''), bm_controls = array_of (json_get batch ''controls''),
       bm_conversation_history = (if nullish (json_get batch ''conversation_history'') then JObj [] else the (json_get batch ''conversation_history'')),
       bm_peer_autoreply = (case json_get batch ''peer_autoreply'' of Some (JBool b) \<Rightarrow> b | _ \<Rightarrow> False),
       bm_peer_turn_budget = snd (effectivePeerSettings batch (False, localBudget)),
       bm_conversation_budgets = withLocalRoomCap (budget_entries batch) localBudget, bm_peer_turns_used = used \<rparr>"

definition record_message ::
  "crypto \<Rightarrow> (string \<times> verify_result) list \<Rightarrow> (string \<times> cached_entry) list \<Rightarrow> json \<Rightarrow> (string \<times> cached_entry) list" where
  "record_message C rejects es m =
     (if \<not> truthy (wire_text m ''message_id'') then es
      else
        let previous = (case map_of es (message_id m) of
            Some prior \<Rightarrow> if sameSignedMaterial C (ce_message prior) m then ce_verification prior else map_of rejects (materialDigest C m)
          | None \<Rightarrow> map_of rejects (materialDigest C m))
        in remove_key (message_id m) es @ [(message_id m, \<lparr> ce_message = m, ce_verification = previous \<rparr>)])"

definition recordBatch :: "crypto \<Rightarrow> int \<Rightarrow> json \<Rightarrow> json option \<Rightarrow> string \<Rightarrow> string \<Rightarrow> registry \<Rightarrow> registry" where
  "recordBatch C t batch localBudget agentId context reg =
     (let (cache, reg1) = inboxCache C agentId context False reg
      in put agentId (cache\<lparr> ac_meta := batch_meta_of t batch localBudget (bm_peer_turns_used (ac_meta cache)),
            ac_entries := keep_last LAST_BATCH_CAP (foldl (record_message C (ac_rejects cache)) (ac_entries cache) (batch_messages batch)) \<rparr>) reg1)"

definition bind_verdict ::
  "crypto \<Rightarrow> verdicts option \<Rightarrow> (string \<times> verify_result) list \<Rightarrow> (string \<times> cached_entry) list \<Rightarrow> string \<times> verify_result option
   \<Rightarrow> (string \<times> cached_entry) list" where
  "bind_verdict C bound rejects es = (\<lambda>(i, verdict).
     case (verdict, map_of es i) of
       (Some v, Some e) \<Rightarrow>
         (case (case bound of Some b \<Rightarrow> (case map_of b (heldKey C (ce_message e)) of Some w \<Rightarrow> w | None \<Rightarrow> None) | None \<Rightarrow> Some v) of
            Some w \<Rightarrow> put i (e\<lparr> ce_verification := Some (case map_of rejects (materialDigest C (ce_message e)) of Some r \<Rightarrow> r | None \<Rightarrow> w) \<rparr>) es
          | None \<Rightarrow> es)
     | _ \<Rightarrow> es)"

definition bind_reject :: "crypto \<Rightarrow> agent_cache \<Rightarrow> reject \<Rightarrow> agent_cache" where
  "bind_reject C cache r =
     (case (wire_text (rj_message r) ''message_id'', map_of (ac_entries cache) (message_id (rj_message r))) of
        (Some i, Some e) \<Rightarrow>
          if ce_message e = rj_message r \<or> sameSignedMaterial C (ce_message e) (rj_message r) then
            cache\<lparr> ac_entries := put i (e\<lparr> ce_verification := Some (rj_verdict r) \<rparr>) (ac_entries cache),
              ac_rejects := (if vr_verified (rj_verdict r) \<or> uncomparable (materialDigest C (rj_message r)) then ac_rejects cache
                 else put (materialDigest C (rj_message r)) (rj_verdict r) (ac_rejects cache)) \<rparr>
          else cache
      | _ \<Rightarrow> cache)"

definition recordVerifications ::
  "crypto \<Rightarrow> verdicts \<Rightarrow> reject list \<Rightarrow> json list option \<Rightarrow> string \<Rightarrow> string \<Rightarrow> registry \<Rightarrow> registry" where
  "recordVerifications C verifications rejects ms agentId context reg =
     (let (cache, reg1) = inboxCache C agentId context False reg;
          bound = map_option (\<lambda>ms. batchVerdictsByHeldKey C ms verifications) ms;
          cache1 = cache\<lparr> ac_entries := foldl (bind_verdict C bound (ac_rejects cache)) (ac_entries cache) verifications \<rparr>
      in put agentId (foldl (bind_reject C) cache1 rejects) reg1)"

definition recordPeerUsage :: "crypto \<Rightarrow> (string \<times> nat) list \<Rightarrow> string \<Rightarrow> string \<Rightarrow> registry \<Rightarrow> registry" where
  "recordPeerUsage C used agentId context reg =
     (let (cache, reg1) = inboxCache C agentId context False reg
      in put agentId (cache\<lparr> ac_meta := (ac_meta cache)\<lparr> bm_peer_turns_used := used \<rparr> \<rparr>) reg1)"

section \<open>Reading the cache\<close>

datatype generation_state = Current | Stale | Unavailable

record inbox_view =
  iv_generation :: generation_state
  iv_entries :: "cached_entry list"
  iv_messages :: "json list"
  iv_recorded_at :: "int option"
  iv_operator_trusted :: bool
  iv_meta :: batch_meta

definition getCachedInbox :: "crypto \<Rightarrow> string \<Rightarrow> string \<Rightarrow> registry \<Rightarrow> inbox_view \<times> registry" where
  "getCachedInbox C agentId context reg =
     (let (cache, reg1) = inboxCache C agentId context True reg;
          meta = ac_meta cache;
          gen = (if bm_recorded_at meta = None then Unavailable
                 else if ac_verificationGeneration cache = snd (contextParts context) then Current else Stale);
          es = map (\<lambda>(i, e). if gen = Stale \<and> (case ce_verification e of Some v \<Rightarrow> vr_verified v | None \<Rightarrow> False)
                 then e\<lparr> ce_verification := None \<rparr> else e) (ac_entries cache)
      in (\<lparr> iv_generation = gen, iv_entries = es, iv_messages = map ce_message es, iv_recorded_at = bm_recorded_at meta,
            iv_operator_trusted = (if gen = Stale then False else bm_operator_trusted meta), iv_meta = meta \<rparr>, reg1))"

section \<open>A message has one digest\<close>

lemma json_get_sort: "json_get (sort_members m) k = map_option sort_members (json_get m k)"
  by (cases m) (simp_all add: map_of_sort_members map_of_map)

lemma wire_text_sort: "wire_text (sort_members m) k = wire_text m k"
  unfolding wire_text_def json_get_sort by (auto split: option.splits json.splits elim!: sort_members.elims)

lemma comparable_digest: "\<not> uncomparable (materialDigest C m) \<Longrightarrow> materialDigest C m = sha256_hex C (canonicalize m)"
  by (auto simp: materialDigest_def uncomparable_def split: option.splits)

lemma digest_id:
  assumes "inj (sha256_hex C)" "sameSignedMaterial C a b"
  shows "message_id a = message_id b"
proof -
  have "sha256_hex C (canonicalize a) = sha256_hex C (canonicalize b)"
    using assms(2) comparable_digest [of C a] comparable_digest [of C b] unfolding sameSignedMaterial_def by metis
  then have "sort_members a = sort_members b" using assms(1) by (auto dest: injD canonicalize_inj)
  then show ?thesis unfolding message_id_def by (metis wire_text_sort)
qed

lemma in_put_other: "(k', v') \<in> set (put k v ms) \<Longrightarrow> k' = k \<and> v' = v \<or> k' \<noteq> k \<and> (k', v') \<in> set ms"
  by (auto simp: put_def split: if_splits dest: weak_map_of_SomeI)

section \<open>What failed stays failed\<close>

definition entries_ok :: "crypto \<Rightarrow> string set \<Rightarrow> (string \<times> cached_entry) list \<Rightarrow> bool" where
  "entries_ok C R es \<longleftrightarrow> (\<forall>(i, e)\<in>set es. message_id (ce_message e) = i \<and>
     (materialDigest C (ce_message e) \<in> R \<longrightarrow> failed_verdict (ce_verification e)))"

definition rejects_ok :: "(string \<times> verify_result) list \<Rightarrow> bool" where
  "rejects_ok rejects \<longleftrightarrow> (\<forall>(d, v)\<in>set rejects. \<not> vr_verified v)"

definition cache_ok :: "crypto \<Rightarrow> agent_cache \<Rightarrow> bool" where
  "cache_ok C c \<longleftrightarrow> entries_ok C (fst ` set (ac_rejects c)) (ac_entries c) \<and> rejects_ok (ac_rejects c)"

definition registry_ok :: "crypto \<Rightarrow> registry \<Rightarrow> bool" where
  "registry_ok C reg \<longleftrightarrow> (\<forall>(a, c)\<in>set reg. cache_ok C c)"

text \<open>The signed material that an agent's cache knows as rejected.\<close>

definition known_bad :: "registry \<Rightarrow> string \<Rightarrow> string set" where
  "known_bad reg a = (case map_of reg a of Some c \<Rightarrow> fst ` set (ac_rejects c) | None \<Rightarrow> {})"

lemma entries_okD:
  "entries_ok C R es \<Longrightarrow> map_of es i = Some e \<Longrightarrow>
     message_id (ce_message e) = i \<and> (materialDigest C (ce_message e) \<in> R \<longrightarrow> failed_verdict (ce_verification e))"
  unfolding entries_ok_def by (drule map_of_SomeD) (drule (1) bspec, simp)

lemma entries_ok_put:
  "entries_ok C R es \<Longrightarrow> message_id (ce_message e) = i \<Longrightarrow> (materialDigest C (ce_message e) \<in> R \<Longrightarrow> failed_verdict (ce_verification e)) \<Longrightarrow>
     entries_ok C R (put i e es)"
  by (auto simp: entries_ok_def dest!: in_put)

lemma entries_ok_append:
  "entries_ok C R (es @ [(i, e)]) \<longleftrightarrow> entries_ok C R es \<and> message_id (ce_message e) = i \<and>
     (materialDigest C (ce_message e) \<in> R \<longrightarrow> failed_verdict (ce_verification e))"
  by (auto simp: entries_ok_def)

lemma entries_ok_mono: "entries_ok C R es \<Longrightarrow> set es' \<subseteq> set es \<Longrightarrow> entries_ok C R es'"
  by (auto simp: entries_ok_def)

lemma rejects_ok_put: "rejects_ok rs \<Longrightarrow> \<not> vr_verified v \<Longrightarrow> rejects_ok (put d v rs)"
  by (auto simp: rejects_ok_def dest!: in_put)

lemma rejects_lookup: "rejects_ok rs \<Longrightarrow> d \<in> fst ` set rs \<Longrightarrow> failed_verdict (map_of rs d)"
  by (cases "map_of rs d") (auto simp: rejects_ok_def failed_verdict_def map_of_eq_None_iff dest!: map_of_SomeD)

lemma kept_rejects_ok:
  assumes "rejects_ok (ac_rejects c)"
  shows "rejects_ok (kept_rejects C c) \<and> fst ` set (ac_rejects c) \<subseteq> fst ` set (kept_rejects C c)"
  unfolding kept_rejects_def
proof (rule foldl_keeps [where P = "\<lambda>rs. rejects_ok rs \<and> fst ` set (ac_rejects c) \<subseteq> fst ` set rs"])
  fix rs x assume rs: "rejects_ok rs \<and> fst ` set (ac_rejects c) \<subseteq> fst ` set rs"
  obtain i and e :: cached_entry where x: "x = (i, e)" by (cases x)
  from rs show "rejects_ok ((\<lambda>(i, e). if failed_verdict (ce_verification e) \<and> \<not> uncomparable (materialDigest C (ce_message e))
        then put (materialDigest C (ce_message e)) (the (ce_verification e)) rs else rs) x) \<and>
    fst ` set (ac_rejects c) \<subseteq> fst ` set ((\<lambda>(i, e). if failed_verdict (ce_verification e) \<and> \<not> uncomparable (materialDigest C (ce_message e))
        then put (materialDigest C (ce_message e)) (the (ce_verification e)) rs else rs) x)"
    unfolding x prod.case by (auto simp: fst_put failed_verdict_def split: option.splits intro: rejects_ok_put)
qed (use assms in simp)

lemma freshCache_ok: "rejects_ok rs \<Longrightarrow> cache_ok C (freshCache context rs)" "ac_rejects (freshCache context rs) = rs"
  by (simp_all add: cache_ok_def entries_ok_def freshCache_def)

lemma registry_ok_put: "registry_ok C reg \<Longrightarrow> cache_ok C c \<Longrightarrow> registry_ok C (put a c reg)"
  by (auto simp: registry_ok_def dest!: in_put)

lemma registry_okD: "registry_ok C reg \<Longrightarrow> map_of reg a = Some c \<Longrightarrow> cache_ok C c"
  by (auto simp: registry_ok_def dest!: map_of_SomeD)

lemma known_bad_put: "known_bad (put a c reg) b = (if b = a then fst ` set (ac_rejects c) else known_bad reg b)"
  by (simp add: known_bad_def)

lemma inboxCache_ok:
  assumes "registry_ok C reg" "inboxCache C a context reader reg = (c, reg')"
  shows "cache_ok C c \<and> registry_ok C reg' \<and> (\<forall>b. known_bad reg b \<subseteq> known_bad reg' b) \<and> (\<not> reader \<longrightarrow> map_of reg' a = Some c)"
proof (cases "map_of reg a")
  case None
  then have "known_bad reg a = {}" by (simp add: known_bad_def)
  then show ?thesis using assms None
    by (auto simp: inboxCache_def Let_def known_bad_put rejects_ok_def intro!: registry_ok_put freshCache_ok split: if_splits)
next
  case (Some x)
  have "cache_ok C x" by (rule registry_okD [OF assms(1) Some])
  then have k: "rejects_ok (kept_rejects C x) \<and> fst ` set (ac_rejects x) \<subseteq> fst ` set (kept_rejects C x)"
    by (intro kept_rejects_ok) (simp add: cache_ok_def)
  have "known_bad reg a = fst ` set (ac_rejects x)" by (simp add: known_bad_def Some)
  with k \<open>cache_ok C x\<close> show ?thesis using assms Some
    by (auto simp: inboxCache_def Let_def known_bad_put freshCache_ok rejects_ok_def [of "[]"] intro!: registry_ok_put freshCache_ok split: if_splits)
      (metis fst_conv image_eqI subsetD)
qed

lemma record_message_ok:
  assumes "entries_ok C (fst ` set rs) es" "rejects_ok rs"
  shows "entries_ok C (fst ` set rs) (record_message C rs es m)"
proof (cases "truthy (wire_text m ''message_id'')")
  case True
  let ?p = "case map_of es (message_id m) of
            Some prior \<Rightarrow> if sameSignedMaterial C (ce_message prior) m then ce_verification prior else map_of rs (materialDigest C m)
          | None \<Rightarrow> map_of rs (materialDigest C m)"
  have "failed_verdict ?p" if "materialDigest C m \<in> fst ` set rs"
    using that entries_okD [OF assms(1)] rejects_lookup [OF assms(2) that]
    by (cases "map_of es (message_id m)") (simp_all add: sameSignedMaterial_def)
  moreover have "entries_ok C (fst ` set rs) (remove_key (message_id m) es)"
    by (rule entries_ok_mono [OF assms(1)]) (auto simp: remove_key_def)
  ultimately show ?thesis using True by (simp add: record_message_def entries_ok_append)
qed (use assms(1) in \<open>simp add: record_message_def\<close>)

lemma bind_verdict_ok:
  assumes "entries_ok C (fst ` set rs) es" "rejects_ok rs"
  shows "entries_ok C (fst ` set rs) (bind_verdict C bound rs es x)"
proof -
  obtain i verdict where x: "x = (i, verdict)" by (cases x)
  show ?thesis
  proof (cases "verdict = None \<or> map_of es i = None")
    case True
    then have "bind_verdict C bound rs es x = es" by (auto simp: bind_verdict_def x split: option.splits)
    with assms(1) show ?thesis by simp
  next
    case False
    then obtain v e where v: "verdict = Some v" and e: "map_of es i = Some e" by auto
    let ?w = "case bound of Some b \<Rightarrow> (case map_of b (heldKey C (ce_message e)) of Some w \<Rightarrow> w | None \<Rightarrow> None) | None \<Rightarrow> Some v"
    let ?v = "\<lambda>w. Some (case map_of rs (materialDigest C (ce_message e)) of Some r \<Rightarrow> r | None \<Rightarrow> w)"
    have b: "bind_verdict C bound rs es x = (case ?w of Some w \<Rightarrow> put i (e\<lparr> ce_verification := ?v w \<rparr>) es | None \<Rightarrow> es)"
      by (simp add: bind_verdict_def x v e)
    have "failed_verdict (?v w)" if "materialDigest C (ce_message e) \<in> fst ` set rs" for w
      using rejects_lookup [OF assms(2) that] by (auto simp: failed_verdict_def split: option.splits)
    then have "entries_ok C (fst ` set rs) (put i (e\<lparr> ce_verification := ?v w \<rparr>) es)" for w
      using entries_okD [OF assms(1) e] by (intro entries_ok_put [OF assms(1)]) simp_all
    then show ?thesis using assms(1) unfolding b by (cases ?w) simp_all
  qed
qed

lemma bind_reject_cases:
  assumes "\<not> vr_verified (rj_verdict r)"
  obtains "bind_reject C c r = c"
  | e where "wire_text (rj_message r) ''message_id'' = Some (message_id (rj_message r))" "map_of (ac_entries c) (message_id (rj_message r)) = Some e"
      "ce_message e = rj_message r \<or> sameSignedMaterial C (ce_message e) (rj_message r)"
      "bind_reject C c r = c\<lparr> ac_entries := put (message_id (rj_message r)) (e\<lparr> ce_verification := Some (rj_verdict r) \<rparr>) (ac_entries c),
        ac_rejects := (if uncomparable (materialDigest C (rj_message r)) then ac_rejects c
          else put (materialDigest C (rj_message r)) (rj_verdict r) (ac_rejects c)) \<rparr>"
proof (cases "bind_reject C c r = c")
  case False
  then obtain i e where e: "wire_text (rj_message r) ''message_id'' = Some i" "map_of (ac_entries c) (message_id (rj_message r)) = Some e"
    "ce_message e = rj_message r \<or> sameSignedMaterial C (ce_message e) (rj_message r)"
    by (auto simp: bind_reject_def split: option.splits if_splits)
  then have "message_id (rj_message r) = i" by (simp add: message_id_def or_empty_def)
  with e assms show thesis by (intro that(2) [of e]) (simp_all add: bind_reject_def)
qed

lemma bind_reject_ok:
  assumes "inj (sha256_hex C)" "cache_ok C c" "\<not> vr_verified (rj_verdict r)"
  shows "cache_ok C (bind_reject C c r) \<and> fst ` set (ac_rejects c) \<subseteq> fst ` set (ac_rejects (bind_reject C c r))"
  using assms(3)
proof (cases rule: bind_reject_cases [of r C c])
  case 1
  with assms(2) show ?thesis by simp
next
  case (2 e)
  let ?m = "rj_message r" and ?i = "message_id (rj_message r)"
  let ?es = "put ?i (e\<lparr> ce_verification := Some (rj_verdict r) \<rparr>) (ac_entries c)"
  note ok = assms(2) [unfolded cache_ok_def]
  have id: "message_id (ce_message e) = ?i" using 2(3) digest_id [OF assms(1)] by auto
  then have same: "entries_ok C (fst ` set (ac_rejects c)) ?es"
    using assms(3) by (intro entries_ok_put [OF conjunct1 [OF ok]]) (simp_all add: failed_verdict_def)
  show ?thesis
  proof (cases "uncomparable (materialDigest C ?m)")
    case True
    with same ok show ?thesis by (simp add: 2(4) cache_ok_def)
  next
    case False
    have "j = ?i" if "(j, x) \<in> set (ac_entries c)" "materialDigest C (ce_message x) = materialDigest C ?m" for j x
      using conjunct1 [OF ok] that digest_id [OF assms(1), of "ce_message x" ?m] False by (auto simp: entries_ok_def sameSignedMaterial_def)
    with conjunct1 [OF ok] id have "entries_ok C (fst ` set (put (materialDigest C ?m) (rj_verdict r) (ac_rejects c))) ?es"
      using assms(3) unfolding entries_ok_def fst_put by (fastforce simp: failed_verdict_def dest!: in_put_other)
    with False ok assms(3) show ?thesis by (auto simp: 2(4) cache_ok_def fst_put intro: rejects_ok_put)
  qed
qed

text \<open>The operations of producers and readers, of any agent and under any context.\<close>

inductive cache_step :: "crypto \<Rightarrow> registry \<Rightarrow> registry \<Rightarrow> bool" for C where
  Step_batch: "cache_step C reg (recordBatch C t batch localBudget a context reg)"
| Step_verify: "(\<And>r. r \<in> set rejects \<Longrightarrow> \<not> vr_verified (rj_verdict r)) \<Longrightarrow>
    cache_step C reg (recordVerifications C vs rejects ms a context reg)"
| Step_usage: "cache_step C reg (recordPeerUsage C used a context reg)"
| Step_read: "cache_step C reg (snd (getCachedInbox C a context reg))"

text \<open>A cache is labelled with the parts of its context, and has entries only once a batch was recorded.\<close>

definition label_ok :: "agent_cache \<Rightarrow> bool" where
  "label_ok c \<longleftrightarrow> (ac_connectionIdentity c, ac_verificationGeneration c) = contextParts (ac_context c) \<and>
     (ac_entries c \<noteq> [] \<longrightarrow> bm_recorded_at (ac_meta c) \<noteq> None) \<and> length (ac_entries c) \<le> LAST_BATCH_CAP"

definition labelled :: "registry \<Rightarrow> bool" where
  "labelled reg \<longleftrightarrow> (\<forall>(a, c)\<in>set reg. label_ok c)"

lemma labelled_put: "labelled reg \<Longrightarrow> label_ok c \<Longrightarrow> labelled (put a c reg)"
  by (auto simp: labelled_def dest!: in_put)

lemma freshCache_label: "label_ok (freshCache context rs)"
  by (simp add: label_ok_def freshCache_def)

lemma inboxCache_label:
  assumes "labelled reg" "inboxCache C a context reader reg = (c, reg')"
  shows "label_ok c \<and> labelled reg'"
proof (cases "map_of reg a")
  case None
  then show ?thesis using assms by (auto simp: inboxCache_def Let_def freshCache_label intro: labelled_put)
next
  case (Some x)
  have "label_ok x" using assms(1) map_of_SomeD [OF Some] by (auto simp: labelled_def)
  then show ?thesis using assms Some by (auto simp: inboxCache_def Let_def freshCache_label split: if_splits intro: labelled_put)
qed

lemma length_put_present: "map_of ms k = Some v \<Longrightarrow> length (put k w ms) = length ms"
  by (simp add: put_def)

lemma bind_verdict_length: "length (bind_verdict C bound rs es x) = length es"
  by (auto simp: bind_verdict_def length_put_present split: prod.splits option.splits)

lemma bind_reject_label: "label_ok c \<Longrightarrow> label_ok (bind_reject C c r)"
  by (auto simp: bind_reject_def label_ok_def length_put_present put_def message_id_def or_empty_def split: option.splits)

lemma cache_step_label:
  assumes "labelled reg" "cache_step C reg reg'"
  shows "labelled reg'"
  using assms(2)
proof cases
  case (Step_batch t batch lb a ctx)
  obtain c reg1 where i: "inboxCache C a ctx False reg = (c, reg1)" by (cases "inboxCache C a ctx False reg")
  have "label_ok c \<and> labelled reg1" by (rule inboxCache_label [OF assms(1) i])
  then show ?thesis unfolding Step_batch recordBatch_def i Let_def prod.case
    by (intro labelled_put) (auto simp: label_ok_def batch_meta_of_def length_keep_last)
next
  case (Step_verify rejects vs ms a ctx)
  obtain c reg1 where i: "inboxCache C a ctx False reg = (c, reg1)" by (cases "inboxCache C a ctx False reg")
  have l: "label_ok c \<and> labelled reg1" by (rule inboxCache_label [OF assms(1) i])
  have len: "length (foldl (bind_verdict C b rs) es vs) = length es" for b rs es
    by (rule foldl_keeps [where P = "\<lambda>x. length x = length es"]) (simp_all add: bind_verdict_length)
  have "ac_entries c = [] \<longrightarrow> foldl (bind_verdict C b rs) (ac_entries c) vs = []" for b rs
    using len [of b rs "ac_entries c"] by auto
  then have "label_ok (foldl (bind_reject C) (c\<lparr> ac_entries := foldl (bind_verdict C b rs) (ac_entries c) vs \<rparr>) rejects)" for b rs
    by (intro foldl_keeps [where P = label_ok]) (use l len [of b rs "ac_entries c"] in \<open>auto simp: label_ok_def [of "c\<lparr> ac_entries := _ \<rparr>"] label_ok_def [of c] intro: bind_reject_label\<close>)
  then show ?thesis unfolding Step_verify recordVerifications_def i Let_def prod.case using l by (intro labelled_put) auto
next
  case (Step_usage used a ctx)
  obtain c reg1 where i: "inboxCache C a ctx False reg = (c, reg1)" by (cases "inboxCache C a ctx False reg")
  have "label_ok c \<and> labelled reg1" by (rule inboxCache_label [OF assms(1) i])
  then show ?thesis unfolding Step_usage recordPeerUsage_def i Let_def prod.case by (intro labelled_put) (auto simp: label_ok_def)
next
  case (Step_read a ctx)
  obtain c reg1 where i: "inboxCache C a ctx True reg = (c, reg1)" by (cases "inboxCache C a ctx True reg")
  show ?thesis using inboxCache_label [OF assms(1) i] unfolding Step_read getCachedInbox_def i by (simp add: Let_def)
qed

lemma writer_ok:
  assumes "registry_ok C reg" "inboxCache C a ctx False reg = (c, reg1)" "cache_ok C c \<Longrightarrow> cache_ok C x \<and> fst ` set (ac_rejects c) \<subseteq> fst ` set (ac_rejects x)"
  shows "registry_ok C (put a x reg1) \<and> known_bad reg b \<subseteq> known_bad (put a x reg1) b"
proof -
  have i: "cache_ok C c" "registry_ok C reg1" "known_bad reg b \<subseteq> known_bad reg1 b" "map_of reg1 a = Some c"
    using inboxCache_ok [OF assms(1,2)] by auto
  have "known_bad reg1 a = fst ` set (ac_rejects c)" by (simp add: known_bad_def i(4))
  with i(3) assms(3) [OF i(1)] have "known_bad reg b \<subseteq> known_bad (put a x reg1) b" unfolding known_bad_put by (cases "b = a") auto
  with assms(3) [OF i(1)] registry_ok_put [OF i(2)] show ?thesis by blast
qed

lemma batch_cache_ok:
  assumes "cache_ok C c"
  shows "cache_ok C (c\<lparr> ac_meta := m, ac_entries := keep_last n (foldl (record_message C (ac_rejects c)) (ac_entries c) ms) \<rparr>)"
proof -
  have "entries_ok C (fst ` set (ac_rejects c)) (foldl (record_message C (ac_rejects c)) (ac_entries c) ms)"
    using assms by (intro foldl_keeps [where P = "entries_ok C (fst ` set (ac_rejects c))"]) (auto simp: cache_ok_def record_message_ok)
  then have "entries_ok C (fst ` set (ac_rejects c)) (keep_last n (foldl (record_message C (ac_rejects c)) (ac_entries c) ms))"
    by (rule entries_ok_mono) (auto dest: keep_last_incl)
  with assms show ?thesis by (simp add: cache_ok_def)
qed

lemma verify_cache_ok:
  fixes bd vs
  assumes "inj (sha256_hex C)" "cache_ok C c" "\<And>r. r \<in> set rejects \<Longrightarrow> \<not> vr_verified (rj_verdict r)"
  defines "y \<equiv> c\<lparr> ac_entries := foldl (bind_verdict C bd (ac_rejects c)) (ac_entries c) vs \<rparr>"
  shows "cache_ok C (foldl (bind_reject C) y rejects) \<and> fst ` set (ac_rejects c) \<subseteq> fst ` set (ac_rejects (foldl (bind_reject C) y rejects))"
proof (rule foldl_keeps [where P = "\<lambda>x. cache_ok C x \<and> fst ` set (ac_rejects c) \<subseteq> fst ` set (ac_rejects x)"])
  have "entries_ok C (fst ` set (ac_rejects c)) (foldl (bind_verdict C bd (ac_rejects c)) (ac_entries c) vs)"
    using assms(2) by (intro foldl_keeps [where P = "entries_ok C (fst ` set (ac_rejects c))"]) (auto simp: cache_ok_def bind_verdict_ok)
  with assms(2) show "cache_ok C y \<and> fst ` set (ac_rejects c) \<subseteq> fst ` set (ac_rejects y)" by (simp add: y_def cache_ok_def)
next
  fix x r assume "r \<in> set rejects" "cache_ok C x \<and> fst ` set (ac_rejects c) \<subseteq> fst ` set (ac_rejects x)"
  with bind_reject_ok [OF assms(1) _ assms(3)] show "cache_ok C (bind_reject C x r) \<and> fst ` set (ac_rejects c) \<subseteq> fst ` set (ac_rejects (bind_reject C x r))"
    by (meson order_trans)
qed

lemma cache_step_ok:
  assumes "inj (sha256_hex C)" "registry_ok C reg" "cache_step C reg reg'"
  shows "registry_ok C reg' \<and> known_bad reg b \<subseteq> known_bad reg' b"
  using assms(3)
proof cases
  case (Step_batch t batch lb a ctx)
  obtain c reg1 where i: "inboxCache C a ctx False reg = (c, reg1)" by (cases "inboxCache C a ctx False reg")
  show ?thesis unfolding Step_batch recordBatch_def i Let_def prod.case by (rule writer_ok [OF assms(2) i]) (simp add: batch_cache_ok)
next
  case (Step_verify rejects vs ms a ctx)
  obtain c reg1 where i: "inboxCache C a ctx False reg = (c, reg1)" by (cases "inboxCache C a ctx False reg")
  show ?thesis unfolding Step_verify(1) recordVerifications_def i Let_def prod.case
    by (rule writer_ok [OF assms(2) i]) (rule verify_cache_ok [OF assms(1) _ Step_verify(2)])
next
  case (Step_usage used a ctx)
  obtain c reg1 where i: "inboxCache C a ctx False reg = (c, reg1)" by (cases "inboxCache C a ctx False reg")
  show ?thesis unfolding Step_usage recordPeerUsage_def i Let_def prod.case by (rule writer_ok [OF assms(2) i]) (simp add: cache_ok_def)
next
  case (Step_read a ctx)
  obtain c reg1 where i: "inboxCache C a ctx True reg = (c, reg1)" by (cases "inboxCache C a ctx True reg")
  show ?thesis using inboxCache_ok [OF assms(2) i] unfolding Step_read getCachedInbox_def i by (auto simp: Let_def)
qed

interpretation inbox_labels: stepping "[]" "cache_step C" labelled for C
  by unfold_locales (simp add: labelled_def, rule cache_step_label)

text \<open>The cache of a crypto whose digests do not collide; the start is any sound registry.\<close>

lemma cache_reach:
  assumes "inj (sha256_hex C)" "registry_ok C reg" "reach reg (cache_step C) reg'"
  shows "registry_ok C reg' \<and> known_bad reg b \<subseteq> known_bad reg' b"
  using assms(3)
proof induction
  case reach_start
  with assms(2) show ?case by simp
next
  case (reach_step s t)
  with cache_step_ok [OF assms(1)] show ?case by (meson order_trans)
qed

lemma view_entry:
  assumes "e \<in> set (iv_entries (fst (getCachedInbox C a ctx reg)))"
  obtains c i e0 where "map_of reg a = Some c" "ac_connectionIdentity c = fst (contextParts ctx)" "(i, e0) \<in> set (ac_entries c)"
    "ce_message e0 = ce_message e" "failed_verdict (ce_verification e0) \<longrightarrow> ce_verification e = ce_verification e0"
    "\<And>v. ce_verification e = Some v \<Longrightarrow> vr_verified v \<Longrightarrow>
       ce_verification e0 = Some v \<and> (bm_recorded_at (ac_meta c) = None \<or> ac_verificationGeneration c = snd (contextParts ctx))"
proof -
  obtain c reg1 where i: "inboxCache C a ctx True reg = (c, reg1)" by (cases "inboxCache C a ctx True reg")
  have "ac_entries c \<noteq> []" using assms by (auto simp: getCachedInbox_def i Let_def)
  then have c: "map_of reg a = Some c" "ac_connectionIdentity c = fst (contextParts ctx)"
    using i by (auto simp: inboxCache_def freshCache_def Let_def split: option.splits if_splits)
  let ?gen = "if bm_recorded_at (ac_meta c) = None then Unavailable
                 else if ac_verificationGeneration c = snd (contextParts ctx) then Current else Stale"
  obtain j e0 where e: "(j, e0) \<in> set (ac_entries c)"
    "e = (if ?gen = Stale \<and> (case ce_verification e0 of Some v \<Rightarrow> vr_verified v | None \<Rightarrow> False) then e0\<lparr> ce_verification := None \<rparr> else e0)"
    using assms by (auto simp: getCachedInbox_def i Let_def)
  show thesis by (rule that [OF c e(1)]) (auto simp: e(2) failed_verdict_def split: option.splits if_splits)
qed

text \<open>
  What failed stays failed: no run of polls, verifications and reads, under whatever keys, ever shows a message that is known as rejected to
  a reader other than as failed.
\<close>

lemma known_bad_view:
  assumes "inj (sha256_hex C)" "reach [] (cache_step C) reg" "reach reg (cache_step C) reg'"
    and "materialDigest C (ce_message e) \<in> known_bad reg a" "e \<in> set (iv_entries (fst (getCachedInbox C a ctx reg')))"
  shows "failed_verdict (ce_verification e)"
proof -
  have "registry_ok C reg" using cache_reach [OF assms(1) _ assms(2)] by (simp add: registry_ok_def)
  from cache_reach [OF assms(1) this assms(3), of a] assms(4) have ok: "registry_ok C reg'" and d: "materialDigest C (ce_message e) \<in> known_bad reg' a" by blast+
  from assms(5) obtain c i e0 where c: "map_of reg' a = Some c" "(i, e0) \<in> set (ac_entries c)" "ce_message e0 = ce_message e"
    "failed_verdict (ce_verification e0) \<longrightarrow> ce_verification e = ce_verification e0" by (rule view_entry)
  have "failed_verdict (ce_verification e0)"
    using bspec [OF conjunct1 [OF registry_okD [OF ok c(1), unfolded cache_ok_def], unfolded entries_ok_def] c(2)] d
    by (simp add: known_bad_def c(1,3))
  with c(4) show ?thesis by simp
qed

text \<open>
  A message is known as rejected once it is rejected while the ring holds it, under its id, in the context of the rejection.  A message that
  the ring has lost by then, because the batch was longer than the ring or has a later message with that id, is not; nor is an uncomparable one.
\<close>

definition in_ring :: "crypto \<Rightarrow> string \<Rightarrow> string \<Rightarrow> json \<Rightarrow> registry \<Rightarrow> bool" where
  "in_ring C agentId context m reg =
     (case map_of reg agentId of
        Some c \<Rightarrow> ac_context c = context \<and>
          (case map_of (ac_entries c) (message_id m) of Some e \<Rightarrow> sameSignedMaterial C (ce_message e) m | None \<Rightarrow> False)
      | None \<Rightarrow> False)"

text \<open>Verdicts change, messages stay.\<close>

definition holds_message :: "crypto \<Rightarrow> json \<Rightarrow> (string \<times> cached_entry) list \<Rightarrow> bool" where
  "holds_message C m es \<longleftrightarrow> (\<exists>e. map_of es (message_id m) = Some e \<and> sameSignedMaterial C (ce_message e) m)"

lemma holds_put: "holds_message C m es \<Longrightarrow> map_of es i = Some e \<Longrightarrow> ce_message x = ce_message e \<Longrightarrow> holds_message C m (put i x es)"
  by (auto simp: holds_message_def)

lemma holds_verdicts: "holds_message C m es \<Longrightarrow> holds_message C m (foldl (bind_verdict C bound rs) es vs)"
proof (rule foldl_keeps [where P = "holds_message C m"])
  fix es x assume "holds_message C m es"
  then show "holds_message C m (bind_verdict C bound rs es x)"
    by (cases x) (auto simp: bind_verdict_def split: option.splits intro: holds_put)
qed

lemma holds_reject: "holds_message C m (ac_entries c) \<Longrightarrow> \<not> vr_verified (rj_verdict r) \<Longrightarrow> holds_message C m (ac_entries (bind_reject C c r))"
  by (rule bind_reject_cases [of r C c]) (auto intro: holds_put)

lemma reject_grows: "\<not> vr_verified (rj_verdict r) \<Longrightarrow> fst ` set (ac_rejects c) \<subseteq> fst ` set (ac_rejects (bind_reject C c r))"
  by (rule bind_reject_cases [of r C c]) (auto simp: fst_put)

lemma reject_known:
  assumes "holds_message C (rj_message r) (ac_entries c)" "wire_text (rj_message r) ''message_id'' \<noteq> None" "\<not> vr_verified (rj_verdict r)"
  shows "materialDigest C (rj_message r) \<in> fst ` set (ac_rejects (bind_reject C c r))"
proof -
  obtain e where e: "map_of (ac_entries c) (message_id (rj_message r)) = Some e" "sameSignedMaterial C (ce_message e) (rj_message r)"
    using assms(1) by (auto simp: holds_message_def)
  then have "\<not> uncomparable (materialDigest C (rj_message r))" unfolding sameSignedMaterial_def by metis
  with e assms(2,3) show ?thesis by (auto simp: bind_reject_def fst_put)
qed

lemma rejected_is_known:
  assumes "in_ring C a ctx (rj_message r) reg" "r \<in> set rejects" "\<And>q. q \<in> set rejects \<Longrightarrow> \<not> vr_verified (rj_verdict q)"
    and "wire_text (rj_message r) ''message_id'' \<noteq> None"
  shows "materialDigest C (rj_message r) \<in> known_bad (recordVerifications C vs rejects ms a ctx reg) a"
proof -
  obtain c where c: "map_of reg a = Some c" "ac_context c = ctx" "holds_message C (rj_message r) (ac_entries c)"
    using assms(1) by (auto simp: in_ring_def holds_message_def split: option.splits)
  let ?c1 = "c\<lparr> ac_entries := foldl (bind_verdict C (map_option (\<lambda>ms. batchVerdictsByHeldKey C ms vs) ms) (ac_rejects c)) (ac_entries c) vs \<rparr>"
  obtain xs ys where rs: "rejects = xs @ r # ys" using assms(2) by (auto dest: split_list)
  let ?c2 = "foldl (bind_reject C) ?c1 xs"
  have "holds_message C (rj_message r) (ac_entries ?c2)"
    by (rule foldl_keeps [where P = "\<lambda>c. holds_message C (rj_message r) (ac_entries c)"])
      (use c(3) assms(3) in \<open>auto simp: rs intro: holds_verdicts holds_reject\<close>)
  then have "materialDigest C (rj_message r) \<in> fst ` set (ac_rejects (bind_reject C ?c2 r))"
    using assms(2-4) by (intro reject_known) auto
  then have "materialDigest C (rj_message r) \<in> fst ` set (ac_rejects (foldl (bind_reject C) (bind_reject C ?c2 r) ys))"
  proof (rule foldl_keeps [where P = "\<lambda>c. materialDigest C (rj_message r) \<in> fst ` set (ac_rejects c)"])
    fix c :: agent_cache and k assume "k \<in> set ys" and k: "materialDigest C (rj_message r) \<in> fst ` set (ac_rejects c)"
    then have "\<not> vr_verified (rj_verdict k)" using assms(3) by (simp add: rs)
    from subsetD [OF reject_grows [OF this] k] show "materialDigest C (rj_message r) \<in> fst ` set (ac_rejects (bind_reject C c k))" .
  qed
  then show ?thesis by (simp add: recordVerifications_def inboxCache_def c known_bad_def rs)
qed

definition cached_message :: json where
  "cached_message = peer_message ''m1'' ''direct''"

definition cached_failure :: reject where
  "cached_failure = \<lparr> rj_message = cached_message,
     rj_verdict = \<lparr> vr_verified = False, vr_kind = Peer_sender, vr_reason = Some Bad_signature, vr_keyId = None \<rparr> \<rparr>"

definition cached_registry :: registry where
  "cached_registry = recordVerifications sample_crypto [] [cached_failure] None ''a'' ''x.g1''
     (recordBatch sample_crypto 0 (JObj [(''messages'', JArr [cached_message])]) None ''a'' ''x.g1'' [])"

section \<open>A passing verdict holds under the same trust only\<close>

lemma contextParts_dot: "CHR ''.'' \<notin> set h \<Longrightarrow> contextParts (h @ ''.'' @ g) = (h, g)"
proof -
  assume h: "CHR ''.'' \<notin> set h"
  have "takeWhile (\<lambda>c. c \<noteq> CHR ''.'') (h @ ''.'' @ g) = h" "dropWhile (\<lambda>c. c \<noteq> CHR ''.'') (h @ ''.'' @ g) = ''.'' @ g"
    using h by (subst takeWhile_append2 dropWhile_append2; auto)+
  then show ?thesis by (simp add: contextParts_def)
qed

lemma pinned_set:
  assumes "\<And>xs. set (by_name xs) = set xs" "map (\<lambda>(k, v). JArr [JStr k, JStr v]) (by_name xs) = map (\<lambda>(k, v). JArr [JStr k, JStr v]) (by_name ys)"
  shows "set xs = set ys"
proof -
  have i: "inj (\<lambda>(k, v). JArr [JStr k, JStr v])" by (auto simp: inj_def)
  have "by_name xs = by_name ys" by (rule injD [OF inj_mapI [OF i] assms(2)])
  then show ?thesis using assms(1) by metis
qed

lemma generation_binds:
  assumes "inj (sha256_hex C)" "\<And>xs. set (by_name xs) = set xs"
    and "verificationGeneration C by_name (Some i) = verificationGeneration C by_name (Some j)"
  shows "set (id_pinnedOperatorKeys i) = set (id_pinnedOperatorKeys j)" "or_nil (id_revokedOperatorKeys i) = or_nil (id_revokedOperatorKeys j)"
    "id_tofuAt i = id_tofuAt j"
proof -
  have "plain (trust_value by_name (Some i)) = plain (trust_value by_name (Some j))" using assms(1,3) by (auto simp: verificationGeneration_def dest: injD)
  then have v: "trust_value by_name (Some i) = trust_value by_name (Some j)" using plain_inj [of _ "[]" _ "[]"] by simp
  show "set (id_pinnedOperatorKeys i) = set (id_pinnedOperatorKeys j)" using v by (intro pinned_set [OF assms(2)]) (simp add: trust_value_def)
  have "inj (\<lambda>(k :: string, w). (k, JStr w))" by (auto simp: inj_def)
  from injD [OF inj_mapI [OF this]] v show "or_nil (id_revokedOperatorKeys i) = or_nil (id_revokedOperatorKeys j)"
    by (simp add: trust_value_def text_members_def)
  show "id_tofuAt i = id_tofuAt j" using v by (auto simp: trust_value_def split: option.splits)
qed

text \<open>Contexts with the same parts are of the same connection and the same trust.\<close>

lemma context_binds:
  assumes "inj (sha256_hex C)" "\<forall>x. CHR ''.'' \<notin> set (sha256_hex C x)" "\<forall>xs. set (by_name xs) = set xs"
    and "contextParts (inboxCacheContext C by_name u a f (Some (p, i))) = contextParts (inboxCacheContext C by_name u' a f' (Some (q, j)))"
  shows "u = u' \<and> or_empty f = or_empty f' \<and> p = q \<and> set (id_pinnedOperatorKeys i) = set (id_pinnedOperatorKeys j) \<and>
     or_nil (id_revokedOperatorKeys i) = or_nil (id_revokedOperatorKeys j) \<and> id_tofuAt i = id_tofuAt j"
proof -
  let ?h = "\<lambda>u f p. sha256_hex C (plain (JArr [JStr u, JStr a, JStr (or_empty f), JStr p]))" and ?g = "\<lambda>i. verificationGeneration C by_name (Some i)"
  have "contextParts (inboxCacheContext C by_name u a f (Some (p, i))) = (?h u f p, ?g i)" for u f p i
    unfolding inboxCacheContext_def using assms(2) contextParts_dot by auto
  with assms(4) have "?h u f p = ?h u' f' q" "?g i = ?g j" by simp_all
  moreover from this(1) have "JArr [JStr u, JStr a, JStr (or_empty f), JStr p] = JArr [JStr u', JStr a, JStr (or_empty f'), JStr q]"
    using plain_inj [of _ "[]" _ "[]"] injD [OF assms(1)] by (metis delim_simps(1) append_Nil2)
  ultimately show ?thesis using generation_binds [OF assms(1), of by_name i j] assms(3) by simp
qed

text \<open>A run with the log of its verifications: whose cache, under which context, the verdicts and the messages they were computed for.\<close>

record verify_event =
  ev_agent :: string
  ev_context :: string
  ev_verdicts :: verdicts
  ev_messages :: "json list option"

inductive logged_step :: "crypto \<Rightarrow> verify_event list \<times> registry \<Rightarrow> verify_event list \<times> registry \<Rightarrow> bool" for C where
  Log_batch: "logged_step C (L, reg) (L, recordBatch C t batch localBudget a context reg)"
| Log_verify: "(\<And>r. r \<in> set rejects \<Longrightarrow> \<not> vr_verified (rj_verdict r)) \<Longrightarrow>
    logged_step C (L, reg) (\<lparr> ev_agent = a, ev_context = context, ev_verdicts = vs, ev_messages = ms \<rparr> # L, recordVerifications C vs rejects ms a context reg)"
| Log_usage: "logged_step C (L, reg) (L, recordPeerUsage C used a context reg)"
| Log_read: "logged_step C (L, reg) (L, snd (getCachedInbox C a context reg))"

text \<open>
  The event computed this verdict for this message: for a message of the batch with the same id and signed material, under the id of that message;
  without the batch, under the id alone.
\<close>

definition verified_by :: "crypto \<Rightarrow> verify_event \<Rightarrow> json \<Rightarrow> verify_result \<Rightarrow> bool" where
  "verified_by C ev m v \<longleftrightarrow>
     (case ev_messages ev of
        Some ms \<Rightarrow> \<exists>n\<in>set ms. heldKey C n = heldKey C m \<and> map_of (ev_verdicts ev) (id_key n) = Some (Some v)
      | None \<Rightarrow> (message_id m, Some v) \<in> set (ev_verdicts ev))"

lemma verified_by_key: "verified_by C ev m v \<Longrightarrow> heldKey C n = heldKey C m \<Longrightarrow> message_id n = message_id m \<Longrightarrow> verified_by C ev n v"
  by (simp add: verified_by_def split: option.splits)

definition entries_proven :: "crypto \<Rightarrow> (json \<Rightarrow> verify_result \<Rightarrow> bool) \<Rightarrow> (string \<times> cached_entry) list \<Rightarrow> bool" where
  "entries_proven C P es \<longleftrightarrow> (\<forall>(i, e)\<in>set es. message_id (ce_message e) = i \<and>
     (\<forall>v. ce_verification e = Some v \<longrightarrow> vr_verified v \<longrightarrow> P (ce_message e) v))"

definition proven_in :: "crypto \<Rightarrow> verify_event list \<Rightarrow> string \<Rightarrow> string \<Rightarrow> json \<Rightarrow> verify_result \<Rightarrow> bool" where
  "proven_in C L a context m v \<longleftrightarrow> (\<exists>ev\<in>set L. ev_agent ev = a \<and> ev_context ev = context \<and> verified_by C ev m v)"

definition cache_proven :: "crypto \<Rightarrow> verify_event list \<Rightarrow> string \<Rightarrow> agent_cache \<Rightarrow> bool" where
  "cache_proven C L a c \<longleftrightarrow> entries_proven C (proven_in C L a (ac_context c)) (ac_entries c) \<and> rejects_ok (ac_rejects c)"

definition proven :: "crypto \<Rightarrow> verify_event list \<times> registry \<Rightarrow> bool" where
  "proven C = (\<lambda>(L, reg). (\<forall>(a, c)\<in>set reg. cache_proven C L a c) \<and> labelled reg)"

lemma entries_provenD:
  "entries_proven C P es \<Longrightarrow> map_of es i = Some e \<Longrightarrow> message_id (ce_message e) = i \<and> (\<forall>v. ce_verification e = Some v \<longrightarrow> vr_verified v \<longrightarrow> P (ce_message e) v)"
  unfolding entries_proven_def by (drule map_of_SomeD) (drule (1) bspec, simp)

lemma entries_proven_put:
  "entries_proven C P es \<Longrightarrow> message_id (ce_message e) = i \<Longrightarrow> (\<And>v. ce_verification e = Some v \<Longrightarrow> vr_verified v \<Longrightarrow> P (ce_message e) v) \<Longrightarrow>
     entries_proven C P (put i e es)"
  by (auto simp: entries_proven_def dest!: in_put)

lemma entries_proven_sub: "entries_proven C P es \<Longrightarrow> set es' \<subseteq> set es \<Longrightarrow> entries_proven C P es'"
  by (auto simp: entries_proven_def)

lemma cache_proven_mono: "cache_proven C L a c \<Longrightarrow> cache_proven C (ev # L) a c"
  unfolding cache_proven_def entries_proven_def proven_in_def by fastforce

lemma rejects_failing: "rejects_ok rs \<Longrightarrow> map_of rs d = Some v \<Longrightarrow> \<not> vr_verified v"
  by (auto simp: rejects_ok_def dest!: map_of_SomeD)

lemma record_message_proven:
  assumes "entries_proven C (proven_in C L a x) es" "rejects_ok rs"
  shows "entries_proven C (proven_in C L a x) (record_message C rs es m)"
proof (cases "truthy (wire_text m ''message_id'')")
  case True
  let ?p = "case map_of es (message_id m) of
            Some prior \<Rightarrow> if sameSignedMaterial C (ce_message prior) m then ce_verification prior else map_of rs (materialDigest C m)
          | None \<Rightarrow> map_of rs (materialDigest C m)"
  have "proven_in C L a x m v" if v: "?p = Some v" "vr_verified v" for v
  proof -
    obtain prior where p: "map_of es (message_id m) = Some prior" "sameSignedMaterial C (ce_message prior) m" "ce_verification prior = Some v"
      using v rejects_failing [OF assms(2)] by (auto split: option.splits if_splits)
    then have "message_id m = message_id (ce_message prior)" "proven_in C L a x (ce_message prior) v"
      using entries_provenD [OF assms(1) p(1)] v(2) by auto
    then show ?thesis using p(2) verified_by_key [of C _ "ce_message prior" v m] by (auto simp: proven_in_def heldKey_def sameSignedMaterial_def)
  qed
  moreover have "entries_proven C (proven_in C L a x) (remove_key (message_id m) es)"
    by (rule entries_proven_sub [OF assms(1)]) (auto simp: remove_key_def)
  ultimately show ?thesis using True by (auto simp: record_message_def entries_proven_def)
qed (use assms(1) in \<open>simp add: record_message_def\<close>)

lemma bind_verdict_proven:
  assumes "entries_proven C (proven_in C L a x) es" "rejects_ok rs" "ev \<in> set L" "ev_agent ev = a" "ev_context ev = x"
    and "bound = map_option (\<lambda>ms. batchVerdictsByHeldKey C ms (ev_verdicts ev)) (ev_messages ev)" "p \<in> set (ev_verdicts ev)"
  shows "entries_proven C (proven_in C L a x) (bind_verdict C bound rs es p)"
proof -
  obtain i verdict where p: "p = (i, verdict)" by (cases p)
  show ?thesis
  proof (cases "verdict = None \<or> map_of es i = None")
    case True
    then have "bind_verdict C bound rs es p = es" by (auto simp: bind_verdict_def p split: option.splits)
    with assms(1) show ?thesis by simp
  next
    case False
    then obtain v e where v: "verdict = Some v" and e: "map_of es i = Some e" by auto
    let ?w = "case bound of Some b \<Rightarrow> (case map_of b (heldKey C (ce_message e)) of Some w \<Rightarrow> w | None \<Rightarrow> None) | None \<Rightarrow> Some v"
    let ?v = "\<lambda>w. case map_of rs (materialDigest C (ce_message e)) of Some r \<Rightarrow> r | None \<Rightarrow> w"
    have b: "bind_verdict C bound rs es p = (case ?w of Some w \<Rightarrow> put i (e\<lparr> ce_verification := Some (?v w) \<rparr>) es | None \<Rightarrow> es)"
      by (simp add: bind_verdict_def p v e)
    note i = entries_provenD [OF assms(1) e]
    have "proven_in C L a x (ce_message e) w" if w: "?w = Some w" for w
    proof -
      have "verified_by C ev (ce_message e) w"
      proof (cases "ev_messages ev")
        case None
        with w i assms(6,7) show ?thesis by (simp add: verified_by_def p v)
      next
        case (Some ms)
        with w assms(6) have "(heldKey C (ce_message e), Some w) \<in> set (batchVerdictsByHeldKey C ms (ev_verdicts ev))"
          by (auto split: option.splits dest: map_of_SomeD)
        from batchVerdicts_in [OF this] Some show ?thesis by (auto simp: verified_by_def split: if_splits option.splits)
      qed
      with assms(3-5) show ?thesis unfolding proven_in_def by blast
    qed
    then have "entries_proven C (proven_in C L a x) (put i (e\<lparr> ce_verification := Some (?v w) \<rparr>) es)" if "?w = Some w" for w
      using that i rejects_failing [OF assms(2)] by (intro entries_proven_put [OF assms(1)]) (auto split: option.splits)
    then show ?thesis using assms(1) unfolding b by (auto split: option.split)
  qed
qed

lemma bind_reject_proven:
  assumes "cache_proven C L a c" "\<not> vr_verified (rj_verdict r)" "inj (sha256_hex C)"
  shows "cache_proven C L a (bind_reject C c r)"
  using assms(2)
proof (cases rule: bind_reject_cases [of r C c])
  case 1
  with assms(1) show ?thesis by simp
next
  case (2 e)
  have "message_id (ce_message e) = message_id (rj_message r)" using 2(3) digest_id [OF assms(3)] by auto
  with assms(1,2) show ?thesis unfolding 2(4) cache_proven_def by (auto intro!: entries_proven_put rejects_ok_put)
qed

text \<open>Looking a cache up keeps the proofs: a cache of another context is replaced by an empty one.\<close>

lemma inboxCache_proven:
  assumes "\<forall>(a, c)\<in>set reg. cache_proven C L a c" "inboxCache C a x reader reg = (c, reg')"
  shows "(\<forall>(a, c)\<in>set reg'. cache_proven C L a c) \<and> (\<not> reader \<longrightarrow> cache_proven C L a c \<and> ac_context c = x)"
proof (cases "map_of reg a")
  case None
  have "cache_proven C L a (freshCache x [])" by (simp add: cache_proven_def freshCache_def entries_proven_def rejects_ok_def)
  then show ?thesis using assms None by (auto simp: inboxCache_def Let_def freshCache_def dest!: in_put)
next
  case (Some d)
  then have d: "cache_proven C L a d" using assms(1) by (auto dest!: map_of_SomeD)
  then have "cache_proven C L a (freshCache x (kept_rejects C d))"
    using kept_rejects_ok [of d C] by (simp add: cache_proven_def freshCache_def entries_proven_def)
  then show ?thesis using assms d Some by (auto simp: inboxCache_def Let_def freshCache_def split: if_splits dest!: in_put)
qed

lemma put_proven: "\<forall>(a, c)\<in>set reg. cache_proven C L a c \<Longrightarrow> cache_proven C L b x \<Longrightarrow> \<forall>(a, c)\<in>set (put b x reg). cache_proven C L a c"
  by (auto dest!: in_put)

lemma logged_step_proven:
  assumes "inj (sha256_hex C)" "proven C x" "logged_step C x y"
  shows "proven C y"
  using assms(3)
proof cases
  case (Log_batch L reg t batch lb a ctx)
  obtain c reg1 where i: "inboxCache C a ctx False reg = (c, reg1)" by (cases "inboxCache C a ctx False reg")
  have c: "\<forall>(a, c)\<in>set reg1. cache_proven C L a c" "cache_proven C L a c" "ac_context c = ctx"
    using inboxCache_proven [OF _ i, of L] assms(2) Log_batch(1) by (auto simp: proven_def)
  have "entries_proven C (proven_in C L a ctx) (foldl (record_message C (ac_rejects c)) (ac_entries c) (batch_messages batch))"
    using c(2,3) by (intro foldl_keeps [where P = "entries_proven C (proven_in C L a ctx)"]) (auto simp: cache_proven_def record_message_proven)
  then have "entries_proven C (proven_in C L a ctx) (keep_last LAST_BATCH_CAP (foldl (record_message C (ac_rejects c)) (ac_entries c) (batch_messages batch)))"
    by (rule entries_proven_sub) (auto dest: keep_last_incl)
  then have "\<forall>(a, c)\<in>set (recordBatch C t batch lb a ctx reg). cache_proven C L a c"
    using c unfolding recordBatch_def i Let_def prod.case by (intro put_proven) (auto simp: cache_proven_def)
  moreover have "labelled (recordBatch C t batch lb a ctx reg)"
    by (rule cache_step_label [OF _ Step_batch [of C]]) (use assms(2) Log_batch(1) in \<open>simp add: proven_def\<close>)
  ultimately show ?thesis by (simp add: proven_def Log_batch(2))
next
  case (Log_verify rejects L reg a ctx vs ms)
  let ?ev = "\<lparr> ev_agent = a, ev_context = ctx, ev_verdicts = vs, ev_messages = ms \<rparr>"
  let ?bd = "map_option (\<lambda>ms. batchVerdictsByHeldKey C ms vs) ms"
  obtain c reg1 where i: "inboxCache C a ctx False reg = (c, reg1)" by (cases "inboxCache C a ctx False reg")
  have c: "\<forall>(a, c)\<in>set reg1. cache_proven C (?ev # L) a c" "cache_proven C (?ev # L) a c" "ac_context c = ctx"
    using inboxCache_proven [OF _ i, of L] assms(2) Log_verify(1) by (auto simp: proven_def cache_proven_mono)
  have "entries_proven C (proven_in C (?ev # L) a ctx) (foldl (bind_verdict C ?bd (ac_rejects c)) (ac_entries c) vs)"
    using c(2,3) by (intro foldl_keeps [where P = "entries_proven C (proven_in C (?ev # L) a ctx)"])
      (auto simp: cache_proven_def intro!: bind_verdict_proven [where ev = ?ev])
  then have "cache_proven C (?ev # L) a (c\<lparr> ac_entries := foldl (bind_verdict C ?bd (ac_rejects c)) (ac_entries c) vs \<rparr>)"
    using c(2,3) by (simp add: cache_proven_def)
  then have "cache_proven C (?ev # L) a (foldl (bind_reject C) (c\<lparr> ac_entries := foldl (bind_verdict C ?bd (ac_rejects c)) (ac_entries c) vs \<rparr>) rejects)"
    by (rule foldl_keeps [where P = "cache_proven C (?ev # L) a"]) (use Log_verify(3) bind_reject_proven [OF _ _ assms(1)] in blast)
  with c(1) have "\<forall>(a, c)\<in>set (recordVerifications C vs rejects ms a ctx reg). cache_proven C (?ev # L) a c"
    unfolding recordVerifications_def i Let_def prod.case by (intro put_proven)
  moreover have "labelled (recordVerifications C vs rejects ms a ctx reg)"
    by (rule cache_step_label [OF _ Step_verify [of rejects C]]) (use assms(2) Log_verify in \<open>simp_all add: proven_def\<close>)
  ultimately show ?thesis by (simp add: proven_def Log_verify(2))
next
  case (Log_usage L reg used a ctx)
  obtain c reg1 where i: "inboxCache C a ctx False reg = (c, reg1)" by (cases "inboxCache C a ctx False reg")
  have c: "\<forall>(a, c)\<in>set reg1. cache_proven C L a c" "cache_proven C L a c"
    using inboxCache_proven [OF _ i, of L] assms(2) Log_usage(1) by (auto simp: proven_def)
  then have "\<forall>(a, c)\<in>set (recordPeerUsage C used a ctx reg). cache_proven C L a c"
    unfolding recordPeerUsage_def i Let_def prod.case by (intro put_proven) (auto simp: cache_proven_def)
  moreover have "labelled (recordPeerUsage C used a ctx reg)"
    by (rule cache_step_label [OF _ Step_usage [of C]]) (use assms(2) Log_usage(1) in \<open>simp add: proven_def\<close>)
  ultimately show ?thesis by (simp add: proven_def Log_usage(2))
next
  case (Log_read L reg a ctx)
  obtain c reg1 where i: "inboxCache C a ctx True reg = (c, reg1)" by (cases "inboxCache C a ctx True reg")
  have "\<forall>(a, c)\<in>set reg1. cache_proven C L a c" using inboxCache_proven [OF _ i, of L] assms(2) Log_read(1) by (auto simp: proven_def)
  moreover have "labelled (snd (getCachedInbox C a ctx reg))"
    by (rule cache_step_label [OF _ Step_read [of C]]) (use assms(2) Log_read(1) in \<open>simp add: proven_def\<close>)
  ultimately show ?thesis by (simp add: proven_def Log_read(2) getCachedInbox_def i Let_def)
qed

lemma logged_proven:
  assumes "inj (sha256_hex C)" "reach ([], []) (logged_step C) x"
  shows "proven C x"
  using assms(2)
proof induction
  case reach_start
  show ?case by (simp add: proven_def labelled_def)
next
  case (reach_step s t)
  with logged_step_proven [OF assms(1)] show ?case by blast
qed


text \<open>Two letters for every byte: an injective text without dots.\<close>

definition two_letters :: "char \<Rightarrow> string" where
  "two_letters c = [char_of (of_char c div 16 + 65 :: nat), char_of (of_char c mod 16 + 65 :: nat)]"

definition letter_crypto :: crypto where
  "letter_crypto = sample_crypto\<lparr> sha256_hex := (\<lambda>x. concat (map two_letters x)) \<rparr>"

lemma two_letters_inj: "two_letters c = two_letters d \<Longrightarrow> c = d"
proof -
  have r: "of_char c div 16 < (16 :: nat)" "of_char c mod 16 < (16 :: nat)" for c using nat_of_char_less_256 [of c] by (simp_all add: less_mult_imp_div_less)
  assume "two_letters c = two_letters d"
  then have "of_char c div 16 = (of_char d div 16 :: nat)" "of_char c mod 16 = (of_char d mod 16 :: nat)"
    using r [of c] r [of d] by (simp_all add: two_letters_def char_of_eq_iff take_bit_eq_mod)
  then have "of_char c = (of_char d :: nat)" by (metis div_mult_mod_eq)
  then show "c = d" by simp
qed

lemma letter_crypto_laws:
  "inj (sha256_hex letter_crypto)" "\<forall>x. CHR ''.'' \<notin> set (sha256_hex letter_crypto x)"
proof -
  have "concat (map two_letters x) = concat (map two_letters y) \<Longrightarrow> x = y" for x y
  proof (induction x arbitrary: y)
    case Nil
    then show ?case by (cases y) (auto simp: two_letters_def)
  next
    case (Cons c x)
    then obtain d z where y: "y = d # z" by (cases y) (auto simp: two_letters_def)
    with Cons.prems have "two_letters c @ concat (map two_letters x) = two_letters d @ concat (map two_letters z)" by simp
    moreover have "length (two_letters c) = length (two_letters d)" by (simp add: two_letters_def)
    ultimately have "two_letters c = two_letters d" "concat (map two_letters x) = concat (map two_letters z)"
      by auto
    with Cons.IH two_letters_inj show ?case by (auto simp: y)
  qed
  then show "inj (sha256_hex letter_crypto)" by (auto simp: letter_crypto_def inj_def)
  have "CHR ''.'' \<noteq> char_of (n + 65 :: nat)" if "n < 16" for n
  proof
    assume "CHR ''.'' = char_of (n + 65 :: nat)"
    then have "of_char (CHR ''.'') = (of_char (char_of (n + 65) :: char) :: nat)" by simp
    with that show False by (simp add: of_char_of take_bit_eq_mod)
  qed
  moreover have "of_char c div 16 < (16 :: nat)" for c using nat_of_char_less_256 [of c] by (simp add: less_mult_imp_div_less)
  ultimately show "\<forall>x. CHR ''.'' \<notin> set (sha256_hex letter_crypto x)" by (auto simp: letter_crypto_def two_letters_def)
qed

definition trusting :: identity where
  "trusting = \<lparr> id_seedHex = [], id_pinnedOperatorKeys = [(''k'', ''p'')], id_tofuAt = None, id_revokedOperatorKeys = None,
     id_operatorKeyAdmissions = None, id_other = [] \<rparr>"

text \<open>A registry after one poll whose only message verified.\<close>

definition verified_registry :: "crypto \<Rightarrow> string \<Rightarrow> registry" where
  "verified_registry C context = recordVerifications C
     [(''m1'', Some \<lparr> vr_verified = True, vr_kind = Peer_sender, vr_reason = None, vr_keyId = None \<rparr>)] [] None ''a'' context
     (recordBatch C 0 (JObj [(''messages'', JArr [cached_message])]) None ''a'' context [])"

lemma verified_registry_cache:
  "\<exists>c. verified_registry C x = [(''a'', c)] \<and> ac_context c = x \<and> ac_connectionIdentity c = fst (contextParts x) \<and>
     ac_verificationGeneration c = snd (contextParts x) \<and> bm_recorded_at (ac_meta c) = Some 0 \<and>
     ac_entries c = [(''m1'', \<lparr> ce_message = cached_message,
       ce_verification = Some \<lparr> vr_verified = True, vr_kind = Peer_sender, vr_reason = None, vr_keyId = None \<rparr> \<rparr>)]"
proof -
  have m: "wire_text cached_message ''message_id'' = Some ''m1''" by code_simp
  then have "message_id cached_message = ''m1''" by (simp add: message_id_def or_empty_def)
  with m show ?thesis
    by (simp add: verified_registry_def recordVerifications_def recordBatch_def inboxCache_def freshCache_def batch_meta_of_def batch_messages_def array_of_def
        record_message_def bind_verdict_def put_def remove_key_def keep_last_def LAST_BATCH_CAP_def Let_def)
qed


end
