(* ===== verification/Admission.thy ===== *)
theory Admission
  imports Inbox_Cache
begin

text \<open>
  The part of a tick before anything is acknowledged, \<^verbatim>\<open>runTick\<close> of \<^verbatim>\<open>packages/openclaw-plugin/src/autoreply.ts\<close>: a polled batch is
  verified against the pinned keys, published to the cache, filtered, and passed through the gates.  The
  identity is the one that the synchronization of operator keys has left (\<open>Trust_Root\<close>).
\<close>

record loop_options =
  lo_selfAgentId :: string
  lo_peerEnabled :: bool
  lo_peerTurnBudget :: "json option"
  lo_requireSigned :: require_signed
  lo_cacheContext :: string

text \<open>What a tick sees of the world: hashing and signatures, the reading of dates, and the clock.\<close>

record loop_env =
  le_crypto :: crypto
  le_date_of :: "string \<Rightarrow> int option"
  le_now :: int

definition roster_view :: "json \<Rightarrow> roster_entry" where
  "roster_view r = \<lparr> re_agent_id = wire_text r ''agent_id'', re_identity_public_key = wire_text r ''identity_public_key'',
     re_key_id = wire_text r ''key_id'', re_endorsed_by_key_id = wire_text r ''endorsed_by_key_id'',
     re_endorsement_sig = wire_text r ''endorsement_sig'' \<rparr>"

definition batch_verdicts :: "loop_env \<Rightarrow> loop_options \<Rightarrow> identity option \<Rightarrow> json \<Rightarrow> autoreply_state \<Rightarrow> verdicts" where
  "batch_verdicts E opts ident batch s =
     (case ident of
        None \<Rightarrow> []
      | Some i \<Rightarrow> verifyBatch (le_crypto E) (le_date_of E) (id_pinnedOperatorKeys i) (lo_selfAgentId opts) (wire_text batch ''fleet_id'')
          (map roster_view (array_of (json_get batch ''roster''))) (as_seenNonces s) (le_now E) (map signed_view (batch_messages batch)))"

definition durable_verdicts :: "crypto \<Rightarrow> (string \<times> verify_result) list \<Rightarrow> json list \<Rightarrow> verdicts \<Rightarrow> verdicts" where
  "durable_verdicts C rejects ms vs =
     foldl (\<lambda>vs m.
        if uncomparable (materialDigest C m) then vs
        else case map_of rejects (materialDigest C m) of Some v \<Rightarrow> put (id_key m) (Some v) vs | None \<Rightarrow> vs) vs ms"

text \<open>The nonce of an accepted signature.\<close>

definition burned_nonce :: "verdicts \<Rightarrow> json \<Rightarrow> string option" where
  "burned_nonce vs m =
     (case (id_verdict vs m, opt_get (json_get m ''sig_canonical'') ''nonce'') of
        (Some v, Some (JStr n)) \<Rightarrow> if vr_verified v \<and> n \<noteq> [] then Some n else None
      | _ \<Rightarrow> None)"

record admission_result =
  ar_verifications :: verdicts
  ar_rejects :: "reject list"
  ar_real :: "json list"
  ar_budgets :: "(string \<times> json) list"
  ar_settings :: "bool \<times> int"
  ar_state :: autoreply_state
  ar_registry :: registry

definition admit_batch :: "loop_env \<Rightarrow> loop_options \<Rightarrow> identity option \<Rightarrow> json \<Rightarrow> autoreply_state \<Rightarrow> registry \<Rightarrow> admission_result" where
  "admit_batch E opts ident batch s reg =
     (let C = le_crypto E; self = lo_selfAgentId opts; ctx = lo_cacheContext opts; ms = batch_messages batch;
          budgets = withLocalRoomCap (budget_entries batch) (lo_peerTurnBudget opts);
          reg1 = recordBatch C (le_now E) batch (lo_peerTurnBudget opts) self ctx reg;
          (cache, reg2) = inboxCache C self ctx False reg1;
          vs = durable_verdicts C (ac_rejects cache) ms (batch_verdicts E opts ident batch s);
          rejects = collectVerificationRejects ms vs self
            @ (if lo_requireSigned opts = Require then collectRequireSignedWithheld ms vs self else []);
          reg3 = recordVerifications C vs rejects (Some ms) self ctx reg2;
          eff = effectivePeerSettings batch (lo_peerEnabled opts, lo_peerTurnBudget opts);
          s1 = reconcilePeerLatches s budgets (snd eff);
          reg4 = recordPeerUsage C (as_peerTurns s1) self ctx reg3;
          trusted = Envelope.json_truthy (json_get batch ''operator_trusted'');
          real = filter (\<lambda>m. isRealInbound C m self s1 trusted (fst eff) (id_verdict vs m) (lo_requireSigned opts)) ms;
          s2 = foldl (\<lambda>s m. case burned_nonce vs m of Some n \<Rightarrow> markNonceSeen s n | None \<Rightarrow> s) s1 real;
          s3 = snd (refreshBudgetForProgressSignals C s2 ms self (Some vs) (le_now E))
      in \<lparr> ar_verifications = vs, ar_rejects = rejects, ar_real = real, ar_budgets = budgets, ar_settings = eff, ar_state = s3, ar_registry = reg4 \<rparr>)"

text \<open>
  From the qualifying messages to those that get a turn: the operator re-opens the latch, then the rate gate and the latch.  A conversation
  whose latch is closed raises one stall notice (\<open>gr_notices\<close>), until it is re-opened.
\<close>

record gate_result =
  gr_kept :: "json list"
  gr_notices :: "(string \<times> nat \<times> int) list"
  gr_remaining :: "(string \<times> int) list"
  gr_state :: autoreply_state
  gr_registry :: registry

definition raise_notices ::
  "(string \<times> json) list \<Rightarrow> int \<Rightarrow> (string \<times> nat) list \<Rightarrow> autoreply_state \<Rightarrow> (string \<times> nat \<times> int) list \<times> autoreply_state" where
  "raise_notices budgets budget latched s =
     foldl (\<lambda>(ns, s) (conv, pending).
        case markConversationEscalated s conv of
          (True, t) \<Rightarrow> (ns @ [(conv, pending, effectiveConversationBudget budgets conv budget)], t)
        | (False, t) \<Rightarrow> (ns, t)) ([], s) latched"

definition remaining_budgets :: "(string \<times> json) list \<Rightarrow> int \<Rightarrow> json list \<Rightarrow> autoreply_state \<Rightarrow> (string \<times> int) list" where
  "remaining_budgets budgets budget kept s =
     foldl (\<lambda>out m.
        let conv = conversation_id m; b = effectiveConversationBudget budgets conv budget in
        if from_operator m \<or> \<not> isCapped b then out else put conv (max 0 (b - int (turns_used s conv))) out) [] kept"

definition gate_batch :: "loop_env \<Rightarrow> loop_options \<Rightarrow> admission_result \<Rightarrow> gate_result" where
  "gate_batch E opts a =
     (let C = le_crypto E; real = ar_real a; budgets = ar_budgets a; budget = snd (ar_settings a);
          s1 = foldl (\<lambda>s m. if from_operator m then resetPeerLatch s (conversation_id m) else s) (ar_state a) real;
          (rateKept, s2) = applyPeerRateGate (le_now E) real s1;
          (kept, latched, s3) = applyPeerLatch rateKept s2 budgets budget;
          (notices, s4) = raise_notices budgets budget latched s3;
          reg = recordPeerUsage C (as_peerTurns s4) (lo_selfAgentId opts) (lo_cacheContext opts) (ar_registry a);
          s5 = foldl (markSeen C) s4 real
      in \<lparr> gr_kept = kept, gr_notices = notices, gr_remaining = remaining_budgets budgets budget kept s4, gr_state = s5, gr_registry = reg \<rparr>)"

text \<open>What the loop acknowledges: the whole batch, wanted or not.\<close>

definition acknowledged :: "json \<Rightarrow> string list" where
  "acknowledged batch = List.map_filter (\<lambda>m. wire_text m ''message_id'') (batch_messages batch)"

section \<open>A rejection is final\<close>

lemma durable_verdicts_failed:
  assumes "m \<in> set ms" "rejects_ok rejects" "materialDigest C m \<in> fst ` set rejects" "\<not> uncomparable (materialDigest C m)"
  shows "failed_verdict (id_verdict (durable_verdicts C rejects ms vs) m)"
proof -
  let ?f = "\<lambda>vs m. if uncomparable (materialDigest C m) then vs
    else case map_of rejects (materialDigest C m) of Some v \<Rightarrow> put (id_key m) (Some v) vs | None \<Rightarrow> vs"
  let ?P = "\<lambda>vs. failed_verdict (id_verdict vs m)"
  have keep: "?P (?f vs n)" if "?P vs" for vs n
  proof (cases "map_of rejects (materialDigest C n)")
    case (Some v)
    then have "\<not> vr_verified v" using assms(2) by (auto simp: rejects_ok_def dest!: map_of_SomeD)
    with that show ?thesis by (auto simp: Some id_verdict_def failed_verdict_def)
  qed (use that in simp)
  have set: "?P (?f vs m)" for vs
  proof -
    obtain v where "map_of rejects (materialDigest C m) = Some v" using assms(3) by (metis map_of_eq_None_iff not_Some_eq)
    with rejects_lookup [OF assms(2,3)] assms(4) show ?thesis by (simp add: id_verdict_def)
  qed
  obtain xs ys where "ms = xs @ m # ys" using assms(1) by (auto dest: split_list)
  moreover have "?P (foldl ?f (?f (foldl ?f vs xs) m) ys)" by (rule foldl_keeps [where P = ?P]) (simp_all add: set keep)
  ultimately show ?thesis by (simp add: durable_verdicts_def)
qed

lemma signed_failed_sleeps:
  "failed_verdict v \<Longrightarrow> truthy (sig_of (signed_view m)) \<Longrightarrow> \<not> isRealInbound C m self s trusted peers v req"
  by (auto simp: isRealInbound_def whyNotRealInbound_def shouldAutowake_def Let_def failed_verdict_def split: option.splits)

lemma known_never_wakes:
  assumes "inj (sha256_hex (le_crypto E))" "registry_ok (le_crypto E) reg" "reach reg (cache_step (le_crypto E)) reg'"
    and "materialDigest (le_crypto E) m \<in> known_bad reg (lo_selfAgentId opts)" "\<not> uncomparable (materialDigest (le_crypto E) m)"
    and "truthy (sig_of (signed_view m))"
  shows "m \<notin> set (ar_real (admit_batch E opts ident batch s reg'))"
proof
  let ?C = "le_crypto E" and ?a = "lo_selfAgentId opts" and ?ctx = "lo_cacheContext opts" and ?ms = "batch_messages batch"
  assume m: "m \<in> set (ar_real (admit_batch E opts ident batch s reg'))"
  let ?reg1 = "recordBatch ?C (le_now E) batch (lo_peerTurnBudget opts) ?a ?ctx reg'"
  obtain cache reg2 where i: "inboxCache ?C ?a ?ctx False ?reg1 = (cache, reg2)" by (cases "inboxCache ?C ?a ?ctx False ?reg1")
  from cache_reach [OF assms(1,2) reach_step [OF assms(3) Step_batch]]
  have ok: "registry_ok ?C ?reg1" and bad: "known_bad reg ?a \<subseteq> known_bad ?reg1 ?a" by blast+
  from inboxCache_ok [OF ok i] have c: "cache_ok ?C cache" "known_bad ?reg1 ?a \<subseteq> known_bad reg2 ?a" "map_of reg2 ?a = Some cache" by auto
  then have d: "materialDigest ?C m \<in> fst ` set (ac_rejects cache)" using assms(4) bad by (auto simp: known_bad_def)
  let ?vs = "durable_verdicts ?C (ac_rejects cache) ?ms (batch_verdicts E opts ident batch s)"
  have in_ms: "m \<in> set ?ms" and "\<exists>s1 trusted. isRealInbound ?C m ?a s1 trusted
      (fst (effectivePeerSettings batch (lo_peerEnabled opts, lo_peerTurnBudget opts))) (id_verdict ?vs m) (lo_requireSigned opts)"
    using m by (auto simp: admit_batch_def Let_def i)
  moreover have "failed_verdict (id_verdict ?vs m)" using c(1) by (intro durable_verdicts_failed [OF in_ms _ d assms(5)]) (simp add: cache_ok_def)
  ultimately show False using signed_failed_sleeps [OF _ assms(6)] by blast
qed

lemma rejected_fails: "rejected vs self m = Some v \<Longrightarrow> \<not> vr_verified v \<and> wire_text m ''message_id'' \<noteq> None"
  by (simp add: rejected_def split: if_splits option.splits)

lemma collected_fail:
  assumes "r \<in> set (collectVerificationRejects ms vs self) \<or> r \<in> set (collectRequireSignedWithheld ms vs self)"
  shows "\<not> vr_verified (rj_verdict r) \<and> wire_text (rj_message r) ''message_id'' \<noteq> None"
  using assms
proof
  assume "r \<in> set (collectVerificationRejects ms vs self)"
  then obtain m v where "rejected vs self m = Some v" "r = \<lparr> rj_message = m, rj_verdict = v \<rparr>"
    by (fastforce simp: collectVerificationRejects_def map_filter_def)
  with rejected_fails show ?thesis by simp
qed (auto simp: collectRequireSignedWithheld_def withheld_def)

text \<open>A tick leaves what it rejected, and what the ring still holds, known as rejected.\<close>

lemma tick_remembers:
  assumes "inj (sha256_hex (le_crypto E))" "registry_ok (le_crypto E) reg" "r \<in> set (ar_rejects (admit_batch E opts ident batch s reg))"
    and "in_ring (le_crypto E) (lo_selfAgentId opts) (lo_cacheContext opts) (rj_message r)
      (recordBatch (le_crypto E) (le_now E) batch (lo_peerTurnBudget opts) (lo_selfAgentId opts) (lo_cacheContext opts) reg)"
  shows "registry_ok (le_crypto E) (ar_registry (admit_batch E opts ident batch s reg)) \<and>
     materialDigest (le_crypto E) (rj_message r) \<in> known_bad (ar_registry (admit_batch E opts ident batch s reg)) (lo_selfAgentId opts)"
proof -
  let ?C = "le_crypto E" and ?a = "lo_selfAgentId opts" and ?ctx = "lo_cacheContext opts" and ?ms = "batch_messages batch"
  let ?reg1 = "recordBatch ?C (le_now E) batch (lo_peerTurnBudget opts) ?a ?ctx reg"
  obtain cache where i: "inboxCache ?C ?a ?ctx False ?reg1 = (cache, ?reg1)"
    using assms(4) by (auto simp: in_ring_def inboxCache_def split: option.splits)
  define vs where "vs = durable_verdicts ?C (ac_rejects cache) ?ms (batch_verdicts E opts ident batch s)"
  define rs where "rs = collectVerificationRejects ?ms vs ?a @ (if lo_requireSigned opts = Require then collectRequireSignedWithheld ?ms vs ?a else [])"
  let ?reg3 = "recordVerifications ?C vs rs (Some ?ms) ?a ?ctx ?reg1"
  obtain used where a: "ar_rejects (admit_batch E opts ident batch s reg) = rs" "ar_registry (admit_batch E opts ident batch s reg) = recordPeerUsage ?C used ?a ?ctx ?reg3"
    by (simp add: admit_batch_def Let_def i vs_def rs_def)
  have fail: "\<not> vr_verified (rj_verdict q) \<and> wire_text (rj_message q) ''message_id'' \<noteq> None" if "q \<in> set rs" for q
    using that by (intro collected_fail [of q ?ms vs ?a]) (auto simp: rs_def split: if_splits)
  have r: "r \<in> set rs" using assms(3) a(1) by simp
  have "materialDigest ?C (rj_message r) \<in> known_bad ?reg3 ?a"
    by (rule rejected_is_known [OF assms(4) r]) (use fail [OF r] in \<open>auto dest: fail\<close>)
  moreover have "reach reg (cache_step ?C) ?reg3"
    by (rule reach_step, rule reach_step, rule reach_start, rule Step_batch, rule Step_verify) (use fail in blast)
  then have "registry_ok ?C ?reg3" using cache_reach [OF assms(1,2)] by blast
  ultimately show ?thesis unfolding a(2) using cache_step_ok [OF assms(1) _ Step_usage] by blast
qed

text \<open>
  C24: A rejection is final.  Let a tick reject a signed message that the ring still holds when the batch of the tick has been recorded (not one that the ring of
  twenty-five has lost, or that cannot be compared).  Then, after whatever polls, verifications and reads, and whatever the relay serves later, keys and endorsements
  included, no redelivery of the same signed material qualifies to wake the agent.
\<close>

theorem rejected_never_wakes:
  assumes "inj (sha256_hex (le_crypto E))" "reach [] (cache_step (le_crypto E)) reg"
    and "le_crypto E0 = le_crypto E" "lo_selfAgentId opts0 = lo_selfAgentId opts" "r \<in> set (ar_rejects (admit_batch E0 opts0 ident0 batch0 s0 reg))"
    and "in_ring (le_crypto E) (lo_selfAgentId opts) (lo_cacheContext opts0) (rj_message r)
      (recordBatch (le_crypto E) (le_now E0) batch0 (lo_peerTurnBudget opts0) (lo_selfAgentId opts) (lo_cacheContext opts0) reg)"
    and "reach (ar_registry (admit_batch E0 opts0 ident0 batch0 s0 reg)) (cache_step (le_crypto E)) reg'"
    and "sameSignedMaterial (le_crypto E) (rj_message r) m" "truthy (sig_of (signed_view m))"
  shows "m \<notin> set (ar_real (admit_batch E opts ident batch s reg'))"
proof -
  have "registry_ok (le_crypto E) reg" using cache_reach [OF assms(1) _ assms(2)] by (simp add: registry_ok_def)
  then have "registry_ok (le_crypto E) (ar_registry (admit_batch E0 opts0 ident0 batch0 s0 reg))"
    "materialDigest (le_crypto E) (rj_message r) \<in> known_bad (ar_registry (admit_batch E0 opts0 ident0 batch0 s0 reg)) (lo_selfAgentId opts)"
    using tick_remembers [of E0 reg r opts0 ident0 batch0 s0] assms(1,3-6) by auto
  then show ?thesis using assms(1,7,8,9) unfolding sameSignedMaterial_def by (intro known_never_wakes) auto
qed

definition forged_message :: json where
  "forged_message = JObj [(''message_id'', JStr ''m1''), (''conversation_id'', JStr ''c1''), (''sender_agent_id'', JStr ''p1''),
     (''message_type'', JStr ''direct''), (''body'', JObj [(''text'', JStr ''hi'')]), (''agent_sig'', JStr ''x'')]"

definition forged_batch :: json where
  "forged_batch = JObj [(''messages'', JArr [forged_message]), (''peer_autoreply'', JBool True)]"

definition sample_loop_env :: loop_env where
  "sample_loop_env = \<lparr> le_crypto = sample_crypto, le_date_of = (\<lambda>_. None), le_now = 5 \<rparr>"

definition sample_loop_options :: loop_options where
  "sample_loop_options = \<lparr> lo_selfAgentId = ''me'', lo_peerEnabled = True, lo_peerTurnBudget = None, lo_requireSigned = Warn, lo_cacheContext = ''y'' \<rparr>"

text \<open>A tick with no identity in require mode, which rejects the message as unverifiable.\<close>

definition strict_loop_options :: loop_options where
  "strict_loop_options = sample_loop_options\<lparr> lo_requireSigned := Require, lo_cacheContext := ''x'' \<rparr>"

definition forged_registry :: registry where
  "forged_registry = ar_registry (admit_batch sample_loop_env strict_loop_options None forged_batch createAutoReplyState [])"

text \<open>Without the rejection the same message would qualify.\<close>

theorem rejected_never_wakes_witness:
  "forged_message \<notin> set (ar_real (admit_batch sample_loop_env sample_loop_options None forged_batch createAutoReplyState forged_registry)) \<and>
   forged_message \<in> set (ar_real (admit_batch sample_loop_env sample_loop_options None forged_batch createAutoReplyState []))"
proof
  let ?r = "hd (ar_rejects (admit_batch sample_loop_env strict_loop_options None forged_batch createAutoReplyState []))"
  have e: "le_crypto sample_loop_env = sample_crypto" by (simp add: sample_loop_env_def)
  show "forged_message \<notin> set (ar_real (admit_batch sample_loop_env sample_loop_options None forged_batch createAutoReplyState forged_registry))"
  proof (rule rejected_never_wakes [where reg = "[]" and ?E0.0 = sample_loop_env and ?opts0.0 = strict_loop_options and ?ident0.0 = None
        and ?batch0.0 = forged_batch and ?s0.0 = createAutoReplyState and r = ?r])
    show "inj (sha256_hex (le_crypto sample_loop_env))" by (simp add: e sample_crypto_def inj_def)
    show "reach [] (cache_step (le_crypto sample_loop_env)) []" by (rule reach_start)
    show "lo_selfAgentId strict_loop_options = lo_selfAgentId sample_loop_options" by (simp add: strict_loop_options_def)
    show "?r \<in> set (ar_rejects (admit_batch sample_loop_env strict_loop_options None forged_batch createAutoReplyState []))" by code_simp
    show "in_ring (le_crypto sample_loop_env) (lo_selfAgentId sample_loop_options) (lo_cacheContext strict_loop_options) (rj_message ?r)
      (recordBatch (le_crypto sample_loop_env) (le_now sample_loop_env) forged_batch (lo_peerTurnBudget strict_loop_options) (lo_selfAgentId sample_loop_options)
        (lo_cacheContext strict_loop_options) [])" by code_simp
    show "reach (ar_registry (admit_batch sample_loop_env strict_loop_options None forged_batch createAutoReplyState []))
      (cache_step (le_crypto sample_loop_env)) forged_registry" unfolding forged_registry_def by (rule reach_start)
    show "sameSignedMaterial (le_crypto sample_loop_env) (rj_message ?r) forged_message" by code_simp
    show "truthy (sig_of (signed_view forged_message))" by code_simp
  qed simp
  show "forged_message \<in> set (ar_real (admit_batch sample_loop_env sample_loop_options None forged_batch createAutoReplyState []))" by code_simp
qed

end
