(* ===== verification/Auto_Reply.thy ===== *)
theory Auto_Reply
  imports Admission
begin

text \<open>
  The loop of the OpenClaw plugin, \<^verbatim>\<open>startAutoReply\<close> of \<^verbatim>\<open>packages/openclaw-plugin/src/autoreply.ts\<close>, from the acknowledgement of a batch to
  the turns of the agent.  The code is asynchronous: a tick gives up control wherever it awaits the relay or
  a process, and \<^verbatim>\<open>stop()\<close> may come in there.  A tick is therefore cut at its awaits into phases; between two awaits it is a
  function of the state, and what it awaited is an argument.  Dead letters are written to the sink that the plugin configures.
\<close>

section \<open>The floor of each conversation\<close>

text \<open>
  What is put together per conversation is a plain object.  Assigning to its \<^verbatim>\<open>__proto__\<close> makes no member, it
  sets the prototype; and \<^verbatim>\<open>Object.entries\<close> lists the names that are array indices first, in ascending order, then the others as they were made.
\<close>

definition object_put :: "string \<Rightarrow> 'v \<Rightarrow> (string \<times> 'v) list \<Rightarrow> (string \<times> 'v) list" where
  "object_put k v es = (if k = ''__proto__'' then es else put k v es)"

definition array_index :: "string \<Rightarrow> nat option" where
  "array_index k = (case digits_val k of Some n \<Rightarrow> if nat_str n = k \<and> n < 4294967295 then Some n else None | None \<Rightarrow> None)"

definition object_entries :: "(string \<times> 'v) list \<Rightarrow> (string \<times> 'v) list" where
  "object_entries es =
     sort_key (\<lambda>(k, v). the (array_index k)) (filter (\<lambda>(k, v). array_index k \<noteq> None) es) @ filter (\<lambda>(k, v). array_index k = None) es"

lemma set_object_entries [simp]: "set (object_entries es) = set es"
  by (auto simp: object_entries_def)

datatype floor_reply = Floor_granted "json list option" | Floor_held | Floor_failed

record floor_plan =
  fp_floored :: "json list"
  fp_toRelease :: "string list"
  fp_tails :: "(string \<times> json list) list"
  fp_deferred :: "(string \<times> json list) list"

definition plan_conversation :: "(string \<Rightarrow> floor_reply) \<Rightarrow> json list \<Rightarrow> floor_plan \<Rightarrow> string \<Rightarrow> floor_plan" where
  "plan_conversation acquire kept p conv =
     (let msgs = filter (\<lambda>m. conversation_id m = conv) kept in
      if \<forall>m\<in>set msgs. from_operator m then p\<lparr> fp_floored := fp_floored p @ msgs \<rparr>
      else case acquire conv of
          Floor_granted tail \<Rightarrow> p\<lparr> fp_floored := fp_floored p @ msgs, fp_toRelease := fp_toRelease p @ [conv],
            fp_tails := (case tail of Some t \<Rightarrow> object_put conv t (fp_tails p) | None \<Rightarrow> fp_tails p) \<rparr>
        | Floor_held \<Rightarrow> p\<lparr> fp_deferred := object_put conv msgs (fp_deferred p) \<rparr>
        | Floor_failed \<Rightarrow> p\<lparr> fp_floored := fp_floored p @ msgs \<rparr>)"

definition planFloorTurn :: "json list \<Rightarrow> (string \<Rightarrow> floor_reply) \<Rightarrow> floor_plan" where
  "planFloorTurn kept acquire =
     foldl (plan_conversation acquire kept) \<lparr> fp_floored = [], fp_toRelease = [], fp_tails = [], fp_deferred = [] \<rparr>
       (first_seen (map conversation_id kept))"

section \<open>The state of the loop\<close>

datatype phase =
    Idle
  | Acking "json list" verdicts "string option"
  | Planning "json list" verdicts "string option"
  | Spawning covered_stashes "json list"
  | Releasing
  | Late string stash int
  | Retrying "string list"
  | Held_turn string stash

text \<open>
  \<open>lp_turned\<close> are the messages that turns were started with and \<open>lp_dead\<close> the dead letters.  Two members
  are not of the code: \<open>lp_taken\<close> is everything that was acknowledged in order to get a turn, and \<open>lp_dropped\<close> the messages of this batch
  that a turn which did not start leaves behind.
\<close>

record loop_state =
  lp_state :: autoreply_state
  lp_registry :: registry
  lp_stopped :: bool
  lp_unhanded :: "json list"
  lp_covering :: "string list"
  lp_phase :: phase
  lp_dead :: "(json \<times> drop_reason) list"
  lp_turned :: "json list"
  lp_taken :: "json list"
  lp_dropped :: "json list"

definition loop_start :: loop_state where
  "loop_start = \<lparr> lp_state = createAutoReplyState, lp_registry = [], lp_stopped = False, lp_unhanded = [], lp_covering = [], lp_phase = Idle,
     lp_dead = [], lp_turned = [], lp_taken = [], lp_dropped = [] \<rparr>"

definition deadLetterDeferred :: "json list \<Rightarrow> drop_reason \<Rightarrow> loop_state \<Rightarrow> loop_state" where
  "deadLetterDeferred ms reason l = l\<lparr> lp_dead := lp_dead l @ map (\<lambda>m. (m, reason)) ms \<rparr>"

definition set_deferred :: "stashes \<Rightarrow> loop_state \<Rightarrow> loop_state" where
  "set_deferred st l = l\<lparr> lp_state := (lp_state l)\<lparr> as_deferred := st \<rparr> \<rparr>"

definition set_inFlight :: "bool \<Rightarrow> loop_state \<Rightarrow> loop_state" where
  "set_inFlight b l = l\<lparr> lp_state := (lp_state l)\<lparr> as_inFlight := b \<rparr> \<rparr>"

definition flushOnStop :: "loop_state \<Rightarrow> loop_state" where
  "flushOnStop l =
     (let l1 = (deadLetterDeferred (lp_unhanded l) Inflight_stopped l)\<lparr> lp_unhanded := [] \<rparr>;
          gone = filter (\<lambda>(c, s). c \<notin> set (lp_covering l)) (as_deferred (lp_state l));
          l2 = foldl (\<lambda>l cs. deadLetterDeferred (stash_messages (snd cs)) Loop_stopped l) l1 gone
      in set_deferred (filter (\<lambda>(c, s). c \<in> set (lp_covering l)) (as_deferred (lp_state l))) l2)"

definition stop_loop :: "loop_state \<Rightarrow> loop_state" where
  "stop_loop l = (if lp_stopped l then l else flushOnStop (l\<lparr> lp_stopped := True \<rparr>))"

text \<open>The end of a tick.\<close>

definition finish_tick :: "loop_state \<Rightarrow> loop_state" where
  "finish_tick l =
     (let l1 = l\<lparr> lp_phase := Idle, lp_unhanded := [], lp_covering := [] \<rparr> in if lp_stopped l then flushOnStop l1 else l1)"

section \<open>A batch comes in\<close>

definition gated :: "loop_env \<Rightarrow> loop_options \<Rightarrow> identity option \<Rightarrow> json \<Rightarrow> loop_state \<Rightarrow> json list \<times> verdicts \<times> autoreply_state \<times> registry" where
  "gated E opts ident batch l =
     (let a = admit_batch E opts ident batch (lp_state l) (lp_registry l) in
      if ar_real a = [] then ([], ar_verifications a, ar_state a, ar_registry a)
      else let g = gate_batch E opts a in (gr_kept g, ar_verifications a, gr_state g, gr_registry g))"

definition take_batch ::
  "((string \<times> string) list \<Rightarrow> (string \<times> string) list) \<Rightarrow> loop_env \<Rightarrow> loop_options \<Rightarrow> identity option \<Rightarrow> json \<Rightarrow> loop_state \<Rightarrow> loop_state" where
  "take_batch by_name E opts ident batch l =
     (let (kept, vs, s, reg) = gated E opts ident batch l in
      l\<lparr> lp_state := s, lp_registry := reg, lp_unhanded := kept, lp_taken := lp_taken l @ kept,
         lp_phase := Acking kept (batchVerdictsByHeldKey (le_crypto E) (batch_messages batch) vs)
           (Some (verificationGeneration (le_crypto E) by_name ident)) \<rparr>)"

text \<open>A stop while a stall notice is raised: nothing of the batch was acknowledged, the relay delivers it again.\<close>

definition abandon_batch :: "loop_env \<Rightarrow> loop_options \<Rightarrow> identity option \<Rightarrow> json \<Rightarrow> loop_state \<Rightarrow> loop_state" where
  "abandon_batch E opts ident batch l =
     (let (kept, vs, s, reg) = gated E opts ident batch l in finish_tick (stop_loop (l\<lparr> lp_state := s, lp_registry := reg \<rparr>)))"

section \<open>Held-back turns\<close>

definition begin_retry :: "int \<Rightarrow> int \<Rightarrow> loop_state \<Rightarrow> loop_state" where
  "begin_retry ttl nowMs l =
     (case listRetryableDeferred ttl nowMs (as_deferred (lp_state l)) of [] \<Rightarrow> finish_tick l | convs \<Rightarrow> l\<lparr> lp_phase := Retrying convs \<rparr>)"

definition serviceDeferredTurn :: "int \<Rightarrow> int \<Rightarrow> loop_state \<Rightarrow> loop_state" where
  "serviceDeferredTurn ttl nowMs l =
     (if as_inFlight (lp_state l) then finish_tick l
      else case takeExpiredDeferred ttl nowMs (Some 1) (as_deferred (lp_state l)) of
          ([], _) \<Rightarrow> begin_retry ttl nowMs l
        | ((conv, s) # _, st) \<Rightarrow> (set_inFlight True (set_deferred st l))\<lparr> lp_phase := Late conv s nowMs \<rparr>)"

definition runExpiredDeferredTurn :: "int \<Rightarrow> bool \<Rightarrow> loop_state \<Rightarrow> loop_state" where
  "runExpiredDeferredTurn ttl started l =
     (case lp_phase l of
        Late conv s nowMs \<Rightarrow>
          let l1 = set_inFlight False l in
          if started then finish_tick (l1\<lparr> lp_turned := lp_turned l1 @ stash_messages s \<rparr>)
          else begin_retry ttl nowMs (deadLetterDeferred (stash_messages s) Expired_spawn_failed l1)
      | _ \<Rightarrow> l)"

definition retry_rest :: "string list \<Rightarrow> loop_state \<Rightarrow> loop_state" where
  "retry_rest convs l = (if convs = [] then finish_tick l else l\<lparr> lp_phase := Retrying convs \<rparr>)"

definition retry_reply :: "floor_reply \<Rightarrow> loop_state \<Rightarrow> loop_state" where
  "retry_reply reply l =
     (case lp_phase l of
        Retrying [] \<Rightarrow> finish_tick l
      | Retrying (conv # rest) \<Rightarrow>
          if reply = Floor_failed then retry_rest rest l
          else if lp_stopped l then finish_tick l
          else if reply = Floor_held then retry_rest rest l
          else if as_inFlight (lp_state l) then finish_tick l
          else (case map_of (as_deferred (lp_state l)) conv of
              None \<Rightarrow> retry_rest rest (set_deferred (clearDeferred conv (as_deferred (lp_state l))) l)
            | Some s \<Rightarrow> (set_inFlight True (set_deferred (clearDeferred conv (as_deferred (lp_state l))) l))\<lparr> lp_phase := Held_turn conv s \<rparr>)
      | _ \<Rightarrow> l)"

definition runRetryDeferredTurn :: "bool \<Rightarrow> loop_state \<Rightarrow> loop_state" where
  "runRetryDeferredTurn started l =
     (case lp_phase l of
        Held_turn conv s \<Rightarrow>
          let l1 = set_inFlight False l in
          finish_tick (if started then l1\<lparr> lp_turned := lp_turned l1 @ stash_messages s \<rparr>
            else deadLetterDeferred (stash_messages s) Retry_spawn_failed l1)
      | _ \<Rightarrow> l)"

section \<open>The turn of a batch\<close>

definition ack_done :: "int \<Rightarrow> int \<Rightarrow> loop_state \<Rightarrow> loop_state" where
  "ack_done ttl nowMs l =
     (case lp_phase l of
        Acking kept vs g \<Rightarrow>
          if lp_stopped l then finish_tick l
          else if kept = [] then serviceDeferredTurn ttl nowMs l
          else l\<lparr> lp_phase := Planning kept vs g \<rparr>
      | _ \<Rightarrow> l)"

definition stash_one ::
  "crypto \<Rightarrow> verdicts \<Rightarrow> int \<Rightarrow> string option \<Rightarrow> loop_state \<Rightarrow> string \<times> json list \<Rightarrow> loop_state" where
  "stash_one C vs nowMs g l = (\<lambda>(conv, msgs).
     let (drops, st) = stashDeferred C conv msgs vs nowMs g (as_deferred (lp_state l))
     in foldl (\<lambda>l d. deadLetterDeferred (dd_messages d) (dd_reason d) l) (set_deferred st l) drops)"

text \<open>The generation of trust is read again for the turn, \<open>current\<close>: the keys may have changed since the batch was verified.\<close>

definition plan_done :: "crypto \<Rightarrow> int \<Rightarrow> (string \<Rightarrow> floor_reply) \<Rightarrow> int \<Rightarrow> string \<Rightarrow> loop_state \<Rightarrow> loop_state" where
  "plan_done C ttl acquire nowMs current l =
     (case lp_phase l of
        Planning kept vs g \<Rightarrow>
          if lp_stopped l then finish_tick l
          else
            let plan = planFloorTurn kept acquire;
                l1 = foldl (stash_one C vs nowMs g) l (object_entries (fp_deferred plan));
                cover = mergeCoveredStashes C (fp_floored plan) vs nowMs (Some current) (as_deferred (lp_state l1));
                l2 = l1\<lparr> lp_unhanded := [] \<rparr>
            in if fp_floored plan = [] then serviceDeferredTurn ttl nowMs l2
               else (set_inFlight True l2)\<lparr> lp_covering := cs_coveredConversationIds cover, lp_phase := Spawning cover (fp_floored plan) \<rparr>
      | _ \<Rightarrow> l)"

definition spawn_done :: "bool \<Rightarrow> loop_state \<Rightarrow> loop_state" where
  "spawn_done started l =
     (case lp_phase l of
        Spawning cover floored \<Rightarrow>
          let l1 = (set_inFlight False l)\<lparr> lp_covering := [], lp_phase := Releasing \<rparr> in
          if started then
            set_deferred (foldl (\<lambda>st c. clearDeferred c st) (as_deferred (lp_state l1)) (cs_coveredConversationIds cover))
              (l1\<lparr> lp_turned := lp_turned l1 @ cs_messages cover \<rparr>)
          else
            let l2 = l1\<lparr> lp_dropped := lp_dropped l1 @ floored \<rparr> in
            if cs_coveredConversationIds cover \<noteq> [] \<and> lp_stopped l then flushOnStop l2 else l2
      | _ \<Rightarrow> l)"

definition release_done :: "int \<Rightarrow> int \<Rightarrow> loop_state \<Rightarrow> loop_state" where
  "release_done ttl nowMs l =
     (case lp_phase l of Releasing \<Rightarrow> if lp_stopped l then finish_tick l else serviceDeferredTurn ttl nowMs l | _ \<Rightarrow> l)"

section \<open>Runs\<close>

text \<open>One step per await, with any outcome, and a stop at any moment.\<close>

inductive loop_step ::
  "crypto \<Rightarrow> ((string \<times> string) list \<Rightarrow> (string \<times> string) list) \<Rightarrow> loop_options \<Rightarrow> int \<Rightarrow> loop_state \<Rightarrow> loop_state \<Rightarrow> bool"
  for C by_name opts ttl where
  Loop_poll: "lp_phase l = Idle \<Longrightarrow> \<not> lp_stopped l \<Longrightarrow> le_crypto E = C \<Longrightarrow>
    loop_step C by_name opts ttl l (take_batch by_name E opts ident batch l)"
| Loop_abandon: "lp_phase l = Idle \<Longrightarrow> \<not> lp_stopped l \<Longrightarrow> le_crypto E = C \<Longrightarrow>
    loop_step C by_name opts ttl l (abandon_batch E opts ident batch l)"
| Loop_ack: "loop_step C by_name opts ttl l (ack_done ttl nowMs l)"
| Loop_plan: "loop_step C by_name opts ttl l (plan_done C ttl acquire nowMs current l)"
| Loop_spawn: "loop_step C by_name opts ttl l (spawn_done started l)"
| Loop_release: "loop_step C by_name opts ttl l (release_done ttl nowMs l)"
| Loop_late: "loop_step C by_name opts ttl l (runExpiredDeferredTurn ttl started l)"
| Loop_retry: "loop_step C by_name opts ttl l (retry_reply reply l)"
| Loop_held: "loop_step C by_name opts ttl l (runRetryDeferredTurn started l)"
| Loop_stop: "loop_step C by_name opts ttl l (stop_loop l)"

section \<open>Where acknowledged work is\<close>

definition keys :: "crypto \<Rightarrow> json list \<Rightarrow> string set" where
  "keys C ms = heldKey C ` set ms"

definition stash_keys :: "crypto \<Rightarrow> stashes \<Rightarrow> string set" where
  "stash_keys C st = (\<Union>(c, s)\<in>set st. keys C (stash_messages s))"

lemma keys_simps [simp]: "keys C [] = {}" "keys C (xs @ ys) = keys C xs \<union> keys C ys"
  by (auto simp: keys_def)

lemma stash_keys_held: "stash_keys C st = snd ` held C st"
  by (force simp: stash_keys_def held_def keys_def)

text \<open>A conversation of the name \<^verbatim>\<open>__proto__\<close> has no place in the plan when it is held back; the account is of all others.\<close>

definition named :: "json list \<Rightarrow> json list" where
  "named ms = filter (\<lambda>m. conversation_id m \<noteq> ''__proto__'') ms"

lemma named_simps [simp]: "named [] = []" "named (xs @ ys) = named xs @ named ys" "named (named xs) = named xs"
  by (simp_all add: named_def)

lemma keys_named: "x \<in> keys C (named ms) \<Longrightarrow> x \<in> keys C ms"
  by (auto simp: keys_def named_def)

text \<open>In a stash, started, a dead letter, or left behind; the last phase may hold messages of its own.\<close>

definition settled :: "crypto \<Rightarrow> loop_state \<Rightarrow> string set" where
  "settled C l = stash_keys C (as_deferred (lp_state l)) \<union> keys C (lp_turned l) \<union> keys C (map fst (lp_dead l)) \<union> keys C (lp_dropped l)"

fun in_hand :: "phase \<Rightarrow> json list" where
  "in_hand (Spawning cover floored) = floored"
| "in_hand (Late conv s t) = stash_messages s"
| "in_hand (Held_turn conv s) = stash_messages s"
| "in_hand _ = []"

fun phase_ok :: "crypto \<Rightarrow> loop_state \<Rightarrow> phase \<Rightarrow> bool" where
  "phase_ok C l (Acking kept vs g) = ((lp_stopped l \<or> lp_unhanded l = kept) \<and> lp_covering l = [])"
| "phase_ok C l (Planning kept vs g) = ((lp_stopped l \<or> lp_unhanded l = kept) \<and> lp_covering l = [])"
| "phase_ok C l (Spawning cover floored) = (lp_unhanded l = [] \<and> lp_covering l = cs_coveredConversationIds cover \<and>
     keys C floored \<subseteq> keys C (cs_messages cover) \<and>
     (\<forall>(c, s)\<in>set (as_deferred (lp_state l)). c \<in> set (lp_covering l) \<longrightarrow> keys C (stash_messages s) \<subseteq> keys C (cs_messages cover)))"
| "phase_ok C l _ = (lp_unhanded l = [] \<and> lp_covering l = [])"

definition loop_ok :: "crypto \<Rightarrow> loop_state \<Rightarrow> bool" where
  "loop_ok C l \<longleftrightarrow> distinct (map fst (as_deferred (lp_state l))) \<and> phase_ok C l (lp_phase l) \<and>
     keys C (named (lp_taken l)) \<subseteq> keys C (named (lp_unhanded l)) \<union> settled C l \<union> keys C (in_hand (lp_phase l)) \<and>
     (lp_stopped l \<longrightarrow> lp_unhanded l = [] \<and> fst ` set (as_deferred (lp_state l)) \<subseteq> set (lp_covering l))"

text \<open>Between two phases, when the tick holds nothing.\<close>

definition ready :: "crypto \<Rightarrow> loop_state \<Rightarrow> bool" where
  "ready C l \<longleftrightarrow> distinct (map fst (as_deferred (lp_state l))) \<and> lp_unhanded l = [] \<and> lp_covering l = [] \<and>
     keys C (named (lp_taken l)) \<subseteq> settled C l \<and> (lp_stopped l \<longrightarrow> as_deferred (lp_state l) = [])"

lemma deadLetter_simps [simp]:
  "lp_state (deadLetterDeferred ms r l) = lp_state l" "lp_stopped (deadLetterDeferred ms r l) = lp_stopped l"
  "lp_unhanded (deadLetterDeferred ms r l) = lp_unhanded l" "lp_covering (deadLetterDeferred ms r l) = lp_covering l"
  "lp_phase (deadLetterDeferred ms r l) = lp_phase l" "lp_turned (deadLetterDeferred ms r l) = lp_turned l"
  "lp_taken (deadLetterDeferred ms r l) = lp_taken l" "lp_dropped (deadLetterDeferred ms r l) = lp_dropped l"
  "keys C (map fst (lp_dead (deadLetterDeferred ms r l))) = keys C (map fst (lp_dead l)) \<union> keys C ms"
  by (simp_all add: deadLetterDeferred_def keys_def image_Un image_image)

lemma set_state_simps [simp]:
  "as_deferred (lp_state (set_deferred st l)) = st" "as_deferred (lp_state (set_inFlight b l)) = as_deferred (lp_state l)"
  "lp_stopped (set_deferred st l) = lp_stopped l" "lp_unhanded (set_deferred st l) = lp_unhanded l" "lp_covering (set_deferred st l) = lp_covering l"
  "lp_phase (set_deferred st l) = lp_phase l" "lp_turned (set_deferred st l) = lp_turned l" "lp_taken (set_deferred st l) = lp_taken l"
  "lp_dropped (set_deferred st l) = lp_dropped l" "lp_dead (set_deferred st l) = lp_dead l"
  "lp_stopped (set_inFlight b l) = lp_stopped l" "lp_unhanded (set_inFlight b l) = lp_unhanded l" "lp_covering (set_inFlight b l) = lp_covering l"
  "lp_phase (set_inFlight b l) = lp_phase l" "lp_turned (set_inFlight b l) = lp_turned l" "lp_taken (set_inFlight b l) = lp_taken l"
  "lp_dropped (set_inFlight b l) = lp_dropped l" "lp_dead (set_inFlight b l) = lp_dead l"
  by (simp_all add: set_deferred_def set_inFlight_def)

text \<open>A sequence of dead letters, and what it leaves alone.\<close>

lemma dead_fold:
  "lp_state (foldl (\<lambda>l x. deadLetterDeferred (f x) (r x) l) l xs) = lp_state l" "lp_stopped (foldl (\<lambda>l x. deadLetterDeferred (f x) (r x) l) l xs) = lp_stopped l"
  "lp_unhanded (foldl (\<lambda>l x. deadLetterDeferred (f x) (r x) l) l xs) = lp_unhanded l" "lp_covering (foldl (\<lambda>l x. deadLetterDeferred (f x) (r x) l) l xs) = lp_covering l"
  "lp_phase (foldl (\<lambda>l x. deadLetterDeferred (f x) (r x) l) l xs) = lp_phase l" "lp_turned (foldl (\<lambda>l x. deadLetterDeferred (f x) (r x) l) l xs) = lp_turned l"
  "lp_taken (foldl (\<lambda>l x. deadLetterDeferred (f x) (r x) l) l xs) = lp_taken l" "lp_dropped (foldl (\<lambda>l x. deadLetterDeferred (f x) (r x) l) l xs) = lp_dropped l"
  "keys C (map fst (lp_dead (foldl (\<lambda>l x. deadLetterDeferred (f x) (r x) l) l xs))) = keys C (map fst (lp_dead l)) \<union> (\<Union>x\<in>set xs. keys C (f x))"
  by (induction xs arbitrary: l) auto

lemma flush_simps [simp]:
  "lp_stopped (flushOnStop l) = lp_stopped l" "lp_unhanded (flushOnStop l) = []" "lp_covering (flushOnStop l) = lp_covering l"
  "lp_phase (flushOnStop l) = lp_phase l" "lp_taken (flushOnStop l) = lp_taken l"
  "as_deferred (lp_state (flushOnStop l)) = filter (\<lambda>(c, s). c \<in> set (lp_covering l)) (as_deferred (lp_state l))"
  by (simp_all add: flushOnStop_def Let_def dead_fold)

lemma flush_settled: "settled C (flushOnStop l) = keys C (lp_unhanded l) \<union> settled C l"
proof -
  have "keys C (map fst (lp_dead (flushOnStop l))) = keys C (map fst (lp_dead l)) \<union> keys C (lp_unhanded l) \<union>
      stash_keys C (filter (\<lambda>(c, s). c \<notin> set (lp_covering l)) (as_deferred (lp_state l)))"
    by (simp add: flushOnStop_def Let_def dead_fold stash_keys_def case_prod_beta Un_assoc)
  moreover have "lp_turned (flushOnStop l) = lp_turned l" "lp_dropped (flushOnStop l) = lp_dropped l"
    by (simp_all add: flushOnStop_def Let_def dead_fold)
  moreover have "stash_keys C (as_deferred (lp_state l)) = stash_keys C (filter (\<lambda>(c, s). c \<notin> set (lp_covering l)) (as_deferred (lp_state l))) \<union>
      stash_keys C (filter (\<lambda>(c, s). c \<in> set (lp_covering l)) (as_deferred (lp_state l)))"
    by (auto simp: stash_keys_def)
  ultimately show ?thesis unfolding settled_def by auto
qed

lemma distinct_filter_keys: "distinct (map fst xs) \<Longrightarrow> distinct (map fst (filter P xs))"
  by (simp add: distinct_map_filter)

lemma finish_ok:
  assumes "ready C l \<or> lp_stopped l \<and> lp_unhanded l = [] \<and> distinct (map fst (as_deferred (lp_state l))) \<and> keys C (named (lp_taken l)) \<subseteq> settled C l"
  shows "loop_ok C (finish_tick l)"
proof -
  let ?l = "l\<lparr> lp_phase := Idle, lp_unhanded := [], lp_covering := [] \<rparr>"
  have s: "settled C ?l = settled C l" by (simp add: settled_def)
  show ?thesis
  proof (cases "lp_stopped l")
    case True
    then show ?thesis using assms flush_settled [of C ?l] s by (auto simp: finish_tick_def loop_ok_def ready_def distinct_filter_keys)
  next
    case False
    then show ?thesis using assms s by (auto simp: finish_tick_def loop_ok_def ready_def)
  qed
qed

lemma ready_finish: "ready C l \<Longrightarrow> loop_ok C (finish_tick l)"
  by (rule finish_ok) simp

lemma retrying_ok: "ready C l \<Longrightarrow> loop_ok C (l\<lparr> lp_phase := Retrying convs \<rparr>)"
  by (auto simp: loop_ok_def ready_def settled_def)

lemma begin_retry_ok: "ready C l \<Longrightarrow> loop_ok C (begin_retry ttl nowMs l)"
  by (simp add: begin_retry_def ready_finish retrying_ok split: list.splits)

lemma retry_rest_ok: "ready C l \<Longrightarrow> loop_ok C (retry_rest convs l)"
  by (simp add: retry_rest_def ready_finish retrying_ok)

text \<open>A stash that is taken out of the map, by a late turn or by a retry.\<close>

lemma stash_keys_remove:
  assumes "distinct (map fst st)" "(c, s) \<in> set st"
  shows "stash_keys C st = stash_keys C (filter (\<lambda>(d, t). d \<notin> {c}) st) \<union> keys C (stash_messages s)"
proof -
  have "(d, t) \<in> set st \<longleftrightarrow> (d, t) \<in> set (filter (\<lambda>(d, t). d \<notin> {c}) st) \<union> {(c, s)}" for d t
    using assms by (cases "d = c") (auto dest: eq_key_imp_eq_value)
  then have "set st = set (filter (\<lambda>(d, t). d \<notin> {c}) st) \<union> {(c, s)}" by (intro set_eqI) (metis surj_pair)
  then have "stash_keys C st = (\<Union>(d, t)\<in>set (filter (\<lambda>(d, t). d \<notin> {c}) st) \<union> {(c, s)}. keys C (stash_messages t))" unfolding stash_keys_def by simp
  then show ?thesis by (auto simp: stash_keys_def)
qed

lemma service_ok:
  assumes "ready C l"
  shows "loop_ok C (serviceDeferredTurn ttl nowMs l)"
proof (cases "as_inFlight (lp_state l) \<or> fst (takeExpiredDeferred ttl nowMs (Some 1) (as_deferred (lp_state l))) = []")
  case True
  then show ?thesis using assms ready_finish begin_retry_ok by (auto simp: serviceDeferredTurn_def split: prod.splits list.splits)
next
  case False
  let ?st = "as_deferred (lp_state l)"
  let ?exp = "sort_key (\<lambda>(c, s). ds_firstDeferredAtMs s) (filter (\<lambda>(c, s). expired ttl nowMs s) ?st)"
  from False have "?exp \<noteq> []" by (simp add: takeExpiredDeferred_def Let_def del: set_filter)
  then obtain c s rest where e: "?exp = (c, s) # rest" by (cases ?exp) auto
  then have "(c, s) \<in> set ?exp" by simp
  then have cs: "(c, s) \<in> set ?st" by simp
  have t: "takeExpiredDeferred ttl nowMs (Some 1) ?st = ([(c, s)], filter (\<lambda>(d, t). d \<notin> {c}) ?st)"
    unfolding takeExpiredDeferred_def Let_def by (simp add: e)
  note k = stash_keys_remove [OF _ cs, of C]
  from False t have l: "serviceDeferredTurn ttl nowMs l = (set_inFlight True (set_deferred (filter (\<lambda>(d, t). d \<notin> {c}) ?st) l))\<lparr> lp_phase := Late c s nowMs \<rparr>"
    by (simp add: serviceDeferredTurn_def)
  have "settled C l \<subseteq> settled C (serviceDeferredTurn ttl nowMs l) \<union> keys C (stash_messages s)"
    using k assms unfolding l by (auto simp: settled_def ready_def)
  then show ?thesis using assms unfolding l by (auto simp: loop_ok_def ready_def distinct_filter_keys)
qed

lemma loop_ready:
  "loop_ok C l \<Longrightarrow> in_hand (lp_phase l) = [] \<Longrightarrow> lp_covering l = [] \<Longrightarrow> lp_stopped l \<or> lp_unhanded l = [] \<Longrightarrow> ready C l"
  by (auto simp: loop_ok_def ready_def)

section \<open>The plan covers every message\<close>

definition plan_messages :: "floor_plan \<Rightarrow> json set" where
  "plan_messages p = set (fp_floored p) \<union> (\<Union>(c, ms)\<in>set (fp_deferred p). set ms)"

lemma plan_conversation_deferred:
  "conv \<notin> fst ` set (fp_deferred p) \<Longrightarrow>
     plan_messages p \<union> {m \<in> set kept. conversation_id m = conv \<and> conv \<noteq> ''__proto__''} \<subseteq> plan_messages (plan_conversation acquire kept p conv) \<and>
     fst ` set (fp_deferred (plan_conversation acquire kept p conv)) \<subseteq> insert conv (fst ` set (fp_deferred p))"
  by (auto simp: plan_conversation_def plan_messages_def Let_def object_put_def put_def map_of_eq_None_iff split: floor_reply.splits)

lemma plan_covers: "set (named kept) \<subseteq> plan_messages (planFloorTurn kept acquire)"
proof -
  have "plan_messages p \<union> {m \<in> set kept. conversation_id m \<in> set convs \<and> conversation_id m \<noteq> ''__proto__''}
      \<subseteq> plan_messages (foldl (plan_conversation acquire kept) p convs)"
    if "distinct convs" "set convs \<inter> fst ` set (fp_deferred p) = {}" for p convs
    using that
  proof (induction convs arbitrary: p)
    case (Cons conv convs)
    let ?p = "plan_conversation acquire kept p conv"
    have one: "plan_messages p \<union> {m \<in> set kept. conversation_id m = conv \<and> conv \<noteq> ''__proto__''} \<subseteq> plan_messages ?p"
      "fst ` set (fp_deferred ?p) \<subseteq> insert conv (fst ` set (fp_deferred p))"
      using plan_conversation_deferred [of conv p kept acquire] Cons.prems(2) by simp_all
    have "set convs \<inter> fst ` set (fp_deferred ?p) = {}" using one(2) Cons.prems by auto
    from Cons.IH [OF _ this] Cons.prems(1) one(1) show ?case by auto
  qed simp
  from this [of "first_seen (map conversation_id kept)" "\<lparr> fp_floored = [], fp_toRelease = [], fp_tails = [], fp_deferred = [] \<rparr>"]
  show ?thesis unfolding planFloorTurn_def by (simp add: first_seen_def named_def) (auto simp: subset_iff)
qed

lemma plan_keys:
  assumes "plan = planFloorTurn kept acquire"
  shows "keys C (named kept) \<subseteq> keys C (fp_floored plan) \<union> (\<Union>(c, ms)\<in>set (fp_deferred plan). keys C ms)"
  using plan_covers [of kept acquire] unfolding assms keys_def plan_messages_def by fastforce

text \<open>What becomes of a message of the one conversation that is left out.\<close>

lemma held_back_proto_lost:
  assumes "conversation_id m = ''__proto__''" "\<not> from_operator m"
  shows "planFloorTurn [m] (\<lambda>_. Floor_held) = \<lparr> fp_floored = [], fp_toRelease = [], fp_tails = [], fp_deferred = [] \<rparr>"
  using assms by (simp add: planFloorTurn_def plan_conversation_def first_seen_def object_put_def Let_def)

lemma stash_one_ok:
  assumes "distinct (map fst (as_deferred (lp_state l)))"
  shows "distinct (map fst (as_deferred (lp_state (stash_one C vs nowMs g l (conv, msgs)))))"
    "settled C (stash_one C vs nowMs g l (conv, msgs)) = settled C l \<union> keys C msgs"
    "lp_stopped (stash_one C vs nowMs g l (conv, msgs)) = lp_stopped l" "lp_taken (stash_one C vs nowMs g l (conv, msgs)) = lp_taken l"
    "lp_covering (stash_one C vs nowMs g l (conv, msgs)) = lp_covering l"
proof -
  let ?st = "as_deferred (lp_state l)"
  obtain drops st where d: "stashDeferred C conv msgs vs nowMs g ?st = (drops, st)" by (cases "stashDeferred C conv msgs vs nowMs g ?st")
  have one: "stash_one C vs nowMs g l (conv, msgs) = foldl (\<lambda>l d. deadLetterDeferred (dd_messages d) (dd_reason d) l) (set_deferred st l) drops"
    by (simp add: stash_one_def d)
  have "distinct (map fst st)"
  proof -
    have "conv \<notin> fst ` set (remove_key conv ?st)" "distinct (map fst (remove_key conv ?st))" using assms by (auto simp: remove_key_def distinct_map_filter)
    then have "distinct (map fst (remove_key conv ?st @ [(conv, x)]))" for x by simp
    then show ?thesis using d by (auto simp: stashDeferred_def Let_def map_keep_last keep_last_def [of _ "map fst xs" for xs] simp del: map_append distinct_append)
  qed
  then show "distinct (map fst (as_deferred (lp_state (stash_one C vs nowMs g l (conv, msgs)))))" by (simp add: one dead_fold)
  have "snd ` (held C st \<union> given_up C drops) = snd ` (held C ?st \<union> Pair conv ` heldKey C ` set msgs)" unfolding stash_conserves [OF assms d] ..
  then have k: "stash_keys C st \<union> (\<Union>x\<in>set drops. keys C (dd_messages x)) = stash_keys C ?st \<union> keys C msgs"
    by (simp add: stash_keys_held image_Un image_image given_up_def image_UN keys_def)
  show "settled C (stash_one C vs nowMs g l (conv, msgs)) = settled C l \<union> keys C msgs"
    using k unfolding settled_def one by (auto simp: dead_fold)
  show "lp_stopped (stash_one C vs nowMs g l (conv, msgs)) = lp_stopped l" "lp_taken (stash_one C vs nowMs g l (conv, msgs)) = lp_taken l"
    "lp_covering (stash_one C vs nowMs g l (conv, msgs)) = lp_covering l" by (simp_all add: one dead_fold)
qed

lemma stash_all_ok:
  assumes "distinct (map fst (as_deferred (lp_state l)))"
  shows "distinct (map fst (as_deferred (lp_state (foldl (stash_one C vs nowMs g) l ds)))) \<and>
    settled C (foldl (stash_one C vs nowMs g) l ds) = settled C l \<union> (\<Union>(c, ms)\<in>set ds. keys C ms) \<and>
    lp_stopped (foldl (stash_one C vs nowMs g) l ds) = lp_stopped l \<and> lp_taken (foldl (stash_one C vs nowMs g) l ds) = lp_taken l \<and>
    lp_covering (foldl (stash_one C vs nowMs g) l ds) = lp_covering l"
  using assms
proof (induction ds arbitrary: l)
  case (Cons d ds)
  obtain conv msgs where d: "d = (conv, msgs)" by (cases d)
  note o = stash_one_ok [OF Cons.prems, of C vs nowMs g conv msgs]
  from Cons.IH [OF o(1)] show ?case unfolding foldl_Cons d o(2-5) by (simp add: Un_assoc)
qed simp

lemma plan_ok:
  assumes "loop_ok C l" "lp_phase l = Planning kept vs g"
  shows "loop_ok C (plan_done C ttl acquire nowMs current l)"
proof (cases "lp_stopped l")
  case True
  have "ready C l" by (rule loop_ready [OF assms(1)]) (use assms True in \<open>auto simp: loop_ok_def\<close>)
  then show ?thesis using True assms(2) by (simp add: plan_done_def ready_finish)
next
  case False
  define plan where "plan = planFloorTurn kept acquire"
  define l1 where "l1 = foldl (stash_one C vs nowMs g) l (object_entries (fp_deferred plan))"
  define cover where "cover = mergeCoveredStashes C (fp_floored plan) vs nowMs (Some current) (as_deferred (lp_state l1))"
  have i: "distinct (map fst (as_deferred (lp_state l)))" "lp_unhanded l = kept" "lp_covering l = []" "keys C (named (lp_taken l)) \<subseteq> keys C (named kept) \<union> settled C l"
    using assms False by (auto simp: loop_ok_def)
  note o = stash_all_ok [OF i(1), of C vs nowMs g "object_entries (fp_deferred plan)", folded l1_def, unfolded set_object_entries]
  have sub: "keys C (named (lp_taken l1)) \<subseteq> settled C l1 \<union> keys C (fp_floored plan)"
  proof -
    have "settled C l1 = settled C l \<union> (\<Union>(c, ms)\<in>set (fp_deferred plan). keys C ms)" "lp_taken l1 = lp_taken l" using o by simp_all
    with plan_keys [OF plan_def, of C] i(4) show ?thesis by (simp only: Un_ac) blast
  qed
  have s: "settled C (l1\<lparr> lp_unhanded := [] \<rparr>) = settled C l1" by (simp add: settled_def)
  show ?thesis
  proof (cases "fp_floored plan = []")
    case True
    then have "ready C (l1\<lparr> lp_unhanded := [] \<rparr>)" using o i(3) False sub s by (simp add: ready_def)
    then show ?thesis using True False assms(2) service_ok by (simp add: plan_done_def Let_def plan_def [symmetric] l1_def [symmetric])
  next
    case fl: False
    let ?ids = "cs_coveredConversationIds cover"
    have c: "keys C (cs_messages cover) = keys C (fp_floored plan) \<union> (\<Union>c\<in>set ?ids. keys C (stash_messages (the (map_of (as_deferred (lp_state l1)) c))))"
      unfolding cover_def keys_def by (rule conjunct1 [OF covering_turn_delivers])
    have "keys C (stash_messages t) \<subseteq> keys C (cs_messages cover)" if "(d, t) \<in> set (as_deferred (lp_state l1))" "d \<in> set ?ids" for d t
    proof -
      have "map_of (as_deferred (lp_state l1)) d = Some t" using o that(1) by simp
      then show ?thesis unfolding c using that(2) by (intro le_supI2 SUP_upper2 [of d]) simp_all
    qed
    with c o i(3) False sub show ?thesis
      using fl assms(2) by (auto simp: plan_done_def Let_def plan_def [symmetric] l1_def [symmetric] cover_def [symmetric] loop_ok_def settled_def)
  qed
qed

section \<open>Every step keeps the account\<close>

lemma clear_all: "foldl (\<lambda>st c. clearDeferred c st) st cs = filter (\<lambda>(c, s). c \<notin> set cs) st"
  by (induction cs arbitrary: st) (auto simp: clearDeferred_def remove_key_def filter_filter intro!: filter_cong)

lemma spawn_ok:
  assumes "loop_ok C l" "lp_phase l = Spawning cover floored"
  shows "loop_ok C (spawn_done started l)"
proof -
  let ?l1 = "(set_inFlight False l)\<lparr> lp_covering := [], lp_phase := Releasing \<rparr>" and ?ids = "cs_coveredConversationIds cover"
  have i: "distinct (map fst (as_deferred (lp_state l)))" "lp_unhanded l = []" "lp_covering l = ?ids" "keys C floored \<subseteq> keys C (cs_messages cover)"
    "keys C (named (lp_taken l)) \<subseteq> settled C l \<union> keys C floored" "lp_stopped l \<Longrightarrow> fst ` set (as_deferred (lp_state l)) \<subseteq> set ?ids"
    and st: "\<And>c s. (c, s) \<in> set (as_deferred (lp_state l)) \<Longrightarrow> c \<in> set ?ids \<Longrightarrow> keys C (stash_messages s) \<subseteq> keys C (cs_messages cover)"
    using assms by (auto simp: loop_ok_def)
  show ?thesis
  proof (cases started)
    case True
    let ?rest = "filter (\<lambda>(c, s). c \<notin> set ?ids) (as_deferred (lp_state l))"
    have "stash_keys C (as_deferred (lp_state l)) \<subseteq> stash_keys C ?rest \<union> keys C (cs_messages cover)"
      unfolding stash_keys_def using st by fastforce
    moreover have "?rest = []" if "lp_stopped l" using i(6) [OF that] by (auto simp: filter_empty_conv image_subset_iff)
    ultimately show ?thesis using True i(1-5) assms(2) by (auto simp: spawn_done_def Let_def clear_all loop_ok_def settled_def distinct_filter_keys)
  next
    case False
    let ?l2 = "?l1\<lparr> lp_dropped := lp_dropped ?l1 @ floored \<rparr>"
    have s2: "settled C ?l2 = settled C l \<union> keys C floored" by (auto simp: settled_def)
    show ?thesis
    proof (cases "?ids \<noteq> [] \<and> lp_stopped l")
      case True
      then have "spawn_done started l = flushOnStop ?l2" using False assms(2) by (simp add: spawn_done_def Let_def)
      then show ?thesis using i flush_settled [of C ?l2] s2 by (simp add: loop_ok_def distinct_filter_keys)
    next
      case stay: False
      then have "spawn_done started l = ?l2" using False assms(2) by (auto simp: spawn_done_def Let_def)
      then show ?thesis using i stay s2 by (auto simp: loop_ok_def)
    qed
  qed
qed

lemma stop_ok:
  assumes "loop_ok C l"
  shows "loop_ok C (stop_loop l)"
proof (cases "lp_stopped l")
  case False
  let ?l = "l\<lparr> lp_stopped := True \<rparr>"
  have "settled C ?l = settled C l" by (simp add: settled_def)
  then have k: "keys C (named (lp_taken l)) \<subseteq> settled C (flushOnStop ?l) \<union> keys C (in_hand (lp_phase l))" using assms flush_settled [of C ?l] by (auto simp: loop_ok_def dest: keys_named)
  have "phase_ok C (flushOnStop ?l) (lp_phase l)" using assms by (cases "lp_phase l") (auto simp: loop_ok_def)
  with k assms False show ?thesis by (auto simp: stop_loop_def loop_ok_def distinct_filter_keys)
qed (use assms in \<open>simp add: stop_loop_def\<close>)

lemma late_ok:
  assumes "loop_ok C l" "lp_phase l = Late conv s t"
  shows "loop_ok C (runExpiredDeferredTurn ttl started l)"
proof -
  have i: "distinct (map fst (as_deferred (lp_state l)))" "lp_unhanded l = []" "lp_covering l = []" "keys C (named (lp_taken l)) \<subseteq> settled C l \<union> keys C (stash_messages s)"
    "lp_stopped l \<Longrightarrow> as_deferred (lp_state l) = []" using assms by (auto simp: loop_ok_def)
  let ?l1 = "set_inFlight False l"
  have "ready C (?l1\<lparr> lp_turned := lp_turned ?l1 @ stash_messages s \<rparr>)" "ready C (deadLetterDeferred (stash_messages s) Expired_spawn_failed ?l1)"
    using i by (auto simp: ready_def settled_def)
  then show ?thesis using assms(2) by (simp add: runExpiredDeferredTurn_def Let_def ready_finish begin_retry_ok)
qed

lemma held_ok:
  assumes "loop_ok C l" "lp_phase l = Held_turn conv s"
  shows "loop_ok C (runRetryDeferredTurn started l)"
proof -
  have i: "distinct (map fst (as_deferred (lp_state l)))" "lp_unhanded l = []" "lp_covering l = []" "keys C (named (lp_taken l)) \<subseteq> settled C l \<union> keys C (stash_messages s)"
    "lp_stopped l \<Longrightarrow> as_deferred (lp_state l) = []" using assms by (auto simp: loop_ok_def)
  let ?l1 = "set_inFlight False l"
  have "ready C (?l1\<lparr> lp_turned := lp_turned ?l1 @ stash_messages s \<rparr>)" "ready C (deadLetterDeferred (stash_messages s) Retry_spawn_failed ?l1)"
    using i by (auto simp: ready_def settled_def)
  then show ?thesis using assms(2) by (simp add: runRetryDeferredTurn_def Let_def ready_finish)
qed

lemma retry_ok:
  assumes "loop_ok C l" "lp_phase l = Retrying convs"
  shows "loop_ok C (retry_reply reply l)"
proof (cases convs)
  case Nil
  have "ready C l" by (rule loop_ready [OF assms(1)]) (use assms in \<open>auto simp: loop_ok_def\<close>)
  with Nil assms(2) show ?thesis by (simp add: retry_reply_def ready_finish)
next
  case (Cons conv rest)
  note ph = assms(2) [unfolded Cons]
  have r: "ready C l" by (rule loop_ready [OF assms(1)]) (use assms in \<open>auto simp: loop_ok_def\<close>)
  let ?st = "as_deferred (lp_state l)"
  show ?thesis
  proof (cases "reply = Floor_failed \<or> lp_stopped l \<or> reply = Floor_held \<or> as_inFlight (lp_state l)")
    case True
    then show ?thesis using ph r by (auto simp: retry_reply_def retry_rest_ok ready_finish)
  next
    case False
    have cl: "clearDeferred conv ?st = filter (\<lambda>(d, t). d \<notin> {conv}) ?st" by (auto simp: clearDeferred_def remove_key_def intro: filter_cong)
    show ?thesis
    proof (cases "map_of ?st conv")
      case None
      then have "clearDeferred conv ?st = ?st" unfolding cl by (force simp: map_of_eq_None_iff filter_id_conv)
      then have "ready C (set_deferred (clearDeferred conv ?st) l)" using r by (simp add: ready_def settled_def)
      then show ?thesis using False None ph by (simp add: retry_reply_def retry_rest_ok)
    next
      case (Some s)
      note k = stash_keys_remove [OF _ map_of_SomeD [OF Some], of C]
      show ?thesis using False Some ph r k
        by (auto simp: retry_reply_def cl loop_ok_def ready_def settled_def distinct_filter_keys)
    qed
  qed
qed

lemma ack_ok:
  assumes "loop_ok C l" "lp_phase l = Acking kept vs g"
  shows "loop_ok C (ack_done ttl nowMs l)"
proof (cases "lp_stopped l \<or> kept = []")
  case True
  have "ready C l" by (rule loop_ready [OF assms(1)]) (use assms True in \<open>auto simp: loop_ok_def\<close>)
  with True assms(2) show ?thesis by (auto simp: ack_done_def ready_finish service_ok)
next
  case False
  with assms show ?thesis by (auto simp: ack_done_def loop_ok_def settled_def)
qed

lemma release_ok:
  assumes "loop_ok C l" "lp_phase l = Releasing"
  shows "loop_ok C (release_done ttl nowMs l)"
proof -
  have "ready C l" by (rule loop_ready [OF assms(1)]) (use assms in \<open>auto simp: loop_ok_def\<close>)
  with assms(2) show ?thesis by (simp add: release_done_def ready_finish service_ok)
qed

text \<open>The gates do not touch what is held back.\<close>

lemma foldl_same: "(\<And>x y. y \<in> set ys \<Longrightarrow> f (g x y) = f x) \<Longrightarrow> f (foldl g x ys) = f x"
  by (induction ys arbitrary: x) auto

lemma latch_deferred:
  "as_deferred (resetPeerLatch s c) = as_deferred s" "as_deferred (consumePeerLatch s c) = as_deferred s"
  "as_deferred (markNonceSeen s n) = as_deferred s" "as_deferred (markSeen C s m) = as_deferred s"
  "as_deferred (snd (noteProgressRefresh s c t)) = as_deferred s" "as_deferred (snd (markConversationEscalated s c)) = as_deferred s"
  "as_deferred (snd (applyPeerRateGate t real s)) = as_deferred s"
  by (simp_all add: resetPeerLatch_def consumePeerLatch_def markNonceSeen_def markSeen_def noteProgressRefresh_def Let_def
      markConversationEscalated_def applyPeerRateGate_def split: prod.splits)

lemma reconcile_deferred: "as_deferred (reconcilePeerLatches s b f) = as_deferred s"
  unfolding reconcilePeerLatches_def by (rule foldl_same) (simp add: latch_deferred)

lemma refresh_deferred: "as_deferred (snd (refreshBudgetForProgressSignals C s ms self vs t)) = as_deferred s"
proof -
  have "as_deferred (snd (refresh_one C self vs t x m)) = as_deferred (snd x)" for x m
  proof -
    obtain refreshed s where x: "x = (refreshed, s)" by (cases x)
    obtain ok u where n: "noteProgressRefresh s (conversation_id m) t = (ok, u)" by (cases "noteProgressRefresh s (conversation_id m) t")
    then have "as_deferred u = as_deferred s" using latch_deferred(5) [of s "conversation_id m" t] by simp
    then show ?thesis by (cases ok) (simp_all add: refresh_one_def x n latch_deferred split: option.splits)
  qed
  then have "as_deferred (snd (foldl (refresh_one C self vs t) ([], s) ms)) = as_deferred s"
    using foldl_same [of ms "\<lambda>x. as_deferred (snd x)" "refresh_one C self vs t" "([], s)"] by simp
  then show ?thesis by (simp add: refreshBudgetForProgressSignals_def Let_def case_prod_beta)
qed

lemma apply_latch_deferred: "as_deferred (snd (snd (applyPeerLatch ms s b f))) = as_deferred s"
proof -
  have "as_deferred (snd (snd (latch_one b f x m))) = as_deferred (snd (snd x))" for x m
    by (auto simp: latch_one_def Let_def latch_deferred split: prod.splits)
  then show ?thesis using foldl_same [of ms "\<lambda>x. as_deferred (snd (snd x))" "latch_one b f" "([], [], s)"] by (simp add: applyPeerLatch_def)
qed

lemma notices_deferred: "as_deferred (snd (raise_notices b f latched s)) = as_deferred s"
proof -
  let ?g = "\<lambda>(ns, s) (conv, pending :: nat). case markConversationEscalated s conv of
          (True, t) \<Rightarrow> (ns @ [(conv, pending, effectiveConversationBudget b conv f)], t) | (False, t) \<Rightarrow> (ns, t)"
  have "as_deferred (snd (?g x y)) = as_deferred (snd x)" for x y
  proof -
    obtain ns s where x: "x = (ns, s)" by (cases x)
    obtain conv pending where y: "y = (conv, pending)" by (cases y)
    obtain ok u where n: "markConversationEscalated s conv = (ok, u)" by (cases "markConversationEscalated s conv")
    then have "as_deferred u = as_deferred s" using latch_deferred(6) [of s conv] by simp
    then show ?thesis by (cases ok) (simp_all add: x y n)
  qed
  then show ?thesis using foldl_same [of latched "\<lambda>x. as_deferred (snd x)" ?g "([], s)"] by (simp add: raise_notices_def)
qed

lemma admit_deferred: "as_deferred (ar_state (admit_batch E opts ident batch s reg)) = as_deferred s"
proof -
  have "as_deferred (foldl (\<lambda>s m. case burned_nonce vs m of Some n \<Rightarrow> markNonceSeen s n | None \<Rightarrow> s) s ms) = as_deferred s" for vs s ms
    by (rule foldl_same) (auto simp: latch_deferred split: option.splits)
  then show ?thesis by (simp add: admit_batch_def Let_def case_prod_beta refresh_deferred reconcile_deferred)
qed

lemma gate_deferred: "as_deferred (gr_state (gate_batch E opts a)) = as_deferred (ar_state a)"
proof -
  have reset: "as_deferred (foldl (\<lambda>s m. if from_operator m then resetPeerLatch s (conversation_id m) else s) s ms) = as_deferred s" for s ms
    by (rule foldl_same) (simp add: latch_deferred)
  have seen: "as_deferred (foldl (markSeen C) s ms) = as_deferred s" for C s ms by (rule foldl_same) (simp add: latch_deferred)
  show ?thesis by (simp add: gate_batch_def Let_def case_prod_beta seen notices_deferred apply_latch_deferred latch_deferred reset)
qed

lemma gated_deferred: "as_deferred (fst (snd (snd (gated E opts ident batch l)))) = as_deferred (lp_state l)"
  by (simp add: gated_def Let_def gate_deferred admit_deferred)

lemma take_ok:
  assumes "loop_ok C l" "lp_phase l = Idle" "\<not> lp_stopped l"
  shows "loop_ok C (take_batch by_name E opts ident batch l)"
proof -
  obtain kept vs s reg where g: "gated E opts ident batch l = (kept, vs, s, reg)" by (cases "gated E opts ident batch l")
  then have "as_deferred s = as_deferred (lp_state l)" using gated_deferred [of E opts ident batch l] by simp
  with assms show ?thesis by (auto simp: take_batch_def g loop_ok_def settled_def)
qed

lemma abandon_ok:
  assumes "loop_ok C l" "lp_phase l = Idle" "\<not> lp_stopped l"
  shows "loop_ok C (abandon_batch E opts ident batch l)"
proof -
  obtain kept vs s reg where g: "gated E opts ident batch l = (kept, vs, s, reg)" by (cases "gated E opts ident batch l")
  let ?l = "l\<lparr> lp_state := s, lp_registry := reg \<rparr>"
  have "as_deferred s = as_deferred (lp_state l)" using gated_deferred [of E opts ident batch l] g by simp
  then have "loop_ok C ?l" using assms by (auto simp: loop_ok_def settled_def)
  then have "loop_ok C (stop_loop ?l)" by (rule stop_ok)
  moreover have "lp_phase (stop_loop ?l) = Idle" "lp_stopped (stop_loop ?l)" "lp_covering (stop_loop ?l) = []"
    using assms by (simp_all add: stop_loop_def loop_ok_def)
  ultimately have "ready C (stop_loop ?l)" by (intro loop_ready) simp_all
  then show ?thesis by (simp add: abandon_batch_def g ready_finish)
qed

lemma loop_step_ok:
  assumes "loop_ok C l" "loop_step C by_name opts ttl l l'"
  shows "loop_ok C l'"
  using assms(2)
proof cases
  case (Loop_ack nowMs)
  with assms(1) ack_ok show ?thesis by (cases "lp_phase l") (auto simp: ack_done_def)
next
  case (Loop_plan acquire nowMs current)
  with assms(1) plan_ok show ?thesis by (cases "lp_phase l") (auto simp: plan_done_def)
next
  case (Loop_spawn started)
  with assms(1) spawn_ok show ?thesis by (cases "lp_phase l") (auto simp: spawn_done_def)
next
  case (Loop_release nowMs)
  with assms(1) release_ok show ?thesis by (cases "lp_phase l") (auto simp: release_done_def)
next
  case (Loop_late started)
  with assms(1) late_ok show ?thesis by (cases "lp_phase l") (auto simp: runExpiredDeferredTurn_def)
next
  case (Loop_retry reply)
  with assms(1) retry_ok show ?thesis by (cases "lp_phase l") (auto simp: retry_reply_def split: list.splits)
next
  case (Loop_held started)
  with assms(1) held_ok show ?thesis by (cases "lp_phase l") (auto simp: runRetryDeferredTurn_def)
qed (use assms(1) take_ok abandon_ok stop_ok in auto)

interpretation reply_loop: stepping loop_start "loop_step C by_name opts ttl" "loop_ok C" for C by_name opts ttl
  by unfold_locales (simp add: loop_ok_def loop_start_def createAutoReplyState_def, rule loop_step_ok)

text \<open>
  C1: Acknowledged work is accounted for.  Over every run of the loop, wherever it awaits and whenever it is stopped, each message
  that was acknowledged in order to get a turn, of any conversation but one named \<^verbatim>\<open>__proto__\<close>, is in the hands of the tick, held back in a stash, in a turn that was
  started, or a dead letter; the one exception are the new messages of a turn whose process failed to start.  And once a stopped loop has come to rest it holds
  nothing back.
\<close>

theorem acknowledged_work_accounted:
  assumes "reach loop_start (loop_step C by_name opts ttl) l" "m \<in> set (lp_taken l)" "conversation_id m \<noteq> ''__proto__''"
  shows "heldKey C m \<in> keys C (lp_turned l) \<union> keys C (map fst (lp_dead l)) \<union> keys C (lp_dropped l) \<union>
      (if lp_stopped l \<and> lp_phase l = Idle then {}
       else keys C (lp_unhanded l) \<union> keys C (in_hand (lp_phase l)) \<union> stash_keys C (as_deferred (lp_state l)))"
proof -
  have ok: "loop_ok C l" by (rule reply_loop.inv_reach [OF assms(1)])
  have "heldKey C m \<in> keys C (named (lp_taken l))" using assms(2,3) by (simp add: keys_def named_def)
  with ok have k: "heldKey C m \<in> keys C (lp_unhanded l) \<union> settled C l \<union> keys C (in_hand (lp_phase l))"
    by (auto simp: loop_ok_def dest: keys_named)
  show ?thesis
  proof (cases "lp_stopped l \<and> lp_phase l = Idle")
    case True
    then have "as_deferred (lp_state l) = []" "lp_unhanded l = []" using ok by (auto simp: loop_ok_def)
    with k True show ?thesis by (auto simp: settled_def stash_keys_def)
  next
    case False
    with k show ?thesis by (auto simp: settled_def)
  qed
qed

section \<open>Every tick ends\<close>

text \<open>What a tick may be told by whatever it awaits, and whether the loop is stopped meanwhile.\<close>

record answer =
  an_stop :: bool
  an_nowMs :: int
  an_acquire :: "string \<Rightarrow> floor_reply"
  an_current :: string
  an_started :: bool
  an_reply :: floor_reply

definition resume :: "crypto \<Rightarrow> int \<Rightarrow> answer \<Rightarrow> loop_state \<Rightarrow> loop_state" where
  "resume C ttl a l0 =
     (let l = (if an_stop a then stop_loop l0 else l0) in
      case lp_phase l of
        Idle \<Rightarrow> l
      | Acking kept vs g \<Rightarrow> ack_done ttl (an_nowMs a) l
      | Planning kept vs g \<Rightarrow> plan_done C ttl (an_acquire a) (an_nowMs a) (an_current a) l
      | Spawning cover floored \<Rightarrow> spawn_done (an_started a) l
      | Releasing \<Rightarrow> release_done ttl (an_nowMs a) l
      | Late conv s t \<Rightarrow> runExpiredDeferredTurn ttl (an_started a) l
      | Retrying convs \<Rightarrow> retry_reply (an_reply a) l
      | Held_turn conv s \<Rightarrow> runRetryDeferredTurn (an_started a) l)"

fun resumes :: "crypto \<Rightarrow> int \<Rightarrow> (nat \<Rightarrow> answer) \<Rightarrow> nat \<Rightarrow> loop_state \<Rightarrow> loop_state" where
  "resumes C ttl f 0 l = l"
| "resumes C ttl f (Suc n) l = resumes C ttl (\<lambda>i. f (Suc i)) n (resume C ttl (f 0) l)"

fun stage :: "phase \<Rightarrow> nat \<times> nat" where
  "stage Idle = (0, 0)"
| "stage (Held_turn conv s) = (0, 1)"
| "stage (Retrying convs) = (1, length convs)"
| "stage (Late conv s t) = (2, 0)"
| "stage Releasing = (3, 0)"
| "stage (Spawning cover floored) = (4, 0)"
| "stage (Planning kept vs g) = (5, 0)"
| "stage (Acking kept vs g) = (6, 0)"

lemma finish_phase: "lp_phase (finish_tick l) = Idle"
  by (simp add: finish_tick_def Let_def)

lemma begin_retry_phase: "fst (stage (lp_phase (begin_retry ttl t l))) \<le> 1"
  by (simp add: begin_retry_def finish_phase split: list.splits)

lemma service_phase: "fst (stage (lp_phase (serviceDeferredTurn ttl t l))) \<le> 2"
  using begin_retry_phase [of ttl t l] by (simp add: serviceDeferredTurn_def finish_phase split: prod.splits list.splits)

lemma stop_phase: "lp_phase (stop_loop l) = lp_phase l"
  by (simp add: stop_loop_def)

lemma resume_stage:
  assumes "lp_phase l \<noteq> Idle"
  shows "(stage (lp_phase (resume C ttl a l)), stage (lp_phase l)) \<in> less_than <*lex*> less_than"
proof -
  define l' where "l' = (if an_stop a then stop_loop l else l)"
  have p: "lp_phase l' = lp_phase l" by (simp add: l'_def stop_phase)
  have lex: "(x, y) \<in> less_than <*lex*> less_than" if "fst x < fst y" for x y :: "nat \<times> nat" using that by (cases x; cases y) simp
  show ?thesis
  proof (cases "lp_phase l")
    case (Acking kept vs g)
    then show ?thesis using service_phase [of ttl "an_nowMs a" l'] unfolding resume_def Let_def l'_def [symmetric] p
      by (intro lex) (auto simp: ack_done_def p finish_phase)
  next
    case (Planning kept vs g)
    show ?thesis unfolding resume_def Let_def l'_def [symmetric] p Planning phase.case
      by (rule lex) (auto simp: plan_done_def p Planning Let_def finish_phase intro: le_less_trans [OF service_phase])
  next
    case (Spawning cover floored)
    then show ?thesis unfolding resume_def Let_def l'_def [symmetric] p
      by (intro lex) (auto simp: spawn_done_def p Let_def)
  next
    case Releasing
    then show ?thesis using service_phase [of ttl "an_nowMs a" l'] unfolding resume_def Let_def l'_def [symmetric] p
      by (intro lex) (auto simp: release_done_def p finish_phase)
  next
    case (Late conv s t)
    show ?thesis unfolding resume_def Let_def l'_def [symmetric] p Late phase.case
      by (rule lex) (auto simp: runExpiredDeferredTurn_def p Late Let_def finish_phase intro: le_less_trans [OF begin_retry_phase])
  next
    case (Retrying convs)
    then show ?thesis unfolding resume_def Let_def l'_def [symmetric] p
      by (auto simp: retry_reply_def p retry_rest_def finish_phase split: list.splits option.splits)
  next
    case (Held_turn conv s)
    then show ?thesis unfolding resume_def Let_def l'_def [symmetric] p
      by (simp add: runRetryDeferredTurn_def p Let_def finish_phase)
  qed (use assms in simp)
qed

text \<open>
  C25: Every tick ends.  Whatever the relay and the processes answer, and whether or not the loop is stopped in between, a tick
  that keeps getting answers comes to rest after finitely many of them, so the next poll is never blocked by a tick that goes on forever.
\<close>

theorem tick_terminates: "\<exists>n. lp_phase (resumes C ttl f n l) = Idle"
proof -
  have "wf (less_than <*lex*> less_than)" by (rule wf_lex_prod [OF wf_less_than wf_less_than])
  then have "\<forall>(l :: loop_state) f. stage (lp_phase l) = x \<longrightarrow> (\<exists>n. lp_phase (resumes C ttl f n l) = Idle)" for x
  proof (induction x rule: wf_induct_rule)
    case (less x)
    show ?case
    proof (intro allI impI)
      fix l :: loop_state and f assume x: "stage (lp_phase l) = x"
      show "\<exists>n. lp_phase (resumes C ttl f n l) = Idle"
      proof (cases "lp_phase l = Idle")
        case True
        then show ?thesis by (intro exI [of _ 0]) simp
      next
        case False
        from resume_stage [OF this, of C ttl "f 0"] less x obtain n where "lp_phase (resumes C ttl (\<lambda>i. f (Suc i)) n (resume C ttl (f 0) l)) = Idle" by blast
        then show ?thesis by (intro exI [of _ "Suc n"]) simp
      qed
    qed
  qed
  then show ?thesis by blast
qed

section \<open>Two runs\<close>

text \<open>Two runs of one batch: the loop is stopped while it acknowledges, and the process of its turn fails to start.\<close>

definition taken_loop :: loop_state where
  "taken_loop = take_batch (\<lambda>x. x) sample_loop_env sample_loop_options None forged_batch loop_start"

definition stopped_loop :: loop_state where
  "stopped_loop = ack_done 0 5 (stop_loop taken_loop)"

definition failed_loop :: loop_state where
  "failed_loop = release_done 0 5 (spawn_done False (plan_done sample_crypto 0 (\<lambda>_. Floor_failed) 5 ''g'' (ack_done 0 5 taken_loop)))"

lemma taken_reach: "reach loop_start (loop_step sample_crypto (\<lambda>x. x) sample_loop_options 0) taken_loop"
  unfolding taken_loop_def by (rule reach_step, rule reach_start, rule Loop_poll) (simp_all add: loop_start_def sample_loop_env_def)

lemma taken_loop_facts:
  obtains vs g where "lp_phase taken_loop = Acking [forged_message] vs g" "lp_taken taken_loop = [forged_message]" "as_deferred (lp_state taken_loop) = []"
    "\<not> lp_stopped taken_loop" "lp_unhanded taken_loop = [forged_message]" "lp_turned taken_loop = []" "lp_dropped taken_loop = []" "lp_dead taken_loop = []"
    "lp_covering taken_loop = []"
proof -
  obtain kept vs s reg where g: "gated sample_loop_env sample_loop_options None forged_batch loop_start = (kept, vs, s, reg)"
    by (cases "gated sample_loop_env sample_loop_options None forged_batch loop_start")
  have "fst (gated sample_loop_env sample_loop_options None forged_batch loop_start) = [forged_message]" by code_simp
  moreover have "as_deferred s = []"
    using gated_deferred [of sample_loop_env sample_loop_options None forged_batch loop_start] g by (simp add: loop_start_def createAutoReplyState_def)
  ultimately show thesis using that g by (simp add: taken_loop_def take_batch_def loop_start_def)
qed

theorem acknowledged_work_accounted_witness:
  "heldKey sample_crypto forged_message \<in> keys sample_crypto (map fst (lp_dead stopped_loop))"
proof -
  have r: "reach loop_start (loop_step sample_crypto (\<lambda>x. x) sample_loop_options 0) stopped_loop"
    unfolding stopped_loop_def by (rule reach_step, rule reach_step, rule taken_reach, rule Loop_stop, rule Loop_ack)
  have "forged_message \<in> set (lp_taken stopped_loop) \<and> lp_stopped stopped_loop \<and> lp_phase stopped_loop = Idle \<and> lp_turned stopped_loop = [] \<and> lp_dropped stopped_loop = []"
    by (rule taken_loop_facts)
      (simp add: stopped_loop_def stop_loop_def ack_done_def finish_tick_def flushOnStop_def deadLetterDeferred_def set_deferred_def)
  moreover have "conversation_id forged_message \<noteq> ''__proto__''" by code_simp
  ultimately show ?thesis using acknowledged_work_accounted [OF r, of forged_message] by simp
qed

text \<open>
  What a turn that does not start leaves behind.  The loop can come to rest with a message that it acknowledged in order to
  get a turn, for which no turn was started, and which is neither held back nor a dead letter.
\<close>

theorem unstarted_turn_loses_batch:
  "\<exists>l m. reach loop_start (loop_step sample_crypto (\<lambda>x. x) sample_loop_options 0) l \<and> lp_phase l = Idle \<and> m \<in> set (lp_taken l) \<and>
     heldKey sample_crypto m \<notin> keys sample_crypto (lp_turned l) \<union> keys sample_crypto (map fst (lp_dead l)) \<union>
       stash_keys sample_crypto (as_deferred (lp_state l)) \<union> keys sample_crypto (lp_unhanded l)"
proof (intro exI conjI)
  show "reach loop_start (loop_step sample_crypto (\<lambda>x. x) sample_loop_options 0) failed_loop"
    unfolding failed_loop_def
    by (rule reach_step, rule reach_step, rule reach_step, rule reach_step, rule taken_reach, rule Loop_ack, rule Loop_plan, rule Loop_spawn, rule Loop_release)
  have f: "lp_phase failed_loop = Idle \<and> forged_message \<in> set (lp_taken failed_loop) \<and> lp_turned failed_loop = [] \<and> lp_dead failed_loop = [] \<and>
      as_deferred (lp_state failed_loop) = [] \<and> lp_unhanded failed_loop = []"
  proof (rule taken_loop_facts)
    fix vs g
    assume t: "lp_phase taken_loop = Acking [forged_message] vs g" "lp_taken taken_loop = [forged_message]" "as_deferred (lp_state taken_loop) = []"
      "\<not> lp_stopped taken_loop" "lp_unhanded taken_loop = [forged_message]" "lp_turned taken_loop = []" "lp_dropped taken_loop = []" "lp_dead taken_loop = []"
      "lp_covering taken_loop = []"
    have p: "planFloorTurn [m] (\<lambda>_. Floor_failed) = \<lparr> fp_floored = [m], fp_toRelease = [], fp_tails = [], fp_deferred = [] \<rparr>" for m
      by (simp add: planFloorTurn_def plan_conversation_def first_seen_def Let_def)
    have c: "mergeCoveredStashes C ms vs n h [] = \<lparr> cs_messages = ms, cs_verifications = vs, cs_coveredConversationIds = [], cs_deferred = None \<rparr>" for C ms n h
    proof -
      have "covered_by ms [] = []" using covered_in [of _ _ ms "[]"] by (cases "covered_by ms []") auto
      then show ?thesis by (simp add: mergeCoveredStashes_def)
    qed
    have "spawn_done False (plan_done sample_crypto 0 (\<lambda>_. Floor_failed) 5 ''g'' (ack_done 0 5 taken_loop)) =
        (set_inFlight False (set_inFlight True (taken_loop\<lparr> lp_phase := Planning [forged_message] vs g, lp_unhanded := [] \<rparr>)))
          \<lparr> lp_covering := [], lp_phase := Releasing, lp_dropped := [forged_message] \<rparr>"
      using t by (simp add: ack_done_def plan_done_def p c object_entries_def spawn_done_def set_inFlight_def)
    then show ?thesis using t
      by (simp add: failed_loop_def release_done_def serviceDeferredTurn_def takeExpiredDeferred_def begin_retry_def listRetryableDeferred_def finish_tick_def set_inFlight_def)
  qed
  then show "lp_phase failed_loop = Idle" "forged_message \<in> set (lp_taken failed_loop)" by blast+
  from f show "heldKey sample_crypto forged_message \<notin> keys sample_crypto (lp_turned failed_loop) \<union> keys sample_crypto (map fst (lp_dead failed_loop)) \<union>
       stash_keys sample_crypto (as_deferred (lp_state failed_loop)) \<union> keys sample_crypto (lp_unhanded failed_loop)" by (simp add: stash_keys_def)
qed

end
