(* ===== verification/Inbox_Trust.thy ===== *)
theory Inbox_Trust
  imports Inbox_Cache
begin

text \<open>
  What an agent is told about the messages in its inbox, \<^verbatim>\<open>packages/openclaw-plugin/src/inbox-trust.ts\<close>, and the tool
  \<^verbatim>\<open>ekho_inbox\<close> of \<^verbatim>\<open>index.ts\<close> that shows the cache of \<open>Inbox_Cache\<close> to it: the signature status of a verdict, the envelope with the
  tier of trust, the projection of one message and the whole listing.  The fixed texts are values of a datatype, one per text of
  the source.  The files that attachments were downloaded to and the running listener
  are arguments; the identity of the build, which every listing carries, is left out.
\<close>

section \<open>Envelopes\<close>

datatype signature_status = Sig_verified | Sig_failed | Sig_unchecked

datatype from_kind = Feed_kind | Operator_kind | Agent_kind

datatype trust_tier =
    Untrusted_external
  | Untrusted_external_forged
  | Rejected_signature
  | Verified_operator
  | Attested_operator
  | Unverified_operator

datatype guidance =
    EKHO_FEED_UNTRUSTED_NOTE
  | OPERATOR_VERIFIED_NOTE
  | OPERATOR_RELAY_ATTESTED_NOTE
  | OPERATOR_UNVERIFIED_NOTE
  | SIGNATURE_FAILED_NOTE
  | Claims_to_be_feed_note

text \<open>The label of the sender; \<open>Failed_from\<close> carries the claimed name, \<open>Raw_from\<close> the member of the message as it is.\<close>

datatype from_label =
    External_feed_from
  | Claimed_feed_from
  | Failed_from string
  | Verified_operator_from
  | Attested_operator_from
  | Unverified_operator_from
  | Agent_from string
  | Raw_from "json option"

record inbox_envelope =
  ie_from_kind :: from_kind
  ie_from :: from_label
  ie_trust :: "trust_tier option"
  ie_note :: "guidance list"

definition is_text :: "json option \<Rightarrow> string \<Rightarrow> bool" where
  "is_text v t \<longleftrightarrow> v = Some (JStr t)"

definition text_or_empty :: "json option \<Rightarrow> string" where
  "text_or_empty v = (case v of Some (JStr t) \<Rightarrow> t | _ \<Rightarrow> [])"

definition inboxTrustEnvelope :: "json option \<Rightarrow> json option \<Rightarrow> json option \<Rightarrow> bool \<Rightarrow> signature_status \<Rightarrow> inbox_envelope" where
  "inboxTrustEnvelope messageType senderKind senderAgentId operatorTrusted signature =
     (if is_text messageType ''feed'' then
        if signature = Sig_failed then
          \<lparr> ie_from_kind = Feed_kind, ie_from = Claimed_feed_from, ie_trust = Some Untrusted_external_forged,
            ie_note = [SIGNATURE_FAILED_NOTE, Claims_to_be_feed_note, EKHO_FEED_UNTRUSTED_NOTE] \<rparr>
        else \<lparr> ie_from_kind = Feed_kind, ie_from = External_feed_from, ie_trust = Some Untrusted_external,
            ie_note = [EKHO_FEED_UNTRUSTED_NOTE] \<rparr>
      else if signature = Sig_failed then
        let who = (if is_text senderKind ''operator'' then ''Operator'' else text_or_empty senderAgentId) in
        \<lparr> ie_from_kind = (if is_text senderKind ''operator'' then Operator_kind else Agent_kind),
          ie_from = Failed_from (if who = [] then ''unknown sender'' else who),
          ie_trust = Some Rejected_signature, ie_note = [SIGNATURE_FAILED_NOTE] \<rparr>
      else if is_text senderKind ''operator'' then
        if signature = Sig_verified then
          \<lparr> ie_from_kind = Operator_kind, ie_from = Verified_operator_from, ie_trust = Some Verified_operator,
            ie_note = [OPERATOR_VERIFIED_NOTE] \<rparr>
        else if operatorTrusted then
          \<lparr> ie_from_kind = Operator_kind, ie_from = Attested_operator_from, ie_trust = Some Attested_operator,
            ie_note = [OPERATOR_RELAY_ATTESTED_NOTE] \<rparr>
        else
          \<lparr> ie_from_kind = Operator_kind, ie_from = Unverified_operator_from, ie_trust = Some Unverified_operator,
            ie_note = [OPERATOR_UNVERIFIED_NOTE] \<rparr>
      else \<lparr> ie_from_kind = Agent_kind, ie_from = Agent_from (text_or_empty senderAgentId), ie_trust = None, ie_note = [] \<rparr>)"

definition signatureStatusOf :: "verify_result option \<Rightarrow> json option \<Rightarrow> signature_status" where
  "signatureStatusOf verdict senderKind =
     (case verdict of
        None \<Rightarrow> Sig_unchecked
      | Some v \<Rightarrow>
          if senderKind \<noteq> None \<and> vr_kind v \<noteq> (if is_text senderKind ''operator'' then Operator_sender else Peer_sender) then Sig_failed
          else if vr_verified v then Sig_verified else Sig_failed)"

section \<open>The view of one message\<close>

record view_signature =
  vs_status :: signature_status
  vs_reason :: "verify_reason option"
  vs_key_id :: "string option"

record peer_budget =
  pb_used :: nat
  pb_budget :: "int option"
  pb_remaining :: "int option"

record 'f message_view =
  mv_type :: "json option"
  mv_body :: "json option"
  mv_conversation_id :: "json option"
  mv_sent_at :: "json option"
  mv_from_kind :: from_kind
  mv_signature :: view_signature
  mv_mentions :: "json list"
  mv_reply_to :: "json option"
  mv_attachments :: "'f list"
  mv_from :: from_label
  mv_trust :: "trust_tier option"
  mv_note :: "guidance list"
  mv_peer_budget :: "peer_budget option"

definition verdict_signature :: "verify_result option \<Rightarrow> signature_status \<Rightarrow> view_signature" where
  "verdict_signature verdict signature =
     \<lparr> vs_status = signature, vs_reason = Option.bind verdict vr_reason,
       vs_key_id = (let k = Option.bind verdict vr_keyId in if truthy k then k else None) \<rparr>"

definition peer_budget_of :: "int \<Rightarrow> (string \<times> nat) list \<Rightarrow> json option \<Rightarrow> peer_budget" where
  "peer_budget_of peerTurnBudget peerTurnsUsed conversation =
     (let budget = (if peerTurnBudget \<ge> 1 then peerTurnBudget else 0);
          used = (case map_of peerTurnsUsed (js_String conversation) of Some n \<Rightarrow> n | None \<Rightarrow> 0)
      in if budget > 0 then \<lparr> pb_used = used, pb_budget = Some budget, pb_remaining = Some (max 0 (budget - int used)) \<rparr>
         else \<lparr> pb_used = used, pb_budget = None, pb_remaining = None \<rparr>)"

text \<open>Members that the source leaves out are empty here.\<close>

definition inboxMessageView ::
  "json \<Rightarrow> verify_result option \<Rightarrow> bool \<Rightarrow> 'f list \<Rightarrow> int \<Rightarrow> (string \<times> nat) list \<Rightarrow> 'f message_view" where
  "inboxMessageView m verdict operatorTrusted files peerTurnBudget peerTurnsUsed =
     (let signature = signatureStatusOf verdict (json_get m ''sender_kind'');
          envelope = inboxTrustEnvelope (json_get m ''message_type'') (json_get m ''sender_kind'') (json_get m ''sender_agent_id'')
            operatorTrusted signature;
          base = \<lparr> mv_type = json_get m ''message_type'', mv_body = json_get m ''body'', mv_conversation_id = json_get m ''conversation_id'',
            mv_sent_at = json_get m ''created_at'', mv_from_kind = ie_from_kind envelope,
            mv_signature = verdict_signature verdict signature, mv_mentions = array_of (json_get m ''mentions''),
            mv_reply_to = (if Envelope.json_truthy (json_get m ''reply_to'') then json_get m ''reply_to'' else None),
            mv_attachments = files, mv_from = Raw_from (json_get m ''sender_agent_id''), mv_trust = None, mv_note = [], mv_peer_budget = None \<rparr>
      in if ie_from_kind envelope = Feed_kind \<or> ie_from_kind envelope = Operator_kind \<or> signature = Sig_failed then
           base\<lparr> mv_from := ie_from envelope, mv_trust := ie_trust envelope, mv_note := ie_note envelope \<rparr>
         else base\<lparr> mv_peer_budget := Some (peer_budget_of peerTurnBudget peerTurnsUsed (json_get m ''conversation_id'')) \<rparr>)"

section \<open>The listing\<close>

record listing_details =
  ld_roster_fetched_at :: "int option"
  ld_operator_trusted :: bool
  ld_peer_autoreply :: bool
  ld_peer_turn_budget :: "int option"
  ld_roster :: "json list"
  ld_controls :: "json list"
  ld_conversation_history :: json

text \<open>What every listing has, and the details of one that was made on a connection.\<close>

record 'f inbox_listing =
  il_listener_up :: bool
  il_count :: nat
  il_messages :: "'f message_view list"
  il_generation :: generation_state
  il_degraded :: bool
  il_error :: "string option"
  il_details :: "listing_details option"

definition present :: "string \<Rightarrow> json \<Rightarrow> (string \<times> json) list" where
  "present k v = (case json_get v k of Some x \<Rightarrow> [(k, x)] | None \<Rightarrow> [])"

definition roster_view :: "json \<Rightarrow> json" where
  "roster_view r = JObj (present ''agent_id'' r @ present ''display_name'' r @ present ''runtime'' r @ present ''status'' r @
     (if is_text (json_get r ''status'') ''quarantined'' \<and>
         js_String (json_get r ''quarantine_reason'') \<in> {''heartbeat_timeout'', ''rate_limit_abuse'', ''operator''}
      then present ''quarantine_reason'' r else []))"

definition entry_view :: "inbox_view \<Rightarrow> (nat \<Rightarrow> 'f list) \<Rightarrow> nat \<Rightarrow> cached_entry \<Rightarrow> 'f message_view" where
  "entry_view cached files i e =
     inboxMessageView (ce_message e) (ce_verification e) (iv_operator_trusted cached) (files i)
       (effectiveConversationBudget (bm_conversation_budgets (iv_meta cached)) (conversation_id (ce_message e))
          (normalizeTurnBudget (Some (JNum (bm_peer_turn_budget (iv_meta cached))))))
       (bm_peer_turns_used (iv_meta cached))"

text \<open>
  The tool.  \<open>connection\<close> is the error of \<^verbatim>\<open>ensureConnected\<close>, or the agent and the cache context of the connection; \<open>files i\<close> are the
  local attachments of the message at position \<open>i\<close>.
\<close>

definition ekho_inbox ::
  "crypto \<Rightarrow> string + string \<times> string \<Rightarrow> (string \<Rightarrow> bool) \<Rightarrow> (nat \<Rightarrow> 'f list) \<Rightarrow> registry \<Rightarrow> 'f inbox_listing \<times> registry" where
  "ekho_inbox C connection listenerUp files reg =
     (case connection of
        Inl err \<Rightarrow> (\<lparr> il_listener_up = False, il_count = 0, il_messages = [], il_generation = Unavailable, il_degraded = True,
            il_error = Some (''not connected: '' @ err), il_details = None \<rparr>, reg)
      | Inr (agentId, cacheContext) \<Rightarrow>
          let (cached, reg1) = getCachedInbox C agentId cacheContext reg;
              up = listenerUp agentId;
              budget = normalizeTurnBudget (Some (JNum (bm_peer_turn_budget (iv_meta cached))))
          in (\<lparr> il_listener_up = up, il_count = length (iv_messages cached),
                il_messages = map (\<lambda>(i, e). entry_view cached files i e) (enumerate 0 (iv_entries cached)),
                il_generation = iv_generation cached, il_degraded = (\<not> up \<or> iv_generation cached \<noteq> Current), il_error = None,
                il_details = Some \<lparr> ld_roster_fetched_at = iv_recorded_at cached, ld_operator_trusted = iv_operator_trusted cached,
                  ld_peer_autoreply = bm_peer_autoreply (iv_meta cached), ld_peer_turn_budget = (if budget > 0 then Some budget else None),
                  ld_roster = map roster_view (bm_roster (iv_meta cached)), ld_controls = bm_controls (iv_meta cached),
                  ld_conversation_history = bm_conversation_history (iv_meta cached) \<rparr> \<rparr>, reg1))"

section \<open>What an envelope says of a verdict\<close>

lemma failed_status: "failed_verdict v \<Longrightarrow> signatureStatusOf v k = Sig_failed"
  by (auto simp: failed_verdict_def signatureStatusOf_def split: option.splits)

text \<open>A failed signature is shown as one, whatever else the message claims.\<close>

lemma failed_view:
  fixes trusted :: bool and files :: "'f list" and budget :: int and used :: "(string \<times> nat) list"
  assumes "signatureStatusOf verdict (json_get m ''sender_kind'') = Sig_failed"
  defines "v \<equiv> inboxMessageView m verdict trusted files budget used"
  shows "vs_status (mv_signature v) = Sig_failed \<and> mv_trust v \<in> {Some Rejected_signature, Some Untrusted_external_forged} \<and>
     SIGNATURE_FAILED_NOTE \<in> set (mv_note v) \<and> OPERATOR_VERIFIED_NOTE \<notin> set (mv_note v) \<and> OPERATOR_RELAY_ATTESTED_NOTE \<notin> set (mv_note v) \<and>
     mv_peer_budget v = None"
  unfolding v_def inboxMessageView_def Let_def assms(1)
  by (simp add: inboxTrustEnvelope_def verdict_signature_def Let_def)

lemma authority_view:
  fixes m :: json and verdict :: "verify_result option" and trusted :: bool and files :: "'f list" and budget :: int and used :: "(string \<times> nat) list"
  defines "v \<equiv> inboxMessageView m verdict trusted files budget used"
  assumes "mv_trust v \<in> {Some Verified_operator, Some Attested_operator}"
  shows "is_text (json_get m ''sender_kind'') ''operator'' \<and> \<not> is_text (json_get m ''message_type'') ''feed'' \<and>
     (if mv_trust v = Some Verified_operator then \<exists>w. verdict = Some w \<and> vr_verified w \<and> vr_kind w = Operator_sender
      else verdict = None \<and> trusted)"
  using assms unfolding inboxMessageView_def inboxTrustEnvelope_def Let_def
  by (cases verdict) (auto simp: signatureStatusOf_def is_text_def split: if_splits)

lemma listed_view:
  assumes "i < length (iv_entries (fst (getCachedInbox C a ctx reg)))"
  shows "il_messages (fst (ekho_inbox C (Inr (a, ctx)) up files reg)) ! i =
     entry_view (fst (getCachedInbox C a ctx reg)) files i (iv_entries (fst (getCachedInbox C a ctx reg)) ! i)"
  using assms by (cases "getCachedInbox C a ctx reg") (simp add: ekho_inbox_def Let_def nth_enumerate_eq)

text \<open>
  C6: What was rejected is shown as rejected.  Let a verification reject a message that the ring of the agent's cache holds at that moment, under its id and in the context of
  the verification (not one that the ring of twenty-five has lost by then, or that cannot be compared).  Then every later listing of
  \<^verbatim>\<open>ekho_inbox\<close> that has a message with the same signed material in it, after whatever polls, verifications and reads and under whatever keys and relay flags,
  labels it as failed with the warning, and in no case as coming from the operator with authority.
\<close>

theorem listing_shows_rejection:
  assumes "inj (sha256_hex C)" "reach [] (cache_step C) reg"
    and "in_ring C a ctx0 (rj_message r) reg" "wire_text (rj_message r) ''message_id'' \<noteq> None"
    and "r \<in> set rejects" "\<forall>q\<in>set rejects. \<not> vr_verified (rj_verdict q)"
    and "reach (recordVerifications C vs rejects ms a ctx0 reg) (cache_step C) reg'"
    and "i < length (iv_entries (fst (getCachedInbox C a ctx reg')))"
    and "sameSignedMaterial C (rj_message r) (ce_message (iv_entries (fst (getCachedInbox C a ctx reg')) ! i))"
    and "v = il_messages (fst (ekho_inbox C (Inr (a, ctx)) up files reg')) ! i"
  shows "vs_status (mv_signature v) = Sig_failed \<and> mv_trust v \<in> {Some Rejected_signature, Some Untrusted_external_forged} \<and>
     SIGNATURE_FAILED_NOTE \<in> set (mv_note v) \<and> OPERATOR_VERIFIED_NOTE \<notin> set (mv_note v) \<and> OPERATOR_RELAY_ATTESTED_NOTE \<notin> set (mv_note v) \<and>
     mv_peer_budget v = None"
proof -
  let ?e = "iv_entries (fst (getCachedInbox C a ctx reg')) ! i" and ?reg1 = "recordVerifications C vs rejects ms a ctx0 reg"
  have r: "reach [] (cache_step C) ?reg1" by (rule reach_step [OF assms(2)]) (rule Step_verify, use assms(6) in blast)
  have "materialDigest C (rj_message r) \<in> known_bad ?reg1 a" by (rule rejected_is_known [OF assms(3,5) _ assms(4)]) (use assms(6) in blast)
  then have "materialDigest C (ce_message ?e) \<in> known_bad ?reg1 a" using assms(9) by (simp add: sameSignedMaterial_def)
  then have "failed_verdict (ce_verification ?e)" by (rule known_bad_view [OF assms(1) r assms(7) _ nth_mem [OF assms(8)]])
  then show ?thesis unfolding assms(10) listed_view [OF assms(8)] entry_view_def by (intro failed_view failed_status)
qed

theorem listing_shows_rejection_witness:
  "mv_trust (il_messages (fst (ekho_inbox sample_crypto (Inr (''a'', ''x.g2'')) (\<lambda>_. True) (\<lambda>_. [] :: string list)
     (recordBatch sample_crypto 1 (JObj [(''messages'', JArr [cached_message]), (''operator_trusted'', JBool True)]) None ''a'' ''x.g2'' cached_registry))) ! 0)
   \<in> {Some Rejected_signature, Some Untrusted_external_forged}"
proof -
  let ?r = "recordBatch sample_crypto 1 (JObj [(''messages'', JArr [cached_message]), (''operator_trusted'', JBool True)]) None ''a'' ''x.g2'' cached_registry"
  let ?s = "recordBatch sample_crypto 0 (JObj [(''messages'', JArr [cached_message])]) None ''a'' ''x.g1'' []"
  have h: "inj (sha256_hex sample_crypto)" by (simp add: sample_crypto_def inj_def)
  have s: "reach [] (cache_step sample_crypto) ?s" by (rule reach_step, rule reach_start, rule Step_batch)
  have ring: "in_ring sample_crypto ''a'' ''x.g1'' (rj_message cached_failure) ?s" "wire_text (rj_message cached_failure) ''message_id'' \<noteq> None" by code_simp+
  have rej: "cached_failure \<in> set [cached_failure]" "\<forall>q\<in>set [cached_failure]. \<not> vr_verified (rj_verdict q)" by (simp_all add: cached_failure_def)
  have r': "reach (recordVerifications sample_crypto [] [cached_failure] None ''a'' ''x.g1'' ?s) (cache_step sample_crypto) ?r"
    unfolding cached_registry_def by (rule reach_step, rule reach_start, rule Step_batch)
  have len: "0 < length (iv_entries (fst (getCachedInbox sample_crypto ''a'' ''x.g2'' ?r)))" by code_simp
  have same: "sameSignedMaterial sample_crypto (rj_message cached_failure) (ce_message (iv_entries (fst (getCachedInbox sample_crypto ''a'' ''x.g2'' ?r)) ! 0))"
    by code_simp
  show ?thesis using listing_shows_rejection [OF h s ring rej r' len same refl] by blast
qed

text \<open>A listing with messages in it reads the cache of the agent, which a batch has filled.\<close>

lemma shown_cache:
  assumes "reach [] (cache_step C) reg" "i < length (iv_entries (fst (getCachedInbox C a ctx reg)))"
  obtains c where "map_of reg a = Some c" "ac_connectionIdentity c = fst (contextParts ctx)" "inboxCache C a ctx True reg = (c, reg)"
    "bm_recorded_at (ac_meta c) \<noteq> None"
proof -
  obtain c reg1 where i: "inboxCache C a ctx True reg = (c, reg1)" by (cases "inboxCache C a ctx True reg")
  have e: "ac_entries c \<noteq> []" using assms(2) by (auto simp: getCachedInbox_def i Let_def)
  then have c: "map_of reg a = Some c" "ac_connectionIdentity c = fst (contextParts ctx)" "reg1 = reg"
    using i by (auto simp: inboxCache_def freshCache_def Let_def split: option.splits if_splits)
  have "labelled reg" by (rule inbox_labels.inv_reach [OF assms(1)])
  then have "label_ok c" using map_of_SomeD [OF c(1)] by (auto simp: labelled_def)
  with e have "bm_recorded_at (ac_meta c) \<noteq> None" by (simp add: label_ok_def)
  with c i show thesis by (intro that [of c]) auto
qed

text \<open>
  C19: Authority has grounds.  In a listing over any run of the cache, a message labelled as from the verified operator claims the operator as its sender, is no feed item, and has
  a passing verdict of the operator's tier in the cache, taken under the reader's own generation of trusted keys; one labelled as attested by the relay
  has no verdict, and the relay's latest batch, of the same generation, vouches for the operator.
\<close>

theorem operator_label_grounds:
  assumes "reach [] (cache_step C) reg" "i < length (iv_entries (fst (getCachedInbox C a ctx reg)))"
    and "v = il_messages (fst (ekho_inbox C (Inr (a, ctx)) up files reg)) ! i"
    and "mv_trust v \<in> {Some Verified_operator, Some Attested_operator}"
  shows "\<exists>c e. map_of reg a = Some c \<and> snd (ac_entries c ! i) = e \<and> (ac_connectionIdentity c, ac_verificationGeneration c) = contextParts ctx \<and>
     is_text (json_get (ce_message e) ''sender_kind'') ''operator'' \<and> \<not> is_text (json_get (ce_message e) ''message_type'') ''feed'' \<and>
     (if mv_trust v = Some Verified_operator then \<exists>w. ce_verification e = Some w \<and> vr_verified w \<and> vr_kind w = Operator_sender
      else ce_verification e = None \<and> bm_operator_trusted (ac_meta c))"
proof -
  let ?r = "fst (getCachedInbox C a ctx reg)"
  let ?x = "iv_entries ?r ! i"
  obtain c where c: "map_of reg a = Some c" "ac_connectionIdentity c = fst (contextParts ctx)" "inboxCache C a ctx True reg = (c, reg)" "bm_recorded_at (ac_meta c) \<noteq> None"
    using assms(1,2) by (rule shown_cache)
  have len: "i < length (ac_entries c)" using assms(2) by (simp add: getCachedInbox_def c(3) Let_def)
  have v: "v = entry_view ?r files i ?x" unfolding assms(3) by (rule listed_view [OF assms(2)])
  have m: "is_text (json_get (ce_message ?x) ''sender_kind'') ''operator'' \<and> \<not> is_text (json_get (ce_message ?x) ''message_type'') ''feed''"
    and g: "if mv_trust v = Some Verified_operator then \<exists>w. ce_verification ?x = Some w \<and> vr_verified w \<and> vr_kind w = Operator_sender
      else ce_verification ?x = None \<and> iv_operator_trusted ?r"
    using authority_view [OF assms(4) [unfolded v entry_view_def]] unfolding v entry_view_def by blast+
  have gen: "ac_verificationGeneration c = snd (contextParts ctx)"
  proof (rule ccontr)
    assume "ac_verificationGeneration c \<noteq> snd (contextParts ctx)"
    then have "\<not> iv_operator_trusted ?r" "\<And>w. ce_verification ?x = Some w \<Longrightarrow> \<not> vr_verified w"
      using c(4) len by (auto simp: getCachedInbox_def c(3) Let_def split: prod.splits if_splits option.splits)
    with g show False by (auto split: if_splits)
  qed
  then have "?x = snd (ac_entries c ! i)" "iv_operator_trusted ?r = bm_operator_trusted (ac_meta c)"
    using c(4) len by (auto simp: getCachedInbox_def c(3) Let_def split: prod.splits)
  with c gen m g show ?thesis by (auto simp: prod_eq_iff)
qed

definition operator_wire :: json where
  "operator_wire = JObj [(''message_id'', JStr ''m1''), (''sender_kind'', JStr ''operator''), (''message_type'', JStr ''direct'')]"

definition operator_registry :: registry where
  "operator_registry = recordVerifications sample_crypto
     [(''m1'', Some \<lparr> vr_verified = True, vr_kind = Operator_sender, vr_reason = None, vr_keyId = Some ''k'' \<rparr>)] [] None ''a'' ''x.g1''
     (recordBatch sample_crypto 0 (JObj [(''messages'', JArr [operator_wire])]) None ''a'' ''x.g1'' [])"

theorem operator_label_grounds_witness:
  "mv_trust (il_messages (fst (ekho_inbox sample_crypto (Inr (''a'', ''x.g1'')) (\<lambda>_. True) (\<lambda>_. [] :: string list) operator_registry)) ! 0) = Some Verified_operator \<and>
   (\<exists>c e. map_of operator_registry ''a'' = Some c \<and> snd (ac_entries c ! 0) = e \<and> (\<exists>w. ce_verification e = Some w \<and> vr_verified w \<and> vr_kind w = Operator_sender))"
proof -
  have r: "reach [] (cache_step sample_crypto) operator_registry" unfolding operator_registry_def
    by (rule reach_step, rule reach_step, rule reach_start, rule Step_batch, rule Step_verify) simp
  have len: "0 < length (iv_entries (fst (getCachedInbox sample_crypto ''a'' ''x.g1'' operator_registry)))" by code_simp
  have t: "mv_trust (il_messages (fst (ekho_inbox sample_crypto (Inr (''a'', ''x.g1'')) (\<lambda>_. True) (\<lambda>_. [] :: string list) operator_registry)) ! 0) = Some Verified_operator"
    by code_simp
  from operator_label_grounds [OF r len refl, of "\<lambda>_. True" "\<lambda>_. [] :: string list"] t show ?thesis by auto
qed

end
