(* ===== verification/Feed_Source.thy ===== *)
theory Feed_Source
  imports Js_Text
begin

text \<open>
  Sources of feeds, \<^verbatim>\<open>packages/relay/src/feeds.ts\<close>: the parser of RSS and Atom documents, the guard on the addresses that the relay may be
  pointed at, and the fetch that follows redirects by hand.  The regular expressions are written out as searches over the text.  The URL class
  of the runtime and the network are arguments.
\<close>

section \<open>Searching text\<close>

text \<open>A literal at the start of the text, without regard to case.\<close>

definition matches_ci :: "string \<Rightarrow> string \<Rightarrow> bool" where
  "matches_ci p v \<longleftrightarrow> js_lower (take (length p) v) = js_lower p"

definition is_word :: "char \<Rightarrow> bool" where
  "is_word c \<longleftrightarrow> (let n = of_char c :: nat in 48 \<le> n \<and> n \<le> 57 \<or> 65 \<le> n \<and> n \<le> 90 \<or> 97 \<le> n \<and> n \<le> 122 \<or> n = 95)"

text \<open>\<^verbatim>\<open>\b\<close> after a word character.\<close>

definition word_end :: "string \<Rightarrow> bool" where
  "word_end v \<longleftrightarrow> (case v of [] \<Rightarrow> True | c # _ \<Rightarrow> \<not> is_word c)"

text \<open>\<^verbatim>\<open>([\s\S]*?)\<close> up to a literal: the text before its first occurrence, and the text after it.\<close>

fun split_at_ci :: "string \<Rightarrow> string \<Rightarrow> (string \<times> string) option" where
  "split_at_ci p [] = (if p = [] then Some ([], []) else None)"
| "split_at_ci p (c # cs) =
     (if matches_ci p (c # cs) then Some ([], drop (length p) (c # cs))
      else map_option (\<lambda>(a, b). (c # a, b)) (split_at_ci p cs))"

text \<open>\<^verbatim>\<open>v.replace(/p/g, q)\<close> for a literal \<open>p\<close> that is not empty.\<close>

function replace_all :: "string \<Rightarrow> string \<Rightarrow> string \<Rightarrow> string" where
  "replace_all p q [] = []"
| "replace_all p q (c # cs) =
     (if p \<noteq> [] \<and> starts_with p (c # cs) then q @ replace_all p q (drop (length p) (c # cs)) else c # replace_all p q cs)"
  by pat_completeness auto
termination
  by (relation "measure (\<lambda>(p, q, v). length v)") auto

text \<open>\<^verbatim>\<open>/&#0*39;/\<close> at the start: the text after it.\<close>

definition apostrophe_ref :: "string \<Rightarrow> string option" where
  "apostrophe_ref v =
     (if starts_with ''&#'' v then
        let r = dropWhile (\<lambda>c. c = CHR ''0'') (drop 2 v) in if starts_with ''39;'' r then Some (drop 3 r) else None
      else None)"

lemma apostrophe_ref_shorter: "apostrophe_ref v = Some r \<Longrightarrow> length r < length v"
  using length_dropWhile_le [of "\<lambda>c. c = CHR ''0''" "drop 2 v"]
  by (cases v) (auto simp: apostrophe_ref_def starts_with_def Let_def split: if_splits)

function replace_apostrophe :: "string \<Rightarrow> string" where
  "replace_apostrophe [] = []"
| "replace_apostrophe (c # cs) =
     (case apostrophe_ref (c # cs) of Some r \<Rightarrow> CHR 0x27 # replace_apostrophe r | None \<Rightarrow> c # replace_apostrophe cs)"
  by pat_completeness auto
termination
  by (relation "measure length") (auto dest: apostrophe_ref_shorter)

section \<open>The parser\<close>

record feed_item =
  fi_guid :: string
  fi_title :: string
  fi_link :: string
  fi_published :: "string option"

definition decodeXml :: "string \<Rightarrow> string" where
  "decodeXml v =
     replace_all ''&amp;'' ''&'' (replace_all ''&apos;'' [CHR 0x27] (replace_apostrophe
       (replace_all ''&quot;'' [CHR 0x22] (replace_all ''&gt;'' ''>'' (replace_all ''&lt;'' ''<'' v)))))"

text \<open>\<^verbatim>\<open><tag\b[^>]*>\<close> at the start: the text after it.\<close>

definition opened :: "string \<Rightarrow> string \<Rightarrow> string option" where
  "opened name v =
     (let r = drop (Suc (length name)) v in
      if matches_ci (CHR ''<'' # name) v \<and> word_end r then
        (case dropWhile (\<lambda>c. c \<noteq> CHR ''>'') r of [] \<Rightarrow> None | _ # w \<Rightarrow> Some w)
      else None)"

definition closing :: "string \<Rightarrow> string" where
  "closing name = ''</'' @ name @ ''>''"

fun tag_body :: "string \<Rightarrow> string \<Rightarrow> string option" where
  "tag_body name [] = None"
| "tag_body name (c # cs) =
     (case Option.bind (opened name (c # cs)) (split_at_ci (closing name)) of
        Some (body, _) \<Rightarrow> Some body
      | None \<Rightarrow> tag_body name cs)"

definition CDATA_OPEN :: string where
  "CDATA_OPEN = ''<![CDATA[''"

definition without_cdata :: "string \<Rightarrow> string" where
  "without_cdata v =
     (if starts_with CDATA_OPEN v \<and> length v \<ge> 12 \<and> slice_last 3 v = '']]>'' then take (length v - 12) (drop 9 v) else v)"

definition firstTag :: "string \<Rightarrow> string \<Rightarrow> string" where
  "firstTag block name = (case tag_body name block of None \<Rightarrow> [] | Some b \<Rightarrow> js_trim (without_cdata (js_trim b)))"

definition is_quote :: "char \<Rightarrow> bool" where
  "is_quote c \<longleftrightarrow> c = CHR 0x22 \<or> c = CHR 0x27"

text \<open>\<^verbatim>\<open>href=["']([^"']+)["']\<close> at the start.\<close>

definition href_at :: "string \<Rightarrow> string option" where
  "href_at v =
     (if matches_ci ''href='' v then
        (case drop 5 v of
           q # r \<Rightarrow> (let h = takeWhile (\<lambda>c. \<not> is_quote c) r in
             if is_quote q \<and> h \<noteq> [] \<and> dropWhile (\<lambda>c. \<not> is_quote c) r \<noteq> [] then Some h else None)
         | [] \<Rightarrow> None)
      else None)"

text \<open>\<^verbatim>\<open>[^>]*?\<close> before it.\<close>

fun href_in :: "string \<Rightarrow> string option" where
  "href_in [] = href_at []"
| "href_in (c # cs) = (case href_at (c # cs) of Some h \<Rightarrow> Some h | None \<Rightarrow> if c = CHR ''>'' then None else href_in cs)"

fun link_href :: "string \<Rightarrow> string option" where
  "link_href [] = None"
| "link_href (c # cs) =
     (case (if matches_ci ''<link'' (c # cs) \<and> word_end (drop 5 (c # cs)) then href_in (drop 5 (c # cs)) else None) of
        Some h \<Rightarrow> Some h
      | None \<Rightarrow> link_href cs)"

text \<open>\<^verbatim>\<open><(item|entry)\b[\s\S]*?<\/\1>\<close> at the start: the text after it.  The reference to the group repeats the letters that it matched.\<close>

definition block_rest :: "string \<Rightarrow> string option" where
  "block_rest v =
     (case List.find (\<lambda>name. matches_ci (CHR ''<'' # name) v \<and> word_end (drop (Suc (length name)) v)) [''item'', ''entry''] of
        None \<Rightarrow> None
      | Some name \<Rightarrow> map_option snd (split_at_ci (closing (take (length name) (drop 1 v))) (drop (Suc (length name)) v)))"

lemma split_at_ci_shorter: "split_at_ci p v = Some (a, r) \<Longrightarrow> length r \<le> length v"
  by (induction p v arbitrary: a rule: split_at_ci.induct) (auto split: if_splits intro: le_SucI)

lemma block_rest_shorter: "block_rest v = Some r \<Longrightarrow> v \<noteq> [] \<Longrightarrow> length r < length v"
  by (cases v) (auto simp: block_rest_def split: option.splits dest!: split_at_ci_shorter)

function blocks :: "string \<Rightarrow> string list" where
  "blocks [] = []"
| "blocks (c # cs) =
     (case block_rest (c # cs) of
        Some r \<Rightarrow> take (length (c # cs) - length r) (c # cs) # blocks r
      | None \<Rightarrow> blocks cs)"
  by pat_completeness auto
termination
  by (relation "measure length") (auto dest: block_rest_shorter)

definition or_else :: "string \<Rightarrow> string \<Rightarrow> string" where
  "or_else a b = (if a = [] then b else a)"

definition block_item :: "string \<Rightarrow> feed_item" where
  "block_item block =
     (let title = or_else (decodeXml (firstTag block ''title'')) ''(untitled)'';
          link0 = decodeXml (firstTag block ''link'');
          link = (if link0 = [] then (case link_href block of Some h \<Rightarrow> decodeXml h | None \<Rightarrow> []) else link0);
          rawGuid = or_else (firstTag block ''guid'') (or_else (firstTag block ''id'') (or_else link title));
          published = or_else (firstTag block ''pubDate'') (or_else (firstTag block ''published'') (firstTag block ''updated''))
      in \<lparr> fi_guid = js_trim (decodeXml rawGuid), fi_title = js_trim title, fi_link = js_trim link,
           fi_published = (if published = [] then None else Some (js_trim published)) \<rparr>)"

definition parseFeed :: "string \<Rightarrow> feed_item list" where
  "parseFeed xml = filter (\<lambda>i. fi_guid i \<noteq> []) (map block_item (blocks xml))"

section \<open>The guard\<close>

text \<open>
  The URL class: protocol and hostname of an absolute URL, and a location resolved against a base.  None where the constructor throws.
\<close>

record url_api =
  url_parse :: "string \<Rightarrow> (string \<times> string) option"
  url_resolve :: "string \<Rightarrow> string \<Rightarrow> string option"

definition ends_with :: "string \<Rightarrow> string \<Rightarrow> bool" where
  "ends_with p v \<longleftrightarrow> starts_with (rev p) (rev v)"

definition is_hex :: "char \<Rightarrow> bool" where
  "is_hex c \<longleftrightarrow> hex_digit c \<noteq> None"

text \<open>\<^verbatim>\<open>hostname.toLowerCase().replace(/^\[|\]$/g, "").replace(/\.+$/, "")\<close>.\<close>

definition bare_host :: "string \<Rightarrow> string" where
  "bare_host hostname =
     (let h = js_lower hostname;
          h1 = (if starts_with ''['' h then drop 1 h else h);
          h2 = (if ends_with '']'' h1 then butlast h1 else h1)
      in rev (dropWhile (\<lambda>c. c = CHR ''.'') (rev h2)))"

text \<open>\<^verbatim>\<open>/^[23][0-9a-f]{3}:/i\<close> and \<^verbatim>\<open>/^172\.(1[6-9]|2\d|3[01])\./\<close>.\<close>

definition global_unicast :: "string \<Rightarrow> bool" where
  "global_unicast host \<longleftrightarrow>
     (case host of a # b # c # d # e # _ \<Rightarrow> a \<in> {CHR ''2'', CHR ''3''} \<and> is_hex b \<and> is_hex c \<and> is_hex d \<and> e = CHR '':'' | _ \<Rightarrow> False)"

definition private_172 :: "string \<Rightarrow> bool" where
  "private_172 host \<longleftrightarrow> starts_with ''172.'' host \<and>
     (case drop 4 host of
        a # b # c # _ \<Rightarrow> c = CHR ''.'' \<and> (a = CHR ''1'' \<and> b \<in> set ''6789'' \<or> a = CHR ''2'' \<and> b \<in> set ''0123456789'' \<or> a = CHR ''3'' \<and> b \<in> set ''01'')
      | _ \<Rightarrow> False)"

definition allowed_host :: "string \<Rightarrow> bool" where
  "allowed_host host =
     (if host = [] then False
      else if CHR '':'' \<in> set host then global_unicast host
      else if host = ''localhost'' \<or> ends_with ''.localhost'' host \<or> ends_with ''.local'' host then False
      else if host = ''0.0.0.0'' then False
      else if starts_with ''127.'' host then False
      else if starts_with ''10.'' host \<or> starts_with ''192.168.'' host then False
      else if private_172 host then False
      else if starts_with ''169.254.'' host then False
      else True)"

definition isAllowedFeedUrl :: "url_api \<Rightarrow> string \<Rightarrow> bool" where
  "isAllowedFeedUrl U raw =
     (case url_parse U raw of
        None \<Rightarrow> False
      | Some (protocol, hostname) \<Rightarrow>
          if protocol \<noteq> ''http:'' \<and> protocol \<noteq> ''https:'' then False else allowed_host (bare_host hostname))"

definition resolveRedirectTarget :: "url_api \<Rightarrow> string \<Rightarrow> string option \<Rightarrow> string option" where
  "resolveRedirectTarget U currentUrl location =
     (if \<not> truthy location then None
      else case url_resolve U (the location) currentUrl of
        None \<Rightarrow> None
      | Some nxt \<Rightarrow> if isAllowedFeedUrl U nxt then Some nxt else None)"

section \<open>The fetch\<close>

text \<open>
  A response; \<open>rs_declared\<close> is the number that the content length reads as, and the text is None when reading it throws, as it does after the timeout.
\<close>

record response =
  rs_status :: int
  rs_location :: "string option"
  rs_declared :: int
  rs_text :: "string option"

definition REDIRECT_CODES :: "int list" where
  "REDIRECT_CODES = [301, 302, 303, 307, 308]"

text \<open>
  The hops that are left after \<open>hop\<close> of them: the body, and the addresses that were fetched.  \<open>fetch hop u\<close> is the answer to the request of that hop, None when it throws.
\<close>

fun follow_hops ::
  "url_api \<Rightarrow> (nat \<Rightarrow> string \<Rightarrow> response option) \<Rightarrow> nat \<Rightarrow> nat \<Rightarrow> nat \<Rightarrow> string \<Rightarrow> string option \<times> string list" where
  "follow_hops U fetch maxBytes hop left current =
     (case fetch hop current of
        None \<Rightarrow> (None, [current])
      | Some res \<Rightarrow>
          if rs_status res \<in> set REDIRECT_CODES then
            (case left of
               0 \<Rightarrow> (None, [current])
             | Suc n \<Rightarrow>
                 (case resolveRedirectTarget U current (rs_location res) of
                    None \<Rightarrow> (None, [current])
                  | Some nxt \<Rightarrow> let (r, us) = follow_hops U fetch maxBytes (Suc hop) n nxt in (r, current # us)))
          else if \<not> (200 \<le> rs_status res \<and> rs_status res \<le> 299) then (None, [current])
          else if rs_declared res \<noteq> 0 \<and> rs_declared res > int maxBytes then (None, [current])
          else (map_option (take maxBytes) (rs_text res), [current]))"

definition fetchFeedUrlWith ::
  "url_api \<Rightarrow> (nat \<Rightarrow> string \<Rightarrow> response option) \<Rightarrow> nat \<Rightarrow> nat \<Rightarrow> string \<Rightarrow> string option \<times> string list" where
  "fetchFeedUrlWith U fetch maxBytes maxRedirects url =
     (if \<not> isAllowedFeedUrl U url then (None, []) else follow_hops U fetch maxBytes 0 maxRedirects url)"

definition fetchFeedUrl :: "url_api \<Rightarrow> (nat \<Rightarrow> string \<Rightarrow> response option) \<Rightarrow> string \<Rightarrow> string option \<times> string list" where
  "fetchFeedUrl U fetch url = fetchFeedUrlWith U fetch 3000000 5 url"

declare follow_hops.simps [simp del]

section \<open>Every hop is guarded\<close>

lemma resolve_allowed: "resolveRedirectTarget U c l = Some u \<Longrightarrow> isAllowedFeedUrl U u"
  by (auto simp: resolveRedirectTarget_def split: if_splits option.splits)

lemma follow_hops_guarded:
  assumes "isAllowedFeedUrl U current"
  shows "set (snd (follow_hops U fetch maxBytes hop left current)) \<subseteq> Collect (isAllowedFeedUrl U) \<and>
     length (snd (follow_hops U fetch maxBytes hop left current)) \<le> Suc left \<and>
     list_all (\<lambda>t. length t \<le> maxBytes) (case_option [] (\<lambda>t. [t]) (fst (follow_hops U fetch maxBytes hop left current)))"
  using assms
proof (induction left arbitrary: hop current)
  case 0
  then show ?case by (subst (1 2 3) follow_hops.simps) (auto split: option.splits)
next
  case (Suc n)
  show ?case
  proof (cases "\<exists>res nxt. fetch hop current = Some res \<and> rs_status res \<in> set REDIRECT_CODES \<and> resolveRedirectTarget U current (rs_location res) = Some nxt")
    case True
    then obtain res nxt where r: "fetch hop current = Some res" "rs_status res \<in> set REDIRECT_CODES" "resolveRedirectTarget U current (rs_location res) = Some nxt" by blast
    have "follow_hops U fetch maxBytes hop (Suc n) current =
        (let (t, us) = follow_hops U fetch maxBytes (Suc hop) n nxt in (t, current # us))"
      by (subst follow_hops.simps) (simp add: r)
    with Suc.IH [OF resolve_allowed [OF r(3)], of "Suc hop"] Suc.prems show ?thesis by (simp add: case_prod_unfold Let_def)
  next
    case False
    then show ?thesis using Suc.prems by (subst (1 2 3) follow_hops.simps) (auto split: option.splits)
  qed
qed

text \<open>
  C20: The relay fetches guarded addresses only.  Whatever a source answers, redirects included, every address that a fetch of a feed requests passes the
  guard against private addresses, there are at most six requests, and the body that comes back has at most three million characters.
\<close>

theorem feed_fetch_guarded:
  "set (snd (fetchFeedUrl U fetch url)) \<subseteq> Collect (isAllowedFeedUrl U) \<and> length (snd (fetchFeedUrl U fetch url)) \<le> 6 \<and>
   list_all (\<lambda>t. length t \<le> 3000000) (case_option [] (\<lambda>t. [t]) (fst (fetchFeedUrl U fetch url)))"
  using follow_hops_guarded [of U url fetch 3000000 0 5] by (simp add: fetchFeedUrl_def fetchFeedUrlWith_def)

section \<open>What the guard says of addresses\<close>

text \<open>The dotted notation that the URL class gives to every IPv4 host.\<close>

definition dotted :: "nat \<Rightarrow> nat \<Rightarrow> nat \<Rightarrow> nat \<Rightarrow> string" where
  "dotted a b c d = nat_str a @ ''.'' @ nat_str b @ ''.'' @ nat_str c @ ''.'' @ nat_str d"

lemma starts_with_iff: "starts_with p v \<longleftrightarrow> (\<exists>w. v = p @ w)"
  by (auto simp: starts_with_def) (metis append_take_drop_id)

lemma dot_split:
  assumes "nat_str a @ CHR ''.'' # x = nat_str b @ CHR ''.'' # y"
  shows "a = b \<and> x = y"
proof -
  have "takeWhile is_digit (nat_str k @ CHR ''.'' # z) = nat_str k" for k z
    using nat_str_digits [of _ k] by (simp add: takeWhile_append is_digit_def)
  with assms have "nat_str a = nat_str b" by metis
  with assms nat_str_inj show ?thesis by auto
qed

lemma starts_with_octet: "starts_with (nat_str n @ CHR ''.'' # p) (nat_str a @ CHR ''.'' # r) \<longleftrightarrow> n = a \<and> starts_with p r"
  unfolding starts_with_iff by (metis append.assoc append_Cons dot_split)

lemma nat_str_literals:
  "nat_str 0 = ''0''" "nat_str 10 = ''10''" "nat_str 127 = ''127''" "nat_str 168 = ''168''" "nat_str 169 = ''169''" "nat_str 172 = ''172''"
  "nat_str 192 = ''192''" "nat_str 254 = ''254''"
  by code_simp+

lemma octet_prefixes:
  fixes a b :: nat and r :: string
  defines "h \<equiv> nat_str a @ CHR ''.'' # nat_str b @ CHR ''.'' # r"
  shows "starts_with ''127.'' h \<longleftrightarrow> a = 127" "starts_with ''10.'' h \<longleftrightarrow> a = 10" "starts_with ''192.168.'' h \<longleftrightarrow> a = 192 \<and> b = 168"
    "starts_with ''169.254.'' h \<longleftrightarrow> a = 169 \<and> b = 254" "starts_with ''172.'' h \<longleftrightarrow> a = 172"
  using starts_with_octet [of 127 "[]" a] starts_with_octet [of 10 "[]" a] starts_with_octet [of 172 "[]" a]
    starts_with_octet [of 192 "''168.''" a] starts_with_octet [of 168 "[]" b] starts_with_octet [of 169 "''254.''" a] starts_with_octet [of 254 "[]" b]
  unfolding h_def nat_str_literals by (auto simp: starts_with_def [of "[]"])

text \<open>The second octet of the private block, by the number of its digits.\<close>

lemma nat_str_octet:
  "b < 10 \<Longrightarrow> nat_str b = [digit_char b]"
  "10 \<le> b \<Longrightarrow> b < 100 \<Longrightarrow> nat_str b = [digit_char (b div 10), digit_char (b mod 10)]"
  "100 \<le> b \<Longrightarrow> b < 1000 \<Longrightarrow> nat_str b = [digit_char (b div 100), digit_char (b div 10 mod 10), digit_char (b mod 10)]"
  by (simp_all add: nat_str_small nat_str_big div_mult2_eq [symmetric])

lemma digit_char_literals: "map digit_char [0..<10] = ''0123456789''"
  by code_simp

lemma private_octet:
  assumes "b < 256"
  shows "(case nat_str b @ CHR ''.'' # r of
        x # y # z # _ \<Rightarrow> z = CHR ''.'' \<and> (x = CHR ''1'' \<and> y \<in> set ''6789'' \<or> x = CHR ''2'' \<and> y \<in> set ''0123456789'' \<or> x = CHR ''3'' \<and> y \<in> set ''01'')
      | _ \<Rightarrow> False) \<longleftrightarrow> 16 \<le> b \<and> b \<le> 31"
proof (cases "10 \<le> b \<and> b < 100")
  case True
  have "\<forall>b\<in>set [10..<100]. (digit_char (b div 10) = CHR ''1'' \<and> digit_char (b mod 10) \<in> set ''6789'' \<or> digit_char (b div 10) = CHR ''2'' \<and> digit_char (b mod 10) \<in> set ''0123456789'' \<or>
      digit_char (b div 10) = CHR ''3'' \<and> digit_char (b mod 10) \<in> set ''01'') \<longleftrightarrow> 16 \<le> b \<and> b \<le> 31"
    by code_simp
  moreover have "b \<in> set [10..<100]" using True unfolding set_upt by simp
  ultimately show ?thesis using True by (simp only: nat_str_octet) (drule (1) bspec, simp)
next
  case False
  have "digit_char k \<noteq> CHR ''.''" if "k < 10" for k using that digit_char_literals by (auto simp: digit_char_def char_of_eq_iff take_bit_eq_mod)
  with False assms show ?thesis by (cases "b < 10") (auto simp: nat_str_octet split: list.splits)
qed

lemma dotted_chars: "x \<in> set (dotted a b c d) \<Longrightarrow> is_digit x \<or> x = CHR ''.''"
  by (auto simp: dotted_def dest: nat_str_digits)

lemma not_ends_with:
  assumes "\<And>x. x \<in> set v \<Longrightarrow> is_digit x \<or> x = CHR ''.''" "y \<in> set p" "\<not> is_digit y" "y \<noteq> CHR ''.''"
  shows "\<not> ends_with p v"
proof
  assume "ends_with p v"
  then obtain w where "rev v = rev p @ w" by (auto simp: ends_with_def starts_with_iff)
  then have "y \<in> set v" using assms(2) by (metis Un_iff set_append set_rev)
  with assms show False by blast
qed

text \<open>A host in dotted notation is refused for its address alone in these blocks, and in no others.\<close>

definition refused_ipv4 :: "nat \<Rightarrow> nat \<Rightarrow> nat \<Rightarrow> nat \<Rightarrow> bool" where
  "refused_ipv4 a b c d \<longleftrightarrow>
     (a, b, c, d) = (0, 0, 0, 0) \<or> a = 127 \<or> a = 10 \<or> (a, b) = (192, 168) \<or> a = 172 \<and> 16 \<le> b \<and> b \<le> 31 \<or> (a, b) = (169, 254)"

lemma allowed_ipv4:
  assumes "a < 256" "b < 256" "c < 256" "d < 256"
  shows "allowed_host (dotted a b c d) \<longleftrightarrow> \<not> refused_ipv4 a b c d"
proof -
  let ?h = "dotted a b c d"
  have h: "?h = nat_str a @ CHR ''.'' # nat_str b @ CHR ''.'' # (nat_str c @ CHR ''.'' # nat_str d)" by (simp add: dotted_def)
  note chars = dotted_chars [of _ a b c d]
  have "?h \<noteq> []" by (simp add: h)
  moreover have "CHR '':'' \<notin> set ?h" using chars [of "CHR '':''"] by (auto simp: is_digit_def)
  moreover have "?h \<noteq> ''localhost''" using chars [of "CHR ''l''"] by (auto simp: is_digit_def)
  ultimately have shape: "?h \<noteq> []" "CHR '':'' \<notin> set ?h" "?h \<noteq> ''localhost''" .
  have ends: "\<not> ends_with ''.localhost'' ?h" "\<not> ends_with ''.local'' ?h"
    by (rule not_ends_with [OF chars, of _ "CHR ''l''"]; simp add: is_digit_def)+
  have zero: "?h = ''0.0.0.0'' \<longleftrightarrow> (a, b, c, d) = (0, 0, 0, 0)"
  proof
    assume "?h = ''0.0.0.0''"
    then have "?h = dotted 0 0 0 0" by (simp add: dotted_def nat_str_literals)
    then show "(a, b, c, d) = (0, 0, 0, 0)" unfolding dotted_def by (auto dest!: dot_split dest: nat_str_inj)
  qed (simp add: dotted_def nat_str_literals)
  note prefixes = octet_prefixes [of a b "nat_str c @ CHR ''.'' # nat_str d", folded h]
  have "drop 4 ?h = nat_str b @ CHR ''.'' # nat_str c @ CHR ''.'' # nat_str d" if "a = 172"
    unfolding h unfolding that nat_str_literals by simp
  then have "private_172 ?h \<longleftrightarrow> a = 172 \<and> 16 \<le> b \<and> b \<le> 31"
    using private_octet [OF assms(2)] unfolding private_172_def prefixes by (cases "a = 172") simp_all
  then show ?thesis unfolding allowed_host_def prefixes refused_ipv4_def using shape ends zero by (simp only: if_False simp_thms) auto
qed

text \<open>The addresses of the public internet: none of the blocks that the registry of special-purpose addresses sets aside, and no multicast.\<close>

definition public_ipv4 :: "nat \<Rightarrow> nat \<Rightarrow> nat \<Rightarrow> nat \<Rightarrow> bool" where
  "public_ipv4 a b c d \<longleftrightarrow>
     \<not> (a = 0 \<or> a = 10 \<or> a = 127 \<or> a \<ge> 224 \<or> a = 100 \<and> 64 \<le> b \<and> b \<le> 127 \<or> (a, b) = (169, 254) \<or> a = 172 \<and> 16 \<le> b \<and> b \<le> 31 \<or>
        (a, b) = (192, 168) \<or> (a, b, c) \<in> {(192, 0, 0), (192, 0, 2), (192, 88, 99), (198, 51, 100), (203, 0, 113)} \<or> a = 198 \<and> 18 \<le> b \<and> b \<le> 19)"

text \<open>
  C23: The guard on IPv4 addresses.  A host in dotted notation is refused when it is the unspecified address, a loopback address (127/8), an address of
  a private network (10/8, 172.16/12, 192.168/16) or a link-local one (169.254/16, with the metadata services of clouds); and no address of the public internet
  is refused.  Nothing is said of the other special blocks, some of which pass.
\<close>

theorem guard_on_ipv4:
  assumes "a < 256" "b < 256" "c < 256" "d < 256"
  shows "((a, b, c, d) = (0, 0, 0, 0) \<or> a = 127 \<or> a = 10 \<or> (a, b) = (192, 168) \<or> a = 172 \<and> 16 \<le> b \<and> b \<le> 31 \<or> (a, b) = (169, 254)
       \<longrightarrow> \<not> allowed_host (dotted a b c d)) \<and>
     (public_ipv4 a b c d \<longrightarrow> allowed_host (dotted a b c d))"
  unfolding allowed_ipv4 [OF assms] by (auto simp: refused_ipv4_def public_ipv4_def)

theorem guard_on_ipv4_witness: "allowed_host (dotted 172 32 0 1) \<and> \<not> allowed_host (dotted 172 20 0 1)"
  using guard_on_ipv4 [of 172 32 0 1] guard_on_ipv4 [of 172 20 0 1] by (simp add: public_ipv4_def)

text \<open>Addresses that are not public and pass: the shared block 100.64/10, which tailnets use, and the 6to4 form of the loopback address.\<close>

theorem guard_passes_shared_and_6to4: "allowed_host (dotted 100 64 0 1) \<and> allowed_host ''2002:7f00:1::''"
  by code_simp

section \<open>Reading a feed back\<close>

text \<open>A printer of RSS documents, with every special character as a reference.\<close>

definition esc_char :: "char \<Rightarrow> string" where
  "esc_char c =
     (if c = CHR ''&'' then ''&amp;'' else if c = CHR ''<'' then ''&lt;'' else if c = CHR ''>'' then ''&gt;''
      else if c = CHR 0x22 then ''&quot;'' else if c = CHR 0x27 then ''&#39;'' else [c])"

definition escXml :: "string \<Rightarrow> string" where
  "escXml v = concat (map esc_char v)"

definition field :: "string \<Rightarrow> string \<Rightarrow> string" where
  "field name v = CHR ''<'' # name @ CHR ''>'' # v @ closing name"

definition item_fields :: "feed_item \<Rightarrow> string" where
  "item_fields i = field ''guid'' (escXml (fi_guid i)) @ field ''title'' (escXml (fi_title i)) @ field ''link'' (escXml (fi_link i)) @
     (case fi_published i of None \<Rightarrow> [] | Some p \<Rightarrow> field ''pubDate'' p)"

definition rss_item :: "feed_item \<Rightarrow> string" where
  "rss_item i = ''<item>'' @ item_fields i @ ''</item>''"

definition rss :: "feed_item list \<Rightarrow> string" where
  "rss items = ''<rss>'' @ concat (map rss_item items) @ ''</rss>''"

text \<open>A field that trimming leaves alone.\<close>

definition trimmed :: "string \<Rightarrow> bool" where
  "trimmed v \<longleftrightarrow> v \<noteq> [] \<and> \<not> is_space (hd v) \<and> \<not> is_space (last v)"

definition printable_item :: "feed_item \<Rightarrow> bool" where
  "printable_item i \<longleftrightarrow> trimmed (fi_guid i) \<and> trimmed (fi_title i) \<and> trimmed (fi_link i) \<and>
     (case fi_published i of None \<Rightarrow> True | Some p \<Rightarrow> trimmed p \<and> CHR ''<'' \<notin> set p)"

subsection \<open>References\<close>

lemma replace_all_pass:
  assumes "\<And>c w. replace_all p q (f c @ w) = g c @ replace_all p q w"
  shows "replace_all p q (concat (map f v)) = concat (map g v)"
  by (induction v) (simp_all add: assms)

lemma replace_all_other: "p \<noteq> [] \<Longrightarrow> hd p \<noteq> c \<Longrightarrow> replace_all p q (c # cs) = c # replace_all p q cs"
  by (cases p) (simp_all add: starts_with_def)

lemma replace_apostrophe_pass:
  assumes "\<And>c w. replace_apostrophe (f c @ w) = g c @ replace_apostrophe w"
  shows "replace_apostrophe (concat (map f v)) = concat (map g v)"
  by (induction v) (simp_all add: assms)

lemma replace_apostrophe_other: "c \<noteq> CHR ''&'' \<Longrightarrow> replace_apostrophe (c # cs) = c # replace_apostrophe cs"
  by (simp add: apostrophe_ref_def starts_with_def)

text \<open>The references that are left after the ones to the given characters were replaced.\<close>

definition esc_but :: "char list \<Rightarrow> char \<Rightarrow> string" where
  "esc_but done c = (if c \<in> set done then [c] else esc_char c)"

lemma decodeXml_escXml: "decodeXml (escXml v) = v"
proof -
  let ?e1 = "esc_but ''<''" and ?e2 = "esc_but ''<>''" and ?e3 = "esc_but [CHR ''<'', CHR ''>'', CHR 0x22]"
    and ?e4 = "esc_but [CHR ''<'', CHR ''>'', CHR 0x22, CHR 0x27]"
  have 1: "replace_all ''&lt;'' ''<'' (concat (map esc_char v)) = concat (map ?e1 v)"
    by (rule replace_all_pass) (auto simp: esc_but_def esc_char_def replace_all_other starts_with_def)
  have 2: "replace_all ''&gt;'' ''>'' (concat (map ?e1 v)) = concat (map ?e2 v)"
    by (rule replace_all_pass) (auto simp: esc_but_def esc_char_def replace_all_other starts_with_def)
  have 3: "replace_all ''&quot;'' [CHR 0x22] (concat (map ?e2 v)) = concat (map ?e3 v)"
    by (rule replace_all_pass) (auto simp: esc_but_def esc_char_def replace_all_other starts_with_def)
  have 4: "replace_apostrophe (concat (map ?e3 v)) = concat (map ?e4 v)"
    by (rule replace_apostrophe_pass) (auto simp: esc_but_def esc_char_def replace_apostrophe_other apostrophe_ref_def starts_with_def)
  have 5: "replace_all ''&apos;'' [CHR 0x27] (concat (map ?e4 v)) = concat (map ?e4 v)"
    by (rule replace_all_pass) (auto simp: esc_but_def esc_char_def replace_all_other starts_with_def)
  have 6: "replace_all ''&amp;'' ''&'' (concat (map ?e4 v)) = concat (map (\<lambda>c. [c]) v)"
    by (rule replace_all_pass) (auto simp: esc_but_def esc_char_def replace_all_other starts_with_def)
  have "concat (map (\<lambda>c. [c]) v) = v" by (induction v) simp_all
  then show ?thesis by (simp only: decodeXml_def escXml_def 1 2 3 4 5 6)
qed

subsection \<open>Tags\<close>

lemma lower_lt: "lower_char c = CHR ''<'' \<longleftrightarrow> c = CHR ''<''"
proof -
  have "lower_char c \<noteq> CHR ''<''" if "lower_char c \<noteq> c"
  proof -
    from that have n: "65 \<le> (of_char c :: nat)" "of_char c \<le> (222 :: nat)" "lower_char c = char_of (of_char c + 32 :: nat)"
      by (auto simp: lower_char_def Let_def split: if_splits)
    then have "of_char (lower_char c) = of_char c + (32 :: nat)" by (simp add: of_char_of take_bit_eq_mod)
    with n(1) show ?thesis by auto
  qed
  moreover have "lower_char (CHR ''<'') = CHR ''<''" by code_simp
  ultimately show ?thesis by metis
qed

lemma matches_ci_simps [simp]:
  "matches_ci [] v" "\<not> matches_ci (p # ps) []" "matches_ci (p # ps) (c # cs) \<longleftrightarrow> lower_char c = lower_char p \<and> matches_ci ps cs"
  by (simp_all add: matches_ci_def js_lower_def)

lemma matches_ci_self: "matches_ci p (p @ w)"
  by (induction p) simp_all

lemma lower_literals:
  "map lower_char ''<>/abdeghiklmnprtuy'' = ''<>/abdeghiklmnprtuy''"
  by code_simp

lemmas lower_chars = lower_literals [simplified]

lemma blocks_skip: "CHR ''<'' \<notin> set u \<Longrightarrow> blocks (u @ v) = blocks v"
  by (induction u) (auto simp: block_rest_def lower_chars lower_lt split: option.splits)

lemma tag_body_skip: "CHR ''<'' \<notin> set u \<Longrightarrow> tag_body name (u @ v) = tag_body name v"
  by (induction u) (auto simp: opened_def lower_chars lower_lt)

definition prepend :: "string \<Rightarrow> (string \<times> string) option \<Rightarrow> (string \<times> string) option" where
  "prepend u r = map_option (\<lambda>(a, b). (u @ a, b)) r"

lemma prepend_prepend: "prepend u (prepend v r) = prepend (u @ v) r"
  by (cases r) (auto simp: prepend_def)

lemma split_step: "\<not> matches_ci p (c # cs) \<Longrightarrow> split_at_ci p (c # cs) = prepend [c] (split_at_ci p cs)"
  by (simp add: prepend_def)

lemma split_skip: "CHR ''<'' \<notin> set u \<Longrightarrow> split_at_ci (closing name) (u @ v) = prepend u (split_at_ci (closing name) v)"
proof (induction u)
  case Nil
  then show ?case by (cases "split_at_ci (closing name) v") (auto simp: prepend_def)
next
  case (Cons c u)
  then have "\<not> matches_ci (closing name) (c # u @ v)" by (auto simp: closing_def lower_chars lower_lt)
  with Cons show ?case by (simp add: split_step prepend_prepend del: split_at_ci.simps)
qed

lemma split_closing: "split_at_ci (closing name) (closing name @ w) = Some ([], w)"
  using matches_ci_self [of "closing name" w] by (cases "closing name @ w") (auto simp: closing_def)

lemma field_skip: "field name v @ w = CHR ''<'' # (name @ ''>'' @ v) @ CHR ''<'' # (CHR ''/'' # name @ ''>'') @ w"
  by (simp add: field_def closing_def)

lemma word_end_gt: "word_end (CHR ''>'' # w)"
  by (simp add: word_end_def is_word_def)

lemma tag_body_same:
  assumes "CHR ''<'' \<notin> set v"
  shows "tag_body name (field name v @ w) = Some v"
proof -
  have "opened name (field name v @ w) = Some (v @ closing name @ w)"
    using matches_ci_self [of "CHR ''<'' # name" "CHR ''>'' # v @ closing name @ w"] by (simp add: field_def opened_def word_end_gt)
  then show ?thesis using split_skip [OF assms, of name "closing name @ w"] by (simp add: split_closing field_def prepend_def)
qed

lemma tag_body_other:
  assumes "CHR ''<'' \<notin> set (n # ns)" "CHR ''<'' \<notin> set v" "lower_char n \<noteq> lower_char m" "lower_char m \<noteq> CHR ''/''"
  shows "tag_body (m # ms) (field (n # ns) v @ w) = tag_body (m # ms) w"
proof -
  have "opened (m # ms) (CHR ''<'' # n # x) = None" "opened (m # ms) (CHR ''<'' # CHR ''/'' # x) = None" for x
    using assms(3,4) by (auto simp: opened_def lower_chars)
  then have o: "tag_body (m # ms) (CHR ''<'' # n # x) = tag_body (m # ms) (n # x)" "tag_body (m # ms) (CHR ''<'' # CHR ''/'' # x) = tag_body (m # ms) (CHR ''/'' # x)" for x
    by simp_all
  have "tag_body (m # ms) (field (n # ns) v @ w) = tag_body (m # ms) ((n # ns @ ''>'' @ v) @ CHR ''<'' # (CHR ''/'' # n # ns @ ''>'') @ w)"
    unfolding field_skip append_Cons o by simp
  also have "\<dots> = tag_body (m # ms) (CHR ''<'' # (CHR ''/'' # n # ns @ ''>'') @ w)"
    using assms(1,2) by (intro tag_body_skip) auto
  also have "\<dots> = tag_body (m # ms) ((CHR ''/'' # n # ns @ ''>'') @ w)" unfolding append_Cons o by simp
  also have "\<dots> = tag_body (m # ms) w" using assms(1) by (intro tag_body_skip) auto
  finally show ?thesis .
qed

lemma split_other:
  assumes "CHR ''<'' \<notin> set (n # ns)" "CHR ''<'' \<notin> set v" "lower_char n \<noteq> lower_char m" "lower_char n \<noteq> CHR ''/''"
  shows "split_at_ci (closing (m # ms)) (field (n # ns) v @ w) = prepend (field (n # ns) v) (split_at_ci (closing (m # ms)) w)"
proof -
  let ?s = "split_at_ci (closing (m # ms))" and ?x = "(n # ns) @ ''>'' @ v" and ?y = "CHR ''/'' # (n # ns) @ ''>''"
  have 1: "?s (CHR ''<'' # ?x @ u) = prepend (CHR ''<'' # ?x) (?s u)" for u
    using split_skip [of ?x "m # ms" u] assms by (subst split_step) (auto simp: closing_def lower_chars prepend_prepend)
  have 2: "?s (CHR ''<'' # ?y @ u) = prepend (CHR ''<'' # ?y) (?s u)" for u
    using split_skip [of ?y "m # ms" u] assms by (subst split_step) (auto simp: closing_def lower_chars prepend_prepend)
  show ?thesis unfolding field_skip 1 2 prepend_prepend by (simp add: field_def closing_def)
qed

subsection \<open>Items\<close>

lemma esc_no_lt: "CHR ''<'' \<notin> set (escXml v)"
  by (auto simp: escXml_def esc_char_def)

lemma trimmed_escXml: "trimmed v \<Longrightarrow> trimmed (escXml v)"
proof -
  have e: "esc_char c \<noteq> [] \<and> (hd (esc_char c) = c \<or> hd (esc_char c) = CHR ''&'') \<and> (last (esc_char c) = c \<or> last (esc_char c) = CHR '';'')" for c
    by (simp add: esc_char_def)
  have amp: "\<not> is_space (CHR ''&'')" "\<not> is_space (CHR '';'')" by code_simp+
  assume v: "trimmed v"
  then obtain c cs where c: "v = c # cs" by (cases v) (simp_all add: trimmed_def)
  obtain d ds where d: "v = ds @ [d]" using v by (cases v rule: rev_cases) (simp_all add: trimmed_def)
  have "escXml v = esc_char c @ escXml cs" by (simp add: c escXml_def)
  then have 1: "escXml v \<noteq> []" "hd (escXml v) = hd (esc_char c)" using e [of c] by simp_all
  have "escXml v = escXml ds @ esc_char d" by (simp add: d escXml_def)
  then have 2: "last (escXml v) = last (esc_char d)" using e [of d] by simp
  have "hd v = c" "last v = d" by (simp add: c, simp add: d)
  with v have "\<not> is_space c" "\<not> is_space d" by (auto simp: trimmed_def)
  with e [of c] e [of d] amp 1 2 show ?thesis by (auto simp: trimmed_def)
qed

lemma js_trim_trimmed: "trimmed v \<Longrightarrow> js_trim v = v"
  using iffD2 [OF dropWhile_eq_self_iff, of v is_space] iffD2 [OF dropWhile_eq_self_iff, of "rev v" is_space]
  by (simp add: js_trim_def trimmed_def hd_rev)

lemma firstTag_same:
  assumes "tag_body name block = Some v" "CHR ''<'' \<notin> set v" "trimmed v"
  shows "firstTag block name = v"
proof -
  have "\<not> starts_with CDATA_OPEN v" using assms(2) by (auto simp: starts_with_iff CDATA_OPEN_def)
  then show ?thesis using assms(1,3) by (simp add: firstTag_def without_cdata_def js_trim_trimmed)
qed

lemma tag_body_step: "lower_char n \<noteq> lower_char m \<Longrightarrow> tag_body (m # ms) (CHR ''<'' # n # x) = tag_body (m # ms) (n # x)"
  by (simp add: opened_def)

lemma tag_body_item:
  assumes "lower_char m \<noteq> CHR ''i''" "lower_char m \<noteq> CHR ''/''"
  shows "tag_body (m # ms) (''<item>'' @ x) = tag_body (m # ms) x" "tag_body (m # ms) ''</item>'' = None"
  using tag_body_skip [of "''item>''" "m # ms" x] tag_body_skip [of "''/item>''" "m # ms" "[]"] assms tag_body_step [of "CHR ''i''" m ms] tag_body_step [of "CHR ''/''" m ms]
  by (simp_all add: lower_chars del: tag_body.simps(2))

lemmas field_simps_other = tag_body_other [where n = "CHR ''g''" and ns = "''uid''"] tag_body_other [where n = "CHR ''t''" and ns = "''itle''"]
  tag_body_other [where n = "CHR ''l''" and ns = "''ink''"]

lemma item_tags:
  shows "tag_body ''guid'' (rss_item i) = Some (escXml (fi_guid i))" "tag_body ''title'' (rss_item i) = Some (escXml (fi_title i))"
    "tag_body ''link'' (rss_item i) = Some (escXml (fi_link i))"
    "fi_published i = Some p \<Longrightarrow> CHR ''<'' \<notin> set p \<Longrightarrow> tag_body ''pubDate'' (rss_item i) = Some p"
    "fi_published i = None \<Longrightarrow> tag_body ''pubDate'' (rss_item i) = None" "fi_published i = None \<Longrightarrow> tag_body ''published'' (rss_item i) = None"
    "fi_published i = None \<Longrightarrow> tag_body ''updated'' (rss_item i) = None"
  unfolding rss_item_def item_fields_def
  by (simp_all add: tag_body_item [unfolded append_Cons append_Nil] field_simps_other tag_body_same esc_no_lt lower_chars del: tag_body.simps(2))

lemma block_item_rss:
  assumes "printable_item i"
  shows "block_item (rss_item i) = i"
proof -
  have t: "trimmed (fi_guid i)" "trimmed (fi_title i)" "trimmed (fi_link i)" using assms by (simp_all add: printable_item_def)
  have f: "firstTag (rss_item i) ''guid'' = escXml (fi_guid i)" "firstTag (rss_item i) ''title'' = escXml (fi_title i)" "firstTag (rss_item i) ''link'' = escXml (fi_link i)"
    using t by (auto intro!: firstTag_same simp: item_tags esc_no_lt trimmed_escXml)
  have p: "or_else (firstTag (rss_item i) ''pubDate'') (or_else (firstTag (rss_item i) ''published'') (firstTag (rss_item i) ''updated'')) =
      (case fi_published i of None \<Rightarrow> [] | Some p \<Rightarrow> p)"
  proof (cases "fi_published i")
    case None
    then show ?thesis by (simp add: firstTag_def item_tags or_else_def)
  next
    case (Some p)
    then have "trimmed p" "CHR ''<'' \<notin> set p" using assms by (simp_all add: printable_item_def)
    with Some show ?thesis using firstTag_same [OF item_tags(4)] by (simp add: or_else_def trimmed_def)
  qed
  have n: "fi_guid i \<noteq> []" "fi_title i \<noteq> []" "fi_link i \<noteq> []" "escXml (fi_guid i) \<noteq> []" using t trimmed_escXml [OF t(1)] by (simp_all add: trimmed_def)
  have "(if (case fi_published i of None \<Rightarrow> [] | Some p \<Rightarrow> p) = [] then None else Some (js_trim (case fi_published i of None \<Rightarrow> [] | Some p \<Rightarrow> p))) = fi_published i"
    using assms by (auto simp: printable_item_def js_trim_trimmed trimmed_def split: option.splits)
  then show ?thesis using n t unfolding block_item_def p f by (simp add: decodeXml_escXml or_else_def js_trim_trimmed)
qed

lemma split_item: "split_at_ci (closing ''item'') (item_fields i @ w) = prepend (item_fields i) (split_at_ci (closing ''item'') w)"
  if "\<And>p. fi_published i = Some p \<Longrightarrow> CHR ''<'' \<notin> set p"
  using that unfolding item_fields_def
  by (cases "fi_published i") (simp_all add: split_other esc_no_lt lower_chars prepend_prepend)

lemma block_rest_item: "printable_item i \<Longrightarrow> block_rest (rss_item i @ w) = Some w"
proof -
  assume p: "printable_item i"
  then have "CHR ''<'' \<notin> set x" if "fi_published i = Some x" for x using that by (simp add: printable_item_def)
  then have "split_at_ci (closing ''item'') (''>'' @ item_fields i @ closing ''item'' @ w) = Some (''>'' @ item_fields i, w)"
    using split_item [of i "closing ''item'' @ w"] split_skip [of "''>''" "''item''" "item_fields i @ closing ''item'' @ w"]
    by (simp add: split_closing prepend_def del: split_at_ci.simps)
  then show ?thesis by (simp add: block_rest_def rss_item_def word_end_gt lower_chars closing_def)
qed

lemma blocks_items: "list_all printable_item is \<Longrightarrow> blocks (concat (map rss_item is) @ w) = map rss_item is @ blocks w"
proof (induction "is")
  case (Cons i "is")
  obtain c cs where c: "rss_item i = c # cs" by (cases "rss_item i") (simp_all add: rss_item_def)
  have "block_rest (c # cs @ concat (map rss_item is) @ w) = Some (concat (map rss_item is) @ w)"
    using Cons.prems block_rest_item [of i "concat (map rss_item is) @ w"] by (simp add: c)
  with Cons show ?case by (simp add: c)
qed simp

lemma parse_rss:
  assumes "list_all printable_item items"
  shows "parseFeed (rss items) = items"
proof -
  have "block_rest (CHR ''<'' # CHR ''r'' # w) = None" "block_rest (CHR ''<'' # CHR ''/'' # w) = None" for w
    by (simp_all add: block_rest_def lower_chars)
  then have "blocks (''<rss>'' @ w) = blocks (''rss>'' @ w)" "blocks (''</rss>'') = blocks (''/rss>'')" for w by simp_all
  then have "blocks (rss items) = map rss_item items"
    using blocks_items [OF assms] blocks_skip [of "''rss>''"] blocks_skip [of "''/rss>''" "[]"] unfolding rss_def by simp
  moreover have "map block_item (map rss_item items) = items" using assms by (simp add: list_all_iff block_item_rss map_idI)
  moreover have "filter (\<lambda>i. fi_guid i \<noteq> []) items = items" using assms by (auto simp: list_all_iff printable_item_def trimmed_def)
  ultimately show ?thesis by (simp add: parseFeed_def del: map_map)
qed

text \<open>
  C22: A feed is read back.  The parser reads from the printed document exactly the items that were printed, in their order, whatever special characters
  their identifiers, titles and links have, when no field is empty or has space around it.
\<close>

theorem feed_roundtrip:
  assumes "list_all printable_item items"
  shows "parseFeed (rss items) = items"
  by (rule parse_rss [OF assms])

definition sample_items :: "feed_item list" where
  "sample_items = [\<lparr> fi_guid = ''a&b'', fi_title = ''1 < 2 &amp; </item>'', fi_link = ''http://x/?a=1&b=2'', fi_published = Some ''Mon'' \<rparr>,
     \<lparr> fi_guid = ''g'', fi_title = ''<script>'', fi_link = ''http://y/'', fi_published = None \<rparr>]"

theorem feed_roundtrip_witness: "parseFeed (rss sample_items) = sample_items"
  by (rule feed_roundtrip) code_simp

text \<open>An identifier that falls back to the title is decoded twice, so that two different titles give one identifier.\<close>

theorem guid_decoded_twice:
  assumes "firstTag b ''guid'' = []" "firstTag b ''id'' = []" "firstTag b ''link'' = []" "link_href b = None" "firstTag b ''title'' \<in> {''&amp;lt;'', ''&lt;''}"
  shows "fi_guid (block_item b) = ''<'' \<and> fi_title (block_item b) = decodeXml (firstTag b ''title'')"
proof -
  have d: "decodeXml [] = []" "decodeXml ''&amp;lt;'' = ''&lt;''" "decodeXml ''&lt;'' = ''<''" "decodeXml ''<'' = ''<''" "js_trim ''&lt;'' = ''&lt;''" "js_trim ''<'' = ''<''" by code_simp+
  from assms(5) show ?thesis by (auto simp: block_item_def assms(1-4) or_else_def d Let_def)
qed

end
