(* ===== verification/Feeds.thy ===== *)
theory Feeds
  imports Delivery Feed_Source
begin

text \<open>
  Feeds in the relay, the feed operations of \<^verbatim>\<open>packages/relay/src/db.ts\<close> from \<^verbatim>\<open>createFeed\<close> to \<^verbatim>\<open>pollFeed\<close> and their routes: subscriptions, the record of
  what was seen, and the delivery of new items as messages that wake nobody.  The three tables stand beside the store.  A poll waits for the network between
  its stamp and its deliveries; it is the two steps \<open>poll_start\<close> and \<open>poll_finish\<close>, with anything in between.
\<close>

section \<open>Tables\<close>

record feed_row =
  fd_id :: string
  fd_fleet_id :: string
  fd_name :: string
  fd_url :: string
  fd_poll_interval_minutes :: int
  fd_last_polled_at :: "int option"
  fd_created_at :: int
  fd_created_by_operator_id :: string

record seen_row =
  sn_feed_id :: string
  sn_guid :: string
  sn_title :: string
  sn_link :: string
  sn_delivered_at :: int

record feed_db =
  fb_store :: store
  fb_feeds :: "feed_row list"
  fb_subscribers :: "(string \<times> string) list"
  fb_seen :: "seen_row list"

section \<open>Subscriptions\<close>

definition valid_subscribers :: "store \<Rightarrow> string \<Rightarrow> string list \<Rightarrow> string list" where
  "valid_subscribers s fleetId ids = filter (\<lambda>a. a \<in> set (map ag_id (select_all (live_agent_of fleetId) (agents s)))) (js_unique ids)"

definition own_feed :: "string \<Rightarrow> string \<Rightarrow> feed_db \<Rightarrow> bool" where
  "own_feed fleetId feedId db = select_exists (\<lambda>f. fd_id f = feedId \<and> fd_fleet_id f = fleetId) (fb_feeds db)"

definition createFeed :: "env \<Rightarrow> string \<Rightarrow> string \<Rightarrow> string \<Rightarrow> string \<Rightarrow> int \<Rightarrow> string list \<Rightarrow> feed_db \<Rightarrow> (feed_row \<times> string list) \<times> feed_db" where
  "createFeed E fleetId operatorId name url pollIntervalMinutes subscriberAgentIds db =
     (let s = fb_store db;
          feed = \<lparr> fd_id = mk_id E ''feed'' (draws s), fd_fleet_id = fleetId, fd_name = name, fd_url = url,
            fd_poll_interval_minutes = pollIntervalMinutes, fd_last_polled_at = None, fd_created_at = now E, fd_created_by_operator_id = operatorId \<rparr>;
          subs = valid_subscribers s fleetId subscriberAgentIds
      in ((feed, subs),
          db\<lparr> fb_feeds := fb_feeds db @ [feed], fb_subscribers := fb_subscribers db @ map (Pair (fd_id feed)) subs,
              fb_store := recordEvent E fleetId ''feed.created'' ''operator'' (Some operatorId) ''feed'' (Some (fd_id feed)) None
                (JObj [(''name'', JStr name), (''url'', JStr url), (''subscribers'', JArr (map JStr subs))]) (s\<lparr> draws := Suc (draws s) \<rparr>) \<rparr>))"

definition live_subscribers :: "string \<Rightarrow> feed_db \<Rightarrow> agent_row list" where
  "live_subscribers feedId db =
     concat (map (\<lambda>(f, a). select_all (\<lambda>g. ag_id g = a \<and> f = feedId \<and> is_null (ag_revoked_at g)) (agents (fb_store db))) (fb_subscribers db))"

definition listFeeds :: "string \<Rightarrow> feed_db \<Rightarrow> (feed_row \<times> (string \<times> string) list \<times> nat) list" where
  "listFeeds fleetId db =
     map (\<lambda>f. (f, map (\<lambda>g. (ag_id g, ag_display_name g)) (sort_key ag_display_name (live_subscribers (fd_id f) db)),
          length (select_all (\<lambda>r. sn_feed_id r = fd_id f) (fb_seen db))))
       (order_desc fd_created_at (select_all (\<lambda>f. fd_fleet_id f = fleetId) (fb_feeds db)))"

definition deleteFeed :: "env \<Rightarrow> string \<Rightarrow> string \<Rightarrow> string \<Rightarrow> feed_db \<Rightarrow> bool \<times> feed_db" where
  "deleteFeed E fleetId feedId operatorId db =
     (if \<not> own_feed fleetId feedId db then (False, db)
      else (True, db\<lparr> fb_subscribers := delete_where (\<lambda>x. fst x = feedId) (fb_subscribers db),
          fb_seen := delete_where (\<lambda>r. sn_feed_id r = feedId) (fb_seen db),
          fb_feeds := delete_where (\<lambda>f. fd_id f = feedId \<and> fd_fleet_id f = fleetId) (fb_feeds db),
          fb_store := recordEvent E fleetId ''feed.deleted'' ''operator'' (Some operatorId) ''feed'' (Some feedId) None (JObj []) (fb_store db) \<rparr>))"

definition setFeedSubscribers :: "env \<Rightarrow> string \<Rightarrow> string \<Rightarrow> string \<Rightarrow> string list \<Rightarrow> feed_db \<Rightarrow> bool \<times> feed_db" where
  "setFeedSubscribers E fleetId feedId operatorId agentIds db =
     (if \<not> own_feed fleetId feedId db then (False, db)
      else let subs = valid_subscribers (fb_store db) fleetId agentIds in
        (True, db\<lparr> fb_subscribers := delete_where (\<lambda>x. fst x = feedId) (fb_subscribers db) @ map (Pair feedId) subs,
          fb_store := recordEvent E fleetId ''feed.subscribers_changed'' ''operator'' (Some operatorId) ''feed'' (Some feedId) None
            (JObj [(''subscribers'', JArr (map JStr subs))]) (fb_store db) \<rparr>))"

definition getFeedItems :: "string \<Rightarrow> string \<Rightarrow> int \<Rightarrow> feed_db \<Rightarrow> seen_row list option" where
  "getFeedItems fleetId feedId n db =
     (if \<not> own_feed fleetId feedId db then None
      else Some (limit_rows n (order_desc sn_delivered_at (select_all (\<lambda>r. sn_feed_id r = feedId) (fb_seen db)))))"

definition feedsDueForPoll :: "int \<Rightarrow> feed_db \<Rightarrow> string list" where
  "feedsDueForPoll nowMs db =
     map fd_id (filter (\<lambda>f. case fd_last_polled_at f of None \<Rightarrow> True | Some t \<Rightarrow> nowMs - t \<ge> fd_poll_interval_minutes f * 60000) (fb_feeds db))"

section \<open>Delivery of items\<close>

text \<open>The headline of a message; the newspaper in front of it is the four bytes of its UTF-8 form.\<close>

definition item_text :: "string \<Rightarrow> feed_item \<Rightarrow> string" where
  "item_text feedName item =
     [CHR 0xF0, CHR 0x9F, CHR 0x93, CHR 0xB0] @ '' ['' @ feedName @ ''] '' @ fi_title item @
     (if fi_link item = [] then [] else CHR 0x0A # fi_link item)"

definition feed_conversation :: "string \<Rightarrow> string" where
  "feed_conversation feedId = ''feed-'' @ feedId"

definition feed_body :: "string \<Rightarrow> feed_item \<Rightarrow> json" where
  "feed_body feedName item = JObj [(''text'', JStr (item_text feedName item)), (''feed'', JStr feedName), (''link'', JStr (fi_link item))]"

definition feed_message :: "env \<Rightarrow> string \<Rightarrow> string \<Rightarrow> string \<Rightarrow> feed_item \<Rightarrow> nat \<Rightarrow> message_row" where
  "feed_message E fleetId feedId feedName item n =
     \<lparr> ms_id = mk_id E ''msg'' n, ms_fleet_id = fleetId, ms_conversation_id = feed_conversation feedId, ms_correlation_id = mk_id E ''cor'' (Suc n),
       ms_sender_agent_id = op_agent_id fleetId, ms_recipient_kind = ''broadcast'', ms_recipient_id = None, ms_message_type = ''feed'',
       ms_priority = ''low'', ms_requires_approval = False,
       ms_body = feed_body feedName item,
       ms_metadata = Some (JObj [(''source'', JStr ''feed''), (''feed'', JStr feedName), (''link'', JStr (fi_link item))]),
       ms_ttl_seconds = 21600, ms_created_at = now E, ms_expires_at = addSeconds (now E) 21600, ms_status = ''queued'' \<rparr>"

definition deliverFeedItem :: "env \<Rightarrow> string \<Rightarrow> string \<Rightarrow> string \<Rightarrow> feed_item \<Rightarrow> string list \<Rightarrow> store \<Rightarrow> store" where
  "deliverFeedItem E fleetId feedId feedName item subscriberIds s =
     (let (_, s1) = ensureOperatorAgent E fleetId s
      in insert_message E (feed_message E fleetId feedId feedName item (draws s1)) subscriberIds (s1\<lparr> draws := Suc (Suc (draws s1)) \<rparr>))"

definition is_seen :: "string \<Rightarrow> seen_row list \<Rightarrow> string \<Rightarrow> bool" where
  "is_seen feedId seen guid = select_exists (\<lambda>r. sn_feed_id r = feedId \<and> sn_guid r = guid) seen"

definition seen_of :: "string \<Rightarrow> int \<Rightarrow> feed_item \<Rightarrow> seen_row" where
  "seen_of feedId polledAt item =
     \<lparr> sn_feed_id = feedId, sn_guid = fi_guid item, sn_title = fi_title item, sn_link = fi_link item, sn_delivered_at = polledAt \<rparr>"

text \<open>One turn of the loop in the transaction: the items delivered so far, which the code counts, and the database.\<close>

definition poll_item :: "env \<Rightarrow> int \<Rightarrow> feed_row \<Rightarrow> bool \<Rightarrow> string list \<Rightarrow> feed_item list \<times> feed_db \<Rightarrow> feed_item \<Rightarrow> feed_item list \<times> feed_db" where
  "poll_item E polledAt feed isSeeded subscribers = (\<lambda>(delivered, db) item.
     if is_seen (fd_id feed) (fb_seen db) (fi_guid item) then (delivered, db)
     else
       let db1 = db\<lparr> fb_seen := fb_seen db @ [seen_of (fd_id feed) polledAt item] \<rparr> in
       if isSeeded \<and> subscribers \<noteq> [] then
         (delivered @ [item], db1\<lparr> fb_store := deliverFeedItem E (fd_fleet_id feed) (fd_id feed) (fd_name feed) item subscribers (fb_store db1) \<rparr>)
       else (delivered, db1))"

definition POLL_CAP :: nat where
  "POLL_CAP = 25"

text \<open>
  The transaction.  A row of what was seen references its feed, so marking an item of a feed that was deleted while the network was read
  violates the foreign key, and nothing is kept.  The result is the delivered items, whose number the code returns, and how many items the document has.
\<close>

definition poll_items :: "env \<Rightarrow> int \<Rightarrow> feed_row \<Rightarrow> feed_item list \<Rightarrow> feed_db \<Rightarrow> (msg_error + feed_item list \<times> nat) \<times> feed_db" where
  "poll_items E polledAt feed items db =
     (let feedId = fd_id feed;
          isSeeded = select_exists (\<lambda>r. sn_feed_id r = feedId) (fb_seen db);
          subscribers = map ag_id (live_subscribers feedId db)
      in if \<not> select_exists (\<lambda>f. fd_id f = feedId) (fb_feeds db) \<and> list_ex (\<lambda>i. \<not> is_seen feedId (fb_seen db) (fi_guid i)) (take POLL_CAP items)
         then (Inl Foreign_key, db)
         else
           let (delivered, db1) = foldl (poll_item E polledAt feed isSeeded subscribers) ([], db) (take POLL_CAP items)
           in (Inr (delivered, length items),
               if delivered \<noteq> [] then
                 db1\<lparr> fb_store := recordEvent E (fd_fleet_id feed) ''feed.delivered'' ''system'' None ''feed'' (Some feedId) (Some (feed_conversation feedId))
                   (JObj [(''feed'', JStr (fd_name feed)), (''count'', JNum (int (length delivered)))]) (fb_store db1) \<rparr>
               else db1))"

definition poll_start :: "env \<Rightarrow> string \<Rightarrow> feed_db \<Rightarrow> feed_row option \<times> feed_db" where
  "poll_start E feedId db =
     (case select_one (\<lambda>f. fd_id f = feedId) (fb_feeds db) of
        None \<Rightarrow> (None, db)
      | Some feed \<Rightarrow> (Some feed, db\<lparr> fb_feeds := update_where (\<lambda>f. fd_id f = feedId) (\<lambda>f. f\<lparr> fd_last_polled_at := Some (now E) \<rparr>) (fb_feeds db) \<rparr>))"

text \<open>\<open>xml\<close> is None when the fetch throws or gives null.\<close>

definition poll_finish :: "env \<Rightarrow> int \<Rightarrow> feed_row \<Rightarrow> string option \<Rightarrow> feed_db \<Rightarrow> (msg_error + feed_item list \<times> nat) \<times> feed_db" where
  "poll_finish E polledAt feed xml db =
     (if \<not> truthy xml then (Inr ([], 0), db)
      else let items = parseFeed (the xml) in
        if items = [] then (Inr ([], 0), db) else poll_items E polledAt feed items db)"

text \<open>The whole poll, when nothing happens while the network is read.\<close>

definition pollFeed :: "env \<Rightarrow> string \<Rightarrow> (string \<Rightarrow> string option) \<Rightarrow> feed_db \<Rightarrow> (msg_error + feed_item list \<times> nat) \<times> feed_db" where
  "pollFeed E feedId fetchFn db =
     (case poll_start E feedId db of
        (None, db1) \<Rightarrow> (Inr ([], 0), db1)
      | (Some feed, db1) \<Rightarrow> poll_finish E (now E) feed (fetchFn (fd_url feed)) db1)"

section \<open>Routes\<close>

datatype feed_error = Feed_url_refused | Feed_not_found

text \<open>\<^verbatim>\<open>POST /v1/operator/feeds\<close> after its schema, and \<^verbatim>\<open>POST /v1/operator/feeds/:feedId/poll\<close> up to the poll.\<close>

definition create_feed_route ::
  "env \<Rightarrow> url_api \<Rightarrow> string \<times> string \<Rightarrow> string \<Rightarrow> string \<Rightarrow> int \<Rightarrow> string list \<Rightarrow> feed_db \<Rightarrow> (feed_error + feed_row \<times> string list) \<times> feed_db" where
  "create_feed_route E U = (\<lambda>(operatorId, fleetId) name url interval subs db.
     if \<not> isAllowedFeedUrl U url then (Inl Feed_url_refused, db)
     else let (r, db1) = createFeed E fleetId operatorId name url interval subs db in (Inr r, db1))"

definition poll_feed_route :: "env \<Rightarrow> string \<Rightarrow> string \<Rightarrow> feed_db \<Rightarrow> (feed_error + feed_row option) \<times> feed_db" where
  "poll_feed_route E fleetId feedId db =
     (case getFeedItems fleetId feedId 1 db of
        None \<Rightarrow> (Inl Feed_not_found, db)
      | Some _ \<Rightarrow> (let (f, db1) = poll_start E feedId db in (Inr f, db1)))"

section \<open>What a poll delivers\<close>

text \<open>The specification: the items of a document that are new, each identifier once.\<close>

fun new_items :: "string set \<Rightarrow> feed_item list \<Rightarrow> feed_item list" where
  "new_items seen [] = []"
| "new_items seen (i # is) = (if fi_guid i \<in> seen then new_items seen is else i # new_items (insert (fi_guid i) seen) is)"

definition seen_guids :: "string \<Rightarrow> feed_db \<Rightarrow> string set" where
  "seen_guids feedId db = sn_guid ` {r \<in> set (fb_seen db). sn_feed_id r = feedId}"

lemma is_seen_iff: "is_seen feedId (fb_seen db) g \<longleftrightarrow> g \<in> seen_guids feedId db"
  by (auto simp: is_seen_def select_exists_iff seen_guids_def)

lemma seen_guids_append: "seen_guids f (db\<lparr> fb_seen := fb_seen db @ map (seen_of f t) is \<rparr>) = seen_guids f db \<union> fi_guid ` set is"
proof -
  have "{r \<in> set (fb_seen db @ map (seen_of f t) is). sn_feed_id r = f} = {r \<in> set (fb_seen db). sn_feed_id r = f} \<union> seen_of f t ` set is"
    by (auto simp: seen_of_def)
  then show ?thesis by (simp add: seen_guids_def image_Un image_image) (simp add: seen_of_def)
qed

lemma new_items_distinct: "distinct (map fi_guid (new_items seen is)) \<and> fi_guid ` set (new_items seen is) \<inter> seen = {}"
  by (induction "is" arbitrary: seen) force+

lemma new_items_guids: "fi_guid ` set (new_items seen is) \<union> seen = fi_guid ` set is \<union> seen"
proof (induction "is" arbitrary: seen)
  case (Cons i "is")
  from Cons [of seen] Cons [of "insert (fi_guid i) seen"] show ?case by (cases "fi_guid i \<in> seen") auto
qed simp

lemma new_items_sub: "set (new_items seen is) \<subseteq> set is \<and> length (new_items seen is) \<le> length is"
  by (induction "is" arbitrary: seen) (auto simp: le_SucI)

definition deliver_all :: "env \<Rightarrow> feed_row \<Rightarrow> string list \<Rightarrow> feed_item list \<Rightarrow> store \<Rightarrow> store" where
  "deliver_all E feed subs is s = foldl (\<lambda>s i. deliverFeedItem E (fd_fleet_id feed) (fd_id feed) (fd_name feed) i subs s) s is"

lemma poll_fold:
  fixes seeded :: bool and subs :: "string list"
  defines "go \<equiv> seeded \<and> subs \<noteq> []"
  shows "foldl (poll_item E t feed seeded subs) (ds, db) is =
     (let N = new_items (seen_guids (fd_id feed) db) is in
      (if go then ds @ N else ds,
       db\<lparr> fb_seen := fb_seen db @ map (seen_of (fd_id feed) t) N, fb_store := (if go then deliver_all E feed subs N (fb_store db) else fb_store db) \<rparr>))"
proof (induction "is" arbitrary: ds db)
  case Nil
  then show ?case by (simp add: deliver_all_def)
next
  case (Cons i "is")
  show ?case
  proof (cases "fi_guid i \<in> seen_guids (fd_id feed) db")
    case True
    with Cons show ?thesis by (simp add: poll_item_def is_seen_iff)
  next
    case False
    let ?x = "db\<lparr> fb_seen := fb_seen db @ [seen_of (fd_id feed) t i],
      fb_store := (if go then deliverFeedItem E (fd_fleet_id feed) (fd_id feed) (fd_name feed) i subs (fb_store db) else fb_store db) \<rparr>"
    have "seen_guids (fd_id feed) ?x = seen_guids (fd_id feed) (db\<lparr> fb_seen := fb_seen db @ map (seen_of (fd_id feed) t) [i] \<rparr>)"
      by (simp add: seen_guids_def)
    then have g: "seen_guids (fd_id feed) ?x = insert (fi_guid i) (seen_guids (fd_id feed) db)" by (simp only: seen_guids_append) simp
    have "poll_item E t feed seeded subs (ds, db) i = (if go then ds @ [i] else ds, ?x)"
      using False by (auto simp: poll_item_def is_seen_iff go_def Let_def)
    then show ?thesis using False Cons [of "if go then ds @ [i] else ds" ?x] by (simp add: g Let_def deliver_all_def)
  qed
qed

lemma deliver_one:
  obtains m where "ms_id m = mk_id E ''msg'' (draws s)" "ms_status m = ''queued''" "ms_message_type m = ''feed''" "ms_conversation_id m = feed_conversation f"
    "ms_body m = feed_body nm i" "messages (deliverFeedItem E fl f nm i subs s) = messages s @ [m]"
    "message_deliveries (deliverFeedItem E fl f nm i subs s) = message_deliveries s @ delivery_rows E (ms_id m) (Suc (Suc (draws s))) subs"
    "dead_letters (deliverFeedItem E fl f nm i subs s) = dead_letters s" "draws (deliverFeedItem E fl f nm i subs s) = Suc (Suc (draws s)) + length subs"
proof -
  obtain oid t where e: "ensureOperatorAgent E fl s = (oid, t)" by (cases "ensureOperatorAgent E fl s")
  show thesis
    by (rule that [of "feed_message E fl f nm i (draws s)"])
      (simp_all add: deliverFeedItem_def e insert_message_def ensureOperatorAgent_frame [OF e] feed_message_def)
qed

lemma deliver_all_effect:
  "\<exists>ms ds. messages (deliver_all E feed subs is s) = messages s @ ms \<and> message_deliveries (deliver_all E feed subs is s) = message_deliveries s @ ds \<and>
     map (\<lambda>m. (ms_message_type m, ms_conversation_id m, ms_body m)) ms = map (\<lambda>i. (''feed'', feed_conversation (fd_id feed), feed_body (fd_name feed) i)) is \<and>
     map dl_recipient_agent_id ds = concat (replicate (length is) subs)"
proof (induction "is" arbitrary: s)
  case Nil
  then show ?case by (simp add: deliver_all_def)
next
  case (Cons i "is")
  let ?s = "deliverFeedItem E (fd_fleet_id feed) (fd_id feed) (fd_name feed) i subs s"
  have d: "deliver_all E feed subs (i # is) s = deliver_all E feed subs is ?s" by (simp add: deliver_all_def)
  show ?case unfolding d
    by (rule deliver_one [of E s "fd_id feed" "fd_name feed" i "fd_fleet_id feed" subs])
      (use Cons [of ?s] in \<open>auto simp: delivery_rows_map(1)\<close>)
qed

lemma deliver_all_mailbox:
  assumes "mailbox_inv U C s" "inj U" "uuid E = U" "0 \<le> maxRetries C"
  shows "mailbox_inv U C (deliver_all E feed subs is s) \<and> draws s \<le> draws (deliver_all E feed subs is s)"
  using assms(1)
proof (induction "is" arbitrary: s)
  case Nil
  then show ?case by (simp add: deliver_all_def)
next
  case (Cons i "is")
  let ?s = "deliverFeedItem E (fd_fleet_id feed) (fd_id feed) (fd_name feed) i subs s"
  have d: "deliver_all E feed subs (i # is) s = deliver_all E feed subs is ?s" by (simp add: deliver_all_def)
  obtain m where m: "ms_id m = mk_id E ''msg'' (draws s)" "ms_status m = ''queued''" "messages ?s = messages s @ [m]"
    "message_deliveries ?s = message_deliveries s @ delivery_rows E (ms_id m) (Suc (Suc (draws s))) subs"
    "dead_letters ?s = dead_letters s" "draws ?s = Suc (Suc (draws s)) + length subs" by (rule deliver_one)
  have "mailbox_inv U C ?s"
    by (rule mailbox_insert [OF Cons.prems assms(2-4) m(3,1,2) _ _ m(4)]) (simp_all add: m(5,6))
  from Cons.IH [OF this] show ?case unfolding d using m(6) by simp
qed

text \<open>Where a poll delivers, and what the transaction does.\<close>

definition delivers :: "string \<Rightarrow> feed_db \<Rightarrow> bool" where
  "delivers feedId db \<longleftrightarrow> seen_guids feedId db \<noteq> {} \<and> live_subscribers feedId db \<noteq> []"

lemma seeded_iff: "select_exists (\<lambda>r. sn_feed_id r = feedId) (fb_seen db) \<longleftrightarrow> seen_guids feedId db \<noteq> {}"
  by (auto simp: select_exists_iff seen_guids_def)

lemma poll_items_Inr:
  assumes "poll_items E t feed items db = (Inr (d, n), db')"
  defines "N \<equiv> new_items (seen_guids (fd_id feed) db) (take POLL_CAP items)"
  defines "subs \<equiv> map ag_id (live_subscribers (fd_id feed) db)"
  shows "n = length items \<and> d = (if delivers (fd_id feed) db then N else []) \<and> fb_seen db' = fb_seen db @ map (seen_of (fd_id feed) t) N \<and>
     fb_feeds db' = fb_feeds db \<and> fb_subscribers db' = fb_subscribers db \<and>
     (\<exists>ev. fb_store db' = (if d \<noteq> [] then recordEvent E (fd_fleet_id feed) ''feed.delivered'' ''system'' None ''feed'' (Some (fd_id feed))
        (Some (feed_conversation (fd_id feed))) ev (deliver_all E feed subs N (fb_store db)) else fb_store db))"
proof -
  have go: "(seen_guids (fd_id feed) db \<noteq> {} \<and> subs \<noteq> []) = delivers (fd_id feed) db" by (simp add: delivers_def subs_def)
  show ?thesis using assms(1)
    unfolding poll_items_def seeded_iff poll_fold Let_def N_def [symmetric] subs_def [symmetric] go
    by (auto simp: deliver_all_def split: if_splits)
qed

text \<open>
  C21: A poll delivers what is new, once.  The first poll of a feed, of a document with no more than twenty-five items, marks all its items and delivers none.  A later poll that
  succeeds marks exactly the items among the first twenty-five of the document whose identifier the feed has not seen, each identifier once, and if there
  are subscribers it queues one message for each of them, in the order of the document, with one delivery to every subscribed agent that is not revoked.
\<close>

theorem poll_delivers_new:
  assumes "poll_items E t feed items db = (Inr (d, n), db')" "N = new_items (seen_guids (fd_id feed) db) (take 25 items)"
    and "seen_guids (fd_id feed) db = {} \<Longrightarrow> length items \<le> 25"
  shows "fb_seen db' = fb_seen db @ map (seen_of (fd_id feed) t) N \<and> distinct (map fi_guid N) \<and> fi_guid ` set N \<inter> seen_guids (fd_id feed) db = {} \<and>
     (seen_guids (fd_id feed) db = {} \<longrightarrow> fi_guid ` set N = fi_guid ` set items \<and> d = []) \<and>
     d = (if delivers (fd_id feed) db then N else []) \<and>
     (\<exists>ms ds. messages (fb_store db') = messages (fb_store db) @ ms \<and> message_deliveries (fb_store db') = message_deliveries (fb_store db) @ ds \<and>
        map (\<lambda>m. (ms_message_type m, ms_conversation_id m, ms_body m)) ms =
          map (\<lambda>i. (''feed'', feed_conversation (fd_id feed), feed_body (fd_name feed) i)) d \<and>
        map dl_recipient_agent_id ds = concat (replicate (length d) (map ag_id (live_subscribers (fd_id feed) db))))"
proof -
  have cap: "take 25 items = take POLL_CAP items" by (simp add: POLL_CAP_def)
  note p = poll_items_Inr [OF assms(1), folded assms(2) [unfolded cap]]
  have nd: "distinct (map fi_guid N) \<and> fi_guid ` set N \<inter> seen_guids (fd_id feed) db = {}"
    unfolding assms(2) by (rule new_items_distinct)
  have first: "fi_guid ` set N = fi_guid ` set items \<and> d = []" if "seen_guids (fd_id feed) db = {}"
    using that assms(3) p new_items_guids [of "{}" items] by (simp add: assms(2) delivers_def)
  show ?thesis
  proof (cases "d = []")
    case False
    then have "d = N" using p by (auto split: if_splits)
    with False p nd first deliver_all_effect [of E feed "map ag_id (live_subscribers (fd_id feed) db)" N "fb_store db"] show ?thesis by auto
  next
    case True
    with p nd first show ?thesis by auto
  qed
qed

section \<open>Runs\<close>

text \<open>
  The database, the polls that wait for the network, and the items that were delivered so far, by feed and identifier: changes to feeds, polls that
  start and end in any order, and the traffic of the mailbox.
\<close>

type_synonym feed_system = "feed_db \<times> (feed_row \<times> int) list \<times> (string \<times> string) list"

text \<open>What a poll has delivered goes to the log.\<close>

definition delivered_by :: "feed_row \<Rightarrow> msg_error + feed_item list \<times> nat \<Rightarrow> (string \<times> string) list" where
  "delivered_by feed r = (case r of Inr (is, _) \<Rightarrow> map (\<lambda>i. (fd_id feed, fi_guid i)) is | Inl _ \<Rightarrow> [])"

inductive feed_step :: "(nat \<Rightarrow> string) \<Rightarrow> config \<Rightarrow> feed_system \<Rightarrow> feed_system \<Rightarrow> bool" for U C where
  Feed_create: "uuid E = U \<Longrightarrow> feed_step U C (db, P, L) (snd (createFeed E fl op nm url iv subs db), P, L)"
| Feed_delete: "uuid E = U \<Longrightarrow> feed_step U C (db, P, L) (snd (deleteFeed E fl f op db), P, L)"
| Feed_subscribe: "uuid E = U \<Longrightarrow> feed_step U C (db, P, L) (snd (setFeedSubscribers E fl f op subs db), P, L)"
| Feed_poll: "poll_start E f db = (Some feed, db') \<Longrightarrow> feed_step U C (db, P, L) (db', (feed, now E) # P, L)"
| Feed_fetched: "uuid E = U \<Longrightarrow> (feed, t) \<in> set P \<Longrightarrow> poll_finish E t feed xml db = (r, db') \<Longrightarrow>
    feed_step U C (db, P, L) (db', remove1 (feed, t) P, L @ delivered_by feed r)"
| Feed_mail: "mailbox_step U C (fb_store db) s \<Longrightarrow> draws (fb_store db) \<le> draws s \<Longrightarrow> feed_step U C (db, P, L) (db\<lparr> fb_store := s \<rparr>, P, L)"

inductive_cases feed_stepE: "feed_step U C (db, P, L) x"

definition feed_inv :: "(nat \<Rightarrow> string) \<Rightarrow> config \<Rightarrow> feed_system \<Rightarrow> bool" where
  "feed_inv U C = (\<lambda>(db, P, L).
     mailbox_inv U C (fb_store db) \<and> drawn U ''feed'' (draws (fb_store db)) (map fd_id (fb_feeds db)) \<and> distinct L \<and>
     sn_feed_id ` set (fb_seen db) \<subseteq> fd_id ` set (fb_feeds db) \<and>
     (\<forall>f g. (f, g) \<in> set L \<longrightarrow> f \<in> id_of U ''feed'' ` {..<draws (fb_store db)} \<and> (f \<in> fd_id ` set (fb_feeds db) \<longrightarrow> g \<in> seen_guids f db)))"

lemma feed_invI:
  assumes "mailbox_inv U C (fb_store db)" "drawn U ''feed'' (draws (fb_store db)) (map fd_id (fb_feeds db))" "distinct L"
    "sn_feed_id ` set (fb_seen db) \<subseteq> fd_id ` set (fb_feeds db)"
    "\<And>f g. (f, g) \<in> set L \<Longrightarrow> f \<in> id_of U ''feed'' ` {..<draws (fb_store db)}"
    "\<And>f g. (f, g) \<in> set L \<Longrightarrow> f \<in> fd_id ` set (fb_feeds db) \<Longrightarrow> g \<in> seen_guids f db"
  shows "feed_inv U C (db, P, L)"
  unfolding feed_inv_def prod.case by (intro conjI allI impI assms)

lemma feed_invD:
  assumes "feed_inv U C (db, P, L)"
  shows "mailbox_inv U C (fb_store db)" "drawn U ''feed'' (draws (fb_store db)) (map fd_id (fb_feeds db))" "distinct L"
    "sn_feed_id ` set (fb_seen db) \<subseteq> fd_id ` set (fb_feeds db)"
    "\<And>f g. (f, g) \<in> set L \<Longrightarrow> f \<in> id_of U ''feed'' ` {..<draws (fb_store db)}"
    "\<And>f g. (f, g) \<in> set L \<Longrightarrow> f \<in> fd_id ` set (fb_feeds db) \<Longrightarrow> g \<in> seen_guids f db"
  using assms unfolding feed_inv_def prod.case by blast+

lemma id_range_mono: "f \<in> id_of U p ` {..<n} \<Longrightarrow> n \<le> k \<Longrightarrow> f \<in> id_of U p ` {..<k}"
  by auto

definition empty_feed_db :: feed_db where
  "empty_feed_db = \<lparr> fb_store = empty_store, fb_feeds = [], fb_subscribers = [], fb_seen = [] \<rparr>"

lemma seen_guids_cong: "fb_seen db' = fb_seen db \<Longrightarrow> seen_guids f db' = seen_guids f db"
  by (simp add: seen_guids_def)

text \<open>A step that leaves feeds and marks alone.\<close>

lemma feed_inv_frame:
  assumes "feed_inv U C (db, P, L)" "mailbox_inv U C (fb_store db')" "draws (fb_store db) \<le> draws (fb_store db')"
    "map fd_id (fb_feeds db') = map fd_id (fb_feeds db)" "fb_seen db' = fb_seen db"
  shows "feed_inv U C (db', Q, L)"
proof -
  note i = feed_invD [OF assms(1)]
  have ids: "fd_id ` set (fb_feeds db') = fd_id ` set (fb_feeds db)" using arg_cong [OF assms(4), of set] by simp
  show ?thesis
  proof (rule feed_invI)
    show "drawn U ''feed'' (draws (fb_store db')) (map fd_id (fb_feeds db'))" unfolding assms(4) by (rule drawn_mono [OF i(2) assms(3)])
    show "f \<in> id_of U ''feed'' ` {..<draws (fb_store db')}" if "(f, g) \<in> set L" for f g by (rule id_range_mono [OF i(5) [OF that] assms(3)])
    show "g \<in> seen_guids f db'" if "(f, g) \<in> set L" "f \<in> fd_id ` set (fb_feeds db')" for f g
      using i(6) [OF that(1)] that(2) unfolding ids seen_guids_cong [OF assms(5)] by simp
  qed (use assms(2) i(3,4) in \<open>simp_all only: ids assms(5)\<close>)
qed

lemma feed_inv_create:
  assumes "feed_inv U C (db, P, L)" "inj U" "uuid E = U"
  shows "feed_inv U C (snd (createFeed E fl op nm url iv subs db), P, L)"
proof -
  let ?s = "fb_store db" and ?db = "snd (createFeed E fl op nm url iv subs db)"
  note i = feed_invD [OF assms(1)]
  have b: "map fd_id (fb_feeds ?db) = map fd_id (fb_feeds db) @ map (id_of U ''feed'') [draws ?s..<draws ?s + 1]" "fb_seen ?db = fb_seen db"
    "draws (fb_store ?db) = draws ?s + 2" "messages (fb_store ?db) = messages ?s" "message_deliveries (fb_store ?db) = message_deliveries ?s"
    "dead_letters (fb_store ?db) = dead_letters ?s"
    by (simp_all add: createFeed_def Let_def recordEvent_def mk_id_of assms(3))
  have ids: "fd_id ` set (fb_feeds ?db) = insert (id_of U ''feed'' (draws ?s)) (fd_id ` set (fb_feeds db))"
    using arg_cong [OF b(1), of set] by simp
  show ?thesis
  proof (rule feed_invI)
    show "mailbox_inv U C (fb_store ?db)" by (rule mailbox_frame [OF i(1)]) (simp_all add: b)
    show "drawn U ''feed'' (draws (fb_store ?db)) (map fd_id (fb_feeds ?db))"
      unfolding b by (rule drawn_mono [OF drawn_append [OF i(2) assms(2) order_refl, of 1]]) simp
    show "f \<in> id_of U ''feed'' ` {..<draws (fb_store ?db)}" if "(f, g) \<in> set L" for f g by (rule id_range_mono [OF i(5) [OF that]]) (simp add: b)
    show "g \<in> seen_guids f ?db" if "(f, g) \<in> set L" "f \<in> fd_id ` set (fb_feeds ?db)" for f g
    proof -
      have "f \<noteq> id_of U ''feed'' (draws ?s)" using i(5) [OF that(1)] inj_id_of [OF assms(2), of "''feed''"] by (auto dest: injD)
      with that i(6) show ?thesis unfolding ids seen_guids_cong [OF b(2)] by blast
    qed
    show "sn_feed_id ` set (fb_seen ?db) \<subseteq> fd_id ` set (fb_feeds ?db)" unfolding ids b(2) using i(4) by blast
  qed (rule i(3))
qed

lemma feed_inv_delete:
  assumes "feed_inv U C (db, P, L)" "uuid E = U"
  shows "feed_inv U C (snd (deleteFeed E fl f op db), P, L)"
proof (cases "own_feed fl f db")
  case True
  let ?s = "fb_store db" and ?db = "snd (deleteFeed E fl f op db)"
  note i = feed_invD [OF assms(1)]
  have b: "fb_feeds ?db = delete_where (\<lambda>x. fd_id x = f \<and> fd_fleet_id x = fl) (fb_feeds db)" "fb_seen ?db = delete_where (\<lambda>r. sn_feed_id r = f) (fb_seen db)"
    "fb_store ?db = recordEvent E fl ''feed.deleted'' ''operator'' (Some op) ''feed'' (Some f) None (JObj []) ?s"
    using True by (simp_all add: deleteFeed_def)
  from True obtain x where x: "x \<in> set (fb_feeds db)" "fd_id x = f" "fd_fleet_id x = fl" by (auto simp: own_feed_def select_exists_iff)
  have dist: "distinct (map fd_id (fb_feeds db))" using i(2) by (simp add: drawn_def)
  have "fd_fleet_id y = fl" if "y \<in> set (fb_feeds db)" "fd_id y = f" for y
    using dist that x inj_onD [of fd_id "set (fb_feeds db)" y x] by (simp add: distinct_map)
  then have "set (fb_feeds ?db) = {y \<in> set (fb_feeds db). fd_id y \<noteq> f}" unfolding b(1) by auto
  then have ids: "fd_id ` set (fb_feeds ?db) = fd_id ` set (fb_feeds db) - {f}" by blast
  show ?thesis
  proof (rule feed_invI)
    show "mailbox_inv U C (fb_store ?db)" unfolding b(3) by (rule mailbox_event [OF i(1)])
    have "drawn U ''feed'' (draws ?s) (map fd_id (fb_feeds ?db))"
      using i(2) distinct_delete_where [OF dist, of "\<lambda>x. fd_id x = f \<and> fd_fleet_id x = fl"] ids unfolding drawn_def set_map b(1) [symmetric] by (metis Diff_subset subset_trans)
    then show "drawn U ''feed'' (draws (fb_store ?db)) (map fd_id (fb_feeds ?db))" unfolding b(3) by (rule drawn_mono) simp
    show "sn_feed_id ` set (fb_seen ?db) \<subseteq> fd_id ` set (fb_feeds ?db)" unfolding ids b(2) using i(4) by auto
    show "h \<in> id_of U ''feed'' ` {..<draws (fb_store ?db)}" if "(h, g) \<in> set L" for h g by (rule id_range_mono [OF i(5) [OF that]]) (simp add: b(3))
    show "g \<in> seen_guids h ?db" if "(h, g) \<in> set L" "h \<in> fd_id ` set (fb_feeds ?db)" for h g
      using i(6) [OF that(1)] that(2) unfolding ids seen_guids_def b(2) by auto
  qed (rule i(3))
qed (use assms(1) in \<open>simp add: deleteFeed_def\<close>)

lemma polled_feed_exists:
  assumes "poll_items E t feed items db = (r, db')" "r = Inr (d, n)" "new_items (seen_guids (fd_id feed) db) (take POLL_CAP items) \<noteq> []"
  shows "fd_id feed \<in> fd_id ` set (fb_feeds db)"
proof (rule ccontr)
  let ?N = "new_items (seen_guids (fd_id feed) db) (take POLL_CAP items)"
  assume no: "fd_id feed \<notin> fd_id ` set (fb_feeds db)"
  obtain i where i: "i \<in> set ?N" using assms(3) by (cases ?N) auto
  have "i \<in> set (take POLL_CAP items)" using subsetD [OF conjunct1 [OF new_items_sub] i] .
  moreover have "fi_guid i \<notin> seen_guids (fd_id feed) db" using new_items_distinct i by blast
  ultimately have "list_ex (\<lambda>i. \<not> is_seen (fd_id feed) (fb_seen db) (fi_guid i)) (take POLL_CAP items)" by (auto simp: list_ex_iff is_seen_iff)
  moreover have "\<not> select_exists (\<lambda>f. fd_id f = fd_id feed) (fb_feeds db)" using no unfolding select_exists_iff by (metis image_eqI)
  ultimately have "poll_items E t feed items db = (Inl Foreign_key, db)" by (simp add: poll_items_def)
  with assms(1,2) show False by simp
qed

lemma feed_inv_finish:
  assumes "feed_inv U C (db, P, L)" "inj U" "0 \<le> maxRetries C" "uuid E = U" "poll_finish E t feed xml db = (r, db')"
  shows "feed_inv U C (db', Q, L @ delivered_by feed r)"
proof (cases "db' = db \<and> delivered_by feed r = []")
  case True
  then show ?thesis using feed_invI [OF feed_invD [OF assms(1)]] by simp
next
  case False
  let ?f = "fd_id feed" and ?N = "new_items (seen_guids (fd_id feed) db) (take POLL_CAP (parseFeed (the xml)))" and ?L = "delivered_by feed r"
  note i = feed_invD [OF assms(1)]
  have p: "poll_items E t feed (parseFeed (the xml)) db = (r, db')"
    using assms(5) False by (auto simp: poll_finish_def Let_def delivered_by_def split: if_splits)
  then obtain d n where r: "r = Inr (d, n)" using False by (cases r) (auto simp: poll_items_def Let_def delivered_by_def split: if_splits prod.splits)
  obtain ev where q: "fb_seen db' = fb_seen db @ map (seen_of ?f t) ?N" "fb_feeds db' = fb_feeds db"
    "fb_store db' = (if d \<noteq> [] then recordEvent E (fd_fleet_id feed) ''feed.delivered'' ''system'' None ''feed'' (Some ?f)
        (Some (feed_conversation ?f)) ev (deliver_all E feed (map ag_id (live_subscribers ?f db)) ?N (fb_store db)) else fb_store db)"
    using poll_items_Inr [OF p [unfolded r]] by blast
  have d: "d = ?N \<or> d = []" using poll_items_Inr [OF p [unfolded r]] by (auto split: if_splits)
  have new: "distinct (map fi_guid ?N)" "fi_guid ` set ?N \<inter> seen_guids ?f db = {}" using new_items_distinct by blast+
  have mail: "mailbox_inv U C (fb_store db')" "draws (fb_store db) \<le> draws (fb_store db')"
    unfolding q(3) using deliver_all_mailbox [OF i(1) assms(2,4,3)] i(1) by (auto intro!: mailbox_event intro: le_SucI)
  have feed: "?f \<in> fd_id ` set (fb_feeds db)" if "?N \<noteq> []"
    using p r that by (rule polled_feed_exists)
  have "seen_guids h db' = (if h = ?f then seen_guids ?f db \<union> fi_guid ` set ?N else seen_guids h db)" for h
    using q(1) seen_guids_append [of ?f db t ?N] by (auto simp: seen_guids_def seen_of_def)
  then have g: "seen_guids h db \<subseteq> seen_guids h db'" "fi_guid ` set ?N \<subseteq> seen_guids ?f db'" for h by auto
  have l: "set ?L \<subseteq> Pair ?f ` fi_guid ` set ?N" "distinct ?L"
    using new(1) d by (auto simp: delivered_by_def r distinct_map inj_on_def)
  have N: "?N \<noteq> []" if "e \<in> set ?L" for e using that l(1) by auto
  show ?thesis
  proof (rule feed_invI)
    show "drawn U ''feed'' (draws (fb_store db')) (map fd_id (fb_feeds db'))" unfolding q(2) by (rule drawn_mono [OF i(2) mail(2)])
    have "(?f, x) \<notin> set L" if "x \<in> fi_guid ` set ?N" for x using i(6) [of ?f x] feed new(2) that by (cases "?N = []") auto
    then show "distinct (L @ ?L)" using l i(3) by auto
    show "sn_feed_id ` set (fb_seen db') \<subseteq> fd_id ` set (fb_feeds db')" unfolding q(1,2) using i(4) feed by (cases "?N = []") (auto simp: seen_of_def)
    show "h \<in> id_of U ''feed'' ` {..<draws (fb_store db')}" if "(h, x) \<in> set (L @ ?L)" for h x
    proof (rule id_range_mono [OF _ mail(2)], cases "(h, x) \<in> set L")
      case False
      with that have "(h, x) \<in> set ?L" by simp
      then have "h = ?f" "?N \<noteq> []" using l(1) N by auto
      with feed i(2) show "h \<in> id_of U ''feed'' ` {..<draws (fb_store db)}" by (auto simp: drawn_def)
    qed (rule i(5))
    show "x \<in> seen_guids h db'" if "(h, x) \<in> set (L @ ?L)" "h \<in> fd_id ` set (fb_feeds db')" for h x
    proof (cases "(h, x) \<in> set L")
      case True
      then show ?thesis using i(6) [OF True] that(2) g(1) unfolding q(2) by blast
    next
      case False
      then have "(h, x) \<in> Pair ?f ` fi_guid ` set ?N" using that(1) l(1) by auto
      then have "h = ?f \<and> x \<in> fi_guid ` set ?N" by blast
      then show ?thesis using g(2) by blast
    qed
  qed (rule mail(1))
qed

interpretation feeds: stepping "(empty_feed_db, [], [])" "\<lambda>x y. feed_step U C x y \<and> inj U \<and> 0 \<le> maxRetries C" "feed_inv U C" for U C
proof unfold_locales
  show "feed_inv U C (empty_feed_db, [], [])"
    by (rule feed_invI) (simp_all add: empty_feed_db_def mailbox_start drawn_def)
next
  fix x y assume x: "feed_inv U C x" and "feed_step U C x y \<and> inj U \<and> 0 \<le> maxRetries C"
  then have y: "feed_step U C x y" "inj U" "0 \<le> maxRetries C" by blast+
  from y(1) x show "feed_inv U C y"
  proof cases
    case Feed_create
    with x y(2) show ?thesis by (auto intro: feed_inv_create)
  next
    case Feed_delete
    with x show ?thesis by (auto intro: feed_inv_delete)
  next
    case (Feed_subscribe E db P L fl f op subs)
    have "feed_inv U C (snd (setFeedSubscribers E fl f op subs db), P, L)"
      by (rule feed_inv_frame [OF x [unfolded Feed_subscribe(1)]])
        (use feed_invD(1) [OF x [unfolded Feed_subscribe(1)]] in \<open>auto simp: setFeedSubscribers_def Let_def intro!: mailbox_event\<close>)
    then show ?thesis unfolding Feed_subscribe(2) .
  next
    case (Feed_poll E f db feed db' P L)
    have "feed_inv U C (db', (feed, now E) # P, L)"
      by (rule feed_inv_frame [OF x [unfolded Feed_poll(1)]])
        (use feed_invD(1) [OF x [unfolded Feed_poll(1)]] Feed_poll(3) in \<open>auto simp: poll_start_def split: option.splits\<close>)
    then show ?thesis unfolding Feed_poll(2) .
  next
    case (Feed_fetched E feed t P xml db r db' L)
    then show ?thesis using feed_inv_finish [OF _ y(2,3)] x by auto
  next
    case (Feed_mail db s P L)
    have i: "feed_inv U C (db, P, L)" using x Feed_mail(1) by simp
    have "mailbox_inv U C s" using mailbox_step_inv [OF Feed_mail(3) feed_invD(1) [OF i] y(2,3)] by blast
    then have "feed_inv U C (db\<lparr> fb_store := s \<rparr>, P, L)" using Feed_mail(4) by (intro feed_inv_frame [OF i]) simp_all
    then show ?thesis unfolding Feed_mail(2) .
  qed
qed

lemma feed_reach:
  assumes "inj U" "0 \<le> maxRetries C" "reach (empty_feed_db, [], []) (feed_step U C) x"
  shows "feed_inv U C x"
proof (rule feeds.inv_reach)
  show "reach (empty_feed_db, [], []) (\<lambda>x y. feed_step U C x y \<and> inj U \<and> 0 \<le> maxRetries C) x"
    using assms(3) by (induction rule: reach.induct) (auto intro: reach.intros simp: assms(1,2))
qed

text \<open>
  C7: An item is delivered at most once.  In every run of creations and deletions of feeds, changes of subscribers, polls that overlap in any way with each other and with the
  traffic of messages, no feed delivers items of one identifier twice (the log lists the items that polls handed to \<^verbatim>\<open>deliverFeedItem\<close>); and the deliveries of feeds keep the invariant of the mailbox, so
  that they are retried, acknowledged and dead-lettered like all others.
\<close>

theorem feed_item_delivered_once:
  assumes "inj U" "0 \<le> maxRetries C" "reach (empty_feed_db, [], []) (feed_step U C) (db, P, L)"
  shows "distinct L \<and> mailbox_inv U C (fb_store db)"
  using feed_invD [OF feed_reach [OF assms]] by blast

section \<open>Samples\<close>

text \<open>A feed with one subscriber: the first poll reads one item, the second one more.\<close>

definition news :: "nat \<Rightarrow> feed_item" where
  "news n = \<lparr> fi_guid = nat_str n, fi_title = ''t'', fi_link = ''u'', fi_published = None \<rparr>"

definition news_created :: "(feed_row \<times> string list) \<times> feed_db" where
  "news_created = createFeed (sample_env 10) ''flt'' ''opr'' ''news'' ''http://x/'' 30 [sample_agent] (empty_feed_db\<lparr> fb_store := sample_enrolled \<rparr>)"

definition news_polled :: "int \<Rightarrow> feed_db \<Rightarrow> feed_db" where
  "news_polled t db = snd (poll_start (sample_env t) (fd_id (fst (fst news_created))) db)"

definition news_feed :: "int \<Rightarrow> feed_db \<Rightarrow> feed_row" where
  "news_feed t db = the (fst (poll_start (sample_env t) (fd_id (fst (fst news_created))) db))"

definition news_seeded :: feed_db where
  "news_seeded = snd (poll_items (sample_env 21) 20 (news_feed 20 (snd news_created)) [news 1] (news_polled 20 (snd news_created)))"

lemma finish_rss:
  assumes "list_all printable_item items" "items \<noteq> []"
  shows "poll_finish E t feed (Some (rss items)) db = poll_items E t feed items db"
proof -
  have "rss items \<noteq> []" by (simp add: rss_def)
  then show ?thesis using parse_rss [OF assms(1)] assms(2) by (simp add: poll_finish_def)
qed

lemma news_start:
  "poll_start (sample_env 20) (fd_id (fst (fst news_created))) (snd news_created) = (Some (news_feed 20 (snd news_created)), news_polled 20 (snd news_created))"
  "poll_start (sample_env 30) (fd_id (fst (fst news_created))) news_seeded = (Some (news_feed 30 news_seeded), news_polled 30 news_seeded)"
proof -
  have "fst (poll_start (sample_env 20) (fd_id (fst (fst news_created))) (snd news_created)) \<noteq> None" "fst (poll_start (sample_env 30) (fd_id (fst (fst news_created))) news_seeded) \<noteq> None"
    by code_simp+
  then show "poll_start (sample_env 20) (fd_id (fst (fst news_created))) (snd news_created) = (Some (news_feed 20 (snd news_created)), news_polled 20 (snd news_created))"
    "poll_start (sample_env 30) (fd_id (fst (fst news_created))) news_seeded = (Some (news_feed 30 news_seeded), news_polled 30 news_seeded)"
    by (auto simp: news_feed_def news_polled_def prod_eq_iff)
qed

lemma news_second: "fst (poll_items (sample_env 31) 30 (news_feed 30 news_seeded) [news 2, news 1] (news_polled 30 news_seeded)) = Inr ([news 2], 2)"
  by code_simp

theorem poll_delivers_new_witness:
  "\<exists>ms. messages (fb_store (snd (poll_items (sample_env 31) 30 (news_feed 30 news_seeded) [news 2, news 1] (news_polled 30 news_seeded)))) =
       messages (fb_store (news_polled 30 news_seeded)) @ ms \<and>
     map (\<lambda>m. (ms_message_type m, ms_conversation_id m, ms_body m)) ms =
       [(''feed'', feed_conversation (fd_id (news_feed 30 news_seeded)), feed_body (fd_name (news_feed 30 news_seeded)) (news 2))]"
proof -
  let ?p = "poll_items (sample_env 31) 30 (news_feed 30 news_seeded) [news 2, news 1] (news_polled 30 news_seeded)"
  have p: "?p = (Inr ([news 2], 2), snd ?p)" using news_second by (simp add: prod_eq_iff)
  have n: "new_items (seen_guids (fd_id (news_feed 30 news_seeded)) (news_polled 30 news_seeded)) (take 25 [news 2, news 1]) = [news 2]" by code_simp
  note delivered = conjunct2 [OF conjunct2 [OF conjunct2 [OF conjunct2 [OF conjunct2 [OF poll_delivers_new [OF p n [symmetric]]]]]]]
  show ?thesis by (rule exE [OF delivered], simp, elim exE conjE, rule exI, rule conjI, assumption) (simp only: list.map)
qed

theorem feed_item_delivered_once_witness:
  "distinct (delivered_by (news_feed 20 (snd news_created)) (Inr ([], 1)) @ delivered_by (news_feed 30 news_seeded) (Inr ([news 2], 2)))"
proof -
  let ?S = "feed_step sample_ids default_config" and ?r = "reach (empty_feed_db, [], []) (feed_step sample_ids default_config)"
  let ?f = "news_feed 20 (snd news_created)" and ?g = "news_feed 30 news_seeded"
  have pr: "list_all printable_item [news 1]" "list_all printable_item [news 2, news 1]" by code_simp+
  have "mailbox_step sample_ids default_config empty_store sample_enrolled" by (rule mailbox_step.Other) code_simp+
  then have "?S (empty_feed_db, [], []) (empty_feed_db\<lparr> fb_store := sample_enrolled \<rparr>, [], [])"
    by (intro Feed_mail) (simp_all add: empty_feed_db_def empty_store_def)
  then have 1: "?r (empty_feed_db\<lparr> fb_store := sample_enrolled \<rparr>, [], [])" by (rule reach_step [OF reach_start])
  have 2: "?r (snd news_created, [], [])" unfolding news_created_def by (rule reach_step [OF 1], rule Feed_create) (simp add: sample_env_uuid)
  have 3: "?r (news_polled 20 (snd news_created), [(?f, now (sample_env 20))], [])" by (rule reach_step [OF 2], rule Feed_poll [OF news_start(1)])
  have a: "poll_finish (sample_env 21) 20 ?f (Some (rss [news 1])) (news_polled 20 (snd news_created)) = (Inr ([], 1), news_seeded)"
    unfolding finish_rss [OF pr(1) list.simps(3)] news_seeded_def prod_eq_iff by code_simp
  have 4: "?r (news_seeded, remove1 (?f, 20) [(?f, 20)], [] @ delivered_by ?f (Inr ([], 1)))"
    by (rule reach_step [OF 3 [unfolded sample_env_simps]], rule Feed_fetched [OF sample_env_uuid _ a]) simp
  let ?L = "[] @ delivered_by ?f (Inr ([], 1))"
  have 5: "?r (news_polled 30 news_seeded, (?g, now (sample_env 30)) # remove1 (?f, 20) [(?f, 20)], ?L)" by (rule reach_step [OF 4], rule Feed_poll [OF news_start(2)])
  let ?p = "poll_items (sample_env 31) 30 ?g [news 2, news 1] (news_polled 30 news_seeded)"
  have b: "poll_finish (sample_env 31) 30 ?g (Some (rss [news 2, news 1])) (news_polled 30 news_seeded) = (Inr ([news 2], 2), snd ?p)"
    unfolding finish_rss [OF pr(2) list.simps(3)] using news_second by (simp add: prod_eq_iff)
  have "?r (snd ?p, remove1 (?g, 30) ((?g, 30) # remove1 (?f, 20) [(?f, 20)]), ?L @ delivered_by ?g (Inr ([news 2], 2)))"
    by (rule reach_step [OF 5 [unfolded sample_env_simps]], rule Feed_fetched [OF sample_env_uuid _ b]) simp
  from feed_item_delivered_once [OF sample_ids_inj sample_retries this] show ?thesis by simp
qed

text \<open>
  Seeding marks the first twenty-five items only: of a document with twenty-six items, the last is delivered later as if it was new, when another one is gone.
\<close>

theorem seeding_leaves_backlog:
  "(let db = snd (poll_items (sample_env 21) 20 (news_feed 20 (snd news_created)) (map news [1..<27]) (news_polled 20 (snd news_created)))
    in fst (poll_items (sample_env 31) 30 (news_feed 20 (snd news_created)) (map news [2..<27]) db)) = Inr ([news 26], 25)"
  by code_simp

end
