(* ===== verification/Spec2Isabelle.thy ===== *)
theory Spec2Isabelle
  imports Login Attachments A2A Mcp_Agent Mcp_OAuth Auto_Reply Inbox_Trust Feeds
begin

text \<open>
  Ekho is a relay for fleets of agents: agents enroll, authenticate every request, send each other and their
  operators messages, poll their inboxes and acknowledge what they got, while operators watch, pause, resume and approve
  from a console.  This development models the relay, \<^verbatim>\<open>packages/relay/src\<close>, as pure functions over a record of its
  SQLite tables, and the agents' side: the identity layer of the SDK, \<^verbatim>\<open>packages/sdk/src/identity\<close>, which does not trust
  the relay, the MCP connector, \<^verbatim>\<open>packages/mcp-connector/src\<close>, an agent that serves a remote client, and the auto-reply loop of the
  OpenClaw plugin, \<^verbatim>\<open>packages/openclaw-plugin/src/autoreply.ts\<close>, which decides what may wake an agent.  It
  proves what they promise to fleets, agents and operators.

  \<^bold>\<open>Parts and theories\<close> (files are under \<^verbatim>\<open>src/packages/relay/src\<close> unless said otherwise).

  \<^item> \<open>Prelude\<close>: the prepared statements of the source as operators on tables (a table is a list of rows in rowid
    order), JavaScript truthiness and string methods, and the locale \<open>stepping\<close>: a start state, a step relation and an
    invariant, from which every invariant over runs is obtained.
  \<^item> \<open>Json\<close>: \<^verbatim>\<open>operator-identity.ts\<close>.  Canonical JSON and the four payloads operators sign; two values
    have one canonical text exactly when they agree up to member order, and payloads of different kinds never coincide.
  \<^item> \<open>Relay_Store\<close>: \<^verbatim>\<open>config.ts\<close>, \<^verbatim>\<open>schema.ts\<close>, \<^verbatim>\<open>id\<close> and \<^verbatim>\<open>recordEvent\<close>.  The configuration, one record per
    table, the store, and the record \<open>env\<close> of what an operation sees of the world.
  \<^item> \<open>Iso_Time\<close>: \<^verbatim>\<open>isCanonicalIsoTimestamp\<close> and the ISO texts the relay stores.  Printing and parsing are inverse, and
    comparing the texts is comparing the instants, which is why the other theories compute with instants.
  \<^item> \<open>Operator_Keys\<close>: registration, endorsement, revocation and recovery grants of operator keys, and agents'
    identity keys, in \<^verbatim>\<open>db.ts\<close>.  No run of key operations leaves a fleet without a key that may endorse, the
    endorsement graph stays acyclic, stored signatures verify, a signed tombstone is final, a recovery grant works once.
  \<^item> \<open>Js_Text\<close>, \<open>Auth\<close>: \<^verbatim>\<open>utils.ts\<close>, \<^verbatim>\<open>auth.ts\<close>, \<^verbatim>\<open>operator-session.ts\<close>, and enrollment, nonces and credentials in
    \<^verbatim>\<open>db.ts\<close>.  An accepted request is genuine and never accepted again; an enrollment token admits one agent.
  \<^item> \<open>Login\<close>: \<^verbatim>\<open>login-throttle.ts\<close>, \<^verbatim>\<open>tailnet.ts\<close>, the login route and \<^verbatim>\<open>requireOperatorAuth\<close>.
  \<^item> \<open>Messaging\<close>: \<^verbatim>\<open>createMessage\<close>, \<^verbatim>\<open>createOperatorMessage\<close>, \<^verbatim>\<open>resumeConversation\<close>, rooms and the synthetic
    operator agent.  A message reaches exactly its audience, fleets do not mix, nobody else acts as the operator.
  \<^item> \<open>Inbox\<close>: \<^verbatim>\<open>getInbox\<close> with its context, the floor, the catch-up tail, sent messages and acknowledgements.  The floor is
    used through the locale \<open>lease\<close>, interpreted on \<^verbatim>\<open>acquireFloor\<close> and \<^verbatim>\<open>releaseFloor\<close>.
  \<^item> \<open>Delivery\<close>: retry, dead letters and expiry.  Sends, polls, acknowledgements and sweeps together refine an abstract
    lifecycle of a delivery (\<open>life_step\<close>).
  \<^item> \<open>Governance\<close>: heartbeats, operator controls, the liveness sweep and the quarantine for abuse.
  \<^item> \<open>Limits\<close>: the message and the upload limit.  The locale \<open>window_limiter\<close> states what a fixed-window limiter
    promises and bounds every run; it is interpreted on both limits, and in \<open>Gate\<close> on the send route itself.
  \<^item> \<open>Approvals\<close>: proposed actions and their approval.  Runs keep a log of the calls: an operator of the fleet decides once, the agent that asked reports.
  \<^item> \<open>Gate\<close>: policies, \<^verbatim>\<open>message-gate.ts\<close> and \<^verbatim>\<open>POST /v1/messages\<close> from the authenticated agent to \<^verbatim>\<open>createMessage\<close>.  Here the
    components meet: a hold of \<open>Governance\<close> silences the agent that \<open>Auth\<close> authenticates, \<open>Limits\<close> bounds what gets
    through, \<open>Auth\<close>'s nonces make an envelope acceptable once in the member of the request that is meant for it.
  \<^item> \<open>Retention\<close>: the batched sweeps of events and heartbeats, through the locale \<open>retention\<close>, and stall notices.
  \<^item> \<open>Attachments\<close>: \<^verbatim>\<open>attachments.ts\<close>, the upload routes, and rows and bytes; the disk is a map beside the store.
  \<^item> \<open>Feed_Source\<close>, \<open>Feeds\<close>: \<^verbatim>\<open>feeds.ts\<close> and the feeds of \<^verbatim>\<open>db.ts\<close>.  The regular expressions of the parser are searches over the text; it reads back
    what a printer of RSS writes.  Every address that is fetched passes the guard, redirects included.  A poll is cut at its fetch; over all interleavings no
    item is delivered twice, and the deliveries keep the invariant of \<open>Delivery\<close>.
  \<^item> \<open>A2A\<close>: \<^verbatim>\<open>a2a/task-store.ts\<close>, \<^verbatim>\<open>a2a/methods.ts\<close>, \<^verbatim>\<open>a2a/jsonrpc.ts\<close> and the routes: tasks over the same gate and message
    tables.  An agent sees only tasks it takes part in, a finished task stays finished, and sends over both
    transports share one limit.
  \<^item> \<open>Envelope\<close>: the SDK's \<^verbatim>\<open>verify.ts\<close> and the batch verdicts, wake gate and signed sends of \<^verbatim>\<open>verification.ts\<close>.  What a peer
    signs verifies at the recipient, and in require mode nothing else of a peer wakes an agent.
  \<^item> \<open>Trust_Root\<close>: the SDK's \<^verbatim>\<open>store.ts\<close> and \<^verbatim>\<open>syncPinnedOperatorKeys\<close>.  Whatever the relay serves, the pinned keys are never
    emptied, grow only along endorsements, and a tombstone is lifted only by a signed unrevocation of it.
  \<^item> \<open>Mcp_Store\<close>, \<open>Mcp_Agent\<close>, \<open>Mcp_OAuth\<close>: the MCP connector's message ring, its polling agent on top of \<open>Envelope\<close> and
    \<open>Trust_Root\<close>, and its bearer and OAuth authentication.  Nothing acknowledged is lost or handed out twice, and access
    needs the operator's password.
  \<^item> \<open>Stash\<close>, \<open>Wake_Gate\<close>, \<open>Inbox_Cache\<close>: the parts of the plugin's loop.  A message is known by its id and the digest of its canonical
    text, and its verdict belongs to both: held-back work keeps its own verdicts and loses them with the keys they
    rest on (\<open>Stash\<close>); rate gate, turn budget and progress signals bound what teammates can wake, and what require mode refuses is
    recorded (\<open>Wake_Gate\<close>); what was rejected while the ring held it never reads as verified, and a passing verdict is shown only under the trust it was
    computed in, which a log of the verifications pins down (\<open>Inbox_Cache\<close>).
  \<^item> \<open>Admission\<close>, \<open>Auto_Reply\<close>: the tick of that loop, from a polled batch to the turns, on top of the three and of \<open>Envelope\<close>.  The tick is
    cut at its awaits into phases; \<open>loop_step\<close> takes one await at a time with any answer, and \<^verbatim>\<open>stop()\<close> at any moment.  Acknowledged work is
    accounted for in every reachable state, but for a conversation named \<^verbatim>\<open>__proto__\<close>, which the code loses, and every tick ends.
  \<^item> \<open>Inbox_Trust\<close>: the plugin's \<^verbatim>\<open>inbox-trust.ts\<close> and the tool \<^verbatim>\<open>ekho_inbox\<close> over \<open>Inbox_Cache\<close>.  What \<open>Inbox_Cache\<close> knows as rejected is shown as rejected ever after, and a
    label of operator authority has grounds.

  \<^bold>\<open>How the code is read.\<close>  A row is a record with the columns of its table; a nullable column is an option.  Instants are
  integers, milliseconds since the epoch; texts that clients chose stay texts.  JSON columns hold the parsed value, and numbers
  in JSON are integers.  An operation reads the clock once, although the code may read it a few times within one call.
  Identifiers come from a stream of random UUIDs of which the store counts the draws; theorems that need them
  distinct say so (\<^term>\<open>inj U\<close>).  An operation that throws is a value of a sum or option type; a transaction that throws
  leaves the store as it was.  A query without \<^verbatim>\<open>ORDER BY\<close> yields rows in table order.  Foreign keys are modelled where a
  call can run into them (a recipient without a row, the system operator's email).  Request bodies are taken after
  their schema accepted them.  A plain object that the code uses as a table by message or agent id is the list of its members; the tables of
  \<^verbatim>\<open>planFloorTurn\<close>, by conversation ids that senders choose, follow the rules of JavaScript objects (\<open>object_put\<close>, \<open>object_entries\<close>).  A message too deeply
  nested to be serialized is uncomparable, as in the code (\<open>materialDigest\<close>).  Characters are code units below 256.  Requests are served one after another, as the synchronous
  database driver does; the hooks of extensions are taken as immediate.

  \<^bold>\<open>Parameters.\<close>  Ed25519, SHA-256, HMAC and scrypt, base64, the reading of dates that are not ISO, UUIDs, other random draws,
  \<^verbatim>\<open>URL\<close>, the hooks of licensed extensions and the outcomes of file operations are arguments.  Theorems that speak of forgery read
  signatures symbolically: what verifies under a key was signed with it.

  \<^bold>\<open>Loops.\<close>  There is no fuel: every loop of the modelled code is over a finite list of rows, a walk along
  endorsements that is bounded by the set of visited keys (\<open>trust_walk\<close>, with its termination measure), or the retention loop
  of at most ten batches.  A loop that drops the oldest entries of a table until it fits is \<open>keep_last\<close>.  A tick of the plugin is a
  sequence of steps, and \<open>tick_terminates\<close> shows that it is finite.

  \<^bold>\<open>Not modelled.\<close>  The listings and the health board of the console, the A2A agent card and streaming, and the routes that
  only parse a body and call one modelled operation; the SDK's HTTP client, the prompts and the host glue of the OpenClaw plugin, the HTTP server and
  tools of the MCP connector and the console of the browser; process start, TLS, licensing, migrations and metrics.
\<close>

end
